(* ===== verification/Mixer_Prelude.thy ===== *)
theory Mixer_Prelude
  imports Complex_Main "HOL-Library.Word" "HOL-Library.Signed_Division"
begin

unbundle bit_operations_syntax

text \<open>
  Shared vocabulary of the development: the outcomes of C++ code that does not return normally
  (a failed \<open>RTC_CHECK\<close>, undefined behaviour, a thrown allocation error), the result monad over
  them, \<open>int32_t\<close> and \<open>size_t\<close> arithmetic with the language's rules written out, binary32
  values, blocks of raw memory whose cells may be uninitialised, and the list lemmas that the
  component theories use.
\<close>

section \<open>Outcomes and the result monad\<close>

datatype fault =
    CheckFailed string
  | DivideByZero
  | SignedOverflow
  | OutOfBounds
  | NullPointer
  | Uninitialised
  | UseAfterFree
  | TypeConfusion
  | BadAlloc
  | BadConversion
  | BadShift

type_synonym 'a result = "fault + 'a"

named_theorems result_simps \<open>equations that run the result monad\<close>

definition rbind :: "'a result \<Rightarrow> ('a \<Rightarrow> 'b result) \<Rightarrow> 'b result" where
  "rbind m f = (case m of Inl e \<Rightarrow> Inl e | Inr x \<Rightarrow> f x)"

definition is_ok :: "'a result \<Rightarrow> bool" where
  "is_ok m = (case m of Inl _ \<Rightarrow> False | Inr _ \<Rightarrow> True)"

definition rguard :: "bool \<Rightarrow> fault \<Rightarrow> unit result" where
  "rguard b e = (if b then Inr () else Inl e)"

text \<open>\<open>RTC_CHECK\<close> always tests its condition; \<open>RTC_DCHECK\<close> only when
  \<open>RTC_DCHECK_IS_ON\<close> (the first argument).\<close>

definition rtc_check :: "bool \<Rightarrow> string \<Rightarrow> unit result" where
  "rtc_check b msg = rguard b (CheckFailed msg)"

definition rtc_dcheck :: "bool \<Rightarrow> bool \<Rightarrow> unit result" where
  "rtc_dcheck dcheck_is_on b = rguard (dcheck_is_on \<longrightarrow> b) (CheckFailed ''DCHECK'')"

definition raises_only :: "fault set \<Rightarrow> 'a result \<Rightarrow> bool" where
  "raises_only F m \<longleftrightarrow> (case m of Inl e \<Rightarrow> e \<in> F | Inr _ \<Rightarrow> True)"

text \<open>One turn of a loop: leave it with a result, or go on from a new state.\<close>

datatype ('r, 's) loop_step = Break 'r | Continue 's

section \<open>Machine integers of the C++ code\<close>

text \<open>An \<open>int32_t\<close> is an \<^typ>\<open>int\<close> in range; leaving the range is signed overflow and division
  truncates towards zero. A \<open>size_t\<close> is a \<^typ>\<open>nat\<close> below \<open>2^64\<close>: its sums wrap, and a negative
  \<open>int32_t\<close> converts to it modulo \<open>2^64\<close>.\<close>

type_synonym int32 = int
type_synonym size_t = nat

definition in_int32 :: "int \<Rightarrow> bool" where
  "in_int32 x \<longleftrightarrow> - (2 ^ 31) \<le> x \<and> x < 2 ^ 31"

definition c_int32 :: "int \<Rightarrow> int32 result" where
  "c_int32 x = (if in_int32 x then Inr x else Inl SignedOverflow)"

definition c_div :: "int32 \<Rightarrow> int32 \<Rightarrow> int32 result" where
  "c_div a b = (if b = 0 then Inl DivideByZero else c_int32 (a sdiv b))"

definition c_mul :: "int32 \<Rightarrow> int32 \<Rightarrow> int32 result" where
  "c_mul a b = c_int32 (a * b)"

definition size_mod :: nat where
  "size_mod = 2 ^ 64"

definition to_size_t :: "int32 \<Rightarrow> size_t" where
  "to_size_t x = nat (x mod int size_mod)"

definition sz_add :: "size_t \<Rightarrow> size_t \<Rightarrow> size_t" where
  "sz_add a b = (a + b) mod size_mod"

definition sz_sub :: "size_t \<Rightarrow> size_t \<Rightarrow> size_t" where
  "sz_sub a b = (a + (size_mod - b)) mod size_mod"

definition sz_mul :: "size_t \<Rightarrow> size_t \<Rightarrow> size_t" where
  "sz_mul a b = (a * b) mod size_mod"

section \<open>Floating-point values\<close>

text \<open>A \<open>float\<close> or \<open>double\<close> is a finite rational, an infinity or a NaN; every comparison with a NaN is false.\<close>

datatype cfloat = Finite rat | Infinite bool | NaN

fun cf_less :: "cfloat \<Rightarrow> cfloat \<Rightarrow> bool" where
  "cf_less NaN _ = False"
| "cf_less _ NaN = False"
| "cf_less (Finite x) (Finite y) = (x < y)"
| "cf_less (Finite _) (Infinite negative) = (\<not> negative)"
| "cf_less (Infinite negative) (Finite _) = negative"
| "cf_less (Infinite n1) (Infinite n2) = (n1 \<and> \<not> n2)"

section \<open>Blocks of memory\<close>

text \<open>A cell is \<^const>\<open>None\<close> until something is stored in it. A pointer is \<^const>\<open>None\<close> (null) or
  the block it points to, from the pointer to the end of its allocation.\<close>

type_synonym 'a cells = "'a option list"
type_synonym 'a block = "'a cells option"

definition cells_of :: "'a block \<Rightarrow> 'a cells" where
  "cells_of p = (case p of None \<Rightarrow> [] | Some m \<Rightarrow> m)"

definition mem_copy :: "'a block \<Rightarrow> nat \<Rightarrow> 'a cells \<Rightarrow> nat \<Rightarrow> 'a block result" where
  \<comment> \<open>\<open>memcpy(dst + off, src, n)\<close>, counted in elements\<close>
  "mem_copy dst off src n =
     (if n = 0 then Inr dst
      else if length src < n then Inl OutOfBounds
      else case dst of
             None \<Rightarrow> Inl NullPointer
           | Some m \<Rightarrow>
               if off + n \<le> length m
               then Inr (Some (take off m @ take n src @ drop (off + n) m))
               else Inl OutOfBounds)"

definition mem_zero :: "'a::zero block \<Rightarrow> nat \<Rightarrow> nat \<Rightarrow> 'a block result" where
  \<comment> \<open>\<open>ExplicitZeroMemory(dst + off, n)\<close>, counted in elements\<close>
  "mem_zero dst off n = mem_copy dst off (replicate n (Some 0)) n"

section \<open>Lemmas\<close>

lemma rbind_Inl [simp, result_simps]: "rbind (Inl e) f = Inl e"
  by (simp add: rbind_def)

lemma rbind_Inr [simp, result_simps]: "rbind (Inr x) f = f x"
  by (simp add: rbind_def)

lemma rbind_eq_Inr: "rbind m f = Inr y \<longleftrightarrow> (\<exists>x. m = Inr x \<and> f x = Inr y)"
  by (cases m) simp_all

lemma rbind_assoc: "rbind (rbind m f) g = rbind m (\<lambda>x. rbind (f x) g)"
  by (cases m) simp_all

lemma is_ok_iff: "is_ok m \<longleftrightarrow> (\<exists>x. m = Inr x)"
  by (cases m) (simp_all add: is_ok_def)

lemma rguard_simps [simp, result_simps]:
  "rguard True e = Inr ()" "rguard False e = Inl e"
  by (simp_all add: rguard_def)

lemma rguard_eq_Inr [simp]: "rguard b e = Inr u \<longleftrightarrow> b"
  by (simp add: rguard_def)

lemma rtc_check_simps [simp, result_simps]:
  "rtc_check True msg = Inr ()" "rtc_check False msg = Inl (CheckFailed msg)"
  by (simp_all add: rtc_check_def)

lemma rtc_check_eq_Inr [simp]: "rtc_check b msg = Inr u \<longleftrightarrow> b"
  by (simp add: rtc_check_def)

lemma rtc_dcheck_True [simp, result_simps]: "rtc_dcheck on True = Inr ()"
  by (simp add: rtc_dcheck_def)

lemma rtc_dcheck_off [simp, result_simps]: "rtc_dcheck False b = Inr ()"
  by (simp add: rtc_dcheck_def)

lemma rtc_dcheck_ok [simp]: "b \<Longrightarrow> rtc_dcheck on b = Inr ()"
  by simp

lemma rtc_dcheck_eq_Inr: "rtc_dcheck on b = Inr u \<longleftrightarrow> (on \<longrightarrow> b)"
  by (simp add: rtc_dcheck_def)

lemma raises_only_Inl [simp]: "raises_only F (Inl e) \<longleftrightarrow> e \<in> F"
  by (simp add: raises_only_def)

lemma raises_only_Inr [simp]: "raises_only F (Inr x)"
  by (simp add: raises_only_def)

lemma raises_only_bind: "raises_only F m \<Longrightarrow> (\<And>x. m = Inr x \<Longrightarrow> raises_only F (f x)) \<Longrightarrow> raises_only F (rbind m f)"
  by (cases m) simp_all

lemma raises_only_if: "raises_only F m \<Longrightarrow> raises_only F m' \<Longrightarrow> raises_only F (if b then m else m')"
  by simp

lemma raises_onlyD: "raises_only F m \<Longrightarrow> e \<notin> F \<Longrightarrow> m \<noteq> Inl e"
  by auto

lemma raises_only_dcheck: "CheckFailed ''DCHECK'' \<in> F \<Longrightarrow> raises_only F (rtc_dcheck on b)"
  by (simp add: rtc_dcheck_def rguard_def)

lemma c_int32_ok: "in_int32 x \<Longrightarrow> c_int32 x = Inr x"
  by (simp add: c_int32_def)

lemma sdiv_nonneg_eq: "0 \<le> a \<Longrightarrow> 0 \<le> b \<Longrightarrow> a sdiv b = a div b" for a b :: int
  by (simp add: signed_divide_int_def sgn_if zdiv_eq_0_iff)

lemma div_le_dividend_int: "0 \<le> a \<Longrightarrow> 0 < b \<Longrightarrow> a div b \<le> a" for a b :: int
  using zdiv_mono2 [of a 1 b] by simp

lemma c_div_pos: "0 \<le> a \<Longrightarrow> 0 < b \<Longrightarrow> in_int32 a \<Longrightarrow> c_div a b = Inr (a div b)"
proof -
  assume a: "0 \<le> a" and b: "0 < b" and r: "in_int32 a"
  have "0 \<le> a div b" "a div b \<le> a"
    using a b by (simp_all add: pos_imp_zdiv_nonneg_iff div_le_dividend_int)
  then have "in_int32 (a div b)"
    using r by (simp add: in_int32_def)
  then show ?thesis
    using a b by (simp add: c_div_def c_int32_def sdiv_nonneg_eq)
qed

lemma to_size_t_nonneg: "0 \<le> x \<Longrightarrow> in_int32 x \<Longrightarrow> to_size_t x = nat x"
  by (simp add: to_size_t_def size_mod_def in_int32_def)

lemma to_size_t_neg: "x < 0 \<Longrightarrow> in_int32 x \<Longrightarrow> to_size_t x = size_mod - nat (- x)"
proof -
  assume "x < 0" "in_int32 x"
  then have "(x + int size_mod) mod int size_mod = x + int size_mod"
    by (intro mod_pos_pos_trivial) (simp_all add: size_mod_def in_int32_def)
  then have "x mod int size_mod = x + int size_mod" by simp
  then show ?thesis
    using \<open>x < 0\<close> \<open>in_int32 x\<close> by (simp add: to_size_t_def size_mod_def in_int32_def nat_diff_distrib)
qed

lemma sz_add_small: "a + b < size_mod \<Longrightarrow> sz_add a b = a + b"
  by (simp add: sz_add_def)

lemma sz_sub_small: "b \<le> a \<Longrightarrow> a < size_mod \<Longrightarrow> sz_sub a b = a - b"
proof -
  assume "b \<le> a" "a < size_mod"
  then have "a + (size_mod - b) = (a - b) + size_mod" by simp
  then show ?thesis using \<open>a < size_mod\<close> by (simp only: sz_sub_def mod_add_self2) simp
qed

lemma sz_mul_small: "a * b < size_mod \<Longrightarrow> sz_mul a b = a * b"
  by (simp add: sz_mul_def)

lemma cells_of_simps [simp]: "cells_of None = []" "cells_of (Some m) = m"
  by (simp_all add: cells_of_def)

lemma mem_copy_zero [simp]: "mem_copy dst off src 0 = Inr dst"
  by (simp add: mem_copy_def)

lemma mem_copy_ok:
  "n \<le> length src \<Longrightarrow> off + n \<le> length m \<Longrightarrow>
   mem_copy (Some m) off src n = Inr (Some (take off m @ take n src @ drop (off + n) m))"
  by (simp add: mem_copy_def)

lemma mem_copy_null: "0 < n \<Longrightarrow> n \<le> length src \<Longrightarrow> mem_copy None off src n = Inl NullPointer"
  by (simp add: mem_copy_def)

lemma mem_copy_overread: "length src < n \<Longrightarrow> mem_copy dst off src n = Inl OutOfBounds"
  by (simp add: mem_copy_def)

lemma mem_zero_ok:
  "off + n \<le> length m \<Longrightarrow>
   mem_zero (Some m) off n = Inr (Some (take off m @ replicate n (Some 0) @ drop (off + n) m))"
  by (simp add: mem_zero_def mem_copy_ok)

lemma mem_zero_zero [simp]: "mem_zero dst off 0 = Inr dst"
  by (simp add: mem_zero_def)

lemma raises_only_mem_copy: "{OutOfBounds, NullPointer} \<subseteq> F \<Longrightarrow> raises_only F (mem_copy dst off src n)"
  by (auto simp: mem_copy_def split: option.split)

end
