(* ===== verification/Av_Common.thy ===== *)
theory Av_Common
  imports Mixer_Prelude
begin

text \<open>
  The integer helpers of FFmpeg's \<open>libavutil/common.h\<close>
  (\<open>src/libs/ffmpeg/include/libavutil/common.h\<close>), which every FFmpeg call of the mixer is
  compiled with: rounding macros, the branch-free clipping functions, saturating addition, the
  parallel bit count and the four-character tags. The fixed-width functions are over words, so that
  negation, shifts and sums wrap exactly as the machine's; the type-generic macros are over
  \<^typ>\<open>int\<close>, which is their value whenever no intermediate result leaves the operand type.
  The lemmas show that each bit trick equals its specification.
\<close>

unbundle bit_operations_syntax

type_synonym cint = "32 word"
type_synonym cint64 = "64 word"

section \<open>Rounding and comparison macros\<close>

definition RSHIFT :: "int \<Rightarrow> nat \<Rightarrow> int" where
  "RSHIFT a b =
     (if a > 0 then drop_bit b (a + drop_bit 1 (push_bit b 1))
      else drop_bit b (a + drop_bit 1 (push_bit b 1) - 1))"

definition ROUNDED_DIV :: "int \<Rightarrow> int \<Rightarrow> int" where
  "ROUNDED_DIV a b = (if a > 0 then a + drop_bit 1 b else a - drop_bit 1 b) sdiv b"

definition AV_CEIL_RSHIFT :: "bool \<Rightarrow> int \<Rightarrow> nat \<Rightarrow> int" where
  \<comment> \<open>the first argument is \<open>av_builtin_constant_p(b)\<close>\<close>
  "AV_CEIL_RSHIFT constant a b =
     (if \<not> constant then - drop_bit b (- a) else drop_bit b (a + push_bit b 1 - 1))"

definition FFUDIV :: "int \<Rightarrow> int \<Rightarrow> int" where
  "FFUDIV a b = (if a > 0 then a else a - b + 1) sdiv b"

definition FFUMOD :: "int \<Rightarrow> int \<Rightarrow> int" where
  "FFUMOD a b = a - b * FFUDIV a b"

definition FFABS :: "int \<Rightarrow> int" where
  "FFABS a = (if a \<ge> 0 then a else - a)"

definition FFSIGN :: "int \<Rightarrow> int" where
  "FFSIGN a = (if a > 0 then 1 else - 1)"

definition FFNABS :: "int \<Rightarrow> int" where
  "FFNABS a = (if a \<le> 0 then a else - a)"

definition FFDIFFSIGN :: "int \<Rightarrow> int \<Rightarrow> int" where
  "FFDIFFSIGN x y = of_bool (x > y) - of_bool (x < y)"

definition FFMAX :: "int \<Rightarrow> int \<Rightarrow> int" where
  "FFMAX a b = (if a > b then a else b)"

definition FFMAX3 :: "int \<Rightarrow> int \<Rightarrow> int \<Rightarrow> int" where
  "FFMAX3 a b c = FFMAX (FFMAX a b) c"

definition FFMIN :: "int \<Rightarrow> int \<Rightarrow> int" where
  "FFMIN a b = (if a > b then b else a)"

definition FFMIN3 :: "int \<Rightarrow> int \<Rightarrow> int \<Rightarrow> int" where
  "FFMIN3 a b c = FFMIN (FFMIN a b) c"

definition FFSWAP :: "'a \<times> 'a \<Rightarrow> 'a \<times> 'a" where
  "FFSWAP = (\<lambda>(a, b). let SWAP_tmp = b; b = a; a = SWAP_tmp in (a, b))"

section \<open>Clipping\<close>

definition av_clip_c :: "cint \<Rightarrow> cint \<Rightarrow> cint \<Rightarrow> cint" where
  "av_clip_c a amin amax =
     (if sint a < sint amin then amin else if sint a > sint amax then amax else a)"

definition av_clip64_c :: "cint64 \<Rightarrow> cint64 \<Rightarrow> cint64 \<Rightarrow> cint64" where
  "av_clip64_c a amin amax =
     (if sint a < sint amin then amin else if sint a > sint amax then amax else a)"

definition av_clip_uint8_c :: "cint \<Rightarrow> 8 word" where
  "av_clip_uint8_c a =
     (if a AND NOT 0xFF \<noteq> 0 then ucast (signed_drop_bit 31 (- a)) else ucast a)"

definition av_clip_int8_c :: "cint \<Rightarrow> 8 word" where
  "av_clip_int8_c a =
     (if (a + 0x80) AND NOT 0xFF \<noteq> 0 then ucast (signed_drop_bit 31 a XOR 0x7F) else ucast a)"

definition av_clip_uint16_c :: "cint \<Rightarrow> 16 word" where
  "av_clip_uint16_c a =
     (if a AND NOT 0xFFFF \<noteq> 0 then ucast (signed_drop_bit 31 (- a)) else ucast a)"

definition av_clip_int16_c :: "cint \<Rightarrow> 16 word" where
  "av_clip_int16_c a =
     (if (a + 0x8000) AND NOT 0xFFFF \<noteq> 0 then ucast (signed_drop_bit 31 a XOR 0x7FFF) else ucast a)"

definition av_clipl_int32_c :: "cint64 \<Rightarrow> cint" where
  "av_clipl_int32_c a =
     (if (a + 0x80000000) AND NOT 0xFFFFFFFF \<noteq> 0
      then ucast (signed_drop_bit 63 a XOR 0x7FFFFFFF) else ucast a)"

definition av_clip_intp2_c :: "cint \<Rightarrow> nat \<Rightarrow> cint" where
  "av_clip_intp2_c a p =
     (if (a + push_bit p 1) AND NOT (push_bit p 2 - 1) \<noteq> 0
      then signed_drop_bit 31 a XOR (push_bit p 1 - 1) else a)"

definition av_clip_uintp2_c :: "cint \<Rightarrow> nat \<Rightarrow> cint" where
  "av_clip_uintp2_c a p =
     (if a AND NOT (push_bit p 1 - 1) \<noteq> 0
      then signed_drop_bit 31 (- a) AND (push_bit p 1 - 1) else a)"

definition av_mod_uintp2_c :: "cint \<Rightarrow> nat \<Rightarrow> cint" where
  "av_mod_uintp2_c a p = a AND (push_bit p 1 - 1)"

definition av_sat_add32_c :: "cint \<Rightarrow> cint \<Rightarrow> cint" where
  "av_sat_add32_c a b = av_clipl_int32_c (scast a + scast b)"

definition av_sat_dadd32_c :: "cint \<Rightarrow> cint \<Rightarrow> cint" where
  "av_sat_dadd32_c a b = av_sat_add32_c a (av_sat_add32_c b b)"

definition av_clipf_c :: "cfloat \<Rightarrow> cfloat \<Rightarrow> cfloat \<Rightarrow> cfloat" where
  "av_clipf_c a amin amax = (if cf_less a amin then amin else if cf_less amax a then amax else a)"

definition av_clipd_c :: "cfloat \<Rightarrow> cfloat \<Rightarrow> cfloat \<Rightarrow> cfloat" where
  "av_clipd_c a amin amax = (if cf_less a amin then amin else if cf_less amax a then amax else a)"

section \<open>Logarithm and bit count\<close>

text \<open>\<open>av_log2\<close> is implemented in the library, so it is an argument.\<close>

definition av_ceil_log2_c :: "(cint \<Rightarrow> nat) \<Rightarrow> cint \<Rightarrow> nat" where
  "av_ceil_log2_c av_log2 x = av_log2 (push_bit 1 (x - 1))"

definition av_popcount_c :: "cint \<Rightarrow> cint" where
  "av_popcount_c x0 =
     (let x = x0 - (drop_bit 1 x0 AND 0x55555555);
          x = (x AND 0x33333333) + (drop_bit 2 x AND 0x33333333);
          x = (x + drop_bit 4 x) AND 0x0F0F0F0F;
          x = x + drop_bit 8 x
      in (x + drop_bit 16 x) AND 0x3F)"

definition av_popcount64_c :: "cint64 \<Rightarrow> cint" where
  "av_popcount64_c x = av_popcount_c (ucast x) + av_popcount_c (ucast (drop_bit 32 x))"

definition av_parity_c :: "cint \<Rightarrow> cint" where
  "av_parity_c v = av_popcount_c v AND 1"

section \<open>Tags\<close>

definition MKTAG :: "cint \<Rightarrow> cint \<Rightarrow> cint \<Rightarrow> cint \<Rightarrow> cint" where
  "MKTAG a b c d = a OR push_bit 8 b OR push_bit 16 c OR push_bit 24 d"

definition MKBETAG :: "cint \<Rightarrow> cint \<Rightarrow> cint \<Rightarrow> cint \<Rightarrow> cint" where
  "MKBETAG a b c d = d OR push_bit 8 c OR push_bit 16 b OR push_bit 24 a"

section \<open>Words as signed and unsigned integers\<close>

lemma and_not_mask_eq_0: "w AND NOT (mask k) = 0 \<longleftrightarrow> uint w < 2 ^ k" for w :: "'a::len word"
proof -
  have "w AND NOT (mask k) = 0 \<longleftrightarrow> take_bit k w = w"
    by (auto simp: bit_eq_iff bit_simps)
  also have "\<dots> \<longleftrightarrow> take_bit k (uint w) = uint w"
    by (metis unsigned_take_bit_eq word_uint_eqI)
  also have "\<dots> \<longleftrightarrow> uint w < 2 ^ k"
    by (simp add: take_bit_int_eq_self_iff)
  finally show ?thesis .
qed

lemma sint_eq_iff: "sint v = sint w \<longleftrightarrow> v = w" for v w :: "'a::len word"
  using signed_word_eqI by blast
  
lemma div_minus_one: "- m \<le> x \<Longrightarrow> x < 0 \<Longrightarrow> x div m = - 1" for x m :: int
  by (rule int_div_pos_eq [of _ _ _ "x + m"]) simp_all

lemma mod_window:
  fixes x c N w lo :: int
  assumes "lo \<le> x" "x + c < N" "0 \<le> lo + c + N" "w \<le> lo + c + N"
  shows "(x + c) mod N < w \<longleftrightarrow> 0 \<le> x + c \<and> x + c < w"
proof (cases "0 \<le> x + c")
  case True
  with assms show ?thesis by simp
next
  case False
  have "(x + c) mod N = (x + c + N) mod N" by simp
  also have "\<dots> = x + c + N" using assms False by (intro mod_pos_pos_trivial) simp_all
  finally show ?thesis using assms False by simp
qed

lemma signed_drop_bit_sign32: "signed_drop_bit 31 w = (if sint w < 0 then - 1 else 0)" for w :: "32 word"
proof -
  have r: "- (2 ^ 31) \<le> sint w" "sint w < 2 ^ 31"
    using sint_greater_eq [of w] sint_less [of w] by simp_all
  have "sint (signed_drop_bit 31 w) = sint w div 2 ^ 31"
    by (simp add: sint_signed_drop_bit_eq drop_bit_eq_div)
  also have "\<dots> = (if sint w < 0 then - 1 else 0)"
    using r div_minus_one [of "2 ^ 31" "sint w"] by (simp add: div_pos_pos_trivial)
  finally have "sint (signed_drop_bit 31 w) = sint (if sint w < 0 then - 1 else (0 :: 32 word))"
    by simp
  then show ?thesis by (simp only: sint_eq_iff)
qed

lemma uint_add_sint: "uint (a + b) = (sint a + uint b) mod 2 ^ LENGTH('a)" for a b :: "'a::len word"
proof -
  have "a + b = word_of_int (sint a + uint b)" by simp
  then show ?thesis by (metis uint_word_of_int)
qed

lemma sint_ucast_small: "- (2 ^ (LENGTH('b) - 1)) \<le> sint a \<Longrightarrow> sint a < 2 ^ (LENGTH('b) - 1) \<Longrightarrow> LENGTH('b) \<le> LENGTH('a) \<Longrightarrow> sint (ucast a :: 'b::len word) = sint a" for a :: "'a::len word"
proof -
  assume r: "- (2 ^ (LENGTH('b) - 1)) \<le> sint a" "sint a < 2 ^ (LENGTH('b) - 1)" "LENGTH('b) \<le> LENGTH('a)"
  have "(ucast a :: 'b word) = word_of_int (uint a)" by simp
  also have "\<dots> = word_of_int (sint a)"
    using r(3) by (simp add: word_of_int_eq_iff uint_sint min_def del: of_int_sint of_int_uint)
  finally show ?thesis
    using r by (simp add: sint_sbintrunc' signed_take_bit_int_eq_self del: of_int_sint of_int_uint)
qed


lemma sint_bounds32: "- (2 ^ 31) \<le> sint a" "sint a < 2 ^ 31" for a :: cint
  using sint_greater_eq [of a] sint_less [of a] by simp_all

lemma push_bit_one_word: "push_bit p (1 :: 'a::len word) - 1 = mask p"
  by (simp add: mask_eq_exp_minus_1 push_bit_eq_mult)

lemma signed_window32:
  fixes a :: cint
  assumes "p \<le> 30"
  shows "(a + push_bit p 1) AND NOT (mask (Suc p)) = 0 \<longleftrightarrow> - (2 ^ p) \<le> sint a \<and> sint a < 2 ^ p"
proof -
  have p: "(2::int) ^ p \<le> 2 ^ 30"
    using assms by (rule power_increasing) simp
  have "push_bit p 1 = (word_of_int (2 ^ p) :: cint)"
    by (simp add: push_bit_eq_mult)
  then have "uint (push_bit p 1 :: cint) = 2 ^ p"
    using p by (simp add: uint_word_of_int del: of_int_power)
  then have "(a + push_bit p 1) AND NOT (mask (Suc p)) = 0 \<longleftrightarrow> (sint a + 2 ^ p) mod 2 ^ 32 < 2 ^ Suc p"
    by (simp add: and_not_mask_eq_0 uint_add_sint)
  also have "\<dots> \<longleftrightarrow> 0 \<le> sint a + 2 ^ p \<and> sint a + 2 ^ p < 2 ^ Suc p"
    using sint_bounds32 [of a] p by (intro mod_window [of "- (2 ^ 31)"]) simp_all
  finally show ?thesis by auto
qed

lemma unsigned_window32:
  fixes a :: cint
  assumes "p \<le> 31"
  shows "a AND NOT (mask p) = 0 \<longleftrightarrow> 0 \<le> sint a \<and> sint a < 2 ^ p"
proof -
  have p: "(2::int) ^ p \<le> 2 ^ 31"
    using assms by (rule power_increasing) simp
  have "a AND NOT (mask p) = 0 \<longleftrightarrow> (sint a + 0) mod 2 ^ 32 < 2 ^ p"
    using uint_add_sint [of a 0] by (simp add: and_not_mask_eq_0)
  also have "\<dots> \<longleftrightarrow> 0 \<le> sint a + 0 \<and> sint a + 0 < 2 ^ p"
    using sint_bounds32 [of a] p by (intro mod_window [of "- (2 ^ 31)"]) simp_all
  finally show ?thesis by simp
qed

lemma sint_neg32: "sint a \<noteq> - (2 ^ 31) \<Longrightarrow> sint (- a) = - sint a" for a :: cint
proof -
  assume "sint a \<noteq> - (2 ^ 31)"
  moreover have "- a = word_of_int (- sint a)" by simp
  ultimately show ?thesis
    using sint_bounds32 [of a] by (simp add: sint_sbintrunc' signed_take_bit_int_eq_self del: of_int_minus)
qed

lemma av_clip_int8_spec: "sint (av_clip_int8_c a) = max (- 128) (min 127 (sint a))"
proof -
  have w: "(a + 0x80) AND NOT 0xFF = 0 \<longleftrightarrow> - 128 \<le> sint a \<and> sint a < 128"
    using signed_window32 [of 7 a] by (simp add: push_bit_eq_mult mask_eq_exp_minus_1)
  have "- 128 \<le> sint a \<Longrightarrow> sint a < 128 \<Longrightarrow> sint (ucast a :: 8 word) = sint a"
    by (rule sint_ucast_small) simp_all
  with w show ?thesis
    by (auto simp: av_clip_int8_c_def signed_drop_bit_sign32)
qed

lemma av_clip_int16_spec: "sint (av_clip_int16_c a) = max (- 32768) (min 32767 (sint a))"
proof -
  have w: "(a + 0x8000) AND NOT 0xFFFF = 0 \<longleftrightarrow> - 32768 \<le> sint a \<and> sint a < 32768"
    using signed_window32 [of 15 a] by (simp add: push_bit_eq_mult mask_eq_exp_minus_1)
  have "- 32768 \<le> sint a \<Longrightarrow> sint a < 32768 \<Longrightarrow> sint (ucast a :: 16 word) = sint a"
    by (rule sint_ucast_small) simp_all
  with w show ?thesis
    by (auto simp: av_clip_int16_c_def signed_drop_bit_sign32)
qed

lemma uint_ucast_small: "0 \<le> sint a \<Longrightarrow> sint a < 2 ^ LENGTH('b) \<Longrightarrow> LENGTH('b) \<le> LENGTH('a) \<Longrightarrow> uint (ucast a :: 'b::len word) = sint a"
  for a :: "'a::len word"
proof -
  assume r: "0 \<le> sint a" "sint a < 2 ^ LENGTH('b)" "LENGTH('b) \<le> LENGTH('a)"
  have "(ucast a :: 'b word) = word_of_int (uint a)" by simp
  also have "\<dots> = word_of_int (sint a)"
    using r(3) by (simp add: word_of_int_eq_iff uint_sint min_def del: of_int_sint of_int_uint)
  finally show ?thesis
    using r by (simp add: uint_word_of_int del: of_int_sint of_int_uint)
qed

lemma ucast_minus_one_down: "LENGTH('b) \<le> LENGTH('a) \<Longrightarrow> (ucast (- 1 :: 'a::len word) :: 'b::len word) = - 1"
  by (rule bit_word_eqI) (simp add: bit_simps)

lemma av_clip_uint8_spec:
  "sint a \<noteq> - (2 ^ 31) \<Longrightarrow> uint (av_clip_uint8_c a) = max 0 (min 255 (sint a))"
proof -
  assume a: "sint a \<noteq> - (2 ^ 31)"
  have w: "a AND NOT 0xFF = 0 \<longleftrightarrow> 0 \<le> sint a \<and> sint a < 256"
    using unsigned_window32 [of 8 a] by (simp add: mask_eq_exp_minus_1)
  have "0 \<le> sint a \<Longrightarrow> sint a < 256 \<Longrightarrow> uint (ucast a :: 8 word) = sint a"
    by (rule uint_ucast_small) simp_all
  with w sint_neg32 [OF a] show ?thesis
    by (auto simp: av_clip_uint8_c_def signed_drop_bit_sign32 ucast_minus_one_down
        unsigned_minus_1_eq_mask mask_eq_exp_minus_1)
qed

lemma av_clip_uint16_spec:
  "sint a \<noteq> - (2 ^ 31) \<Longrightarrow> uint (av_clip_uint16_c a) = max 0 (min 65535 (sint a))"
proof -
  assume a: "sint a \<noteq> - (2 ^ 31)"
  have w: "a AND NOT 0xFFFF = 0 \<longleftrightarrow> 0 \<le> sint a \<and> sint a < 65536"
    using unsigned_window32 [of 16 a] by (simp add: mask_eq_exp_minus_1)
  have "0 \<le> sint a \<Longrightarrow> sint a < 65536 \<Longrightarrow> uint (ucast a :: 16 word) = sint a"
    by (rule uint_ucast_small) simp_all
  with w sint_neg32 [OF a] show ?thesis
    by (auto simp: av_clip_uint16_c_def signed_drop_bit_sign32 ucast_minus_one_down
        unsigned_minus_1_eq_mask mask_eq_exp_minus_1)
qed

lemma sint_mask32: "p \<le> 31 \<Longrightarrow> sint (mask p :: cint) = 2 ^ p - 1"
proof -
  assume "p \<le> 31"
  then have "(2::int) ^ p \<le> 2 ^ 31" by (rule power_increasing) simp
  moreover have "(mask p :: cint) = word_of_int (2 ^ p - 1)"
    by (simp add: mask_eq_exp_minus_1)
  moreover have "(0::int) \<le> 2 ^ p" by simp
  then have "- 2147483648 < (2::int) ^ p" by linarith
  ultimately show ?thesis
    using signed_take_bit_int_eq_self [of 31 "2 ^ p - 1"]
    by (simp add: sint_sbintrunc' del: of_int_diff of_int_power)
qed

lemma av_clip_intp2_spec:
  assumes "p \<le> 30"
  shows "sint (av_clip_intp2_c a p) = max (- (2 ^ p)) (min (2 ^ p - 1) (sint a))"
proof -
  have m: "push_bit p 2 - 1 = (mask (Suc p) :: cint)"
    by (simp add: mask_eq_exp_minus_1 push_bit_eq_mult)
  have p: "(2::int) ^ p \<le> 2 ^ 30"
    using assms by (rule power_increasing) simp
  have "NOT (mask p :: cint) = word_of_int (- (2 ^ p))"
    by (simp add: not_eq_complement mask_eq_exp_minus_1)
  moreover have "signed_take_bit 31 (- (2 ^ p)) = (- (2 ^ p) :: int)"
    using p by (intro signed_take_bit_int_eq_self) (simp_all add: order.strict_trans1 [of _ 0])
  ultimately have "sint (NOT (mask p :: cint)) = - (2 ^ p)"
    by (simp add: sint_sbintrunc' del: of_int_minus of_int_power)
  moreover have "(0::int) \<le> 2 ^ p" by simp
  then have "0 \<le> sint a \<Longrightarrow> - (2 ^ p) \<le> sint a" by linarith
  ultimately show ?thesis
    using signed_window32 [OF assms, of a] sint_mask32 [of p] assms
    unfolding av_clip_intp2_c_def m push_bit_one_word signed_drop_bit_sign32 by auto
qed

lemma av_clip_uintp2_spec:
  assumes "p \<le> 31" and a: "sint a \<noteq> - (2 ^ 31)"
  shows "sint (av_clip_uintp2_c a p) = max 0 (min (2 ^ p - 1) (sint a))"
  using unsigned_window32 [OF assms(1), of a] sint_mask32 [OF assms(1)] sint_neg32 [OF a]
  unfolding av_clip_uintp2_c_def push_bit_one_word signed_drop_bit_sign32 by auto

section \<open>The parallel bit count\<close>

text \<open>A word is read as a list of digits of a given width; each line of \<open>av_popcount_c\<close> adds
  neighbouring digits into digits of twice the width, without carries between them.\<close>

fun digs :: "nat \<Rightarrow> int list \<Rightarrow> int" where
  "digs w [] = 0"
| "digs w (d # ds) = d + 2 ^ w * digs w ds"

definition in_digs :: "nat \<Rightarrow> int list \<Rightarrow> bool" where
  "in_digs w ds \<longleftrightarrow> (\<forall>d \<in> set ds. 0 \<le> d \<and> d < 2 ^ w)"

lemma in_digs_simps [simp]: "in_digs w []" "in_digs w (d # ds) \<longleftrightarrow> 0 \<le> d \<and> d < 2 ^ w \<and> in_digs w ds"
  by (auto simp: in_digs_def)

lemma bit_digit:
  fixes k z :: int
  assumes "0 \<le> k" "k < 2 ^ w"
  shows "bit (k + 2 ^ w * z) n \<longleftrightarrow> (if n < w then bit k n else bit z (n - w))"
proof -
  have k: "take_bit w k = k" using assms by (simp add: take_bit_int_eq_self)
  then have bk: "bit k m \<Longrightarrow> m < w" for m by (metis bit_take_bit_iff)
  have "bit (k + push_bit w z) n \<longleftrightarrow> bit k n \<or> bit (push_bit w z) n"
    by (rule bit_disjunctive_add_iff) (auto simp: bit_push_bit_iff_int dest: bk)
  moreover have "k + 2 ^ w * z = k + push_bit w z" by (simp add: push_bit_eq_mult mult.commute)
  ultimately show ?thesis using bk by (auto simp only: bit_push_bit_iff_int split: if_splits)
qed

lemma and_digit:
  fixes d m x y :: int
  assumes "0 \<le> d" "d < 2 ^ w" "0 \<le> m" "m < 2 ^ w"
  shows "(d + 2 ^ w * x) AND (m + 2 ^ w * y) = (d AND m) + 2 ^ w * (x AND y)"
proof -
  have "0 \<le> d AND m" "d AND m < 2 ^ w"
    using assms by (simp_all add: order.strict_trans1 [OF AND_upper1])
  with assms show ?thesis
    by (intro bit_eqI) (simp add: bit_digit bit_and_iff)
qed

lemma and_digs: "length ds = length ms \<Longrightarrow> in_digs w ds \<Longrightarrow> in_digs w ms \<Longrightarrow>
   digs w ds AND digs w ms = digs w (map2 (AND) ds ms)"
  by (induction ds ms rule: list_induct2) (simp_all add: and_digit)

lemma digs_nonneg: "in_digs w ds \<Longrightarrow> 0 \<le> digs w ds"
  by (induction ds) simp_all

lemma drop_digs: "in_digs w [d] \<Longrightarrow> drop_bit w (digs w (d # ds)) = digs w ds"
  by (simp add: drop_bit_eq_div)

lemma add_digs: "length ds = length es \<Longrightarrow> digs w (map2 (+) ds es) = digs w ds + digs w es"
  by (induction ds es rule: list_induct2) (simp_all add: algebra_simps)

lemma digs_snoc_zero: "digs w (ds @ [0]) = digs w ds"
  by (induction ds) simp_all

lemma digs_bound: "in_digs w ds \<Longrightarrow> digs w ds < 2 ^ (w * length ds)"
proof (induction ds)
  case (Cons d ds)
  then have "2 ^ w * (digs w ds + 1) \<le> 2 ^ w * 2 ^ (w * length ds)" by simp
  with Cons.prems show ?case by (simp add: power_add algebra_simps)
qed simp

fun pairup :: "'a list \<Rightarrow> ('a \<times> 'a) list" where
  "pairup (a # b # ds) = (a, b) # pairup ds"
| "pairup _ = []"

definition padd :: "int list \<Rightarrow> int list" where
  "padd ds = map (\<lambda>(a, b). a + b) (pairup ds)"

lemma digs_pairup: "even (length ds) \<Longrightarrow> digs w ds = digs (2 * w) (map (\<lambda>(a, b). a + 2 ^ w * b) (pairup ds))"
  by (induction ds rule: pairup.induct) (simp_all add: mult_2 power_add distrib_left)

lemma length_pairup [simp]: "length (pairup ds) = length ds div 2"
  by (induction ds rule: pairup.induct) simp_all

lemma set_pairup: "(a, b) \<in> set (pairup ds) \<Longrightarrow> a \<in> set ds \<and> b \<in> set ds"
  by (induction ds rule: pairup.induct) auto

lemma padd_props:
  assumes "even (length ds)" "\<forall>d \<in> set ds. 0 \<le> d \<and> d \<le> k"
  shows "length (padd ds) = length ds div 2" "\<forall>d \<in> set (padd ds). 0 \<le> d \<and> d \<le> 2 * k" "sum_list (padd ds) = sum_list ds"
proof -
  show "length (padd ds) = length ds div 2" by (simp add: padd_def)
  show "\<forall>d \<in> set (padd ds). 0 \<le> d \<and> d \<le> 2 * k"
  proof
    fix d assume "d \<in> set (padd ds)"
    then obtain a b where "(a, b) \<in> set (pairup ds)" "d = a + b" by (auto simp: padd_def)
    with assms(2) have "0 \<le> a \<and> a \<le> k" "0 \<le> b \<and> b \<le> k" by (blast dest: set_pairup)+
    with \<open>d = a + b\<close> show "0 \<le> d \<and> d \<le> 2 * k" by simp
  qed
  show "sum_list (padd ds) = sum_list ds"
    using assms(1) unfolding padd_def by (induction ds rule: pairup.induct) simp_all
qed

definition in_fields :: "nat \<Rightarrow> (int \<times> int) list \<Rightarrow> bool" where
  "in_fields w ps \<longleftrightarrow> (\<forall>(a, b) \<in> set ps. 0 \<le> a \<and> a < 2 ^ w \<and> 0 \<le> b \<and> b < 2 ^ w)"

lemma pow_double: "(2::int) ^ (2 * w) = 2 ^ w * 2 ^ w"
  by (simp add: mult_2 power_add)

lemma field_bound:
  assumes "0 \<le> a" "a < 2 ^ w" "0 \<le> b" "b < 2 ^ w"
  shows "0 \<le> a + 2 ^ w * b" "a + 2 ^ w * b < (2::int) ^ (2 * w)"
proof -
  show "0 \<le> a + 2 ^ w * b" using assms by simp
  have "2 ^ w * (b + 1) \<le> 2 ^ w * (2 :: int) ^ w" using assms by simp
  then show "a + 2 ^ w * b < (2::int) ^ (2 * w)" using assms by (simp only: pow_double) (simp add: algebra_simps)
qed

lemma fields_low:
  "in_fields w ps \<Longrightarrow> digs (2 * w) (map (\<lambda>(a, b). a + 2 ^ w * b) ps) AND digs (2 * w) (replicate (length ps) (mask w)) =
   digs (2 * w) (map fst ps)"
proof (induction ps)
  case (Cons p ps)
  obtain a b where p: "p = (a, b)" by fastforce
  with Cons.prems have r: "0 \<le> a" "a < 2 ^ w" "0 \<le> b" "b < 2 ^ w" "in_fields w ps"
    by (auto simp: in_fields_def)
  have m: "0 \<le> (mask w :: int)" "mask w < (2 :: int) ^ (2 * w)"
    by (simp_all add: mask_eq_exp_minus_1 less_le_trans [OF _ power_increasing [of w "2 * w"]])
  have "(a + 2 ^ w * b) AND mask w = a"
    using r by (simp add: take_bit_eq_mask [symmetric] take_bit_eq_mod)
  with p Cons.IH [OF r(5)] field_bound [OF r(1-4)] m show ?case by (simp add: and_digit)
qed simp

lemma fields_high:
  "in_fields w ps \<Longrightarrow> drop_bit w (digs (2 * w) (map (\<lambda>(a, b). a + 2 ^ w * b) ps)) AND digs (2 * w) (replicate (length ps) (mask w)) =
   digs (2 * w) (map snd ps)"
proof (induction ps)
  case (Cons p ps)
  obtain a b where p: "p = (a, b)" by fastforce
  with Cons.prems have r: "0 \<le> a" "a < 2 ^ w" "0 \<le> b" "b < 2 ^ w" "in_fields w ps"
    by (auto simp: in_fields_def)
  let ?R = "digs (2 * w) (map (\<lambda>(a, b). a + 2 ^ w * b) ps)"
  have m: "0 \<le> (mask w :: int)" "mask w < (2 :: int) ^ (2 * w)"
    by (simp_all add: mask_eq_exp_minus_1 less_le_trans [OF _ power_increasing [of w "2 * w"]])
  have "drop_bit w (a + 2 ^ w * b + 2 ^ (2 * w) * ?R) = b + 2 ^ w * ?R"
  proof -
    have e: "a + 2 ^ w * b + 2 ^ (2 * w) * ?R = a + 2 ^ w * (b + 2 ^ w * ?R)"
      by (simp only: pow_double) (simp add: algebra_simps)
    show ?thesis unfolding e using r by (simp add: drop_bit_eq_div)
  qed
  also have "\<dots> = (b + 2 ^ w * (?R mod 2 ^ w)) + 2 ^ (2 * w) * drop_bit w ?R"
  proof -
    have "?R = ?R mod 2 ^ w + 2 ^ w * drop_bit w ?R" by (simp add: drop_bit_eq_div)
    then have "2 ^ w * ?R = 2 ^ w * (?R mod 2 ^ w) + 2 ^ w * (2 ^ w * drop_bit w ?R)"
      by (metis distrib_left)
    then show ?thesis by (simp add: mult_2 power_add)
  qed
  finally have e: "drop_bit w (a + 2 ^ w * b + 2 ^ (2 * w) * ?R) = (b + 2 ^ w * (?R mod 2 ^ w)) + 2 ^ (2 * w) * drop_bit w ?R" .
  have "(b + 2 ^ w * (?R mod 2 ^ w)) AND mask w = b"
    using r by (simp add: take_bit_eq_mask [symmetric] take_bit_eq_mod)
  then show ?case
    using p Cons.IH [OF r(5)] field_bound [OF r(3,4), of "?R mod 2 ^ w"] m by (simp add: e and_digit)
qed simp

lemma uint_bits: "uint x = digs 1 (map (\<lambda>i. of_bool (bit x i)) [0..<LENGTH('a)])" for x :: "'a::len word"
proof -
  have h: "digs 1 (map of_bool bs) = horner_sum of_bool 2 bs" for bs
    by (induction bs) simp_all
  have e: "map (bit (uint x)) [0..<LENGTH('a)] = map (bit x) [0..<LENGTH('a)]"
    by (simp add: bit_uint_iff)
  have "digs 1 (map (\<lambda>i. of_bool (bit x i)) [0..<LENGTH('a)]) =
      horner_sum of_bool 2 (map (bit (uint x)) [0..<LENGTH('a)])"
    using h [of "map (bit x) [0..<LENGTH('a)]"] by (simp add: comp_def e)
  also have "\<dots> = uint x"
    by (simp only: horner_sum_bit_eq_take_bit) (simp add: take_bit_int_eq_self)
  finally show ?thesis ..
qed


lemma in_fields_pairup: "\<forall>d \<in> set ds. 0 \<le> d \<and> d < 2 ^ w \<Longrightarrow> in_fields w (pairup ds)"
  by (auto simp: in_fields_def dest: set_pairup)

lemma popcount_stage1:
  assumes "length bs = 32" "\<forall>d \<in> set bs. 0 \<le> d \<and> d \<le> 1"
  shows "digs 1 bs - (drop_bit 1 (digs 1 bs) AND 0x55555555) = digs 2 (padd bs)"
proof -
  let ?ps = "pairup bs"
  have f: "in_fields 1 ?ps" using assms(2) by (intro in_fields_pairup) auto
  have x: "digs 1 bs = digs 2 (map (\<lambda>(a, b). a + 2 * b) ?ps)"
    using digs_pairup [of bs 1] assms(1) by simp
  have "digs 2 (replicate 16 (mask 1)) = 0x55555555" by code_simp
  then have "(0x55555555 :: int) = digs 2 (replicate (length ?ps) (mask 1))"
    using assms(1) by simp
  with fields_high [OF f] have y: "drop_bit 1 (digs 1 bs) AND 0x55555555 = digs 2 (map snd ?ps)"
    unfolding x by simp
  have "digs 2 (map (\<lambda>(a, b). a + 2 * b) ps) - digs 2 (map snd ps) = digs 2 (map (\<lambda>(a, b). a + b) ps)" for ps
    by (induction ps) auto
  then show ?thesis unfolding y unfolding x padd_def .
qed

lemma popcount_stage2:
  assumes "length cs = 16" "\<forall>d \<in> set cs. 0 \<le> d \<and> d \<le> 2"
  shows "(digs 2 cs AND 0x33333333) + (drop_bit 2 (digs 2 cs) AND 0x33333333) = digs 4 (padd cs)"
proof -
  let ?ps = "pairup cs"
  have f: "in_fields 2 ?ps" using assms(2) by (intro in_fields_pairup) auto
  have x: "digs 2 cs = digs 4 (map (\<lambda>(a, b). a + 4 * b) ?ps)"
    using digs_pairup [of cs 2] assms(1) by simp
  have "digs 4 (replicate 8 (mask 2)) = 0x33333333" by code_simp
  then have "(0x33333333 :: int) = digs 4 (replicate (length ?ps) (mask 2))"
    using assms(1) by simp
  with fields_high [OF f] fields_low [OF f]
  have y: "digs 2 cs AND 0x33333333 = digs 4 (map fst ?ps)" "drop_bit 2 (digs 2 cs) AND 0x33333333 = digs 4 (map snd ?ps)"
    unfolding x by simp_all
  have "digs 4 (map fst ps) + digs 4 (map snd ps) = digs 4 (map (\<lambda>(a, b). a + b) ps)" for ps
    by (induction ps) auto
  then show ?thesis unfolding y padd_def .
qed


lemma popcount_stage3:
  assumes "length ds = 8" "\<forall>d \<in> set ds. 0 \<le> d \<and> d \<le> 4"
  shows "(digs 4 ds + drop_bit 4 (digs 4 ds)) AND 0x0F0F0F0F = digs 8 (padd ds)"
proof -
  obtain d0 d1 d2 d3 d4 d5 d6 d7 where ds: "ds = [d0, d1, d2, d3, d4, d5, d6, d7]"
    using assms(1) by (auto simp: numeral_eq_Suc length_Suc_conv)
  have "drop_bit 4 (digs 4 ds) = digs 4 [d1, d2, d3, d4, d5, d6, d7, 0]"
    using drop_digs [of 4 d0 "[d1, d2, d3, d4, d5, d6, d7]"] assms(2) by (simp add: ds)
  then have "digs 4 ds + drop_bit 4 (digs 4 ds) =
      digs 4 [d0 + d1, d1 + d2, d2 + d3, d3 + d4, d4 + d5, d5 + d6, d6 + d7, d7]"
    by (simp add: ds)
  also have "\<dots> = digs 8 (map (\<lambda>(a, b). a + 16 * b)
      [(d0 + d1, d1 + d2), (d2 + d3, d3 + d4), (d4 + d5, d5 + d6), (d6 + d7, d7)])"
    by simp
  finally have x: "digs 4 ds + drop_bit 4 (digs 4 ds) = digs 8 (map (\<lambda>(a, b). a + 16 * b)
      [(d0 + d1, d1 + d2), (d2 + d3, d3 + d4), (d4 + d5, d5 + d6), (d6 + d7, d7)])" .
  have "in_fields 4 [(d0 + d1, d1 + d2), (d2 + d3, d3 + d4), (d4 + d5, d5 + d6), (d6 + d7, d7)]"
    using assms(2) by (simp add: in_fields_def ds)
  from fields_low [OF this] show ?thesis
    unfolding x by (simp add: padd_def ds mask_eq_exp_minus_1)
qed

lemma popcount_stage4:
  assumes "length es = 4" "\<forall>d \<in> set es. 0 \<le> d \<and> d \<le> 8"
  shows "((digs 8 es + drop_bit 8 (digs 8 es)) + drop_bit 16 (digs 8 es + drop_bit 8 (digs 8 es))) AND 0x3F = sum_list es"
proof -
  obtain e0 e1 e2 e3 where es: "es = [e0, e1, e2, e3]"
    using assms(1) by (auto simp: numeral_eq_Suc length_Suc_conv)
  have "drop_bit 8 (digs 8 es) = digs 8 [e1, e2, e3]"
    unfolding es using assms(2) by (intro drop_digs) (simp add: es)
  then have y: "digs 8 es + drop_bit 8 (digs 8 es) = digs 8 [e0 + e1, e1 + e2, e2 + e3, e3]"
    by (simp add: es)
  have "drop_bit 16 (digs 8 [e0 + e1, e1 + e2, e2 + e3, e3]) =
      drop_bit 8 (drop_bit 8 (digs 8 [e0 + e1, e1 + e2, e2 + e3, e3]))"
    by (simp only: drop_bit_drop_bit) simp
  also have "drop_bit 8 (digs 8 [e0 + e1, e1 + e2, e2 + e3, e3]) = digs 8 [e1 + e2, e2 + e3, e3]"
    using assms(2) by (intro drop_digs) (simp add: es)
  also have "drop_bit 8 (digs 8 [e1 + e2, e2 + e3, e3]) = digs 8 [e2 + e3, e3]"
    using assms(2) by (intro drop_digs) (simp add: es)
  finally have z: "digs 8 [e0 + e1, e1 + e2, e2 + e3, e3] + drop_bit 16 (digs 8 [e0 + e1, e1 + e2, e2 + e3, e3]) =
      digs 8 [e0 + e1 + e2 + e3, e1 + e2 + e3, e2 + e3, e3]"
    by simp
  have "digs 8 [e0 + e1 + e2 + e3, e1 + e2 + e3, e2 + e3, e3] AND 0x3F = digs 8 [e0 + e1 + e2 + e3, e1 + e2 + e3, e2 + e3, e3] AND digs 8 [63, 0, 0, 0]"
    by simp
  also have "\<dots> = (e0 + e1 + e2 + e3) AND 63"
    using assms(2) by (subst and_digs) (simp_all add: es)
  also have "\<dots> = take_bit 6 (e0 + e1 + e2 + e3)"
    by (simp add: take_bit_eq_mask mask_eq_exp_minus_1)
  also have "\<dots> = e0 + e1 + e2 + e3"
    using assms(2) by (simp add: es take_bit_int_eq_self)
  finally show ?thesis unfolding y z by (simp add: es)
qed

lemma uint_add_small: "uint a + uint b < 2 ^ LENGTH('a) \<Longrightarrow> uint (a + b) = uint a + uint b" for a b :: "'a::len word"
  by (simp add: uint_word_ariths)

lemma uint_sub_small: "uint b \<le> uint a \<Longrightarrow> uint (a - b) = uint a - uint b" for a b :: "'a::len word"
  by (simp add: uint_sub_lem)

lemma sum_list_bits: "sum_list (map (\<lambda>i. of_bool (P i)) [0..<n]) = int (card {i. i < n \<and> P i})"
proof -
  have "sum_list (map (\<lambda>i. of_bool (P i) :: int) [0..<n]) = (\<Sum>i \<in> {0..<n}. of_bool (P i))"
    by (simp add: sum_list_distinct_conv_sum_set)
  also have "\<dots> = int (card ({0..<n} \<inter> {i. P i}))"
    by (simp add: sum_of_bool_eq)
  also have "{0..<n} \<inter> {i. P i} = {i. i < n \<and> P i}" by auto
  finally show ?thesis .
qed

lemma uint_drop_bit: "uint (drop_bit n x) = drop_bit n (uint x)" for x :: "'a::len word"
  by (simp add: unsigned_drop_bit_eq take_bit_int_eq_self)

lemma digs_le: "\<forall>d \<in> set ds. d \<le> k \<Longrightarrow> digs w ds \<le> k * digs w (replicate (length ds) 1)"
proof (induction ds)
  case (Cons d ds)
  then have "digs w ds \<le> k * digs w (replicate (length ds) 1)" by simp
  then have "2 ^ w * digs w ds \<le> 2 ^ w * (k * digs w (replicate (length ds) 1))"
    by (rule mult_left_mono) simp
  with Cons.prems have "d + 2 ^ w * digs w ds \<le> k + 2 ^ w * (k * digs w (replicate (length ds) 1))"
    by (intro add_mono) simp_all
  then show ?case by (simp add: distrib_left mult.left_commute)
qed simp

lemma drop_bit_le_self: "0 \<le> x \<Longrightarrow> drop_bit n x \<le> x" for x :: int
  by (simp add: drop_bit_eq_div div_le_dividend_int)

lemma av_popcount_spec: "uint (av_popcount_c x) = int (card {i. bit x i})"
proof -
  let ?bs = "map (\<lambda>i. of_bool (bit x i)) [0..<32] :: int list"
  have b: "length ?bs = 32" "\<forall>d \<in> set ?bs. 0 \<le> d \<and> d \<le> 1" by auto
  have x: "uint x = digs 1 ?bs" using uint_bits [of x] by simp
  have 1: "length (padd ?bs) = 16" "\<forall>d \<in> set (padd ?bs). 0 \<le> d \<and> d \<le> 2" "sum_list (padd ?bs) = sum_list ?bs"
    using padd_props [OF _ b(2)] by simp_all
  have 2: "length (padd (padd ?bs)) = 8" "\<forall>d \<in> set (padd (padd ?bs)). 0 \<le> d \<and> d \<le> 4" "sum_list (padd (padd ?bs)) = sum_list ?bs"
    using padd_props [OF _ 1(2)] 1 by simp_all
  have 3: "length (padd (padd (padd ?bs))) = 4" "\<forall>d \<in> set (padd (padd (padd ?bs))). 0 \<le> d \<and> d \<le> 8" "sum_list (padd (padd (padd ?bs))) = sum_list ?bs"
    using padd_props [OF _ 2(2)] 2 by simp_all
  define x1 where "x1 = x - (drop_bit 1 x AND 0x55555555)"
  define x2 where "x2 = (x1 AND 0x33333333) + (drop_bit 2 x1 AND 0x33333333)"
  define x3 where "x3 = (x2 + drop_bit 4 x2) AND 0x0F0F0F0F"
  define x4 where "x4 = x3 + drop_bit 8 x3"
  have "0 \<le> digs 2 (padd ?bs)"
    using 1(2) by (intro digs_nonneg) (auto simp: in_digs_def)
  then have u1: "uint x1 = digs 2 (padd ?bs)"
    unfolding x1_def using popcount_stage1 [OF b]
    by (subst uint_sub_small) (simp_all add: unsigned_and_eq uint_drop_bit x)
  have "digs 4 (padd (padd ?bs)) \<le> 4 * digs 4 (replicate 8 1)"
    using digs_le [of "padd (padd ?bs)" 4 4] 2 by simp
  also have "digs 4 (replicate 8 1) = 0x11111111" by code_simp
  finally have l2: "digs 4 (padd (padd ?bs)) \<le> 0x44444444" by simp
  have u2: "uint x2 = digs 4 (padd (padd ?bs))"
    unfolding x2_def using popcount_stage2 [OF 1(1,2)] l2
    by (subst uint_add_small) (simp_all add: unsigned_and_eq uint_drop_bit u1)
  have "digs 8 (padd (padd (padd ?bs))) \<le> 8 * digs 8 (replicate 4 1)"
    using digs_le [of "padd (padd (padd ?bs))" 8 8] 3 by simp
  also have "digs 8 (replicate 4 1) = 0x01010101" by code_simp
  finally have l3: "digs 8 (padd (padd (padd ?bs))) \<le> 0x08080808" by simp
  have d2: "drop_bit 4 (uint x2) \<le> uint x2" by (rule drop_bit_le_self) simp
  have u3: "uint x3 = digs 8 (padd (padd (padd ?bs)))"
    unfolding x3_def using popcount_stage3 [OF 2(1,2)] l2 d2
    by (simp add: unsigned_and_eq uint_drop_bit u2 uint_add_small)
  have d3: "drop_bit 8 (uint x3) \<le> uint x3" by (rule drop_bit_le_self) simp
  have u4: "uint x4 = digs 8 (padd (padd (padd ?bs))) + drop_bit 8 (digs 8 (padd (padd (padd ?bs))))"
    unfolding x4_def using l3 d3
    by (simp add: uint_drop_bit u3 uint_add_small)
  have d4: "drop_bit 16 (uint x4) \<le> uint x4" by (rule drop_bit_le_self) simp
  have "uint x4 + drop_bit 16 (uint x4) < 2 ^ 32"
    using l3 d3 d4 by (simp add: u3 u4)
  then have "uint ((x4 + drop_bit 16 x4) AND 0x3F) = sum_list ?bs"
    using popcount_stage4 [OF 3(1,2)] 3(3)
    by (simp add: unsigned_and_eq uint_drop_bit uint_add_small u4 del: sum_list_map_eq_sum_count)
  also have "\<dots> = int (card {i. bit x i})"
    unfolding sum_list_bits by (rule arg_cong [where f = "\<lambda>A. int (card A)"]) (auto dest: bit_imp_le_length)
  finally show ?thesis
    by (simp only: av_popcount_c_def x1_def x2_def x3_def x4_def Let_def)
qed

section \<open>Sixty-four-bit clipping, saturation, and the remaining helpers\<close>

lemma sint_bounds64: "- (2 ^ 63) \<le> sint a" "sint a < 2 ^ 63" for a :: cint64
  using sint_greater_eq [of a] sint_less [of a] by simp_all

lemma signed_drop_bit_sign64: "signed_drop_bit 63 w = (if sint w < 0 then - 1 else 0)" for w :: cint64
proof -
  have "sint (signed_drop_bit 63 w) = sint w div 2 ^ 63"
    by (simp add: sint_signed_drop_bit_eq drop_bit_eq_div)
  also have "\<dots> = (if sint w < 0 then - 1 else 0)"
    using sint_bounds64 [of w] div_minus_one [of "2 ^ 63" "sint w"] by (simp add: div_pos_pos_trivial)
  finally have "sint (signed_drop_bit 63 w) = sint (if sint w < 0 then - 1 else (0 :: cint64))"
    by simp
  then show ?thesis by (simp only: sint_eq_iff)
qed

lemma av_clipl_int32_spec: "sint (av_clipl_int32_c a) = max (- (2 ^ 31)) (min (2 ^ 31 - 1) (sint a))"
proof -
  have "(0xFFFFFFFF :: cint64) = mask 32" by (simp add: mask_eq_exp_minus_1)
  then have "(a + 0x80000000) AND NOT 0xFFFFFFFF = 0 \<longleftrightarrow> (sint a + 2 ^ 31) mod 2 ^ 64 < 2 ^ 32"
    by (simp only: and_not_mask_eq_0 uint_add_sint) simp
  also have "\<dots> \<longleftrightarrow> 0 \<le> sint a + 2 ^ 31 \<and> sint a + 2 ^ 31 < 2 ^ 32"
    using sint_bounds64 [of a] by (intro mod_window [of "- (2 ^ 63)"]) simp_all
  finally have w: "(a + 0x80000000) AND NOT 0xFFFFFFFF = 0 \<longleftrightarrow> - (2 ^ 31) \<le> sint a \<and> sint a < 2 ^ 31"
    by auto
  have "- (2 ^ 31) \<le> sint a \<Longrightarrow> sint a < 2 ^ 31 \<Longrightarrow> sint (ucast a :: cint) = sint a"
    by (rule sint_ucast_small) simp_all
  with w show ?thesis
    by (auto simp: av_clipl_int32_c_def signed_drop_bit_sign64)
qed

lemma sint_scast_up: "sint (scast a :: cint64) = sint a" for a :: cint
  by (rule sint_up_scast) (simp add: is_up)

lemma av_sat_add32_spec:
  "sint (av_sat_add32_c a b) = max (- (2 ^ 31)) (min (2 ^ 31 - 1) (sint a + sint b))"
proof -
  have "(scast a + scast b :: cint64) = word_of_int (sint a + sint b)"
    using sint_scast_up [of a] sint_scast_up [of b] by (metis of_int_add of_int_sint)
  then have "sint (scast a + scast b :: cint64) = sint a + sint b"
    using sint_bounds32 [of a] sint_bounds32 [of b] signed_take_bit_int_eq_self [of 63 "sint a + sint b"]
    by (simp add: sint_sbintrunc' del: of_int_add)
  then show ?thesis by (simp add: av_sat_add32_c_def av_clipl_int32_spec)
qed

lemma finite_bits: "finite {i. bit x i}" for x :: "'a::len word"
  by (rule finite_subset [of _ "{..<LENGTH('a)}"]) (auto dest: bit_imp_le_length)

lemma av_popcount64_spec: "uint (av_popcount64_c x) = int (card {i. bit x i})"
proof -
  let ?lo = "ucast x :: cint" and ?hi = "ucast (drop_bit 32 x) :: cint"
  have lo: "{i. bit ?lo i} = {i. bit x i \<and> i < 32}"
    by (auto simp: bit_simps)
  have hi: "(\<lambda>i. i + 32) ` {i. bit ?hi i} = {i. bit x i \<and> 32 \<le> i}"
  proof -
    have "bit x i \<and> 32 \<le> i \<longleftrightarrow> (\<exists>j. i = j + 32 \<and> bit ?hi j)" for i
    proof
      assume i: "bit x i \<and> 32 \<le> i"
      then have "i < 64" using bit_imp_le_length [of x i] by simp
      with i show "\<exists>j. i = j + 32 \<and> bit ?hi j"
        by (intro exI [of _ "i - 32"]) (simp add: bit_simps)
    next
      assume "\<exists>j. i = j + 32 \<and> bit ?hi j"
      then show "bit x i \<and> 32 \<le> i" by (auto simp: bit_simps add.commute)
    qed
    then show ?thesis by auto
  qed
  have "card {i. bit ?hi i} = card {i. bit x i \<and> 32 \<le> i}"
    unfolding hi [symmetric] by (rule card_image [symmetric]) simp
  moreover have "card {i. bit x i} = card {i. bit x i \<and> i < 32} + card {i. bit x i \<and> 32 \<le> i}"
    using finite_bits [of x] by (subst card_Un_disjoint [symmetric]) (auto intro: arg_cong [where f = card])
  moreover have "card {i. bit x i} \<le> 64"
    using card_mono [of "{..<64}" "{i. bit x i}"] bit_imp_le_length [of x] by fastforce
  ultimately show ?thesis
    by (simp add: av_popcount64_c_def uint_add_small av_popcount_spec lo)
qed

lemma av_parity_spec: "av_parity_c x = of_bool (odd (card {i. bit x i}))"
proof -
  have "uint (av_parity_c x) = int (card {i. bit x i}) mod 2"
    unfolding av_parity_c_def unsigned_and_eq by (simp add: av_popcount_spec and_one_eq)
  also have "\<dots> = uint (of_bool (odd (card {i. bit x i})) :: cint)"
    by (simp add: mod2_eq_if)
  finally show ?thesis by (simp only: word_uint_eq_iff)
qed

lemma FFUDIV_floor: "0 < b \<Longrightarrow> FFUDIV a b = a div b"
proof -
  assume b: "0 < b"
  show ?thesis
  proof (cases "a > 0")
    case True
    with b show ?thesis by (simp add: FFUDIV_def sdiv_nonneg_eq)
  next
    case False
    have "(a - b + 1) sdiv b = - ((- (a - b + 1)) div b)"
      using False b by (simp add: signed_divide_int_def sgn_if)
    also have "- (a - b + 1) = b - 1 - a" by simp
    also have "- ((b - 1 - a) div b) = a div b"
    proof -
      have "a mod b \<ge> 0" "a mod b < b" using b by simp_all
      have "b - 1 - a = b * (- (a div b)) + (b - 1 - a mod b)"
        using mult_div_mod_eq [of b a] by (simp add: algebra_simps)
      then have "(b - 1 - a) div b = - (a div b)"
        by (rule int_div_pos_eq) (use b pos_mod_sign [OF b, of a] pos_mod_bound [OF b, of a] in linarith)+
      then show ?thesis by simp
    qed
    finally show ?thesis using False by (simp add: FFUDIV_def)
  qed
qed

lemma FFUMOD_mod: "0 < b \<Longrightarrow> FFUMOD a b = a mod b"
  by (simp add: FFUMOD_def FFUDIV_floor minus_mult_div_eq_mod)

lemma AV_CEIL_RSHIFT_ceil: "AV_CEIL_RSHIFT constant a b = - ((- a) div 2 ^ b)"
proof -
  have "(a + (2 ^ b - 1)) div 2 ^ b = - ((- a) div 2 ^ b)"
  proof -
    have "a + (2 ^ b - 1) = 2 ^ b * (- ((- a) div 2 ^ b)) + (2 ^ b - 1 - (- a) mod 2 ^ b)"
      using mult_div_mod_eq [of "2 ^ b" "- a"] by (simp add: algebra_simps)
    moreover have "0 \<le> (- a) mod 2 ^ b" "(- a) mod 2 ^ b < 2 ^ b" by simp_all
    ultimately show ?thesis
      by (intro int_div_pos_eq [of _ _ _ "2 ^ b - 1 - (- a) mod 2 ^ b"]) linarith+
  qed
  then show ?thesis
    by (simp add: AV_CEIL_RSHIFT_def drop_bit_eq_div push_bit_eq_mult algebra_simps)
qed

lemma ROUNDED_DIV_nearest: "0 < b \<Longrightarrow> 2 * \<bar>a - b * ROUNDED_DIV a b\<bar> \<le> b"
proof -
  assume b: "0 < b"
  define h where "h = b div 2"
  have h: "2 * h \<le> b" "b \<le> 2 * h + 1" "0 \<le> h" using b by (simp_all add: h_def) 
  show ?thesis
  proof (cases "a > 0")
    case True
    have "ROUNDED_DIV a b = (a + h) div b"
      using True b h(3) by (simp add: ROUNDED_DIV_def drop_bit_eq_div h_def sdiv_nonneg_eq)
    then have "b * ROUNDED_DIV a b = a + h - (a + h) mod b" by (simp add: minus_mod_eq_mult_div)
    with h pos_mod_sign [OF b, of "a + h"] pos_mod_bound [OF b, of "a + h"] show ?thesis by (simp add: abs_if)
  next
    case False
    have "ROUNDED_DIV a b = - ((h - a) div b)"
      using False b h(3) by (simp add: ROUNDED_DIV_def drop_bit_eq_div h_def [symmetric] signed_divide_int_def sgn_if)
    then have "b * ROUNDED_DIV a b = - (h - a - (h - a) mod b)" by (simp add: minus_mod_eq_mult_div)
    with h pos_mod_sign [OF b, of "h - a"] pos_mod_bound [OF b, of "h - a"] show ?thesis by (simp add: abs_if)
  qed
qed

lemma MKTAG_bytes:
  fixes a b c d :: "8 word"
  defines "t \<equiv> MKTAG (ucast a) (ucast b) (ucast c) (ucast d)"
  shows "ucast t = a" "ucast (drop_bit 8 t) = b" "ucast (drop_bit 16 t) = c" "ucast (drop_bit 24 t) = d"
    "MKBETAG (ucast d) (ucast c) (ucast b) (ucast a) = t"
proof -
  have nb: "bit z n \<Longrightarrow> n < 8" for z :: "8 word" and n using bit_imp_le_length [of z n] by simp
  have tb: "bit t n \<longleftrightarrow> bit a n \<or> (8 \<le> n \<and> bit b (n - 8)) \<or> (16 \<le> n \<and> bit c (n - 16)) \<or> (24 \<le> n \<and> bit d (n - 24))" for n
    unfolding t_def MKTAG_def by (auto simp: bit_simps dest: nb)
  show "ucast t = a" by (rule bit_word_eqI) (auto simp: bit_simps tb dest: nb)
  show "ucast (drop_bit 8 t) = b" by (rule bit_word_eqI) (auto simp: bit_simps tb dest: nb)
  show "ucast (drop_bit 16 t) = c" by (rule bit_word_eqI) (auto simp: bit_simps tb dest: nb)
  show "ucast (drop_bit 24 t) = d" by (rule bit_word_eqI) (auto simp: bit_simps tb dest: nb)
  show "MKBETAG (ucast d) (ucast c) (ucast b) (ucast a) = t"
    by (simp add: MKBETAG_def t_def MKTAG_def)
qed

section \<open>The clipping interface\<close>

text \<open>All clipping helpers promise the same: on the inputs they are defined for, the result is the
  nearest value of a fixed range.\<close>

locale clipper =
  fixes defined :: "'a \<Rightarrow> bool"
    and arg :: "'a \<Rightarrow> int"
    and res :: "'a \<Rightarrow> int"
    and lo hi :: int
  assumes nonempty: "lo \<le> hi"
    and nearest: "defined a \<Longrightarrow> res a = max lo (min hi (arg a))"
begin

lemma in_range: "defined a \<Longrightarrow> lo \<le> res a \<and> res a \<le> hi"
  using nonempty by (auto simp: nearest)

lemma fixed: "defined a \<Longrightarrow> lo \<le> arg a \<Longrightarrow> arg a \<le> hi \<Longrightarrow> res a = arg a"
  by (simp add: nearest)

lemma monotone: "defined a \<Longrightarrow> defined b \<Longrightarrow> arg a \<le> arg b \<Longrightarrow> res a \<le> res b"
  by (auto simp: nearest)

lemma closest: "defined a \<Longrightarrow> lo \<le> x \<Longrightarrow> x \<le> hi \<Longrightarrow> \<bar>arg a - res a\<bar> \<le> \<bar>arg a - x\<bar>"
  using nonempty by (simp add: nearest max_def min_def abs_if)

end

interpretation clip_u8: clipper "\<lambda>a. sint a \<noteq> - (2 ^ 31)" sint "\<lambda>a. uint (av_clip_uint8_c a)" 0 255
  by unfold_locales (simp_all add: av_clip_uint8_spec)

interpretation clip_s8: clipper "\<lambda>_. True" sint "\<lambda>a. sint (av_clip_int8_c a)" "- 128" 127
  by unfold_locales (simp_all add: av_clip_int8_spec)

interpretation clip_u16: clipper "\<lambda>a. sint a \<noteq> - (2 ^ 31)" sint "\<lambda>a. uint (av_clip_uint16_c a)" 0 65535
  by unfold_locales (simp_all add: av_clip_uint16_spec)

interpretation clip_s16: clipper "\<lambda>_. True" sint "\<lambda>a. sint (av_clip_int16_c a)" "- 32768" 32767
  by unfold_locales (simp_all add: av_clip_int16_spec)

interpretation clip_s32: clipper "\<lambda>_. True" sint "\<lambda>a. sint (av_clipl_int32_c a)" "- (2 ^ 31)" "2 ^ 31 - 1"
  by unfold_locales (simp_all add: av_clipl_int32_spec)

interpretation clip_add: clipper "\<lambda>_. True" "\<lambda>(a, b). sint a + sint b"
    "\<lambda>(a, b). sint (av_sat_add32_c a b)" "- (2 ^ 31)" "2 ^ 31 - 1"
  by unfold_locales (auto simp: av_sat_add32_spec)

section \<open>Properties\<close>

text \<open>Every branch-free clipping helper equals clipping by comparison: the results of the
  8, 16 and 32 bit versions are \<open>max lo (min hi a)\<close>, and so are the power-of-two versions for every
  bit position they accept. The unsigned versions negate their argument and are therefore stated
  away from \<open>INT_MIN\<close>.\<close>

theorem clip_helpers_correct:
  "sint (av_clip_int8_c a) = max (- 128) (min 127 (sint a)) \<and>
   sint (av_clip_int16_c a) = max (- 32768) (min 32767 (sint a)) \<and>
   sint (av_clipl_int32_c w) = max (- (2 ^ 31)) (min (2 ^ 31 - 1) (sint w)) \<and>
   (p \<le> 30 \<longrightarrow> sint (av_clip_intp2_c a p) = max (- (2 ^ p)) (min (2 ^ p - 1) (sint a))) \<and>
   (sint a \<noteq> - (2 ^ 31) \<longrightarrow>
      uint (av_clip_uint8_c a) = max 0 (min 255 (sint a)) \<and>
      uint (av_clip_uint16_c a) = max 0 (min 65535 (sint a)) \<and>
      (q \<le> 31 \<longrightarrow> sint (av_clip_uintp2_c a q) = max 0 (min (2 ^ q - 1) (sint a))))"
  by (simp add: av_clip_int8_spec av_clip_int16_spec av_clipl_int32_spec av_clip_intp2_spec
      av_clip_uint8_spec av_clip_uint16_spec av_clip_uintp2_spec)

theorem clip_helpers_correct_witness:
  "uint (av_clip_uint8_c 300) = 255 \<and> sint (av_clip_intp2_c (- 9) 3) = - 8"
  using clip_helpers_correct [of 300 0 3 0] clip_helpers_correct [of "- 9" 0 3 0] by simp

text \<open>At \<open>INT_MIN\<close> the unsigned 8 bit clip does not clip: the negation wraps (it is
  undefined behaviour in C), and on a wrapping machine the result is the top of the range instead of
  its bottom.\<close>

theorem clip_uint8_int_min: "uint (av_clip_uint8_c 0x80000000) = 255 \<and> sint (0x80000000 :: cint) = - (2 ^ 31)"
  by (simp add: av_clip_uint8_c_def signed_drop_bit_sign32 ucast_minus_one_down
      unsigned_minus_1_eq_mask mask_eq_exp_minus_1)

text \<open>Saturating addition is the exact sum clipped to the \<open>int\<close> range, and the doubled
  addition saturates at both stages.\<close>

theorem saturating_add_correct:
  "sint (av_sat_add32_c a b) = max (- (2 ^ 31)) (min (2 ^ 31 - 1) (sint a + sint b)) \<and>
   sint (av_sat_dadd32_c a b) =
     max (- (2 ^ 31)) (min (2 ^ 31 - 1) (sint a + max (- (2 ^ 31)) (min (2 ^ 31 - 1) (2 * sint b))))"
  by (simp add: av_sat_dadd32_c_def av_sat_add32_spec)

text \<open>The parallel bit counts return the number of one bits of their 32 and 64 bit
  arguments, and the parity is the parity of that number.\<close>

theorem popcount_correct:
  "uint (av_popcount_c x) = int (card {i. bit x i}) \<and>
   uint (av_popcount64_c y) = int (card {i. bit y i}) \<and>
   av_parity_c x = of_bool (odd (card {i. bit x i}))"
  by (simp add: av_popcount_spec av_popcount64_spec av_parity_spec)

text \<open>For a positive divisor \<open>FFUDIV\<close> and \<open>FFUMOD\<close> are floor division and its
  remainder, \<open>ROUNDED_DIV\<close> is within half a divisor of the exact quotient, and both variants of
  \<open>AV_CEIL_RSHIFT\<close> are division by the power of two rounded up.\<close>

theorem rounding_macros_correct:
  assumes "0 < b"
  shows "FFUDIV a b = a div b \<and> FFUMOD a b = a mod b \<and> 2 * \<bar>a - b * ROUNDED_DIV a b\<bar> \<le> b \<and>
    AV_CEIL_RSHIFT constant a k = - ((- a) div 2 ^ k)"
  using assms by (simp add: FFUDIV_floor FFUMOD_mod ROUNDED_DIV_nearest AV_CEIL_RSHIFT_ceil)

theorem rounding_macros_correct_witness:
  "FFUDIV (- 7) 2 = - 4 \<and> FFUMOD (- 7) 2 = 1 \<and> AV_CEIL_RSHIFT True 9 2 = 3"
  using rounding_macros_correct [of 2 "- 7" False 0] rounding_macros_correct [of 2 9 True 2] by simp

text \<open>A little-endian tag holds its four characters byte by byte, and the big-endian tag
  of the reversed characters is the same number, so a tag determines its characters.\<close>

theorem tags_roundtrip:
  "(let t = MKTAG (ucast a) (ucast b) (ucast c) (ucast d) in
    ucast t = (a :: 8 word) \<and> ucast (drop_bit 8 t) = (b :: 8 word) \<and>
    ucast (drop_bit 16 t) = (c :: 8 word) \<and> ucast (drop_bit 24 t) = (d :: 8 word) \<and>
    MKBETAG (ucast d) (ucast c) (ucast b) (ucast a) = t)"
  unfolding Let_def by (simp add: MKTAG_bytes)

end
