(* ===== verification/Av_Types.thy ===== *)
theory Av_Types
  imports Av_Common
begin

text \<open>
  The enumerations, masks and inline functions of \<open>libavutil\<close> that the file decoder and the
  resampler name: error codes (\<open>error.h\<close>), sample formats (\<open>samplefmt.h\<close>), rounding modes
  (\<open>mathematics.h\<close>), channel masks and layouts (\<open>channel_layout.h\<close>) and rationals
  (\<open>rational.h\<close>), all under \<open>src/libs/ffmpeg/include/libavutil\<close>. The lemmas show that the
  error codes are distinct negative numbers, that every layout has the number of channels its name
  says, and that the comparison of rationals is the mathematical one.
\<close>

section \<open>Error codes\<close>

definition AVERROR :: "int32 \<Rightarrow> int32" where
  "AVERROR e = - e"

definition AVUNERROR :: "int32 \<Rightarrow> int32" where
  "AVUNERROR e = - e"

definition FFERRTAG :: "cint \<Rightarrow> cint \<Rightarrow> cint \<Rightarrow> cint \<Rightarrow> int32" where
  "FFERRTAG a b c d = - sint (MKTAG a b c d)"

datatype av_error_name =
     AVERROR_BSF_NOT_FOUND | AVERROR_BUG | AVERROR_BUFFER_TOO_SMALL
   | AVERROR_DECODER_NOT_FOUND | AVERROR_DEMUXER_NOT_FOUND | AVERROR_ENCODER_NOT_FOUND
   | AVERROR_EOF | AVERROR_EXIT | AVERROR_EXTERNAL | AVERROR_FILTER_NOT_FOUND
   | AVERROR_INVALIDDATA | AVERROR_MUXER_NOT_FOUND | AVERROR_OPTION_NOT_FOUND
   | AVERROR_PATCHWELCOME | AVERROR_PROTOCOL_NOT_FOUND | AVERROR_STREAM_NOT_FOUND
   | AVERROR_BUG2 | AVERROR_UNKNOWN | AVERROR_EXPERIMENTAL | AVERROR_INPUT_CHANGED
   | AVERROR_OUTPUT_CHANGED | AVERROR_HTTP_BAD_REQUEST | AVERROR_HTTP_UNAUTHORIZED
   | AVERROR_HTTP_FORBIDDEN | AVERROR_HTTP_NOT_FOUND | AVERROR_HTTP_OTHER_4XX
   | AVERROR_HTTP_SERVER_ERROR

fun av_error :: "av_error_name \<Rightarrow> int32" where
  "av_error AVERROR_BSF_NOT_FOUND = FFERRTAG 0xf8 0x42 0x53 0x46"
| "av_error AVERROR_BUG = FFERRTAG 0x42 0x55 0x47 0x21"
| "av_error AVERROR_BUFFER_TOO_SMALL = FFERRTAG 0x42 0x55 0x46 0x53"
| "av_error AVERROR_DECODER_NOT_FOUND = FFERRTAG 0xf8 0x44 0x45 0x43"
| "av_error AVERROR_DEMUXER_NOT_FOUND = FFERRTAG 0xf8 0x44 0x45 0x4d"
| "av_error AVERROR_ENCODER_NOT_FOUND = FFERRTAG 0xf8 0x45 0x4e 0x43"
| "av_error AVERROR_EOF = FFERRTAG 0x45 0x4f 0x46 0x20"
| "av_error AVERROR_EXIT = FFERRTAG 0x45 0x58 0x49 0x54"
| "av_error AVERROR_EXTERNAL = FFERRTAG 0x45 0x58 0x54 0x20"
| "av_error AVERROR_FILTER_NOT_FOUND = FFERRTAG 0xf8 0x46 0x49 0x4c"
| "av_error AVERROR_INVALIDDATA = FFERRTAG 0x49 0x4e 0x44 0x41"
| "av_error AVERROR_MUXER_NOT_FOUND = FFERRTAG 0xf8 0x4d 0x55 0x58"
| "av_error AVERROR_OPTION_NOT_FOUND = FFERRTAG 0xf8 0x4f 0x50 0x54"
| "av_error AVERROR_PATCHWELCOME = FFERRTAG 0x50 0x41 0x57 0x45"
| "av_error AVERROR_PROTOCOL_NOT_FOUND = FFERRTAG 0xf8 0x50 0x52 0x4f"
| "av_error AVERROR_STREAM_NOT_FOUND = FFERRTAG 0xf8 0x53 0x54 0x52"
| "av_error AVERROR_BUG2 = FFERRTAG 0x42 0x55 0x47 0x20"
| "av_error AVERROR_UNKNOWN = FFERRTAG 0x55 0x4e 0x4b 0x4e"
| "av_error AVERROR_EXPERIMENTAL = - 0x2bb2afa8"
| "av_error AVERROR_INPUT_CHANGED = - 0x636e6701"
| "av_error AVERROR_OUTPUT_CHANGED = - 0x636e6702"
| "av_error AVERROR_HTTP_BAD_REQUEST = FFERRTAG 0xf8 0x34 0x30 0x30"
| "av_error AVERROR_HTTP_UNAUTHORIZED = FFERRTAG 0xf8 0x34 0x30 0x31"
| "av_error AVERROR_HTTP_FORBIDDEN = FFERRTAG 0xf8 0x34 0x30 0x33"
| "av_error AVERROR_HTTP_NOT_FOUND = FFERRTAG 0xf8 0x34 0x30 0x34"
| "av_error AVERROR_HTTP_OTHER_4XX = FFERRTAG 0xf8 0x34 0x58 0x58"
| "av_error AVERROR_HTTP_SERVER_ERROR = FFERRTAG 0xf8 0x35 0x58 0x58"

definition all_errors :: "av_error_name list" where
  "all_errors =
     [AVERROR_BSF_NOT_FOUND, AVERROR_BUG, AVERROR_BUFFER_TOO_SMALL,
      AVERROR_DECODER_NOT_FOUND, AVERROR_DEMUXER_NOT_FOUND, AVERROR_ENCODER_NOT_FOUND,
      AVERROR_EOF, AVERROR_EXIT, AVERROR_EXTERNAL,
      AVERROR_FILTER_NOT_FOUND, AVERROR_INVALIDDATA, AVERROR_MUXER_NOT_FOUND,
      AVERROR_OPTION_NOT_FOUND, AVERROR_PATCHWELCOME, AVERROR_PROTOCOL_NOT_FOUND,
      AVERROR_STREAM_NOT_FOUND, AVERROR_BUG2, AVERROR_UNKNOWN,
      AVERROR_EXPERIMENTAL, AVERROR_INPUT_CHANGED, AVERROR_OUTPUT_CHANGED,
      AVERROR_HTTP_BAD_REQUEST, AVERROR_HTTP_UNAUTHORIZED, AVERROR_HTTP_FORBIDDEN,
      AVERROR_HTTP_NOT_FOUND, AVERROR_HTTP_OTHER_4XX, AVERROR_HTTP_SERVER_ERROR]"

section \<open>Sample formats and rounding modes\<close>

datatype AVSampleFormat =
    AV_SAMPLE_FMT_NONE | AV_SAMPLE_FMT_U8 | AV_SAMPLE_FMT_S16 | AV_SAMPLE_FMT_S32 | AV_SAMPLE_FMT_FLT
  | AV_SAMPLE_FMT_DBL | AV_SAMPLE_FMT_U8P | AV_SAMPLE_FMT_S16P | AV_SAMPLE_FMT_S32P | AV_SAMPLE_FMT_FLTP
  | AV_SAMPLE_FMT_DBLP | AV_SAMPLE_FMT_S64 | AV_SAMPLE_FMT_S64P | AV_SAMPLE_FMT_NB

datatype AVRounding =
    AV_ROUND_ZERO | AV_ROUND_INF | AV_ROUND_DOWN | AV_ROUND_UP | AV_ROUND_NEAR_INF | AV_ROUND_PASS_MINMAX

definition documented_bytes :: "AVSampleFormat \<Rightarrow> int32" where
  \<comment> \<open>the widths the comments of the enumeration give\<close>
  "documented_bytes f =
     (case f of
        AV_SAMPLE_FMT_U8 \<Rightarrow> 1 | AV_SAMPLE_FMT_U8P \<Rightarrow> 1
      | AV_SAMPLE_FMT_S16 \<Rightarrow> 2 | AV_SAMPLE_FMT_S16P \<Rightarrow> 2
      | AV_SAMPLE_FMT_S32 \<Rightarrow> 4 | AV_SAMPLE_FMT_S32P \<Rightarrow> 4
      | AV_SAMPLE_FMT_FLT \<Rightarrow> 4 | AV_SAMPLE_FMT_FLTP \<Rightarrow> 4
      | AV_SAMPLE_FMT_DBL \<Rightarrow> 8 | AV_SAMPLE_FMT_DBLP \<Rightarrow> 8
      | AV_SAMPLE_FMT_S64 \<Rightarrow> 8 | AV_SAMPLE_FMT_S64P \<Rightarrow> 8
      | AV_SAMPLE_FMT_NONE \<Rightarrow> 0 | AV_SAMPLE_FMT_NB \<Rightarrow> 0)"

section \<open>Channel masks and layouts\<close>

named_theorems masks \<open>the values of the channel masks\<close>

definition AV_CH_FRONT_LEFT :: cint64 where [masks]: "AV_CH_FRONT_LEFT = 0x1"
definition AV_CH_FRONT_RIGHT :: cint64 where [masks]: "AV_CH_FRONT_RIGHT = 0x2"
definition AV_CH_FRONT_CENTER :: cint64 where [masks]: "AV_CH_FRONT_CENTER = 0x4"
definition AV_CH_LOW_FREQUENCY :: cint64 where [masks]: "AV_CH_LOW_FREQUENCY = 0x8"
definition AV_CH_BACK_LEFT :: cint64 where [masks]: "AV_CH_BACK_LEFT = 0x10"
definition AV_CH_BACK_RIGHT :: cint64 where [masks]: "AV_CH_BACK_RIGHT = 0x20"
definition AV_CH_FRONT_LEFT_OF_CENTER :: cint64 where [masks]: "AV_CH_FRONT_LEFT_OF_CENTER = 0x40"
definition AV_CH_FRONT_RIGHT_OF_CENTER :: cint64 where [masks]: "AV_CH_FRONT_RIGHT_OF_CENTER = 0x80"
definition AV_CH_BACK_CENTER :: cint64 where [masks]: "AV_CH_BACK_CENTER = 0x100"
definition AV_CH_SIDE_LEFT :: cint64 where [masks]: "AV_CH_SIDE_LEFT = 0x200"
definition AV_CH_SIDE_RIGHT :: cint64 where [masks]: "AV_CH_SIDE_RIGHT = 0x400"
definition AV_CH_TOP_CENTER :: cint64 where [masks]: "AV_CH_TOP_CENTER = 0x800"
definition AV_CH_TOP_FRONT_LEFT :: cint64 where [masks]: "AV_CH_TOP_FRONT_LEFT = 0x1000"
definition AV_CH_TOP_FRONT_CENTER :: cint64 where [masks]: "AV_CH_TOP_FRONT_CENTER = 0x2000"
definition AV_CH_TOP_FRONT_RIGHT :: cint64 where [masks]: "AV_CH_TOP_FRONT_RIGHT = 0x4000"
definition AV_CH_TOP_BACK_LEFT :: cint64 where [masks]: "AV_CH_TOP_BACK_LEFT = 0x8000"
definition AV_CH_TOP_BACK_CENTER :: cint64 where [masks]: "AV_CH_TOP_BACK_CENTER = 0x10000"
definition AV_CH_TOP_BACK_RIGHT :: cint64 where [masks]: "AV_CH_TOP_BACK_RIGHT = 0x20000"
definition AV_CH_STEREO_LEFT :: cint64 where [masks]: "AV_CH_STEREO_LEFT = 0x20000000"
definition AV_CH_STEREO_RIGHT :: cint64 where [masks]: "AV_CH_STEREO_RIGHT = 0x40000000"
definition AV_CH_WIDE_LEFT :: cint64 where [masks]: "AV_CH_WIDE_LEFT = 0x80000000"
definition AV_CH_WIDE_RIGHT :: cint64 where [masks]: "AV_CH_WIDE_RIGHT = 0x100000000"
definition AV_CH_SURROUND_DIRECT_LEFT :: cint64 where [masks]: "AV_CH_SURROUND_DIRECT_LEFT = 0x200000000"
definition AV_CH_SURROUND_DIRECT_RIGHT :: cint64 where [masks]: "AV_CH_SURROUND_DIRECT_RIGHT = 0x400000000"
definition AV_CH_LOW_FREQUENCY_2 :: cint64 where [masks]: "AV_CH_LOW_FREQUENCY_2 = 0x800000000"
definition AV_CH_LAYOUT_NATIVE :: cint64 where [masks]: "AV_CH_LAYOUT_NATIVE = 0x8000000000000000"

definition AV_CH_LAYOUT_MONO :: cint64 where [masks]:
  "AV_CH_LAYOUT_MONO = AV_CH_FRONT_CENTER"
definition AV_CH_LAYOUT_STEREO :: cint64 where [masks]:
  "AV_CH_LAYOUT_STEREO = AV_CH_FRONT_LEFT OR AV_CH_FRONT_RIGHT"
definition AV_CH_LAYOUT_2POINT1 :: cint64 where [masks]:
  "AV_CH_LAYOUT_2POINT1 = AV_CH_LAYOUT_STEREO OR AV_CH_LOW_FREQUENCY"
definition AV_CH_LAYOUT_2_1 :: cint64 where [masks]:
  "AV_CH_LAYOUT_2_1 = AV_CH_LAYOUT_STEREO OR AV_CH_BACK_CENTER"
definition AV_CH_LAYOUT_SURROUND :: cint64 where [masks]:
  "AV_CH_LAYOUT_SURROUND = AV_CH_LAYOUT_STEREO OR AV_CH_FRONT_CENTER"
definition AV_CH_LAYOUT_3POINT1 :: cint64 where [masks]:
  "AV_CH_LAYOUT_3POINT1 = AV_CH_LAYOUT_SURROUND OR AV_CH_LOW_FREQUENCY"
definition AV_CH_LAYOUT_4POINT0 :: cint64 where [masks]:
  "AV_CH_LAYOUT_4POINT0 = AV_CH_LAYOUT_SURROUND OR AV_CH_BACK_CENTER"
definition AV_CH_LAYOUT_4POINT1 :: cint64 where [masks]:
  "AV_CH_LAYOUT_4POINT1 = AV_CH_LAYOUT_4POINT0 OR AV_CH_LOW_FREQUENCY"
definition AV_CH_LAYOUT_2_2 :: cint64 where [masks]:
  "AV_CH_LAYOUT_2_2 = AV_CH_LAYOUT_STEREO OR AV_CH_SIDE_LEFT OR AV_CH_SIDE_RIGHT"
definition AV_CH_LAYOUT_QUAD :: cint64 where [masks]:
  "AV_CH_LAYOUT_QUAD = AV_CH_LAYOUT_STEREO OR AV_CH_BACK_LEFT OR AV_CH_BACK_RIGHT"
definition AV_CH_LAYOUT_5POINT0 :: cint64 where [masks]:
  "AV_CH_LAYOUT_5POINT0 = AV_CH_LAYOUT_SURROUND OR AV_CH_SIDE_LEFT OR AV_CH_SIDE_RIGHT"
definition AV_CH_LAYOUT_5POINT1 :: cint64 where [masks]:
  "AV_CH_LAYOUT_5POINT1 = AV_CH_LAYOUT_5POINT0 OR AV_CH_LOW_FREQUENCY"
definition AV_CH_LAYOUT_5POINT0_BACK :: cint64 where [masks]:
  "AV_CH_LAYOUT_5POINT0_BACK = AV_CH_LAYOUT_SURROUND OR AV_CH_BACK_LEFT OR AV_CH_BACK_RIGHT"
definition AV_CH_LAYOUT_5POINT1_BACK :: cint64 where [masks]:
  "AV_CH_LAYOUT_5POINT1_BACK = AV_CH_LAYOUT_5POINT0_BACK OR AV_CH_LOW_FREQUENCY"
definition AV_CH_LAYOUT_6POINT0 :: cint64 where [masks]:
  "AV_CH_LAYOUT_6POINT0 = AV_CH_LAYOUT_5POINT0 OR AV_CH_BACK_CENTER"
definition AV_CH_LAYOUT_6POINT0_FRONT :: cint64 where [masks]:
  "AV_CH_LAYOUT_6POINT0_FRONT =
   AV_CH_LAYOUT_2_2 OR AV_CH_FRONT_LEFT_OF_CENTER OR AV_CH_FRONT_RIGHT_OF_CENTER"
definition AV_CH_LAYOUT_HEXAGONAL :: cint64 where [masks]:
  "AV_CH_LAYOUT_HEXAGONAL = AV_CH_LAYOUT_5POINT0_BACK OR AV_CH_BACK_CENTER"
definition AV_CH_LAYOUT_6POINT1 :: cint64 where [masks]:
  "AV_CH_LAYOUT_6POINT1 = AV_CH_LAYOUT_5POINT1 OR AV_CH_BACK_CENTER"
definition AV_CH_LAYOUT_6POINT1_BACK :: cint64 where [masks]:
  "AV_CH_LAYOUT_6POINT1_BACK = AV_CH_LAYOUT_5POINT1_BACK OR AV_CH_BACK_CENTER"
definition AV_CH_LAYOUT_6POINT1_FRONT :: cint64 where [masks]:
  "AV_CH_LAYOUT_6POINT1_FRONT = AV_CH_LAYOUT_6POINT0_FRONT OR AV_CH_LOW_FREQUENCY"
definition AV_CH_LAYOUT_7POINT0 :: cint64 where [masks]:
  "AV_CH_LAYOUT_7POINT0 = AV_CH_LAYOUT_5POINT0 OR AV_CH_BACK_LEFT OR AV_CH_BACK_RIGHT"
definition AV_CH_LAYOUT_7POINT0_FRONT :: cint64 where [masks]:
  "AV_CH_LAYOUT_7POINT0_FRONT =
   AV_CH_LAYOUT_5POINT0 OR AV_CH_FRONT_LEFT_OF_CENTER OR AV_CH_FRONT_RIGHT_OF_CENTER"
definition AV_CH_LAYOUT_7POINT1 :: cint64 where [masks]:
  "AV_CH_LAYOUT_7POINT1 = AV_CH_LAYOUT_5POINT1 OR AV_CH_BACK_LEFT OR AV_CH_BACK_RIGHT"
definition AV_CH_LAYOUT_7POINT1_WIDE :: cint64 where [masks]:
  "AV_CH_LAYOUT_7POINT1_WIDE =
   AV_CH_LAYOUT_5POINT1 OR AV_CH_FRONT_LEFT_OF_CENTER OR AV_CH_FRONT_RIGHT_OF_CENTER"
definition AV_CH_LAYOUT_7POINT1_WIDE_BACK :: cint64 where [masks]:
  "AV_CH_LAYOUT_7POINT1_WIDE_BACK =
   AV_CH_LAYOUT_5POINT1_BACK OR AV_CH_FRONT_LEFT_OF_CENTER OR AV_CH_FRONT_RIGHT_OF_CENTER"
definition AV_CH_LAYOUT_OCTAGONAL :: cint64 where [masks]:
  "AV_CH_LAYOUT_OCTAGONAL =
   AV_CH_LAYOUT_5POINT0 OR AV_CH_BACK_LEFT OR AV_CH_BACK_CENTER OR
   AV_CH_BACK_RIGHT"
definition AV_CH_LAYOUT_HEXADECAGONAL :: cint64 where [masks]:
  "AV_CH_LAYOUT_HEXADECAGONAL =
   AV_CH_LAYOUT_OCTAGONAL OR AV_CH_WIDE_LEFT OR AV_CH_WIDE_RIGHT OR
   AV_CH_TOP_BACK_LEFT OR AV_CH_TOP_BACK_RIGHT OR AV_CH_TOP_BACK_CENTER OR
   AV_CH_TOP_FRONT_CENTER OR AV_CH_TOP_FRONT_LEFT OR AV_CH_TOP_FRONT_RIGHT"
definition AV_CH_LAYOUT_STEREO_DOWNMIX :: cint64 where [masks]:
  "AV_CH_LAYOUT_STEREO_DOWNMIX = AV_CH_STEREO_LEFT OR AV_CH_STEREO_RIGHT"

definition named_layouts :: "(cint64 \<times> nat) list" where
  \<comment> \<open>every layout with the number of channels its name says\<close>
  "named_layouts =
     [(AV_CH_LAYOUT_MONO, 1), (AV_CH_LAYOUT_STEREO, 2), (AV_CH_LAYOUT_2POINT1, 3),
      (AV_CH_LAYOUT_2_1, 3), (AV_CH_LAYOUT_SURROUND, 3), (AV_CH_LAYOUT_3POINT1, 4),
      (AV_CH_LAYOUT_4POINT0, 4), (AV_CH_LAYOUT_4POINT1, 5), (AV_CH_LAYOUT_2_2, 4),
      (AV_CH_LAYOUT_QUAD, 4), (AV_CH_LAYOUT_5POINT0, 5), (AV_CH_LAYOUT_5POINT1, 6),
      (AV_CH_LAYOUT_5POINT0_BACK, 5), (AV_CH_LAYOUT_5POINT1_BACK, 6), (AV_CH_LAYOUT_6POINT0, 6),
      (AV_CH_LAYOUT_6POINT0_FRONT, 6), (AV_CH_LAYOUT_HEXAGONAL, 6), (AV_CH_LAYOUT_6POINT1, 7),
      (AV_CH_LAYOUT_6POINT1_BACK, 7), (AV_CH_LAYOUT_6POINT1_FRONT, 7), (AV_CH_LAYOUT_7POINT0, 7),
      (AV_CH_LAYOUT_7POINT0_FRONT, 7), (AV_CH_LAYOUT_7POINT1, 8), (AV_CH_LAYOUT_7POINT1_WIDE, 8),
      (AV_CH_LAYOUT_7POINT1_WIDE_BACK, 8), (AV_CH_LAYOUT_OCTAGONAL, 8), (AV_CH_LAYOUT_HEXADECAGONAL, 16),
      (AV_CH_LAYOUT_STEREO_DOWNMIX, 2)]"

section \<open>Rationals\<close>

record AVRational =
  num :: int32
  den :: int32

definition av_make_q :: "int32 \<Rightarrow> int32 \<Rightarrow> AVRational" where
  "av_make_q n d = \<lparr>num = n, den = d\<rparr>"

definition av_cmp_q :: "AVRational \<Rightarrow> AVRational \<Rightarrow> int32" where
  "av_cmp_q a b =
     (let tmp = num a * den b - num b * den a in
      if tmp \<noteq> 0 then drop_bit 63 (tmp XOR den a XOR den b) OR 1
      else if den b \<noteq> 0 \<and> den a \<noteq> 0 then 0
      else if num a \<noteq> 0 \<and> num b \<noteq> 0 then drop_bit 31 (num a) - drop_bit 31 (num b)
      else - (2 ^ 31))"

definition av_inv_q :: "AVRational \<Rightarrow> AVRational" where
  "av_inv_q q = \<lparr>num = den q, den = num q\<rparr>"

definition q_value :: "AVRational \<Rightarrow> rat" where
  "q_value a = of_int (num a) / of_int (den a)"

section \<open>Lemmas\<close>

lemma sign_bit63:
  assumes "- (2 ^ 63) \<le> x" "x < 2 ^ 63"
  shows "drop_bit 63 x = (if x < 0 then - 1 else (0 :: int))"
proof (cases "x < 0")
  case True
  then have "x div 2 ^ 63 = - 1" using assms by (intro int_div_pos_eq [of _ _ _ "x + 2 ^ 63"]) simp_all
  then show ?thesis using True by (simp add: drop_bit_eq_div)
next
  case False
  then show ?thesis using assms by (simp add: drop_bit_eq_div)
qed

lemma in_int32_prod:
  assumes "in_int32 a" "in_int32 b"
  shows "- (2 ^ 62) < a * b + 2 ^ 31 \<and> a * b \<le> 2 ^ 62"
proof -
  have a: "\<bar>a\<bar> \<le> 2 ^ 31" "\<bar>b\<bar> \<le> 2 ^ 31" using assms by (auto simp: in_int32_def)
  then have "\<bar>a * b\<bar> \<le> 2 ^ 31 * 2 ^ 31" unfolding abs_mult by (intro mult_mono) simp_all
  then have up: "a * b \<le> 2 ^ 62" "- (2 ^ 62) \<le> a * b" by simp_all
  then show ?thesis by simp
qed

lemma in_int32_diff_prod:
  assumes "in_int32 a" "in_int32 b" "in_int32 c" "in_int32 d"
  shows "- (2 ^ 63) \<le> a * b - c * d \<and> a * b - c * d < 2 ^ 63"
proof -
  have lo: "- (2 ^ 62 - 2 ^ 31) \<le> x * y" if xy: "in_int32 x" "in_int32 y" for x y :: int
  proof (cases "0 \<le> x \<longleftrightarrow> 0 \<le> y")
    case True
    then have "0 \<le> x * y" by (simp add: zero_le_mult_iff) linarith
    then show ?thesis by simp
  next
    case False
    then have "\<bar>x\<bar> \<le> 2 ^ 31 \<and> \<bar>y\<bar> \<le> 2 ^ 31 - 1 \<or> \<bar>x\<bar> \<le> 2 ^ 31 - 1 \<and> \<bar>y\<bar> \<le> 2 ^ 31"
      using xy by (auto simp: in_int32_def)
    then have "\<bar>x * y\<bar> \<le> 2 ^ 31 * (2 ^ 31 - 1)"
    proof
      assume "\<bar>x\<bar> \<le> 2 ^ 31 \<and> \<bar>y\<bar> \<le> 2 ^ 31 - 1"
      then show ?thesis unfolding abs_mult by (intro mult_mono) simp_all
    next
      assume "\<bar>x\<bar> \<le> 2 ^ 31 - 1 \<and> \<bar>y\<bar> \<le> 2 ^ 31"
      then have "\<bar>x\<bar> * \<bar>y\<bar> \<le> (2 ^ 31 - 1) * 2 ^ 31" by (intro mult_mono) simp_all
      then show ?thesis by (simp add: abs_mult)
    qed
    then show ?thesis by simp
  qed
  from lo [OF assms(1,2)] lo [OF assms(3,4)] in_int32_prod [OF assms(1,2)] in_int32_prod [OF assms(3,4)]
  show ?thesis by simp
qed

lemma q_value_less:
  assumes "den a \<noteq> 0" "den b \<noteq> 0"
  shows "q_value b < q_value a \<longleftrightarrow>
    ((num a * den b - num b * den a < 0) = ((den a < 0) \<noteq> (den b < 0)) \<and> num a * den b \<noteq> num b * den a)"
proof -
  let ?d = "(of_int (den a) * of_int (den b)) :: rat" and ?t = "num a * den b - num b * den a"
  have "q_value a - q_value b = of_int ?t / ?d"
    using assms by (simp add: q_value_def diff_frac_eq)
  then have "q_value b < q_value a \<longleftrightarrow> 0 < of_int ?t / ?d" by (metis diff_gt_0_iff_gt)
  also have "\<dots> \<longleftrightarrow> (0 < ?t \<and> 0 < ?d) \<or> (?t < 0 \<and> ?d < 0)"
    by (simp only: zero_less_divide_iff of_int_0_less_iff of_int_less_0_iff)
  also have "0 < ?d \<longleftrightarrow> (den a < 0) = (den b < 0)"
    using assms by (auto simp: zero_less_mult_iff)
  also have "?d < 0 \<longleftrightarrow> (den a < 0) \<noteq> (den b < 0)"
    using assms by (auto simp: mult_less_0_iff)
  finally show ?thesis by linarith
qed

lemma q_value_eq:
  "den a \<noteq> 0 \<Longrightarrow> den b \<noteq> 0 \<Longrightarrow> q_value a = q_value b \<longleftrightarrow> num a * den b = num b * den a"
  unfolding q_value_def by (simp add: frac_eq_eq flip: of_int_mult)

section \<open>Properties\<close>

text \<open>Comparing two rationals gives the sign of their difference, whatever the signs of the
  (nonzero) denominators, and \<open>INT_MIN\<close> when one of them is \<open>0/0\<close>; no operation of it
  leaves 64 bits.\<close>

theorem cmp_q_correct:
  assumes "in_int32 (num a)" "in_int32 (den a)" "in_int32 (num b)" "in_int32 (den b)"
  shows "(den a \<noteq> 0 \<and> den b \<noteq> 0 \<longrightarrow>
      av_cmp_q a b = (if q_value a = q_value b then 0 else if q_value b < q_value a then 1 else - 1)) \<and>
    (num a = 0 \<and> den a = 0 \<or> num b = 0 \<and> den b = 0 \<longrightarrow> av_cmp_q a b = - (2 ^ 31))"
proof (intro conjI impI)
  let ?t = "num a * den b - num b * den a"
  assume nz: "den a \<noteq> 0 \<and> den b \<noteq> 0"
  have sg: "drop_bit 63 (?t XOR den a XOR den b) OR 1 =
      (if (?t < 0) = ((den a < 0) \<noteq> (den b < 0)) then 1 else - 1 :: int)"
    using assms in_int32_diff_prod [OF assms(1,4,3,2)]
    by (simp add: drop_bit_xor sign_bit63 in_int32_def)
  show "av_cmp_q a b = (if q_value a = q_value b then 0 else if q_value b < q_value a then 1 else - 1)"
    using nz sg q_value_less [of a b] q_value_eq [of a b] by (simp add: av_cmp_q_def Let_def)
next
  assume "num a = 0 \<and> den a = 0 \<or> num b = 0 \<and> den b = 0"
  then show "av_cmp_q a b = - (2 ^ 31)" by (auto simp: av_cmp_q_def)
qed

theorem cmp_q_correct_witness:
  "av_cmp_q (av_make_q 1 (- 3)) (av_make_q 1 2) = - 1"
proof -
  have "q_value (av_make_q 1 (- 3)) \<noteq> q_value (av_make_q 1 2)" "\<not> q_value (av_make_q 1 2) < q_value (av_make_q 1 (- 3))"
    by (simp_all add: q_value_def av_make_q_def)
  then show ?thesis
    using cmp_q_correct [of "av_make_q 1 (- 3)" "av_make_q 1 2"] by (simp add: av_make_q_def in_int32_def)
qed

text \<open>Every named channel layout has as many channels as its name says, counted by
  \<open>av_popcount64\<close>; in particular mono has one and stereo two.\<close>

theorem layout_channel_counts:
  "list_all (\<lambda>(l, n). unat (av_popcount64_c l) = n) named_layouts"
  by (simp add: named_layouts_def masks av_popcount64_c_def av_popcount_c_def Let_def)

text \<open>The library's error codes are pairwise distinct, all negative, and none is the code of an
  \<open>errno\<close> value below 4096.\<close>

theorem error_codes_distinct:
  "distinct (map av_error all_errors) \<and> set all_errors = UNIV \<and>
   (\<forall>e. av_error e < - 4096) \<and> (\<forall>e n. av_error e \<noteq> AVERROR (n mod 4096)) \<and> AVUNERROR (AVERROR k) = k"
proof -
  have d: "distinct (map av_error all_errors)"
    by (simp add: all_errors_def FFERRTAG_def MKTAG_def)
  have "e \<in> set all_errors" for e by (cases e) (simp_all add: all_errors_def)
  then have u: "set all_errors = UNIV" by blast
  have "list_all (\<lambda>e. av_error e < - 4096) all_errors"
    by (simp add: all_errors_def FFERRTAG_def MKTAG_def)
  then have "av_error e < - 4096" for e using u by (simp add: list_all_iff)
  moreover from this have "av_error e \<noteq> AVERROR (n mod 4096)" for e n
    using pos_mod_bound [of 4096 n] unfolding AVERROR_def by (smt (verit))
  ultimately show ?thesis using d u by (simp add: AVERROR_def AVUNERROR_def)
qed

declare av_error.simps [simp del]

end
