(* ===== verification/Audio_Frame.thy ===== *)
theory Audio_Frame
  imports Mixer_Prelude
begin

text \<open>
  The WebRTC side of the mixer that the repository has as headers only
  (\<open>src/libs/webrtc/include/api/audio/audio_frame.h\<close>, \<open>api/audio/audio_mixer.h\<close>,
  \<open>audio/utility/audio_frame_operations.h\<close>): the frame that is filled and mixed and the result a
  source reports. The members are modelled; the methods, whose bodies are in the
  prebuilt library, are a record of functions that every definition using them takes as an argument.
  What the headers document of these methods is \<open>frame_contract\<close>, the named hypothesis of the
  theorems that depend on it.
\<close>

section \<open>Data\<close>

type_synonym sample = "16 word"

definition kMaxDataSizeSamples :: nat where
  "kMaxDataSizeSamples = 3840"

definition kMaxDataSizeBytes :: nat where
  "kMaxDataSizeBytes = kMaxDataSizeSamples * 2"

datatype VADActivity = kVadActive | kVadPassive | kVadUnknown

datatype SpeechType = kNormalSpeech | kPLC | kCNG | kPLCCNG | kUndefined

datatype AudioFrameInfo = kNormal | kMuted | kError

record AudioFrame =
  timestamp :: "32 word"
  elapsed_time_ms :: int
  ntp_time_ms :: int
  samples_per_channel :: size_t
  sample_rate_hz :: int32
  num_channels :: size_t
  speech_type :: SpeechType
  vad_activity :: VADActivity
  profile_timestamp_ms :: int
  frame_data :: "sample list"
  muted :: bool

definition AudioFrame_init :: AudioFrame where
  \<comment> \<open>the default member initialisers; \<open>data_\<close> is not readable while the frame is muted\<close>
  "AudioFrame_init =
     \<lparr>timestamp = 0, elapsed_time_ms = - 1, ntp_time_ms = - 1, samples_per_channel = 0,
      sample_rate_hz = 0, num_channels = 0, speech_type = kUndefined, vad_activity = kVadUnknown,
      profile_timestamp_ms = 0, frame_data = replicate kMaxDataSizeSamples 0, muted = True\<rparr>"

section \<open>The library's frame methods\<close>

record webrtc_frame_api =
  UpdateFrame :: "32 word \<Rightarrow> sample block \<Rightarrow> size_t \<Rightarrow> int32 \<Rightarrow> SpeechType \<Rightarrow> VADActivity \<Rightarrow>
    size_t \<Rightarrow> AudioFrame \<Rightarrow> AudioFrame result"
  mutable_data :: "AudioFrame \<Rightarrow> AudioFrame"
  frame_samples :: "AudioFrame \<Rightarrow> sample list"
  ScaleWithSat :: "cfloat \<Rightarrow> AudioFrame \<Rightarrow> int32 \<times> AudioFrame"

definition frame_header ::
    "AudioFrame \<Rightarrow> size_t \<times> int32 \<times> size_t \<times> SpeechType \<times> VADActivity" where
  "frame_header f = (samples_per_channel f, sample_rate_hz f, num_channels f, speech_type f, vad_activity f)"

text \<open>What \<open>audio_frame.h\<close> documents: \<open>UpdateFrame\<close> sets the fields it is given, and with data
  copies \<open>samples_per_channel * num_channels\<close> samples (so it reads that many); \<open>data()\<close> of a muted
  frame is all zero; \<open>mutable_data()\<close> gives the frame's own samples, zeroed on the first call.\<close>

definition updates_header :: "webrtc_frame_api \<Rightarrow> bool" where
  "updates_header W \<longleftrightarrow>
     (\<forall>ts p spc hz st va ch f f'. UpdateFrame W ts p spc hz st va ch f = Inr f' \<longrightarrow>
        frame_header f' = (spc, hz, ch, st, va))"

definition updates_samples :: "webrtc_frame_api \<Rightarrow> bool" where
  "updates_samples W \<longleftrightarrow>
     (\<forall>ts xs spc hz st va ch f. spc * ch \<le> kMaxDataSizeSamples \<longrightarrow> spc * ch \<le> length xs \<longrightarrow>
        (\<exists>f'. UpdateFrame W ts (Some (map Some xs)) spc hz st va ch f = Inr f' \<and>
              take (spc * ch) (frame_samples W f') = take (spc * ch) xs))"

definition reads_samples :: "webrtc_frame_api \<Rightarrow> bool" where
  "reads_samples W \<longleftrightarrow>
     (\<forall>ts m spc hz st va ch f. spc * ch \<le> kMaxDataSizeSamples \<longrightarrow> length m < spc * ch \<longrightarrow>
        UpdateFrame W ts (Some m) spc hz st va ch f = Inl OutOfBounds)"

definition reads_prefix :: "webrtc_frame_api \<Rightarrow> bool" where
  "reads_prefix W \<longleftrightarrow>
     (\<forall>ts m m' spc hz st va ch f. spc * ch \<le> length m \<longrightarrow> spc * ch \<le> length m' \<longrightarrow>
        take (spc * ch) m = take (spc * ch) m' \<longrightarrow>
        UpdateFrame W ts (Some m) spc hz st va ch f = UpdateFrame W ts (Some m') spc hz st va ch f)"

definition updates_without_data :: "webrtc_frame_api \<Rightarrow> bool" where
  "updates_without_data W \<longleftrightarrow>
     (\<forall>ts spc hz st va ch f. \<exists>f'. UpdateFrame W ts None spc hz st va ch f = Inr f')"

definition data_access :: "webrtc_frame_api \<Rightarrow> bool" where
  "data_access W \<longleftrightarrow>
     (\<forall>f. frame_samples W f = (if muted f then replicate kMaxDataSizeSamples 0 else frame_data f)) \<and>
     (\<forall>f. mutable_data W f =
        (if muted f then f\<lparr>frame_data := replicate kMaxDataSizeSamples 0, muted := False\<rparr> else f))"

definition keeps_storage :: "webrtc_frame_api \<Rightarrow> bool" where
  \<comment> \<open>\<open>data_\<close> is an array of fixed size\<close>
  "keeps_storage W \<longleftrightarrow>
     (\<forall>ts p spc hz st va ch f f'. UpdateFrame W ts p spc hz st va ch f = Inr f' \<longrightarrow>
        length (frame_data f) = kMaxDataSizeSamples \<longrightarrow> length (frame_data f') = kMaxDataSizeSamples) \<and>
     (\<forall>v f. length (frame_data f) = kMaxDataSizeSamples \<longrightarrow>
        length (frame_data (snd (ScaleWithSat W v f))) = kMaxDataSizeSamples)"

definition frame_contract :: "webrtc_frame_api \<Rightarrow> bool" where
  "frame_contract W \<longleftrightarrow> updates_header W \<and> updates_samples W \<and> reads_samples W \<and> reads_prefix W \<and>
     updates_without_data W \<and> data_access W \<and> keeps_storage W"

section \<open>An implementation that satisfies the contract\<close>

definition demo_UpdateFrame ::
    "32 word \<Rightarrow> sample block \<Rightarrow> size_t \<Rightarrow> int32 \<Rightarrow> SpeechType \<Rightarrow> VADActivity \<Rightarrow> size_t \<Rightarrow>
     AudioFrame \<Rightarrow> AudioFrame result" where
  "demo_UpdateFrame ts p spc hz st va ch f =
     (let g = f\<lparr>timestamp := ts, samples_per_channel := spc, sample_rate_hz := hz, num_channels := ch,
               speech_type := st, vad_activity := va\<rparr>
      in case p of
           None \<Rightarrow> Inr (g\<lparr>muted := True\<rparr>)
         | Some m \<Rightarrow>
             if kMaxDataSizeSamples < spc * ch then Inl (CheckFailed ''length'')
             else if length m < spc * ch then Inl OutOfBounds
             else Inr (g\<lparr>muted := False,
                        frame_data := map (\<lambda>x. case x of None \<Rightarrow> 0 | Some v \<Rightarrow> v) (take (spc * ch) m) @
                          drop (spc * ch) (frame_data f)\<rparr>))"

definition demo_webrtc :: webrtc_frame_api where
  "demo_webrtc =
     \<lparr>UpdateFrame = demo_UpdateFrame,
      mutable_data = (\<lambda>f. if muted f then f\<lparr>frame_data := replicate kMaxDataSizeSamples 0, muted := False\<rparr> else f),
      frame_samples = (\<lambda>f. if muted f then replicate kMaxDataSizeSamples 0 else frame_data f),
      ScaleWithSat = (\<lambda>_ f. (0, f))\<rparr>"

section \<open>Lemmas\<close>

lemma demo_webrtc_contract: "frame_contract demo_webrtc"
  unfolding frame_contract_def
proof (intro conjI)
  show "updates_header demo_webrtc"
    by (auto simp: updates_header_def demo_webrtc_def demo_UpdateFrame_def frame_header_def Let_def
        split: option.splits if_splits)
  show "updates_samples demo_webrtc"
    by (auto simp: updates_samples_def demo_webrtc_def demo_UpdateFrame_def Let_def take_map comp_def)
  show "reads_samples demo_webrtc"
    by (auto simp: reads_samples_def demo_webrtc_def demo_UpdateFrame_def Let_def)
  show "reads_prefix demo_webrtc"
    by (auto simp: reads_prefix_def demo_webrtc_def demo_UpdateFrame_def Let_def)
  show "updates_without_data demo_webrtc"
    by (auto simp: updates_without_data_def demo_webrtc_def demo_UpdateFrame_def Let_def)
  show "keeps_storage demo_webrtc"
    by (auto simp: keeps_storage_def demo_webrtc_def demo_UpdateFrame_def Let_def split: option.splits if_splits)
  show "data_access demo_webrtc"
    by (auto simp: data_access_def demo_webrtc_def)
qed

lemma contract_header:
  "frame_contract W \<Longrightarrow> UpdateFrame W ts p spc hz st va ch f = Inr f' \<Longrightarrow>
   frame_header f' = (spc, hz, ch, st, va)"
  by (auto simp: frame_contract_def updates_header_def)

lemma contract_storage:
  assumes "frame_contract W"
  shows "UpdateFrame W ts p spc hz st va ch f = Inr f' \<Longrightarrow> length (frame_data f) = kMaxDataSizeSamples \<Longrightarrow>
      length (frame_data f') = kMaxDataSizeSamples"
    "length (frame_data f) = kMaxDataSizeSamples \<Longrightarrow> length (frame_data (mutable_data W f)) = kMaxDataSizeSamples"
    "length (frame_data f) = kMaxDataSizeSamples \<Longrightarrow> length (frame_data (snd (ScaleWithSat W v f))) = kMaxDataSizeSamples"
proof -
  have k: "keeps_storage W" "data_access W" using assms by (simp_all add: frame_contract_def)
  then show "UpdateFrame W ts p spc hz st va ch f = Inr f' \<Longrightarrow> length (frame_data f) = kMaxDataSizeSamples \<Longrightarrow>
      length (frame_data f') = kMaxDataSizeSamples"
    "length (frame_data f) = kMaxDataSizeSamples \<Longrightarrow> length (frame_data (snd (ScaleWithSat W v f))) = kMaxDataSizeSamples"
    unfolding keeps_storage_def by blast+
  show "length (frame_data f) = kMaxDataSizeSamples \<Longrightarrow> length (frame_data (mutable_data W f)) = kMaxDataSizeSamples"
    using k(2) by (simp add: data_access_def)
qed

lemma contract_overread:
  "frame_contract W \<Longrightarrow> spc * ch \<le> kMaxDataSizeSamples \<Longrightarrow> length m < spc * ch \<Longrightarrow>
   UpdateFrame W ts (Some m) spc hz st va ch f = Inl OutOfBounds"
  by (auto simp: frame_contract_def reads_samples_def)

lemma contract_copy:
  assumes W: "frame_contract W" and n: "spc * ch \<le> kMaxDataSizeSamples" "spc * ch \<le> length xs"
    and m: "take (length xs) m = map Some xs"
  shows "\<exists>f'. UpdateFrame W ts (Some m) spc hz st va ch f = Inr f' \<and>
    take (spc * ch) (frame_samples W f') = take (spc * ch) xs \<and> frame_header f' = (spc, hz, ch, st, va)"
proof -
  have len: "length xs \<le> length m"
    using m by (metis length_map length_take min.cobounded1)
  have "take (spc * ch) m = take (spc * ch) (take (length xs) m)"
    using n(2) by (simp add: min_def)
  also have "\<dots> = take (spc * ch) (map Some xs)" by (simp only: m)
  finally have "UpdateFrame W ts (Some m) spc hz st va ch f =
      UpdateFrame W ts (Some (map Some xs)) spc hz st va ch f"
    using W n(2) len by (simp add: frame_contract_def reads_prefix_def)
  moreover obtain f' where "UpdateFrame W ts (Some (map Some xs)) spc hz st va ch f = Inr f'"
      "take (spc * ch) (frame_samples W f') = take (spc * ch) xs"
    using W n unfolding frame_contract_def updates_samples_def by blast
  ultimately show ?thesis
    using contract_header [OF W] by auto
qed

end
