(* ===== verification/Audio_Resampler.thy ===== *)
theory Audio_Resampler
  imports Av_Types Audio_Frame
begin

text \<open>
  \<open>AudioResampler\<close> (\<open>src/src/audio_resampler.cpp\<close>), which converts decoded audio to the 16-bit
  samples of the mixer. FFmpeg's resampler is a parameter: a record of the functions the class
  calls, over a context type \<open>'swr\<close> and a type \<open>'pcm\<close> of decoded samples (one value for one
  sampling instant, all channels). What the FFmpeg headers document of them is \<open>swr_contract\<close>.
\<close>

section \<open>FFmpeg's resampler\<close>

record ('swr, 'pcm) swr_api =
  swr_alloc :: "'swr option"
  av_opt_set_int :: "'swr \<Rightarrow> string \<Rightarrow> int \<Rightarrow> int32 \<times> 'swr"
  av_opt_set_sample_fmt :: "'swr \<Rightarrow> string \<Rightarrow> AVSampleFormat \<Rightarrow> int32 \<times> 'swr"
  swr_init :: "'swr \<Rightarrow> int32 \<times> 'swr"
  swr_convert :: "'swr \<Rightarrow> int32 \<Rightarrow> 'pcm list \<Rightarrow> int32 \<Rightarrow> int32 \<times> sample list \<times> 'swr"
    \<comment> \<open>context, space for output, input, input count; the samples it stored\<close>
  av_get_bytes_per_sample :: "AVSampleFormat \<Rightarrow> int32"
  av_rescale_rnd :: "int \<Rightarrow> int \<Rightarrow> int \<Rightarrow> AVRounding \<Rightarrow> int"
  av_samples_get_buffer_size :: "int32 \<Rightarrow> int32 \<Rightarrow> AVSampleFormat \<Rightarrow> int32 \<Rightarrow> int32"
    \<comment> \<open>channels, samples, format, alignment\<close>

text \<open>The documented behaviour. \<open>outs\<close> reads the number of output channels a context is
  configured for: the option \<open>out_channel_layout\<close> sets it to the number of bits of the layout.\<close>

definition configures_channels :: "('swr, 'pcm) swr_api \<Rightarrow> ('swr \<Rightarrow> nat) \<Rightarrow> bool" where
  "configures_channels S outs \<longleftrightarrow>
     (\<forall>x l. outs (snd (av_opt_set_int S x ''out_channel_layout'' l)) =
        unat (av_popcount64_c (word_of_int l))) \<and>
     (\<forall>x opt v. opt \<noteq> ''out_channel_layout'' \<longrightarrow> outs (snd (av_opt_set_int S x opt v)) = outs x) \<and>
     (\<forall>x opt f. outs (snd (av_opt_set_sample_fmt S x opt f)) = outs x) \<and>
     (\<forall>x. outs (snd (swr_init S x)) = outs x)"

definition converts_within :: "('swr, 'pcm) swr_api \<Rightarrow> ('swr \<Rightarrow> nat) \<Rightarrow> bool" where
  "converts_within S outs \<longleftrightarrow>
     (\<forall>x n xs k r ys x'. swr_convert S x n xs k = (r, ys, x') \<longrightarrow>
        outs x' = outs x \<and> (r < 0 \<longrightarrow> ys = []) \<and> (0 \<le> r \<longrightarrow> r \<le> n \<and> length ys = nat r * outs x))"

definition measures_samples :: "('swr, 'pcm) swr_api \<Rightarrow> bool" where
  "measures_samples S \<longleftrightarrow>
     av_get_bytes_per_sample S = documented_bytes \<and>
     (\<forall>a b c. 0 \<le> a \<longrightarrow> 0 \<le> b \<longrightarrow> 0 < c \<longrightarrow> av_rescale_rnd S a b c AV_ROUND_UP = (a * b + c - 1) div c) \<and>
     (\<forall>ch n f. 0 < ch \<longrightarrow> 0 < n \<longrightarrow> 0 < documented_bytes f \<longrightarrow> in_int32 (ch * n * documented_bytes f) \<longrightarrow>
        av_samples_get_buffer_size S ch n f 1 = ch * n * documented_bytes f)"

definition swr_contract :: "('swr, 'pcm) swr_api \<Rightarrow> ('swr \<Rightarrow> nat) \<Rightarrow> bool" where
  "swr_contract S outs \<longleftrightarrow> configures_channels S outs \<and> converts_within S outs \<and> measures_samples S"

section \<open>The class\<close>

definition kOutputSampleFormat :: AVSampleFormat where
  "kOutputSampleFormat = AV_SAMPLE_FMT_S16"

record 'swr AudioResampler =
  rsm_context :: 'swr
  rsm_input_format :: AVSampleFormat
  rsm_input_sample_rate :: int32
  rsm_input_channel_num :: int32
  rsm_output_format :: AVSampleFormat
  rsm_output_sample_rate :: int32
  rsm_output_channel_num :: int32

definition AudioResampler_ctor ::
    "('swr, 'pcm) swr_api \<Rightarrow> AVSampleFormat \<Rightarrow> int32 \<Rightarrow> int32 \<Rightarrow> AVSampleFormat \<Rightarrow> int32 \<Rightarrow> int32 \<Rightarrow>
     'swr AudioResampler result" where
  "AudioResampler_ctor S input_format input_sample_rate input_channel_num
       output_format output_sample_rate output_channel_num =
     (case swr_alloc S of
        None \<Rightarrow> Inl (CheckFailed ''context_'')
      | Some x0 \<Rightarrow>
          let input_channel_layout =
                (if input_channel_num = 1 then uint AV_CH_LAYOUT_MONO else uint AV_CH_LAYOUT_STEREO);
              output_channel_layout =
                (if output_channel_num = 1 then uint AV_CH_LAYOUT_MONO else uint AV_CH_LAYOUT_STEREO);
              x1 = snd (av_opt_set_int S x0 ''in_channel_layout'' input_channel_layout);
              x2 = snd (av_opt_set_int S x1 ''in_sample_rate'' input_sample_rate);
              x3 = snd (av_opt_set_sample_fmt S x2 ''in_sample_fmt'' input_format);
              x4 = snd (av_opt_set_int S x3 ''out_channel_layout'' output_channel_layout);
              x5 = snd (av_opt_set_int S x4 ''out_sample_rate'' output_sample_rate);
              x6 = snd (av_opt_set_sample_fmt S x5 ''out_sample_fmt'' output_format);
              (error, x7) = swr_init S x6
          in rbind (rtc_check (0 \<le> error) ''swr_init'') (\<lambda>_.
             Inr \<lparr>rsm_context = x7, rsm_input_format = input_format,
                  rsm_input_sample_rate = input_sample_rate, rsm_input_channel_num = input_channel_num,
                  rsm_output_format = output_format, rsm_output_sample_rate = output_sample_rate,
                  rsm_output_channel_num = output_channel_num\<rparr>))"

definition to_int32 :: "int \<Rightarrow> int32" where
  \<comment> \<open>\<open>static_cast<int>\<close> of a 64-bit value\<close>
  "to_int32 x = signed_take_bit 31 x"

definition Resample ::
    "('swr, 'pcm) swr_api \<Rightarrow> 'pcm list \<Rightarrow> int32 \<Rightarrow> sample list \<Rightarrow> 'swr AudioResampler \<Rightarrow>
     (int32 \<times> sample list \<times> 'swr AudioResampler) result" where
  \<comment> \<open>the input buffer, its size in bytes, the memory behind the output pointer\<close>
  "Resample S input_buffer input_size output_buffer r =
     rbind (c_div input_size (rsm_input_channel_num r)) (\<lambda>per_channel.
     rbind (c_div per_channel (av_get_bytes_per_sample S (rsm_input_format r))) (\<lambda>input_samples.
     let output_samples =
           to_int32 (av_rescale_rnd S input_samples (rsm_output_sample_rate r)
             (rsm_input_sample_rate r) AV_ROUND_UP);
         (real_output_samples, stored, x) =
           swr_convert S (rsm_context r) output_samples input_buffer input_samples;
         r' = r\<lparr>rsm_context := x\<rparr>;
         output_buffer' = stored @ drop (length stored) output_buffer
     in if int (length input_buffer) < input_samples \<or> length output_buffer < length stored
        then Inl OutOfBounds
        else if real_output_samples < 0 then Inr (real_output_samples, output_buffer', r')
        else Inr (av_samples_get_buffer_size S (rsm_output_channel_num r) real_output_samples
                    (rsm_output_format r) 0, output_buffer', r')))"

section \<open>Lemmas\<close>

definition layout_size :: "int32 \<Rightarrow> nat" where
  \<comment> \<open>channels of the layout the constructor chooses\<close>
  "layout_size ch = (if ch = 1 then 1 else 2)"

lemma mono_stereo_bits:
  "unat (av_popcount64_c AV_CH_LAYOUT_MONO) = 1"
  "unat (av_popcount64_c AV_CH_LAYOUT_STEREO) = 2"
  by (simp_all add: masks av_popcount64_c_def av_popcount_c_def Let_def)

lemma contract_outs:
  assumes "swr_contract S outs"
  shows "outs (snd (av_opt_set_int S x ''out_channel_layout'' l)) = unat (av_popcount64_c (word_of_int l))"
    "opt \<noteq> ''out_channel_layout'' \<Longrightarrow> outs (snd (av_opt_set_int S x opt v)) = outs x"
    "outs (snd (av_opt_set_sample_fmt S x opt f)) = outs x"
    "swr_init S x = (e, x') \<Longrightarrow> outs x' = outs x"
proof -
  from assms have c: "configures_channels S outs" by (simp add: swr_contract_def)
  show "outs (snd (av_opt_set_int S x ''out_channel_layout'' l)) = unat (av_popcount64_c (word_of_int l))"
    "opt \<noteq> ''out_channel_layout'' \<Longrightarrow> outs (snd (av_opt_set_int S x opt v)) = outs x"
    "outs (snd (av_opt_set_sample_fmt S x opt f)) = outs x"
    using c unfolding configures_channels_def by blast+
  show "swr_init S x = (e, x') \<Longrightarrow> outs x' = outs x"
    using c unfolding configures_channels_def by (metis snd_conv)
qed

lemma AudioResampler_ctor_fields:
  assumes "AudioResampler_ctor S f sr ch f' sr' ch' = Inr r"
  shows "rsm_input_format r = f" "rsm_input_sample_rate r = sr"
    "rsm_input_channel_num r = ch" "rsm_output_format r = f'" "rsm_output_sample_rate r = sr'"
    "rsm_output_channel_num r = ch'"
  using assms
  by (simp_all add: AudioResampler_ctor_def Let_def rbind_eq_Inr split: option.splits prod.splits) force+

lemma AudioResampler_ctor_outs:
  assumes S: "swr_contract S outs" and r: "AudioResampler_ctor S f sr ch f' sr' ch' = Inr r"
  shows "outs (rsm_context r) = layout_size ch'"
proof -
  let ?l = "if ch' = 1 then uint AV_CH_LAYOUT_MONO else uint AV_CH_LAYOUT_STEREO"
  obtain x3 e where i: "swr_init S (snd (av_opt_set_sample_fmt S (snd (av_opt_set_int S
      (snd (av_opt_set_int S x3 ''out_channel_layout'' ?l)) ''out_sample_rate'' sr')) ''out_sample_fmt'' f')) =
      (e, rsm_context r)"
    using r unfolding AudioResampler_ctor_def Let_def
    by (simp only: rbind_eq_Inr split: option.splits prod.splits) (auto 0 3)
  show ?thesis
    using contract_outs(4) [OF S i] by (simp add: contract_outs [OF S] layout_size_def mono_stereo_bits split: if_splits)
qed

lemma documented_bytes_le: "0 \<le> documented_bytes f \<and> documented_bytes f \<le> 8"
  by (cases f) (simp_all add: documented_bytes_def)

definition rescaled :: "int \<Rightarrow> int \<Rightarrow> int \<Rightarrow> int" where
  \<comment> \<open>\<open>n * out / in\<close>, rounded up\<close>
  "rescaled n rate_out rate_in = (n * rate_out + rate_in - 1) div rate_in"

lemma to_int32_id: "in_int32 x \<Longrightarrow> to_int32 x = x"
  by (simp add: to_int32_def in_int32_def signed_take_bit_int_eq_self)

lemma exact_div_int32: "0 \<le> n \<Longrightarrow> 0 < k \<Longrightarrow> in_int32 (n * k) \<Longrightarrow> c_div (n * k) k = Inr n"
  using c_div_pos [of "n * k" k] by simp

lemma input_samples_exact:
  assumes "0 \<le> n" "0 < ch" "0 < b" "in_int32 (n * ch * b)"
  shows "c_div (n * ch * b) ch = Inr (n * b)" "c_div (n * b) b = Inr n"
proof -
  have le: "n * b * 1 \<le> n * b * ch" using assms by (intro mult_left_mono) simp_all
  have nb: "0 \<le> n * b" using assms by simp
  have eq: "n * ch * b = n * b * ch" by simp
  have i: "in_int32 (n * b)" using le nb assms(4) unfolding eq in_int32_def by linarith
  show "c_div (n * ch * b) ch = Inr (n * b)" using assms eq nb by (simp only: exact_div_int32)
  show "c_div (n * b) b = Inr n" using assms i by (simp add: exact_div_int32)
qed

lemma Resample_ok:
  assumes S: "swr_contract S outs"
    and n: "0 \<le> n" "n \<le> int (length xs)" "0 < rsm_input_channel_num r" "0 < documented_bytes (rsm_input_format r)"
      "in_int32 (n * rsm_input_channel_num r * documented_bytes (rsm_input_format r))"
    and rates: "0 \<le> rsm_output_sample_rate r" "0 < rsm_input_sample_rate r"
    and fits: "in_int32 (rescaled n (rsm_output_sample_rate r) (rsm_input_sample_rate r))"
      "nat (rescaled n (rsm_output_sample_rate r) (rsm_input_sample_rate r)) * outs (rsm_context r) \<le> length out"
  shows "\<exists>q stored x.
    Resample S xs (n * rsm_input_channel_num r * documented_bytes (rsm_input_format r)) out r =
      Inr (if q < 0 then q else av_samples_get_buffer_size S (rsm_output_channel_num r) q (rsm_output_format r) 0,
        stored @ drop (length stored) out, r\<lparr>rsm_context := x\<rparr>) \<and> outs x = outs (rsm_context r) \<and>
    length stored = nat q * outs (rsm_context r) \<and>
    length stored \<le> nat (rescaled n (rsm_output_sample_rate r) (rsm_input_sample_rate r)) * outs (rsm_context r)"
proof -
  let ?up = "rescaled n (rsm_output_sample_rate r) (rsm_input_sample_rate r)"
  have m: "measures_samples S" "converts_within S outs" using S by (simp_all add: swr_contract_def)
  then have b: "av_get_bytes_per_sample S = documented_bytes"
    and up: "av_rescale_rnd S n (rsm_output_sample_rate r) (rsm_input_sample_rate r) AV_ROUND_UP = ?up"
    using n(1) rates by (simp_all add: measures_samples_def rescaled_def)
  note d = input_samples_exact [OF n(1,3,4,5)]
  obtain q ys x where c: "swr_convert S (rsm_context r) ?up xs n = (q, ys, x)" by (cases "swr_convert S (rsm_context r) ?up xs n")
  then have w: "outs x = outs (rsm_context r)" "q < 0 \<longrightarrow> ys = []" "0 \<le> q \<longrightarrow> q \<le> ?up \<and> length ys = nat q * outs (rsm_context r)"
    using m(2) unfolding converts_within_def by blast+
  have len: "length ys \<le> nat ?up * outs (rsm_context r)"
  proof (cases "q < 0")
    case True
    then show ?thesis using w(2) by simp
  next
    case False
    then have "nat q \<le> nat ?up" using w(3) by (simp add: nat_mono)
    then show ?thesis using False w(3) by simp
  qed
  have "\<not> (int (length xs) < n \<or> length out < length ys)" using n(2) len fits(2) by linarith
  then have "Resample S xs (n * rsm_input_channel_num r * documented_bytes (rsm_input_format r)) out r =
      Inr (if q < 0 then q else av_samples_get_buffer_size S (rsm_output_channel_num r) q (rsm_output_format r) 0,
        ys @ drop (length ys) out, r\<lparr>rsm_context := x\<rparr>)"
    by (simp add: Resample_def b up d to_int32_id [OF fits(1)] c Let_def)
  moreover have "length ys = nat q * outs (rsm_context r)" using w(2,3) by (cases "q < 0") simp_all
  ultimately show ?thesis using len w(1) by (intro exI conjI)
qed

section \<open>A resampler that satisfies the contract\<close>

text \<open>The concrete instance the witnesses use: contexts are the number of output channels, samples
  are numbers, and a conversion repeats each input sample on every channel.\<close>

definition demo_swr :: "(nat, int) swr_api" where
  "demo_swr =
     \<lparr>swr_alloc = Some 0,
      av_opt_set_int = (\<lambda>x opt v. (0, if opt = ''out_channel_layout'' then unat (av_popcount64_c (word_of_int v)) else x)),
      av_opt_set_sample_fmt = (\<lambda>x opt f. (0, x)),
      swr_init = (\<lambda>x. (0, x)),
      swr_convert = (\<lambda>x n xs k. let m = min (nat n) (length xs) in
        if n < 0 then (- 22, [], x) else (int m, concat (map (\<lambda>v. replicate x (word_of_int v)) (take m xs)), x)),
      av_get_bytes_per_sample = documented_bytes,
      av_rescale_rnd = (\<lambda>a b c rnd. (a * b + c - 1) div c),
      av_samples_get_buffer_size = (\<lambda>ch n f align. ch * n * documented_bytes f)\<rparr>"

lemma length_concat_replicate: "length (concat (map (\<lambda>v. replicate k (g v)) xs)) = length xs * k"
  by (induction xs) simp_all

lemma demo_swr_contract: "swr_contract demo_swr (\<lambda>x. x)"
proof -
  have "configures_channels demo_swr (\<lambda>x. x)" by (simp add: configures_channels_def demo_swr_def)
  moreover have "converts_within demo_swr (\<lambda>x. x)"
    by (auto simp: converts_within_def demo_swr_def Let_def length_concat_replicate min_def)
  moreover have "measures_samples demo_swr" by (simp add: measures_samples_def demo_swr_def)
  ultimately show ?thesis by (simp add: swr_contract_def)
qed

section \<open>Properties\<close>



end
