(* ===== verification/Audio_Source.thy ===== *)
theory Audio_Source
  imports Audio_Frame
begin

text \<open>
  The base class of the mixer's inputs (\<open>src/src/audio_source.cpp\<close>): it holds the volume, scales a
  frame by it, and lets the mixer change it. \<open>webrtc::AudioMixer::Source\<close>, the interface it
  inherits (\<open>api/audio/audio_mixer.h\<close>), is the locale \<open>mixer_input\<close>; the record and the file
  source interpret it.
\<close>

section \<open>The class\<close>

record AudioSource =
  volume :: cfloat

definition volume_low :: cfloat where
  \<comment> \<open>the binary32 value of \<open>0.99f\<close>\<close>
  "volume_low = Finite (Fract 8304722 8388608)"

definition volume_high :: cfloat where
  \<comment> \<open>the binary32 value of \<open>1.01f\<close>\<close>
  "volume_high = Finite (Fract 8472494 8388608)"

definition AudioSource_ctor :: "cfloat \<Rightarrow> AudioSource" where
  "AudioSource_ctor v = \<lparr>volume = v\<rparr>"

definition ApplyVolume :: "webrtc_frame_api \<Rightarrow> 'a AudioSource_scheme \<Rightarrow> AudioFrame \<Rightarrow> AudioFrame" where
  "ApplyVolume W s frame =
     (if cf_less (volume s) volume_low \<or> cf_less volume_high (volume s)
      then snd (ScaleWithSat W (volume s) frame)
      else frame)"

definition UpdateVolume :: "cfloat \<Rightarrow> 'a AudioSource_scheme \<Rightarrow> 'a AudioSource_scheme" where
  "UpdateVolume v s = s\<lparr>volume := v\<rparr>"

section \<open>The volume window\<close>

definition unity_volume :: "cfloat \<Rightarrow> bool" where
  "unity_volume v \<longleftrightarrow> \<not> cf_less v volume_low \<and> \<not> cf_less volume_high v"

lemma ApplyVolume_unity [simp]: "unity_volume (volume s) \<Longrightarrow> ApplyVolume W s f = f"
  by (simp add: ApplyVolume_def unity_volume_def)

lemma ApplyVolume_scaled: "\<not> unity_volume (volume s) \<Longrightarrow> ApplyVolume W s f = snd (ScaleWithSat W (volume s) f)"
  by (auto simp: ApplyVolume_def unity_volume_def)

lemma unity_volume_finite:
  "unity_volume (Finite q) \<longleftrightarrow> Fract 8304722 8388608 \<le> q \<and> q \<le> Fract 8472494 8388608"
  by (auto simp: unity_volume_def volume_low_def volume_high_def)

lemma unity_volume_one [simp]: "unity_volume (Finite 1)"
  by (simp add: unity_volume_finite One_rat_def)

lemma unity_volume_special: "unity_volume NaN" "\<not> unity_volume (Infinite b)"
  by (cases b) (simp_all add: unity_volume_def volume_low_def volume_high_def)

section \<open>The interface a mixer polls\<close>

text \<open>A source is asked for a frame at a rate. The law: asked at a rate that is not its own it
  answers \<open>kError\<close> and changes neither itself nor the frame; asked at its own rate with a frame
  it can use it answers and keeps its invariant, and a \<open>kNormal\<close> frame is described by the header the source
  announces.\<close>

fun poll_all :: "(int32 \<Rightarrow> AudioFrame \<Rightarrow> 's \<Rightarrow> (AudioFrameInfo \<times> AudioFrame \<times> 's) result) \<Rightarrow>
    (int32 \<times> AudioFrame) list \<Rightarrow> 's \<Rightarrow> ((AudioFrameInfo \<times> AudioFrame) list \<times> 's) result" where
  "poll_all get [] s = Inr ([], s)"
| "poll_all get ((hz, f) # ps) s =
     rbind (get hz f s) (\<lambda>(info, f', s').
     rbind (poll_all get ps s') (\<lambda>(outs, s''). Inr ((info, f') # outs, s'')))"

locale mixer_input =
  fixes inv :: "'s \<Rightarrow> bool"
    and rate :: "'s \<Rightarrow> int32"
    and header :: "'s \<Rightarrow> size_t \<times> int32 \<times> size_t \<times> SpeechType \<times> VADActivity"
    and out :: "'s \<Rightarrow> AudioFrame \<Rightarrow> AudioFrame"
    and usable :: "AudioFrame \<Rightarrow> bool"
    and get :: "int32 \<Rightarrow> AudioFrame \<Rightarrow> 's \<Rightarrow> (AudioFrameInfo \<times> AudioFrame \<times> 's) result"
  assumes wrong_rate: "hz \<noteq> rate s \<Longrightarrow> get hz f s = Inr (kError, f, s)"
    and answers: "inv s \<Longrightarrow> usable f \<Longrightarrow> \<exists>info f' s'. get (rate s) f s = Inr (info, f', s') \<and> inv s' \<and>
      rate s' = rate s \<and> header s' = header s \<and> out s' = out s \<and>
      (info = kNormal \<longrightarrow> (\<exists>g. frame_header g = header s \<and> f' = out s g))"
begin

lemma poll_ok:
  assumes "inv s" "usable f"
  shows "\<exists>info f' s'. get hz f s = Inr (info, f', s') \<and> inv s' \<and> rate s' = rate s \<and>
    header s' = header s \<and> out s' = out s \<and> (hz \<noteq> rate s \<longrightarrow> info = kError) \<and>
    (info = kNormal \<longrightarrow> (\<exists>g. frame_header g = header s \<and> f' = out s g))"
proof (cases "hz = rate s")
  case True
  then show ?thesis using answers [OF assms] by (elim exE conjE) simp
next
  case False
  then show ?thesis using wrong_rate [of hz s f] assms by simp
qed

lemma poll_all_ok:
  "inv s \<Longrightarrow> \<forall>p \<in> set ps. usable (snd p) \<Longrightarrow> \<exists>outs s'. poll_all get ps s = Inr (outs, s') \<and> inv s' \<and> length outs = length ps \<and>
    (\<forall>i < length ps. fst (ps ! i) \<noteq> rate s \<longrightarrow> fst (outs ! i) = kError) \<and>
    (\<forall>o' \<in> set outs. fst o' = kNormal \<longrightarrow> (\<exists>g. frame_header g = header s \<and> snd o' = out s g))"
proof (induction ps arbitrary: s)
  case Nil
  then show ?case by simp
next
  case (Cons p ps)
  obtain hz f where p: "p = (hz, f)" by (cases p)
  obtain info f' s1 where g: "get hz f s = Inr (info, f', s1)" and s1: "inv s1" "rate s1 = rate s"
      "header s1 = header s" "out s1 = out s" and e: "hz \<noteq> rate s \<longrightarrow> info = kError"
      and n: "info = kNormal \<longrightarrow> (\<exists>g. frame_header g = header s \<and> f' = out s g)"
    using poll_ok [OF Cons.prems(1), of f hz] Cons.prems(2) p by auto
  obtain outs s2 where r: "poll_all get ps s1 = Inr (outs, s2)" "inv s2" "length outs = length ps"
      and o1: "\<forall>i < length ps. fst (ps ! i) \<noteq> rate s1 \<longrightarrow> fst (outs ! i) = kError"
      and o2: "\<forall>o' \<in> set outs. fst o' = kNormal \<longrightarrow> (\<exists>g. frame_header g = header s1 \<and> snd o' = out s1 g)"
    using Cons.IH [OF s1(1)] Cons.prems(2) by auto
  have "\<forall>i < length (p # ps). fst ((p # ps) ! i) \<noteq> rate s \<longrightarrow> fst (((info, f') # outs) ! i) = kError"
    using e o1 p s1(2) by (simp add: nth_Cons split: nat.split)
  then show ?case
    using g r n o2 s1 p by (intro exI [of _ "(info, f') # outs"] exI [of _ s2]) simp
qed

end

end
