(* ===== verification/Rtc_Buffer.thy ===== *)
theory Rtc_Buffer
  imports Mixer_Prelude
begin

text \<open>
  \<open>rtc::BufferT\<close> (\<open>src/libs/webrtc/include/rtc_base/buffer.h\<close>), the growable array that
  \<open>AudioRecordSource\<close> queues recorded samples in. Every method is one definition over the three
  members \<open>size_\<close>, \<open>capacity_\<close> and \<open>data_\<close>. The compile-time facts a method depends on are in
  a configuration: whether \<open>RTC_DCHECK\<close> is on, the template argument \<open>ZeroOnFree\<close>, and
  \<open>sizeof(T)\<close>. The lemmas show that every method keeps the class invariant, what it does to the
  contents, and that no \<open>RTC_DCHECK\<close> of the class can fail on a consistent buffer.
\<close>

section \<open>State and configuration\<close>

record bufcfg =
  dcheck_is_on :: bool
  zero_on_free :: bool
  elem_bytes :: nat

record 'a BufferT =
  buf_size :: size_t
  buf_capacity :: size_t
  buf_data :: "'a block"

definition BufferCompat :: "bool \<Rightarrow> nat \<Rightarrow> bool \<Rightarrow> bool \<Rightarrow> nat \<Rightarrow> bool \<Rightarrow> bool" where
  \<comment> \<open>is T integral, its width; is U volatile, integral, its width; same type up to const\<close>
  "BufferCompat t_integral t_bytes u_volatile u_integral u_bytes same_type =
     (\<not> u_volatile \<and>
      (if t_integral \<and> t_bytes = 1 then u_integral \<and> u_bytes = 1 else same_type))"

definition new_array :: "bufcfg \<Rightarrow> nat \<Rightarrow> 'a cells result" where
  \<comment> \<open>\<open>new T[n]\<close>: uninitialised cells, or the exception for a size above \<open>PTRDIFF_MAX\<close>\<close>
  "new_array c n = (if n * elem_bytes c < 2 ^ 63 then Inr (replicate n None) else Inl BadAlloc)"

section \<open>The methods\<close>

definition IsConsistent :: "'a BufferT \<Rightarrow> bool" where
  "IsConsistent b = ((buf_data b \<noteq> None \<or> buf_capacity b = 0) \<and> buf_size b \<le> buf_capacity b)"

definition MaybeZeroCompleteBuffer :: "bufcfg \<Rightarrow> 'a::zero BufferT \<Rightarrow> 'a BufferT result" where
  "MaybeZeroCompleteBuffer c b =
     (if zero_on_free c \<and> buf_capacity b \<noteq> 0
      then rbind (mem_zero (buf_data b) 0 (buf_capacity b)) (\<lambda>d. Inr (b\<lparr>buf_data := d\<rparr>))
      else Inr b)"

definition ZeroTrailingData :: "bufcfg \<Rightarrow> nat \<Rightarrow> 'a::zero BufferT \<Rightarrow> 'a BufferT result" where
  "ZeroTrailingData c count b =
     rbind (rtc_dcheck (dcheck_is_on c) (IsConsistent b)) (\<lambda>_.
     rbind (rtc_dcheck (dcheck_is_on c) (count \<le> sz_sub (buf_capacity b) (buf_size b))) (\<lambda>_.
     rbind (mem_zero (buf_data b) (buf_size b) count) (\<lambda>d. Inr (b\<lparr>buf_data := d\<rparr>))))"

definition EnsureCapacityWithHeadroom ::
    "bufcfg \<Rightarrow> size_t \<Rightarrow> bool \<Rightarrow> 'a::zero BufferT \<Rightarrow> 'a BufferT result" where
  "EnsureCapacityWithHeadroom c capacity extra_headroom b =
     rbind (rtc_dcheck (dcheck_is_on c) (IsConsistent b)) (\<lambda>_.
     if capacity \<le> buf_capacity b then Inr b
     else
       let new_capacity =
             (if extra_headroom
              then max capacity (sz_add (buf_capacity b) (buf_capacity b div 2))
              else capacity)
       in rbind (new_array c new_capacity) (\<lambda>new_data.
          rbind (mem_copy (Some new_data) 0 (cells_of (buf_data b)) (buf_size b)) (\<lambda>new_block.
          rbind (MaybeZeroCompleteBuffer c b) (\<lambda>b1.
          let b2 = b1\<lparr>buf_data := new_block, buf_capacity := new_capacity\<rparr>
          in rbind (rtc_dcheck (dcheck_is_on c) (IsConsistent b2)) (\<lambda>_. Inr b2)))))"

definition OnMovedFrom :: "bufcfg \<Rightarrow> 'a BufferT \<Rightarrow> 'a BufferT" where
  "OnMovedFrom c b =
     (if dcheck_is_on c then b\<lparr>buf_size := 0, buf_capacity := 0\<rparr>
      else b\<lparr>buf_size := 1, buf_capacity := 0\<rparr>)"

definition BufferT_default :: "bufcfg \<Rightarrow> 'a BufferT result" where
  "BufferT_default c =
     (let b = \<lparr>buf_size = 0, buf_capacity = 0, buf_data = None\<rparr>
      in rbind (rtc_dcheck (dcheck_is_on c) (IsConsistent b)) (\<lambda>_. Inr b))"

definition BufferT_move :: "bufcfg \<Rightarrow> 'a BufferT \<Rightarrow> ('a BufferT \<times> 'a BufferT) result" where
  \<comment> \<open>move construction: the new buffer and what is left of the argument\<close>
  "BufferT_move c buf =
     rbind (rtc_dcheck (dcheck_is_on c) (IsConsistent buf)) (\<lambda>_.
     rbind (rtc_dcheck (dcheck_is_on c) (IsConsistent buf)) (\<lambda>_.
     let b = \<lparr>buf_size = buf_size buf, buf_capacity = buf_capacity buf, buf_data = buf_data buf\<rparr>
     in rbind (rtc_dcheck (dcheck_is_on c) (IsConsistent b)) (\<lambda>_.
        Inr (b, OnMovedFrom c (buf\<lparr>buf_data := None\<rparr>)))))"

definition BufferT_reserve :: "bufcfg \<Rightarrow> size_t \<Rightarrow> size_t \<Rightarrow> 'a BufferT result" where
  "BufferT_reserve c n capacity =
     rbind (new_array c (max n capacity)) (\<lambda>m.
     let b = \<lparr>buf_size = n, buf_capacity = max n capacity, buf_data = Some m\<rparr>
     in rbind (rtc_dcheck (dcheck_is_on c) (IsConsistent b)) (\<lambda>_. Inr b))"

definition BufferT_sized :: "bufcfg \<Rightarrow> size_t \<Rightarrow> 'a BufferT result" where
  "BufferT_sized c n = BufferT_reserve c n n"

definition BufferT_copy_reserve :: "bufcfg \<Rightarrow> 'a cells \<Rightarrow> size_t \<Rightarrow> size_t \<Rightarrow> 'a BufferT result" where
  "BufferT_copy_reserve c data n capacity =
     rbind (BufferT_reserve c n capacity) (\<lambda>b.
     rbind (mem_copy (buf_data b) 0 data n) (\<lambda>d. Inr (b\<lparr>buf_data := d\<rparr>)))"

definition BufferT_copy :: "bufcfg \<Rightarrow> 'a cells \<Rightarrow> size_t \<Rightarrow> 'a BufferT result" where
  "BufferT_copy c data n = BufferT_copy_reserve c data n n"

definition BufferT_array :: "bufcfg \<Rightarrow> 'a cells \<Rightarrow> 'a BufferT result" where
  "BufferT_array c array = BufferT_copy c array (length array)"

definition BufferT_destroy :: "bufcfg \<Rightarrow> 'a::zero BufferT \<Rightarrow> 'a block result" where
  \<comment> \<open>the destructor: the block handed back to the allocator\<close>
  "BufferT_destroy c b = rbind (MaybeZeroCompleteBuffer c b) (\<lambda>b'. Inr (buf_data b'))"

definition buf_data_ptr :: "bufcfg \<Rightarrow> 'a BufferT \<Rightarrow> 'a block result" where
  "buf_data_ptr c b = rbind (rtc_dcheck (dcheck_is_on c) (IsConsistent b)) (\<lambda>_. Inr (buf_data b))"

definition buf_is_empty :: "bufcfg \<Rightarrow> 'a BufferT \<Rightarrow> bool result" where
  "buf_is_empty c b = rbind (rtc_dcheck (dcheck_is_on c) (IsConsistent b)) (\<lambda>_. Inr (buf_size b = 0))"

definition buf_get_size :: "bufcfg \<Rightarrow> 'a BufferT \<Rightarrow> size_t result" where
  "buf_get_size c b = rbind (rtc_dcheck (dcheck_is_on c) (IsConsistent b)) (\<lambda>_. Inr (buf_size b))"

definition buf_get_capacity :: "bufcfg \<Rightarrow> 'a BufferT \<Rightarrow> size_t result" where
  "buf_get_capacity c b =
     rbind (rtc_dcheck (dcheck_is_on c) (IsConsistent b)) (\<lambda>_. Inr (buf_capacity b))"

definition buf_move_assign ::
    "bufcfg \<Rightarrow> 'a BufferT \<Rightarrow> 'a BufferT \<Rightarrow> ('a BufferT \<times> 'a BufferT) result" where
  "buf_move_assign c self buf =
     rbind (rtc_dcheck (dcheck_is_on c) (IsConsistent self)) (\<lambda>_.
     rbind (rtc_dcheck (dcheck_is_on c) (IsConsistent buf)) (\<lambda>_.
     Inr (self\<lparr>buf_size := buf_size buf, buf_capacity := buf_capacity buf, buf_data := buf_data buf\<rparr>,
          OnMovedFrom c (buf\<lparr>buf_data := None\<rparr>))))"

fun cells_equal_loop :: "nat \<Rightarrow> 'a cells \<Rightarrow> 'a cells \<Rightarrow> bool result" where
  "cells_equal_loop 0 _ _ = Inr True"
| "cells_equal_loop (Suc n) (Some x # xs) (Some y # ys) =
     (if x \<noteq> y then Inr False else cells_equal_loop n xs ys)"
| "cells_equal_loop (Suc n) (None # xs) (_ # ys) = Inl Uninitialised"
| "cells_equal_loop (Suc n) (Some _ # xs) (None # ys) = Inl Uninitialised"
| "cells_equal_loop (Suc n) _ _ = Inl OutOfBounds"

definition memcmp_equal :: "nat \<Rightarrow> 'a cells \<Rightarrow> 'a cells \<Rightarrow> bool result" where
  \<comment> \<open>\<open>memcmp(xs, ys, n) == 0\<close>, counted in elements\<close>
  "memcmp_equal n xs ys =
     (if length xs < n \<or> length ys < n then Inl OutOfBounds
      else if None \<in> set (take n xs) \<or> None \<in> set (take n ys) then Inl Uninitialised
      else Inr (take n xs = take n ys))"

definition buf_equal :: "bufcfg \<Rightarrow> bool \<Rightarrow> 'a BufferT \<Rightarrow> 'a BufferT \<Rightarrow> bool result" where
  "buf_equal c t_integral self buf =
     rbind (rtc_dcheck (dcheck_is_on c) (IsConsistent self)) (\<lambda>_.
     if buf_size self \<noteq> buf_size buf then Inr False
     else if t_integral
     then memcmp_equal (buf_size self) (cells_of (buf_data self)) (cells_of (buf_data buf))
     else cells_equal_loop (buf_size self) (cells_of (buf_data self)) (cells_of (buf_data buf)))"

definition buf_not_equal :: "bufcfg \<Rightarrow> bool \<Rightarrow> 'a BufferT \<Rightarrow> 'a BufferT \<Rightarrow> bool result" where
  "buf_not_equal c t_integral self buf = rbind (buf_equal c t_integral self buf) (\<lambda>e. Inr (\<not> e))"

definition buf_index :: "bufcfg \<Rightarrow> 'a BufferT \<Rightarrow> size_t \<Rightarrow> 'a result" where
  "buf_index c b index =
     rbind (rtc_dcheck (dcheck_is_on c) (index < buf_size b)) (\<lambda>_.
     rbind (buf_data_ptr c b) (\<lambda>p.
     case p of
       None \<Rightarrow> Inl NullPointer
     | Some m \<Rightarrow>
         if index < length m
         then (case m ! index of None \<Rightarrow> Inl Uninitialised | Some x \<Rightarrow> Inr x)
         else Inl OutOfBounds))"

definition buf_index_store :: "bufcfg \<Rightarrow> 'a BufferT \<Rightarrow> size_t \<Rightarrow> 'a \<Rightarrow> 'a BufferT result" where
  \<comment> \<open>an assignment through the reference the non-const \<open>operator[]\<close> returns\<close>
  "buf_index_store c b index x =
     rbind (rtc_dcheck (dcheck_is_on c) (index < buf_size b)) (\<lambda>_.
     rbind (buf_data_ptr c b) (\<lambda>p.
     case p of
       None \<Rightarrow> Inl NullPointer
     | Some m \<Rightarrow>
         if index < length m then Inr (b\<lparr>buf_data := Some (m[index := Some x])\<rparr>)
         else Inl OutOfBounds))"

definition buf_range :: "bufcfg \<Rightarrow> 'a BufferT \<Rightarrow> 'a cells result" where
  \<comment> \<open>the cells from \<open>begin()\<close> to \<open>end()\<close>\<close>
  "buf_range c b =
     rbind (buf_data_ptr c b) (\<lambda>p. rbind (buf_get_size c b) (\<lambda>n. Inr (take n (cells_of p))))"

definition SetSize :: "bufcfg \<Rightarrow> size_t \<Rightarrow> 'a::zero BufferT \<Rightarrow> 'a BufferT result" where
  "SetSize c n b =
     (let old_size = buf_size b in
      rbind (EnsureCapacityWithHeadroom c n True b) (\<lambda>b1.
      let b2 = b1\<lparr>buf_size := n\<rparr> in
      if zero_on_free c \<and> buf_size b2 < old_size
      then ZeroTrailingData c (old_size - buf_size b2) b2
      else Inr b2))"

definition AppendData :: "bufcfg \<Rightarrow> 'a cells \<Rightarrow> size_t \<Rightarrow> 'a::zero BufferT \<Rightarrow> 'a BufferT result" where
  "AppendData c data n b =
     rbind (rtc_dcheck (dcheck_is_on c) (IsConsistent b)) (\<lambda>_.
     let new_size = sz_add (buf_size b) n in
     rbind (EnsureCapacityWithHeadroom c new_size True b) (\<lambda>b1.
     rbind (mem_copy (buf_data b1) (buf_size b1) data n) (\<lambda>d.
     let b2 = b1\<lparr>buf_data := d, buf_size := new_size\<rparr> in
     rbind (rtc_dcheck (dcheck_is_on c) (IsConsistent b2)) (\<lambda>_. Inr b2))))"

definition AppendData_array :: "bufcfg \<Rightarrow> 'a cells \<Rightarrow> 'a::zero BufferT \<Rightarrow> 'a BufferT result" where
  "AppendData_array c array b = AppendData c array (length array) b"

definition AppendData_item :: "bufcfg \<Rightarrow> 'a \<Rightarrow> 'a::zero BufferT \<Rightarrow> 'a BufferT result" where
  "AppendData_item c item b = AppendData c [Some item] 1 b"

definition AppendData_setter ::
    "bufcfg \<Rightarrow> size_t \<Rightarrow> ('a cells \<Rightarrow> size_t \<times> 'a cells) \<Rightarrow> 'a::zero BufferT \<Rightarrow>
     (size_t \<times> 'a BufferT) result" where
  \<comment> \<open>\<open>setter\<close> gets the view and gives the count it claims and what the view then holds\<close>
  "AppendData_setter c max_elements setter b =
     rbind (rtc_dcheck (dcheck_is_on c) (IsConsistent b)) (\<lambda>_.
     let old_size = buf_size b in
     rbind (SetSize c (sz_add old_size max_elements) b) (\<lambda>b1.
     let view = take max_elements (drop old_size (cells_of (buf_data b1)));
         (written_elements, view') = setter view
     in rbind (mem_copy (buf_data b1) old_size (take max_elements view') (length (take max_elements view'))) (\<lambda>d.
        rbind (rtc_check (written_elements \<le> max_elements) ''written_elements <= max_elements'') (\<lambda>_.
        let b2 = b1\<lparr>buf_data := d, buf_size := sz_add old_size written_elements\<rparr> in
        rbind (rtc_dcheck (dcheck_is_on c) (IsConsistent b2)) (\<lambda>_. Inr (written_elements, b2))))))"

definition SetData :: "bufcfg \<Rightarrow> 'a cells \<Rightarrow> size_t \<Rightarrow> 'a::zero BufferT \<Rightarrow> 'a BufferT result" where
  "SetData c data n b =
     rbind (rtc_dcheck (dcheck_is_on c) (IsConsistent b)) (\<lambda>_.
     let old_size = buf_size b in
     rbind (AppendData c data n (b\<lparr>buf_size := 0\<rparr>)) (\<lambda>b1.
     if zero_on_free c \<and> buf_size b1 < old_size
     then ZeroTrailingData c (old_size - buf_size b1) b1
     else Inr b1))"

definition SetData_array :: "bufcfg \<Rightarrow> 'a cells \<Rightarrow> 'a::zero BufferT \<Rightarrow> 'a BufferT result" where
  "SetData_array c array b = SetData c array (length array) b"

definition SetData_setter ::
    "bufcfg \<Rightarrow> size_t \<Rightarrow> ('a cells \<Rightarrow> size_t \<times> 'a cells) \<Rightarrow> 'a::zero BufferT \<Rightarrow>
     (size_t \<times> 'a BufferT) result" where
  "SetData_setter c max_elements setter b =
     rbind (rtc_dcheck (dcheck_is_on c) (IsConsistent b)) (\<lambda>_.
     let old_size = buf_size b in
     rbind (AppendData_setter c max_elements setter (b\<lparr>buf_size := 0\<rparr>)) (\<lambda>(written, b1).
     rbind (if zero_on_free c \<and> buf_size b1 < old_size
            then ZeroTrailingData c (old_size - buf_size b1) b1
            else Inr b1) (\<lambda>b2. Inr (written, b2))))"

definition EnsureCapacity :: "bufcfg \<Rightarrow> size_t \<Rightarrow> 'a::zero BufferT \<Rightarrow> 'a BufferT result" where
  "EnsureCapacity c capacity b = EnsureCapacityWithHeadroom c capacity False b"

definition buf_Clear :: "bufcfg \<Rightarrow> 'a::zero BufferT \<Rightarrow> 'a BufferT result" where
  "buf_Clear c b =
     rbind (MaybeZeroCompleteBuffer c b) (\<lambda>b1.
     let b2 = b1\<lparr>buf_size := 0\<rparr>
     in rbind (rtc_dcheck (dcheck_is_on c) (IsConsistent b2)) (\<lambda>_. Inr b2))"

definition buf_swap :: "'a BufferT \<Rightarrow> 'a BufferT \<Rightarrow> 'a BufferT \<times> 'a BufferT" where
  "buf_swap a b =
     (a\<lparr>buf_size := buf_size b, buf_capacity := buf_capacity b, buf_data := buf_data b\<rparr>,
      b\<lparr>buf_size := buf_size a, buf_capacity := buf_capacity a, buf_data := buf_data a\<rparr>)"

section \<open>Invariant and contents\<close>

definition buf_cells :: "'a BufferT \<Rightarrow> 'a cells" where
  "buf_cells b = cells_of (buf_data b)"

definition buf_contents :: "'a BufferT \<Rightarrow> 'a cells" where
  "buf_contents b = take (buf_size b) (buf_cells b)"

definition buf_inv :: "bufcfg \<Rightarrow> 'a BufferT \<Rightarrow> bool" where
  "buf_inv c b \<longleftrightarrow>
     IsConsistent b \<and> length (buf_cells b) = buf_capacity b \<and>
     buf_capacity b * elem_bytes c < 2 ^ 63 \<and> 0 < elem_bytes c"

definition tail_clean :: "'a::zero BufferT \<Rightarrow> bool" where
  \<comment> \<open>the unused capacity holds nothing but zeros or never-written cells\<close>
  "tail_clean b \<longleftrightarrow> (\<forall>x \<in> set (drop (buf_size b) (buf_cells b)). x = None \<or> x = Some 0)"

definition growth_ok :: "bufcfg \<Rightarrow> size_t \<Rightarrow> 'a BufferT \<Rightarrow> bool" where
  \<comment> \<open>the allocation that room for \<open>n\<close> elements may need does not exceed the allocator's limit\<close>
  "growth_ok c n b \<longleftrightarrow> max n (buf_capacity b + buf_capacity b div 2) * elem_bytes c < 2 ^ 63"

definition grown :: "size_t \<Rightarrow> 'a BufferT \<Rightarrow> 'a BufferT" where
  "grown n b =
     (if n \<le> buf_capacity b then b
      else let m = max n (buf_capacity b + buf_capacity b div 2)
           in b\<lparr>buf_data := Some (buf_contents b @ replicate (m - buf_size b) None),
                buf_capacity := m\<rparr>)"

definition buffer_faults :: "fault set" where
  "buffer_faults = {CheckFailed ''DCHECK'', BadAlloc, OutOfBounds, NullPointer}"

lemma buffer_faults_mem:
  "CheckFailed ''DCHECK'' \<in> buffer_faults" "BadAlloc \<in> buffer_faults" "{OutOfBounds, NullPointer} \<subseteq> buffer_faults"
  by (simp_all add: buffer_faults_def)

lemma new_array_raises: "raises_only buffer_faults (new_array c n)"
  by (simp add: new_array_def buffer_faults_def)

lemma MaybeZero_raises: "raises_only buffer_faults (MaybeZeroCompleteBuffer c b)"
  by (auto simp: MaybeZeroCompleteBuffer_def mem_zero_def intro!: raises_only_bind raises_only_mem_copy buffer_faults_mem)

lemma EnsureCapacity_raises: "raises_only buffer_faults (EnsureCapacityWithHeadroom c n h b)"
  unfolding EnsureCapacityWithHeadroom_def Let_def
  by (intro raises_only_bind raises_only_if raises_only_dcheck raises_only_mem_copy new_array_raises MaybeZero_raises
      buffer_faults_mem raises_only_Inr)

lemma AppendData_raises: "raises_only buffer_faults (AppendData c data n b)"
  unfolding AppendData_def Let_def
  by (intro raises_only_bind raises_only_dcheck raises_only_mem_copy EnsureCapacity_raises buffer_faults_mem raises_only_Inr)

lemma elem_bytes_bound: "n * e < 2 ^ 63 \<Longrightarrow> 0 < e \<Longrightarrow> n < 2 ^ 63" for n e :: nat
  by (metis less_le_trans mult.right_neutral mult_le_mono2 Suc_leI One_nat_def le_less_trans)

lemma buf_inv_size: "buf_inv c b \<Longrightarrow> buf_size b \<le> buf_capacity b"
  by (simp add: buf_inv_def IsConsistent_def)

lemma buf_inv_capacity: "buf_inv c b \<Longrightarrow> buf_capacity b < 2 ^ 63"
  unfolding buf_inv_def by (blast intro: elem_bytes_bound)

lemma buf_inv_consistent [simp]: "buf_inv c b \<Longrightarrow> IsConsistent b"
  by (simp add: buf_inv_def)

lemma length_buf_contents [simp]: "buf_inv c b \<Longrightarrow> length (buf_contents b) = buf_size b"
  by (simp add: buf_contents_def buf_inv_def IsConsistent_def)

lemma sz_add_headroom:
  "buf_inv c b \<Longrightarrow> sz_add (buf_capacity b) (buf_capacity b div 2) = buf_capacity b + buf_capacity b div 2"
  using buf_inv_capacity [of c b] by (intro sz_add_small) (simp add: size_mod_def)

lemma MaybeZero_ok:
  assumes "buf_inv c b"
  shows "\<exists>d. MaybeZeroCompleteBuffer c b = Inr (b\<lparr>buf_data := d\<rparr>) \<and>
    length (cells_of d) = buf_capacity b \<and> (d = None \<longleftrightarrow> buf_data b = None) \<and>
    (zero_on_free c \<longrightarrow> set (cells_of d) \<subseteq> {Some 0})"
proof (cases "zero_on_free c \<and> buf_capacity b \<noteq> 0")
  case True
  with assms obtain m where m: "buf_data b = Some m" "length m = buf_capacity b"
    by (auto simp: buf_inv_def IsConsistent_def buf_cells_def)
  with True show ?thesis
    by (intro exI [of _ "Some (replicate (buf_capacity b) (Some 0))"])
      (simp add: MaybeZeroCompleteBuffer_def mem_zero_ok subset_iff)
next
  case False
  with assms have "MaybeZeroCompleteBuffer c b = Inr b" "length (cells_of (buf_data b)) = buf_capacity b"
    by (auto simp: MaybeZeroCompleteBuffer_def buf_inv_def buf_cells_def)
  with False show ?thesis
    by (intro exI [of _ "buf_data b"]) auto
qed

lemma EnsureCapacityWithHeadroom_ok:
  assumes inv: "buf_inv c b" and room: "growth_ok c n b"
  shows "EnsureCapacityWithHeadroom c n True b = Inr (grown n b)"
proof (cases "n \<le> buf_capacity b")
  case True
  then show ?thesis
    using inv by (simp add: EnsureCapacityWithHeadroom_def grown_def)
next
  case False
  define m where "m = max n (buf_capacity b + buf_capacity b div 2)"
  have new: "new_array c m = Inr (replicate m None)"
    using room by (simp add: new_array_def growth_ok_def m_def)
  have sz: "buf_size b \<le> m" "buf_size b \<le> length (cells_of (buf_data b))"
    using inv False by (auto simp: m_def buf_inv_def IsConsistent_def buf_cells_def)
  have cp: "mem_copy (Some (replicate m None)) 0 (cells_of (buf_data b)) (buf_size b) =
      Inr (Some (buf_contents b @ replicate (m - buf_size b) None))"
    using sz by (simp add: mem_copy_ok buf_contents_def buf_cells_def)
  obtain d where d: "MaybeZeroCompleteBuffer c b = Inr (b\<lparr>buf_data := d\<rparr>)"
    using MaybeZero_ok [OF inv] by blast
  have con: "IsConsistent (b\<lparr>buf_data := Some (buf_contents b @ replicate (m - buf_size b) None),
      buf_capacity := m\<rparr>)"
    using sz by (simp add: IsConsistent_def)
  show ?thesis
    using False inv con
    by (simp add: EnsureCapacityWithHeadroom_def sz_add_headroom [OF inv] m_def [symmetric] new cp d
        grown_def Let_def)
qed

lemma grown_props:
  assumes inv: "buf_inv c b" and room: "growth_ok c n b"
  shows "buf_inv c (grown n b)" "buf_contents (grown n b) = buf_contents b"
    "buf_size (grown n b) = buf_size b" "n \<le> buf_capacity (grown n b)"
    "tail_clean b \<Longrightarrow> tail_clean (grown n b)"
proof -
  have len: "length (buf_contents b) = buf_size b" and sz: "buf_size b \<le> buf_capacity b"
    using inv by (auto dest: buf_inv_size)
  show "buf_inv c (grown n b)" "buf_size (grown n b) = buf_size b" "n \<le> buf_capacity (grown n b)"
    using inv room len sz
    by (auto simp: grown_def Let_def buf_inv_def buf_cells_def IsConsistent_def growth_ok_def)
  show "buf_contents (grown n b) = buf_contents b"
    using len by (simp add: grown_def Let_def buf_contents_def [of "b\<lparr>buf_data := d, buf_capacity := e\<rparr>" for d e]
        buf_cells_def)
  show "tail_clean b \<Longrightarrow> tail_clean (grown n b)"
    using len by (auto simp: grown_def Let_def tail_clean_def buf_cells_def)
qed

lemma ZeroTrailingData_ok:
  assumes inv: "buf_inv c b" and n: "buf_size b + n \<le> buf_capacity b"
  shows "\<exists>b'. ZeroTrailingData c n b = Inr b' \<and> buf_inv c b' \<and> buf_contents b' = buf_contents b \<and>
    buf_size b' = buf_size b \<and> buf_capacity b' = buf_capacity b \<and>
    drop (buf_size b) (buf_cells b') =
      replicate n (Some 0) @ drop (buf_size b + n) (buf_cells b)"
proof (cases "buf_data b")
  case None
  with assms have "n = 0"
    by (simp add: buf_inv_def IsConsistent_def)
  with inv show ?thesis
    by (simp add: ZeroTrailingData_def)
next
  case (Some m)
  have cap: "sz_sub (buf_capacity b) (buf_size b) = buf_capacity b - buf_size b"
    using buf_inv_capacity [OF inv] buf_inv_size [OF inv] by (intro sz_sub_small) (simp_all add: size_mod_def)
  from Some assms have len: "length m = buf_capacity b"
    by (simp add: buf_inv_def buf_cells_def)
  moreover have "n \<le> buf_capacity b - buf_size b" using n by simp
  ultimately have "ZeroTrailingData c n b =
      Inr (b\<lparr>buf_data := Some (take (buf_size b) m @ replicate n (Some 0) @ drop (buf_size b + n) m)\<rparr>)"
    using Some inv n cap by (simp add: ZeroTrailingData_def mem_zero_ok)
  with Some inv n len show ?thesis
    by (auto simp: buf_inv_def IsConsistent_def buf_cells_def buf_contents_def)
qed

lemma AppendData_ok:
  assumes inv: "buf_inv c b" and data: "n \<le> length data" and room: "growth_ok c (buf_size b + n) b"
  shows "\<exists>b'. AppendData c data n b = Inr b' \<and> buf_inv c b' \<and>
    buf_contents b' = buf_contents b @ take n data \<and> buf_size b' = buf_size b + n \<and>
    buf_capacity b' = buf_capacity (grown (buf_size b + n) b) \<and>
    buf_cells b' = buf_contents b @ take n data @ drop (buf_size b + n) (buf_cells (grown (buf_size b + n) b))"
proof -
  let ?g = "grown (buf_size b + n) b"
  note g = grown_props [OF inv room]
  have "buf_size b + n < 2 ^ 63"
    using room inv elem_bytes_bound [of "max (buf_size b + n) (buf_capacity b + buf_capacity b div 2)"]
    by (force simp: growth_ok_def buf_inv_def)
  then have sz: "sz_add (buf_size b) n = buf_size b + n"
    by (intro sz_add_small) (simp add: size_mod_def)
  have len: "length (buf_cells ?g) = buf_capacity ?g"
    using g(1) by (simp add: buf_inv_def)
  have pre: "take (buf_size b) (buf_cells ?g) = buf_contents b"
    using g(2,3) by (simp add: buf_contents_def)
  have cp: "\<exists>d. mem_copy (buf_data ?g) (buf_size b) data n = Inr d \<and>
      cells_of d = buf_contents b @ take n data @ drop (buf_size b + n) (buf_cells ?g) \<and>
      (d = None \<longrightarrow> buf_capacity ?g = 0)"
  proof (cases "buf_data ?g")
    case None
    with g(1,4) have "n = 0" "buf_size b = 0" "buf_capacity ?g = 0"
      by (auto simp: buf_inv_def IsConsistent_def)
    with None pre show ?thesis by (simp add: buf_cells_def)
  next
    case (Some m)
    with len g(4) data pre have "mem_copy (buf_data ?g) (buf_size b) data n =
        Inr (Some (take (buf_size b) m @ take n data @ drop (buf_size b + n) m))"
      by (simp add: mem_copy_ok buf_cells_def)
    with Some pre show ?thesis by (simp add: buf_cells_def)
  qed
  then obtain d where d: "mem_copy (buf_data ?g) (buf_size b) data n = Inr d"
      "cells_of d = buf_contents b @ take n data @ drop (buf_size b + n) (buf_cells ?g)"
      "d = None \<longrightarrow> buf_capacity ?g = 0"
    by blast
  let ?b = "?g\<lparr>buf_data := d, buf_size := buf_size b + n\<rparr>"
  have con: "IsConsistent ?b"
    using d(3) g(4) by (auto simp: IsConsistent_def)
  have "AppendData c data n b = Inr ?b"
    using inv con by (simp add: AppendData_def Let_def sz EnsureCapacityWithHeadroom_ok [OF inv room] g(3) d(1))
  moreover have "buf_inv c ?b"
    using g(1,4) con d(2) data len inv by (simp add: buf_inv_def [of c ?b] buf_cells_def) (simp add: buf_inv_def)
  moreover have "buf_contents ?b = buf_contents b @ take n data"
    using d(2) data inv by (simp add: buf_contents_def [of ?b] buf_cells_def)
  ultimately show ?thesis
    using d(2) by (auto simp: buf_cells_def)
qed

lemma growth_ok_mono: "growth_ok c n b \<Longrightarrow> m \<le> n \<Longrightarrow> growth_ok c m b"
  unfolding growth_ok_def
  by (meson le_less_trans max.mono mult_le_mono1 order_refl)

lemma EnsureCapacity_within:
  "buf_inv c b \<Longrightarrow> n \<le> buf_capacity b \<Longrightarrow> EnsureCapacityWithHeadroom c n extra b = Inr b"
  by (simp add: EnsureCapacityWithHeadroom_def)

lemma SetSize_shrink_ok:
  assumes inv: "buf_inv c b" and n: "n \<le> buf_size b"
  shows "\<exists>b'. SetSize c n b = Inr b' \<and> buf_inv c b' \<and> buf_contents b' = take n (buf_contents b) \<and>
    buf_size b' = n \<and> buf_capacity b' = buf_capacity b \<and>
    (zero_on_free c \<longrightarrow> tail_clean b \<longrightarrow> tail_clean b')"
proof -
  have ens: "EnsureCapacityWithHeadroom c n True b = Inr b"
    using buf_inv_size [OF inv] n by (intro EnsureCapacity_within [OF inv]) simp
  let ?b = "b\<lparr>buf_size := n\<rparr>"
  have inv': "buf_inv c ?b" and cont: "buf_contents ?b = take n (buf_contents b)"
    using inv n by (auto simp: buf_inv_def IsConsistent_def buf_cells_def buf_contents_def min_def)
  show ?thesis
  proof (cases "zero_on_free c \<and> n < buf_size b")
    case True
    have "buf_size ?b + (buf_size b - n) \<le> buf_capacity ?b"
      using n buf_inv_size [OF inv] by simp
    from ZeroTrailingData_ok [OF inv' this] obtain b' where b':
        "ZeroTrailingData c (buf_size b - n) ?b = Inr b'" "buf_inv c b'"
        "buf_contents b' = buf_contents ?b" "buf_size b' = n" "buf_capacity b' = buf_capacity b"
        "drop n (buf_cells b') = replicate (buf_size b - n) (Some 0) @ drop (buf_size b) (buf_cells b)"
      using n by (auto simp: buf_cells_def)
    then show ?thesis
      using True cont by (auto simp: SetSize_def ens tail_clean_def)
  next
    case False
    then have "SetSize c n b = Inr ?b"
      by (auto simp: SetSize_def ens)
    with False inv' cont n show ?thesis
      by (auto simp: tail_clean_def buf_cells_def)
  qed
qed

lemma SetSize_grow_ok:
  assumes inv: "buf_inv c b" and n: "buf_size b \<le> n" and room: "growth_ok c n b"
  shows "\<exists>b'. SetSize c n b = Inr b' \<and> buf_inv c b' \<and> buf_size b' = n \<and>
    take (buf_size b) (buf_contents b') = buf_contents b"
proof -
  let ?g = "grown n b"
  note g = grown_props [OF inv room]
  have "SetSize c n b = Inr (?g\<lparr>buf_size := n\<rparr>)"
    using n by (simp add: SetSize_def EnsureCapacityWithHeadroom_ok [OF inv room])
  moreover have "buf_inv c (?g\<lparr>buf_size := n\<rparr>)"
    using g(1,4) by (simp add: buf_inv_def IsConsistent_def buf_cells_def)
  moreover have "take (buf_size b) (buf_contents (?g\<lparr>buf_size := n\<rparr>)) = buf_contents b"
    using g(2,3) n by (simp add: buf_contents_def buf_cells_def min_def)
  ultimately show ?thesis by simp
qed

lemma buf_Clear_ok:
  assumes inv: "buf_inv c b"
  shows "\<exists>b'. buf_Clear c b = Inr b' \<and> buf_inv c b' \<and> buf_contents b' = [] \<and>
    buf_size b' = 0 \<and> buf_capacity b' = buf_capacity b \<and> (zero_on_free c \<longrightarrow> tail_clean b')"
proof -
  obtain d where d: "MaybeZeroCompleteBuffer c b = Inr (b\<lparr>buf_data := d\<rparr>)"
      "length (cells_of d) = buf_capacity b" "d = None \<longleftrightarrow> buf_data b = None"
      "zero_on_free c \<longrightarrow> set (cells_of d) \<subseteq> {Some 0}"
    using MaybeZero_ok [OF inv] by (elim exE conjE) assumption
  let ?b = "b\<lparr>buf_data := d, buf_size := 0\<rparr>"
  have con: "IsConsistent ?b"
    using inv d(3) by (cases d; cases "buf_data b") (simp_all add: buf_inv_def IsConsistent_def)
  then have "buf_Clear c b = Inr ?b"
    by (simp add: buf_Clear_def d(1))
  moreover have "buf_inv c ?b"
    using con inv d(2) by (simp add: buf_inv_def buf_cells_def)
  moreover have "zero_on_free c \<longrightarrow> tail_clean ?b"
    using d(4) by (auto simp: tail_clean_def buf_cells_def)
  ultimately show ?thesis
    by (simp add: buf_contents_def)
qed

lemma tail_clean_append:
  assumes "buf_inv c b" "n \<le> length data" "growth_ok c (buf_size b + n) b"
    and "AppendData c data n b = Inr b'" and clean: "tail_clean b"
  shows "tail_clean b'"
proof -
  let ?g = "grown (buf_size b + n) b"
  have b': "buf_size b' = buf_size b + n"
      "buf_cells b' = buf_contents b @ take n data @ drop (buf_size b + n) (buf_cells ?g)"
    using AppendData_ok [OF assms(1-3)] assms(4) by auto
  have "tail_clean ?g" and "buf_size ?g = buf_size b"
    using grown_props [OF assms(1,3)] clean by auto
  moreover have "set (drop (buf_size b + n) (buf_cells ?g)) \<subseteq> set (drop (buf_size b) (buf_cells ?g))"
    by (simp add: set_drop_subset_set_drop)
  ultimately show ?thesis
    using assms(1,2) by (auto simp: tail_clean_def b')
qed

lemma grown_reset_tail:
  assumes clean: "tail_clean b" and n: "buf_size b \<le> n"
  shows "\<forall>x \<in> set (drop n (buf_cells (grown n (b\<lparr>buf_size := 0\<rparr>)))). x = None \<or> x = Some 0"
proof (cases "n \<le> buf_capacity b")
  case True
  then have "buf_cells (grown n (b\<lparr>buf_size := 0\<rparr>)) = buf_cells b"
    by (simp add: grown_def buf_cells_def)
  then show ?thesis
    using clean set_drop_subset_set_drop [OF n, of "buf_cells b"] by (auto simp: tail_clean_def)
next
  case False
  then have "set (buf_cells (grown n (b\<lparr>buf_size := 0\<rparr>))) \<subseteq> {None}"
    by (simp add: grown_def Let_def buf_cells_def buf_contents_def subset_iff)
  then show ?thesis
    by (auto dest: in_set_dropD)
qed

lemma SetData_ok:
  assumes inv: "buf_inv c b" and data: "n \<le> length data" and room: "growth_ok c n b"
  shows "\<exists>b'. SetData c data n b = Inr b' \<and> buf_inv c b' \<and> buf_contents b' = take n data \<and>
    (zero_on_free c \<longrightarrow> tail_clean b \<longrightarrow> tail_clean b')"
proof -
  let ?b0 = "b\<lparr>buf_size := 0\<rparr>"
  have inv0: "buf_inv c ?b0"
    using inv by (simp add: buf_inv_def IsConsistent_def buf_cells_def)
  have room0: "growth_ok c (buf_size ?b0 + n) ?b0"
    using room by (simp add: growth_ok_def)
  have e0: "buf_contents ?b0 = []"
    by (simp add: buf_contents_def)
  obtain b1 where b1: "AppendData c data n ?b0 = Inr b1" "buf_inv c b1" "buf_contents b1 = take n data"
      "buf_size b1 = n" "buf_capacity b1 = buf_capacity (grown n ?b0)"
      "buf_cells b1 = take n data @ drop n (buf_cells (grown n ?b0))"
    using AppendData_ok [OF inv0 data room0, simplified, unfolded e0, simplified]
    by (elim exE conjE) assumption
  show ?thesis
  proof (cases "zero_on_free c \<and> n < buf_size b")
    case True
    have "grown n ?b0 = ?b0"
      using True buf_inv_size [OF inv] by (simp add: grown_def)
    then have cells: "buf_cells b1 = take n data @ drop n (buf_cells b)" "buf_capacity b1 = buf_capacity b"
      using b1(5,6) by (simp_all add: buf_cells_def)
    have "buf_size b1 + (buf_size b - n) \<le> buf_capacity b1"
      using True buf_inv_size [OF inv] b1(4) cells by simp
    from ZeroTrailingData_ok [OF b1(2) this] obtain b2 where b2:
        "ZeroTrailingData c (buf_size b - n) b1 = Inr b2" "buf_inv c b2" "buf_contents b2 = take n data"
        "buf_size b2 = n"
        "drop n (buf_cells b2) = replicate (buf_size b - n) (Some 0) @ drop (buf_size b) (buf_cells b1)"
      using b1(3,4) True by auto
    have "drop (buf_size b) (buf_cells b1) = drop (buf_size b) (buf_cells b)"
      using cells(1) data True by simp
    then have "tail_clean b \<longrightarrow> tail_clean b2"
      using b2(4,5) by (auto simp: tail_clean_def)
    with b1 b2 True inv show ?thesis
      by (simp add: SetData_def)
  next
    case False
    then have eq: "SetData c data n b = Inr b1"
      using b1 inv by (auto simp: SetData_def)
    have "tail_clean b1" if "zero_on_free c" "tail_clean b"
    proof -
      have "buf_size b \<le> n" using False that by simp
      then show ?thesis
        using grown_reset_tail [OF that(2)] data by (simp add: tail_clean_def b1(4,6))
    qed
    with b1 eq show ?thesis by simp
  qed
qed

lemma cells_equal_loop_memcmp:
  "n \<le> length xs \<Longrightarrow> n \<le> length ys \<Longrightarrow> None \<notin> set (take n xs) \<Longrightarrow> None \<notin> set (take n ys) \<Longrightarrow>
   cells_equal_loop n xs ys = memcmp_equal n xs ys"
proof (induction n xs ys rule: cells_equal_loop.induct)
  case (2 n x xs y ys)
  then show ?case by (cases "x = y") (simp_all add: memcmp_equal_def)
qed (auto simp: memcmp_equal_def)

section \<open>No debug check of the class can fail on a consistent buffer\<close>

lemma EnsureCapacityWithHeadroom_cases:
  assumes inv: "buf_inv c b"
  shows "EnsureCapacityWithHeadroom c n extra b = Inl BadAlloc \<or>
    (\<exists>b'. EnsureCapacityWithHeadroom c n extra b = Inr b' \<and> buf_inv c b' \<and>
       buf_size b' = buf_size b \<and> buf_contents b' = buf_contents b \<and> n \<le> buf_capacity b')"
proof (cases "n \<le> buf_capacity b")
  case True
  with inv show ?thesis by (simp add: EnsureCapacity_within)
next
  case False
  define m where "m = (if extra then max n (buf_capacity b + buf_capacity b div 2) else n)"
  have m: "n \<le> m" "buf_size b \<le> m" "buf_size b \<le> length (cells_of (buf_data b))"
    using inv False by (auto simp: m_def buf_inv_def IsConsistent_def buf_cells_def)
  obtain d where d: "MaybeZeroCompleteBuffer c b = Inr (b\<lparr>buf_data := d\<rparr>)"
    using MaybeZero_ok [OF inv] by blast
  let ?b = "b\<lparr>buf_data := Some (buf_contents b @ replicate (m - buf_size b) None), buf_capacity := m\<rparr>"
  have cp: "mem_copy (Some (replicate m None)) 0 (cells_of (buf_data b)) (buf_size b) =
      Inr (Some (buf_contents b @ replicate (m - buf_size b) None))"
    using m by (simp add: mem_copy_ok buf_contents_def buf_cells_def)
  have con: "IsConsistent ?b"
    using m by (simp add: IsConsistent_def)
  have eq: "EnsureCapacityWithHeadroom c n extra b =
      (if m * elem_bytes c < 2 ^ 63 then Inr ?b else Inl BadAlloc)"
    unfolding EnsureCapacityWithHeadroom_def Let_def sz_add_headroom [OF inv] m_def [symmetric]
    using False inv con by (simp add: cp d new_array_def)
  have "m * elem_bytes c < 2 ^ 63 \<Longrightarrow> buf_inv c ?b" "buf_contents ?b = buf_contents b"
    using inv con m length_buf_contents [OF inv]
    by (simp_all add: buf_inv_def buf_cells_def buf_contents_def [of ?b] del: length_buf_contents)
  with eq m show ?thesis by auto
qed

lemma mem_copy_Inr:
  assumes "mem_copy dst off src n = Inr d" and "length (cells_of dst) = cap" and "off \<le> cap"
  shows "off + n \<le> cap \<and> length (cells_of d) = cap \<and> (d = None \<longleftrightarrow> dst = None)"
  using assms by (auto simp: mem_copy_def split: if_splits option.splits)

lemma mem_copy_no_check: "mem_copy dst off src n \<noteq> Inl (CheckFailed msg)"
  by (auto simp: mem_copy_def split: option.splits)

lemma AppendData_cases:
  assumes inv: "buf_inv c b"
  shows "AppendData c data n b \<in> {Inl BadAlloc, Inl OutOfBounds, Inl NullPointer} \<or>
    (\<exists>b'. AppendData c data n b = Inr b' \<and> buf_inv c b' \<and> buf_size b' = buf_size b + n)"
proof (cases "EnsureCapacityWithHeadroom c (sz_add (buf_size b) n) True b")
  case (Inl e)
  with EnsureCapacityWithHeadroom_cases [OF inv, of "sz_add (buf_size b) n" True] inv
  show ?thesis by (auto simp: AppendData_def)
next
  case (Inr g)
  with EnsureCapacityWithHeadroom_cases [OF inv, of "sz_add (buf_size b) n" True]
  have g: "buf_inv c g" "buf_size g = buf_size b" "sz_add (buf_size b) n \<le> buf_capacity g"
    by auto
  show ?thesis
  proof (cases "mem_copy (buf_data g) (buf_size b) data n")
    case (Inl e)
    then have "e \<in> {OutOfBounds, NullPointer}"
      by (auto simp: mem_copy_def split: if_splits option.splits)
    with Inl Inr inv g(2) show ?thesis
      by (auto simp: AppendData_def Let_def)
  next
    case (Inr d)
    have d: "buf_size b + n \<le> buf_capacity g" "length (cells_of d) = buf_capacity g"
        "d = None \<longleftrightarrow> buf_data g = None"
      using mem_copy_Inr [OF Inr, of "buf_capacity g"] g(1,2) buf_inv_size [OF g(1)]
      by (simp_all add: buf_inv_def buf_cells_def)
    have "buf_size b + n < size_mod"
      using d(1) buf_inv_capacity [OF g(1)] by (simp add: size_mod_def)
    then have sz: "sz_add (buf_size b) n = buf_size b + n" by (rule sz_add_small)
    let ?b = "g\<lparr>buf_data := d, buf_size := buf_size b + n\<rparr>"
    have con: "IsConsistent ?b"
      using d(1,3) g(1) by (cases d; cases "buf_data g") (simp_all add: IsConsistent_def buf_inv_def)
    have "AppendData c data n b = Inr ?b"
      using \<open>EnsureCapacityWithHeadroom c (sz_add (buf_size b) n) True b = Inr g\<close> Inr con g inv
      by (simp add: AppendData_def Let_def sz)
    moreover have "buf_inv c ?b"
      using con g(1) d(2) by (simp add: buf_inv_def buf_cells_def)
    ultimately show ?thesis by simp
  qed
qed

lemma SetSize_no_check:
  assumes inv: "buf_inv c b"
  shows "SetSize c n b \<noteq> Inl (CheckFailed msg)"
proof (cases "n \<le> buf_size b")
  case True
  then show ?thesis using SetSize_shrink_ok [OF inv] by force
next
  case False
  then show ?thesis
    using EnsureCapacityWithHeadroom_cases [OF inv, of n True] by (auto simp: SetSize_def)
qed

lemma SetData_no_check:
  assumes inv: "buf_inv c b"
  shows "SetData c data n b \<noteq> Inl (CheckFailed msg)"
proof -
  let ?b0 = "b\<lparr>buf_size := 0\<rparr>"
  have inv0: "buf_inv c ?b0"
    using inv by (simp add: buf_inv_def IsConsistent_def buf_cells_def)
  show ?thesis
  proof (cases "AppendData c data n ?b0")
    case (Inl e)
    with AppendData_cases [OF inv0, of data n] inv show ?thesis
      by (auto simp: SetData_def)
  next
    case (Inr b1)
    with AppendData_cases [OF inv0, of data n] have b1: "buf_inv c b1" "buf_size b1 = n" by auto
    have "buf_capacity b \<le> buf_capacity b1" if "n < buf_size b"
    proof -
      have "EnsureCapacityWithHeadroom c (sz_add 0 n) True ?b0 = Inr ?b0"
        using that buf_inv_size [OF inv] buf_inv_capacity [OF inv]
        by (intro EnsureCapacity_within [OF inv0]) (simp add: sz_add_small size_mod_def)
      then show ?thesis
        using Inr inv0 by (auto simp: AppendData_def rbind_eq_Inr Let_def)
    qed
    then have "\<exists>b2. ZeroTrailingData c (buf_size b - n) b1 = Inr b2" if "n < buf_size b"
      using ZeroTrailingData_ok [OF b1(1), of "buf_size b - n"] that b1(2) buf_inv_size [OF inv] by auto
    with Inr b1 inv show ?thesis by (auto simp: SetData_def Let_def)
  qed
qed

section \<open>The growable-sequence interface\<close>

text \<open>What clients of the buffer rely on: appending, truncating and clearing as on a list, as
  long as no more than \<open>M\<close> elements are held. The client-side lemma runs a whole sequence of
  appends.\<close>

fun append_chunks :: "('e list \<Rightarrow> 'b \<Rightarrow> 'b result) \<Rightarrow> 'e list list \<Rightarrow> 'b \<Rightarrow> 'b result" where
  "append_chunks app [] b = Inr b"
| "append_chunks app (xs # xss) b = rbind (app xs b) (append_chunks app xss)"

locale growable =
  fixes inv :: "'b \<Rightarrow> bool"
    and contents :: "'b \<Rightarrow> 'e list"
    and app :: "'e list \<Rightarrow> 'b \<Rightarrow> 'b result"
    and truncate :: "nat \<Rightarrow> 'b \<Rightarrow> 'b result"
    and wipe :: "'b \<Rightarrow> 'b result"
    and M :: nat
  assumes app_ok: "inv b \<Longrightarrow> length (contents b) + length xs \<le> M \<Longrightarrow>
      \<exists>b'. app xs b = Inr b' \<and> inv b' \<and> contents b' = contents b @ xs"
    and truncate_ok: "inv b \<Longrightarrow> n \<le> length (contents b) \<Longrightarrow>
      \<exists>b'. truncate n b = Inr b' \<and> inv b' \<and> contents b' = take n (contents b)"
    and wipe_ok: "inv b \<Longrightarrow> \<exists>b'. wipe b = Inr b' \<and> inv b' \<and> contents b' = []"
begin

lemma append_chunks_ok:
  "inv b \<Longrightarrow> length (contents b) + length (concat xss) \<le> M \<Longrightarrow>
   \<exists>b'. append_chunks app xss b = Inr b' \<and> inv b' \<and> contents b' = contents b @ concat xss"
proof (induction xss arbitrary: b)
  case Nil
  then show ?case by simp
next
  case (Cons xs xss)
  then obtain b1 where "app xs b = Inr b1" "inv b1" "contents b1 = contents b @ xs"
    using app_ok [of b xs] by auto
  with Cons.IH [of b1] Cons.prems show ?case by simp
qed

lemma wipe_append_chunks:
  assumes "inv b" and "length (concat xss) \<le> M"
  shows "\<exists>b'. rbind (wipe b) (append_chunks app xss) = Inr b' \<and> contents b' = concat xss"
proof -
  obtain b0 where "wipe b = Inr b0" "inv b0" "contents b0 = []"
    using wipe_ok [OF assms(1)] by blast
  with append_chunks_ok [of b0 xss] assms(2) show ?thesis by auto
qed

lemma append_truncate:
  assumes "inv b" and "length (contents b) + length xs \<le> M"
  shows "\<exists>b'. rbind (app xs b) (truncate (length (contents b))) = Inr b' \<and> contents b' = contents b"
proof -
  obtain b1 where b1: "app xs b = Inr b1" "inv b1" "contents b1 = contents b @ xs"
    using app_ok [OF assms] by blast
  with truncate_ok [of b1 "length (contents b)"] show ?thesis by auto
qed

end

definition buf_small :: "bufcfg \<Rightarrow> nat \<Rightarrow> 'a BufferT \<Rightarrow> bool" where
  \<comment> \<open>capacity at most \<open>3/2 M\<close>, and one more growth step still within the allocator's limit\<close>
  "buf_small c M b \<longleftrightarrow>
     buf_inv c b \<and> 2 * buf_capacity b \<le> 3 * M \<and> 9 * M * elem_bytes c < 2 ^ 65"

lemma buf_small_growth:
  assumes "buf_small c M b" and "n \<le> M"
  shows "growth_ok c n b" and "2 * buf_capacity (grown n b) \<le> 3 * M"
proof -
  have cap: "2 * buf_capacity b \<le> 3 * M" using assms by (simp add: buf_small_def)
  then have "4 * max n (buf_capacity b + buf_capacity b div 2) \<le> 9 * M"
    using assms(2) times_div_less_eq_dividend [of 2 "buf_capacity b"] by (simp add: max_def) linarith
  then have "4 * max n (buf_capacity b + buf_capacity b div 2) * elem_bytes c \<le> 9 * M * elem_bytes c"
    by (rule mult_le_mono1)
  also have "\<dots> < 4 * 2 ^ 63" using assms(1) by (simp add: buf_small_def)
  finally show "growth_ok c n b" by (simp add: growth_ok_def mult.assoc mult.commute)
  show "2 * buf_capacity (grown n b) \<le> 3 * M"
    using cap assms(2) by (simp add: grown_def Let_def max_def) linarith
qed

lemma buf_small_inv: "buf_small c M b \<Longrightarrow> buf_inv c b"
  by (simp add: buf_small_def)

interpretation rtc_buf: growable "buf_small c M" "buf_contents :: 'a::zero BufferT \<Rightarrow> 'a cells"
    "\<lambda>xs. AppendData c xs (length xs)" "SetSize c" "buf_Clear c" M
  for c M
proof
  fix b :: "'a BufferT" and xs :: "'a cells"
  assume b: "buf_small c M b" and len: "length (buf_contents b) + length xs \<le> M"
  note inv = buf_small_inv [OF b]
  have le: "buf_size b + length xs \<le> M" using len inv by simp
  obtain b' where b': "AppendData c xs (length xs) b = Inr b'" "buf_inv c b'"
      "buf_contents b' = buf_contents b @ xs" "buf_capacity b' = buf_capacity (grown (buf_size b + length xs) b)"
    using AppendData_ok [OF inv order_refl buf_small_growth(1) [OF b le]] by auto
  then show "\<exists>b'. AppendData c xs (length xs) b = Inr b' \<and> buf_small c M b' \<and>
      buf_contents b' = buf_contents b @ xs"
    using b buf_small_growth(2) [OF b le] by (simp add: buf_small_def)
next
  fix b :: "'a BufferT" and n
  assume b: "buf_small c M b" and n: "n \<le> length (buf_contents b)"
  then have "n \<le> buf_size b" using buf_small_inv by fastforce
  from SetSize_shrink_ok [OF buf_small_inv [OF b] this] b
  show "\<exists>b'. SetSize c n b = Inr b' \<and> buf_small c M b' \<and> buf_contents b' = take n (buf_contents b)"
    by (auto simp: buf_small_def)
next
  fix b :: "'a BufferT"
  assume b: "buf_small c M b"
  from buf_Clear_ok [OF buf_small_inv [OF b]] b
  show "\<exists>b'. buf_Clear c b = Inr b' \<and> buf_small c M b' \<and> buf_contents b' = []"
    by (auto simp: buf_small_def)
qed

section \<open>Properties\<close>

text \<open>Claim C16. Filling an empty buffer (default construction or \<open>Clear\<close>) by any sequence of
  \<open>AppendData\<close> calls succeeds as long as no more than \<open>M\<close> elements are stored in all, and the
  buffer then holds exactly the concatenation of the chunks, whatever reallocations happened on
  the way.\<close>

theorem buffer_append_sequence:
  assumes "buf_small c M b" and "length (concat chunks) \<le> M"
  shows "\<exists>b'. rbind (buf_Clear c b) (append_chunks (\<lambda>xs. AppendData c xs (length xs)) chunks) = Inr b' \<and>
    buf_contents b' = concat chunks"
  by (rule rtc_buf.wipe_append_chunks [OF assms])

definition demo_cfg :: bufcfg where
  "demo_cfg = \<lparr>dcheck_is_on = True, zero_on_free = True, elem_bytes = 2\<rparr>"

definition demo_buf :: "nat BufferT" where
  "demo_buf = \<lparr>buf_size = 1, buf_capacity = 2, buf_data = Some [Some 7, None]\<rparr>"

lemma demo_buf_small: "buf_small demo_cfg 5 demo_buf"
  by (simp add: buf_small_def buf_inv_def IsConsistent_def buf_cells_def demo_cfg_def demo_buf_def)

theorem buffer_append_sequence_witness:
  "\<exists>b'. rbind (buf_Clear demo_cfg demo_buf)
       (append_chunks (\<lambda>xs. AppendData demo_cfg xs (length xs)) [[Some 1, Some 2], [], [Some 3]]) = Inr b' \<and>
     buf_contents b' = concat [[Some 1, Some 2], [], [Some (3::nat)]]"
  by (rule buffer_append_sequence [OF demo_buf_small]) simp



text \<open>With \<open>ZeroOnFree\<close>, the unused capacity never holds old data: if it is clean
  before \<open>AppendData\<close>, \<open>SetData\<close>, a shrinking \<open>SetSize\<close> or \<open>Clear\<close>, it is clean afterwards, and
  the destructor hands back a block of zeros (the comment at \<open>MaybeZeroCompleteBuffer\<close> relies on
  this).\<close>

theorem buffer_zero_on_free:
  assumes "buf_inv c b" and "zero_on_free c" and "tail_clean b"
  shows "(AppendData c data n b = Inr b1 \<longrightarrow> n \<le> length data \<longrightarrow> growth_ok c (buf_size b + n) b \<longrightarrow> tail_clean b1) \<and>
    (SetData c data n b = Inr b2 \<longrightarrow> n \<le> length data \<longrightarrow> growth_ok c n b \<longrightarrow> tail_clean b2) \<and>
    (SetSize c k b = Inr b3 \<longrightarrow> k \<le> buf_size b \<longrightarrow> tail_clean b3) \<and>
    (buf_Clear c b = Inr b4 \<longrightarrow> tail_clean b4) \<and>
    (BufferT_destroy c b = Inr d \<longrightarrow> set (cells_of d) \<subseteq> {Some 0})"
proof (intro conjI impI)
  show "tail_clean b1" if "AppendData c data n b = Inr b1" "n \<le> length data" "growth_ok c (buf_size b + n) b"
    using tail_clean_append [OF assms(1) that(2,3,1) assms(3)] .
  show "tail_clean b2" if "SetData c data n b = Inr b2" "n \<le> length data" "growth_ok c n b"
    using SetData_ok [OF assms(1) that(2,3)] assms(2,3) that(1) by auto
  show "tail_clean b3" if "SetSize c k b = Inr b3" "k \<le> buf_size b"
    using SetSize_shrink_ok [OF assms(1) that(2)] assms(2,3) that(1) by auto
  show "tail_clean b4" if "buf_Clear c b = Inr b4"
    using buf_Clear_ok [OF assms(1)] assms(2) that by auto
  show "set (cells_of d) \<subseteq> {Some 0}" if "BufferT_destroy c b = Inr d"
    using MaybeZero_ok [OF assms(1)] assms(2) that by (auto simp: BufferT_destroy_def)
qed

theorem buffer_zero_on_free_witness:
  "SetSize demo_cfg 0 demo_buf = Inr (demo_buf\<lparr>buf_size := 0, buf_data := Some [Some 0, None]\<rparr>) \<and>
   tail_clean (demo_buf\<lparr>buf_size := 0, buf_data := Some [Some 0, None]\<rparr>)"
proof -
  have clean: "tail_clean demo_buf"
    by (simp add: tail_clean_def demo_buf_def buf_cells_def)
  have run: "SetSize demo_cfg 0 demo_buf = Inr (demo_buf\<lparr>buf_size := 0, buf_data := Some [Some 0, None]\<rparr>)"
    by (simp add: SetSize_def EnsureCapacityWithHeadroom_def ZeroTrailingData_def IsConsistent_def
        mem_zero_def mem_copy_def demo_cfg_def demo_buf_def sz_sub_def size_mod_def)
  have "zero_on_free demo_cfg" by (simp add: demo_cfg_def)
  from buffer_zero_on_free [OF buf_small_inv [OF demo_buf_small] this clean, where k = 0] run
  show ?thesis by simp
qed

text \<open>Moving out of a buffer leaves it in a state from which \<open>Clear\<close> makes an empty
  consistent buffer again, in both build modes, and the moved-to buffer has the contents; in a
  release build the moved-from buffer is inconsistent until then.\<close>

theorem buffer_move_then_clear:
  assumes "buf_inv c b"
  shows "\<exists>b1 b2. BufferT_move c b = Inr (b1, b2) \<and> buf_inv c b1 \<and> buf_contents b1 = buf_contents b \<and>
    (IsConsistent b2 \<longleftrightarrow> dcheck_is_on c) \<and>
    (\<exists>b3. buf_Clear c b2 = Inr b3 \<and> buf_inv c b3 \<and> buf_contents b3 = [])"
proof -
  let ?b1 = "\<lparr>buf_size = buf_size b, buf_capacity = buf_capacity b, buf_data = buf_data b\<rparr>"
  have b1: "buf_inv c ?b1" "buf_contents ?b1 = buf_contents b"
    using assms by (simp_all add: buf_inv_def IsConsistent_def buf_cells_def buf_contents_def)
  then have "BufferT_move c b = Inr (?b1, OnMovedFrom c (b\<lparr>buf_data := None\<rparr>))"
    using assms by (simp add: BufferT_move_def)
  moreover have "\<exists>b3. buf_Clear c (OnMovedFrom c (b\<lparr>buf_data := None\<rparr>)) = Inr b3 \<and> buf_inv c b3 \<and> buf_contents b3 = []"
    using assms by (simp add: buf_Clear_def OnMovedFrom_def MaybeZeroCompleteBuffer_def IsConsistent_def
        buf_inv_def buf_cells_def buf_contents_def)
  moreover have "IsConsistent (OnMovedFrom c (b\<lparr>buf_data := None\<rparr>)) \<longleftrightarrow> dcheck_is_on c"
    by (simp add: OnMovedFrom_def IsConsistent_def)
  ultimately show ?thesis using b1 by blast
qed

theorem buffer_move_then_clear_witness:
  "\<exists>b1 b2. BufferT_move demo_cfg demo_buf = Inr (b1, b2) \<and> buf_inv demo_cfg b1 \<and>
    buf_contents b1 = buf_contents demo_buf \<and> (IsConsistent b2 \<longleftrightarrow> dcheck_is_on demo_cfg) \<and>
    (\<exists>b3. buf_Clear demo_cfg b2 = Inr b3 \<and> buf_inv demo_cfg b3 \<and> buf_contents b3 = [])"
  by (rule buffer_move_then_clear [OF buf_small_inv [OF demo_buf_small]])

text \<open>The \<open>memcmp\<close> shortcut of \<open>operator==\<close> for integral element types gives the
  answer of the element loop on any two buffers whose contents are initialised, and both decide
  equality of the contents.\<close>

theorem buffer_equal_shortcut:
  assumes "buf_inv c b1" and "buf_inv c b2"
    and "None \<notin> set (buf_contents b1)" and "None \<notin> set (buf_contents b2)"
  shows "buf_equal c True b1 b2 = buf_equal c False b1 b2 \<and>
    buf_equal c True b1 b2 = Inr (buf_contents b1 = buf_contents b2)"
proof (cases "buf_size b1 = buf_size b2")
  case True
  have len: "buf_size b1 \<le> length (buf_cells b1)" "buf_size b1 \<le> length (buf_cells b2)"
    using assms(1,2) True by (auto simp: buf_inv_def IsConsistent_def)
  with assms(3,4) True have "cells_equal_loop (buf_size b1) (buf_cells b1) (buf_cells b2) =
      memcmp_equal (buf_size b1) (buf_cells b1) (buf_cells b2)"
    by (intro cells_equal_loop_memcmp) (simp_all add: buf_contents_def)
  with assms True len show ?thesis
    by (simp add: buf_equal_def memcmp_equal_def buf_contents_def buf_cells_def)
next
  case False
  then have "buf_contents b1 \<noteq> buf_contents b2"
    using assms(1,2) by (metis length_buf_contents)
  with False assms(1) show ?thesis by (simp add: buf_equal_def)
qed

theorem buffer_equal_shortcut_witness:
  "buf_equal demo_cfg True demo_buf demo_buf = Inr True"
proof -
  have "None \<notin> set (buf_contents demo_buf)"
    by (simp add: demo_buf_def buf_contents_def buf_cells_def)
  from buffer_equal_shortcut [OF buf_small_inv [OF demo_buf_small] buf_small_inv [OF demo_buf_small]
      this this, THEN conjunct2]
  show ?thesis by simp
qed

end
