(* ===== verification/Audio_Record_Source.thy ===== *)
theory Audio_Record_Source
  imports Audio_Source Rtc_Buffer
begin

text \<open>
  \<open>AudioRecordSource\<close> (\<open>src/src/audio_record_source.cpp\<close>): recorded bytes are appended to a
  \<open>BufferT<int16_t>\<close>, and a poll hands the front of it to the mixer as a 10 ms frame and moves the
  rest forward. The lemmas show that with 10 ms frames the source is a FIFO of samples (locale
  \<open>sample_fifo\<close>): what is delivered, followed by what is queued, is what was recorded. With a
  shorter frame duration the frame is read beyond what the guard has checked.
\<close>

section \<open>The class\<close>

definition kFrameDurationInMs :: int32 where
  "kFrameDurationInMs = 10"

record AudioRecordSource = AudioSource +
  rs_ssrc :: int32
  rs_sample_rate :: int32
  rs_channel_num :: int32
  rs_frame_duration_ms :: int32
  rs_report_output_samples :: int32
  rs_real_buffer_num_elements :: int32
  rs_buffer :: "sample BufferT"

definition AudioRecordSource_ctor ::
    "bufcfg \<Rightarrow> int32 \<Rightarrow> int32 \<Rightarrow> int32 \<Rightarrow> int32 \<Rightarrow> cfloat \<Rightarrow> AudioRecordSource result" where
  "AudioRecordSource_ctor c ssrc sr ch frame_duration_ms v =
     rbind (c_div 1000 kFrameDurationInMs) (\<lambda>frames.
     rbind (c_div sr frames) (\<lambda>report.
     rbind (c_mul ch sr) (\<lambda>per_second.
     rbind (c_div 1000 frame_duration_ms) (\<lambda>real_frames.
     rbind (c_div per_second real_frames) (\<lambda>real.
     rbind (BufferT_default c) (\<lambda>b0.
     rbind (buf_Clear c b0) (\<lambda>b.
     Inr \<lparr>volume = v, rs_ssrc = ssrc, rs_sample_rate = sr, rs_channel_num = ch,
          rs_frame_duration_ms = frame_duration_ms, rs_report_output_samples = report,
          rs_real_buffer_num_elements = real, rs_buffer = b\<rparr>)))))))"

definition OnAudioRecorded ::
    "bufcfg \<Rightarrow> sample cells \<Rightarrow> int32 \<Rightarrow> AudioRecordSource \<Rightarrow> AudioRecordSource result" where
  \<comment> \<open>the division is by a \<open>size_t\<close>, so the byte count is converted first\<close>
  "OnAudioRecorded c data n s =
     rbind (AppendData c data (to_size_t n div 2) (rs_buffer s)) (\<lambda>b. Inr (s\<lparr>rs_buffer := b\<rparr>))"

definition buf_shift :: "bufcfg \<Rightarrow> int32 \<Rightarrow> size_t \<Rightarrow> sample BufferT \<Rightarrow> sample BufferT result" where
  \<comment> \<open>\<open>memmove(data(), data() + from, n * sizeof(int16_t))\<close>\<close>
  "buf_shift c from n b =
     rbind (buf_data_ptr c b) (\<lambda>dst.
     rbind (buf_data_ptr c b) (\<lambda>src.
     if from < 0 \<or> length (cells_of src) < nat from then Inl OutOfBounds
     else rbind (mem_copy dst 0 (drop (nat from) (cells_of src)) n) (\<lambda>d. Inr (b\<lparr>buf_data := d\<rparr>))))"

definition GetAudioFrameWithInfo_record ::
    "webrtc_frame_api \<Rightarrow> bufcfg \<Rightarrow> int32 \<Rightarrow> AudioFrame \<Rightarrow> AudioRecordSource \<Rightarrow>
     (AudioFrameInfo \<times> AudioFrame \<times> AudioRecordSource) result" where
  "GetAudioFrameWithInfo_record W c hz audio_frame s =
     (if hz \<noteq> rs_sample_rate s then Inr (kError, audio_frame, s)
      else
        rbind (buf_get_size c (rs_buffer s)) (\<lambda>n.
        if n < to_size_t (rs_real_buffer_num_elements s) then Inr (kMuted, audio_frame, s)
        else
          rbind (buf_data_ptr c (rs_buffer s)) (\<lambda>p.
          rbind (UpdateFrame W 0 p (to_size_t (rs_report_output_samples s)) (rs_sample_rate s)
                   kNormalSpeech kVadActive (to_size_t (rs_channel_num s)) audio_frame) (\<lambda>f1.
          rbind (buf_shift c (rs_real_buffer_num_elements s)
                   (sz_sub n (to_size_t (rs_real_buffer_num_elements s))) (rs_buffer s)) (\<lambda>b1.
          rbind (SetSize c (sz_sub n (to_size_t (rs_real_buffer_num_elements s))) b1) (\<lambda>b2.
          let s' = s\<lparr>rs_buffer := b2\<rparr> in Inr (kNormal, ApplyVolume W s' f1, s')))))))"

definition Ssrc_record :: "AudioRecordSource \<Rightarrow> int32" where
  "Ssrc_record s = rs_ssrc s"

definition PreferredSampleRate_record :: "AudioRecordSource \<Rightarrow> int32" where
  "PreferredSampleRate_record s = rs_sample_rate s"

section \<open>Geometry and invariant\<close>

definition geometry_ok :: "int32 \<Rightarrow> int32 \<Rightarrow> int32 \<Rightarrow> bool" where
  \<comment> \<open>what makes the constructor's divisions defined and a 10 ms frame fit an \<open>AudioFrame\<close>\<close>
  "geometry_ok sr ch fd \<longleftrightarrow>
     0 < sr \<and> 0 < ch \<and> 0 < fd \<and> fd \<le> kFrameDurationInMs \<and> in_int32 (ch * sr) \<and>
     sr div 100 * ch \<le> int kMaxDataSizeSamples"

definition rs_inv :: "bufcfg \<Rightarrow> nat \<Rightarrow> AudioRecordSource \<Rightarrow> bool" where
  "rs_inv c M s \<longleftrightarrow>
     geometry_ok (rs_sample_rate s) (rs_channel_num s) (rs_frame_duration_ms s) \<and>
     rs_report_output_samples s = rs_sample_rate s div 100 \<and>
     rs_real_buffer_num_elements s =
       rs_channel_num s * rs_sample_rate s div (1000 div rs_frame_duration_ms s) \<and>
     buf_small c M (rs_buffer s) \<and> M < 2 ^ 30 \<and>
     None \<notin> set (buf_contents (rs_buffer s))"

definition rs_queue :: "AudioRecordSource \<Rightarrow> sample list" where
  "rs_queue s = map the (buf_contents (rs_buffer s))"

definition rs_chunk :: "AudioRecordSource \<Rightarrow> nat" where
  \<comment> \<open>samples of one 10 ms frame, all channels\<close>
  "rs_chunk s = nat (rs_sample_rate s div 100 * rs_channel_num s)"

definition rs_taken :: "AudioRecordSource \<Rightarrow> nat" where
  \<comment> \<open>samples a poll removes\<close>
  "rs_taken s = nat (rs_real_buffer_num_elements s)"

lemma mono_contents: "None \<notin> set xs \<Longrightarrow> map Some (map the xs) = xs"
  by (induction xs) auto

lemma rs_queue_contents: "rs_inv c M s \<Longrightarrow> buf_contents (rs_buffer s) = map Some (rs_queue s)"
  using mono_contents [of "buf_contents (rs_buffer s)"] by (simp add: rs_queue_def rs_inv_def)

lemma rs_queue_eq: "buf_contents (rs_buffer s) = map Some xs \<Longrightarrow> rs_queue s = xs"
  by (simp add: rs_queue_def comp_def)

lemma rs_inv_buf: "rs_inv c M s \<Longrightarrow> buf_inv c (rs_buffer s)"
  by (simp add: rs_inv_def buf_small_def)

lemma length_rs_queue: "rs_inv c M s \<Longrightarrow> length (rs_queue s) = buf_size (rs_buffer s)"
  using length_buf_contents [OF rs_inv_buf] by (simp add: rs_queue_def)

lemma rate_in_int32: "geometry_ok sr ch fd \<Longrightarrow> in_int32 sr \<and> in_int32 ch"
proof -
  assume g: "geometry_ok sr ch fd"
  then have pos: "0 < sr" "0 < ch" by (simp_all add: geometry_ok_def)
  have "sr \<le> ch * sr" "ch \<le> ch * sr"
    using mult_right_mono [of 1 ch sr] mult_left_mono [of 1 sr ch] pos by simp_all
  with pos g show ?thesis unfolding geometry_ok_def in_int32_def by linarith
qed

lemma frames_per_second: "0 < fd \<Longrightarrow> fd \<le> 10 \<Longrightarrow> 100 \<le> 1000 div fd" for fd :: int
  using zdiv_mono2 [of 1000 fd 10] by simp

lemma rs_real_bounds:
  assumes "rs_inv c M s"
  shows "0 \<le> rs_real_buffer_num_elements s" "in_int32 (rs_real_buffer_num_elements s)"
proof -
  let ?r = "rs_real_buffer_num_elements s" and ?a = "rs_channel_num s * rs_sample_rate s"
  have a: "0 \<le> ?a" "in_int32 ?a" and d: "100 \<le> 1000 div rs_frame_duration_ms s"
    using assms by (auto simp: rs_inv_def geometry_ok_def kFrameDurationInMs_def frames_per_second)
  have r: "?r = ?a div (1000 div rs_frame_duration_ms s)" using assms by (simp add: rs_inv_def)
  show "0 \<le> ?r" using a(1) d by (simp add: r pos_imp_zdiv_nonneg_iff)
  moreover have "?r \<le> ?a" using a(1) d by (simp add: r div_le_dividend_int)
  ultimately show "in_int32 ?r" using a(2) by (simp add: in_int32_def)
qed

section \<open>Each operation\<close>

lemma buf_shift_ok:
  assumes inv: "buf_inv c b" and r: "0 \<le> r" "nat r \<le> buf_size b"
  shows "\<exists>b1. buf_shift c r (buf_size b - nat r) b = Inr b1 \<and> buf_inv c b1 \<and>
    buf_size b1 = buf_size b \<and> buf_capacity b1 = buf_capacity b \<and>
    take (buf_size b - nat r) (buf_contents b1) = drop (nat r) (buf_contents b)"
proof (cases "buf_data b")
  case None
  then have "buf_size b = 0" using inv by (simp add: buf_inv_def IsConsistent_def)
  moreover have "buf_contents b = []" using None by (simp add: buf_contents_def buf_cells_def)
  ultimately show ?thesis using inv r None
    by (intro exI [of _ b]) (simp add: buf_shift_def buf_data_ptr_def)
next
  case (Some m)
  let ?n = "buf_size b - nat r"
  let ?m = "take ?n (drop (nat r) m) @ drop ?n m"
  have len: "length m = buf_capacity b" "buf_size b \<le> buf_capacity b"
    using inv Some by (simp_all add: buf_inv_def buf_cells_def IsConsistent_def)
  have "buf_shift c r ?n b = Inr (b\<lparr>buf_data := Some ?m\<rparr>)"
    using inv r len Some by (simp add: buf_shift_def buf_data_ptr_def mem_copy_ok)
  moreover have "buf_inv c (b\<lparr>buf_data := Some ?m\<rparr>)"
    using inv len Some r by (simp add: buf_inv_def IsConsistent_def buf_cells_def)
  moreover have "take ?n (buf_contents (b\<lparr>buf_data := Some ?m\<rparr>)) = drop (nat r) (buf_contents b)"
    using len Some r by (simp add: buf_contents_def buf_cells_def drop_take min_def)
  ultimately show ?thesis by (intro exI [of _ "b\<lparr>buf_data := Some ?m\<rparr>"]) simp
qed

lemma AudioRecordSource_ctor_ok:
  assumes g: "geometry_ok sr ch fd" and c: "elem_bytes c = 2" and M: "M < 2 ^ 30"
  shows "\<exists>s. AudioRecordSource_ctor c ssrc sr ch fd v = Inr s \<and> rs_inv c M s \<and> rs_queue s = [] \<and>
    volume s = v \<and> rs_ssrc s = ssrc \<and> rs_sample_rate s = sr \<and> rs_channel_num s = ch \<and>
    rs_frame_duration_ms s = fd \<and> buf_capacity (rs_buffer s) = 0"
proof -
  let ?b = "\<lparr>buf_size = 0, buf_capacity = 0, buf_data = None\<rparr> :: sample BufferT"
  have def: "BufferT_default c = Inr ?b" by (simp add: BufferT_default_def IsConsistent_def)
  have inv: "buf_inv c ?b" using c by (simp add: buf_inv_def IsConsistent_def buf_cells_def)
  obtain b where b: "buf_Clear c ?b = Inr b" "buf_inv c b" "buf_contents b = []" "buf_capacity b = 0"
    using buf_Clear_ok [OF inv] by auto
  have d: "100 \<le> 1000 div fd" "1000 div fd \<le> 1000"
    using g by (auto simp: geometry_ok_def kFrameDurationInMs_def frames_per_second div_le_dividend_int)
  have arith: "c_div 1000 kFrameDurationInMs = Inr 100" "c_div sr 100 = Inr (sr div 100)"
      "c_mul ch sr = Inr (ch * sr)" "c_div 1000 fd = Inr (1000 div fd)"
      "c_div (ch * sr) (1000 div fd) = Inr (ch * sr div (1000 div fd))"
    using g d rate_in_int32 [OF g]
    by (simp_all add: geometry_ok_def c_mul_def c_int32_def c_div_pos kFrameDurationInMs_def in_int32_def)
  show ?thesis
    using g b M c by (simp add: AudioRecordSource_ctor_def arith def rs_inv_def rs_queue_def buf_small_def)
qed

lemma OnAudioRecorded_ok:
  assumes inv: "rs_inv c M s" and room: "length (rs_queue s) + length xs \<le> M"
  shows "\<exists>s'. OnAudioRecorded c (map Some xs) (2 * int (length xs)) s = Inr s' \<and> rs_inv c M s' \<and>
    rs_queue s' = rs_queue s @ xs \<and> (\<exists>b. s' = s\<lparr>rs_buffer := b\<rparr>)"
proof -
  have n: "to_size_t (2 * int (length xs)) div 2 = length xs"
    using inv room by (simp add: to_size_t_def size_mod_def rs_inv_def)
  have small: "buf_small c M (rs_buffer s)" using inv by (simp add: rs_inv_def)
  have "length (buf_contents (rs_buffer s)) + length (map Some xs) \<le> M"
    using room by (simp add: rs_queue_def)
  from rtc_buf.app_ok [OF small this]
  obtain b' where b': "AppendData c (map Some xs) (length xs) (rs_buffer s) = Inr b'"
      "buf_small c M b'" "buf_contents b' = buf_contents (rs_buffer s) @ map Some xs"
    by auto
  have "rs_inv c M (s\<lparr>rs_buffer := b'\<rparr>)" using inv b' by (auto simp: rs_inv_def)
  moreover have "rs_queue (s\<lparr>rs_buffer := b'\<rparr>) = rs_queue s @ xs"
    using b'(3) by (simp add: rs_queue_def comp_def)
  moreover have "OnAudioRecorded c (map Some xs) (2 * int (length xs)) s = Inr (s\<lparr>rs_buffer := b'\<rparr>)"
    using b'(1) by (simp add: OnAudioRecorded_def n)
  ultimately show ?thesis by blast
qed

lemma GetAudioFrame_wrong_rate:
  "hz \<noteq> rs_sample_rate s \<Longrightarrow> GetAudioFrameWithInfo_record W c hz f s = Inr (kError, f, s)"
  by (simp add: GetAudioFrameWithInfo_record_def)

lemma GetAudioFrame_muted:
  assumes inv: "rs_inv c M s" and n: "length (rs_queue s) < rs_taken s"
  shows "GetAudioFrameWithInfo_record W c (rs_sample_rate s) f s = Inr (kMuted, f, s)"
  using n length_rs_queue [OF inv] rs_real_bounds [OF inv] rs_inv_buf [OF inv]
  by (simp add: GetAudioFrameWithInfo_record_def buf_get_size_def rs_taken_def to_size_t_nonneg)

lemma rs_sizes:
  assumes inv: "rs_inv c M s"
  shows "to_size_t (rs_report_output_samples s) = nat (rs_sample_rate s div 100)"
    "to_size_t (rs_channel_num s) = nat (rs_channel_num s)"
    "nat (rs_sample_rate s div 100) * nat (rs_channel_num s) = rs_chunk s"
    "rs_chunk s \<le> kMaxDataSizeSamples"
proof -
  let ?r = "rs_sample_rate s" and ?ch = "rs_channel_num s"
  have g: "geometry_ok ?r ?ch (rs_frame_duration_ms s)" using inv by (simp add: rs_inv_def)
  have pos: "0 \<le> ?r div 100" "0 \<le> ?ch" "in_int32 ?ch" "in_int32 (?r div 100)"
    using g rate_in_int32 [OF g] div_le_dividend_int [of ?r 100]
    by (auto simp: geometry_ok_def in_int32_def pos_imp_zdiv_nonneg_iff)
  show "to_size_t (rs_report_output_samples s) = nat (?r div 100)" "to_size_t ?ch = nat ?ch"
    using pos inv by (simp_all add: to_size_t_nonneg rs_inv_def)
  show "nat (?r div 100) * nat ?ch = rs_chunk s" using pos by (simp add: rs_chunk_def nat_mult_distrib)
  have "?r div 100 * ?ch \<le> int kMaxDataSizeSamples" using g by (simp add: geometry_ok_def)
  then show "rs_chunk s \<le> kMaxDataSizeSamples" unfolding rs_chunk_def by linarith
qed

lemma rs_update_frame:
  assumes inv: "rs_inv c M s" and W: "frame_contract W" and n: "rs_chunk s \<le> length (rs_queue s)"
  shows "\<exists>f1. UpdateFrame W 0 (buf_data (rs_buffer s)) (to_size_t (rs_report_output_samples s))
      (rs_sample_rate s) kNormalSpeech kVadActive (to_size_t (rs_channel_num s)) f = Inr f1 \<and>
    take (rs_chunk s) (frame_samples W f1) = take (rs_chunk s) (rs_queue s) \<and>
    frame_header f1 = (nat (rs_sample_rate s div 100), rs_sample_rate s, nat (rs_channel_num s),
      kNormalSpeech, kVadActive)"
proof -
  let ?spc = "nat (rs_sample_rate s div 100)" and ?ch = "nat (rs_channel_num s)"
  note sz = rs_sizes [OF inv]
  show ?thesis
  proof (cases "buf_data (rs_buffer s)")
    case None
    then have "rs_queue s = []" by (simp add: rs_queue_def buf_contents_def buf_cells_def)
    moreover obtain f1 where "UpdateFrame W 0 None ?spc (rs_sample_rate s) kNormalSpeech kVadActive ?ch f = Inr f1"
      using W unfolding frame_contract_def updates_without_data_def by blast
    ultimately show ?thesis using None n contract_header [OF W] by (simp add: sz)
  next
    case (Some m)
    have "take (length (rs_queue s)) m = map Some (rs_queue s)"
      using rs_queue_contents [OF inv] length_rs_queue [OF inv] Some by (simp add: buf_contents_def buf_cells_def)
    from contract_copy [OF W _ _ this, of ?spc ?ch] show ?thesis
      using Some n sz(4) by (simp only: sz(1-3))
  qed
qed

lemma GetAudioFrame_normal:
  assumes inv: "rs_inv c M s" and W: "frame_contract W"
    and n: "rs_chunk s \<le> length (rs_queue s)" "rs_taken s \<le> length (rs_queue s)"
  shows "\<exists>f1 s'. GetAudioFrameWithInfo_record W c (rs_sample_rate s) f s = Inr (kNormal, ApplyVolume W s f1, s') \<and>
    rs_inv c M s' \<and> rs_queue s' = drop (rs_taken s) (rs_queue s) \<and> (\<exists>b. s' = s\<lparr>rs_buffer := b\<rparr>) \<and>
    take (rs_chunk s) (frame_samples W f1) = take (rs_chunk s) (rs_queue s) \<and>
    frame_header f1 = (nat (rs_sample_rate s div 100), rs_sample_rate s, nat (rs_channel_num s),
      kNormalSpeech, kVadActive)"
proof -
  let ?b = "rs_buffer s" and ?r = "rs_real_buffer_num_elements s"
  let ?n = "buf_size ?b - nat ?r"
  note bi = rs_inv_buf [OF inv] and rb = rs_real_bounds [OF inv]
  obtain f1 where f1: "UpdateFrame W 0 (buf_data ?b) (to_size_t (rs_report_output_samples s))
      (rs_sample_rate s) kNormalSpeech kVadActive (to_size_t (rs_channel_num s)) f = Inr f1"
    and f1': "take (rs_chunk s) (frame_samples W f1) = take (rs_chunk s) (rs_queue s)"
      "frame_header f1 = (nat (rs_sample_rate s div 100), rs_sample_rate s, nat (rs_channel_num s),
        kNormalSpeech, kVadActive)"
    using rs_update_frame [OF inv W n(1), of f] by (elim exE conjE)
  have le: "nat ?r \<le> buf_size ?b" using n(2) length_rs_queue [OF inv] by (simp add: rs_taken_def)
  obtain b1 where b1: "buf_shift c ?r ?n ?b = Inr b1" "buf_inv c b1" "buf_size b1 = buf_size ?b"
      "buf_capacity b1 = buf_capacity ?b" "take ?n (buf_contents b1) = drop (nat ?r) (buf_contents ?b)"
    using buf_shift_ok [OF bi rb(1) le] by (elim exE conjE)
  obtain b2 where b2: "SetSize c ?n b1 = Inr b2" "buf_inv c b2" "buf_contents b2 = take ?n (buf_contents b1)"
      "buf_capacity b2 = buf_capacity b1"
    using SetSize_shrink_ok [OF b1(2), of ?n] b1(3) by auto
  have sub: "sz_sub (buf_size ?b) (nat ?r) = ?n"
    using le buf_inv_size [OF bi] buf_inv_capacity [OF bi] by (intro sz_sub_small) (simp_all add: size_mod_def)
  have "GetAudioFrameWithInfo_record W c (rs_sample_rate s) f s =
      Inr (kNormal, ApplyVolume W s f1, s\<lparr>rs_buffer := b2\<rparr>)"
    using bi rb le f1 b1(1) b2(1)
    by (simp add: GetAudioFrameWithInfo_record_def buf_get_size_def buf_data_ptr_def to_size_t_nonneg
        sub ApplyVolume_def)
  moreover have "rs_inv c M (s\<lparr>rs_buffer := b2\<rparr>)"
    using inv b1 b2 by (auto simp: rs_inv_def buf_small_def dest: in_set_dropD)
  moreover have "rs_queue (s\<lparr>rs_buffer := b2\<rparr>) = drop (rs_taken s) (rs_queue s)"
    using b1(5) b2(3) by (simp add: rs_queue_def drop_map rs_taken_def)
  ultimately show ?thesis using f1' by blast
qed

lemma GetAudioFrame_overread:
  assumes inv: "rs_inv c M s" and W: "frame_contract W"
    and n: "rs_taken s \<le> length (rs_queue s)" and cap: "0 < buf_capacity (rs_buffer s)"
      "buf_capacity (rs_buffer s) < rs_chunk s"
  shows "GetAudioFrameWithInfo_record W c (rs_sample_rate s) f s = Inl OutOfBounds"
proof -
  note bi = rs_inv_buf [OF inv] and rb = rs_real_bounds [OF inv]
  let ?spc = "nat (rs_sample_rate s div 100)" and ?ch = "nat (rs_channel_num s)"
  obtain m where m: "buf_data (rs_buffer s) = Some m" "length m = buf_capacity (rs_buffer s)"
    using bi cap(1) by (auto simp: buf_inv_def IsConsistent_def buf_cells_def)
  note sz = rs_sizes [OF inv]
  have "UpdateFrame W 0 (Some m) ?spc (rs_sample_rate s) kNormalSpeech kVadActive ?ch f = Inl OutOfBounds"
    using contract_overread [OF W] m cap(2) sz by simp
  then show ?thesis
    using bi rb n m length_rs_queue [OF inv] sz
    by (simp add: GetAudioFrameWithInfo_record_def buf_get_size_def buf_data_ptr_def to_size_t_nonneg rs_taken_def)
qed

section \<open>The source as a FIFO\<close>

datatype ('a, 'f) fifo_op = Put "'a list" | Get 'f

fun fifo_run :: "('a list \<Rightarrow> 's \<Rightarrow> 's result) \<Rightarrow> ('f \<Rightarrow> 's \<Rightarrow> ('a list option \<times> 's) result) \<Rightarrow>
    ('a, 'f) fifo_op list \<Rightarrow> 's \<Rightarrow> ('a list option list \<times> 's) result" where
  "fifo_run put get [] s = Inr ([], s)"
| "fifo_run put get (Put xs # ops) s = rbind (put xs s) (fifo_run put get ops)"
| "fifo_run put get (Get f # ops) s =
     rbind (get f s) (\<lambda>(a, s'). rbind (fifo_run put get ops s') (\<lambda>(outs, s''). Inr (a # outs, s'')))"

fun recorded :: "('a, 'f) fifo_op list \<Rightarrow> 'a list" where
  "recorded [] = []"
| "recorded (Put xs # ops) = xs @ recorded ops"
| "recorded (Get f # ops) = recorded ops"

fun delivered :: "'a list option list \<Rightarrow> 'a list" where
  "delivered [] = []"
| "delivered (None # outs) = delivered outs"
| "delivered (Some xs # outs) = xs @ delivered outs"

locale sample_fifo =
  fixes inv :: "'s \<Rightarrow> bool"
    and queue :: "'s \<Rightarrow> 'a list"
    and chunk :: "'s \<Rightarrow> nat"
    and put :: "'a list \<Rightarrow> 's \<Rightarrow> 's result"
    and get :: "'f \<Rightarrow> 's \<Rightarrow> ('a list option \<times> 's) result"
    and M :: nat
  assumes put_ok: "inv s \<Longrightarrow> length (queue s) + length xs \<le> M \<Longrightarrow>
      \<exists>s'. put xs s = Inr s' \<and> inv s' \<and> queue s' = queue s @ xs \<and> chunk s' = chunk s"
    and get_none: "inv s \<Longrightarrow> length (queue s) < chunk s \<Longrightarrow> get f s = Inr (None, s)"
    and get_some: "inv s \<Longrightarrow> chunk s \<le> length (queue s) \<Longrightarrow>
      \<exists>s'. get f s = Inr (Some (take (chunk s) (queue s)), s') \<and> inv s' \<and>
           queue s' = drop (chunk s) (queue s) \<and> chunk s' = chunk s"
begin

lemma stream:
  "inv s \<Longrightarrow> length (queue s) + length (recorded ops) \<le> M \<Longrightarrow>
   \<exists>outs s'. fifo_run put get ops s = Inr (outs, s') \<and> inv s' \<and>
     delivered outs @ queue s' = queue s @ recorded ops \<and>
     (\<forall>xs. Some xs \<in> set outs \<longrightarrow> length xs = chunk s)"
proof (induction ops arbitrary: s)
  case Nil
  then show ?case by simp
next
  case (Cons op ops)
  show ?case
  proof (cases op)
    case (Put xs)
    then obtain s1 where s1: "put xs s = Inr s1" "inv s1" "queue s1 = queue s @ xs" "chunk s1 = chunk s"
      using put_ok [of s xs] Cons.prems by auto
    with Cons.IH [of s1] Cons.prems Put show ?thesis by simp
  next
    case (Get f)
    show ?thesis
    proof (cases "chunk s \<le> length (queue s)")
      case True
      then obtain s1 where s1: "get f s = Inr (Some (take (chunk s) (queue s)), s1)" "inv s1"
          "queue s1 = drop (chunk s) (queue s)" "chunk s1 = chunk s"
        using get_some [of s f] Cons.prems by auto
      have le: "length (queue s1) + length (recorded ops) \<le> M" using s1(3) Cons.prems(2) Get by simp
      obtain outs s2 where r: "fifo_run put get ops s1 = Inr (outs, s2)" "inv s2"
          "delivered outs @ queue s2 = queue s1 @ recorded ops"
          "\<forall>xs. Some xs \<in> set outs \<longrightarrow> length xs = chunk s1"
        using Cons.IH [OF s1(2) le] by (elim exE conjE)
      show ?thesis using Get s1 r True
        by (intro exI [of _ "Some (take (chunk s) (queue s)) # outs"] exI [of _ s2]) auto
    next
      case False
      then have g: "get f s = Inr (None, s)" using get_none Cons.prems by simp
      obtain outs s2 where r: "fifo_run put get ops s = Inr (outs, s2)" "inv s2"
          "delivered outs @ queue s2 = queue s @ recorded ops"
          "\<forall>xs. Some xs \<in> set outs \<longrightarrow> length xs = chunk s"
        using Cons.IH [of s] Cons.prems Get by auto
      show ?thesis using Get g r by (intro exI [of _ "None # outs"] exI [of _ s2]) auto
    qed
  qed
qed

lemma drain:
  "inv s \<Longrightarrow> length fs * chunk s \<le> length (queue s) \<Longrightarrow>
   \<exists>outs s'. fifo_run put get (map Get fs) s = Inr (outs, s') \<and> None \<notin> set outs \<and>
     length outs = length fs \<and> delivered outs = take (length fs * chunk s) (queue s) \<and>
     queue s' = drop (length fs * chunk s) (queue s)"
proof (induction fs arbitrary: s)
  case Nil
  then show ?case by simp
next
  case (Cons f fs)
  then obtain s1 where s1: "get f s = Inr (Some (take (chunk s) (queue s)), s1)" "inv s1"
      "queue s1 = drop (chunk s) (queue s)" "chunk s1 = chunk s"
    using get_some [of s f] by auto
  have le: "length fs * chunk s1 \<le> length (queue s1)" using s1(3,4) Cons.prems(2) by simp
  obtain outs s2 where r: "fifo_run put get (map Get fs) s1 = Inr (outs, s2)" "None \<notin> set outs"
      "length outs = length fs" "delivered outs = take (length fs * chunk s1) (queue s1)"
      "queue s2 = drop (length fs * chunk s1) (queue s1)"
    using Cons.IH [OF s1(2) le] by (elim exE conjE)
  show ?case using s1 r
    by (intro exI [of _ "Some (take (chunk s) (queue s)) # outs"] exI [of _ s2])
      (simp add: take_add add.commute)
qed

end

definition rs_put :: "bufcfg \<Rightarrow> sample list \<Rightarrow> AudioRecordSource \<Rightarrow> AudioRecordSource result" where
  \<comment> \<open>the recorder hands over initialised samples and their number in bytes\<close>
  "rs_put c xs s = OnAudioRecorded c (map Some xs) (2 * int (length xs)) s"

definition rs_poll :: "webrtc_frame_api \<Rightarrow> bufcfg \<Rightarrow> AudioFrame \<Rightarrow> AudioRecordSource \<Rightarrow>
    (sample list option \<times> AudioRecordSource) result" where
  \<comment> \<open>a poll at the source's own rate: the samples of the frame, if it is a normal one\<close>
  "rs_poll W c f s =
     rbind (GetAudioFrameWithInfo_record W c (rs_sample_rate s) f s) (\<lambda>(info, f', s').
     Inr (if info = kNormal then Some (take (rs_chunk s) (frame_samples W f')) else None, s'))"

definition rs_tenms :: "webrtc_frame_api \<Rightarrow> bufcfg \<Rightarrow> nat \<Rightarrow> AudioRecordSource \<Rightarrow> bool" where
  \<comment> \<open>10 ms frames\<close>
  "rs_tenms W c M s \<longleftrightarrow> frame_contract W \<and> rs_inv c M s \<and> rs_frame_duration_ms s = 10"

definition rs_exact :: "webrtc_frame_api \<Rightarrow> bufcfg \<Rightarrow> nat \<Rightarrow> AudioRecordSource \<Rightarrow> bool" where
  \<comment> \<open>10 ms frames with a whole number of samples, at unity volume\<close>
  "rs_exact W c M s \<longleftrightarrow> rs_tenms W c M s \<and> rs_sample_rate s mod 100 = 0 \<and> unity_volume (volume s)"

lemma rs_tenms_taken: "rs_tenms W c M s \<Longrightarrow> rs_taken s = nat (rs_channel_num s * rs_sample_rate s div 100)"
  by (simp add: rs_tenms_def rs_taken_def rs_inv_def)

lemma rs_tenms_chunk_le:
  assumes "rs_tenms W c M s"
  shows "rs_chunk s \<le> rs_taken s"
proof -
  have "0 < rs_channel_num s" using assms by (simp add: rs_tenms_def rs_inv_def geometry_ok_def)
  moreover have "rs_sample_rate s div 100 * 100 \<le> rs_sample_rate s"
    using minus_mod_eq_div_mult [of "rs_sample_rate s" 100] by simp
  ultimately have "rs_sample_rate s div 100 * 100 * rs_channel_num s \<le> rs_sample_rate s * rs_channel_num s"
    by (intro mult_right_mono) simp_all
  then have "rs_sample_rate s div 100 * rs_channel_num s * 100 \<le> rs_channel_num s * rs_sample_rate s"
    by (simp add: ac_simps)
  then have "rs_sample_rate s div 100 * rs_channel_num s \<le> rs_channel_num s * rs_sample_rate s div 100"
    using zdiv_mono1 [of "rs_sample_rate s div 100 * rs_channel_num s * 100" _ 100] by simp
  then show ?thesis by (simp add: rs_chunk_def rs_tenms_taken [OF assms])
qed

lemma rs_exact_taken: "rs_exact W c M s \<Longrightarrow> rs_taken s = rs_chunk s"
proof -
  assume e: "rs_exact W c M s"
  then have "rs_sample_rate s = rs_sample_rate s div 100 * 100"
    using div_mult_mod_eq [of "rs_sample_rate s" 100] by (simp add: rs_exact_def)
  then have "rs_channel_num s * rs_sample_rate s = rs_sample_rate s div 100 * rs_channel_num s * 100"
    by (metis mult.assoc mult.commute)
  then have "rs_channel_num s * rs_sample_rate s div 100 = rs_sample_rate s div 100 * rs_channel_num s"
    by (metis nonzero_mult_div_cancel_right zero_neq_numeral)
  moreover have "rs_taken s = nat (rs_channel_num s * rs_sample_rate s div 100)"
    using rs_tenms_taken [of W c M s] e by (simp add: rs_exact_def)
  ultimately show ?thesis by (simp only: rs_chunk_def)
qed

lemma rs_chunk_update [simp]: "rs_chunk (s\<lparr>rs_buffer := b\<rparr>) = rs_chunk s"
  by (simp add: rs_chunk_def)

lemma rs_exact_update: "rs_exact W c M s \<Longrightarrow> rs_inv c M (s\<lparr>rs_buffer := b\<rparr>) \<Longrightarrow> rs_exact W c M (s\<lparr>rs_buffer := b\<rparr>)"
  by (simp add: rs_exact_def rs_tenms_def)

interpretation record_fifo: sample_fifo "rs_exact W c M" rs_queue rs_chunk "rs_put c" "rs_poll W c" M
  for W c M
proof
  fix s and xs :: "sample list"
  assume e: "rs_exact W c M s" and room: "length (rs_queue s) + length xs \<le> M"
  then have inv: "rs_inv c M s" by (simp add: rs_exact_def rs_tenms_def)
  from OnAudioRecorded_ok [OF this room]
  obtain b where "rs_put c xs s = Inr (s\<lparr>rs_buffer := b\<rparr>)" "rs_inv c M (s\<lparr>rs_buffer := b\<rparr>)"
      "rs_queue (s\<lparr>rs_buffer := b\<rparr>) = rs_queue s @ xs"
    unfolding rs_put_def by blast
  then show "\<exists>s'. rs_put c xs s = Inr s' \<and> rs_exact W c M s' \<and> rs_queue s' = rs_queue s @ xs \<and>
      rs_chunk s' = rs_chunk s"
    using rs_exact_update [OF e] by (intro exI [of _ "s\<lparr>rs_buffer := b\<rparr>"]) simp
next
  fix s f
  assume e: "rs_exact W c M s" and n: "length (rs_queue s) < rs_chunk s"
  then show "rs_poll W c f s = Inr (None, s)"
    using GetAudioFrame_muted [of c M s W f] rs_exact_taken [OF e]
    by (simp add: rs_poll_def rs_exact_def rs_tenms_def)
next
  fix s f
  assume e: "rs_exact W c M s" and n: "rs_chunk s \<le> length (rs_queue s)"
  then have inv: "rs_inv c M s" and W: "frame_contract W" and u: "unity_volume (volume s)"
    by (simp_all add: rs_exact_def rs_tenms_def)
  have n': "rs_taken s \<le> length (rs_queue s)" using n rs_exact_taken [OF e] by simp
  obtain f1 b where "GetAudioFrameWithInfo_record W c (rs_sample_rate s) f s =
        Inr (kNormal, ApplyVolume W s f1, s\<lparr>rs_buffer := b\<rparr>)"
      "rs_inv c M (s\<lparr>rs_buffer := b\<rparr>)" "rs_queue (s\<lparr>rs_buffer := b\<rparr>) = drop (rs_taken s) (rs_queue s)"
      "take (rs_chunk s) (frame_samples W f1) = take (rs_chunk s) (rs_queue s)"
    using GetAudioFrame_normal [OF inv W n n', of f] by (elim exE conjE) simp
  then show "\<exists>s'. rs_poll W c f s = Inr (Some (take (rs_chunk s) (rs_queue s)), s') \<and>
      rs_exact W c M s' \<and> rs_queue s' = drop (rs_chunk s) (rs_queue s) \<and> rs_chunk s' = rs_chunk s"
    using u rs_exact_update [OF e] rs_exact_taken [OF e]
    by (intro exI [of _ "s\<lparr>rs_buffer := b\<rparr>"]) (simp add: rs_poll_def)
qed

definition rs_header :: "AudioRecordSource \<Rightarrow> size_t \<times> int32 \<times> size_t \<times> SpeechType \<times> VADActivity" where
  "rs_header s = (nat (rs_sample_rate s div 100), rs_sample_rate s, nat (rs_channel_num s),
     kNormalSpeech, kVadActive)"

lemma ApplyVolume_update [simp]: "ApplyVolume W (s\<lparr>rs_buffer := b\<rparr>) = ApplyVolume W s"
  by (simp add: ApplyVolume_def fun_eq_iff)

interpretation record_input: mixer_input "rs_tenms W c M" PreferredSampleRate_record rs_header
    "ApplyVolume W" "\<lambda>f. True" "GetAudioFrameWithInfo_record W c"
  for W c M
proof
  fix hz s f
  assume "hz \<noteq> PreferredSampleRate_record s"
  then show "GetAudioFrameWithInfo_record W c hz f s = Inr (kError, f, s)"
    by (simp add: PreferredSampleRate_record_def GetAudioFrame_wrong_rate)
next
  fix s f
  assume t: "rs_tenms W c M s"
  then have inv: "rs_inv c M s" and W: "frame_contract W" by (simp_all add: rs_tenms_def)
  let ?get = "GetAudioFrameWithInfo_record W c (PreferredSampleRate_record s) f s"
  show "\<exists>info f' s'. ?get = Inr (info, f', s') \<and> rs_tenms W c M s' \<and>
      PreferredSampleRate_record s' = PreferredSampleRate_record s \<and> rs_header s' = rs_header s \<and>
      ApplyVolume W s' = ApplyVolume W s \<and>
      (info = kNormal \<longrightarrow> (\<exists>g. frame_header g = rs_header s \<and> f' = ApplyVolume W s g))"
  proof (cases "rs_taken s \<le> length (rs_queue s)")
    case True
    then have "rs_chunk s \<le> length (rs_queue s)" using rs_tenms_chunk_le [OF t] by simp
    from GetAudioFrame_normal [OF inv W this True, of f]
    obtain f1 b where "?get = Inr (kNormal, ApplyVolume W s f1, s\<lparr>rs_buffer := b\<rparr>)"
        "rs_inv c M (s\<lparr>rs_buffer := b\<rparr>)" "frame_header f1 = rs_header s"
      unfolding PreferredSampleRate_record_def rs_header_def by (elim exE conjE) simp
    then show ?thesis using t
      by (intro exI [of _ kNormal] exI [of _ "ApplyVolume W s f1"] exI [of _ "s\<lparr>rs_buffer := b\<rparr>"])
        (auto simp: rs_tenms_def PreferredSampleRate_record_def rs_header_def)
  next
    case False
    then have "?get = Inr (kMuted, f, s)"
      using GetAudioFrame_muted [OF inv] by (simp add: PreferredSampleRate_record_def)
    then show ?thesis using t by simp
  qed
qed

section \<open>Properties\<close>

lemma ctor_exact:
  assumes "geometry_ok sr ch 10" "sr mod 100 = 0" "unity_volume v" "frame_contract W"
    "elem_bytes c = 2" "M < 2 ^ 30"
  shows "\<exists>s. AudioRecordSource_ctor c ssrc sr ch 10 v = Inr s \<and> rs_exact W c M s \<and> rs_queue s = [] \<and>
    rs_chunk s = nat (sr div 100 * ch)"
  using AudioRecordSource_ctor_ok [OF assms(1,5,6), of ssrc v] assms
  by (elim exE conjE) (simp add: rs_exact_def rs_tenms_def rs_chunk_def)



text \<open>Liveness of the queue: once \<open>k\<close> frames of samples are queued, the next \<open>k\<close> polls all
  deliver a frame, in the order of recording, and remove exactly what they delivered.\<close>

theorem record_source_drain:
  assumes "rs_exact W c M s" "length fs * rs_chunk s \<le> length (rs_queue s)"
  shows "\<exists>outs s'. fifo_run (rs_put c) (rs_poll W c) (map Get fs) s = Inr (outs, s') \<and>
    None \<notin> set outs \<and> length outs = length fs \<and>
    delivered outs = take (length fs * rs_chunk s) (rs_queue s) \<and>
    rs_queue s' = drop (length fs * rs_chunk s) (rs_queue s)"
  using record_fifo.drain [OF assms] .

definition demo_record :: AudioRecordSource where
  \<comment> \<open>300 Hz mono: three samples in 10 ms; four are queued\<close>
  "demo_record = \<lparr>volume = Finite 1, rs_ssrc = 7, rs_sample_rate = 300, rs_channel_num = 1,
     rs_frame_duration_ms = 10, rs_report_output_samples = 3, rs_real_buffer_num_elements = 3,
     rs_buffer = \<lparr>buf_size = 4, buf_capacity = 4, buf_data = Some [Some 1, Some 2, Some 3, Some 4]\<rparr>\<rparr>"

lemma demo_record_inv: "rs_inv demo_cfg 100 demo_record"
  by (simp add: rs_inv_def demo_record_def geometry_ok_def kFrameDurationInMs_def in_int32_def
      kMaxDataSizeSamples_def buf_small_def buf_inv_def IsConsistent_def buf_cells_def buf_contents_def demo_cfg_def)

lemma demo_record_exact: "rs_exact demo_webrtc demo_cfg 100 demo_record"
  using demo_record_inv demo_webrtc_contract
  by (simp add: rs_exact_def rs_tenms_def) (simp add: demo_record_def)

lemma demo_record_queue: "rs_queue demo_record = [1, 2, 3, 4]" "rs_chunk demo_record = 3" "rs_taken demo_record = 3"
  by (simp_all add: rs_queue_def buf_contents_def buf_cells_def demo_record_def rs_chunk_def rs_taken_def)

theorem record_source_drain_witness:
  "\<exists>outs s'. fifo_run (rs_put demo_cfg) (rs_poll demo_webrtc demo_cfg) (map Get [AudioFrame_init]) demo_record =
      Inr (outs, s') \<and> None \<notin> set outs \<and> length outs = 1 \<and> delivered outs = [1, 2, 3] \<and> rs_queue s' = [4]"
  using record_source_drain [OF demo_record_exact, of "[AudioFrame_init]"]
  by (simp add: demo_record_queue del: fifo_run.simps)



lemma taken_split:
  assumes "rs_tenms W c M s"
  shows "rs_taken s = rs_chunk s + nat (rs_channel_num s * (rs_sample_rate s mod 100) div 100)"
proof -
  let ?r = "rs_sample_rate s" and ?ch = "rs_channel_num s"
  have pos: "0 < ?ch" "0 < ?r" using assms by (simp_all add: rs_tenms_def rs_inv_def geometry_ok_def)
  have "?ch * ?r = ?ch * (?r mod 100) + (?r div 100 * ?ch) * 100"
    using div_mult_mod_eq [of ?r 100] by (metis add.commute distrib_left mult.assoc mult.commute)
  then have "?ch * ?r div 100 = ?ch * (?r mod 100) div 100 + ?r div 100 * ?ch"
    by (metis add.commute div_mult_self1 zero_neq_numeral)
  moreover have "0 \<le> ?ch * (?r mod 100) div 100" "0 \<le> ?r div 100 * ?ch"
    using pos by (simp_all add: pos_imp_zdiv_nonneg_iff)
  ultimately show ?thesis by (simp add: rs_tenms_taken [OF assms] rs_chunk_def nat_add_distrib)
qed


definition demo_stereo :: AudioRecordSource where
  \<comment> \<open>150 Hz stereo: a frame is one sample for each channel, a poll removes three\<close>
  "demo_stereo = \<lparr>volume = Finite 1, rs_ssrc = 7, rs_sample_rate = 150, rs_channel_num = 2,
     rs_frame_duration_ms = 10, rs_report_output_samples = 1, rs_real_buffer_num_elements = 3,
     rs_buffer = \<lparr>buf_size = 4, buf_capacity = 4, buf_data = Some [Some 1, Some 2, Some 3, Some 4]\<rparr>\<rparr>"


text \<open>Claim C29. With a frame duration below 10 ms the guard checks for fewer samples than the frame
  reads: after recording exactly what the guard asks for into a new source, the poll at the
  source's own rate reads past the end of the buffer's allocation.\<close>

theorem record_source_short_frame_overread:
  assumes g: "geometry_ok sr ch fd" and W: "frame_contract W" and c: "elem_bytes c = 2"
    and n: "length xs = nat (ch * sr div (1000 div fd))" "xs \<noteq> []" "length xs < nat (sr div 100 * ch)"
  shows "\<exists>s s'. AudioRecordSource_ctor c ssrc sr ch fd v = Inr s \<and> rs_put c xs s = Inr s' \<and>
    GetAudioFrameWithInfo_record W c sr f s' = Inl OutOfBounds"
proof -
  let ?M = "3840 :: nat"
  obtain s where s: "AudioRecordSource_ctor c ssrc sr ch fd v = Inr s" "rs_inv c ?M s" "rs_queue s = []"
      "rs_sample_rate s = sr" "rs_channel_num s = ch" "rs_frame_duration_ms s = fd"
      "buf_capacity (rs_buffer s) = 0"
    using AudioRecordSource_ctor_ok [OF g c, of ?M ssrc v] by auto
  have "sr div 100 * ch \<le> 3840" using g by (simp add: geometry_ok_def kMaxDataSizeSamples_def)
  then have le: "length xs \<le> ?M" using n(3) by linarith
  obtain b where b: "rs_put c xs s = Inr (s\<lparr>rs_buffer := b\<rparr>)" "rs_inv c ?M (s\<lparr>rs_buffer := b\<rparr>)"
      "rs_queue (s\<lparr>rs_buffer := b\<rparr>) = xs"
    using OnAudioRecorded_ok [OF s(2), of xs] le s(3) unfolding rs_put_def by auto
  have small: "buf_small c ?M (rs_buffer s)" using s(2) by (simp add: rs_inv_def)
  have sz: "buf_size (rs_buffer s) = 0" using s(3) length_rs_queue [OF s(2)] by simp
  have "to_size_t (2 * int (length xs)) div 2 = length xs"
    using le by (simp add: to_size_t_def size_mod_def)
  then have "AppendData c (map Some xs) (length xs) (rs_buffer s) = Inr b"
    using b(1) by (auto simp: rs_put_def OnAudioRecorded_def rbind_eq_Inr) (metis AudioRecordSource.select_convs(7) AudioRecordSource.surjective AudioRecordSource.update_convs(7))
  then have cap: "buf_capacity b = length xs"
    using AppendData_ok [OF rs_inv_buf [OF s(2)], of "length xs" "map Some xs"] sz s(7)
      buf_small_growth(1) [OF small le] by (auto simp: grown_def Let_def)
  have "GetAudioFrameWithInfo_record W c (rs_sample_rate (s\<lparr>rs_buffer := b\<rparr>)) f (s\<lparr>rs_buffer := b\<rparr>) = Inl OutOfBounds"
  proof (rule GetAudioFrame_overread [OF b(2) W])
    show "rs_taken (s\<lparr>rs_buffer := b\<rparr>) \<le> length (rs_queue (s\<lparr>rs_buffer := b\<rparr>))"
      using b s(4-6) n(1) by (simp add: rs_taken_def rs_inv_def)
    show "0 < buf_capacity (rs_buffer (s\<lparr>rs_buffer := b\<rparr>))" using cap n(2) by (cases xs) simp_all
    show "buf_capacity (rs_buffer (s\<lparr>rs_buffer := b\<rparr>)) < rs_chunk (s\<lparr>rs_buffer := b\<rparr>)"
      using cap n(3) s(4,5) by (simp only: rs_chunk_def) simp
  qed
  then show ?thesis using s b by (intro exI [of _ s] exI [of _ "s\<lparr>rs_buffer := b\<rparr>"]) simp
qed

theorem record_source_short_frame_overread_witness:
  "\<exists>s s'. AudioRecordSource_ctor demo_cfg 1 16000 1 5 (Finite 1) = Inr s \<and>
     rs_put demo_cfg (replicate 80 9) s = Inr s' \<and>
     GetAudioFrameWithInfo_record demo_webrtc demo_cfg 16000 AudioFrame_init s' = Inl OutOfBounds"
  by (rule record_source_short_frame_overread [OF _ demo_webrtc_contract])
    (simp_all add: geometry_ok_def kFrameDurationInMs_def in_int32_def kMaxDataSizeSamples_def demo_cfg_def)

text \<open>The record source meets the mixer's input contract: any sequence of polls is answered, each
  poll at a foreign rate with \<open>kError\<close>, and every normal frame is a frame with the source's rate,
  channel count and 10 ms of samples, scaled by the volume.\<close>

theorem record_source_is_mixer_input:
  assumes "rs_tenms W c M s"
  shows "\<exists>outs s'. poll_all (GetAudioFrameWithInfo_record W c) ps s = Inr (outs, s') \<and> rs_tenms W c M s' \<and>
    length outs = length ps \<and>
    (\<forall>i < length ps. fst (ps ! i) \<noteq> PreferredSampleRate_record s \<longrightarrow> fst (outs ! i) = kError) \<and>
    (\<forall>a \<in> set outs. fst a = kNormal \<longrightarrow> (\<exists>g. frame_header g = rs_header s \<and> snd a = ApplyVolume W s g))"
  using record_input.poll_all_ok [OF assms, of ps] by simp

theorem record_source_is_mixer_input_witness:
  "\<exists>outs s'. poll_all (GetAudioFrameWithInfo_record demo_webrtc demo_cfg)
      [(300, AudioFrame_init), (44100, AudioFrame_init)] demo_record = Inr (outs, s') \<and>
     length outs = 2 \<and> fst (outs ! 1) = kError"
proof -
  have "rs_tenms demo_webrtc demo_cfg 100 demo_record" using demo_record_exact by (simp add: rs_exact_def)
  from record_source_is_mixer_input [OF this, of "[(300, AudioFrame_init), (44100, AudioFrame_init)]"]
  obtain outs s' where o: "poll_all (GetAudioFrameWithInfo_record demo_webrtc demo_cfg)
      [(300, AudioFrame_init), (44100, AudioFrame_init)] demo_record = Inr (outs, s')" "length outs = 2"
    and e: "\<forall>i < 2. fst ([(300 :: int, AudioFrame_init), (44100, AudioFrame_init)] ! i) \<noteq>
      PreferredSampleRate_record demo_record \<longrightarrow> fst (outs ! i) = kError"
    by (elim exE conjE) (simp del: poll_all.simps)
  have "fst (outs ! 1) = kError" using spec [OF e, of 1] by (simp add: PreferredSampleRate_record_def demo_record_def)
  with o show ?thesis by (simp del: poll_all.simps)
qed

text \<open>Volume: \<open>ApplyVolume\<close> leaves a frame alone exactly when the volume is a NaN or between the
  binary32 values of 0.99 and 1.01, and otherwise scales it once by the volume; \<open>UpdateVolume\<close>
  takes effect on the next frame and changes nothing else of a record source.\<close>

theorem apply_volume_window:
  "ApplyVolume W (UpdateVolume v r) f =
      (if v = NaN \<or> (\<exists>q. v = Finite q \<and> Fract 8304722 8388608 \<le> q \<and> q \<le> Fract 8472494 8388608) then f
       else snd (ScaleWithSat W v f)) \<and>
   rs_queue (UpdateVolume v r) = rs_queue r \<and> rs_header (UpdateVolume v r) = rs_header r \<and>
   (rs_inv c M (UpdateVolume v r) \<longleftrightarrow> rs_inv c M r)"
proof -
  have "ApplyVolume W (UpdateVolume v r) f =
      (if v = NaN \<or> (\<exists>q. v = Finite q \<and> Fract 8304722 8388608 \<le> q \<and> q \<le> Fract 8472494 8388608) then f
       else snd (ScaleWithSat W v f))"
    using ApplyVolume_scaled [of "UpdateVolume v r" W f]
    by (cases v) (simp_all add: UpdateVolume_def unity_volume_finite unity_volume_special)
  then show ?thesis by (simp add: UpdateVolume_def rs_queue_def rs_header_def rs_inv_def)
qed

end
