(* ===== verification/Audio_File_Decoder.thy ===== *)
theory Audio_File_Decoder
  imports Audio_Resampler Audio_Record_Source
begin

text \<open>
  \<open>AudioFileDecoder\<close> (\<open>src/src/audio_file_decoder.cpp\<close>): packets of the chosen stream are read
  from the file and sent to the codec (\<open>FillDecoder\<close>), decoded frames are queued in a FIFO
  (\<open>FillFifo\<close>), and \<open>Consume\<close> hands samples out. Both loops run until the library says stop, so
  they are partial functions whose value \<^const>\<open>None\<close> is "does not return"; the lemmas show that
  they do return. FFmpeg is a record of functions over the types of its contexts; what its headers
  document is \<open>decoder_contract\<close>.
\<close>

section \<open>FFmpeg's demuxer, decoder and FIFO\<close>

record ('fmt, 'cc, 'pkt, 'par, 'codec, 'pcm, 'fifo) decoder_api =
  errno_EAGAIN :: int32
  av_frame_alloc :: bool \<comment> \<open>not null\<close>
  av_packet_alloc :: bool
  av_init_packet :: 'pkt
  avformat_open_input :: "string \<Rightarrow> int32 \<times> 'fmt"
  avformat_find_stream_info :: "'fmt \<Rightarrow> int32 \<times> 'fmt"
  av_find_best_stream :: "'fmt \<Rightarrow> int32" \<comment> \<open>for \<open>AVMEDIA_TYPE_AUDIO\<close>\<close>
  stream_codecpar :: "'fmt \<Rightarrow> int32 \<Rightarrow> 'par"
  codecpar_codec_id :: "'par \<Rightarrow> int32"
  avcodec_find_decoder :: "int32 \<Rightarrow> 'codec option"
  avcodec_alloc_context3 :: "'codec \<Rightarrow> 'cc option"
  avcodec_parameters_to_context :: "'cc \<Rightarrow> 'par \<Rightarrow> int32 \<times> 'cc"
  avcodec_open2 :: "'cc \<Rightarrow> 'codec \<Rightarrow> int32 \<times> 'cc"
  cc_sample_rate :: "'cc \<Rightarrow> int32"
  cc_sample_fmt :: "'cc \<Rightarrow> AVSampleFormat"
  cc_channels :: "'cc \<Rightarrow> int32"
  av_read_frame :: "'fmt \<Rightarrow> int32 \<times> 'pkt \<times> 'fmt"
  pkt_stream_index :: "'pkt \<Rightarrow> int32"
  av_packet_unref :: "'pkt \<Rightarrow> 'pkt"
  avcodec_send_packet :: "'cc \<Rightarrow> 'pkt \<Rightarrow> int32 \<times> 'cc"
  avcodec_receive_frame :: "'cc \<Rightarrow> int32 \<times> 'pcm list \<times> 'cc" \<comment> \<open>the frame's samples\<close>
  av_audio_fifo_alloc :: "AVSampleFormat \<Rightarrow> int32 \<Rightarrow> int32 \<Rightarrow> 'fifo option"
  av_audio_fifo_size :: "'fifo \<Rightarrow> int32"
  av_audio_fifo_write :: "'fifo \<Rightarrow> 'pcm list \<Rightarrow> int32 \<Rightarrow> int32 \<times> 'fifo"
  av_audio_fifo_read :: "'fifo \<Rightarrow> int32 \<Rightarrow> int32 \<times> 'pcm list \<times> 'fifo" \<comment> \<open>the samples it stored\<close>

section \<open>The class\<close>

record ('fmt, 'cc, 'pkt, 'fifo) AudioFileDecoder =
  fifo_capacity :: int32
  stream_no :: int32
  format_context :: 'fmt
  codec_context :: 'cc
  packet :: 'pkt
  packet_consumed :: bool
  fifo :: 'fifo

definition send_packet ::
    "('fmt, 'cc, 'pkt, 'par, 'codec, 'pcm, 'fifo) decoder_api \<Rightarrow> ('fmt, 'cc, 'pkt, 'fifo) AudioFileDecoder \<Rightarrow>
     (('fmt, 'cc, 'pkt, 'fifo) AudioFileDecoder result, ('fmt, 'cc, 'pkt, 'fifo) AudioFileDecoder) loop_step" where
  "send_packet A d =
     (let (error, cc) = avcodec_send_packet A (codec_context d) (packet d);
          d1 = d\<lparr>codec_context := cc\<rparr>
      in if error = 0
         then Continue (d1\<lparr>packet := av_packet_unref A (packet d), packet_consumed := True\<rparr>)
         else if error = AVERROR (errno_EAGAIN A) \<or> error = av_error AVERROR_EOF then Break (Inr d1)
         else Break (Inl (CheckFailed ''avcodec_send_packet'')))"

definition FillDecoder_body ::
    "('fmt, 'cc, 'pkt, 'par, 'codec, 'pcm, 'fifo) decoder_api \<Rightarrow> ('fmt, 'cc, 'pkt, 'fifo) AudioFileDecoder \<Rightarrow>
     (('fmt, 'cc, 'pkt, 'fifo) AudioFileDecoder result, ('fmt, 'cc, 'pkt, 'fifo) AudioFileDecoder) loop_step" where
  \<comment> \<open>one iteration of the \<open>while (true)\<close>\<close>
  "FillDecoder_body A d =
     (if packet_consumed d then
        let (error, p, fmt) = av_read_frame A (format_context d);
            d1 = d\<lparr>format_context := fmt, packet := p\<rparr>
        in if error \<noteq> 0 then Break (Inr d1)
           else if pkt_stream_index A p \<noteq> stream_no d
           then Continue (d1\<lparr>packet := av_packet_unref A p\<rparr>)
           else send_packet A (d1\<lparr>packet_consumed := False\<rparr>)
      else send_packet A d)"

partial_function (option) FillDecoder ::
    "('fmt, 'cc, 'pkt, 'par, 'codec, 'pcm, 'fifo) decoder_api \<Rightarrow> ('fmt, 'cc, 'pkt, 'fifo) AudioFileDecoder \<Rightarrow>
     ('fmt, 'cc, 'pkt, 'fifo) AudioFileDecoder result option" where
  "FillDecoder A d =
     (case FillDecoder_body A d of Break r \<Rightarrow> Some r | Continue d' \<Rightarrow> FillDecoder A d')"

partial_function (option) FillFifo ::
    "('fmt, 'cc, 'pkt, 'par, 'codec, 'pcm, 'fifo) decoder_api \<Rightarrow> ('fmt, 'cc, 'pkt, 'fifo) AudioFileDecoder \<Rightarrow>
     ('fmt, 'cc, 'pkt, 'fifo) AudioFileDecoder option" where
  "FillFifo A d =
     (if av_audio_fifo_size A (fifo d) < fifo_capacity d then
        let (error, frame, cc) = avcodec_receive_frame A (codec_context d);
            d1 = d\<lparr>codec_context := cc\<rparr>
        in if error = 0
           then FillFifo A (d1\<lparr>fifo := snd (av_audio_fifo_write A (fifo d) frame (int (length frame)))\<rparr>)
           else Some d1
      else Some d)"

definition Consume ::
    "('fmt, 'cc, 'pkt, 'par, 'codec, 'pcm, 'fifo) decoder_api \<Rightarrow> 'pcm list \<Rightarrow> int32 \<Rightarrow>
     ('fmt, 'cc, 'pkt, 'fifo) AudioFileDecoder \<Rightarrow>
     (int32 \<times> 'pcm list \<times> ('fmt, 'cc, 'pkt, 'fifo) AudioFileDecoder) result option" where
  "Consume A buffer samples d =
     (case FillDecoder A d of
        None \<Rightarrow> None
      | Some (Inl e) \<Rightarrow> Some (Inl e)
      | Some (Inr d1) \<Rightarrow>
          (case FillFifo A d1 of
             None \<Rightarrow> None
           | Some d2 \<Rightarrow>
               let target_samples = min (av_audio_fifo_size A (fifo d2)) samples;
                   (actual_samples, stored, q) = av_audio_fifo_read A (fifo d2) target_samples
               in Some (if length buffer < length stored then Inl OutOfBounds
                  else rbind (c_mul actual_samples 2) (\<lambda>b.
                       rbind (c_mul b (cc_channels A (codec_context d2))) (\<lambda>n.
                       Inr (n, stored @ drop (length stored) buffer, d2\<lparr>fifo := q\<rparr>))))))"

definition AudioFileDecoder_open ::
    "('fmt, 'cc, 'pkt, 'par, 'codec, 'pcm, 'fifo) decoder_api \<Rightarrow> string \<Rightarrow>
     ('fmt, 'cc, 'pkt, 'fifo) AudioFileDecoder result" where
  \<comment> \<open>the constructor up to its last statement\<close>
  "AudioFileDecoder_open A filepath =
     rbind (rtc_check (av_frame_alloc A) ''av_frame_alloc fail'') (\<lambda>_.
     rbind (rtc_check (av_packet_alloc A) ''av_packet_alloc fail'') (\<lambda>_.
     let (error, fmt0) = avformat_open_input A filepath in
     rbind (rtc_check (0 \<le> error) ''avformat_open_input'') (\<lambda>_.
     let (error, fmt) = avformat_find_stream_info A fmt0 in
     rbind (rtc_check (0 \<le> error) ''avformat_find_stream_info'') (\<lambda>_.
     let n = av_find_best_stream A fmt in
     rbind (rtc_check (0 \<le> n) ''av_find_best_stream'') (\<lambda>_.
     let par = stream_codecpar A fmt n in
     case avcodec_find_decoder A (codecpar_codec_id A par) of
       None \<Rightarrow> Inl (CheckFailed ''avcodec_find_decoder fail'')
     | Some codec \<Rightarrow>
         (case avcodec_alloc_context3 A codec of
            None \<Rightarrow> Inl (CheckFailed ''avcodec_alloc_context3 fail'')
          | Some cc0 \<Rightarrow>
              let (error, cc1) = avcodec_parameters_to_context A cc0 par in
              rbind (rtc_check (0 \<le> error) ''avcodec_parameters_to_context'') (\<lambda>_.
              let (error, cc) = avcodec_open2 A cc1 codec in
              rbind (rtc_check (0 \<le> error) ''avcodec_open2'') (\<lambda>_.
              rbind (c_mul 10 (cc_sample_rate A cc)) (\<lambda>ten.
              rbind (c_div 1000 kFrameDurationInMs) (\<lambda>frames.
              rbind (c_div ten frames) (\<lambda>capacity.
              case av_audio_fifo_alloc A (cc_sample_fmt A cc) (cc_channels A cc) capacity of
                None \<Rightarrow> Inl (CheckFailed ''av_audio_fifo_alloc fail'')
              | Some q \<Rightarrow>
                  Inr \<lparr>fifo_capacity = capacity, stream_no = n, format_context = fmt, codec_context = cc,
                       packet = av_init_packet A, packet_consumed = True, fifo = q\<rparr>)))))))))))"

definition AudioFileDecoder_ctor ::
    "('fmt, 'cc, 'pkt, 'par, 'codec, 'pcm, 'fifo) decoder_api \<Rightarrow> string \<Rightarrow>
     ('fmt, 'cc, 'pkt, 'fifo) AudioFileDecoder result option" where
  "AudioFileDecoder_ctor A filepath =
     (case AudioFileDecoder_open A filepath of
        Inl e \<Rightarrow> Some (Inl e)
      | Inr d \<Rightarrow> FillDecoder A d)"

definition sample_format ::
    "('fmt, 'cc, 'pkt, 'par, 'codec, 'pcm, 'fifo) decoder_api \<Rightarrow> ('fmt, 'cc, 'pkt, 'fifo) AudioFileDecoder \<Rightarrow>
     AVSampleFormat" where
  "sample_format A d = cc_sample_fmt A (codec_context d)"

definition sample_rate ::
    "('fmt, 'cc, 'pkt, 'par, 'codec, 'pcm, 'fifo) decoder_api \<Rightarrow> ('fmt, 'cc, 'pkt, 'fifo) AudioFileDecoder \<Rightarrow> int32" where
  "sample_rate A d = cc_sample_rate A (codec_context d)"

definition channel_num ::
    "('fmt, 'cc, 'pkt, 'par, 'codec, 'pcm, 'fifo) decoder_api \<Rightarrow> ('fmt, 'cc, 'pkt, 'fifo) AudioFileDecoder \<Rightarrow> int32" where
  "channel_num A d = cc_channels A (codec_context d)"

section \<open>What FFmpeg's headers document\<close>

text \<open>The observers: the packets a demuxer has left, the packets a codec has accepted and the samples
  it has handed out so far, a bound on the frames it can still hand out without new input, and the
  samples in a FIFO.\<close>

record ('fmt, 'cc, 'pkt, 'pcm, 'fifo) decoder_view =
  packets_left :: "'fmt \<Rightarrow> 'pkt list"
  accepted :: "'cc \<Rightarrow> 'pkt list"
  emitted :: "'cc \<Rightarrow> 'pcm list"
  frames_left :: "'cc \<Rightarrow> nat"
  queued :: "'fifo \<Rightarrow> 'pcm list"

definition codec_format ::
    "('fmt, 'cc, 'pkt, 'par, 'codec, 'pcm, 'fifo) decoder_api \<Rightarrow> 'cc \<Rightarrow> int32 \<times> AVSampleFormat \<times> int32" where
  "codec_format A cc = (cc_sample_rate A cc, cc_sample_fmt A cc, cc_channels A cc)"

definition reads_packets ::
    "('fmt, 'cc, 'pkt, 'par, 'codec, 'pcm, 'fifo) decoder_api \<Rightarrow> ('fmt, 'cc, 'pkt, 'pcm, 'fifo) decoder_view \<Rightarrow> bool" where
  "reads_packets A V \<longleftrightarrow>
     (\<forall>fmt e p fmt'. av_read_frame A fmt = (e, p, fmt') \<longrightarrow>
        packets_left V fmt = (if e = 0 then p # packets_left V fmt' else packets_left V fmt'))"

definition sends_packets ::
    "('fmt, 'cc, 'pkt, 'par, 'codec, 'pcm, 'fifo) decoder_api \<Rightarrow> ('fmt, 'cc, 'pkt, 'pcm, 'fifo) decoder_view \<Rightarrow> bool" where
  "sends_packets A V \<longleftrightarrow>
     (\<forall>cc p e cc'. avcodec_send_packet A cc p = (e, cc') \<longrightarrow>
        emitted V cc' = emitted V cc \<and> codec_format A cc' = codec_format A cc \<and>
        (e = 0 \<longrightarrow> accepted V cc' = accepted V cc @ [p]) \<and>
        (e = AVERROR (errno_EAGAIN A) \<or> e = av_error AVERROR_EOF \<longrightarrow> accepted V cc' = accepted V cc)) \<and>
     0 < errno_EAGAIN A"

definition receives_frames ::
    "('fmt, 'cc, 'pkt, 'par, 'codec, 'pcm, 'fifo) decoder_api \<Rightarrow> ('fmt, 'cc, 'pkt, 'pcm, 'fifo) decoder_view \<Rightarrow> bool" where
  "receives_frames A V \<longleftrightarrow>
     (\<forall>cc e xs cc'. avcodec_receive_frame A cc = (e, xs, cc') \<longrightarrow>
        accepted V cc' = accepted V cc \<and> codec_format A cc' = codec_format A cc \<and>
        emitted V cc' = (if e = 0 then emitted V cc @ xs else emitted V cc) \<and>
        (e = 0 \<longrightarrow> frames_left V cc' < frames_left V cc))"

definition queues_samples ::
    "('fmt, 'cc, 'pkt, 'par, 'codec, 'pcm, 'fifo) decoder_api \<Rightarrow> ('fmt, 'cc, 'pkt, 'pcm, 'fifo) decoder_view \<Rightarrow> bool" where
  "queues_samples A V \<longleftrightarrow>
     (\<forall>q. av_audio_fifo_size A q = int (length (queued V q))) \<and>
     (\<forall>q xs. queued V (snd (av_audio_fifo_write A q xs (int (length xs)))) = queued V q @ xs) \<and>
     (\<forall>q n. int n \<le> av_audio_fifo_size A q \<longrightarrow>
        (\<exists>q'. av_audio_fifo_read A q (int n) = (int n, take n (queued V q), q') \<and>
              queued V q' = drop n (queued V q)))"

definition decoder_contract ::
    "('fmt, 'cc, 'pkt, 'par, 'codec, 'pcm, 'fifo) decoder_api \<Rightarrow> ('fmt, 'cc, 'pkt, 'pcm, 'fifo) decoder_view \<Rightarrow> bool" where
  "decoder_contract A V \<longleftrightarrow>
     reads_packets A V \<and> sends_packets A V \<and> receives_frames A V \<and> queues_samples A V"

definition sent ::
    "('fmt, 'cc, 'pkt, 'par, 'codec, 'pcm, 'fifo) decoder_api \<Rightarrow> ('fmt, 'cc, 'pkt, 'pcm, 'fifo) decoder_view \<Rightarrow>
     ('fmt, 'cc, 'pkt, 'fifo) AudioFileDecoder \<Rightarrow> 'pkt list" where
  \<comment> \<open>packets the codec has accepted, then the one waiting, then those of the stream still in the file\<close>
  "sent A V d = accepted V (codec_context d) @ (if packet_consumed d then [] else [packet d]) @
     filter (\<lambda>p. pkt_stream_index A p = stream_no d) (packets_left V (format_context d))"

definition fill_measure ::
    "('fmt, 'cc, 'pkt, 'pcm, 'fifo) decoder_view \<Rightarrow> ('fmt, 'cc, 'pkt, 'fifo) AudioFileDecoder \<Rightarrow> nat" where
  "fill_measure V d = 2 * length (packets_left V (format_context d)) + (if packet_consumed d then 0 else 1)"

definition same_stream ::
    "('fmt, 'cc, 'pkt, 'par, 'codec, 'pcm, 'fifo) decoder_api \<Rightarrow> ('fmt, 'cc, 'pkt, 'pcm, 'fifo) decoder_view \<Rightarrow>
     ('fmt, 'cc, 'pkt, 'fifo) AudioFileDecoder \<Rightarrow> ('fmt, 'cc, 'pkt, 'fifo) AudioFileDecoder \<Rightarrow> bool" where
  \<comment> \<open>what neither loop changes\<close>
  "same_stream A V d d' \<longleftrightarrow>
     sent A V d' = sent A V d \<and> stream_no d' = stream_no d \<and> fifo_capacity d' = fifo_capacity d \<and>
     codec_format A (codec_context d') = codec_format A (codec_context d)"

lemma sent_fifo [simp]: "sent A V (d\<lparr>fifo := q\<rparr>) = sent A V d"
  by (simp add: sent_def)

lemma same_stream_refl [simp]: "same_stream A V d d"
  by (simp add: same_stream_def)

lemma same_stream_trans: "same_stream A V d d' \<Longrightarrow> same_stream A V d' d'' \<Longrightarrow> same_stream A V d d''"
  by (simp add: same_stream_def)

section \<open>FillDecoder\<close>

definition stopped ::
    "('fmt, 'cc, 'pkt, 'par, 'codec, 'pcm, 'fifo) decoder_api \<Rightarrow> ('fmt, 'cc, 'pkt, 'fifo) AudioFileDecoder \<Rightarrow> bool" where
  \<comment> \<open>why the loop ended: nothing more to read, or the codec refuses the waiting packet for now\<close>
  "stopped A d \<longleftrightarrow>
     (if packet_consumed d
      then \<exists>fmt e p. av_read_frame A fmt = (e, p, format_context d) \<and> e \<noteq> 0
      else \<exists>cc e. avcodec_send_packet A cc (packet d) = (e, codec_context d) \<and>
             (e = AVERROR (errno_EAGAIN A) \<or> e = av_error AVERROR_EOF))"

lemma send_packet_step:
  assumes C: "decoder_contract A V" and w: "\<not> packet_consumed d"
  shows "(case send_packet A d of
      Continue d' \<Rightarrow> fill_measure V d' < fill_measure V d \<and> same_stream A V d d' \<and>
        emitted V (codec_context d') = emitted V (codec_context d) \<and> fifo d' = fifo d
    | Break (Inr d') \<Rightarrow> same_stream A V d d' \<and> emitted V (codec_context d') = emitted V (codec_context d) \<and>
        fifo d' = fifo d \<and> stopped A d'
    | Break (Inl e) \<Rightarrow> e = CheckFailed ''avcodec_send_packet'')"
proof -
  obtain e cc where s: "avcodec_send_packet A (codec_context d) (packet d) = (e, cc)" by fastforce
  have k: "emitted V cc = emitted V (codec_context d)" "codec_format A cc = codec_format A (codec_context d)"
      "e = 0 \<Longrightarrow> accepted V cc = accepted V (codec_context d) @ [packet d]"
      "e = AVERROR (errno_EAGAIN A) \<or> e = av_error AVERROR_EOF \<Longrightarrow> accepted V cc = accepted V (codec_context d)"
    using C s unfolding decoder_contract_def sends_packets_def by blast+
  show ?thesis
    using k w s by (auto simp: send_packet_def Let_def fill_measure_def same_stream_def sent_def stopped_def)
qed

lemma FillDecoder_body_step:
  assumes C: "decoder_contract A V"
  shows "(case FillDecoder_body A d of
      Continue d' \<Rightarrow> fill_measure V d' < fill_measure V d \<and> same_stream A V d d' \<and>
        emitted V (codec_context d') = emitted V (codec_context d) \<and> fifo d' = fifo d
    | Break (Inr d') \<Rightarrow> same_stream A V d d' \<and> emitted V (codec_context d') = emitted V (codec_context d) \<and>
        fifo d' = fifo d \<and> stopped A d'
    | Break (Inl e) \<Rightarrow> e = CheckFailed ''avcodec_send_packet'')"
proof (cases "packet_consumed d")
  case False
  then show ?thesis
    using send_packet_step [OF C False]
    by (simp add: FillDecoder_body_def split: loop_step.splits sum.splits)
next
  case True
  obtain e p fmt where r: "av_read_frame A (format_context d) = (e, p, fmt)" by (cases "av_read_frame A (format_context d)")
  then have k: "packets_left V (format_context d) = (if e = 0 then p # packets_left V fmt else packets_left V fmt)"
    using C unfolding decoder_contract_def reads_packets_def by blast
  show ?thesis
  proof (cases "e = 0 \<and> pkt_stream_index A p = stream_no d")
    case False
    then show ?thesis using True k r
      by (auto simp: FillDecoder_body_def Let_def fill_measure_def same_stream_def sent_def stopped_def)
  next
    case hit: True
    let ?d = "d\<lparr>format_context := fmt, packet := p, packet_consumed := False\<rparr>"
    have "same_stream A V d ?d" "fill_measure V ?d < fill_measure V d"
      using hit True k by (simp_all add: same_stream_def sent_def fill_measure_def)
    moreover have "FillDecoder_body A d = send_packet A ?d"
      using hit True by (simp add: FillDecoder_body_def r Let_def)
    ultimately show ?thesis
      using send_packet_step [OF C, of ?d]
      by (auto split: loop_step.splits sum.splits intro: same_stream_trans)
  qed
qed

lemma FillDecoder_ok:
  assumes C: "decoder_contract A V"
  shows "FillDecoder A d = Some (Inl (CheckFailed ''avcodec_send_packet'')) \<or>
    (\<exists>d'. FillDecoder A d = Some (Inr d') \<and> same_stream A V d d' \<and>
       emitted V (codec_context d') = emitted V (codec_context d) \<and> fifo d' = fifo d \<and> stopped A d')"
proof (induction "fill_measure V d" arbitrary: d rule: less_induct)
  case less
  show ?case
  proof (cases "FillDecoder_body A d")
    case (Break r)
    then have f: "FillDecoder A d = Some r" by (subst FillDecoder.simps) simp
    show ?thesis
      using FillDecoder_body_step [OF C, of d] f by (cases r) (simp_all add: Break)
  next
    case (Continue d1)
    then have f: "FillDecoder A d = FillDecoder A d1" by (subst FillDecoder.simps) simp
    have k: "fill_measure V d1 < fill_measure V d" "same_stream A V d d1"
        "emitted V (codec_context d1) = emitted V (codec_context d)" "fifo d1 = fifo d"
      using FillDecoder_body_step [OF C, of d] by (simp_all add: Continue)
    show ?thesis using less [OF k(1)] f k same_stream_trans [OF k(2)] by auto
  qed
qed

section \<open>FillFifo\<close>

lemma receive_step:
  assumes C: "decoder_contract A V" and r: "avcodec_receive_frame A (codec_context d) = (e, xs, cc)"
  shows "accepted V cc = accepted V (codec_context d)" "codec_format A cc = codec_format A (codec_context d)"
    "emitted V cc = (if e = 0 then emitted V (codec_context d) @ xs else emitted V (codec_context d))"
    "e = 0 \<Longrightarrow> frames_left V cc < frames_left V (codec_context d)"
  using C r unfolding decoder_contract_def receives_frames_def by blast+

lemma queue_step:
  assumes C: "decoder_contract A V"
  shows "av_audio_fifo_size A q = int (length (queued V q))"
    "queued V (snd (av_audio_fifo_write A q xs (int (length xs)))) = queued V q @ xs"
    "n \<le> length (queued V q) \<Longrightarrow> \<exists>q'. av_audio_fifo_read A q (int n) = (int n, take n (queued V q), q') \<and>
       queued V q' = drop n (queued V q)"
  using C unfolding decoder_contract_def queues_samples_def by (blast, blast, simp)

lemma FillFifo_ok:
  assumes C: "decoder_contract A V"
  shows "\<exists>d' xs. FillFifo A d = Some d' \<and> same_stream A V d d' \<and>
    emitted V (codec_context d') = emitted V (codec_context d) @ xs \<and>
    queued V (fifo d') = queued V (fifo d) @ xs \<and>
    (int (length (queued V (fifo d'))) < fifo_capacity d' \<longrightarrow>
       (\<exists>cc. fst (avcodec_receive_frame A cc) \<noteq> 0 \<and> snd (snd (avcodec_receive_frame A cc)) = codec_context d'))"
proof (induction "frames_left V (codec_context d)" arbitrary: d rule: less_induct)
  case less
  obtain e xs cc where r: "avcodec_receive_frame A (codec_context d) = (e, xs, cc)"
    by (cases "avcodec_receive_frame A (codec_context d)")
  note k = receive_step [OF C r] and q = queue_step [OF C]
  show ?case
  proof (cases "av_audio_fifo_size A (fifo d) < fifo_capacity d")
    case False
    then have "FillFifo A d = Some d" by (subst FillFifo.simps) simp
    then show ?thesis using False q(1) by simp
  next
    case room: True
    let ?d = "d\<lparr>codec_context := cc, fifo := snd (av_audio_fifo_write A (fifo d) xs (int (length xs)))\<rparr>"
    show ?thesis
    proof (cases "e = 0")
      case True
      have f: "FillFifo A d = FillFifo A ?d" using room True r by (subst FillFifo.simps) (simp add: Let_def)
      have s: "same_stream A V d ?d" using k by (simp add: same_stream_def sent_def)
      have lt: "frames_left V (codec_context ?d) < frames_left V (codec_context d)" using k(4) [OF True] by simp
      obtain d' ys where ih: "FillFifo A ?d = Some d'" "same_stream A V ?d d'"
          "emitted V (codec_context d') = emitted V (codec_context ?d) @ ys"
          "queued V (fifo d') = queued V (fifo ?d) @ ys"
          "int (length (queued V (fifo d'))) < fifo_capacity d' \<longrightarrow>
             (\<exists>cc. fst (avcodec_receive_frame A cc) \<noteq> 0 \<and> snd (snd (avcodec_receive_frame A cc)) = codec_context d')"
        using less [OF lt] by (elim exE conjE)
      show ?thesis
        using ih f True k(3) q(2) [of "fifo d" xs] same_stream_trans [OF s ih(2)]
        by (intro exI [of _ d'] exI [of _ "xs @ ys"]) simp
    next
      case False
      then have "FillFifo A d = Some (d\<lparr>codec_context := cc\<rparr>)"
        using room r by (subst FillFifo.simps) (simp add: Let_def)
      moreover have "same_stream A V d (d\<lparr>codec_context := cc\<rparr>)" using k by (simp add: same_stream_def sent_def)
      moreover have "fst (avcodec_receive_frame A (codec_context d)) \<noteq> 0 \<and>
          snd (snd (avcodec_receive_frame A (codec_context d))) = cc" using False r by simp
      ultimately show ?thesis using False k(3) by (intro exI [of _ "d\<lparr>codec_context := cc\<rparr>"] exI [of _ "[]"]) auto
    qed
  qed
qed

section \<open>Consume\<close>

definition aligned :: "('fmt, 'cc, 'pkt, 'pcm, 'fifo) decoder_view \<Rightarrow> ('fmt, 'cc, 'pkt, 'fifo) AudioFileDecoder \<Rightarrow> bool" where
  \<comment> \<open>the FIFO holds the last samples the codec has handed out\<close>
  "aligned V d \<longleftrightarrow> (\<exists>h. emitted V (codec_context d) = h @ queued V (fifo d))"

definition handed :: "('fmt, 'cc, 'pkt, 'pcm, 'fifo) decoder_view \<Rightarrow> ('fmt, 'cc, 'pkt, 'fifo) AudioFileDecoder \<Rightarrow> 'pcm list" where
  \<comment> \<open>the samples handed out of the FIFO so far\<close>
  "handed V d = take (length (emitted V (codec_context d)) - length (queued V (fifo d))) (emitted V (codec_context d))"

lemma handed_eq: "emitted V (codec_context d) = h @ queued V (fifo d) \<Longrightarrow> handed V d = h"
  by (simp add: handed_def)

lemma aligned_handed: "aligned V d \<Longrightarrow> emitted V (codec_context d) = handed V d @ queued V (fifo d)"
  by (auto simp: aligned_def handed_def)

lemma byte_count:
  assumes "m \<le> n" "0 < ch" "in_int32 (int n * 2 * ch)"
  shows "c_mul (int m) 2 = Inr (int m * 2)" "c_mul (int m * 2) ch = Inr (int m * 2 * ch)"
proof -
  have "int m * 2 * ch \<le> int n * 2 * ch" using assms by (intro mult_right_mono) simp_all
  moreover have "int m * 2 * 1 \<le> int m * 2 * ch" using assms by (intro mult_left_mono) simp_all
  moreover have "0 \<le> int m * 2 * ch" using assms by simp
  ultimately have "in_int32 (int m * 2)" "in_int32 (int m * 2 * ch)"
    using assms(3) unfolding in_int32_def by linarith+
  then show "c_mul (int m) 2 = Inr (int m * 2)" "c_mul (int m * 2) ch = Inr (int m * 2 * ch)"
    by (simp_all add: c_mul_def c_int32_ok)
qed

lemma Consume_ok:
  assumes C: "decoder_contract A V" and al: "aligned V d" and ch: "0 < channel_num A d"
    and n: "n \<le> length buffer" "in_int32 (int n * 2 * channel_num A d)"
  shows "Consume A buffer (int n) d = Some (Inl (CheckFailed ''avcodec_send_packet'')) \<or>
    (\<exists>xs d'. Consume A buffer (int n) d =
        Some (Inr (int (length xs) * 2 * channel_num A d, xs @ drop (length xs) buffer, d')) \<and>
      length xs \<le> n \<and> same_stream A V d d' \<and> aligned V d' \<and> handed V d' = handed V d @ xs \<and>
      (length xs < n \<longrightarrow> queued V (fifo d') = []))"
proof (cases "FillDecoder A d = Some (Inl (CheckFailed ''avcodec_send_packet''))")
  case True
  then show ?thesis by (simp add: Consume_def)
next
  case False
  then obtain d1 where d1: "FillDecoder A d = Some (Inr d1)" "same_stream A V d d1"
      "emitted V (codec_context d1) = emitted V (codec_context d)" "fifo d1 = fifo d"
    using FillDecoder_ok [OF C, of d] by auto
  obtain d2 ys where d2: "FillFifo A d1 = Some d2" "same_stream A V d1 d2"
      "emitted V (codec_context d2) = emitted V (codec_context d1) @ ys" "queued V (fifo d2) = queued V (fifo d1) @ ys"
    using FillFifo_ok [OF C, of d1] by auto
  note s = same_stream_trans [OF d1(2) d2(2)]
  let ?q = "queued V (fifo d2)" and ?m = "min (length (queued V (fifo d2))) n"
  have chn: "cc_channels A (codec_context d2) = channel_num A d"
    using s by (simp add: same_stream_def codec_format_def channel_num_def)
  have e: "emitted V (codec_context d2) = handed V d @ ?q"
    using aligned_handed [OF al] d1(3,4) d2(3,4) by simp
  obtain q' where q': "av_audio_fifo_read A (fifo d2) (int ?m) = (int ?m, take ?m ?q, q')" "queued V q' = drop ?m ?q"
    using queue_step(3) [OF C, of ?m "fifo d2"] by auto
  have t: "min (av_audio_fifo_size A (fifo d2)) (int n) = int ?m" using queue_step(1) [OF C] by simp
  let ?xs = "take ?m ?q" and ?d = "d2\<lparr>fifo := q'\<rparr>"
  have len: "length ?xs = ?m" by simp
  note b = byte_count [OF _ ch n(2), of ?m]
  have run: "Consume A buffer (int n) d = Some (Inr (int (length ?xs) * 2 * channel_num A d, ?xs @ drop (length ?xs) buffer, ?d))"
    using n(1) b unfolding Consume_def d1(1) option.case sum.case d2(1) t Let_def q'(1) prod.case chn len by simp
  have e': "emitted V (codec_context ?d) = (handed V d @ ?xs) @ queued V (fifo ?d)" using e q'(2) by simp
  have "aligned V ?d" unfolding aligned_def using e' by blast
  moreover have "handed V ?d = handed V d @ ?xs" by (rule handed_eq [OF e'])
  moreover have "same_stream A V d ?d" using s by (simp add: same_stream_def)
  moreover have "length ?xs < n \<longrightarrow> queued V (fifo ?d) = []" using q'(2) by auto
  ultimately show ?thesis using run len by (intro disjI2 exI [of _ ?xs] exI [of _ ?d]) (intro conjI; simp)
qed

section \<open>The decoder as a reader of samples\<close>

fun read_all :: "(nat \<Rightarrow> 'd \<Rightarrow> ('pcm list \<times> 'd) result option) \<Rightarrow> nat list \<Rightarrow> 'd \<Rightarrow>
    ('pcm list list \<times> 'd) result option" where
  "read_all read [] d = Some (Inr ([], d))"
| "read_all read (n # ns) d =
     (case read n d of
        None \<Rightarrow> None
      | Some (Inl e) \<Rightarrow> Some (Inl e)
      | Some (Inr (xs, d')) \<Rightarrow>
          (case read_all read ns d' of
             None \<Rightarrow> None
           | Some (Inl e) \<Rightarrow> Some (Inl e)
           | Some (Inr (xss, d'')) \<Rightarrow> Some (Inr (xs # xss, d''))))"

locale pcm_reader =
  fixes inv :: "'d \<Rightarrow> bool"
    and given :: "'d \<Rightarrow> 'pcm list"
    and origin :: "'d \<Rightarrow> 'o"
    and read :: "nat \<Rightarrow> 'd \<Rightarrow> ('pcm list \<times> 'd) result option"
    and failure :: fault
    and N :: nat
  assumes read_ok: "inv d \<Longrightarrow> n \<le> N \<Longrightarrow> read n d = Some (Inl failure) \<or>
    (\<exists>xs d'. read n d = Some (Inr (xs, d')) \<and> inv d' \<and> length xs \<le> n \<and> given d' = given d @ xs \<and> origin d' = origin d)"
begin

lemma read_all_ok:
  "inv d \<Longrightarrow> \<forall>n \<in> set ns. n \<le> N \<Longrightarrow> read_all read ns d = Some (Inl failure) \<or>
   (\<exists>xss d'. read_all read ns d = Some (Inr (xss, d')) \<and> inv d' \<and>
      list_all2 (\<lambda>xs n. length xs \<le> n) xss ns \<and> given d' = given d @ concat xss \<and> origin d' = origin d)"
proof (induction ns arbitrary: d)
  case Nil
  then show ?case by simp
next
  case (Cons n ns)
  show ?case
  proof (cases "read n d = Some (Inl failure)")
    case True
    then show ?thesis by simp
  next
    case False
    then obtain xs d1 where r: "read n d = Some (Inr (xs, d1))" "inv d1" "length xs \<le> n"
        "given d1 = given d @ xs" "origin d1 = origin d"
      using read_ok [OF Cons.prems(1), of n] Cons.prems(2) by auto
    from Cons.IH [OF r(2)] Cons.prems(2) r show ?thesis by auto
  qed
qed

end

definition consume_read ::
    "('fmt, 'cc, 'pkt, 'par, 'codec, 'pcm, 'fifo) decoder_api \<Rightarrow> 'pcm \<Rightarrow> nat \<Rightarrow>
     ('fmt, 'cc, 'pkt, 'fifo) AudioFileDecoder \<Rightarrow>
     ('pcm list \<times> ('fmt, 'cc, 'pkt, 'fifo) AudioFileDecoder) result option" where
  \<comment> \<open>\<open>Consume\<close> into a buffer of \<open>n\<close> silent samples; the samples its return value accounts for\<close>
  "consume_read A silence n d =
     (case Consume A (replicate n silence) (int n) d of
        None \<Rightarrow> None
      | Some (Inl e) \<Rightarrow> Some (Inl e)
      | Some (Inr (bytes, buffer, d')) \<Rightarrow>
          Some (Inr (take (nat (bytes div (2 * channel_num A d))) buffer, d')))"

definition reader_inv ::
    "('fmt, 'cc, 'pkt, 'par, 'codec, 'pcm, 'fifo) decoder_api \<Rightarrow> ('fmt, 'cc, 'pkt, 'pcm, 'fifo) decoder_view \<Rightarrow> nat \<Rightarrow>
     ('fmt, 'cc, 'pkt, 'fifo) AudioFileDecoder \<Rightarrow> bool" where
  "reader_inv A V N d \<longleftrightarrow> decoder_contract A V \<and> aligned V d \<and> 0 < channel_num A d \<and>
     in_int32 (int N * 2 * channel_num A d)"

lemma same_stream_channels: "same_stream A V d d' \<Longrightarrow> channel_num A d' = channel_num A d"
  by (simp add: same_stream_def channel_num_def codec_format_def)

interpretation decoder_reader: pcm_reader "reader_inv A V N" "handed V"
    "\<lambda>d. (sent A V d, stream_no d, codec_format A (codec_context d))"
    "consume_read A silence" "CheckFailed ''avcodec_send_packet''" N
  for A V N silence
proof
  fix d n
  assume i: "reader_inv A V N d" and n: "n \<le> N"
  let ?ch = "channel_num A d"
  have ch: "0 < ?ch" using i by (simp add: reader_inv_def)
  have "int n * 2 * ?ch \<le> int N * 2 * ?ch" "0 \<le> int n * 2 * ?ch" using ch n by (auto intro: mult_right_mono)
  then have b: "in_int32 (int n * 2 * ?ch)" using i unfolding reader_inv_def in_int32_def by linarith
  show "consume_read A silence n d = Some (Inl (CheckFailed ''avcodec_send_packet'')) \<or>
    (\<exists>xs d'. consume_read A silence n d = Some (Inr (xs, d')) \<and> reader_inv A V N d' \<and> length xs \<le> n \<and>
      handed V d' = handed V d @ xs \<and>
      (sent A V d', stream_no d', codec_format A (codec_context d')) =
      (sent A V d, stream_no d, codec_format A (codec_context d)))"
  proof (cases "Consume A (replicate n silence) (int n) d = Some (Inl (CheckFailed ''avcodec_send_packet''))")
    case True
    then show ?thesis by (simp add: consume_read_def)
  next
    case False
    then obtain xs d' where r: "Consume A (replicate n silence) (int n) d =
          Some (Inr (int (length xs) * 2 * ?ch, xs @ drop (length xs) (replicate n silence), d'))"
        "length xs \<le> n" "same_stream A V d d'" "aligned V d'" "handed V d' = handed V d @ xs"
      using Consume_ok [of A V d n "replicate n silence"] i b by (auto simp: reader_inv_def)
    have "int (length xs) * 2 * ?ch div (2 * ?ch) = int (length xs)"
      using ch nonzero_mult_div_cancel_right [of "2 * ?ch" "int (length xs)"] by (simp add: mult.assoc)
    then have "consume_read A silence n d = Some (Inr (xs, d'))" by (simp add: consume_read_def r(1))
    moreover have "reader_inv A V N d'" using i r(3,4) by (simp add: reader_inv_def same_stream_channels)
    ultimately show ?thesis using r(2,3,5) by (simp add: same_stream_def)
  qed
qed

section \<open>A library that satisfies the contract\<close>

text \<open>The instance of the witnesses: a packet is a stream number with its samples, a codec accepts
  at most two packets before its frames are received, contexts record their history.\<close>

type_synonym demo_pkt = "int \<times> int list"
type_synonym demo_cc = "demo_pkt list \<times> int list \<times> int list list"

definition demo_send :: "demo_cc \<Rightarrow> demo_pkt \<Rightarrow> int32 \<times> demo_cc" where
  "demo_send cc p = (case cc of (hist, out, pending) \<Rightarrow>
     if 2 \<le> length pending then (AVERROR 11, cc) else (0, (hist @ [p], out, pending @ [snd p])))"

definition demo_receive :: "demo_cc \<Rightarrow> int32 \<times> int list \<times> demo_cc" where
  "demo_receive cc = (case cc of (hist, out, pending) \<Rightarrow>
     (case pending of [] \<Rightarrow> (AVERROR 11, [], cc) | xs # rest \<Rightarrow> (0, xs, (hist, out @ xs, rest))))"

definition demo_av :: "(demo_pkt list, demo_cc, demo_pkt, unit, unit, int, int list) decoder_api" where
  "demo_av =
     \<lparr>errno_EAGAIN = 11, av_frame_alloc = True, av_packet_alloc = True, av_init_packet = (0, []),
      avformat_open_input = (\<lambda>path. (0, [(0, [1, 2, 3]), (1, [9]), (0, [4]), (0, [5, 6]), (0, [7])])),
      avformat_find_stream_info = (\<lambda>fmt. (0, fmt)), av_find_best_stream = (\<lambda>fmt. 0),
      stream_codecpar = (\<lambda>fmt n. ()), codecpar_codec_id = (\<lambda>p. 1),
      avcodec_find_decoder = (\<lambda>i. Some ()), avcodec_alloc_context3 = (\<lambda>c. Some ([], [], [])),
      avcodec_parameters_to_context = (\<lambda>cc p. (0, cc)), avcodec_open2 = (\<lambda>cc c. (0, cc)),
      cc_sample_rate = (\<lambda>cc. 200), cc_sample_fmt = (\<lambda>cc. AV_SAMPLE_FMT_S16), cc_channels = (\<lambda>cc. 1),
      av_read_frame = (\<lambda>fmt. case fmt of [] \<Rightarrow> (av_error AVERROR_EOF, (0, []), []) | p # ps \<Rightarrow> (0, p, ps)),
      pkt_stream_index = fst, av_packet_unref = (\<lambda>p. (0, [])),
      avcodec_send_packet = demo_send, avcodec_receive_frame = demo_receive,
      av_audio_fifo_alloc = (\<lambda>f ch n. Some []), av_audio_fifo_size = (\<lambda>q. int (length q)),
      av_audio_fifo_write = (\<lambda>q xs n. (n, q @ xs)),
      av_audio_fifo_read = (\<lambda>q n. (n, take (nat n) q, drop (nat n) q))\<rparr>"

definition demo_view :: "(demo_pkt list, demo_cc, demo_pkt, int, int list) decoder_view" where
  "demo_view = \<lparr>packets_left = (\<lambda>fmt. fmt), accepted = fst, emitted = (\<lambda>cc. fst (snd cc)),
     frames_left = (\<lambda>cc. length (snd (snd cc))), queued = (\<lambda>q. q)\<rparr>"

lemma demo_av_contract: "decoder_contract demo_av demo_view"
proof -
  have e: "av_error AVERROR_EOF \<noteq> 0" by (simp add: av_error.simps FFERRTAG_def MKTAG_def)
  have "reads_packets demo_av demo_view"
    using e by (auto simp: reads_packets_def demo_av_def demo_view_def split: list.splits)
  moreover have "sends_packets demo_av demo_view"
    using e by (auto simp: sends_packets_def demo_av_def demo_view_def demo_send_def codec_format_def AVERROR_def
        split: if_splits)
  moreover have "receives_frames demo_av demo_view"
    by (auto simp: receives_frames_def demo_av_def demo_view_def demo_receive_def codec_format_def AVERROR_def
        split: list.splits)
  moreover have "queues_samples demo_av demo_view"
    by (auto simp: queues_samples_def demo_av_def demo_view_def)
  ultimately show ?thesis by (simp add: decoder_contract_def)
qed

definition demo_decoder :: "(demo_pkt list, demo_cc, demo_pkt, int list) AudioFileDecoder" where
  "demo_decoder = \<lparr>fifo_capacity = 20, stream_no = 0,
     format_context = [(0, [1, 2, 3]), (1, [9]), (0, [4]), (0, [5, 6]), (0, [7])],
     codec_context = ([], [], []), packet = (0, []), packet_consumed = True, fifo = []\<rparr>"

lemma demo_open: "AudioFileDecoder_open demo_av path = Inr demo_decoder"
proof -
  have "c_mul 10 200 = Inr 2000" "c_div 1000 kFrameDurationInMs = Inr 100" "c_div 2000 100 = Inr 20"
    by (simp_all add: c_mul_def c_int32_def in_int32_def kFrameDurationInMs_def c_div_pos)
  then show ?thesis by (simp add: AudioFileDecoder_open_def demo_av_def demo_decoder_def)
qed

section \<open>Properties\<close>

text \<open>\<open>FillDecoder\<close> returns for every file and codec state. Unless the codec reports an error
  other than "again" and "end of file", which aborts, the packets the codec has accepted,
  the packet waiting and the stream's packets still in the file are together the same sequence as
  before: no packet of the stream is dropped, sent twice or out of order, none of another stream is
  sent; and the loop has stopped because nothing more can be read or the codec refuses input.\<close>

theorem fill_decoder_returns:
  assumes "decoder_contract A V"
  shows "FillDecoder A d = Some (Inl (CheckFailed ''avcodec_send_packet'')) \<or>
    (\<exists>d'. FillDecoder A d = Some (Inr d') \<and> sent A V d' = sent A V d \<and> stopped A d' \<and>
       emitted V (codec_context d') = emitted V (codec_context d) \<and> fifo d' = fifo d)"
  using FillDecoder_ok [OF assms, of d] by (auto simp: same_stream_def)

theorem fill_decoder_returns_witness:
  "\<exists>d'. FillDecoder demo_av demo_decoder = Some (Inr d') \<and>
     sent demo_av demo_view d' = [(0, [1, 2, 3]), (0, [4]), (0, [5, 6]), (0, [7])] \<and> stopped demo_av d' \<and>
     accepted demo_view (codec_context d') = [(0, [1, 2, 3]), (0, [4])]"
proof -
  define d2 where "d2 = demo_decoder\<lparr>format_context := [(0, [7])], packet := (0, [5, 6]), packet_consumed := False,
    codec_context := ([(0, [1, 2, 3]), (0, [4])], [], [[1, 2, 3], [4]])\<rparr>"
  have "FillDecoder demo_av demo_decoder = Some (Inr d2)"
    unfolding d2_def
    by (simp add: FillDecoder.simps FillDecoder_body_def send_packet_def demo_av_def demo_decoder_def demo_send_def
        AVERROR_def Let_def)
  moreover have "sent demo_av demo_view demo_decoder = [(0, [1, 2, 3]), (0, [4]), (0, [5, 6]), (0, [7])]"
    by (simp add: sent_def demo_view_def demo_av_def demo_decoder_def)
  ultimately show ?thesis
    using fill_decoder_returns [OF demo_av_contract, of demo_decoder] by (auto simp: d2_def demo_view_def)
qed



lemma AudioFileDecoder_open_ok:
  assumes "AudioFileDecoder_open A path = Inr d"
  shows "packet_consumed d" "0 \<le> stream_no d"
  using assms by (auto simp: AudioFileDecoder_open_def rbind_eq_Inr Let_def split: prod.splits option.splits)




end
