(* ===== verification/Audio_File_Source.thy ===== *)
theory Audio_File_Source
  imports Audio_File_Decoder
begin

text \<open>
  \<open>AudioFileSource\<close> (\<open>src/src/audio_file_source.cpp\<close>): one frame of decoded samples is taken from
  the decoder, converted by the resampler into the frame's own storage, and scaled. The lemmas show
  that a poll always returns, which answer each case gives, that the conversion stays inside the
  frame's storage, and that the size test of \<open>Read\<close>, which counts two bytes for a decoded sample,
  rejects every read of a format with wider samples.
\<close>

section \<open>The class\<close>

record ('swr, 'fmt, 'cc, 'pkt, 'par, 'codec, 'pcm, 'fifo) file_api =
  lib_swr :: "('swr, 'pcm) swr_api"
  lib_av :: "('fmt, 'cc, 'pkt, 'par, 'codec, 'pcm, 'fifo) decoder_api"
  av_samples_alloc_array_and_samples ::
    "int32 \<Rightarrow> int32 \<Rightarrow> AVSampleFormat \<Rightarrow> int32 \<Rightarrow> int32 \<times> 'pcm list"
    \<comment> \<open>channels, samples, format, alignment; the allocated samples\<close>

record ('swr, 'fmt, 'cc, 'pkt, 'pcm, 'fifo) AudioFileSource = AudioSource +
  fs_ssrc :: int32
  fs_input_sample_rate :: int32
  fs_input_channel_num :: int32
  fs_input_format :: AVSampleFormat
  fs_input_samples :: int32
  fs_output_sample_rate :: int32
  fs_output_channel_num :: int32
  fs_frame_duration_ms :: int32
  fs_report_output_samples :: int32
  fs_real_output_samples :: int32
  fs_input_buffer :: "'pcm list option"
  fs_decoder :: "('fmt, 'cc, 'pkt, 'fifo) AudioFileDecoder"
  fs_resampler :: "'swr AudioResampler"

definition AudioFileSource_ctor ::
    "('swr, 'fmt, 'cc, 'pkt, 'par, 'codec, 'pcm, 'fifo) file_api \<Rightarrow> int32 \<Rightarrow> string \<Rightarrow> int32 \<Rightarrow> int32 \<Rightarrow>
     int32 \<Rightarrow> cfloat \<Rightarrow> ('swr, 'fmt, 'cc, 'pkt, 'pcm, 'fifo) AudioFileSource result option" where
  "AudioFileSource_ctor F ssrc filepath output_sample_rate output_channel_num frame_duration_ms v =
     (case
        rbind (c_div 1000 kFrameDurationInMs) (\<lambda>frames.
        rbind (c_div output_sample_rate frames) (\<lambda>report.
        rbind (c_div 1000 frame_duration_ms) (\<lambda>real_frames.
        rbind (c_div output_sample_rate real_frames) (\<lambda>real_samples. Inr (report, real_frames, real_samples)))))
      of
        Inl e \<Rightarrow> Some (Inl e)
      | Inr (report, real_frames, real_samples) \<Rightarrow>
          (case AudioFileDecoder_ctor (lib_av F) filepath of
             None \<Rightarrow> None
           | Some (Inl e) \<Rightarrow> Some (Inl e)
           | Some (Inr decoder) \<Rightarrow>
               let rate = sample_rate (lib_av F) decoder;
                   channels = channel_num (lib_av F) decoder;
                   format = sample_format (lib_av F) decoder
               in Some (
                    rbind (c_div rate real_frames) (\<lambda>samples.
                    let (error, buffer) = av_samples_alloc_array_and_samples F channels samples format 0 in
                    rbind (rtc_check (0 \<le> error) ''av_samples_alloc_array_and_samples'') (\<lambda>_.
                    rbind (AudioResampler_ctor (lib_swr F) format rate channels kOutputSampleFormat
                             output_sample_rate output_channel_num) (\<lambda>resampler.
                    Inr \<lparr>volume = v, fs_ssrc = ssrc, fs_input_sample_rate = rate,
                         fs_input_channel_num = channels, fs_input_format = format,
                         fs_input_samples = samples, fs_output_sample_rate = output_sample_rate,
                         fs_output_channel_num = output_channel_num,
                         fs_frame_duration_ms = frame_duration_ms, fs_report_output_samples = report,
                         fs_real_output_samples = real_samples, fs_input_buffer = Some buffer,
                         fs_decoder = decoder, fs_resampler = resampler\<rparr>))))))"

definition AudioFileSource_dtor ::
    "('swr, 'fmt, 'cc, 'pkt, 'pcm, 'fifo) AudioFileSource \<Rightarrow> ('swr, 'fmt, 'cc, 'pkt, 'pcm, 'fifo) AudioFileSource" where
  "AudioFileSource_dtor s = s\<lparr>fs_input_buffer := None\<rparr>"

definition Read ::
    "('swr, 'fmt, 'cc, 'pkt, 'par, 'codec, 'pcm, 'fifo) file_api \<Rightarrow> sample list \<Rightarrow>
     ('swr, 'fmt, 'cc, 'pkt, 'pcm, 'fifo) AudioFileSource \<Rightarrow>
     (int32 \<times> sample list \<times> ('swr, 'fmt, 'cc, 'pkt, 'pcm, 'fifo) AudioFileSource) result option" where
  \<comment> \<open>the second argument is the memory behind the caller's output pointer\<close>
  "Read F output s =
     (case fs_input_buffer s of
        None \<Rightarrow> Some (Inl NullPointer)
      | Some input_buffer \<Rightarrow>
          (case Consume (lib_av F) input_buffer (fs_input_samples s) (fs_decoder s) of
             None \<Rightarrow> None
           | Some (Inl e) \<Rightarrow> Some (Inl e)
           | Some (Inr (consumed, input, decoder)) \<Rightarrow>
               let s1 = s\<lparr>fs_input_buffer := Some input, fs_decoder := decoder\<rparr>
               in if consumed \<noteq> av_samples_get_buffer_size (lib_swr F) (fs_input_channel_num s)
                       (fs_input_samples s) (fs_input_format s) 1
                  then Some (Inr (av_error AVERROR_EOF, output, s1))
                  else Some (
                    rbind (Resample (lib_swr F) input consumed output (fs_resampler s1)) (\<lambda>(n, output', r).
                    Inr (n, output', s1\<lparr>fs_resampler := r\<rparr>)))))"

definition GetAudioFrameWithInfo_file ::
    "webrtc_frame_api \<Rightarrow> ('swr, 'fmt, 'cc, 'pkt, 'par, 'codec, 'pcm, 'fifo) file_api \<Rightarrow> int32 \<Rightarrow> AudioFrame \<Rightarrow>
     ('swr, 'fmt, 'cc, 'pkt, 'pcm, 'fifo) AudioFileSource \<Rightarrow>
     (AudioFrameInfo \<times> AudioFrame \<times> ('swr, 'fmt, 'cc, 'pkt, 'pcm, 'fifo) AudioFileSource) result option" where
  "GetAudioFrameWithInfo_file W F hz audio_frame s =
     (if hz \<noteq> fs_output_sample_rate s then Some (Inr (kError, audio_frame, s))
      else
        (case UpdateFrame W 0 None (to_size_t (fs_report_output_samples s)) (fs_output_sample_rate s)
                kNormalSpeech kVadActive (to_size_t (fs_output_channel_num s)) audio_frame of
           Inl e \<Rightarrow> Some (Inl e)
         | Inr f1 \<Rightarrow>
             let f2 = mutable_data W f1 in
             (case Read F (frame_data f2) s of
                None \<Rightarrow> None
              | Some (Inl e) \<Rightarrow> Some (Inl e)
              | Some (Inr (n, output, s')) \<Rightarrow>
                  let f3 = f2\<lparr>frame_data := output\<rparr>
                  in if n < 0 then Some (Inr (kError, f3, s'))
                     else Some (Inr (kNormal, ApplyVolume W s' f3, s')))))"

definition Ssrc_file :: "('swr, 'fmt, 'cc, 'pkt, 'pcm, 'fifo) AudioFileSource \<Rightarrow> int32" where
  "Ssrc_file s = fs_ssrc s"

definition PreferredSampleRate_file :: "('swr, 'fmt, 'cc, 'pkt, 'pcm, 'fifo) AudioFileSource \<Rightarrow> int32" where
  "PreferredSampleRate_file s = fs_output_sample_rate s"

definition input_sample_rate :: "('swr, 'fmt, 'cc, 'pkt, 'pcm, 'fifo) AudioFileSource \<Rightarrow> int32" where
  "input_sample_rate s = fs_input_sample_rate s"

definition input_channel_num :: "('swr, 'fmt, 'cc, 'pkt, 'pcm, 'fifo) AudioFileSource \<Rightarrow> int32" where
  "input_channel_num s = fs_input_channel_num s"

section \<open>Invariant\<close>

definition codec_clean :: "('fmt, 'cc, 'pkt, 'par, 'codec, 'pcm, 'fifo) decoder_api \<Rightarrow> bool" where
  \<comment> \<open>the codec never reports more than "again" or "end of file"\<close>
  "codec_clean A \<longleftrightarrow> (\<forall>cc p. fst (avcodec_send_packet A cc p) \<in> {0, AVERROR (errno_EAGAIN A), av_error AVERROR_EOF})"

definition fs_lib_ok ::
    "('swr, 'fmt, 'cc, 'pkt, 'par, 'codec, 'pcm, 'fifo) file_api \<Rightarrow> ('fmt, 'cc, 'pkt, 'pcm, 'fifo) decoder_view \<Rightarrow>
     ('swr \<Rightarrow> nat) \<Rightarrow> bool" where
  "fs_lib_ok F V outs \<longleftrightarrow> decoder_contract (lib_av F) V \<and> codec_clean (lib_av F) \<and> swr_contract (lib_swr F) outs"

definition fs_sizes_ok :: "('swr, 'fmt, 'cc, 'pkt, 'pcm, 'fifo) AudioFileSource \<Rightarrow> bool" where
  \<comment> \<open>a frame's byte counts are \<open>int\<close>s, and its converted samples fit an \<open>AudioFrame\<close>\<close>
  "fs_sizes_ok s \<longleftrightarrow>
     0 < fs_input_samples s \<and> 0 < fs_input_channel_num s \<and> 0 < documented_bytes (fs_input_format s) \<and>
     in_int32 (fs_input_samples s * 2 * fs_input_channel_num s) \<and>
     in_int32 (fs_input_samples s * fs_input_channel_num s * documented_bytes (fs_input_format s)) \<and>
     0 \<le> fs_output_sample_rate s \<and> 0 < fs_input_sample_rate s \<and>
     in_int32 (rescaled (fs_input_samples s) (fs_output_sample_rate s) (fs_input_sample_rate s)) \<and>
     nat (rescaled (fs_input_samples s) (fs_output_sample_rate s) (fs_input_sample_rate s)) *
       layout_size (fs_output_channel_num s) \<le> kMaxDataSizeSamples"

definition fs_inv ::
    "('swr, 'fmt, 'cc, 'pkt, 'par, 'codec, 'pcm, 'fifo) file_api \<Rightarrow> ('fmt, 'cc, 'pkt, 'pcm, 'fifo) decoder_view \<Rightarrow>
     ('swr \<Rightarrow> nat) \<Rightarrow> ('swr, 'fmt, 'cc, 'pkt, 'pcm, 'fifo) AudioFileSource \<Rightarrow> bool" where
  "fs_inv F V outs s \<longleftrightarrow>
     fs_sizes_ok s \<and> aligned V (fs_decoder s) \<and>
     channel_num (lib_av F) (fs_decoder s) = fs_input_channel_num s \<and>
     (\<exists>b. fs_input_buffer s = Some b \<and> fs_input_samples s \<le> int (length b)) \<and>
     rsm_input_format (fs_resampler s) = fs_input_format s \<and>
     rsm_input_sample_rate (fs_resampler s) = fs_input_sample_rate s \<and>
     rsm_input_channel_num (fs_resampler s) = fs_input_channel_num s \<and>
     rsm_output_sample_rate (fs_resampler s) = fs_output_sample_rate s \<and>
     outs (rsm_context (fs_resampler s)) = layout_size (fs_output_channel_num s)"

lemma FillDecoder_clean:
  assumes C: "decoder_contract A V" and cl: "codec_clean A"
  shows "FillDecoder A d \<noteq> Some (Inl e)"
proof (induction "fill_measure V d" arbitrary: d rule: less_induct)
  case less
  have sp: "send_packet A d' \<noteq> Break (Inl e)" for d'
  proof -
    obtain r cc where "avcodec_send_packet A (codec_context d') (packet d') = (r, cc)" by fastforce
    moreover from this have "r \<in> {0, AVERROR (errno_EAGAIN A), av_error AVERROR_EOF}"
      using cl unfolding codec_clean_def by (metis fst_conv)
    ultimately show ?thesis by (auto simp: send_packet_def Let_def)
  qed
  show ?case
  proof (cases "FillDecoder_body A d")
    case (Break r)
    then have "r \<noteq> Inl e" using sp by (auto simp: FillDecoder_body_def Let_def split: if_splits prod.splits)
    then show ?thesis using Break by (subst FillDecoder.simps) simp
  next
    case (Continue d1)
    then have "fill_measure V d1 < fill_measure V d" using FillDecoder_body_step [OF C, of d] by simp
    then show ?thesis using less Continue by (subst FillDecoder.simps) simp
  qed
qed

lemma Consume_clean:
  assumes "decoder_contract A V" "codec_clean A" "aligned V d" "0 < channel_num A d"
    "n \<le> length buffer" "in_int32 (int n * 2 * channel_num A d)"
  shows "\<exists>xs d'. Consume A buffer (int n) d =
        Some (Inr (int (length xs) * 2 * channel_num A d, xs @ drop (length xs) buffer, d')) \<and>
      length xs \<le> n \<and> same_stream A V d d' \<and> aligned V d' \<and> handed V d' = handed V d @ xs \<and>
      (length xs < n \<longrightarrow> queued V (fifo d') = [])"
proof -
  have "Consume A buffer (int n) d \<noteq> Some (Inl (CheckFailed ''avcodec_send_packet''))"
  proof
    assume a: "Consume A buffer (int n) d = Some (Inl (CheckFailed ''avcodec_send_packet''))"
    obtain d1 where "FillDecoder A d = Some (Inr d1)"
      using FillDecoder_ok [OF assms(1), of d] FillDecoder_clean [OF assms(1,2)] by blast
    moreover obtain d2 where "FillFifo A d1 = Some d2" using FillFifo_ok [OF assms(1), of d1] by blast
    ultimately show False
      using a by (auto simp: Consume_def c_mul_def c_int32_def Let_def split: prod.splits if_splits)
  qed
  then show ?thesis using Consume_ok [OF assms(1,3-6)] by blast
qed

section \<open>Read\<close>

lemma Read_cases:
  assumes L: "fs_lib_ok F V outs" and inv: "fs_inv F V outs s"
    and out: "kMaxDataSizeSamples \<le> length output"
  shows "\<exists>xs d' b. length xs \<le> nat (fs_input_samples s) \<and> handed V d' = handed V (fs_decoder s) @ xs \<and>
    (length xs < nat (fs_input_samples s) \<longrightarrow> queued V (fifo d') = []) \<and>
    fs_inv F V outs (s\<lparr>fs_input_buffer := Some b, fs_decoder := d'\<rparr>) \<and>
    (if int (length xs) * 2 \<noteq> fs_input_samples s * documented_bytes (fs_input_format s)
     then Read F output s =
       Some (Inr (av_error AVERROR_EOF, output, s\<lparr>fs_input_buffer := Some b, fs_decoder := d'\<rparr>))
     else \<exists>q stored x.
       Read F output s = Some (Inr
         (if q < 0 then q else av_samples_get_buffer_size (lib_swr F)
            (rsm_output_channel_num (fs_resampler s)) q (rsm_output_format (fs_resampler s)) 0,
          stored @ drop (length stored) output,
          s\<lparr>fs_input_buffer := Some b, fs_decoder := d', fs_resampler := (fs_resampler s)\<lparr>rsm_context := x\<rparr>\<rparr>)) \<and>
       outs x = layout_size (fs_output_channel_num s) \<and> length stored \<le> kMaxDataSizeSamples)"
proof -
  let ?n = "fs_input_samples s" and ?ch = "fs_input_channel_num s" and ?by = "documented_bytes (fs_input_format s)"
  let ?A = "lib_av F" and ?r = "fs_resampler s"
  obtain b where b: "fs_input_buffer s = Some b" "nat ?n \<le> length b" using inv by (auto simp: fs_inv_def)
  have A: "decoder_contract ?A V" "codec_clean ?A" "swr_contract (lib_swr F) outs" using L by (simp_all add: fs_lib_ok_def)
  have sz: "fs_sizes_ok s" and al: "aligned V (fs_decoder s)" and ch: "channel_num ?A (fs_decoder s) = ?ch"
    using inv by (simp_all add: fs_inv_def)
  have n: "0 < ?n" "int (nat ?n) = ?n" "0 < ?ch" "0 < ?by" using sz by (simp_all add: fs_sizes_ok_def)
  obtain xs d' where c: "Consume ?A b ?n (fs_decoder s) =
        Some (Inr (int (length xs) * 2 * ?ch, xs @ drop (length xs) b, d'))"
      "length xs \<le> nat ?n" "same_stream ?A V (fs_decoder s) d'" "aligned V d'"
      "handed V d' = handed V (fs_decoder s) @ xs" "length xs < nat ?n \<longrightarrow> queued V (fifo d') = []"
    using Consume_clean [OF A(1,2) al, of "nat ?n" b] n b(2) sz ch by (auto simp: fs_sizes_ok_def)
  let ?b = "xs @ drop (length xs) b"
  let ?s = "s\<lparr>fs_input_buffer := Some ?b, fs_decoder := d'\<rparr>"
  have len: "?n \<le> int (length ?b)" using c(2) b(2) n(2) by simp
  have i: "fs_inv F V outs ?s"
    using inv c(3,4) len same_stream_channels [OF c(3)] by (simp add: fs_inv_def fs_sizes_ok_def)
  have gs: "av_samples_get_buffer_size (lib_swr F) ?ch ?n (fs_input_format s) 1 = ?n * ?ch * ?by"
    using A(3) n sz by (simp add: swr_contract_def measures_samples_def fs_sizes_ok_def mult.commute)
  have test: "int (length xs) * 2 * ?ch = ?n * ?ch * ?by \<longleftrightarrow> int (length xs) * 2 = ?n * ?by"
    using n(3) mult_cancel_right [of "int (length xs) * 2" ?ch "?n * ?by"] by (simp add: ac_simps)
  show ?thesis
  proof (cases "int (length xs) * 2 = ?n * ?by")
    case False
    then have "Read F output s = Some (Inr (av_error AVERROR_EOF, output, ?s))"
      using test gs by (simp add: Read_def b(1) c(1) Let_def)
    then show ?thesis using False c i by (intro exI [of _ xs] exI [of _ d'] exI [of _ ?b]) simp
  next
    case True
    then have c1: "Consume ?A b ?n (fs_decoder s) = Some (Inr (?n * ?ch * ?by, ?b, d'))" using c(1) test by simp
    have fl: "rsm_input_channel_num ?r = ?ch" "rsm_input_format ?r = fs_input_format s"
        "rsm_output_sample_rate ?r = fs_output_sample_rate s" "rsm_input_sample_rate ?r = fs_input_sample_rate s"
        "outs (rsm_context ?r) = layout_size (fs_output_channel_num s)"
      using inv by (simp_all add: fs_inv_def)
    let ?up = "rescaled ?n (fs_output_sample_rate s) (fs_input_sample_rate s)"
    have up: "nat ?up * layout_size (fs_output_channel_num s) \<le> kMaxDataSizeSamples" using sz by (simp add: fs_sizes_ok_def)
    obtain q stored x where r: "Resample (lib_swr F) ?b (?n * ?ch * ?by) output ?r =
          Inr (if q < 0 then q else av_samples_get_buffer_size (lib_swr F) (rsm_output_channel_num ?r) q (rsm_output_format ?r) 0,
            stored @ drop (length stored) output, ?r\<lparr>rsm_context := x\<rparr>)"
        "outs x = layout_size (fs_output_channel_num s)"
        "length stored \<le> nat ?up * layout_size (fs_output_channel_num s)"
      using Resample_ok [OF A(3) _ len, of ?r "output", unfolded fl] sz out up by (auto simp: fs_sizes_ok_def)
    have "Read F output s = Some (Inr
         (if q < 0 then q else av_samples_get_buffer_size (lib_swr F) (rsm_output_channel_num ?r) q (rsm_output_format ?r) 0,
          stored @ drop (length stored) output, ?s\<lparr>fs_resampler := ?r\<lparr>rsm_context := x\<rparr>\<rparr>))"
      by (simp add: Read_def b(1) c1 Let_def gs r(1))
    then have "\<exists>q stored x. Read F output s = Some (Inr
         (if q < 0 then q else av_samples_get_buffer_size (lib_swr F) (rsm_output_channel_num ?r) q (rsm_output_format ?r) 0,
          stored @ drop (length stored) output, ?s\<lparr>fs_resampler := ?r\<lparr>rsm_context := x\<rparr>\<rparr>)) \<and>
       outs x = layout_size (fs_output_channel_num s) \<and> length stored \<le> kMaxDataSizeSamples"
      using r(2,3) up by (intro exI conjI) (assumption, assumption, linarith)
    then show ?thesis using True c i by (intro exI [of _ xs] exI [of _ d'] exI [of _ ?b]) simp
  qed
qed

section \<open>GetAudioFrameWithInfo\<close>

definition fs_header ::
    "('swr, 'fmt, 'cc, 'pkt, 'pcm, 'fifo) AudioFileSource \<Rightarrow> size_t \<times> int32 \<times> size_t \<times> SpeechType \<times> VADActivity" where
  "fs_header s = (to_size_t (fs_report_output_samples s), fs_output_sample_rate s,
     to_size_t (fs_output_channel_num s), kNormalSpeech, kVadActive)"

lemma frame_header_data [simp]: "frame_header (f\<lparr>frame_data := xs\<rparr>) = frame_header f"
  by (simp add: frame_header_def)

lemma frame_header_mutable: "frame_contract W \<Longrightarrow> frame_header (mutable_data W f) = frame_header f"
  by (simp add: frame_contract_def data_access_def frame_header_def)

lemma fs_inv_context:
  "fs_inv F V outs s \<Longrightarrow> outs x = layout_size (fs_output_channel_num s) \<Longrightarrow>
   fs_inv F V outs (s\<lparr>fs_resampler := (fs_resampler s)\<lparr>rsm_context := x\<rparr>\<rparr>)"
  by (simp add: fs_inv_def fs_sizes_ok_def)

lemma file_frame_setup:
  assumes W: "frame_contract W" and f: "length (frame_data f) = kMaxDataSizeSamples"
  obtains f1 where "UpdateFrame W 0 None (to_size_t (fs_report_output_samples s)) (fs_output_sample_rate s)
      kNormalSpeech kVadActive (to_size_t (fs_output_channel_num s)) f = Inr f1"
    "frame_header (mutable_data W f1) = fs_header s" "length (frame_data (mutable_data W f1)) = kMaxDataSizeSamples"
proof -
  obtain f1 where u: "UpdateFrame W 0 None (to_size_t (fs_report_output_samples s)) (fs_output_sample_rate s)
      kNormalSpeech kVadActive (to_size_t (fs_output_channel_num s)) f = Inr f1"
    using W unfolding frame_contract_def updates_without_data_def by blast
  from that [OF u] contract_header [OF W u] contract_storage(1) [OF W u f] contract_storage(2) [OF W]
  show thesis by (simp add: frame_header_mutable [OF W] fs_header_def)
qed

lemma GetAudioFrame_file_cases:
  assumes L: "fs_lib_ok F V outs" and inv: "fs_inv F V outs s"
    and W: "frame_contract W" and f: "length (frame_data f) = kMaxDataSizeSamples"
  shows "\<exists>info f' s' xs g. GetAudioFrameWithInfo_file W F (fs_output_sample_rate s) f s = Some (Inr (info, f', s')) \<and>
    fs_inv F V outs s' \<and> volume s' = volume s \<and> fs_header s' = fs_header s \<and>
    fs_output_sample_rate s' = fs_output_sample_rate s \<and>
    length xs \<le> nat (fs_input_samples s) \<and> handed V (fs_decoder s') = handed V (fs_decoder s) @ xs \<and>
    frame_header g = fs_header s \<and> length (frame_data g) = kMaxDataSizeSamples \<and>
    (info = kNormal \<and> f' = ApplyVolume W s' g \<and>
       int (length xs) * 2 = fs_input_samples s * documented_bytes (fs_input_format s) \<or>
     info = kError \<and> f' = g) \<and>
    (length xs < nat (fs_input_samples s) \<longrightarrow> queued V (fifo (fs_decoder s')) = [])"
proof -
  obtain f1 where u: "UpdateFrame W 0 None (to_size_t (fs_report_output_samples s)) (fs_output_sample_rate s)
      kNormalSpeech kVadActive (to_size_t (fs_output_channel_num s)) f = Inr f1"
    and h: "frame_header (mutable_data W f1) = fs_header s"
    and l: "length (frame_data (mutable_data W f1)) = kMaxDataSizeSamples"
    using file_frame_setup [OF W f] by blast
  let ?o = "frame_data (mutable_data W f1)"
  have ge: "kMaxDataSizeSamples \<le> length ?o" using l by simp
  obtain xs d' b where x: "length xs \<le> nat (fs_input_samples s)" "handed V d' = handed V (fs_decoder s) @ xs"
      "length xs < nat (fs_input_samples s) \<longrightarrow> queued V (fifo d') = []"
      "fs_inv F V outs (s\<lparr>fs_input_buffer := Some b, fs_decoder := d'\<rparr>)"
    and r: "if int (length xs) * 2 \<noteq> fs_input_samples s * documented_bytes (fs_input_format s)
     then Read F ?o s = Some (Inr (av_error AVERROR_EOF, ?o, s\<lparr>fs_input_buffer := Some b, fs_decoder := d'\<rparr>))
     else \<exists>q stored x. Read F ?o s = Some (Inr
         (if q < 0 then q else av_samples_get_buffer_size (lib_swr F)
            (rsm_output_channel_num (fs_resampler s)) q (rsm_output_format (fs_resampler s)) 0,
          stored @ drop (length stored) ?o,
          s\<lparr>fs_input_buffer := Some b, fs_decoder := d', fs_resampler := (fs_resampler s)\<lparr>rsm_context := x\<rparr>\<rparr>)) \<and>
       outs x = layout_size (fs_output_channel_num s) \<and> length stored \<le> kMaxDataSizeSamples"
    using Read_cases [OF L inv ge] by (elim exE conjE)
  have neg: "av_error AVERROR_EOF < 0" by (simp add: av_error.simps FFERRTAG_def MKTAG_def)
  show ?thesis
  proof (cases "int (length xs) * 2 = fs_input_samples s * documented_bytes (fs_input_format s)")
    case False
    let ?s = "s\<lparr>fs_input_buffer := Some b, fs_decoder := d'\<rparr>"
    have "GetAudioFrameWithInfo_file W F (fs_output_sample_rate s) f s = Some (Inr (kError, mutable_data W f1, ?s))"
      using False r neg by (simp add: GetAudioFrameWithInfo_file_def u Let_def)
    then show ?thesis using x h l
      by (intro exI [of _ kError] exI [of _ "mutable_data W f1"] exI [of _ ?s] exI [of _ xs] exI [of _ "mutable_data W f1"])
        (simp add: fs_header_def)
  next
    case True
    obtain q stored y where q: "Read F ?o s = Some (Inr
         (if q < 0 then q else av_samples_get_buffer_size (lib_swr F)
            (rsm_output_channel_num (fs_resampler s)) q (rsm_output_format (fs_resampler s)) 0,
          stored @ drop (length stored) ?o,
          s\<lparr>fs_input_buffer := Some b, fs_decoder := d', fs_resampler := (fs_resampler s)\<lparr>rsm_context := y\<rparr>\<rparr>))"
      "outs y = layout_size (fs_output_channel_num s)" "length stored \<le> kMaxDataSizeSamples"
      using r True by auto
    let ?s = "s\<lparr>fs_input_buffer := Some b, fs_decoder := d', fs_resampler := (fs_resampler s)\<lparr>rsm_context := y\<rparr>\<rparr>"
    let ?g = "(mutable_data W f1)\<lparr>frame_data := stored @ drop (length stored) ?o\<rparr>"
    define n where "n = (if q < 0 then q else av_samples_get_buffer_size (lib_swr F)
      (rsm_output_channel_num (fs_resampler s)) q (rsm_output_format (fs_resampler s)) 0)"
    have g: "GetAudioFrameWithInfo_file W F (fs_output_sample_rate s) f s =
        Some (Inr (if n < 0 then (kError, ?g, ?s) else (kNormal, ApplyVolume W ?s ?g, ?s)))"
      using q(1) by (simp add: GetAudioFrameWithInfo_file_def u Let_def n_def)
    have "fs_inv F V outs ?s" using fs_inv_context [OF x(4)] q(2) by simp
    moreover have "length (frame_data ?g) = kMaxDataSizeSamples" using l q(3) by simp
    moreover have "frame_header ?g = fs_header s" using h by simp
    ultimately show ?thesis using g x True
      by (intro exI [of _ "if n < 0 then kError else kNormal"] exI [of _ "if n < 0 then ?g else ApplyVolume W ?s ?g"]
          exI [of _ ?s] exI [of _ xs] exI [of _ ?g]) (simp add: fs_header_def)
  qed
qed

section \<open>The file source as an input of the mixer\<close>

definition fs_ready ::
    "webrtc_frame_api \<Rightarrow> ('swr, 'fmt, 'cc, 'pkt, 'par, 'codec, 'pcm, 'fifo) file_api \<Rightarrow>
     ('fmt, 'cc, 'pkt, 'pcm, 'fifo) decoder_view \<Rightarrow> ('swr \<Rightarrow> nat) \<Rightarrow>
     ('swr, 'fmt, 'cc, 'pkt, 'pcm, 'fifo) AudioFileSource \<Rightarrow> bool" where
  "fs_ready W F V outs s \<longleftrightarrow> frame_contract W \<and> fs_lib_ok F V outs \<and> fs_inv F V outs s"

definition fs_poll ::
    "webrtc_frame_api \<Rightarrow> ('swr, 'fmt, 'cc, 'pkt, 'par, 'codec, 'pcm, 'fifo) file_api \<Rightarrow> int32 \<Rightarrow> AudioFrame \<Rightarrow>
     ('swr, 'fmt, 'cc, 'pkt, 'pcm, 'fifo) AudioFileSource \<Rightarrow>
     (AudioFrameInfo \<times> AudioFrame \<times> ('swr, 'fmt, 'cc, 'pkt, 'pcm, 'fifo) AudioFileSource) result" where
  \<comment> \<open>the answer of a poll, which the lemmas show to exist\<close>
  "fs_poll W F hz f s = the (GetAudioFrameWithInfo_file W F hz f s)"

lemma ApplyVolume_cong: "volume s' = volume s \<Longrightarrow> ApplyVolume W s' = ApplyVolume W s"
  by (simp add: ApplyVolume_def fun_eq_iff)

interpretation file_input: mixer_input "fs_ready W F V outs" PreferredSampleRate_file fs_header
    "ApplyVolume W" "\<lambda>f. length (frame_data f) = kMaxDataSizeSamples" "fs_poll W F"
  for W F V outs
proof
  show "fs_poll W F hz f s = Inr (kError, f, s)" if "hz \<noteq> PreferredSampleRate_file s" for hz s f
    using that by (simp add: fs_poll_def PreferredSampleRate_file_def GetAudioFrameWithInfo_file_def)
next
  fix s and f :: AudioFrame
  assume i: "fs_ready W F V outs s" and f: "length (frame_data f) = kMaxDataSizeSamples"
  then have W: "frame_contract W" and L: "fs_lib_ok F V outs" and inv: "fs_inv F V outs s"
    by (simp_all add: fs_ready_def)
  obtain info f' s' g where r: "GetAudioFrameWithInfo_file W F (fs_output_sample_rate s) f s = Some (Inr (info, f', s'))"
      "fs_inv F V outs s'" "volume s' = volume s" "fs_header s' = fs_header s"
      "fs_output_sample_rate s' = fs_output_sample_rate s" "frame_header g = fs_header s"
      "info = kNormal \<longrightarrow> f' = ApplyVolume W s' g"
    using GetAudioFrame_file_cases [OF L inv W f] by auto
  note v = ApplyVolume_cong [OF r(3), of W]
  show "\<exists>info f' s'. fs_poll W F (PreferredSampleRate_file s) f s = Inr (info, f', s') \<and> fs_ready W F V outs s' \<and>
      PreferredSampleRate_file s' = PreferredSampleRate_file s \<and> fs_header s' = fs_header s \<and>
      ApplyVolume W s' = ApplyVolume W s \<and>
      (info = kNormal \<longrightarrow> (\<exists>g. frame_header g = fs_header s \<and> f' = ApplyVolume W s g))"
  proof (intro exI conjI)
    show "fs_poll W F (PreferredSampleRate_file s) f s = Inr (info, f', s')"
      using r(1) by (simp add: fs_poll_def PreferredSampleRate_file_def)
    show "fs_ready W F V outs s'" using W L r(2) by (simp add: fs_ready_def)
    show "info = kNormal \<longrightarrow> (\<exists>g. frame_header g = fs_header s \<and> f' = ApplyVolume W s g)" using r(6,7) v by auto
  qed (use r(4,5) v in \<open>simp_all add: PreferredSampleRate_file_def\<close>)
qed

section \<open>Properties\<close>

definition demo_file :: "(nat, demo_pkt list, demo_cc, demo_pkt, unit, unit, int, int list) file_api" where
  "demo_file = \<lparr>lib_swr = demo_swr, lib_av = demo_av,
     av_samples_alloc_array_and_samples = (\<lambda>ch n f align. (0, replicate (nat n) 0))\<rparr>"

definition demo_file_source :: "AVSampleFormat \<Rightarrow> (nat, demo_pkt list, demo_cc, demo_pkt, int, int list) AudioFileSource" where
  "demo_file_source fmt = \<lparr>volume = Finite 1, fs_ssrc = 5, fs_input_sample_rate = 200, fs_input_channel_num = 1,
     fs_input_format = fmt, fs_input_samples = 2, fs_output_sample_rate = 200, fs_output_channel_num = 2,
     fs_frame_duration_ms = 10, fs_report_output_samples = 2, fs_real_output_samples = 2,
     fs_input_buffer = Some [0, 0], fs_decoder = demo_decoder,
     fs_resampler = \<lparr>rsm_context = 2, rsm_input_format = fmt, rsm_input_sample_rate = 200,
       rsm_input_channel_num = 1, rsm_output_format = kOutputSampleFormat, rsm_output_sample_rate = 200,
       rsm_output_channel_num = 2\<rparr>\<rparr>"

lemma demo_file_ok: "fs_lib_ok demo_file demo_view (\<lambda>x. x)"
proof -
  have "codec_clean demo_av" by (auto simp: codec_clean_def demo_av_def demo_send_def split: prod.splits)
  then show ?thesis by (simp add: fs_lib_ok_def demo_file_def demo_av_contract demo_swr_contract)
qed

lemma demo_file_source_inv:
  "0 < documented_bytes fmt \<Longrightarrow> fs_inv demo_file demo_view (\<lambda>x. x) (demo_file_source fmt)"
  using documented_bytes_le [of fmt]
  by (simp add: fs_inv_def fs_sizes_ok_def demo_file_source_def aligned_def demo_view_def demo_decoder_def
      channel_num_def demo_file_def demo_av_def rescaled_def layout_size_def in_int32_def kMaxDataSizeSamples_def)

lemma AudioFrame_init_storage: "length (frame_data AudioFrame_init) = kMaxDataSizeSamples"
  by (simp add: AudioFrame_init_def)





lemma div_less_int:
  fixes a b c :: int
  assumes "a < b * c" "0 < b"
  shows "a div b < c"
proof (rule ccontr)
  assume "\<not> a div b < c"
  then have "c * b \<le> a div b * b" using assms(2) by (intro mult_right_mono) simp_all
  moreover have "a div b * b \<le> a" using minus_mod_eq_div_mult [of a b] pos_mod_sign [OF assms(2), of a] by linarith
  ultimately show False using assms(1) by (simp add: mult.commute)
qed

lemma rescaled_frame_bound:
  assumes "0 < k" "0 < rate_in" "0 \<le> rate_out"
  shows "0 \<le> rescaled (rate_in div k) rate_out rate_in" "rescaled (rate_in div k) rate_out rate_in \<le> rate_out div k + 1"
proof -
  let ?n = "rate_in div k" and ?t = "rate_out div k"
  have n: "0 \<le> ?n" using assms by (simp add: pos_imp_zdiv_nonneg_iff)
  have nk: "?n * k \<le> rate_in" using assms(1) minus_mod_eq_div_mult [of rate_in k] pos_mod_sign [of k rate_in] by linarith
  have "rate_out \<le> (?t + 1) * k" using assms(1) div_mult_mod_eq [of rate_out k] pos_mod_bound [of k rate_out]
    unfolding distrib_right by linarith
  then have "?n * rate_out \<le> ?n * ((?t + 1) * k)" using n by (rule mult_left_mono)
  also have "\<dots> = ?n * k * (?t + 1)" by simp
  also have "\<dots> \<le> rate_in * (?t + 1)"
    using nk assms by (intro mult_right_mono) (simp_all add: pos_imp_zdiv_nonneg_iff)
  finally have "?n * rate_out + rate_in - 1 < rate_in * (?t + 2)" by (simp add: distrib_left)
  then have "(?n * rate_out + rate_in - 1) div rate_in < ?t + 2" using assms(2) by (rule div_less_int)
  then show "rescaled ?n rate_out rate_in \<le> ?t + 1" by (simp add: rescaled_def)
  have "0 \<le> ?n * rate_out + rate_in - 1" using mult_nonneg_nonneg [OF n assms(3)] assms(2) by linarith
  then show "0 \<le> rescaled ?n rate_out rate_in" using assms(2) by (simp add: rescaled_def pos_imp_zdiv_nonneg_iff)
qed

lemma frame_bytes_int32:
  assumes "0 \<le> n" "n \<le> rate" "0 < ch" "0 \<le> b" "b \<le> 8" "in_int32 (rate * ch * 8)"
  shows "in_int32 (n * ch * b)" "in_int32 (n * 2 * ch)"
proof -
  have le: "n * ch * b \<le> rate * ch * 8" if "0 \<le> b" "b \<le> 8" for b
    using assms that by (intro mult_mono) simp_all
  have "0 \<le> n * ch * b" using assms by simp
  then show "in_int32 (n * ch * b)" using le [OF assms(4,5)] assms(6) unfolding in_int32_def by linarith
  have "n * 2 * ch = n * ch * 2" "0 \<le> n * ch * 2" using assms by simp_all
  then show "in_int32 (n * 2 * ch)" using le [of 2] assms(6) unfolding in_int32_def by linarith
qed

definition allocates ::
    "('swr, 'fmt, 'cc, 'pkt, 'par, 'codec, 'pcm, 'fifo) file_api \<Rightarrow> bool" where
  \<comment> \<open>a successful allocation has room for the samples asked for\<close>
  "allocates F \<longleftrightarrow> (\<forall>ch n f align e b.
     av_samples_alloc_array_and_samples F ch n f align = (e, b) \<longrightarrow> 0 \<le> e \<longrightarrow> n \<le> int (length b))"

definition opens_fresh ::
    "('fmt, 'cc, 'pkt, 'par, 'codec, 'pcm, 'fifo) decoder_api \<Rightarrow> ('fmt, 'cc, 'pkt, 'pcm, 'fifo) decoder_view \<Rightarrow> string \<Rightarrow> bool" where
  \<comment> \<open>a newly opened codec has produced nothing, a newly allocated FIFO is empty\<close>
  "opens_fresh A V path \<longleftrightarrow> (\<forall>d. AudioFileDecoder_open A path = Inr d \<longrightarrow>
     emitted V (codec_context d) = [] \<and> queued V (fifo d) = [])"

lemma AudioFileDecoder_ctor_aligned:
  assumes "decoder_contract A V" "opens_fresh A V path" "AudioFileDecoder_ctor A path = Some (Inr d)"
  shows "aligned V d"
proof -
  obtain d0 where d0: "AudioFileDecoder_open A path = Inr d0" "FillDecoder A d0 = Some (Inr d)"
    using assms(3) by (cases "AudioFileDecoder_open A path") (auto simp: AudioFileDecoder_ctor_def)
  then show ?thesis using FillDecoder_ok [OF assms(1), of d0] assms(2) by (auto simp: opens_fresh_def aligned_def)
qed

text \<open>Claim C20. Construction establishes the invariant: for a frame duration of 1 to 10 ms, when the
  decoder reports at least one sample for each frame and byte counts that fit an \<open>int\<close>, a file
  source that constructs at all is ready to be polled; one frame converts to at most
  \<open>output_sample_rate / (1000 / frame_duration_ms) + 1\<close> samples for each channel, which is where the bound on
  the output rate comes from.\<close>

theorem file_source_ctor_ready:
  assumes L: "fs_lib_ok F V outs" "allocates F" "opens_fresh (lib_av F) V path"
    and c: "AudioFileSource_ctor F ssrc path sr ch fd v = Some (Inr s)"
    and fd: "0 < fd" "fd \<le> 10" and out: "0 \<le> sr" "in_int32 sr"
      "(sr div (1000 div fd) + 1) * int (layout_size ch) \<le> int kMaxDataSizeSamples"
    and inp: "1000 div fd \<le> fs_input_sample_rate s" "in_int32 (fs_input_sample_rate s)"
      "0 < fs_input_channel_num s" "0 < documented_bytes (fs_input_format s)"
      "in_int32 (fs_input_sample_rate s * fs_input_channel_num s * 8)"
  shows "fs_inv F V outs s \<and>
    rescaled (fs_input_samples s) sr (fs_input_sample_rate s) \<le> sr div (1000 div fd) + 1"
proof -
  let ?A = "lib_av F" and ?k = "1000 div fd" and ?r = "fs_input_sample_rate s"
  have k: "100 \<le> ?k" "?k \<le> 1000" using fd by (simp_all add: frames_per_second div_le_dividend_int)
  have kd: "c_div 1000 fd = Inr ?k" using fd by (simp add: c_div_pos in_int32_def)
  obtain d where d: "AudioFileDecoder_ctor ?A path = Some (Inr d)" "fs_decoder s = d" "sample_rate ?A d = ?r"
      "channel_num ?A d = fs_input_channel_num s" "sample_format ?A d = fs_input_format s"
      "c_div ?r ?k = Inr (fs_input_samples s)" "fs_output_sample_rate s = sr" "fs_output_channel_num s = ch"
      "0 \<le> fst (av_samples_alloc_array_and_samples F (fs_input_channel_num s) (fs_input_samples s) (fs_input_format s) 0) \<and>
       fs_input_buffer s = Some (snd (av_samples_alloc_array_and_samples F (fs_input_channel_num s) (fs_input_samples s) (fs_input_format s) 0))"
      "AudioResampler_ctor (lib_swr F) (fs_input_format s) ?r (fs_input_channel_num s) kOutputSampleFormat sr ch = Inr (fs_resampler s)"
    using c by (auto simp: AudioFileSource_ctor_def kd rbind_eq_Inr Let_def case_prod_beta split: option.splits sum.splits)
  have n: "fs_input_samples s = ?r div ?k" using d(6) k inp(1,2) by (simp add: c_div_pos)
  have pos: "0 < ?r" "0 < ?k" using k inp(1) by simp_all
  have n0: "0 < fs_input_samples s" "fs_input_samples s \<le> ?r"
    using n inp(1) pos by (simp_all add: pos_imp_zdiv_pos_iff div_le_dividend_int)
  note up = rescaled_frame_bound [OF pos(2,1) out(1)]
  note bytes = frame_bytes_int32 [OF order_less_imp_le [OF n0(1)] n0(2) inp(3) _ _ inp(5), of "documented_bytes (fs_input_format s)"]
  have swr: "swr_contract (lib_swr F) outs" "decoder_contract ?A V" using L(1) by (simp_all add: fs_lib_ok_def)
  note rs = AudioResampler_ctor_fields [OF d(10)] AudioResampler_ctor_outs [OF swr(1) d(10)]
  have le: "rescaled (?r div ?k) sr ?r * int (layout_size ch) \<le> int kMaxDataSizeSamples"
    using mult_right_mono [OF up(2), of "int (layout_size ch)"] out(3) by linarith
  have "nat (rescaled (?r div ?k) sr ?r) * layout_size ch \<le> kMaxDataSizeSamples"
    using le up(1) by (metis nat_0_le of_nat_le_iff of_nat_mult)
  moreover have "in_int32 (rescaled (?r div ?k) sr ?r)"
    using up out(2) div_le_dividend_int [OF out(1) pos(2)] le
    by (auto simp: in_int32_def kMaxDataSizeSamples_def layout_size_def split: if_splits)
  ultimately have "fs_sizes_ok s"
    using n0 inp bytes documented_bytes_le [of "fs_input_format s"] out d(7,8) pos n by (simp add: fs_sizes_ok_def)
  moreover have "aligned V d" using AudioFileDecoder_ctor_aligned [OF swr(2) L(3) d(1)] .
  moreover have "\<exists>b. fs_input_buffer s = Some b \<and> fs_input_samples s \<le> int (length b)"
    using d(9) L(2) unfolding allocates_def by (metis prod.collapse)
  ultimately show ?thesis using up(2) n d rs by (simp add: fs_inv_def)
qed

theorem file_source_ctor_ready_witness:
  "\<exists>s. AudioFileSource_ctor demo_file 5 ''music.mp3'' 200 2 10 (Finite 1) = Some (Inr s) \<and>
     fs_inv demo_file demo_view (\<lambda>x. x) s"
proof -
  define d where "d = demo_decoder\<lparr>format_context := [(0, [7])], packet := (0, [5, 6]), packet_consumed := False,
    codec_context := ([(0, [1, 2, 3]), (0, [4])], [], [[1, 2, 3], [4]])\<rparr>"
  have f: "FillDecoder demo_av demo_decoder = Some (Inr d)"
    unfolding d_def
    by (simp add: FillDecoder.simps FillDecoder_body_def send_packet_def demo_av_def demo_decoder_def demo_send_def
        AVERROR_def Let_def)
  have dc: "AudioFileDecoder_ctor demo_av ''music.mp3'' = Some (Inr d)"
    by (simp add: AudioFileDecoder_ctor_def demo_open f)
  have ar: "c_div 1000 kFrameDurationInMs = Inr 100" "c_div 200 100 = Inr 2" "c_div 1000 10 = Inr 100"
    by (simp_all add: c_div_pos in_int32_def kFrameDurationInMs_def)
  have fm: "sample_rate demo_av d = 200" "channel_num demo_av d = 1" "sample_format demo_av d = AV_SAMPLE_FMT_S16"
    by (simp_all add: sample_rate_def channel_num_def sample_format_def demo_av_def)
  obtain r where r: "AudioResampler_ctor demo_swr AV_SAMPLE_FMT_S16 200 1 kOutputSampleFormat 200 2 = Inr r"
    by (simp add: AudioResampler_ctor_def demo_swr_def)
  obtain s where s: "AudioFileSource_ctor demo_file 5 ''music.mp3'' 200 2 10 (Finite 1) = Some (Inr s)"
      "fs_input_sample_rate s = 200" "fs_input_channel_num s = 1" "fs_input_format s = AV_SAMPLE_FMT_S16"
    by (simp add: AudioFileSource_ctor_def demo_file_def dc ar fm r Let_def)
  have "allocates demo_file" by (auto simp: allocates_def demo_file_def)
  moreover have "opens_fresh (lib_av demo_file) demo_view ''music.mp3''"
    by (simp add: opens_fresh_def demo_file_def demo_open) (simp add: demo_view_def demo_decoder_def)
  ultimately show ?thesis
    using file_source_ctor_ready [OF demo_file_ok _ _ s(1)] s
    by (simp add: in_int32_def documented_bytes_def layout_size_def kMaxDataSizeSamples_def)
qed

end
