(* ===== verification/Std_Map.thy ===== *)
theory Std_Map
  imports Mixer_Prelude
begin

text \<open>
  The part of \<open>std::map<int32_t, T>\<close> that the mixer uses for its sources: an association list in
  ascending key order, so that iteration visits the keys in the order the container does.
  \<open>insert\<close> and \<open>emplace\<close> leave an existing key alone. The interface is the locale \<open>ordered_map\<close>;
  its client lemmas are proved once there.
\<close>

section \<open>Operations\<close>

type_synonym 'v omap = "(int32 \<times> 'v) list"

fun map_find :: "int32 \<Rightarrow> 'v omap \<Rightarrow> 'v option" where
  "map_find k [] = None"
| "map_find k ((k', v) # m) = (if k = k' then Some v else map_find k m)"

fun map_insert :: "int32 \<Rightarrow> 'v \<Rightarrow> 'v omap \<Rightarrow> 'v omap" where
  "map_insert k v [] = [(k, v)]"
| "map_insert k v ((k', v') # m) =
     (if k < k' then (k, v) # (k', v') # m
      else if k = k' then (k', v') # m
      else (k', v') # map_insert k v m)"

fun map_erase :: "int32 \<Rightarrow> 'v omap \<Rightarrow> 'v omap" where
  "map_erase k [] = []"
| "map_erase k ((k', v) # m) = (if k = k' then m else (k', v) # map_erase k m)"

definition omap_ok :: "'v omap \<Rightarrow> bool" where
  "omap_ok m \<longleftrightarrow> sorted_wrt (<) (map fst m)"

lemma omap_ok_simps [simp]:
  "omap_ok []" "omap_ok ((k, v) # m) \<longleftrightarrow> (\<forall>x \<in> fst ` set m. k < x) \<and> omap_ok m"
  by (auto simp: omap_ok_def)

lemma fst_map_insert: "fst ` set (map_insert k v m) = insert k (fst ` set m)"
  by (induction m rule: map_insert.induct) auto

lemma fst_map_erase: "fst ` set (map_erase k m) \<subseteq> fst ` set m"
  by (induction m rule: map_erase.induct) auto

lemma map_find_None: "map_find k m = None \<longleftrightarrow> k \<notin> fst ` set m"
  by (induction k m rule: map_find.induct) auto

lemma map_find_set: "omap_ok m \<Longrightarrow> map_find k m = Some v \<longleftrightarrow> (k, v) \<in> set m"
proof (induction k m rule: map_find.induct)
  case (1 k)
  then show ?case by simp
next
  case (2 k k' v' m)
  then show ?case by (cases "k = k'") (force simp: image_iff)+
qed

section \<open>The interface\<close>

locale ordered_map =
  fixes ok :: "'m \<Rightarrow> bool"
    and find :: "int32 \<Rightarrow> 'm \<Rightarrow> 'v option"
    and ins :: "int32 \<Rightarrow> 'v \<Rightarrow> 'm \<Rightarrow> 'm"
    and erase :: "int32 \<Rightarrow> 'm \<Rightarrow> 'm"
    and entries :: "'m \<Rightarrow> (int32 \<times> 'v) list"
  assumes find_ins: "ok m \<Longrightarrow> find k' (ins k v m) =
      (if k' = k then Some (case find k m of None \<Rightarrow> v | Some w \<Rightarrow> w) else find k' m)"
    and find_erase: "ok m \<Longrightarrow> find k' (erase k m) = (if k' = k then None else find k' m)"
    and ok_ins: "ok m \<Longrightarrow> ok (ins k v m)"
    and ok_erase: "ok m \<Longrightarrow> ok (erase k m)"
    and entries_sorted: "ok m \<Longrightarrow> sorted_wrt (<) (map fst (entries m))"
    and entries_find: "ok m \<Longrightarrow> (k, v) \<in> set (entries m) \<longleftrightarrow> find k m = Some v"
begin

lemma entries_unique:
  assumes ok: "ok m" "ok m'" and eq: "\<And>k. find k m = find k m'"
  shows "entries m = entries m'"
proof (rule map_sorted_distinct_set_unique)
  show s: "set (entries m) = set (entries m')"
  proof (rule set_eqI)
    fix x :: "int32 \<times> 'v"
    obtain k v where "x = (k, v)" by (cases x)
    then show "x \<in> set (entries m) \<longleftrightarrow> x \<in> set (entries m')"
      using entries_find [OF ok(1), of k v] entries_find [OF ok(2), of k v] eq by simp
  qed
  show d: "distinct (map fst (entries m))" "distinct (map fst (entries m'))"
    "sorted (map fst (entries m))" "sorted (map fst (entries m'))"
    using entries_sorted [OF ok(1)] entries_sorted [OF ok(2)] by (simp_all add: strict_sorted_iff)
  show "inj_on fst (set (entries m) \<union> set (entries m'))" using d(1) s by (simp add: distinct_map)
qed

lemma ins_absent_erase: "ok m \<Longrightarrow> find k m = None \<Longrightarrow> entries (erase k (ins k v m)) = entries m"
  by (rule entries_unique) (simp_all add: ok_erase ok_ins find_erase find_ins)

lemma ins_present: "ok m \<Longrightarrow> find k m = Some w \<Longrightarrow> entries (ins k v m) = entries m"
  by (rule entries_unique) (simp_all add: ok_ins find_ins)

end

lemma map_find_below: "omap_ok ((k0, v0) # m) \<Longrightarrow> k < k0 \<Longrightarrow> map_find k m = None"
  by (force simp: map_find_None)

lemma map_find_insert:
  assumes "omap_ok m"
  shows "map_find k' (map_insert k v m) =
    (if k' = k then Some (case map_find k m of None \<Rightarrow> v | Some w \<Rightarrow> w) else map_find k' m)"
  using assms
proof (induction k v m rule: map_insert.induct)
  case (1 k v)
  then show ?case by simp
next
  case (2 k v k0 v0 m)
  then show ?case using map_find_below [of k0 v0 m k] by (cases "k' = k") auto
qed

lemma map_find_erase:
  assumes "omap_ok m"
  shows "map_find k' (map_erase k m) = (if k' = k then None else map_find k' m)"
  using assms
proof (induction k m rule: map_erase.induct)
  case (1 k)
  then show ?case by simp
next
  case (2 k k0 v0 m)
  then show ?case using map_find_None [of k0 m] by (cases "k = k0") auto
qed

lemma omap_ok_insert: "omap_ok m \<Longrightarrow> omap_ok (map_insert k v m)"
proof (induction k v m rule: map_insert.induct)
  case (2 k v k0 v0 m)
  then show ?case using fst_map_insert [of k v m] by (auto simp: ball_Un)
qed simp

lemma omap_ok_erase: "omap_ok m \<Longrightarrow> omap_ok (map_erase k m)"
proof (induction k m rule: map_erase.induct)
  case (2 k k0 v0 m)
  then show ?case using fst_map_erase [of k m] by (auto simp: subset_iff image_iff) force
qed simp

interpretation source_map: ordered_map omap_ok map_find map_insert map_erase "\<lambda>m. m"
  by unfold_locales
    (simp_all add: map_find_insert map_find_erase omap_ok_insert omap_ok_erase map_find_set, simp add: omap_ok_def)

section \<open>Properties\<close>

text \<open>Inserting under a new key and erasing it again gives back the same map, and inserting
  under an existing key changes nothing: the first value stays.\<close>

theorem source_map_laws:
  assumes "omap_ok m"
  shows "(map_find k m = None \<longrightarrow> map_erase k (map_insert k v m) = m) \<and>
    (map_find k m \<noteq> None \<longrightarrow> map_insert k v m = m) \<and>
    sorted_wrt (<) (map fst (map_insert k v m)) \<and>
    map_find k (map_erase k m) = None"
  using assms source_map.ins_absent_erase [OF assms] source_map.ins_present [OF assms]
    source_map.entries_sorted [OF source_map.ok_ins [OF assms]] source_map.find_erase [OF assms] by auto

theorem source_map_laws_witness:
  "map_erase 2 (map_insert 2 ''b'' [(1, ''a''), (3, ''c'')]) = [(1, ''a''), (3, ''c'')] \<and>
   map_insert 3 ''b'' [(1, ''a''), (3, ''c'')] = [(1, ''a''), (3, ''c'')]"
proof -
  have ok: "omap_ok [(1, ''a''), (3, ''c'')]" by simp
  show ?thesis using source_map_laws [OF ok, of 2] source_map_laws [OF ok, of 3] by simp
qed

end
