(* ===== verification/Audio_Mixer.thy ===== *)
theory Audio_Mixer
  imports Audio_File_Source Std_Map
begin

text \<open>
  \<open>AudioMixer\<close> (\<open>src/src/audio_mixer.cpp\<close>), the object behind the public interface: it owns the
  sources in a \<open>std::map\<close> of shared pointers and registers their raw pointers with the WebRTC
  mixer, which polls them in \<open>Mix\<close>. Ownership matters, so sources live in an explicit store:
  an address is live while the map holds it (or a local shared pointer does), and a pointer that
  the WebRTC mixer still has after that is dangling. The WebRTC mixer is a parameter
  (\<open>lib_Create\<close>, \<open>lib_AddSource\<close>, \<open>lib_RemoveSource\<close>, \<open>lib_Mix\<close>); \<open>api/audio/audio_mixer.h\<close>
  documents what \<open>registers\<close> and \<open>mixes\<close> say of it.
\<close>

section \<open>Configuration\<close>

definition TYPE_FILE :: int32 where
  "TYPE_FILE = 1"

definition TYPE_RECORD :: int32 where
  "TYPE_RECORD = 2"

record MixerSource =
  src_type :: int32
  src_ssrc :: int32
  src_volume :: cfloat
  src_path :: string
  src_sample_rate :: int32
  src_channel_num :: int32

record MixerConfig =
  cfg_sources :: "MixerSource list"
  cfg_output_sample_rate :: int32
  cfg_output_channel_num :: int32
  cfg_frame_duration_ms :: int32

section \<open>State\<close>

datatype ('swr, 'fmt, 'cc, 'pkt, 'pcm, 'fifo) source =
    RecordSource AudioRecordSource
  | FileSource "('swr, 'fmt, 'cc, 'pkt, 'pcm, 'fifo) AudioFileSource"

type_synonym ('swr, 'fmt, 'cc, 'pkt, 'pcm, 'fifo) store =
  "nat \<Rightarrow> ('swr, 'fmt, 'cc, 'pkt, 'pcm, 'fifo) source option"

record ('w, 'swr, 'fmt, 'cc, 'pkt, 'par, 'codec, 'pcm, 'fifo) mixer_env =
  env_frame :: webrtc_frame_api
  env_buf :: bufcfg
  env_file :: "('swr, 'fmt, 'cc, 'pkt, 'par, 'codec, 'pcm, 'fifo) file_api"
  lib_Create :: 'w
  lib_AddSource :: "nat \<Rightarrow> 'w \<Rightarrow> bool \<times> 'w"
  lib_RemoveSource :: "nat \<Rightarrow> 'w \<Rightarrow> 'w"
  lib_Mix :: "size_t \<Rightarrow>
    (nat \<Rightarrow> ('swr, 'fmt, 'cc, 'pkt, 'pcm, 'fifo) store \<Rightarrow> int32 result) \<Rightarrow>
    (nat \<Rightarrow> int32 \<Rightarrow> AudioFrame \<Rightarrow> ('swr, 'fmt, 'cc, 'pkt, 'pcm, 'fifo) store \<Rightarrow>
      (AudioFrameInfo \<times> AudioFrame \<times> ('swr, 'fmt, 'cc, 'pkt, 'pcm, 'fifo) store) result option) \<Rightarrow>
    ('swr, 'fmt, 'cc, 'pkt, 'pcm, 'fifo) store \<Rightarrow> AudioFrame \<Rightarrow> 'w \<Rightarrow>
    (AudioFrame \<times> ('swr, 'fmt, 'cc, 'pkt, 'pcm, 'fifo) store \<times> 'w) result option"
    \<comment> \<open>channels, \<open>PreferredSampleRate\<close> and \<open>GetAudioFrameWithInfo\<close> of a pointer, the store, the
        frame to fill\<close>

record ('w, 'swr, 'fmt, 'cc, 'pkt, 'pcm, 'fifo) AudioMixer =
  mx_lib :: 'w
  mx_sources :: "nat omap"
  mx_heap :: "('swr, 'fmt, 'cc, 'pkt, 'pcm, 'fifo) store"
  mx_next :: nat
  mx_mixed_frame :: AudioFrame
  mx_output_sample_rate :: int32
  mx_output_channel_num :: int32
  mx_frame_duration_ms :: int32
  mx_report_output_samples :: int32
  mx_real_output_samples :: int32

section \<open>Virtual calls through a source pointer\<close>

definition PreferredSampleRate_ptr ::
    "nat \<Rightarrow> ('swr, 'fmt, 'cc, 'pkt, 'pcm, 'fifo) store \<Rightarrow> int32 result" where
  "PreferredSampleRate_ptr p h =
     (case h p of
        None \<Rightarrow> Inl UseAfterFree
      | Some (RecordSource s) \<Rightarrow> Inr (PreferredSampleRate_record s)
      | Some (FileSource s) \<Rightarrow> Inr (PreferredSampleRate_file s))"

definition GetAudioFrame_ptr ::
    "('w, 'swr, 'fmt, 'cc, 'pkt, 'par, 'codec, 'pcm, 'fifo) mixer_env \<Rightarrow> nat \<Rightarrow> int32 \<Rightarrow> AudioFrame \<Rightarrow>
     ('swr, 'fmt, 'cc, 'pkt, 'pcm, 'fifo) store \<Rightarrow>
     (AudioFrameInfo \<times> AudioFrame \<times> ('swr, 'fmt, 'cc, 'pkt, 'pcm, 'fifo) store) result option" where
  "GetAudioFrame_ptr E p hz f h =
     (case h p of
        None \<Rightarrow> Some (Inl UseAfterFree)
      | Some (RecordSource s) \<Rightarrow>
          Some (rbind (GetAudioFrameWithInfo_record (env_frame E) (env_buf E) hz f s) (\<lambda>(info, f', s').
                Inr (info, f', h(p \<mapsto> RecordSource s'))))
      | Some (FileSource s) \<Rightarrow>
          (case GetAudioFrameWithInfo_file (env_frame E) (env_file E) hz f s of
             None \<Rightarrow> None
           | Some r \<Rightarrow> Some (rbind r (\<lambda>(info, f', s'). Inr (info, f', h(p \<mapsto> FileSource s'))))))"

definition set_volume ::
    "cfloat \<Rightarrow> ('swr, 'fmt, 'cc, 'pkt, 'pcm, 'fifo) source \<Rightarrow> ('swr, 'fmt, 'cc, 'pkt, 'pcm, 'fifo) source" where
  \<comment> \<open>\<open>AudioSource::UpdateVolume\<close>, inherited by both classes\<close>
  "set_volume v obj = (case obj of
     RecordSource s \<Rightarrow> RecordSource (UpdateVolume v s) | FileSource s \<Rightarrow> FileSource (UpdateVolume v s))"

section \<open>The methods\<close>

definition release ::
    "nat \<Rightarrow> ('w, 'swr, 'fmt, 'cc, 'pkt, 'pcm, 'fifo) AudioMixer \<Rightarrow> ('w, 'swr, 'fmt, 'cc, 'pkt, 'pcm, 'fifo) AudioMixer" where
  \<comment> \<open>a shared pointer goes out of scope: the object is destroyed unless the map holds it\<close>
  "release p m = (if p \<in> snd ` set (mx_sources m) then m else m\<lparr>mx_heap := (mx_heap m)(p := None)\<rparr>)"

definition make_shared ::
    "int32 \<Rightarrow> ('swr, 'fmt, 'cc, 'pkt, 'pcm, 'fifo) source \<Rightarrow> ('w, 'swr, 'fmt, 'cc, 'pkt, 'pcm, 'fifo) AudioMixer \<Rightarrow>
     nat \<times> ('w, 'swr, 'fmt, 'cc, 'pkt, 'pcm, 'fifo) AudioMixer" where
  \<comment> \<open>\<open>std::make_shared\<close> at a new address and \<open>insert\<close> into the map\<close>
  "make_shared ssrc obj m =
     (mx_next m, m\<lparr>mx_heap := (mx_heap m)(mx_next m \<mapsto> obj), mx_next := mx_next m + 1,
        mx_sources := map_insert ssrc (mx_next m) (mx_sources m)\<rparr>)"

definition DoAddSource ::
    "('w, 'swr, 'fmt, 'cc, 'pkt, 'par, 'codec, 'pcm, 'fifo) mixer_env \<Rightarrow> MixerSource \<Rightarrow>
     ('w, 'swr, 'fmt, 'cc, 'pkt, 'pcm, 'fifo) AudioMixer \<Rightarrow>
     (nat \<times> ('w, 'swr, 'fmt, 'cc, 'pkt, 'pcm, 'fifo) AudioMixer) result option" where
  "DoAddSource E source m =
     (if src_type source = TYPE_RECORD then
        Some (
          rbind (rtc_check (src_sample_rate source = mx_output_sample_rate m)
                   ''record source must have the same sample rate as output'') (\<lambda>_.
          rbind (rtc_check (src_channel_num source = mx_output_channel_num m)
                   ''record source must have the same channels as output'') (\<lambda>_.
          rbind (AudioRecordSource_ctor (env_buf E) (src_ssrc source) (mx_output_sample_rate m)
                   (mx_output_channel_num m) (mx_frame_duration_ms m) (src_volume source)) (\<lambda>s.
          Inr (make_shared (src_ssrc source) (RecordSource s) m)))))
      else
        (case AudioFileSource_ctor (env_file E) (src_ssrc source) (src_path source) (mx_output_sample_rate m)
                (mx_output_channel_num m) (mx_frame_duration_ms m) (src_volume source) of
           None \<Rightarrow> None
         | Some r \<Rightarrow> Some (rbind r (\<lambda>s. Inr (make_shared (src_ssrc source) (FileSource s) m)))))"

definition AddSource ::
    "('w, 'swr, 'fmt, 'cc, 'pkt, 'par, 'codec, 'pcm, 'fifo) mixer_env \<Rightarrow> MixerSource \<Rightarrow>
     ('w, 'swr, 'fmt, 'cc, 'pkt, 'pcm, 'fifo) AudioMixer \<Rightarrow>
     (bool \<times> ('w, 'swr, 'fmt, 'cc, 'pkt, 'pcm, 'fifo) AudioMixer) result option" where
  "AddSource E source m =
     (case DoAddSource E source m of
        None \<Rightarrow> None
      | Some r \<Rightarrow> Some (rbind r (\<lambda>(p, m1).
          Inr (True, release p (m1\<lparr>mx_lib := snd (lib_AddSource E p (mx_lib m1))\<rparr>)))))"

definition RemoveSource ::
    "('w, 'swr, 'fmt, 'cc, 'pkt, 'par, 'codec, 'pcm, 'fifo) mixer_env \<Rightarrow> int32 \<Rightarrow>
     ('w, 'swr, 'fmt, 'cc, 'pkt, 'pcm, 'fifo) AudioMixer \<Rightarrow>
     bool \<times> ('w, 'swr, 'fmt, 'cc, 'pkt, 'pcm, 'fifo) AudioMixer" where
  "RemoveSource E ssrc m =
     (case map_find ssrc (mx_sources m) of
        None \<Rightarrow> (False, m)
      | Some p \<Rightarrow>
          (True, release p (m\<lparr>mx_lib := lib_RemoveSource E p (mx_lib m),
                             mx_sources := map_erase ssrc (mx_sources m)\<rparr>)))"

definition UpdateVolume_mixer ::
    "int32 \<Rightarrow> cfloat \<Rightarrow> ('w, 'swr, 'fmt, 'cc, 'pkt, 'pcm, 'fifo) AudioMixer \<Rightarrow>
     ('w, 'swr, 'fmt, 'cc, 'pkt, 'pcm, 'fifo) AudioMixer result" where
  "UpdateVolume_mixer ssrc v m =
     (case map_find ssrc (mx_sources m) of
        None \<Rightarrow> Inr m
      | Some p \<Rightarrow>
          (case mx_heap m p of
             None \<Rightarrow> Inl UseAfterFree
           | Some obj \<Rightarrow> Inr (m\<lparr>mx_heap := (mx_heap m)(p \<mapsto> set_volume v obj)\<rparr>)))"

definition AddRecordedData ::
    "('w, 'swr, 'fmt, 'cc, 'pkt, 'par, 'codec, 'pcm, 'fifo) mixer_env \<Rightarrow> int32 \<Rightarrow> sample cells \<Rightarrow> int32 \<Rightarrow>
     ('w, 'swr, 'fmt, 'cc, 'pkt, 'pcm, 'fifo) AudioMixer \<Rightarrow>
     ('w, 'swr, 'fmt, 'cc, 'pkt, 'pcm, 'fifo) AudioMixer result" where
  \<comment> \<open>the cast to \<open>AudioRecordSource*\<close> is unchecked\<close>
  "AddRecordedData E ssrc data n m =
     (case map_find ssrc (mx_sources m) of
        None \<Rightarrow> Inr m
      | Some p \<Rightarrow>
          (case mx_heap m p of
             None \<Rightarrow> Inl UseAfterFree
           | Some (FileSource s) \<Rightarrow> Inl TypeConfusion
           | Some (RecordSource s) \<Rightarrow>
               rbind (OnAudioRecorded (env_buf E) data n s) (\<lambda>s'.
               Inr (m\<lparr>mx_heap := (mx_heap m)(p \<mapsto> RecordSource s')\<rparr>))))"

definition Mix ::
    "('w, 'swr, 'fmt, 'cc, 'pkt, 'par, 'codec, 'pcm, 'fifo) mixer_env \<Rightarrow> sample list \<Rightarrow>
     ('w, 'swr, 'fmt, 'cc, 'pkt, 'pcm, 'fifo) AudioMixer \<Rightarrow>
     (int32 \<times> sample list \<times> ('w, 'swr, 'fmt, 'cc, 'pkt, 'pcm, 'fifo) AudioMixer) result option" where
  \<comment> \<open>the second argument is the caller's memory; \<open>memcpy\<close> counts bytes, two for a sample\<close>
  "Mix E output_buffer m =
     (case lib_Mix E (to_size_t (mx_output_channel_num m)) PreferredSampleRate_ptr (GetAudioFrame_ptr E)
             (mx_heap m) (mx_mixed_frame m) (mx_lib m) of
        None \<Rightarrow> None
      | Some (Inl e) \<Rightarrow> Some (Inl e)
      | Some (Inr (f, h, w)) \<Rightarrow>
          let n = av_samples_get_buffer_size (lib_swr (env_file E)) (mx_output_channel_num m)
                    (mx_real_output_samples m) kOutputSampleFormat 1;
              k = (to_size_t n + 1) div 2;
              data = frame_samples (env_frame E) f
          in Some (if length data < k \<or> length output_buffer < k then Inl OutOfBounds
                   else Inr (n, take k data @ drop k output_buffer,
                             m\<lparr>mx_lib := w, mx_heap := h, mx_mixed_frame := f\<rparr>)))"

fun add_all ::
    "('w, 'swr, 'fmt, 'cc, 'pkt, 'par, 'codec, 'pcm, 'fifo) mixer_env \<Rightarrow> MixerSource list \<Rightarrow>
     ('w, 'swr, 'fmt, 'cc, 'pkt, 'pcm, 'fifo) AudioMixer \<Rightarrow>
     ('w, 'swr, 'fmt, 'cc, 'pkt, 'pcm, 'fifo) AudioMixer result option" where
  \<comment> \<open>the constructor's loop over \<open>config.sources\<close>: the returned pointers are dropped\<close>
  "add_all E [] m = Some (Inr m)"
| "add_all E (source # rest) m =
     (case DoAddSource E source m of
        None \<Rightarrow> None
      | Some (Inl e) \<Rightarrow> Some (Inl e)
      | Some (Inr (p, m1)) \<Rightarrow> add_all E rest (release p m1))"

definition register_all ::
    "('w, 'swr, 'fmt, 'cc, 'pkt, 'par, 'codec, 'pcm, 'fifo) mixer_env \<Rightarrow>
     ('w, 'swr, 'fmt, 'cc, 'pkt, 'pcm, 'fifo) AudioMixer \<Rightarrow> ('w, 'swr, 'fmt, 'cc, 'pkt, 'pcm, 'fifo) AudioMixer" where
  "register_all E m = m\<lparr>mx_lib := fold (\<lambda>(k, p) w. snd (lib_AddSource E p w)) (mx_sources m) (mx_lib m)\<rparr>"

definition AudioMixer_ctor ::
    "('w, 'swr, 'fmt, 'cc, 'pkt, 'par, 'codec, 'pcm, 'fifo) mixer_env \<Rightarrow> MixerConfig \<Rightarrow>
     ('w, 'swr, 'fmt, 'cc, 'pkt, 'pcm, 'fifo) AudioMixer result option" where
  "AudioMixer_ctor E config =
     (case
        rbind (rtc_check (cfg_frame_duration_ms config \<le> kFrameDurationInMs) ''frame duration too long'') (\<lambda>_.
        rbind (c_div 1000 kFrameDurationInMs) (\<lambda>frames.
        rbind (c_div (cfg_output_sample_rate config) frames) (\<lambda>report.
        rbind (c_div 1000 (cfg_frame_duration_ms config)) (\<lambda>real_frames.
        rbind (c_div (cfg_output_sample_rate config) real_frames) (\<lambda>real_samples. Inr (report, real_samples))))))
      of
        Inl e \<Rightarrow> Some (Inl e)
      | Inr (report, real_samples) \<Rightarrow>
          (case add_all E (cfg_sources config)
                  \<lparr>mx_lib = lib_Create E, mx_sources = [], mx_heap = Map.empty, mx_next = 0,
                   mx_mixed_frame = AudioFrame_init,
                   mx_output_sample_rate = cfg_output_sample_rate config,
                   mx_output_channel_num = cfg_output_channel_num config,
                   mx_frame_duration_ms = cfg_frame_duration_ms config,
                   mx_report_output_samples = report, mx_real_output_samples = real_samples\<rparr> of
             None \<Rightarrow> None
           | Some (Inl e) \<Rightarrow> Some (Inl e)
           | Some (Inr m) \<Rightarrow>
               let m1 = register_all E m in
               Some (rbind (UpdateFrame (env_frame E) 0 None (to_size_t report) (cfg_output_sample_rate config)
                              kUndefined kVadUnknown (to_size_t (cfg_output_channel_num config))
                              (mx_mixed_frame m1)) (\<lambda>f.
                     Inr (m1\<lparr>mx_mixed_frame := f\<rparr>)))))"

definition Create ::
    "('w, 'swr, 'fmt, 'cc, 'pkt, 'par, 'codec, 'pcm, 'fifo) mixer_env \<Rightarrow> MixerConfig \<Rightarrow>
     ('w, 'swr, 'fmt, 'cc, 'pkt, 'pcm, 'fifo) AudioMixer result option" where
  "Create E config = AudioMixer_ctor E config"

definition AudioMixer_dtor ::
    "('w, 'swr, 'fmt, 'cc, 'pkt, 'par, 'codec, 'pcm, 'fifo) mixer_env \<Rightarrow>
     ('w, 'swr, 'fmt, 'cc, 'pkt, 'pcm, 'fifo) AudioMixer \<Rightarrow> ('w, 'swr, 'fmt, 'cc, 'pkt, 'pcm, 'fifo) AudioMixer" where
  "AudioMixer_dtor E m =
     m\<lparr>mx_lib := fold (\<lambda>(k, p) w. lib_RemoveSource E p w) (mx_sources m) (mx_lib m),
       mx_sources := [],
       mx_heap := (\<lambda>p. if p \<in> snd ` set (mx_sources m) then None else mx_heap m p)\<rparr>"

section \<open>What the WebRTC mixer promises\<close>

definition registers ::
    "('w, 'swr, 'fmt, 'cc, 'pkt, 'par, 'codec, 'pcm, 'fifo) mixer_env \<Rightarrow> ('w \<Rightarrow> nat list) \<Rightarrow> bool" where
  \<comment> \<open>\<open>reg\<close> reads the registered pointers\<close>
  "registers E reg \<longleftrightarrow>
     reg (lib_Create E) = [] \<and>
     (\<forall>p w. p \<notin> set (reg w) \<longrightarrow> reg (snd (lib_AddSource E p w)) = reg w @ [p]) \<and>
     (\<forall>p w. p \<in> set (reg w) \<longrightarrow> reg (lib_RemoveSource E p w) = filter (\<lambda>q. q \<noteq> p) (reg w))"

definition mix_effects ::
    "('w, 'swr, 'fmt, 'cc, 'pkt, 'par, 'codec, 'pcm, 'fifo) mixer_env \<Rightarrow> ('w \<Rightarrow> nat list) \<Rightarrow> bool" where
  \<comment> \<open>the store changes only through polls of registered sources\<close>
  "mix_effects E reg \<longleftrightarrow>
     (\<forall>I n pref get h f w f' h' w'.
        I h \<longrightarrow> (\<forall>p \<in> set (reg w). \<forall>hz g k a g' k'. I k \<longrightarrow> length (frame_data g) = kMaxDataSizeSamples \<longrightarrow>
          get p hz g k = Some (Inr (a, g', k')) \<longrightarrow> I k') \<longrightarrow>
        length (frame_data f) = kMaxDataSizeSamples \<longrightarrow> lib_Mix E n pref get h f w = Some (Inr (f', h', w')) \<longrightarrow>
        I h' \<and> reg w' = reg w \<and> length (frame_data f') = kMaxDataSizeSamples)"

definition mix_total ::
    "('w, 'swr, 'fmt, 'cc, 'pkt, 'par, 'codec, 'pcm, 'fifo) mixer_env \<Rightarrow> ('w \<Rightarrow> nat list) \<Rightarrow> bool" where
  \<comment> \<open>if every registered source answers, mixing returns\<close>
  "mix_total E reg \<longleftrightarrow>
     (\<forall>I n pref get h f w.
        I h \<longrightarrow> length (frame_data f) = kMaxDataSizeSamples \<longrightarrow>
        (\<forall>p \<in> set (reg w). \<forall>k. I k \<longrightarrow> (\<exists>r. pref p k = Inr r) \<and>
           (\<forall>hz g. length (frame_data g) = kMaxDataSizeSamples \<longrightarrow>
              (\<exists>a g' k'. get p hz g k = Some (Inr (a, g', k')) \<and> I k'))) \<longrightarrow>
        (\<exists>f' h' w'. lib_Mix E n pref get h f w = Some (Inr (f', h', w'))))"

definition mix_asks_all ::
    "('w, 'swr, 'fmt, 'cc, 'pkt, 'par, 'codec, 'pcm, 'fifo) mixer_env \<Rightarrow> ('w \<Rightarrow> nat list) \<Rightarrow> bool" where
  \<comment> \<open>every registered source is asked for its preferred rate\<close>
  "mix_asks_all E reg \<longleftrightarrow>
     (\<forall>n pref get h f w.
        (\<exists>p \<in> set (reg w). pref p h = Inl UseAfterFree) \<longrightarrow>
        (\<forall>p \<in> set (reg w). pref p h = Inl UseAfterFree \<or> (\<exists>r. pref p h = Inr r)) \<longrightarrow>
        lib_Mix E n pref get h f w = Some (Inl UseAfterFree))"

definition mixer_contract ::
    "('w, 'swr, 'fmt, 'cc, 'pkt, 'par, 'codec, 'pcm, 'fifo) mixer_env \<Rightarrow> ('w \<Rightarrow> nat list) \<Rightarrow> bool" where
  "mixer_contract E reg \<longleftrightarrow> registers E reg \<and> mix_effects E reg \<and> mix_total E reg \<and> mix_asks_all E reg \<and>
     frame_contract (env_frame E)"

section \<open>Ownership invariant\<close>

definition source_ssrc :: "('swr, 'fmt, 'cc, 'pkt, 'pcm, 'fifo) source \<Rightarrow> int32" where
  "source_ssrc obj = (case obj of RecordSource s \<Rightarrow> Ssrc_record s | FileSource s \<Rightarrow> Ssrc_file s)"

definition owned ::
    "nat omap \<Rightarrow> ('swr, 'fmt, 'cc, 'pkt, 'pcm, 'fifo) store \<Rightarrow> bool" where
  \<comment> \<open>the live objects are the ones the map holds, each under its own \<open>ssrc\<close>\<close>
  "owned ss h \<longleftrightarrow> dom h = snd ` set ss \<and> (\<forall>(k, p) \<in> set ss. \<forall>obj. h p = Some obj \<longrightarrow> source_ssrc obj = k)"

definition mx_shape ::
    "('w \<Rightarrow> nat list) \<Rightarrow> ('w, 'swr, 'fmt, 'cc, 'pkt, 'pcm, 'fifo) AudioMixer \<Rightarrow> bool" where
  "mx_shape reg m \<longleftrightarrow>
     omap_ok (mx_sources m) \<and> distinct (map snd (mx_sources m)) \<and> owned (mx_sources m) (mx_heap m) \<and>
     (\<forall>p \<in> snd ` set (mx_sources m). p < mx_next m) \<and>
     set (reg (mx_lib m)) = snd ` set (mx_sources m) \<and> distinct (reg (mx_lib m)) \<and>
     length (frame_data (mx_mixed_frame m)) = kMaxDataSizeSamples"

lemma mx_shapeD:
  assumes "mx_shape reg m"
  shows "omap_ok (mx_sources m)" "distinct (map snd (mx_sources m))" "dom (mx_heap m) = snd ` set (mx_sources m)"
    "\<And>p. p \<in> snd ` set (mx_sources m) \<Longrightarrow> p < mx_next m" "set (reg (mx_lib m)) = snd ` set (mx_sources m)"
    "distinct (reg (mx_lib m))" "length (frame_data (mx_mixed_frame m)) = kMaxDataSizeSamples"
    "\<And>k p obj. (k, p) \<in> set (mx_sources m) \<Longrightarrow> mx_heap m p = Some obj \<Longrightarrow> source_ssrc obj = k"
  using assms by (auto simp: mx_shape_def owned_def)

lemma find_live:
  assumes "mx_shape reg m" "map_find k (mx_sources m) = Some p"
  obtains obj where "mx_heap m p = Some obj" "source_ssrc obj = k" "p \<in> set (reg (mx_lib m))"
proof -
  have "(k, p) \<in> set (mx_sources m)" using assms map_find_set [OF mx_shapeD(1)] by blast
  moreover from this have "p \<in> dom (mx_heap m)" using mx_shapeD(3) [OF assms(1)] by force
  ultimately show thesis using that mx_shapeD(5,8) [OF assms(1)] by force
qed

section \<open>What each method does to the store\<close>

lemma AudioRecordSource_ctor_ssrc: "AudioRecordSource_ctor c ssrc sr ch fd v = Inr s \<Longrightarrow> rs_ssrc s = ssrc"
  by (auto simp: AudioRecordSource_ctor_def rbind_eq_Inr)

lemma AudioFileSource_ctor_ssrc: "AudioFileSource_ctor F ssrc path sr ch fd v = Some (Inr s) \<Longrightarrow> fs_ssrc s = ssrc"
  by (auto simp: AudioFileSource_ctor_def rbind_eq_Inr Let_def case_prod_beta split: option.splits sum.splits)

lemma DoAddSource_ok:
  assumes "DoAddSource E source m = Some (Inr (p, m1))"
  obtains obj where "(p, m1) = make_shared (src_ssrc source) obj m" "source_ssrc obj = src_ssrc source"
proof (cases "src_type source = TYPE_RECORD")
  case True
  then obtain s where "AudioRecordSource_ctor (env_buf E) (src_ssrc source) (mx_output_sample_rate m)
      (mx_output_channel_num m) (mx_frame_duration_ms m) (src_volume source) = Inr s"
      "(p, m1) = make_shared (src_ssrc source) (RecordSource s) m"
    using assms by (auto simp: DoAddSource_def rbind_eq_Inr)
  then show thesis
    using that [of "RecordSource s"] AudioRecordSource_ctor_ssrc by (auto simp: source_ssrc_def Ssrc_record_def)
next
  case False
  then obtain s where c: "AudioFileSource_ctor (env_file E) (src_ssrc source) (src_path source) (mx_output_sample_rate m)
      (mx_output_channel_num m) (mx_frame_duration_ms m) (src_volume source) = Some (Inr s)"
      "(p, m1) = make_shared (src_ssrc source) (FileSource s) m"
    using assms by (auto simp: DoAddSource_def rbind_eq_Inr split: option.splits)
  then show thesis
    using that [of "FileSource s"] AudioFileSource_ctor_ssrc [OF c(1)] by (auto simp: source_ssrc_def Ssrc_file_def)
qed

lemma insert_entries:
  "map_find k m = None \<Longrightarrow> set (map_insert k v m) = insert (k, v) (set m)"
  by (induction k v m rule: map_insert.induct) (auto split: if_splits)

lemma insert_distinct_values:
  "distinct (map snd m) \<Longrightarrow> v \<notin> snd ` set m \<Longrightarrow> distinct (map snd (map_insert k v m))"
proof (induction k v m rule: map_insert.induct)
  case (2 k v k0 v0 m)
  have "snd ` set (map_insert k v m) \<subseteq> insert v (snd ` set m)"
    by (induction k v m rule: map_insert.induct) (auto split: if_splits)
  with 2 show ?case by (auto split: if_splits)
qed simp

lemma erase_entries:
  fixes m :: "'v omap"
  assumes "omap_ok m" "map_find k m = Some p"
  shows "set (map_erase k m) = set m - {(k, p)}"
proof (rule set_eqI)
  fix x :: "int32 \<times> 'v"
  obtain k' v where x: "x = (k', v)" by (cases x)
  have "x \<in> set (map_erase k m) \<longleftrightarrow> map_find k' (map_erase k m) = Some v"
    using map_find_set [OF omap_ok_erase [OF assms(1)]] x by simp
  also have "\<dots> \<longleftrightarrow> x \<in> set m - {(k, p)}"
    using map_find_erase [OF assms(1), of k' k] map_find_set [OF assms(1), of k' v] assms(2) x by auto
  finally show "x \<in> set (map_erase k m) \<longleftrightarrow> x \<in> set m - {(k, p)}" .
qed

lemma erase_distinct_values: "distinct (map snd m) \<Longrightarrow> distinct (map snd (map_erase k m))"
proof (induction k m rule: map_erase.induct)
  case (2 k k0 v m)
  have "set (map_erase k m) \<subseteq> set m" by (induction k m rule: map_erase.induct) auto
  with 2 show ?case by auto
qed simp

section \<open>Every method keeps the ownership invariant\<close>

lemma registersD:
  assumes "registers E reg"
  shows "p \<notin> set (reg w) \<Longrightarrow> reg (snd (lib_AddSource E p w)) = reg w @ [p]"
    "p \<in> set (reg w) \<Longrightarrow> reg (lib_RemoveSource E p w) = filter (\<lambda>q. q \<noteq> p) (reg w)"
  using assms unfolding registers_def by blast+

lemma make_shared_fresh:
  assumes sh: "mx_shape reg m" and new: "map_find ssrc (mx_sources m) = None"
    and mk: "(p, m1) = make_shared ssrc obj m" and ss: "source_ssrc obj = ssrc"
  shows "p = mx_next m" "p \<notin> snd ` set (mx_sources m)" "mx_lib m1 = mx_lib m"
    "set (mx_sources m1) = insert (ssrc, p) (set (mx_sources m))"
    "omap_ok (mx_sources m1) \<and> distinct (map snd (mx_sources m1)) \<and> owned (mx_sources m1) (mx_heap m1) \<and>
     (\<forall>p \<in> snd ` set (mx_sources m1). p < mx_next m1) \<and> mx_mixed_frame m1 = mx_mixed_frame m"
proof -
  have p1: "p = fst (make_shared ssrc obj m)" and m1: "m1 = snd (make_shared ssrc obj m)"
    by (simp_all flip: mk)
  show p: "p = mx_next m" and lib: "mx_lib m1 = mx_lib m" by (simp_all add: p1 m1 make_shared_def)
  show np: "p \<notin> snd ` set (mx_sources m)"
  proof
    assume "p \<in> snd ` set (mx_sources m)"
    from mx_shapeD(4) [OF sh this] show False by (simp add: p)
  qed
  have src: "mx_sources m1 = map_insert ssrc p (mx_sources m)" and hp: "mx_heap m1 = (mx_heap m)(p \<mapsto> obj)"
    and nx: "mx_next m1 = p + 1" and fr: "mx_mixed_frame m1 = mx_mixed_frame m"
    by (simp_all add: p m1 make_shared_def)
  show set1: "set (mx_sources m1) = insert (ssrc, p) (set (mx_sources m))" using insert_entries [OF new] src by simp
  have "owned (mx_sources m1) (mx_heap m1)"
    unfolding owned_def set1 hp
  proof (intro conjI ballI)
    show "dom ((mx_heap m)(p \<mapsto> obj)) = snd ` insert (ssrc, p) (set (mx_sources m))"
      using mx_shapeD(3) [OF sh] by simp
    fix x
    assume x: "x \<in> insert (ssrc, p) (set (mx_sources m))"
    obtain k q where kq: "x = (k, q)" by (cases x)
    have "source_ssrc obj' = k" if o: "((mx_heap m)(p \<mapsto> obj)) q = Some obj'" for obj'
    proof (cases "(k, q) = (ssrc, p)")
      case True
      then show ?thesis using o ss by simp
    next
      case False
      then have e: "(k, q) \<in> set (mx_sources m)" using x kq by blast
      then have "q \<noteq> p" using np by force
      then show ?thesis using o mx_shapeD(8) [OF sh e] by simp
    qed
    then show "case x of (k, q) \<Rightarrow> \<forall>obj'. ((mx_heap m)(p \<mapsto> obj)) q = Some obj' \<longrightarrow> source_ssrc obj' = k"
      using kq by simp
  qed
  moreover have "\<forall>q \<in> snd ` set (mx_sources m1). q < mx_next m1"
  proof
    fix q
    assume "q \<in> snd ` set (mx_sources m1)"
    then have "q = p \<or> q \<in> snd ` set (mx_sources m)" by (auto simp: set1)
    then have "q = mx_next m \<or> q < mx_next m" using mx_shapeD(4) [OF sh, of q] p by blast
    then show "q < mx_next m1" using nx p by auto
  qed
  ultimately show "omap_ok (mx_sources m1) \<and> distinct (map snd (mx_sources m1)) \<and> owned (mx_sources m1) (mx_heap m1) \<and>
     (\<forall>p \<in> snd ` set (mx_sources m1). p < mx_next m1) \<and> mx_mixed_frame m1 = mx_mixed_frame m"
    using omap_ok_insert [OF mx_shapeD(1) [OF sh]] insert_distinct_values [OF mx_shapeD(2) [OF sh] np] src fr by simp
qed

lemma AddSource_shape:
  assumes R: "registers E reg" and sh: "mx_shape reg m" and new: "map_find (src_ssrc source) (mx_sources m) = None"
    and r: "AddSource E source m = Some (Inr (b, m'))"
  shows "mx_shape reg m'" "b" "reg (mx_lib m') = reg (mx_lib m) @ [mx_next m]"
    "set (mx_sources m') = insert (src_ssrc source, mx_next m) (set (mx_sources m))"
proof -
  obtain p m1 where d: "DoAddSource E source m = Some (Inr (p, m1))"
      and m': "m' = release p (m1\<lparr>mx_lib := snd (lib_AddSource E p (mx_lib m1))\<rparr>)" and b: "b"
    using r by (auto simp: AddSource_def rbind_eq_Inr split: option.splits)
  obtain obj where mk: "(p, m1) = make_shared (src_ssrc source) obj m" "source_ssrc obj = src_ssrc source"
    using DoAddSource_ok [OF d] .
  note f = make_shared_fresh [OF sh new mk]
  have rel: "m' = m1\<lparr>mx_lib := snd (lib_AddSource E p (mx_lib m1))\<rparr>" using m' f(4) by (simp add: release_def)
  show b by (rule b)
  have np: "p \<notin> set (reg (mx_lib m))" using f(2) mx_shapeD(5) [OF sh] by simp
  show rg: "reg (mx_lib m') = reg (mx_lib m) @ [mx_next m]" using rel f(1,3) registersD(1) [OF R np] by simp
  show "set (mx_sources m') = insert (src_ssrc source, mx_next m) (set (mx_sources m))" using rel f(1,4) by simp
  show "mx_shape reg m'"
    using f rg rel np mx_shapeD(5,6,7) [OF sh] by (auto simp: mx_shape_def)
qed

lemma RemoveSource_shape:
  assumes R: "registers E reg" and sh: "mx_shape reg m" and f: "map_find ssrc (mx_sources m) = Some p"
    and r: "RemoveSource E ssrc m = (b, m')"
  shows "mx_shape reg m'" "b" "mx_heap m' p = None" "p \<notin> set (reg (mx_lib m'))"
    "mx_sources m' = map_erase ssrc (mx_sources m)" "\<And>q. q \<noteq> p \<Longrightarrow> mx_heap m' q = mx_heap m q"
proof -
  let ?m1 = "m\<lparr>mx_lib := lib_RemoveSource E p (mx_lib m), mx_sources := map_erase ssrc (mx_sources m)\<rparr>"
  have es: "set (map_erase ssrc (mx_sources m)) = set (mx_sources m) - {(ssrc, p)}"
    using erase_entries [OF mx_shapeD(1) [OF sh] f] .
  have kp: "(ssrc, p) \<in> set (mx_sources m)" using f map_find_set [OF mx_shapeD(1) [OF sh]] by blast
  have inj: "inj_on snd (set (mx_sources m))" using mx_shapeD(2) [OF sh] by (simp add: distinct_map)
  have img: "snd ` set (map_erase ssrc (mx_sources m)) = snd ` set (mx_sources m) - {p}"
    unfolding es using inj_on_image_set_diff [OF inj, of "set (mx_sources m)" "{(ssrc, p)}"] kp by simp
  have m': "m' = ?m1\<lparr>mx_heap := (mx_heap m)(p := None)\<rparr>" and b: b
    using r f img by (auto simp: RemoveSource_def release_def)
  show b by (rule b)
  show "mx_heap m' p = None" "mx_sources m' = map_erase ssrc (mx_sources m)"
    "\<And>q. q \<noteq> p \<Longrightarrow> mx_heap m' q = mx_heap m q" using m' by simp_all
  have pr: "p \<in> set (reg (mx_lib m))" using kp mx_shapeD(5) [OF sh] by force
  have rg: "reg (mx_lib m') = filter (\<lambda>q. q \<noteq> p) (reg (mx_lib m))" using m' registersD(2) [OF R pr] by simp
  then show "p \<notin> set (reg (mx_lib m'))" by simp
  have "owned (mx_sources m') (mx_heap m')"
    using m' img es mx_shapeD(3,8) [OF sh] by (auto simp: owned_def split: if_splits)
  then show "mx_shape reg m'"
    using m' rg img omap_ok_erase [OF mx_shapeD(1) [OF sh]] erase_distinct_values [OF mx_shapeD(2) [OF sh]]
      mx_shapeD(4-7) [OF sh] by (auto simp: mx_shape_def)
qed

lemma store_update_shape:
  assumes sh: "mx_shape reg m" and obj: "mx_heap m p = Some obj" and ss: "source_ssrc obj' = source_ssrc obj"
  shows "mx_shape reg (m\<lparr>mx_heap := (mx_heap m)(p \<mapsto> obj')\<rparr>)"
proof -
  have "owned (mx_sources m) ((mx_heap m)(p \<mapsto> obj'))"
    using mx_shapeD(3,8) [OF sh] obj ss by (auto simp: owned_def dom_def split: if_splits)
  then show ?thesis using sh by (simp add: mx_shape_def)
qed

lemma set_volume_ssrc [simp]: "source_ssrc (set_volume v obj) = source_ssrc obj"
  by (cases obj) (simp_all add: source_ssrc_def set_volume_def Ssrc_record_def Ssrc_file_def UpdateVolume_def)

lemma OnAudioRecorded_ssrc: "OnAudioRecorded c data n s = Inr s' \<Longrightarrow> rs_ssrc s' = rs_ssrc s"
  by (auto simp: OnAudioRecorded_def rbind_eq_Inr)

lemma UpdateVolume_shape:
  assumes sh: "mx_shape reg m"
  shows "\<exists>m'. UpdateVolume_mixer ssrc v m = Inr m' \<and> mx_shape reg m' \<and> mx_sources m' = mx_sources m \<and> mx_lib m' = mx_lib m"
proof (cases "map_find ssrc (mx_sources m)")
  case None
  then show ?thesis using sh by (simp add: UpdateVolume_mixer_def)
next
  case (Some p)
  obtain obj where "mx_heap m p = Some obj" using find_live [OF sh Some] by blast
  then show ?thesis using Some store_update_shape [OF sh, of p obj "set_volume v obj"] by (simp add: UpdateVolume_mixer_def)
qed

lemma AddRecordedData_shape:
  assumes sh: "mx_shape reg m" and r: "AddRecordedData E ssrc data n m = Inr m'"
  shows "mx_shape reg m'"
proof (cases "map_find ssrc (mx_sources m)")
  case None
  then show ?thesis using sh r by (simp add: AddRecordedData_def)
next
  case (Some p)
  then obtain s s' where "mx_heap m p = Some (RecordSource s)" "OnAudioRecorded (env_buf E) data n s = Inr s'"
      "m' = m\<lparr>mx_heap := (mx_heap m)(p \<mapsto> RecordSource s')\<rparr>"
    using r by (auto simp: AddRecordedData_def rbind_eq_Inr split: option.splits source.splits)
  then show ?thesis
    using store_update_shape [OF sh, of p "RecordSource s" "RecordSource s'"] OnAudioRecorded_ssrc
    by (simp add: source_ssrc_def Ssrc_record_def)
qed

lemma GetAudioFrame_record_ssrc:
  "GetAudioFrameWithInfo_record W c hz f s = Inr (a, f', s') \<Longrightarrow> rs_ssrc s' = rs_ssrc s"
  by (auto simp: GetAudioFrameWithInfo_record_def rbind_eq_Inr Let_def split: if_splits)

lemma Read_ssrc: "Read F out s = Some (Inr (n, out', s')) \<Longrightarrow> fs_ssrc s' = fs_ssrc s"
  by (auto simp: Read_def rbind_eq_Inr Let_def split: option.splits sum.splits if_splits)

lemma GetAudioFrame_file_ssrc:
  "GetAudioFrameWithInfo_file W F hz f s = Some (Inr (a, f', s')) \<Longrightarrow> fs_ssrc s' = fs_ssrc s"
  by (auto simp: GetAudioFrameWithInfo_file_def Let_def split: option.splits sum.splits if_splits dest: Read_ssrc)

lemma owned_update:
  assumes "owned ss h" "h p = Some obj" "source_ssrc obj' = source_ssrc obj"
  shows "owned ss (h(p \<mapsto> obj'))"
  unfolding owned_def
proof (intro conjI ballI)
  show "dom (h(p \<mapsto> obj')) = snd ` set ss" using assms(1,2) by (auto simp: owned_def)
  fix x assume "x \<in> set ss"
  then show "case x of (k, q) \<Rightarrow> \<forall>obj0. (h(p \<mapsto> obj')) q = Some obj0 \<longrightarrow> source_ssrc obj0 = k"
    using assms by (cases x) (auto simp: owned_def)
qed

lemma GetAudioFrame_ptr_owned:
  assumes o: "owned ss h" and g: "GetAudioFrame_ptr E p hz f h = Some (Inr (a, f', h'))"
  shows "owned ss h'"
proof (cases "h p")
  case None
  then show ?thesis using g by (simp add: GetAudioFrame_ptr_def)
next
  case (Some obj)
  show ?thesis
  proof (cases obj)
    case (RecordSource s)
    then obtain s' where "GetAudioFrameWithInfo_record (env_frame E) (env_buf E) hz f s = Inr (a, f', s')"
        "h' = h(p \<mapsto> RecordSource s')"
      using g Some by (auto simp: GetAudioFrame_ptr_def rbind_eq_Inr)
    then show ?thesis using owned_update [OF o Some, of "RecordSource s'"] RecordSource GetAudioFrame_record_ssrc
      by (auto simp: source_ssrc_def Ssrc_record_def)
  next
    case (FileSource s)
    then obtain s' where r: "GetAudioFrameWithInfo_file (env_frame E) (env_file E) hz f s = Some (Inr (a, f', s'))"
        "h' = h(p \<mapsto> FileSource s')"
      using g Some by (auto simp: GetAudioFrame_ptr_def rbind_eq_Inr split: option.splits)
    then show ?thesis using owned_update [OF o Some, of "FileSource s'"] FileSource GetAudioFrame_file_ssrc [OF r(1)]
      by (simp add: source_ssrc_def Ssrc_file_def)
  qed
qed

lemma Mix_parts:
  assumes "Mix E out m = Some (Inr (n, out', m'))"
  obtains f h w where "lib_Mix E (to_size_t (mx_output_channel_num m)) PreferredSampleRate_ptr (GetAudioFrame_ptr E)
      (mx_heap m) (mx_mixed_frame m) (mx_lib m) = Some (Inr (f, h, w))"
    "m' = m\<lparr>mx_lib := w, mx_heap := h, mx_mixed_frame := f\<rparr>"
proof -
  obtain r where r: "lib_Mix E (to_size_t (mx_output_channel_num m)) PreferredSampleRate_ptr (GetAudioFrame_ptr E)
      (mx_heap m) (mx_mixed_frame m) (mx_lib m) = Some (Inr r)"
    using assms by (auto simp: Mix_def split: option.splits sum.splits)
  obtain f h w where "r = (f, h, w)" by (cases r)
  with r assms that show thesis by (simp add: Mix_def Let_def split: if_splits)
qed

lemma Mix_shape:
  assumes C: "mixer_contract E reg" and sh: "mx_shape reg m" and r: "Mix E out m = Some (Inr (n, out', m'))"
  shows "mx_shape reg m'"
proof -
  obtain f h w where l: "lib_Mix E (to_size_t (mx_output_channel_num m)) PreferredSampleRate_ptr (GetAudioFrame_ptr E)
      (mx_heap m) (mx_mixed_frame m) (mx_lib m) = Some (Inr (f, h, w))"
    and m': "m' = m\<lparr>mx_lib := w, mx_heap := h, mx_mixed_frame := f\<rparr>"
    using Mix_parts [OF r] by blast
  have e: "mix_effects E reg" using C by (simp add: mixer_contract_def)
  have o: "owned (mx_sources m) (mx_heap m)" using sh by (simp add: mx_shape_def)
  have keep: "\<forall>p \<in> set (reg (mx_lib m)). \<forall>hz g k a g' k'. owned (mx_sources m) k \<longrightarrow>
      GetAudioFrame_ptr E p hz g k = Some (Inr (a, g', k')) \<longrightarrow> owned (mx_sources m) k'"
    using GetAudioFrame_ptr_owned by blast
  have "owned (mx_sources m) h \<and> reg w = reg (mx_lib m) \<and> length (frame_data f) = kMaxDataSizeSamples"
    using e [unfolded mix_effects_def, rule_format, of "owned (mx_sources m)", OF o _ mx_shapeD(7) [OF sh] l] keep by blast
  then show ?thesis using sh m' by (simp add: mx_shape_def)
qed

section \<open>Construction\<close>

definition built :: "('w, 'swr, 'fmt, 'cc, 'pkt, 'pcm, 'fifo) AudioMixer \<Rightarrow> bool" where
  \<comment> \<open>the ownership invariant before anything is registered\<close>
  "built m \<longleftrightarrow> mx_shape (\<lambda>_. map snd (mx_sources m)) m"

definition same_geometry ::
    "('w, 'swr, 'fmt, 'cc, 'pkt, 'pcm, 'fifo) AudioMixer \<Rightarrow> ('w, 'swr, 'fmt, 'cc, 'pkt, 'pcm, 'fifo) AudioMixer \<Rightarrow> bool" where
  "same_geometry m m' \<longleftrightarrow>
     mx_output_sample_rate m' = mx_output_sample_rate m \<and> mx_output_channel_num m' = mx_output_channel_num m \<and>
     mx_frame_duration_ms m' = mx_frame_duration_ms m \<and> mx_report_output_samples m' = mx_report_output_samples m \<and>
     mx_real_output_samples m' = mx_real_output_samples m \<and> mx_lib m' = mx_lib m \<and> mx_mixed_frame m' = mx_mixed_frame m"

lemma make_shared_dup:
  assumes sh: "mx_shape reg m" and old: "map_find ssrc (mx_sources m) = Some q"
    and mk: "(p, m1) = make_shared ssrc obj m"
  shows "p = mx_next m" "release p m1 = m\<lparr>mx_next := mx_next m + 1\<rparr>" "mx_lib m1 = mx_lib m"
    "mx_sources m1 = mx_sources m" "p \<notin> snd ` set (mx_sources m)"
proof -
  have p1: "p = fst (make_shared ssrc obj m)" and m1: "m1 = snd (make_shared ssrc obj m)"
    by (simp_all flip: mk)
  show p: "p = mx_next m" and "mx_lib m1 = mx_lib m" by (simp_all add: p1 m1 make_shared_def)
  show np: "p \<notin> snd ` set (mx_sources m)"
  proof
    assume "p \<in> snd ` set (mx_sources m)"
    from mx_shapeD(4) [OF sh this] show False by (simp add: p)
  qed
  have ins: "map_insert ssrc (mx_next m) (mx_sources m) = mx_sources m"
    using source_map.ins_present [OF mx_shapeD(1) [OF sh] old] .
  then show src: "mx_sources m1 = mx_sources m" by (simp add: m1 make_shared_def)
  have "mx_heap m p = None" using np mx_shapeD(3) [OF sh] by blast
  then have "(mx_heap m)(p \<mapsto> obj, p := None) = mx_heap m" by (simp add: fun_upd_idem)
  then show "release p m1 = m\<lparr>mx_next := mx_next m + 1\<rparr>"
    using np src p ins by (simp add: release_def m1 make_shared_def)
qed

lemma add_all_built:
  "built m \<Longrightarrow> add_all E ss m = Some (Inr m') \<Longrightarrow>
   built m' \<and> same_geometry m m' \<and> fst ` set (mx_sources m') = fst ` set (mx_sources m) \<union> src_ssrc ` set ss"
proof (induction ss arbitrary: m)
  case Nil
  then show ?case by (simp add: same_geometry_def)
next
  case (Cons source ss)
  obtain p m1 where d: "DoAddSource E source m = Some (Inr (p, m1))" and rest: "add_all E ss (release p m1) = Some (Inr m')"
    using Cons.prems(2) by (auto split: option.splits sum.splits)
  obtain obj where mk: "(p, m1) = make_shared (src_ssrc source) obj m" "source_ssrc obj = src_ssrc source"
    using DoAddSource_ok [OF d] .
  have m1: "m1 = snd (make_shared (src_ssrc source) obj m)" by (simp flip: mk(1))
  note sh = Cons.prems(1) [unfolded built_def]
  have step: "built (release p m1) \<and> same_geometry m (release p m1) \<and>
      fst ` set (mx_sources (release p m1)) = insert (src_ssrc source) (fst ` set (mx_sources m))"
  proof (cases "map_find (src_ssrc source) (mx_sources m)")
    case None
    note f = make_shared_fresh [OF sh None mk]
    have rel: "release p m1 = m1" using f(4) by (simp add: release_def)
    have "same_geometry m m1" by (simp add: same_geometry_def m1 make_shared_def)
    moreover have "built m1" using f(5) mx_shapeD(7) [OF sh] by (simp add: built_def mx_shape_def)
    ultimately show ?thesis using rel f(4) by simp
  next
    case (Some q)
    note f = make_shared_dup [OF sh Some mk(1)]
    have "built (m\<lparr>mx_next := mx_next m + 1\<rparr>)"
      using sh by (auto simp: built_def mx_shape_def intro: less_SucI)
    moreover have "src_ssrc source \<in> fst ` set (mx_sources m)" using Some map_find_None by (metis option.distinct(1))
    ultimately show ?thesis using f(2) by (auto simp: same_geometry_def)
  qed
  with Cons.IH [of "release p m1"] rest show ?case by (auto simp: same_geometry_def)
qed

lemma register_all_reg:
  assumes R: "registers E reg"
  shows "distinct (map snd ss) \<Longrightarrow> snd ` set ss \<inter> set (reg w) = {} \<Longrightarrow>
    reg (fold (\<lambda>(k, p) w. snd (lib_AddSource E p w)) ss w) = reg w @ map snd ss"
proof (induction ss arbitrary: w)
  case Nil
  then show ?case by simp
next
  case (Cons kp ss)
  obtain k p where kp: "kp = (k, p)" by (cases kp)
  have "reg (snd (lib_AddSource E p w)) = reg w @ [p]" using registersD(1) [OF R, of p w] Cons.prems kp by simp
  then show ?case using Cons.IH [of "snd (lib_AddSource E p w)"] Cons.prems kp by auto
qed

lemma AudioMixer_ctor_parts:
  assumes c: "AudioMixer_ctor E config = Some (Inr m)"
  obtains report real_samples m0 f where
    "cfg_frame_duration_ms config \<le> kFrameDurationInMs"
    "c_div (cfg_output_sample_rate config) 100 = Inr report"
    "\<exists>k. c_div 1000 (cfg_frame_duration_ms config) = Inr k \<and> c_div (cfg_output_sample_rate config) k = Inr real_samples"
    "add_all E (cfg_sources config)
       \<lparr>mx_lib = lib_Create E, mx_sources = [], mx_heap = Map.empty, mx_next = 0, mx_mixed_frame = AudioFrame_init,
        mx_output_sample_rate = cfg_output_sample_rate config, mx_output_channel_num = cfg_output_channel_num config,
        mx_frame_duration_ms = cfg_frame_duration_ms config, mx_report_output_samples = report,
        mx_real_output_samples = real_samples\<rparr> = Some (Inr m0)"
    "UpdateFrame (env_frame E) 0 None (to_size_t report) (cfg_output_sample_rate config) kUndefined kVadUnknown
       (to_size_t (cfg_output_channel_num config)) (mx_mixed_frame (register_all E m0)) = Inr f"
    "m = (register_all E m0)\<lparr>mx_mixed_frame := f\<rparr>"
proof -
  have k: "c_div 1000 kFrameDurationInMs = Inr 100" by (simp add: kFrameDurationInMs_def c_div_pos in_int32_def)
  show thesis
    using c that
    by (auto simp: AudioMixer_ctor_def k rbind_eq_Inr Let_def rtc_check_def split: option.splits sum.splits)
qed

lemma AudioMixer_ctor_shape:
  assumes C: "mixer_contract E reg" and c: "AudioMixer_ctor E config = Some (Inr m)"
  shows "mx_shape reg m" "reg (mx_lib m) = map snd (mx_sources m)"
    "fst ` set (mx_sources m) = src_ssrc ` set (cfg_sources config)"
    "mx_output_sample_rate m = cfg_output_sample_rate config" "mx_output_channel_num m = cfg_output_channel_num config"
    "mx_frame_duration_ms m = cfg_frame_duration_ms config"
    "c_div (cfg_output_sample_rate config) 100 = Inr (mx_report_output_samples m)"
    "\<exists>k. c_div 1000 (cfg_frame_duration_ms config) = Inr k \<and> c_div (cfg_output_sample_rate config) k = Inr (mx_real_output_samples m)"
proof -
  obtain report real_samples m0 f where
    "cfg_frame_duration_ms config \<le> kFrameDurationInMs" and
    rp: "c_div (cfg_output_sample_rate config) 100 = Inr report"
      "\<exists>k. c_div 1000 (cfg_frame_duration_ms config) = Inr k \<and> c_div (cfg_output_sample_rate config) k = Inr real_samples"
    and a: "add_all E (cfg_sources config)
       \<lparr>mx_lib = lib_Create E, mx_sources = [], mx_heap = Map.empty, mx_next = 0, mx_mixed_frame = AudioFrame_init,
        mx_output_sample_rate = cfg_output_sample_rate config, mx_output_channel_num = cfg_output_channel_num config,
        mx_frame_duration_ms = cfg_frame_duration_ms config, mx_report_output_samples = report,
        mx_real_output_samples = real_samples\<rparr> = Some (Inr m0)" (is "add_all E _ ?i = _")
    and u: "UpdateFrame (env_frame E) 0 None (to_size_t report) (cfg_output_sample_rate config) kUndefined kVadUnknown
       (to_size_t (cfg_output_channel_num config)) (mx_mixed_frame (register_all E m0)) = Inr f"
    and m: "m = (register_all E m0)\<lparr>mx_mixed_frame := f\<rparr>"
    by (rule AudioMixer_ctor_parts [OF c])
  have "built ?i" by (simp add: built_def mx_shape_def owned_def AudioFrame_init_storage)
  from add_all_built [OF this a]
  have b: "built m0" "same_geometry ?i m0" "fst ` set (mx_sources m0) = src_ssrc ` set (cfg_sources config)"
    by simp_all
  have R: "registers E reg" and W: "frame_contract (env_frame E)" using C by (simp_all add: mixer_contract_def)
  have r0: "reg (mx_lib m0) = []" using R b(2) by (simp add: registers_def same_geometry_def)
  have src: "mx_sources m = mx_sources m0" by (simp add: m register_all_def)
  show rg: "reg (mx_lib m) = map snd (mx_sources m)"
    using register_all_reg [OF R mx_shapeD(2) [OF b(1) [unfolded built_def]], of "mx_lib m0"] r0
    by (simp add: m register_all_def)
  have "length (frame_data f) = kMaxDataSizeSamples"
    using contract_storage(1) [OF W u] b(1) by (simp add: built_def mx_shape_def register_all_def)
  then show "mx_shape reg m"
    using b(1) rg by (simp add: built_def mx_shape_def m register_all_def)
  show "fst ` set (mx_sources m) = src_ssrc ` set (cfg_sources config)" using b(3) src by simp
  show "mx_output_sample_rate m = cfg_output_sample_rate config" "mx_output_channel_num m = cfg_output_channel_num config"
    "mx_frame_duration_ms m = cfg_frame_duration_ms config"
    "c_div (cfg_output_sample_rate config) 100 = Inr (mx_report_output_samples m)"
    "\<exists>k. c_div 1000 (cfg_frame_duration_ms config) = Inr k \<and> c_div (cfg_output_sample_rate config) k = Inr (mx_real_output_samples m)"
    using b(2) rp by (simp_all add: m register_all_def same_geometry_def)
qed

section \<open>Reachable mixers\<close>

text \<open>The life of a mixer: it is created from a configuration and its methods are called in any
  order, with the one condition that \<open>AddSource\<close> is called with an \<open>ssrc\<close> that is not in use.\<close>

inductive mixer_reach ::
    "('w, 'swr, 'fmt, 'cc, 'pkt, 'par, 'codec, 'pcm, 'fifo) mixer_env \<Rightarrow>
     ('w, 'swr, 'fmt, 'cc, 'pkt, 'pcm, 'fifo) AudioMixer \<Rightarrow> bool" for E where
  created: "AudioMixer_ctor E config = Some (Inr m) \<Longrightarrow> mixer_reach E m"
| volume: "mixer_reach E m \<Longrightarrow> UpdateVolume_mixer ssrc v m = Inr m' \<Longrightarrow> mixer_reach E m'"
| added: "mixer_reach E m \<Longrightarrow> map_find (src_ssrc source) (mx_sources m) = None \<Longrightarrow>
    AddSource E source m = Some (Inr (b, m')) \<Longrightarrow> mixer_reach E m'"
| removed: "mixer_reach E m \<Longrightarrow> RemoveSource E ssrc m = (b, m') \<Longrightarrow> mixer_reach E m'"
| mixed: "mixer_reach E m \<Longrightarrow> Mix E out m = Some (Inr (n, out', m')) \<Longrightarrow> mixer_reach E m'"
| fed: "mixer_reach E m \<Longrightarrow> AddRecordedData E ssrc data k m = Inr m' \<Longrightarrow> mixer_reach E m'"

lemma reach_shape:
  assumes C: "mixer_contract E reg"
  shows "mixer_reach E m \<Longrightarrow> mx_shape reg m"
proof (induction rule: mixer_reach.induct)
  case (created config m)
  then show ?case using AudioMixer_ctor_shape(1) [OF C] by blast
next
  case (volume m ssrc v m')
  then show ?case using UpdateVolume_shape [of reg m ssrc v] by auto
next
  case (added m source b m')
  then show ?case using AddSource_shape(1) [of E reg m source b m'] C by (simp add: mixer_contract_def)
next
  case (removed m ssrc b m')
  show ?case
  proof (cases "map_find ssrc (mx_sources m)")
    case None
    then show ?thesis using removed by (simp add: RemoveSource_def)
  next
    case (Some p)
    have R: "registers E reg" using C by (simp add: mixer_contract_def)
    show ?thesis using RemoveSource_shape(1) [OF R removed(3) Some removed(2)] .
  qed
next
  case (mixed m out n out' m')
  then show ?case using Mix_shape [OF C] by blast
next
  case (fed m ssrc data k m')
  then show ?case using AddRecordedData_shape by blast
qed

end
