(* ===== verification/Mixer_Safety.thy ===== *)
theory Mixer_Safety
  imports Audio_Mixer
begin

text \<open>
  The mixer's guarantees: what makes a mixer ready to run (\<open>mixer_ready\<close>: ownership, sources that
  meet the input contract, a 10 ms geometry), that every call then succeeds and keeps it ready,
  what \<open>Mix\<close> writes, and the two misuses the code does not reject: a duplicate \<open>ssrc\<close>, which leaves
  a dangling pointer in the WebRTC mixer, and recorded data for a file source.
\<close>

section \<open>A mixer that is ready to run\<close>

definition obj_ready ::
    "('w, 'swr, 'fmt, 'cc, 'pkt, 'par, 'codec, 'pcm, 'fifo) mixer_env \<Rightarrow> nat \<Rightarrow>
     ('fmt, 'cc, 'pkt, 'pcm, 'fifo) decoder_view \<Rightarrow> ('swr \<Rightarrow> nat) \<Rightarrow>
     ('swr, 'fmt, 'cc, 'pkt, 'pcm, 'fifo) source \<Rightarrow> bool" where
  "obj_ready E M V outs obj = (case obj of
     RecordSource s \<Rightarrow> rs_tenms (env_frame E) (env_buf E) M s
   | FileSource s \<Rightarrow> fs_ready (env_frame E) (env_file E) V outs s)"

definition store_ready ::
    "('w, 'swr, 'fmt, 'cc, 'pkt, 'par, 'codec, 'pcm, 'fifo) mixer_env \<Rightarrow> nat \<Rightarrow>
     ('fmt, 'cc, 'pkt, 'pcm, 'fifo) decoder_view \<Rightarrow> ('swr \<Rightarrow> nat) \<Rightarrow> nat omap \<Rightarrow>
     ('swr, 'fmt, 'cc, 'pkt, 'pcm, 'fifo) store \<Rightarrow> bool" where
  "store_ready E M V outs ss h \<longleftrightarrow> owned ss h \<and> (\<forall>p obj. h p = Some obj \<longrightarrow> obj_ready E M V outs obj)"

definition env_ok ::
    "('w, 'swr, 'fmt, 'cc, 'pkt, 'par, 'codec, 'pcm, 'fifo) mixer_env \<Rightarrow> ('w \<Rightarrow> nat list) \<Rightarrow> nat \<Rightarrow>
     ('fmt, 'cc, 'pkt, 'pcm, 'fifo) decoder_view \<Rightarrow> ('swr \<Rightarrow> nat) \<Rightarrow> bool" where
  \<comment> \<open>the libraries keep their promises, and queues are at most \<open>M\<close> samples long\<close>
  "env_ok E reg M V outs \<longleftrightarrow> mixer_contract E reg \<and> fs_lib_ok (env_file E) V outs \<and>
     elem_bytes (env_buf E) = 2 \<and> M < 2 ^ 30"

definition mixer_ready ::
    "('w, 'swr, 'fmt, 'cc, 'pkt, 'par, 'codec, 'pcm, 'fifo) mixer_env \<Rightarrow> ('w \<Rightarrow> nat list) \<Rightarrow> nat \<Rightarrow>
     ('fmt, 'cc, 'pkt, 'pcm, 'fifo) decoder_view \<Rightarrow> ('swr \<Rightarrow> nat) \<Rightarrow>
     ('w, 'swr, 'fmt, 'cc, 'pkt, 'pcm, 'fifo) AudioMixer \<Rightarrow> bool" where
  "mixer_ready E reg M V outs m \<longleftrightarrow>
     mx_shape reg m \<and> (\<forall>p obj. mx_heap m p = Some obj \<longrightarrow> obj_ready E M V outs obj) \<and>
     geometry_ok (mx_output_sample_rate m) (mx_output_channel_num m) 10 \<and> 100 \<le> mx_output_sample_rate m \<and>
     mx_frame_duration_ms m = 10 \<and> mx_real_output_samples m = mx_output_sample_rate m div 100"

lemma mixer_ready_obj: "mixer_ready E reg M V outs m \<Longrightarrow> mx_heap m p = Some obj \<Longrightarrow> obj_ready E M V outs obj"
  by (simp add: mixer_ready_def)

lemma mixer_ready_store: "mixer_ready E reg M V outs m \<Longrightarrow> store_ready E M V outs (mx_sources m) (mx_heap m)"
  by (simp add: mixer_ready_def store_ready_def mx_shape_def)

lemma record_poll_ready:
  assumes "rs_tenms W c M s"
  shows "\<exists>a f' s'. GetAudioFrameWithInfo_record W c hz f s = Inr (a, f', s') \<and> rs_tenms W c M s'"
  using record_input.poll_ok [OF assms TrueI, of hz f] by blast

lemma file_poll_ready:
  assumes "fs_ready W F V outs s" "length (frame_data f) = kMaxDataSizeSamples"
  shows "\<exists>a f' s'. GetAudioFrameWithInfo_file W F hz f s = Some (Inr (a, f', s')) \<and> fs_ready W F V outs s'"
proof (cases "hz = fs_output_sample_rate s")
  case False
  then show ?thesis using assms(1) by (simp add: GetAudioFrameWithInfo_file_def)
next
  case True
  have "frame_contract W" "fs_lib_ok F V outs" "fs_inv F V outs s" using assms(1) by (simp_all add: fs_ready_def)
  with GetAudioFrame_file_cases [OF this(2,3,1) assms(2)] show ?thesis unfolding True fs_ready_def by blast
qed

lemma store_ready_update:
  assumes "store_ready E M V outs ss h" "owned ss (h(p \<mapsto> obj))" "obj_ready E M V outs obj"
  shows "store_ready E M V outs ss (h(p \<mapsto> obj))"
  using assms by (simp add: store_ready_def)

lemma poll_ready:
  assumes s: "store_ready E M V outs ss h" and p: "p \<in> snd ` set ss" and f: "length (frame_data f) = kMaxDataSizeSamples"
  shows "\<exists>a f' h'. GetAudioFrame_ptr E p hz f h = Some (Inr (a, f', h')) \<and> store_ready E M V outs ss h'"
proof -
  have o: "owned ss h" using s by (simp add: store_ready_def)
  then obtain obj where obj: "h p = Some obj" using p unfolding owned_def by (metis domD)
  have ok: "obj_ready E M V outs obj" using s obj by (simp add: store_ready_def)
  show ?thesis
  proof (cases obj)
    case (RecordSource r)
    obtain a f' r' where g: "GetAudioFrameWithInfo_record (env_frame E) (env_buf E) hz f r = Inr (a, f', r')"
        "rs_tenms (env_frame E) (env_buf E) M r'"
      using record_poll_ready ok RecordSource unfolding obj_ready_def by (metis source.simps(5))
    have run: "GetAudioFrame_ptr E p hz f h = Some (Inr (a, f', h(p \<mapsto> RecordSource r')))"
      using g(1) obj RecordSource by (simp add: GetAudioFrame_ptr_def)
    have "obj_ready E M V outs (RecordSource r')" using g(2) by (simp add: obj_ready_def)
    from store_ready_update [OF s GetAudioFrame_ptr_owned [OF o run] this] run show ?thesis by blast
  next
    case (FileSource r)
    have "fs_ready (env_frame E) (env_file E) V outs r" using ok FileSource by (simp add: obj_ready_def)
    from file_poll_ready [OF this f, of hz]
    obtain a f' r' where g: "GetAudioFrameWithInfo_file (env_frame E) (env_file E) hz f r = Some (Inr (a, f', r'))"
        "fs_ready (env_frame E) (env_file E) V outs r'" by (elim exE conjE)
    have run: "GetAudioFrame_ptr E p hz f h = Some (Inr (a, f', h(p \<mapsto> FileSource r')))"
      using g(1) obj FileSource by (simp add: GetAudioFrame_ptr_def)
    have "obj_ready E M V outs (FileSource r')" using g(2) by (simp add: obj_ready_def)
    from store_ready_update [OF s GetAudioFrame_ptr_owned [OF o run] this] run show ?thesis by blast
  qed
qed

lemma preferred_ready:
  assumes "owned ss h" "p \<in> snd ` set ss"
  shows "\<exists>r. PreferredSampleRate_ptr p h = Inr r"
proof -
  obtain obj where "h p = Some obj" using assms unfolding owned_def by (metis domD)
  then show ?thesis by (cases obj) (simp_all add: PreferredSampleRate_ptr_def)
qed

section \<open>Mix\<close>

lemma lib_Mix_ready:
  assumes C: "mixer_contract E reg" and s: "store_ready E M V outs ss h" and rg: "set (reg w) = snd ` set ss"
    and f: "length (frame_data f) = kMaxDataSizeSamples"
  shows "\<exists>f' h' w'. lib_Mix E n PreferredSampleRate_ptr (GetAudioFrame_ptr E) h f w = Some (Inr (f', h', w')) \<and>
    store_ready E M V outs ss h' \<and> reg w' = reg w \<and> length (frame_data f') = kMaxDataSizeSamples"
proof -
  let ?I = "store_ready E M V outs ss"
  have t: "mix_total E reg" and e: "mix_effects E reg" using C by (simp_all add: mixer_contract_def)
  have all: "\<forall>p \<in> set (reg w). \<forall>k. ?I k \<longrightarrow> (\<exists>r. PreferredSampleRate_ptr p k = Inr r) \<and>
      (\<forall>hz g. length (frame_data g) = kMaxDataSizeSamples \<longrightarrow>
        (\<exists>a g' k'. GetAudioFrame_ptr E p hz g k = Some (Inr (a, g', k')) \<and> ?I k'))"
    using poll_ready preferred_ready rg unfolding store_ready_def by metis
  obtain f' h' w' where l: "lib_Mix E n PreferredSampleRate_ptr (GetAudioFrame_ptr E) h f w = Some (Inr (f', h', w'))"
    using t [unfolded mix_total_def, rule_format, of ?I, OF s f] all by blast
  have keep: "\<forall>p \<in> set (reg w). \<forall>hz g k a g' k'. ?I k \<longrightarrow> length (frame_data g) = kMaxDataSizeSamples \<longrightarrow>
      GetAudioFrame_ptr E p hz g k = Some (Inr (a, g', k')) \<longrightarrow> ?I k'"
  proof (intro ballI allI impI)
    fix p hz g k a g' k'
    assume a: "p \<in> set (reg w)" "?I k" "length (frame_data g) = kMaxDataSizeSamples"
      "GetAudioFrame_ptr E p hz g k = Some (Inr (a, g', k'))"
    then show "?I k'" using poll_ready [OF a(2) _ a(3), of p hz] rg by auto
  qed
  from e [unfolded mix_effects_def, rule_format, of ?I, OF s _ f l] keep l show ?thesis by blast
qed

lemma mix_size:
  assumes L: "fs_lib_ok F V outs" and g: "geometry_ok sr ch 10" "100 \<le> sr"
  shows "av_samples_get_buffer_size (lib_swr F) ch (sr div 100) kOutputSampleFormat 1 = ch * (sr div 100) * 2"
    "(to_size_t (ch * (sr div 100) * 2) + 1) div 2 = nat (sr div 100 * ch)" "nat (sr div 100 * ch) \<le> kMaxDataSizeSamples"
proof -
  have m: "measures_samples (lib_swr F)" using L by (simp add: fs_lib_ok_def swr_contract_def)
  have pos: "0 < ch" "0 < sr div 100" using g by (simp_all add: geometry_ok_def pos_imp_zdiv_pos_iff)
  have le: "sr div 100 * ch \<le> 3840" using g by (simp add: geometry_ok_def kMaxDataSizeSamples_def)
  then have le2: "ch * (sr div 100) * 2 \<le> 7680" by (simp add: mult.commute)
  have nn: "0 \<le> ch * (sr div 100) * 2" using pos by simp
  have i: "in_int32 (ch * (sr div 100) * 2)"
    unfolding in_int32_def by (intro conjI order_trans [OF _ nn] le_less_trans [OF le2]) simp_all
  have b: "documented_bytes kOutputSampleFormat = 2" by (simp add: documented_bytes_def kOutputSampleFormat_def)
  show "av_samples_get_buffer_size (lib_swr F) ch (sr div 100) kOutputSampleFormat 1 = ch * (sr div 100) * 2"
    using m pos i b unfolding measures_samples_def by simp
  have "to_size_t (ch * (sr div 100) * 2) = 2 * nat (sr div 100 * ch)"
    using nn i by (simp add: to_size_t_nonneg nat_mult_distrib mult.commute)
  then show "(to_size_t (ch * (sr div 100) * 2) + 1) div 2 = nat (sr div 100 * ch)" by simp
  show "nat (sr div 100 * ch) \<le> kMaxDataSizeSamples" using le by (simp add: kMaxDataSizeSamples_def)
qed

lemma frame_samples_length:
  "frame_contract W \<Longrightarrow> length (frame_data f) = kMaxDataSizeSamples \<Longrightarrow> length (frame_samples W f) = kMaxDataSizeSamples"
  by (simp add: frame_contract_def data_access_def)

lemma Mix_ready:
  assumes E: "env_ok E reg M V outs" and r: "mixer_ready E reg M V outs m"
    and out: "nat (mx_output_sample_rate m div 100 * mx_output_channel_num m) \<le> length out"
  shows "\<exists>m'. Mix E out m = Some (Inr (mx_output_channel_num m * mx_real_output_samples m * 2,
      take (nat (mx_output_sample_rate m div 100 * mx_output_channel_num m)) (frame_samples (env_frame E) (mx_mixed_frame m')) @
      drop (nat (mx_output_sample_rate m div 100 * mx_output_channel_num m)) out, m')) \<and>
    mixer_ready E reg M V outs m' \<and> mx_sources m' = mx_sources m"
proof -
  let ?sr = "mx_output_sample_rate m" and ?ch = "mx_output_channel_num m"
  have C: "mixer_contract E reg" and L: "fs_lib_ok (env_file E) V outs" using E by (simp_all add: env_ok_def)
  have sh: "mx_shape reg m" and g: "geometry_ok ?sr ?ch 10" "100 \<le> ?sr" and re: "mx_real_output_samples m = ?sr div 100"
    using r by (simp_all add: mixer_ready_def)
  obtain f h w where l: "lib_Mix E (to_size_t ?ch) PreferredSampleRate_ptr (GetAudioFrame_ptr E) (mx_heap m)
        (mx_mixed_frame m) (mx_lib m) = Some (Inr (f, h, w))"
      "store_ready E M V outs (mx_sources m) h" "reg w = reg (mx_lib m)" "length (frame_data f) = kMaxDataSizeSamples"
    using lib_Mix_ready [OF C mixer_ready_store [OF r] mx_shapeD(5) [OF sh] mx_shapeD(7) [OF sh], of "to_size_t ?ch"]
    by (elim exE conjE)
  note sz = mix_size [OF L g]
  have W: "frame_contract (env_frame E)" using C by (simp add: mixer_contract_def)
  have fl: "length (frame_samples (env_frame E) f) = kMaxDataSizeSamples" using frame_samples_length [OF W l(4)] .
  let ?m = "m\<lparr>mx_lib := w, mx_heap := h, mx_mixed_frame := f\<rparr>"
  have "Mix E out m = Some (Inr (?ch * mx_real_output_samples m * 2,
      take (nat (?sr div 100 * ?ch)) (frame_samples (env_frame E) f) @ drop (nat (?sr div 100 * ?ch)) out, ?m))"
    using out sz fl by (simp add: Mix_def l(1) re Let_def)
  moreover have "mixer_ready E reg M V outs ?m"
    using r l(2,3,4) by (simp add: mixer_ready_def mx_shape_def store_ready_def)
  ultimately show ?thesis by (intro exI [of _ ?m]) simp
qed

section \<open>Progress of every call\<close>

datatype mixer_op =
    OpVolume int32 cfloat
  | OpRemove int32
  | OpRecorded int32 "sample list"
  | OpMix "sample list"
  | OpAddRecord MixerSource

fun exec_op ::
    "('w, 'swr, 'fmt, 'cc, 'pkt, 'par, 'codec, 'pcm, 'fifo) mixer_env \<Rightarrow> mixer_op \<Rightarrow>
     ('w, 'swr, 'fmt, 'cc, 'pkt, 'pcm, 'fifo) AudioMixer \<Rightarrow>
     ('w, 'swr, 'fmt, 'cc, 'pkt, 'pcm, 'fifo) AudioMixer result option" where
  "exec_op E (OpVolume ssrc v) m = Some (UpdateVolume_mixer ssrc v m)"
| "exec_op E (OpRemove ssrc) m = Some (Inr (snd (RemoveSource E ssrc m)))"
| "exec_op E (OpRecorded ssrc xs) m = Some (AddRecordedData E ssrc (map Some xs) (2 * int (length xs)) m)"
| "exec_op E (OpMix out) m = map_option (\<lambda>r. rbind r (\<lambda>(n, out', m'). Inr m')) (Mix E out m)"
| "exec_op E (OpAddRecord source) m = map_option (\<lambda>r. rbind r (\<lambda>(b, m'). Inr m')) (AddSource E source m)"

fun op_allowed :: "nat \<Rightarrow> mixer_op \<Rightarrow> ('w, 'swr, 'fmt, 'cc, 'pkt, 'pcm, 'fifo) AudioMixer \<Rightarrow> bool" where
  "op_allowed M (OpVolume ssrc v) m = True"
| "op_allowed M (OpRemove ssrc) m = True"
| "op_allowed M (OpRecorded ssrc xs) m =
     (case map_find ssrc (mx_sources m) of None \<Rightarrow> True | Some p \<Rightarrow>
        (case mx_heap m p of Some (RecordSource s) \<Rightarrow> length (rs_queue s) + length xs \<le> M | _ \<Rightarrow> False))"
| "op_allowed M (OpMix out) m =
     (nat (mx_output_sample_rate m div 100 * mx_output_channel_num m) \<le> length out)"
| "op_allowed M (OpAddRecord source) m =
     (src_type source = TYPE_RECORD \<and> map_find (src_ssrc source) (mx_sources m) = None \<and>
      src_sample_rate source = mx_output_sample_rate m \<and> src_channel_num source = mx_output_channel_num m)"

lemma obj_ready_volume: "obj_ready E M V outs obj \<Longrightarrow> obj_ready E M V outs (set_volume v obj)"
  by (cases obj) (auto simp: obj_ready_def set_volume_def UpdateVolume_def rs_tenms_def rs_inv_def fs_ready_def
      fs_inv_def fs_sizes_ok_def)

lemma UpdateVolume_ready:
  assumes r: "mixer_ready E reg M V outs m"
  shows "\<exists>m'. UpdateVolume_mixer ssrc v m = Inr m' \<and> mixer_ready E reg M V outs m'"
proof (cases "map_find ssrc (mx_sources m)")
  case None
  then show ?thesis using r by (simp add: UpdateVolume_mixer_def)
next
  case (Some p)
  have sh: "mx_shape reg m" using r by (simp add: mixer_ready_def)
  obtain obj where obj: "mx_heap m p = Some obj" using find_live [OF sh Some] by blast
  have "mx_shape reg (m\<lparr>mx_heap := (mx_heap m)(p \<mapsto> set_volume v obj)\<rparr>)" using store_update_shape [OF sh obj] by simp
  moreover have "obj_ready E M V outs (set_volume v obj)" using obj_ready_volume [OF mixer_ready_obj [OF r obj]] .
  ultimately show ?thesis using r Some obj by (simp add: UpdateVolume_mixer_def mixer_ready_def)
qed

lemma RemoveSource_ready:
  assumes R: "registers E reg" and r: "mixer_ready E reg M V outs m"
  shows "mixer_ready E reg M V outs (snd (RemoveSource E ssrc m))"
proof (cases "map_find ssrc (mx_sources m)")
  case None
  then show ?thesis using r by (simp add: RemoveSource_def)
next
  case (Some p)
  obtain b m' where rm: "RemoveSource E ssrc m = (b, m')" by fastforce
  have sh: "mx_shape reg m" using r by (simp add: mixer_ready_def)
  note k = RemoveSource_shape [OF R sh Some rm]
  have "mx_output_sample_rate m' = mx_output_sample_rate m" "mx_output_channel_num m' = mx_output_channel_num m"
      "mx_frame_duration_ms m' = mx_frame_duration_ms m" "mx_real_output_samples m' = mx_real_output_samples m"
    using rm Some by (auto simp: RemoveSource_def release_def split: if_splits)
  moreover have "obj_ready E M V outs obj" if "mx_heap m' q = Some obj" for q obj
    using that k(3,6) r by (cases "q = p") (auto simp: mixer_ready_def)
  ultimately show ?thesis using r k(1) rm by (simp add: mixer_ready_def)
qed

lemma AddRecordedData_ready:
  assumes r: "mixer_ready E reg M V outs m" and a: "op_allowed M (OpRecorded ssrc xs) m"
  shows "\<exists>m'. AddRecordedData E ssrc (map Some xs) (2 * int (length xs)) m = Inr m' \<and> mixer_ready E reg M V outs m'"
proof (cases "map_find ssrc (mx_sources m)")
  case None
  then show ?thesis using r by (simp add: AddRecordedData_def)
next
  case (Some p)
  then obtain s where s: "mx_heap m p = Some (RecordSource s)" "length (rs_queue s) + length xs \<le> M"
    using a by (auto split: option.splits source.splits)
  have t: "rs_tenms (env_frame E) (env_buf E) M s" using mixer_ready_obj [OF r s(1)] by (simp add: obj_ready_def)
  then have "rs_inv (env_buf E) M s" by (simp add: rs_tenms_def)
  from OnAudioRecorded_ok [OF this s(2)] obtain b where
    o: "OnAudioRecorded (env_buf E) (map Some xs) (2 * int (length xs)) s = Inr (s\<lparr>rs_buffer := b\<rparr>)"
      "rs_inv (env_buf E) M (s\<lparr>rs_buffer := b\<rparr>)" by auto
  let ?s = "RecordSource (s\<lparr>rs_buffer := b\<rparr>)"
  have sh: "mx_shape reg m" using r by (simp add: mixer_ready_def)
  have "mx_shape reg (m\<lparr>mx_heap := (mx_heap m)(p \<mapsto> ?s)\<rparr>)"
    using store_update_shape [OF sh s(1), of ?s] by (simp add: source_ssrc_def Ssrc_record_def)
  moreover have "obj_ready E M V outs ?s" using t o(2) by (simp add: obj_ready_def rs_tenms_def)
  ultimately show ?thesis using r Some s(1) o(1) by (simp add: AddRecordedData_def mixer_ready_def)
qed

lemma AddSource_ready:
  assumes E: "env_ok E reg M V outs" and r: "mixer_ready E reg M V outs m" and a: "op_allowed M (OpAddRecord source) m"
  shows "\<exists>m'. AddSource E source m = Some (Inr (True, m')) \<and> mixer_ready E reg M V outs m'"
proof -
  have C: "mixer_contract E reg" "elem_bytes (env_buf E) = 2" "M < 2 ^ 30" using E by (simp_all add: env_ok_def)
  have R: "registers E reg" using C(1) by (simp add: mixer_contract_def)
  have g: "geometry_ok (mx_output_sample_rate m) (mx_output_channel_num m) 10" and fd: "mx_frame_duration_ms m = 10"
    and sh: "mx_shape reg m" using r by (simp_all add: mixer_ready_def)
  have new: "map_find (src_ssrc source) (mx_sources m) = None" using a by simp
  obtain s where s: "AudioRecordSource_ctor (env_buf E) (src_ssrc source) (mx_output_sample_rate m)
        (mx_output_channel_num m) 10 (src_volume source) = Inr s" "rs_inv (env_buf E) M s" "rs_frame_duration_ms s = 10"
    using AudioRecordSource_ctor_ok [OF g C(2,3), of "src_ssrc source" "src_volume source"] by blast
  let ?p = "mx_next m"
  let ?m1 = "snd (make_shared (src_ssrc source) (RecordSource s) m)"
  let ?m = "?m1\<lparr>mx_lib := snd (lib_AddSource E ?p (mx_lib m))\<rparr>"
  have d: "DoAddSource E source m = Some (Inr (?p, ?m1))"
    using a s(1) fd by (simp add: DoAddSource_def make_shared_def)
  have "?p \<in> snd ` set (mx_sources ?m1)" using insert_entries [OF new, of ?p] by (simp add: make_shared_def)
  then have run: "AddSource E source m = Some (Inr (True, ?m))"
    using d by (simp add: AddSource_def release_def make_shared_def)
  have "obj_ready E M V outs (RecordSource s)"
    using s(2,3) C(1) by (simp add: obj_ready_def rs_tenms_def mixer_contract_def)
  then have "mixer_ready E reg M V outs ?m"
    using AddSource_shape(1) [OF R sh new run] r by (simp add: mixer_ready_def make_shared_def)
  then show ?thesis using run by blast
qed

section \<open>Sample rates\<close>

definition NativeRate :: "int32 set" where
  "NativeRate = {8000, 16000, 32000, 48000}"

definition source_rate :: "('swr, 'fmt, 'cc, 'pkt, 'pcm, 'fifo) source \<Rightarrow> int32" where
  "source_rate obj = (case obj of
     RecordSource s \<Rightarrow> PreferredSampleRate_record s | FileSource s \<Rightarrow> PreferredSampleRate_file s)"

definition rates_ok :: "int32 \<Rightarrow> ('swr, 'fmt, 'cc, 'pkt, 'pcm, 'fifo) store \<Rightarrow> bool" where
  "rates_ok sr h \<longleftrightarrow> (\<forall>p obj. h p = Some obj \<longrightarrow> source_rate obj = sr)"

lemma rates_ok_update: "rates_ok sr h \<Longrightarrow> source_rate obj = sr \<Longrightarrow> rates_ok sr (h(p \<mapsto> obj))"
  by (simp add: rates_ok_def)

lemma rates_ok_delete: "rates_ok sr h \<Longrightarrow> rates_ok sr (h(p := None))"
  by (simp add: rates_ok_def)

lemma rates_ok_live: "rates_ok sr h \<Longrightarrow> h p = Some obj \<Longrightarrow> source_rate obj = sr"
  by (simp add: rates_ok_def)

lemma GetAudioFrame_record_rate:
  "GetAudioFrameWithInfo_record W c hz f s = Inr (a, f', s') \<Longrightarrow> rs_sample_rate s' = rs_sample_rate s"
  by (auto simp: GetAudioFrameWithInfo_record_def rbind_eq_Inr Let_def split: if_splits)

lemma Read_rate: "Read F out s = Some (Inr (n, out', s')) \<Longrightarrow> fs_output_sample_rate s' = fs_output_sample_rate s"
  by (auto simp: Read_def rbind_eq_Inr Let_def split: option.splits sum.splits if_splits)

lemma GetAudioFrame_file_rate:
  "GetAudioFrameWithInfo_file W F hz f s = Some (Inr (a, f', s')) \<Longrightarrow> fs_output_sample_rate s' = fs_output_sample_rate s"
  by (auto simp: GetAudioFrameWithInfo_file_def Let_def split: option.splits sum.splits if_splits dest: Read_rate)

lemma GetAudioFrame_ptr_rates:
  assumes o: "rates_ok sr h" and g: "GetAudioFrame_ptr E p hz f h = Some (Inr (a, f', h'))"
  shows "rates_ok sr h'"
proof (cases "h p")
  case None
  then show ?thesis using g by (simp add: GetAudioFrame_ptr_def)
next
  case (Some obj)
  show ?thesis
  proof (cases obj)
    case (RecordSource s)
    then obtain s' where r: "GetAudioFrameWithInfo_record (env_frame E) (env_buf E) hz f s = Inr (a, f', s')"
        "h' = h(p \<mapsto> RecordSource s')"
      using g Some by (auto simp: GetAudioFrame_ptr_def rbind_eq_Inr)
    then show ?thesis using rates_ok_update [OF o] rates_ok_live [OF o Some] RecordSource GetAudioFrame_record_rate [OF r(1)]
      by (simp add: source_rate_def PreferredSampleRate_record_def)
  next
    case (FileSource s)
    then obtain s' where r: "GetAudioFrameWithInfo_file (env_frame E) (env_file E) hz f s = Some (Inr (a, f', s'))"
        "h' = h(p \<mapsto> FileSource s')"
      using g Some by (auto simp: GetAudioFrame_ptr_def rbind_eq_Inr split: option.splits)
    then show ?thesis using rates_ok_update [OF o] rates_ok_live [OF o Some] FileSource GetAudioFrame_file_rate [OF r(1)]
      by (simp add: source_rate_def PreferredSampleRate_file_def)
  qed
qed

lemma AudioRecordSource_ctor_rate: "AudioRecordSource_ctor c ssrc sr ch fd v = Inr s \<Longrightarrow> rs_sample_rate s = sr"
  by (auto simp: AudioRecordSource_ctor_def rbind_eq_Inr)

lemma AudioFileSource_ctor_rate:
  "AudioFileSource_ctor F ssrc path sr ch fd v = Some (Inr s) \<Longrightarrow> fs_output_sample_rate s = sr"
  by (auto simp: AudioFileSource_ctor_def rbind_eq_Inr Let_def case_prod_beta split: option.splits sum.splits)

lemma DoAddSource_rates:
  assumes d: "DoAddSource E source m = Some (Inr (p, m1))" and o: "rates_ok (mx_output_sample_rate m) (mx_heap m)"
  shows "rates_ok (mx_output_sample_rate m1) (mx_heap m1)"
proof (cases "src_type source = TYPE_RECORD")
  case True
  then obtain s where c: "AudioRecordSource_ctor (env_buf E) (src_ssrc source) (mx_output_sample_rate m)
      (mx_output_channel_num m) (mx_frame_duration_ms m) (src_volume source) = Inr s"
      "m1 = snd (make_shared (src_ssrc source) (RecordSource s) m)"
    using d by (auto simp: DoAddSource_def rbind_eq_Inr)
  then show ?thesis using rates_ok_update [OF o] AudioRecordSource_ctor_rate [OF c(1)]
    by (simp add: make_shared_def source_rate_def PreferredSampleRate_record_def)
next
  case False
  then obtain s where c: "AudioFileSource_ctor (env_file E) (src_ssrc source) (src_path source) (mx_output_sample_rate m)
      (mx_output_channel_num m) (mx_frame_duration_ms m) (src_volume source) = Some (Inr s)"
      "m1 = snd (make_shared (src_ssrc source) (FileSource s) m)"
    using d by (auto simp: DoAddSource_def rbind_eq_Inr split: option.splits)
  then show ?thesis using rates_ok_update [OF o] AudioFileSource_ctor_rate [OF c(1)]
    by (simp add: make_shared_def source_rate_def PreferredSampleRate_file_def)
qed

lemma release_rates:
  "rates_ok (mx_output_sample_rate m) (mx_heap m) \<Longrightarrow> rates_ok (mx_output_sample_rate (release p m)) (mx_heap (release p m))"
  by (simp add: release_def rates_ok_delete)

lemma add_all_rates:
  "rates_ok (mx_output_sample_rate m) (mx_heap m) \<Longrightarrow> add_all E ss m = Some (Inr m') \<Longrightarrow>
   rates_ok (mx_output_sample_rate m') (mx_heap m')"
proof (induction ss arbitrary: m)
  case Nil
  then show ?case by simp
next
  case (Cons source ss)
  obtain p m1 where d: "DoAddSource E source m = Some (Inr (p, m1))" and rest: "add_all E ss (release p m1) = Some (Inr m')"
    using Cons.prems(2) by (auto split: option.splits sum.splits)
  show ?case using Cons.IH [OF release_rates [OF DoAddSource_rates [OF d Cons.prems(1)]] rest] .
qed

lemma AudioMixer_ctor_rates:
  assumes c: "AudioMixer_ctor E config = Some (Inr m)"
  shows "rates_ok (mx_output_sample_rate m) (mx_heap m)"
proof -
  obtain report real_samples m0 f where "cfg_frame_duration_ms config \<le> kFrameDurationInMs"
    "c_div (cfg_output_sample_rate config) 100 = Inr report"
    "\<exists>k. c_div 1000 (cfg_frame_duration_ms config) = Inr k \<and> c_div (cfg_output_sample_rate config) k = Inr real_samples"
    and a: "add_all E (cfg_sources config)
       \<lparr>mx_lib = lib_Create E, mx_sources = [], mx_heap = Map.empty, mx_next = 0, mx_mixed_frame = AudioFrame_init,
        mx_output_sample_rate = cfg_output_sample_rate config, mx_output_channel_num = cfg_output_channel_num config,
        mx_frame_duration_ms = cfg_frame_duration_ms config, mx_report_output_samples = report,
        mx_real_output_samples = real_samples\<rparr> = Some (Inr m0)"
    and "UpdateFrame (env_frame E) 0 None (to_size_t report) (cfg_output_sample_rate config) kUndefined kVadUnknown
       (to_size_t (cfg_output_channel_num config)) (mx_mixed_frame (register_all E m0)) = Inr f"
    and m: "m = (register_all E m0)\<lparr>mx_mixed_frame := f\<rparr>"
    by (rule AudioMixer_ctor_parts [OF c])
  have "rates_ok (mx_output_sample_rate m0) (mx_heap m0)" using add_all_rates [OF _ a] by (simp add: rates_ok_def)
  then show ?thesis by (simp add: m register_all_def)
qed

lemma reach_rates:
  assumes C: "mixer_contract E reg"
  shows "mixer_reach E m \<Longrightarrow> rates_ok (mx_output_sample_rate m) (mx_heap m)"
proof (induction rule: mixer_reach.induct)
  case (created config m)
  then show ?case using AudioMixer_ctor_rates by blast
next
  case (volume m ssrc v m')
  show ?case
  proof (cases "map_find ssrc (mx_sources m)")
    case None
    then show ?thesis using volume by (simp add: UpdateVolume_mixer_def)
  next
    case (Some p)
    then obtain obj where obj: "mx_heap m p = Some obj" "m' = m\<lparr>mx_heap := (mx_heap m)(p \<mapsto> set_volume v obj)\<rparr>"
      using volume(2) by (auto simp: UpdateVolume_mixer_def split: option.splits)
    have "source_rate (set_volume v obj) = source_rate obj"
      by (cases obj) (simp_all add: source_rate_def set_volume_def UpdateVolume_def PreferredSampleRate_record_def PreferredSampleRate_file_def)
    then have "rates_ok (mx_output_sample_rate m) ((mx_heap m)(p \<mapsto> set_volume v obj))"
      using rates_ok_live [OF volume(3) obj(1)] by (intro rates_ok_update [OF volume(3)]) simp
    then show ?thesis using obj(2) by (simp del: fun_upd_apply)
  qed
next
  case (added m source b m')
  obtain p m1 where d: "DoAddSource E source m = Some (Inr (p, m1))"
      and m': "m' = release p (m1\<lparr>mx_lib := snd (lib_AddSource E p (mx_lib m1))\<rparr>)"
    using added(3) by (auto simp: AddSource_def rbind_eq_Inr split: option.splits)
  show ?case using DoAddSource_rates [OF d added(4)] unfolding m' by (intro release_rates) simp
next
  case (removed m ssrc b m')
  then show ?case by (auto simp: RemoveSource_def release_def rates_ok_def split: option.splits if_splits)
next
  case (mixed m out n out' m')
  obtain f h w where l: "lib_Mix E (to_size_t (mx_output_channel_num m)) PreferredSampleRate_ptr (GetAudioFrame_ptr E)
      (mx_heap m) (mx_mixed_frame m) (mx_lib m) = Some (Inr (f, h, w))"
    and m': "m' = m\<lparr>mx_lib := w, mx_heap := h, mx_mixed_frame := f\<rparr>"
    using Mix_parts [OF mixed(2)] by blast
  have e: "mix_effects E reg" using C by (simp add: mixer_contract_def)
  have keep: "\<forall>p \<in> set (reg (mx_lib m)). \<forall>hz g k a g' k'. rates_ok (mx_output_sample_rate m) k \<longrightarrow>
      length (frame_data g) = kMaxDataSizeSamples \<longrightarrow>
      GetAudioFrame_ptr E p hz g k = Some (Inr (a, g', k')) \<longrightarrow> rates_ok (mx_output_sample_rate m) k'"
    using GetAudioFrame_ptr_rates by blast
  have "rates_ok (mx_output_sample_rate m) h"
    using e [unfolded mix_effects_def, rule_format, of "rates_ok (mx_output_sample_rate m)",
        OF mixed(3) _ mx_shapeD(7) [OF reach_shape [OF C mixed(1)]] l] keep by blast
  then show ?case by (simp add: m')
next
  case (fed m ssrc data k m')
  show ?case
  proof (cases "map_find ssrc (mx_sources m)")
    case None
    then show ?thesis using fed by (simp add: AddRecordedData_def)
  next
    case (Some p)
    then obtain s s' where s: "mx_heap m p = Some (RecordSource s)" "OnAudioRecorded (env_buf E) data k s = Inr s'"
        "m' = m\<lparr>mx_heap := (mx_heap m)(p \<mapsto> RecordSource s')\<rparr>"
      using fed(2) by (auto simp: AddRecordedData_def rbind_eq_Inr split: option.splits source.splits)
    have "rs_sample_rate s' = rs_sample_rate s" using s(2) by (auto simp: OnAudioRecorded_def rbind_eq_Inr)
    then have "source_rate (RecordSource s') = mx_output_sample_rate m"
      using rates_ok_live [OF fed(3) s(1)] by (simp add: source_rate_def PreferredSampleRate_record_def)
    from rates_ok_update [OF fed(3) this] show ?thesis using s(3) by (simp del: fun_upd_apply)
  qed
qed

end
