(* ===== verification/Mixer_Properties.thy ===== *)
theory Mixer_Properties
  imports Mixer_Safety
begin

text \<open>
  The properties of the mixer object, with the concrete environment that their witnesses use: a
  WebRTC mixer whose state is the list of registered pointers, and the demonstration libraries of
  the other theories.
\<close>

section \<open>A concrete environment\<close>

fun poll_each :: "(nat \<Rightarrow> int32 \<Rightarrow> AudioFrame \<Rightarrow> 'h \<Rightarrow> (AudioFrameInfo \<times> AudioFrame \<times> 'h) result option) \<Rightarrow>
    nat list \<Rightarrow> 'h \<Rightarrow> 'h result option" where
  "poll_each get [] h = Some (Inr h)"
| "poll_each get (p # ps) h =
     (case get p 48000 AudioFrame_init h of
        None \<Rightarrow> None
      | Some (Inl e) \<Rightarrow> Some (Inl e)
      | Some (Inr (a, f, h')) \<Rightarrow> poll_each get ps h')"

type_synonym demo_store = "(nat, demo_pkt list, demo_cc, demo_pkt, int, int list) store"
type_synonym demo_get =
  "nat \<Rightarrow> int32 \<Rightarrow> AudioFrame \<Rightarrow> demo_store \<Rightarrow> (AudioFrameInfo \<times> AudioFrame \<times> demo_store) result option"
type_synonym demo_mixer = "(nat list, nat, demo_pkt list, demo_cc, demo_pkt, int, int list) AudioMixer"

definition demo_env :: "(nat list, nat, demo_pkt list, demo_cc, demo_pkt, unit, unit, int, int list) mixer_env" where
  "demo_env = \<lparr>env_frame = demo_webrtc, env_buf = demo_cfg, env_file = demo_file,
     lib_Create = [], lib_AddSource = (\<lambda>p w. (True, w @ [p])), lib_RemoveSource = (\<lambda>p w. filter (\<lambda>q. q \<noteq> p) w),
     lib_Mix = (\<lambda>n pref get h f w.
       if \<exists>p \<in> set w. pref p h = Inl UseAfterFree then Some (Inl UseAfterFree)
       else (case poll_each get w h of
               None \<Rightarrow> None | Some (Inl e) \<Rightarrow> Some (Inl e) | Some (Inr h') \<Rightarrow> Some (Inr (f, h', w))))\<rparr>"

lemma poll_each_inv:
  "I h \<Longrightarrow> \<forall>p \<in> set ps. \<forall>hz g k a g' k'. I k \<longrightarrow> length (frame_data g) = kMaxDataSizeSamples \<longrightarrow>
     get p hz g k = Some (Inr (a, g', k')) \<longrightarrow> I k' \<Longrightarrow> poll_each get ps h = Some (Inr h') \<Longrightarrow> I h'"
proof (induction ps arbitrary: h)
  case Nil
  then show ?case by simp
next
  case (Cons p ps)
  obtain a f h1 where g: "get p 48000 AudioFrame_init h = Some (Inr (a, f, h1))" "poll_each get ps h1 = Some (Inr h')"
    using Cons.prems(3) by (auto split: option.splits sum.splits)
  have "I h1" using Cons.prems(1,2) g(1) AudioFrame_init_storage by (metis list.set_intros(1))
  then show ?case using Cons.IH [OF _ _ g(2)] Cons.prems(2) by (metis list.set_intros(2))
qed

lemma poll_each_total:
  "I h \<Longrightarrow> \<forall>p \<in> set ps. \<forall>k. I k \<longrightarrow> (\<forall>hz g. length (frame_data g) = kMaxDataSizeSamples \<longrightarrow>
     (\<exists>a g' k'. get p hz g k = Some (Inr (a, g', k')) \<and> I k')) \<Longrightarrow> \<exists>h'. poll_each get ps h = Some (Inr h')"
proof (induction ps arbitrary: h)
  case Nil
  then show ?case by simp
next
  case (Cons p ps)
  obtain a f h1 where g: "get p 48000 AudioFrame_init h = Some (Inr (a, f, h1))" "I h1"
    using Cons.prems AudioFrame_init_storage by (metis list.set_intros(1))
  then show ?case using Cons.IH [OF g(2)] Cons.prems(2) by simp
qed

lemma demo_mix_effects: "mix_effects demo_env (\<lambda>w. w)"
  unfolding mix_effects_def
proof (intro allI impI)
  fix I n pref and get :: demo_get and h :: demo_store and f w f' h' w'
  assume a: "I h" "\<forall>p \<in> set w. \<forall>hz g k a g' k'. I k \<longrightarrow> length (frame_data g) = kMaxDataSizeSamples \<longrightarrow>
      get p hz g k = Some (Inr (a, g', k')) \<longrightarrow> I k'" "length (frame_data f) = kMaxDataSizeSamples"
    and m: "lib_Mix demo_env n pref get h f w = Some (Inr (f', h', w'))"
  have "poll_each get w h = Some (Inr h') \<and> f' = f \<and> w' = w"
    using m by (auto simp: demo_env_def split: if_splits option.splits sum.splits)
  then show "I h' \<and> w' = w \<and> length (frame_data f') = kMaxDataSizeSamples"
    using poll_each_inv [OF a(1,2)] a(3) by blast
qed

lemma demo_mix_total: "mix_total demo_env (\<lambda>w. w)"
  unfolding mix_total_def
proof (intro allI impI)
  fix I n and pref :: "nat \<Rightarrow> demo_store \<Rightarrow> int32 result" and get :: demo_get and h :: demo_store and f w
  assume a: "I h" "\<forall>p \<in> set w. \<forall>k. I k \<longrightarrow> (\<exists>r. pref p k = Inr r) \<and>
      (\<forall>hz g. length (frame_data g) = kMaxDataSizeSamples \<longrightarrow> (\<exists>a g' k'. get p hz g k = Some (Inr (a, g', k')) \<and> I k'))"
  have "\<exists>h'. poll_each get w h = Some (Inr h')" using poll_each_total [of I h w get] a by blast
  moreover have "\<not> (\<exists>p \<in> set w. pref p h = Inl UseAfterFree)" using a by (metis sum.distinct(1))
  ultimately show "\<exists>f' h' w'. lib_Mix demo_env n pref get h f w = Some (Inr (f', h', w'))"
    by (auto simp: demo_env_def)
qed

lemma demo_env_contract: "mixer_contract demo_env (\<lambda>w. w)"
proof -
  have "registers demo_env (\<lambda>w. w)" by (simp add: registers_def demo_env_def)
  moreover have "mix_asks_all demo_env (\<lambda>w. w)" by (auto simp: mix_asks_all_def demo_env_def)
  moreover have "frame_contract (env_frame demo_env)" by (simp add: demo_env_def demo_webrtc_contract)
  ultimately show ?thesis using demo_mix_effects demo_mix_total by (simp add: mixer_contract_def)
qed

lemma demo_env_ok: "env_ok demo_env (\<lambda>w. w) 1000 demo_view (\<lambda>x. x)"
  using demo_env_contract demo_file_ok by (simp add: env_ok_def) (simp add: demo_env_def demo_cfg_def)

definition demo_mixer :: demo_mixer where
  \<comment> \<open>300 Hz mono with one record source under \<open>ssrc\<close> 7\<close>
  "demo_mixer = \<lparr>mx_lib = [0], mx_sources = [(7, 0)], mx_heap = [0 \<mapsto> RecordSource demo_record], mx_next = 1,
     mx_mixed_frame = AudioFrame_init, mx_output_sample_rate = 300, mx_output_channel_num = 1,
     mx_frame_duration_ms = 10, mx_report_output_samples = 3, mx_real_output_samples = 3\<rparr>"

lemma demo_mixer_shape: "mx_shape (\<lambda>w. w) demo_mixer"
  by (simp add: mx_shape_def demo_mixer_def owned_def source_ssrc_def Ssrc_record_def demo_record_def
      AudioFrame_init_storage)

lemma demo_mixer_ready: "mixer_ready demo_env (\<lambda>w. w) 100 demo_view (\<lambda>x. x) demo_mixer"
proof -
  have "obj_ready demo_env 100 demo_view (\<lambda>x. x) (RecordSource demo_record)"
    using demo_record_exact by (simp add: obj_ready_def demo_env_def rs_exact_def)
  then have "\<forall>p obj. mx_heap demo_mixer p = Some obj \<longrightarrow> obj_ready demo_env 100 demo_view (\<lambda>x. x) obj"
    by (simp add: demo_mixer_def)
  then show ?thesis
    using demo_mixer_shape by (simp add: mixer_ready_def)
      (simp add: demo_mixer_def geometry_ok_def kFrameDurationInMs_def in_int32_def kMaxDataSizeSamples_def)
qed

definition demo_record_config :: "int32 \<Rightarrow> MixerSource" where
  "demo_record_config ssrc = \<lparr>src_type = TYPE_RECORD, src_ssrc = ssrc, src_volume = Finite 1, src_path = [],
     src_sample_rate = 300, src_channel_num = 1\<rparr>"

section \<open>Properties\<close>

lemma OnAudioRecorded_raises: "raises_only buffer_faults (OnAudioRecorded c data n s)"
  unfolding OnAudioRecorded_def by (intro raises_only_bind AppendData_raises raises_only_Inr)

lemma OnAudioRecorded_not: "OnAudioRecorded c data n s \<noteq> Inl UseAfterFree" "OnAudioRecorded c data n s \<noteq> Inl TypeConfusion"
  by (rule raises_onlyD [OF OnAudioRecorded_raises], simp add: buffer_faults_def)+

text \<open>Claim C1. Ownership is sound while no \<open>ssrc\<close> is added twice: in every mixer reachable by any
  sequence of calls, the pointers registered with the WebRTC mixer are exactly those of the
  sources the map holds, each of them is a live object filed under its own \<open>ssrc\<close>, and neither
  a volume change nor recorded data can touch a destroyed source.\<close>

theorem mixer_no_dangling:
  assumes C: "mixer_contract E reg" and r: "mixer_reach E m"
  shows "set (reg (mx_lib m)) = snd ` set (mx_sources m) \<and> distinct (reg (mx_lib m)) \<and>
    (\<forall>p \<in> set (reg (mx_lib m)). \<exists>obj. mx_heap m p = Some obj \<and> (source_ssrc obj, p) \<in> set (mx_sources m)) \<and>
    (\<forall>ssrc v. UpdateVolume_mixer ssrc v m \<noteq> Inl UseAfterFree) \<and>
    (\<forall>ssrc data n. AddRecordedData E ssrc data n m \<noteq> Inl UseAfterFree)"
proof -
  note sh = reach_shape [OF C r]
  have "\<exists>obj. mx_heap m p = Some obj \<and> (source_ssrc obj, p) \<in> set (mx_sources m)" if p: "p \<in> set (reg (mx_lib m))" for p
  proof -
    obtain k where k: "(k, p) \<in> set (mx_sources m)" using p mx_shapeD(5) [OF sh] by auto
    obtain obj where "mx_heap m p = Some obj" using p mx_shapeD(3,5) [OF sh] by blast
    then show ?thesis using k mx_shapeD(8) [OF sh k] by blast
  qed
  moreover have "UpdateVolume_mixer ssrc v m \<noteq> Inl UseAfterFree" for ssrc v using UpdateVolume_shape [OF sh, of ssrc v] by auto
  moreover have "AddRecordedData E ssrc data n m \<noteq> Inl UseAfterFree" for ssrc data n
  proof (cases "map_find ssrc (mx_sources m)")
    case None
    then show ?thesis by (simp add: AddRecordedData_def)
  next
    case (Some p)
    obtain obj where "mx_heap m p = Some obj" using find_live [OF sh Some] by blast
    then show ?thesis using Some OnAudioRecorded_not(1) [of "env_buf E" data n]
      by (cases obj) (auto simp: AddRecordedData_def rbind_def split: sum.splits)
  qed
  ultimately show ?thesis using mx_shapeD(5,6) [OF sh] by blast
qed

lemma demo_created:
  "\<exists>m. AudioMixer_ctor demo_env \<lparr>cfg_sources = [demo_record_config 9, demo_record_config 4],
     cfg_output_sample_rate = 300, cfg_output_channel_num = 1, cfg_frame_duration_ms = 10\<rparr> = Some (Inr m) \<and>
     map fst (mx_sources m) = [4, 9]"
proof -
  have g: "geometry_ok 300 1 10" by (simp add: geometry_ok_def kFrameDurationInMs_def in_int32_def kMaxDataSizeSamples_def)
  have c: "elem_bytes demo_cfg = 2" by (simp add: demo_cfg_def)
  obtain s9 where s9: "AudioRecordSource_ctor demo_cfg 9 300 1 10 (Finite 1) = Inr s9"
    using AudioRecordSource_ctor_ok [OF g c, of 1] by fastforce
  obtain s4 where s4: "AudioRecordSource_ctor demo_cfg 4 300 1 10 (Finite 1) = Inr s4"
    using AudioRecordSource_ctor_ok [OF g c, of 1] by fastforce
  have d: "c_div 1000 kFrameDurationInMs = Inr 100" "c_div 300 100 = Inr 3" "c_div 1000 10 = Inr 100"
      "10 \<le> kFrameDurationInMs"
    by (simp_all add: kFrameDurationInMs_def c_div_pos in_int32_def)
  have add: "DoAddSource demo_env (demo_record_config k) m = Some (Inr (make_shared k (RecordSource s) m))"
    if "AudioRecordSource_ctor demo_cfg k 300 1 10 (Finite 1) = Inr s" "mx_output_sample_rate m = 300"
      "mx_output_channel_num m = 1" "mx_frame_duration_ms m = 10" for k s and m :: demo_mixer
    using that by (simp add: DoAddSource_def demo_record_config_def demo_env_def)
  define i :: demo_mixer where "i = \<lparr>mx_lib = [], mx_sources = [], mx_heap = Map.empty, mx_next = 0, mx_mixed_frame = AudioFrame_init,
    mx_output_sample_rate = 300, mx_output_channel_num = 1, mx_frame_duration_ms = 10,
    mx_report_output_samples = 3, mx_real_output_samples = 3\<rparr>"
  obtain m where m: "add_all demo_env [demo_record_config 9, demo_record_config 4] i = Some (Inr m)"
      "mx_sources m = [(4, 1), (9, 0)]"
    using add [OF s9, of i] add [OF s4, of "release 0 (snd (make_shared 9 (RecordSource s9) i))"]
    by (simp add: i_def make_shared_def release_def)
  obtain f where f: "UpdateFrame (env_frame demo_env) 0 None (to_size_t 3) 300 kUndefined kVadUnknown (to_size_t 1)
      (mx_mixed_frame (register_all demo_env m)) = Inr f"
    by (simp add: demo_env_def demo_webrtc_def demo_UpdateFrame_def)
  have "lib_Create demo_env = []" by (simp add: demo_env_def)
  then have "AudioMixer_ctor demo_env \<lparr>cfg_sources = [demo_record_config 9, demo_record_config 4],
     cfg_output_sample_rate = 300, cfg_output_channel_num = 1, cfg_frame_duration_ms = 10\<rparr> =
     Some (Inr ((register_all demo_env m)\<lparr>mx_mixed_frame := f\<rparr>))"
    using m(1) f by (simp add: AudioMixer_ctor_def d i_def Let_def del: add_all.simps)
  moreover have "mx_sources (register_all demo_env m) = [(4, 1), (9, 0)]" using m(2) by (simp add: register_all_def)
  ultimately show ?thesis by simp
qed

theorem mixer_no_dangling_witness:
  "\<exists>m. AudioMixer_ctor demo_env \<lparr>cfg_sources = [demo_record_config 9, demo_record_config 4],
     cfg_output_sample_rate = 300, cfg_output_channel_num = 1, cfg_frame_duration_ms = 10\<rparr> = Some (Inr m) \<and>
     (\<forall>p \<in> set (mx_lib m). \<exists>obj. mx_heap m p = Some obj) \<and> set (mx_lib m) = snd ` set (mx_sources m)"
proof -
  obtain m where c: "AudioMixer_ctor demo_env \<lparr>cfg_sources = [demo_record_config 9, demo_record_config 4],
     cfg_output_sample_rate = 300, cfg_output_channel_num = 1, cfg_frame_duration_ms = 10\<rparr> = Some (Inr m)"
    using demo_created by blast
  note n = mixer_no_dangling [OF demo_env_contract mixer_reach.created [OF c]]
  show ?thesis
  proof (intro exI conjI)
    show "AudioMixer_ctor demo_env \<lparr>cfg_sources = [demo_record_config 9, demo_record_config 4],
      cfg_output_sample_rate = 300, cfg_output_channel_num = 1, cfg_frame_duration_ms = 10\<rparr> = Some (Inr m)" by (rule c)
    show "\<forall>p \<in> set (mx_lib m). \<exists>obj. mx_heap m p = Some obj" using n [THEN conjunct2, THEN conjunct2, THEN conjunct1] by auto
    show "set (mx_lib m) = snd ` set (mx_sources m)" using n [THEN conjunct1] .
  qed
qed

text \<open>Claim C25. \<open>AddSource\<close> with an \<open>ssrc\<close> that is already in use reports success, but the map keeps the old
  source, the new one is destroyed when the call returns, and its pointer stays registered: the
  next \<open>Mix\<close> uses freed memory.\<close>

theorem mixer_duplicate_ssrc_dangles:
  assumes C: "mixer_contract E reg" and sh: "mx_shape reg m"
    and dup: "map_find (src_ssrc source) (mx_sources m) = Some q"
    and r: "AddSource E source m = Some (Inr (b, m'))"
  shows "b \<and> mx_sources m' = mx_sources m \<and> mx_next m \<in> set (reg (mx_lib m')) \<and> mx_heap m' (mx_next m) = None \<and>
    Mix E out m' = Some (Inl UseAfterFree)"
proof -
  obtain p m1 where d: "DoAddSource E source m = Some (Inr (p, m1))"
      and m': "m' = release p (m1\<lparr>mx_lib := snd (lib_AddSource E p (mx_lib m1))\<rparr>)" and b: b
    using r by (auto simp: AddSource_def rbind_eq_Inr split: option.splits)
  obtain obj where mk: "(p, m1) = make_shared (src_ssrc source) obj m" using DoAddSource_ok [OF d] .
  note f = make_shared_dup [OF sh dup mk]
  have R: "registers E reg" and A: "mix_asks_all E reg" using C by (simp_all add: mixer_contract_def)
  have rel: "mx_sources m' = mx_sources m" "mx_heap m' p = None" "mx_lib m' = snd (lib_AddSource E p (mx_lib m))"
    using m' f(3-5) by (simp_all add: release_def)
  have hp: "mx_heap m' = (mx_heap m1)(p := None)" using m' f(4,5) by (simp add: release_def)
  have np: "p \<notin> set (reg (mx_lib m))" using f(5) mx_shapeD(5) [OF sh] by simp
  have rg: "reg (mx_lib m') = reg (mx_lib m) @ [p]" using rel(3) registersD(1) [OF R np] by simp
  have bad: "PreferredSampleRate_ptr p (mx_heap m') = Inl UseAfterFree" using rel(2) by (simp add: PreferredSampleRate_ptr_def)
  have all: "PreferredSampleRate_ptr x (mx_heap m') = Inl UseAfterFree \<or> (\<exists>r. PreferredSampleRate_ptr x (mx_heap m') = Inr r)" for x
    by (cases "mx_heap m' x") (auto simp: PreferredSampleRate_ptr_def split: source.splits)
  have "lib_Mix E (to_size_t (mx_output_channel_num m')) PreferredSampleRate_ptr (GetAudioFrame_ptr E) (mx_heap m')
      (mx_mixed_frame m') (mx_lib m') = Some (Inl UseAfterFree)"
    using A bad all rg unfolding mix_asks_all_def by (metis in_set_conv_decomp)
  then show ?thesis using b rel rg f(1) by (simp add: Mix_def)
qed

theorem mixer_duplicate_ssrc_dangles_witness:
  "\<exists>m'. AddSource demo_env (demo_record_config 7) demo_mixer = Some (Inr (True, m')) \<and>
     mx_heap m' 1 = None \<and> Mix demo_env (replicate 10 0) m' = Some (Inl UseAfterFree)"
proof -
  have g: "geometry_ok 300 1 10" by (simp add: geometry_ok_def kFrameDurationInMs_def in_int32_def kMaxDataSizeSamples_def)
  have c: "elem_bytes demo_cfg = 2" by (simp add: demo_cfg_def)
  obtain s where s: "AudioRecordSource_ctor demo_cfg 7 300 1 10 (Finite 1) = Inr s"
    using AudioRecordSource_ctor_ok [OF g c, of 1] by fastforce
  obtain m' where r: "AddSource demo_env (demo_record_config 7) demo_mixer = Some (Inr (True, m'))"
    by (simp add: AddSource_def DoAddSource_def demo_record_config_def demo_env_def demo_mixer_def s make_shared_def)
  have "map_find (src_ssrc (demo_record_config 7)) (mx_sources demo_mixer) = Some 0"
    by (simp add: demo_record_config_def demo_mixer_def)
  from mixer_duplicate_ssrc_dangles [OF demo_env_contract demo_mixer_shape this r, of "replicate 10 0"] r
  show ?thesis by (simp add: demo_mixer_def)
qed







end
