(* ===== verification/Mixer_Lifecycle.thy ===== *)
theory Mixer_Lifecycle
  imports Mixer_Properties
begin

text \<open>
  The life of a mixer from its construction to its destruction: which configurations \<open>Create\<close> rejects
  and how, that removing a source undoes adding it, and that the destructor leaves no pointer
  registered and no source alive.
\<close>

section \<open>Construction\<close>

lemma c_div_zero [simp]: "c_div a 0 = Inl DivideByZero"
  by (simp add: c_div_def)

lemma c_div_100:
  assumes "in_int32 a"
  shows "\<exists>q. c_div a 100 = Inr q"
proof -
  have "a sdiv 100 = (if a < 0 then - (- a div 100) else a div 100)"
    by (simp add: signed_divide_int_def abs_if sgn_if)
  then have "in_int32 (a sdiv 100)" using assms by (auto simp: in_int32_def)
  then show ?thesis by (simp add: c_div_def c_int32_def)
qed

lemma c_div_1000_far: "d < -1000 \<Longrightarrow> c_div 1000 d = Inr 0"
  by (simp add: c_div_def c_int32_def signed_divide_int_def abs_if sgn_if div_pos_pos_trivial in_int32_def)

lemma DoAddSource_checks:
  assumes "DoAddSource E source m = Some (Inr r)" "src_type source = TYPE_RECORD"
  shows "src_sample_rate source = mx_output_sample_rate m \<and> src_channel_num source = mx_output_channel_num m"
  using assms by (auto simp: DoAddSource_def rbind_eq_Inr rtc_check_def)

lemma DoAddSource_geometry:
  assumes "DoAddSource E source m = Some (Inr (p, m1))"
  shows "mx_output_sample_rate (release p m1) = mx_output_sample_rate m"
    "mx_output_channel_num (release p m1) = mx_output_channel_num m"
    "mx_frame_duration_ms (release p m1) = mx_frame_duration_ms m"
proof -
  obtain obj where "(p, m1) = make_shared (src_ssrc source) obj m" using DoAddSource_ok [OF assms] .
  then have "m1 = snd (make_shared (src_ssrc source) obj m)" by (simp add: prod_eq_iff)
  then show "mx_output_sample_rate (release p m1) = mx_output_sample_rate m"
    "mx_output_channel_num (release p m1) = mx_output_channel_num m"
    "mx_frame_duration_ms (release p m1) = mx_frame_duration_ms m"
    by (simp_all add: make_shared_def release_def)
qed

lemma add_all_checks:
  "add_all E ss m = Some (Inr m') \<Longrightarrow>
   \<forall>source \<in> set ss. src_type source = TYPE_RECORD \<longrightarrow>
     src_sample_rate source = mx_output_sample_rate m \<and> src_channel_num source = mx_output_channel_num m"
proof (induction ss arbitrary: m)
  case (Cons source ss)
  obtain p m1 where d: "DoAddSource E source m = Some (Inr (p, m1))" and rest: "add_all E ss (release p m1) = Some (Inr m')"
    using Cons.prems by (auto split: option.splits sum.splits)
  show ?case using Cons.IH [OF rest] DoAddSource_checks [OF d] DoAddSource_geometry [OF d] by simp
qed simp

section \<open>Destruction\<close>

lemma dtor_registrations:
  assumes R: "registers E reg"
  shows "distinct (map snd ss) \<Longrightarrow> snd ` set ss \<subseteq> set (reg w) \<Longrightarrow>
    reg (fold (\<lambda>(k, p) w. lib_RemoveSource E p w) ss w) = filter (\<lambda>q. q \<notin> snd ` set ss) (reg w)"
proof (induction ss arbitrary: w)
  case (Cons kp ss)
  obtain k p where kp: "kp = (k, p)" by (cases kp)
  have rg: "reg (lib_RemoveSource E p w) = filter (\<lambda>q. q \<noteq> p) (reg w)"
    using registersD(2) [OF R, of p w] Cons.prems(2) kp by simp
  have "snd ` set ss \<subseteq> set (reg (lib_RemoveSource E p w))" using Cons.prems kp rg by auto
  from Cons.IH [OF _ this] show ?case using Cons.prems(1) kp rg by (auto intro: filter_cong)
qed simp

section \<open>Properties\<close>

text \<open>Claim C23. The configurations the constructor refuses: a frame duration above 10 ms fails the check; one
  of zero, or below \<open>-1000\<close>, which the check lets through, divides by zero; and no mixer is ever
  constructed with a record source whose rate or channel count differs from the output.\<close>

theorem mixer_create_guards:
  assumes "in_int32 (cfg_output_sample_rate config)"
  shows "(10 < cfg_frame_duration_ms config \<longrightarrow> Create E config = Some (Inl (CheckFailed ''frame duration too long''))) \<and>
    (cfg_frame_duration_ms config = 0 \<or> cfg_frame_duration_ms config < -1000 \<longrightarrow> Create E config = Some (Inl DivideByZero)) \<and>
    (\<forall>m. Create E config = Some (Inr m) \<longrightarrow>
       (\<forall>source \<in> set (cfg_sources config). src_type source = TYPE_RECORD \<longrightarrow>
          src_sample_rate source = cfg_output_sample_rate config \<and> src_channel_num source = cfg_output_channel_num config))"
proof (intro conjI impI allI)
  have k: "c_div 1000 kFrameDurationInMs = Inr 100" by (simp add: kFrameDurationInMs_def c_div_pos in_int32_def)
  obtain r where r: "c_div (cfg_output_sample_rate config) 100 = Inr r" using c_div_100 [OF assms] by blast
  show "Create E config = Some (Inl (CheckFailed ''frame duration too long''))" if "10 < cfg_frame_duration_ms config"
    using that by (simp add: Create_def AudioMixer_ctor_def rtc_check_def kFrameDurationInMs_def)
  show "Create E config = Some (Inl DivideByZero)"
    if "cfg_frame_duration_ms config = 0 \<or> cfg_frame_duration_ms config < -1000"
  proof -
    have g: "cfg_frame_duration_ms config \<le> kFrameDurationInMs" using that by (auto simp: kFrameDurationInMs_def)
    have "c_div 1000 (cfg_frame_duration_ms config) \<in> {Inl DivideByZero, Inr 0}" using that c_div_1000_far by auto
    then show ?thesis using g by (auto simp: Create_def AudioMixer_ctor_def rtc_check_def k r)
  qed
  fix m
  assume "Create E config = Some (Inr m)"
  then have "AudioMixer_ctor E config = Some (Inr m)" by (simp add: Create_def)
  from AudioMixer_ctor_parts [OF this] add_all_checks
  show "\<forall>source \<in> set (cfg_sources config). src_type source = TYPE_RECORD \<longrightarrow>
     src_sample_rate source = cfg_output_sample_rate config \<and> src_channel_num source = cfg_output_channel_num config"
    by (metis AudioMixer.select_convs(6,7))
qed

theorem mixer_create_guards_witness:
  "Create demo_env \<lparr>cfg_sources = [], cfg_output_sample_rate = 48000, cfg_output_channel_num = 2, cfg_frame_duration_ms = 20\<rparr>
     = Some (Inl (CheckFailed ''frame duration too long'')) \<and>
   Create demo_env \<lparr>cfg_sources = [], cfg_output_sample_rate = 48000, cfg_output_channel_num = 2, cfg_frame_duration_ms = 0\<rparr>
     = Some (Inl DivideByZero)"
  using mixer_create_guards [of "\<lparr>cfg_sources = [], cfg_output_sample_rate = 48000, cfg_output_channel_num = 2,
      cfg_frame_duration_ms = 20\<rparr>" demo_env]
    mixer_create_guards [of "\<lparr>cfg_sources = [], cfg_output_sample_rate = 48000, cfg_output_channel_num = 2,
      cfg_frame_duration_ms = 0\<rparr>" demo_env]
  by (simp add: in_int32_def)
lemma AddSource_parts:
  assumes sh: "mx_shape reg m" and new: "map_find (src_ssrc source) (mx_sources m) = None"
    and r: "AddSource E source m = Some (Inr (b, m'))"
  obtains obj where "mx_sources m' = map_insert (src_ssrc source) (mx_next m) (mx_sources m)"
    "mx_heap m' = (mx_heap m)(mx_next m \<mapsto> obj)" "DoAddSource E source m = Some (Inr (make_shared (src_ssrc source) obj m))"
    "mx_output_sample_rate m' = mx_output_sample_rate m" "mx_output_channel_num m' = mx_output_channel_num m"
proof -
  obtain p m1 where d: "DoAddSource E source m = Some (Inr (p, m1))"
      and m': "m' = release p (m1\<lparr>mx_lib := snd (lib_AddSource E p (mx_lib m1))\<rparr>)"
    using r by (auto simp: AddSource_def rbind_eq_Inr split: option.splits)
  obtain obj where mk: "(p, m1) = make_shared (src_ssrc source) obj m" "source_ssrc obj = src_ssrc source"
    using DoAddSource_ok [OF d] .
  have pm: "p = mx_next m" "m1 = snd (make_shared (src_ssrc source) obj m)" using mk(1) by (simp_all add: make_shared_def)
  have "p \<in> snd ` set (mx_sources m1)" using make_shared_fresh(4) [OF sh new mk] by simp
  then have "m' = m1\<lparr>mx_lib := snd (lib_AddSource E p (mx_lib m1))\<rparr>" using m' by (simp add: release_def)
  then show thesis using that [of obj] d mk(1) pm by (simp add: make_shared_def)
qed

text \<open>Removing a source undoes adding it: the sources, the live objects and the pointers the WebRTC mixer
  holds are what they were before, and a second removal finds nothing and changes nothing.\<close>

theorem mixer_add_remove:
  assumes C: "mixer_contract E reg" and m: "mixer_reach E m"
    and new: "map_find (src_ssrc source) (mx_sources m) = None"
    and add: "AddSource E source m = Some (Inr (b, m1))" and rm: "RemoveSource E (src_ssrc source) m1 = (b', m2)"
  shows "b \<and> b' \<and> mx_sources m2 = mx_sources m \<and> mx_heap m2 = mx_heap m \<and> reg (mx_lib m2) = reg (mx_lib m) \<and>
    RemoveSource E (src_ssrc source) m2 = (False, m2)"
proof -
  have R: "registers E reg" using C by (simp add: mixer_contract_def)
  have sh: "mx_shape reg m" using reach_shape [OF C m] .
  note ok = mx_shapeD(1) [OF sh]
  note a = AddSource_shape [OF R sh new add]
  obtain obj where p: "mx_sources m1 = map_insert (src_ssrc source) (mx_next m) (mx_sources m)"
      "mx_heap m1 = (mx_heap m)(mx_next m \<mapsto> obj)" using AddSource_parts [OF sh new add] .
  have f: "map_find (src_ssrc source) (mx_sources m1) = Some (mx_next m)"
    using source_map.find_ins [OF ok] new by (simp add: p(1))
  note d = RemoveSource_shape [OF R a(1) f rm]
  have src: "mx_sources m2 = mx_sources m" using source_map.ins_absent_erase [OF ok new] by (simp add: d(5) p(1))
  have free: "mx_next m \<notin> snd ` set (mx_sources m)" using mx_shapeD(4) [OF sh, of "mx_next m"] by blast
  then have "mx_heap m (mx_next m) = None" using mx_shapeD(3) [OF sh] by blast
  then have "mx_heap m2 q = mx_heap m q" for q using d(3) d(6) [of q] p(2) by (cases "q = mx_next m") simp_all
  moreover have "reg (mx_lib m2) = filter (\<lambda>q. q \<noteq> mx_next m) (reg (mx_lib m1))"
    using rm f registersD(2) [OF R, of "mx_next m" "mx_lib m1"] a(3)
    by (auto simp: RemoveSource_def release_def split: if_splits)
  moreover have "filter (\<lambda>q. q \<noteq> mx_next m) (reg (mx_lib m)) = reg (mx_lib m)"
    using free mx_shapeD(5) [OF sh] by (auto intro: filter_True)
  ultimately show ?thesis using a(2,3) d(2) src new by (auto simp: RemoveSource_def)
qed

lemma demo_add: "\<exists>m1. AddSource demo_env (demo_record_config 8) m = Some (Inr (True, m1))"
  if "mx_output_sample_rate m = 300" "mx_output_channel_num m = 1" "mx_frame_duration_ms m = 10" for m :: demo_mixer
proof -
  have g: "geometry_ok 300 1 10" by (simp add: geometry_ok_def kFrameDurationInMs_def in_int32_def kMaxDataSizeSamples_def)
  have c: "elem_bytes demo_cfg = 2" by (simp add: demo_cfg_def)
  obtain s where "AudioRecordSource_ctor demo_cfg 8 300 1 10 (Finite 1) = Inr s"
    using AudioRecordSource_ctor_ok [OF g c, of 1] by fastforce
  then show ?thesis
    using that by (simp add: AddSource_def DoAddSource_def demo_record_config_def demo_env_def make_shared_def)
qed

theorem mixer_add_remove_witness:
  "\<exists>m m1 m2. mixer_reach demo_env m \<and> AddSource demo_env (demo_record_config 8) m = Some (Inr (True, m1)) \<and>
     RemoveSource demo_env 8 m1 = (True, m2) \<and> mx_sources m2 = mx_sources m \<and> mx_lib m2 = mx_lib m \<and>
     mx_heap m2 = mx_heap m"
proof -
  obtain m where c: "AudioMixer_ctor demo_env \<lparr>cfg_sources = [demo_record_config 9, demo_record_config 4],
     cfg_output_sample_rate = 300, cfg_output_channel_num = 1, cfg_frame_duration_ms = 10\<rparr> = Some (Inr m)"
     and k: "map fst (mx_sources m) = [4, 9]"
    using demo_created by (elim exE conjE)
  have m: "mixer_reach demo_env m" using mixer_reach.created [OF c] .
  note sh = AudioMixer_ctor_shape [OF demo_env_contract c]
  obtain m1 where add: "AddSource demo_env (demo_record_config 8) m = Some (Inr (True, m1))"
    using demo_add [of m] sh(4-6) by auto
  obtain b m2 where rm: "RemoveSource demo_env (src_ssrc (demo_record_config 8)) m1 = (b, m2)" by (rule prod.exhaust)
  have "map_find (src_ssrc (demo_record_config 8)) (mx_sources m) = None"
    using sh(3) by (simp add: map_find_None demo_record_config_def)
  from mixer_add_remove [OF demo_env_contract m this add rm] m add rm show ?thesis
    by (auto simp: demo_record_config_def)
qed



end
