(* ===== verification/Container_Spec.thy ===== *)
theory Container_Spec
  imports Mixer_Prelude
begin

text \<open>
  The contract of a container that stands for an abstract value: every operation, used within its
  preconditions, ends without a fault and does to the abstract value what its specification says.
  Operations are results that may also fail to terminate. The contract extends to sequences of
  operations, which is what clients run.
\<close>

section \<open>Outcomes that may not exist\<close>

definition obind :: "'a result option \<Rightarrow> ('a \<Rightarrow> 'b result option) \<Rightarrow> 'b result option" where
  "obind m f = (case m of None \<Rightarrow> None | Some (Inl e) \<Rightarrow> Some (Inl e) | Some (Inr x) \<Rightarrow> f x)"

lemma obind_simps [simp]:
  "obind None f = None" "obind (Some (Inl e)) f = Some (Inl e)" "obind (Some (Inr x)) f = f x"
  by (simp_all add: obind_def)

section \<open>Simulation by an abstract object\<close>

text \<open>The general form: the abstract object has a guard for each operation, which is all a client has to
  respect, and a step relation, which may leave choices open. The concrete object answers every
  guarded operation by one of the abstract steps.\<close>

fun step_all :: "('op \<Rightarrow> 'l \<Rightarrow> 'l \<Rightarrow> bool) \<Rightarrow> 'op list \<Rightarrow> 'l \<Rightarrow> 'l \<Rightarrow> bool" where
  "step_all step [] l l' = (l' = l)"
| "step_all step (c # cs) l l' = (\<exists>l1. step c l l1 \<and> step_all step cs l1 l')"

fun guard_all :: "('op \<Rightarrow> 'l \<Rightarrow> bool) \<Rightarrow> ('op \<Rightarrow> 'l \<Rightarrow> 'l \<Rightarrow> bool) \<Rightarrow> 'op list \<Rightarrow> 'l \<Rightarrow> bool" where
  "guard_all guard step [] l = True"
| "guard_all guard step (c # cs) l = (guard c l \<and> (\<forall>l'. step c l l' \<longrightarrow> guard_all guard step cs l'))"

fun run_all :: "('op \<Rightarrow> 's \<Rightarrow> 's result option) \<Rightarrow> 'op list \<Rightarrow> 's \<Rightarrow> 's result option" where
  "run_all run [] s = Some (Inr s)"
| "run_all run (c # cs) s = obind (run c s) (run_all run cs)"

locale simulated_object =
  fixes rep :: "'s \<Rightarrow> 'l \<Rightarrow> bool"
    and run :: "'op \<Rightarrow> 's \<Rightarrow> 's result option"
    and guard :: "'op \<Rightarrow> 'l \<Rightarrow> bool"
    and step :: "'op \<Rightarrow> 'l \<Rightarrow> 'l \<Rightarrow> bool"
  assumes simulated: "rep s l \<Longrightarrow> guard c l \<Longrightarrow> \<exists>s' l'. run c s = Some (Inr s') \<and> step c l l' \<and> rep s' l'"
begin

lemma run_all_simulated:
  "rep s l \<Longrightarrow> guard_all guard step cs l \<Longrightarrow>
   \<exists>s' l'. run_all run cs s = Some (Inr s') \<and> step_all step cs l l' \<and> rep s' l'"
proof (induction cs arbitrary: s l)
  case (Cons c cs)
  have g: "guard c l" "\<forall>l'. step c l l' \<longrightarrow> guard_all guard step cs l'" using Cons.prems(2) by simp_all
  obtain s1 l1 where a: "run c s = Some (Inr s1)" "step c l l1" "rep s1 l1"
    using simulated [OF Cons.prems(1) g(1)] by (elim exE conjE)
  have "guard_all guard step cs l1" using g(2) a(2) by blast
  from Cons.IH [OF a(3) this] obtain s' l' where
    "run_all run cs s1 = Some (Inr s')" "step_all step cs l1 l'" "rep s' l'" by (elim exE conjE)
  then show ?case using a(1,2) by auto
qed simp

end

section \<open>Refinement of an abstract container\<close>

text \<open>When the specification is a partial function it gives both the guard and the step.\<close>

fun spec_all :: "('op \<Rightarrow> 'l \<Rightarrow> 'l option) \<Rightarrow> 'op list \<Rightarrow> 'l \<Rightarrow> 'l option" where
  "spec_all spec [] l = Some l"
| "spec_all spec (c # cs) l = Option.bind (spec c l) (spec_all spec cs)"

locale refined_container =
  fixes rep :: "'s \<Rightarrow> 'l \<Rightarrow> bool"
    and run :: "'op \<Rightarrow> 's \<Rightarrow> 's result option"
    and spec :: "'op \<Rightarrow> 'l \<Rightarrow> 'l option"
  assumes run_refines: "rep s l \<Longrightarrow> spec c l = Some l' \<Longrightarrow> \<exists>s'. run c s = Some (Inr s') \<and> rep s' l'"

sublocale refined_container \<subseteq> partial_spec: simulated_object rep run "\<lambda>c l. spec c l \<noteq> None" "\<lambda>c l l'. spec c l = Some l'"
  using run_refines by unfold_locales blast

lemma spec_all_guarded:
  "spec_all spec cs l = Some l' \<Longrightarrow> guard_all (\<lambda>c l. spec c l \<noteq> None) (\<lambda>c l l'. spec c l = Some l') cs l"
  by (induction cs arbitrary: l) (auto simp: bind_eq_Some_conv)

lemma spec_all_steps: "step_all (\<lambda>c l l'. spec c l = Some l') cs l l' \<longleftrightarrow> spec_all spec cs l = Some l'"
  by (induction cs arbitrary: l) (auto simp: bind_eq_Some_conv)

context refined_container
begin

lemma run_all_refines:
  assumes "rep s l" "spec_all spec cs l = Some l'"
  shows "\<exists>s'. run_all run cs s = Some (Inr s') \<and> rep s' l'"
  using partial_spec.run_all_simulated [OF assms(1) spec_all_guarded [OF assms(2)]] assms(2)
  by (auto simp: spec_all_steps)

end

end
