(* ===== verification/Mixer_Streams.thy ===== *)
theory Mixer_Streams
  imports Mixer_Lifecycle Container_Spec
begin

text \<open>
  What the mixer is to its user: a finite map from an \<open>ssrc\<close> to a source, a record source being a
  queue of samples with a volume. Each method is a step of that abstract object, and \<open>Mix\<close> takes whole
  frames from the front of the queues. The mixer of \<open>Audio_Mixer\<close> with its object store, raw
  pointers and buffers simulates it (locale \<open>simulated_object\<close>), from \<open>Create\<close> on and for
  every sequence of calls that respects the guards.
\<close>

section \<open>The abstract mixer\<close>

datatype abs_source =
    AbsRecord nat "sample list" cfloat \<comment> \<open>samples of a frame, queue, volume\<close>
  | AbsFile cfloat

type_synonym abs_mixer = "int32 \<rightharpoonup> abs_source"

fun abs_volume :: "cfloat \<Rightarrow> abs_source \<Rightarrow> abs_source" where
  "abs_volume v (AbsRecord t q _) = AbsRecord t q v"
| "abs_volume v (AbsFile _) = AbsFile v"

definition abs_new :: "int32 \<Rightarrow> int32 \<Rightarrow> MixerSource \<Rightarrow> abs_source" where
  "abs_new sr ch source =
     (if src_type source = TYPE_RECORD then AbsRecord (nat (ch * sr div 100)) [] (src_volume source)
      else AbsFile (src_volume source))"

inductive abs_polled :: "abs_source \<Rightarrow> abs_source \<Rightarrow> bool" where
  frames: "j * t \<le> length q \<Longrightarrow> abs_polled (AbsRecord t q v) (AbsRecord t (drop (j * t) q) v)"
| played: "abs_polled (AbsFile v) (AbsFile v)"

inductive_cases abs_polled_recordE: "abs_polled (AbsRecord t q v) x"

inductive abs_step :: "int32 \<Rightarrow> int32 \<Rightarrow> mixer_op \<Rightarrow> abs_mixer \<Rightarrow> abs_mixer \<Rightarrow> bool" for sr ch where
  volume: "abs_step sr ch (OpVolume k v) A (A(k := map_option (abs_volume v) (A k)))"
| remove: "abs_step sr ch (OpRemove k) A (A(k := None))"
| recorded: "A k = Some (AbsRecord t q v) \<Longrightarrow>
    abs_step sr ch (OpRecorded k xs) A (A(k \<mapsto> AbsRecord t (q @ xs) v))"
| unheard: "A k = None \<Longrightarrow> abs_step sr ch (OpRecorded k xs) A A"
| mix: "\<forall>k. rel_option abs_polled (A k) (A' k) \<Longrightarrow> abs_step sr ch (OpMix out) A A'"
| add: "abs_step sr ch (OpAddRecord source) A (A(src_ssrc source \<mapsto> abs_new sr ch source))"

inductive_cases abs_stepE:
  "abs_step sr ch (OpVolume k v) A A'" "abs_step sr ch (OpRemove k) A A'" "abs_step sr ch (OpRecorded k xs) A A'"
  "abs_step sr ch (OpMix out) A A'" "abs_step sr ch (OpAddRecord source) A A'"

fun abs_guard :: "nat \<Rightarrow> int32 \<Rightarrow> int32 \<Rightarrow> mixer_op \<Rightarrow> abs_mixer \<Rightarrow> bool" where
  "abs_guard M sr ch (OpVolume k v) A = True"
| "abs_guard M sr ch (OpRemove k) A = True"
| "abs_guard M sr ch (OpRecorded k xs) A =
     (case A k of None \<Rightarrow> True | Some (AbsRecord t q v) \<Rightarrow> length q + length xs \<le> M | Some (AbsFile v) \<Rightarrow> False)"
| "abs_guard M sr ch (OpMix out) A = (nat (sr div 100 * ch) \<le> length out)"
| "abs_guard M sr ch (OpAddRecord source) A =
     (src_type source = TYPE_RECORD \<and> A (src_ssrc source) = None \<and>
      src_sample_rate source = sr \<and> src_channel_num source = ch)"

section \<open>What a mixer stands for\<close>

fun abs_of :: "('swr, 'fmt, 'cc, 'pkt, 'pcm, 'fifo) source \<Rightarrow> abs_source" where
  "abs_of (RecordSource s) = AbsRecord (rs_taken s) (rs_queue s) (volume s)"
| "abs_of (FileSource s) = AbsFile (volume s)"

definition abs_store :: "nat omap \<Rightarrow> ('swr, 'fmt, 'cc, 'pkt, 'pcm, 'fifo) store \<Rightarrow> abs_mixer" where
  "abs_store ss h k = Option.bind (map_find k ss) (\<lambda>p. map_option abs_of (h p))"

definition mixer_abs :: "('w, 'swr, 'fmt, 'cc, 'pkt, 'pcm, 'fifo) AudioMixer \<Rightarrow> abs_mixer" where
  "mixer_abs m = abs_store (mx_sources m) (mx_heap m)"

definition mixer_rep ::
    "('w, 'swr, 'fmt, 'cc, 'pkt, 'par, 'codec, 'pcm, 'fifo) mixer_env \<Rightarrow> ('w \<Rightarrow> nat list) \<Rightarrow> nat \<Rightarrow>
     ('fmt, 'cc, 'pkt, 'pcm, 'fifo) decoder_view \<Rightarrow> ('swr \<Rightarrow> nat) \<Rightarrow> int32 \<Rightarrow> int32 \<Rightarrow>
     ('w, 'swr, 'fmt, 'cc, 'pkt, 'pcm, 'fifo) AudioMixer \<Rightarrow> abs_mixer \<Rightarrow> bool" where
  "mixer_rep E reg M V outs sr ch m A \<longleftrightarrow>
     env_ok E reg M V outs \<and> mixer_ready E reg M V outs m \<and> mx_output_sample_rate m = sr \<and>
     mx_output_channel_num m = ch \<and> mixer_abs m = A"

lemma mixer_repD:
  assumes "mixer_rep E reg M V outs sr ch m A"
  shows "env_ok E reg M V outs" "mixer_ready E reg M V outs m" "mx_output_sample_rate m = sr"
    "mx_output_channel_num m = ch" "mixer_abs m = A" "mx_shape reg m" "registers E reg"
proof -
  show e: "env_ok E reg M V outs" and r: "mixer_ready E reg M V outs m" and "mx_output_sample_rate m = sr"
    "mx_output_channel_num m = ch" "mixer_abs m = A" using assms by (simp_all add: mixer_rep_def)
  show "mx_shape reg m" using r by (simp add: mixer_ready_def)
  show "registers E reg" using e by (simp add: env_ok_def mixer_contract_def)
qed

lemma find_injective:
  assumes "omap_ok ss" "distinct (map snd ss)" "map_find k ss = Some p" "map_find k' ss = Some p"
  shows "k' = k"
proof -
  have e: "(k, p) \<in> set ss" "(k', p) \<in> set ss" using assms(3,4) map_find_set [OF assms(1)] by simp_all
  have "inj_on snd (set ss)" using assms(2) by (simp add: distinct_map)
  from inj_onD [OF this _ e(2,1)] show ?thesis by simp
qed

lemma abs_store_update:
  assumes "omap_ok ss" "distinct (map snd ss)" "map_find k ss = Some p"
  shows "abs_store ss (h(p \<mapsto> obj)) = (abs_store ss h)(k \<mapsto> abs_of obj)"
proof
  fix k'
  show "abs_store ss (h(p \<mapsto> obj)) k' = ((abs_store ss h)(k \<mapsto> abs_of obj)) k'"
    using assms find_injective [OF assms(1-3), of k'] by (cases "map_find k' ss") (auto simp: abs_store_def)
qed

lemma abs_store_insert:
  assumes "omap_ok ss" "map_find k ss = None" "p \<notin> snd ` set ss"
  shows "abs_store (map_insert k p ss) (h(p \<mapsto> obj)) = (abs_store ss h)(k \<mapsto> abs_of obj)"
proof
  fix k'
  have "q \<noteq> p" if "map_find k' ss = Some q" for q using that assms(1,3) map_find_set by force
  then show "abs_store (map_insert k p ss) (h(p \<mapsto> obj)) k' = ((abs_store ss h)(k \<mapsto> abs_of obj)) k'"
    using assms(2) source_map.find_ins [OF assms(1)] by (cases "map_find k' ss") (auto simp: abs_store_def)
qed

lemma mixer_abs_find: "mx_shape reg m \<Longrightarrow> mixer_abs m k = None \<longleftrightarrow> map_find k (mx_sources m) = None"
proof (cases "map_find k (mx_sources m)")
  case (Some p)
  assume sh: "mx_shape reg m"
  obtain obj where "mx_heap m p = Some obj" using find_live [OF sh Some] .
  then show ?thesis using Some by (simp add: mixer_abs_def abs_store_def)
qed (simp add: mixer_abs_def abs_store_def)
section \<open>Each method is a step of the abstract mixer\<close>

lemma abs_of_volume: "abs_of (set_volume v obj) = abs_volume v (abs_of obj)"
  by (cases obj) (simp_all add: set_volume_def UpdateVolume_def rs_taken_def rs_queue_def)

lemma mixer_abs_update:
  assumes "mx_shape reg m" "map_find k (mx_sources m) = Some p"
  shows "mixer_abs (m\<lparr>mx_heap := (mx_heap m)(p \<mapsto> obj)\<rparr>) = (mixer_abs m)(k \<mapsto> abs_of obj)"
  using abs_store_update [OF mx_shapeD(1,2) [OF assms(1)] assms(2)] by (simp add: mixer_abs_def del: fun_upd_apply)

lemma mixer_abs_live:
  assumes "map_find k (mx_sources m) = Some p" "mx_heap m p = Some obj"
  shows "mixer_abs m k = Some (abs_of obj)"
  using assms by (simp add: mixer_abs_def abs_store_def)

lemma volume_step:
  assumes rep: "mixer_rep E reg M V outs sr ch m A"
  shows "\<exists>m' A'. exec_op E (OpVolume k v) m = Some (Inr m') \<and> abs_step sr ch (OpVolume k v) A A' \<and>
    mixer_rep E reg M V outs sr ch m' A'"
proof -
  note d = mixer_repD [OF rep]
  obtain m' where m': "UpdateVolume_mixer k v m = Inr m'" "mixer_ready E reg M V outs m'"
    using UpdateVolume_ready [OF d(2)] by blast
  have "mixer_abs m' = A(k := map_option (abs_volume v) (A k)) \<and> mx_output_sample_rate m' = sr \<and> mx_output_channel_num m' = ch"
  proof (cases "map_find k (mx_sources m)")
    case None
    then have "A k = None" using mixer_abs_find [OF d(6), of k] d(5) by simp
    then show ?thesis using None m'(1) d by (simp add: UpdateVolume_mixer_def fun_upd_idem)
  next
    case (Some p)
    obtain obj where obj: "mx_heap m p = Some obj" using find_live [OF d(6) Some] .
    then have "m' = m\<lparr>mx_heap := (mx_heap m)(p \<mapsto> set_volume v obj)\<rparr>" using m'(1) Some by (simp add: UpdateVolume_mixer_def)
    then show ?thesis
      using mixer_abs_update [OF d(6) Some, of "set_volume v obj"] mixer_abs_live [OF Some obj] d
      by (simp add: abs_of_volume)
  qed
  then show ?thesis using m' d(1) abs_step.volume by (auto simp: mixer_rep_def)
qed

lemma remove_step:
  assumes rep: "mixer_rep E reg M V outs sr ch m A"
  shows "\<exists>m' A'. exec_op E (OpRemove k) m = Some (Inr m') \<and> abs_step sr ch (OpRemove k) A A' \<and>
    mixer_rep E reg M V outs sr ch m' A'"
proof -
  note d = mixer_repD [OF rep]
  obtain b m' where rm: "RemoveSource E k m = (b, m')" by (rule prod.exhaust)
  have r: "mixer_ready E reg M V outs m'" using RemoveSource_ready [OF d(7,2), of k] rm by simp
  have g: "mx_output_sample_rate m' = sr" "mx_output_channel_num m' = ch"
    using rm d by (auto simp: RemoveSource_def release_def split: option.splits if_splits)
  have "mixer_abs m' k' = (A(k := None)) k'" for k'
  proof (cases "map_find k (mx_sources m)")
    case None
    then show ?thesis using rm mixer_abs_find [OF d(6), of k] d(5) by (simp add: RemoveSource_def)
  next
    case (Some p)
    note s = RemoveSource_shape [OF d(7,6) Some rm]
    have f: "map_find k' (mx_sources m') = (if k' = k then None else map_find k' (mx_sources m))"
      using source_map.find_erase [OF mx_shapeD(1) [OF d(6)]] by (simp add: s(5))
    have "mx_heap m' q = mx_heap m q" if "k' \<noteq> k" "map_find k' (mx_sources m) = Some q" for q
      using s(6) [of q] find_injective [OF mx_shapeD(1,2) [OF d(6)] Some, of k'] that by blast
    then show ?thesis using f d(5) by (cases "map_find k' (mx_sources m)") (auto simp: mixer_abs_def abs_store_def)
  qed
  then have "mixer_abs m' = A(k := None)" by (rule ext)
  then show ?thesis using rm r g d(1) abs_step.remove by (auto simp: mixer_rep_def)
qed

lemma recorded_step:
  assumes rep: "mixer_rep E reg M V outs sr ch m A" and g: "abs_guard M sr ch (OpRecorded k xs) A"
  shows "\<exists>m' A'. exec_op E (OpRecorded k xs) m = Some (Inr m') \<and> abs_step sr ch (OpRecorded k xs) A A' \<and>
    mixer_rep E reg M V outs sr ch m' A'"
proof -
  note d = mixer_repD [OF rep]
  show ?thesis
  proof (cases "map_find k (mx_sources m)")
    case None
    then have "A k = None" using mixer_abs_find [OF d(6), of k] d(5) by simp
    then show ?thesis using None rep by (auto simp: AddRecordedData_def intro: abs_step.unheard)
  next
    case (Some p)
    obtain obj where obj: "mx_heap m p = Some obj" using find_live [OF d(6) Some] .
    have A: "A k = Some (abs_of obj)" using mixer_abs_live [OF Some obj] d(5) by simp
    then obtain s where s: "obj = RecordSource s" "length (rs_queue s) + length xs \<le> M" using g by (cases obj) simp_all
    have "rs_inv (env_buf E) M s" using mixer_ready_obj [OF d(2) obj] s(1) by (simp add: obj_ready_def rs_tenms_def)
    from OnAudioRecorded_ok [OF this s(2)] obtain s' b where
      o: "OnAudioRecorded (env_buf E) (map Some xs) (2 * int (length xs)) s = Inr s'" "rs_queue s' = rs_queue s @ xs"
        "s' = s\<lparr>rs_buffer := b\<rparr>" by (elim exE conjE)
    let ?m = "m\<lparr>mx_heap := (mx_heap m)(p \<mapsto> RecordSource s')\<rparr>"
    have run: "AddRecordedData E k (map Some xs) (2 * int (length xs)) m = Inr ?m"
      using Some obj s(1) o(1) by (simp add: AddRecordedData_def)
    have "op_allowed M (OpRecorded k xs) m" using Some obj s by simp
    then have "mixer_ready E reg M V outs ?m" using AddRecordedData_ready [OF d(2)] run by fastforce
    moreover have "mixer_abs ?m = A(k \<mapsto> AbsRecord (rs_taken s) (rs_queue s @ xs) (volume s))"
      using mixer_abs_update [OF d(6) Some, of "RecordSource s'"] d(5) o(2,3) by (simp add: rs_taken_def)
    moreover have "abs_step sr ch (OpRecorded k xs) A (A(k \<mapsto> AbsRecord (rs_taken s) (rs_queue s @ xs) (volume s)))"
      using A s(1) by (intro abs_step.recorded) simp
    ultimately show ?thesis using run d by (auto simp: mixer_rep_def)
  qed
qed
lemma abs_polled_refl: "abs_polled x x"
proof (cases x)
  case (AbsRecord t q v)
  then show ?thesis using abs_polled.frames [of 0 t q v] by simp
qed (simp add: abs_polled.played)

lemma abs_polled_trans: "abs_polled x y \<Longrightarrow> abs_polled y z \<Longrightarrow> abs_polled x z"
proof (induction rule: abs_polled.induct)
  case (frames j t q v)
  from frames.prems obtain i where i: "i * t \<le> length q - j * t" "z = AbsRecord t (drop (i * t) (drop (j * t) q)) v"
    by (rule abs_polled_recordE) simp
  then have "z = AbsRecord t (drop ((i + j) * t) q) v" "(i + j) * t \<le> length q"
    using frames.hyps by (simp_all add: algebra_simps)
  then show ?case by (simp add: abs_polled.frames)
qed simp

lemma record_poll_polled:
  assumes t: "rs_tenms W c M s" and g: "GetAudioFrameWithInfo_record W c hz f s = Inr (a, f', s')"
  shows "abs_polled (abs_of (RecordSource s)) (abs_of (RecordSource s'))"
proof -
  have inv: "rs_inv c M s" and W: "frame_contract W" using t by (simp_all add: rs_tenms_def)
  show ?thesis
  proof (cases "hz = rs_sample_rate s \<and> rs_taken s \<le> length (rs_queue s)")
    case True
    then have "rs_chunk s \<le> length (rs_queue s)" using rs_tenms_chunk_le [OF t] by simp
    from GetAudioFrame_normal [OF inv W this conjunct2 [OF True], of f] obtain f1 s1 b where
      n: "GetAudioFrameWithInfo_record W c (rs_sample_rate s) f s = Inr (kNormal, ApplyVolume W s f1, s1)"
        "rs_queue s1 = drop (rs_taken s) (rs_queue s)" "s1 = s\<lparr>rs_buffer := b\<rparr>" by (elim conjE exE)
    then have s': "rs_queue s' = drop (rs_taken s) (rs_queue s)" "s' = s\<lparr>rs_buffer := b\<rparr>" using g True by simp_all
    have "rs_taken s' = rs_taken s" "volume s' = volume s" by (simp_all add: s'(2) rs_taken_def)
    then show ?thesis using abs_polled.frames [of 1 "rs_taken s" "rs_queue s"] True s'(1) by simp
  next
    case False
    then have "s' = s" using GetAudioFrame_wrong_rate [of hz s W c f] GetAudioFrame_muted [OF inv, of W f] g by fastforce
    then show ?thesis by (simp add: abs_polled_refl)
  qed
qed

lemma Read_volume: "Read F out s = Some (Inr (n, out', s')) \<Longrightarrow> volume s' = volume s"
  by (auto simp: Read_def rbind_eq_Inr Let_def split: option.splits sum.splits if_splits)

lemma GetAudioFrame_file_volume:
  "GetAudioFrameWithInfo_file W F hz f s = Some (Inr (a, f', s')) \<Longrightarrow> volume s' = volume s"
  by (auto simp: GetAudioFrameWithInfo_file_def Let_def split: option.splits sum.splits if_splits dest: Read_volume)

definition store_polled ::
    "('swr, 'fmt, 'cc, 'pkt, 'pcm, 'fifo) store \<Rightarrow> ('swr, 'fmt, 'cc, 'pkt, 'pcm, 'fifo) store \<Rightarrow> bool" where
  "store_polled h h' \<longleftrightarrow> (\<forall>p. rel_option abs_polled (map_option abs_of (h p)) (map_option abs_of (h' p)))"

lemma store_polled_update:
  assumes "store_polled h0 h" "h p = Some obj" "abs_polled (abs_of obj) (abs_of obj')"
  shows "store_polled h0 (h(p \<mapsto> obj'))"
  unfolding store_polled_def
proof
  fix q
  have "rel_option abs_polled (map_option abs_of (h0 q)) (map_option abs_of (h q))" using assms(1) by (simp add: store_polled_def)
  then show "rel_option abs_polled (map_option abs_of (h0 q)) (map_option abs_of ((h(p \<mapsto> obj')) q))"
    using assms(2) abs_polled_trans [OF _ assms(3)] by (cases "h0 q") (auto split: if_splits)
qed

lemma poll_polled:
  assumes r: "store_ready E M V outs ss h" and s: "store_polled h0 h"
    and g: "GetAudioFrame_ptr E p hz f h = Some (Inr (a, f', h'))"
  shows "store_polled h0 h'"
proof (cases "h p")
  case None
  then show ?thesis using g by (simp add: GetAudioFrame_ptr_def)
next
  case (Some obj)
  show ?thesis
  proof (cases obj)
    case (RecordSource s')
    then obtain s'' where "GetAudioFrameWithInfo_record (env_frame E) (env_buf E) hz f s' = Inr (a, f', s'')"
        "h' = h(p \<mapsto> RecordSource s'')"
      using g Some by (auto simp: GetAudioFrame_ptr_def rbind_eq_Inr)
    moreover have "rs_tenms (env_frame E) (env_buf E) M s'"
      using r [unfolded store_ready_def, THEN conjunct2, rule_format, OF Some] RecordSource by (simp add: obj_ready_def)
    ultimately show ?thesis using store_polled_update [OF s Some] record_poll_polled RecordSource by blast
  next
    case (FileSource s')
    then obtain s'' where h': "GetAudioFrameWithInfo_file (env_frame E) (env_file E) hz f s' = Some (Inr (a, f', s''))"
        "h' = h(p \<mapsto> FileSource s'')"
      using g Some by (auto simp: GetAudioFrame_ptr_def rbind_eq_Inr split: option.splits)
    have "abs_polled (abs_of obj) (abs_of (FileSource s''))"
      using GetAudioFrame_file_volume [OF h'(1)] FileSource by (simp add: abs_polled.played)
    then show ?thesis using store_polled_update [OF s Some] h'(2) by simp
  qed
qed
lemma Mix_polled:
  assumes E: "env_ok E reg M V outs" and r: "mixer_ready E reg M V outs m" and x: "Mix E out m = Some (Inr (n, out', m'))"
  shows "store_polled (mx_heap m) (mx_heap m')"
proof -
  let ?I = "\<lambda>h. store_ready E M V outs (mx_sources m) h \<and> store_polled (mx_heap m) h"
  have C: "mixer_contract E reg" using E by (simp add: env_ok_def)
  have sh: "mx_shape reg m" using r by (simp add: mixer_ready_def)
  obtain f h w where l: "lib_Mix E (to_size_t (mx_output_channel_num m)) PreferredSampleRate_ptr (GetAudioFrame_ptr E)
      (mx_heap m) (mx_mixed_frame m) (mx_lib m) = Some (Inr (f, h, w))"
    and m': "m' = m\<lparr>mx_lib := w, mx_heap := h, mx_mixed_frame := f\<rparr>" using Mix_parts [OF x] .
  have i: "?I (mx_heap m)"
    using mixer_ready_store [OF r] by (simp add: store_polled_def option.rel_refl abs_polled_refl)
  have keep: "?I k'" if "p \<in> set (reg (mx_lib m))" "?I k" "length (frame_data g) = kMaxDataSizeSamples"
      "GetAudioFrame_ptr E p hz g k = Some (Inr (a, g', k'))" for p hz g k a g' k'
  proof
    have "p \<in> snd ` set (mx_sources m)" using that(1) mx_shapeD(5) [OF sh] by simp
    from poll_ready [OF conjunct1 [OF that(2)] this that(3), of hz] show "store_ready E M V outs (mx_sources m) k'"
      using that(4) by auto
    show "store_polled (mx_heap m) k'" using poll_polled [OF conjunct1 [OF that(2)] conjunct2 [OF that(2)] that(4)] .
  qed
  have "mix_effects E reg" using C by (simp add: mixer_contract_def)
  from this [unfolded mix_effects_def, rule_format, of ?I, OF i _ mx_shapeD(7) [OF sh] l]
  have "?I h \<and> reg w = reg (mx_lib m) \<and> length (frame_data f) = kMaxDataSizeSamples" using keep by blast
  then show ?thesis by (simp add: m')
qed

lemma mix_step:
  assumes rep: "mixer_rep E reg M V outs sr ch m A" and g: "abs_guard M sr ch (OpMix out) A"
  shows "\<exists>m' A'. exec_op E (OpMix out) m = Some (Inr m') \<and> abs_step sr ch (OpMix out) A A' \<and>
    mixer_rep E reg M V outs sr ch m' A'"
proof -
  note d = mixer_repD [OF rep]
  have "nat (mx_output_sample_rate m div 100 * mx_output_channel_num m) \<le> length out" using g d(3,4) by simp
  from Mix_ready [OF d(1,2) this] obtain n out' m' where
    m': "Mix E out m = Some (Inr (n, out', m'))" "mixer_ready E reg M V outs m'" "mx_sources m' = mx_sources m"
    by (elim exE conjE)
  obtain f h w where "m' = m\<lparr>mx_lib := w, mx_heap := h, mx_mixed_frame := f\<rparr>" using Mix_parts [OF m'(1)] .
  then have geo: "mx_output_sample_rate m' = sr" "mx_output_channel_num m' = ch" using d(3,4) by simp_all
  have "rel_option abs_polled (A k) (mixer_abs m' k)" for k
    using Mix_polled [OF d(1,2) m'(1)] m'(3) d(5)
    by (cases "map_find k (mx_sources m)") (auto simp: store_polled_def mixer_abs_def abs_store_def)
  then have "abs_step sr ch (OpMix out) A (mixer_abs m')" by (intro abs_step.mix allI)
  then show ?thesis using m' geo d(1) by (auto simp: mixer_rep_def)
qed
lemma DoAddSource_abs:
  assumes d: "DoAddSource E source m = Some (Inr (make_shared (src_ssrc source) obj m))"
    and g: "geometry_ok (mx_output_sample_rate m) (mx_output_channel_num m) 10" "mx_frame_duration_ms m = 10"
    and c: "elem_bytes (env_buf E) = 2"
  shows "abs_of obj = abs_new (mx_output_sample_rate m) (mx_output_channel_num m) source"
proof -
  have same: "obj' = obj" if "make_shared (src_ssrc source) obj' m = make_shared (src_ssrc source) obj m" for obj'
  proof -
    have "(mx_heap m)(mx_next m \<mapsto> obj') = (mx_heap m)(mx_next m \<mapsto> obj)"
      using arg_cong [OF that, of "\<lambda>x. mx_heap (snd x)"] by (simp add: make_shared_def)
    from fun_cong [OF this, of "mx_next m"] show ?thesis by simp
  qed
  show ?thesis
  proof (cases "src_type source = TYPE_RECORD")
    case True
    then obtain s where s: "AudioRecordSource_ctor (env_buf E) (src_ssrc source) (mx_output_sample_rate m)
        (mx_output_channel_num m) 10 (src_volume source) = Inr s" "obj = RecordSource s"
      using d g(2) same by (auto simp: DoAddSource_def rbind_eq_Inr)
    have "rs_inv (env_buf E) 0 s \<and> rs_queue s = [] \<and> volume s = src_volume source \<and>
        rs_sample_rate s = mx_output_sample_rate m \<and> rs_channel_num s = mx_output_channel_num m \<and> rs_frame_duration_ms s = 10"
      using AudioRecordSource_ctor_ok [OF g(1) c, of 0 "src_ssrc source" "src_volume source"] s(1) by auto
    then show ?thesis using True s(2) by (simp add: abs_new_def rs_taken_def rs_inv_def)
  next
    case False
    then obtain s where s: "AudioFileSource_ctor (env_file E) (src_ssrc source) (src_path source) (mx_output_sample_rate m)
        (mx_output_channel_num m) (mx_frame_duration_ms m) (src_volume source) = Some (Inr s)" "obj = FileSource s"
      using d same by (auto simp: DoAddSource_def rbind_eq_Inr split: option.splits)
    have "volume s = src_volume source"
      using s(1) by (auto simp: AudioFileSource_ctor_def rbind_eq_Inr Let_def case_prod_beta split: option.splits sum.splits)
    then show ?thesis using False s(2) by (simp add: abs_new_def)
  qed
qed

lemma add_step:
  assumes rep: "mixer_rep E reg M V outs sr ch m A" and g: "abs_guard M sr ch (OpAddRecord source) A"
  shows "\<exists>m' A'. exec_op E (OpAddRecord source) m = Some (Inr m') \<and> abs_step sr ch (OpAddRecord source) A A' \<and>
    mixer_rep E reg M V outs sr ch m' A'"
proof -
  note d = mixer_repD [OF rep]
  have new: "map_find (src_ssrc source) (mx_sources m) = None"
    using g mixer_abs_find [OF d(6), of "src_ssrc source"] d(5) by simp
  then have "op_allowed M (OpAddRecord source) m" using g d(3,4) by simp
  from AddSource_ready [OF d(1,2) this] obtain m' where
    m': "AddSource E source m = Some (Inr (True, m'))" "mixer_ready E reg M V outs m'" by blast
  obtain obj where p: "mx_sources m' = map_insert (src_ssrc source) (mx_next m) (mx_sources m)"
    "mx_heap m' = (mx_heap m)(mx_next m \<mapsto> obj)" "DoAddSource E source m = Some (Inr (make_shared (src_ssrc source) obj m))"
    "mx_output_sample_rate m' = mx_output_sample_rate m" "mx_output_channel_num m' = mx_output_channel_num m"
    using AddSource_parts [OF d(6) new m'(1)] .
  have geo: "geometry_ok (mx_output_sample_rate m) (mx_output_channel_num m) 10" "mx_frame_duration_ms m = 10"
    using d(2) by (simp_all add: mixer_ready_def)
  have "elem_bytes (env_buf E) = 2" using d(1) by (simp add: env_ok_def)
  from DoAddSource_abs [OF p(3) geo this] have o: "abs_of obj = abs_new sr ch source" using d(3,4) by simp
  have "mx_next m \<notin> snd ` set (mx_sources m)" using mx_shapeD(4) [OF d(6), of "mx_next m"] by blast
  from abs_store_insert [OF mx_shapeD(1) [OF d(6)] new this, of "mx_heap m" obj]
  have "mixer_abs m' = A(src_ssrc source \<mapsto> abs_new sr ch source)"
    using o d(5) by (simp add: mixer_abs_def p(1,2) del: fun_upd_apply)
  then show ?thesis using m' p(4,5) d(1,3,4) abs_step.add by (auto simp: mixer_rep_def)
qed

section \<open>Simulation\<close>

interpretation mixer: simulated_object "mixer_rep E reg M V outs sr ch" "exec_op E" "abs_guard M sr ch" "abs_step sr ch"
  for E reg M V outs sr ch
proof
  show "\<exists>m' A'. exec_op E c m = Some (Inr m') \<and> abs_step sr ch c A A' \<and> mixer_rep E reg M V outs sr ch m' A'"
    if "mixer_rep E reg M V outs sr ch m A" "abs_guard M sr ch c A" for m A c
    using that by (cases c) (simp_all only: volume_step remove_step recorded_step mix_step add_step)
qed
section \<open>The mixer that Create returns\<close>

definition source_fits ::
    "('w, 'swr, 'fmt, 'cc, 'pkt, 'par, 'codec, 'pcm, 'fifo) mixer_env \<Rightarrow>
     ('fmt, 'cc, 'pkt, 'pcm, 'fifo) decoder_view \<Rightarrow> ('swr \<Rightarrow> nat) \<Rightarrow> int32 \<Rightarrow> int32 \<Rightarrow> MixerSource \<Rightarrow> bool" where
  \<comment> \<open>a record source with the output's geometry, or a file that opens to a source that can be polled\<close>
  "source_fits E V outs sr ch source \<longleftrightarrow>
     (if src_type source = TYPE_RECORD then src_sample_rate source = sr \<and> src_channel_num source = ch
      else \<exists>s. AudioFileSource_ctor (env_file E) (src_ssrc source) (src_path source) sr ch 10 (src_volume source) =
             Some (Inr s) \<and> fs_ready (env_frame E) (env_file E) V outs s)"

lemma DoAddSource_fits:
  assumes fit: "source_fits E V outs (mx_output_sample_rate m) (mx_output_channel_num m) source"
    and E: "env_ok E reg M V outs"
    and g: "geometry_ok (mx_output_sample_rate m) (mx_output_channel_num m) 10" "mx_frame_duration_ms m = 10"
  obtains obj where "DoAddSource E source m = Some (Inr (make_shared (src_ssrc source) obj m))"
    "obj_ready E M V outs obj" "source_ssrc obj = src_ssrc source"
proof (cases "src_type source = TYPE_RECORD")
  case True
  have c: "elem_bytes (env_buf E) = 2" "M < 2 ^ 30" "frame_contract (env_frame E)"
    using E by (simp_all add: env_ok_def mixer_contract_def)
  obtain s where s: "AudioRecordSource_ctor (env_buf E) (src_ssrc source) (mx_output_sample_rate m)
      (mx_output_channel_num m) 10 (src_volume source) = Inr s" "rs_inv (env_buf E) M s" "rs_ssrc s = src_ssrc source"
      "rs_frame_duration_ms s = 10"
    using AudioRecordSource_ctor_ok [OF g(1) c(1,2), of "src_ssrc source" "src_volume source"] by (elim exE conjE)
  show thesis
    using that [of "RecordSource s"] s c(3) True fit g(2)
    by (simp add: DoAddSource_def source_fits_def rtc_check_def obj_ready_def rs_tenms_def source_ssrc_def Ssrc_record_def)
next
  case False
  then obtain s where s: "AudioFileSource_ctor (env_file E) (src_ssrc source) (src_path source) (mx_output_sample_rate m)
      (mx_output_channel_num m) 10 (src_volume source) = Some (Inr s)" "fs_ready (env_frame E) (env_file E) V outs s"
    using fit by (auto simp: source_fits_def)
  show thesis
    using that [of "FileSource s"] s False g(2) AudioFileSource_ctor_ssrc [OF s(1)]
    by (simp add: DoAddSource_def obj_ready_def source_ssrc_def Ssrc_file_def)
qed

definition config_abs :: "int32 \<Rightarrow> int32 \<Rightarrow> MixerSource list \<Rightarrow> abs_mixer" where
  \<comment> \<open>of two sources with one \<open>ssrc\<close> the first is kept\<close>
  "config_abs sr ch ss = map_of (map (\<lambda>s. (src_ssrc s, abs_new sr ch s)) ss)"

lemma make_shared_abs:
  assumes b: "built m" and ss: "source_ssrc obj = src_ssrc source" and o: "abs_of obj = x"
  defines "m1 \<equiv> snd (make_shared (src_ssrc source) obj m)"
  shows "mixer_abs (release (mx_next m) m1) = [src_ssrc source \<mapsto> x] ++ mixer_abs m"
    "mx_heap (release (mx_next m) m1) \<in> {mx_heap m, (mx_heap m)(mx_next m \<mapsto> obj)}"
proof -
  note sh = b [unfolded built_def]
  have mk: "(mx_next m, m1) = make_shared (src_ssrc source) obj m" by (simp add: m1_def make_shared_def)
  have "mixer_abs (release (mx_next m) m1) = [src_ssrc source \<mapsto> x] ++ mixer_abs m \<and>
    (mx_heap (release (mx_next m) m1) = mx_heap m \<or> mx_heap (release (mx_next m) m1) = (mx_heap m)(mx_next m \<mapsto> obj))"
  proof (cases "map_find (src_ssrc source) (mx_sources m)")
    case None
    note f = make_shared_fresh [OF sh None mk ss]
    have rel: "release (mx_next m) m1 = m1" using f(4) by (simp add: release_def)
    have "mixer_abs m1 = (mixer_abs m)(src_ssrc source \<mapsto> x)"
      using abs_store_insert [OF mx_shapeD(1) [OF sh] None f(2), of "mx_heap m" obj] o
      by (simp add: mixer_abs_def m1_def make_shared_def del: fun_upd_apply)
    moreover have "mixer_abs m (src_ssrc source) = None" using mixer_abs_find [OF sh] None by blast
    ultimately show ?thesis using rel by (auto simp: m1_def make_shared_def map_add_def split: option.splits)
  next
    case (Some q)
    have "\<exists>y. mixer_abs m (src_ssrc source) = Some y" using mixer_abs_find [OF sh, of "src_ssrc source"] Some by auto
    then have "[src_ssrc source \<mapsto> x] ++ mixer_abs m = mixer_abs m" by (auto simp: map_add_def split: option.splits)
    then show ?thesis using make_shared_dup(2) [OF sh Some mk] by (simp add: mixer_abs_def)
  qed
  then show "mixer_abs (release (mx_next m) m1) = [src_ssrc source \<mapsto> x] ++ mixer_abs m"
    "mx_heap (release (mx_next m) m1) \<in> {mx_heap m, (mx_heap m)(mx_next m \<mapsto> obj)}" by auto
qed
lemma add_all_ready:
  assumes E: "env_ok E reg M V outs" and g: "geometry_ok sr ch 10"
  shows "built m \<Longrightarrow> mx_output_sample_rate m = sr \<Longrightarrow> mx_output_channel_num m = ch \<Longrightarrow> mx_frame_duration_ms m = 10 \<Longrightarrow>
    \<forall>p obj. mx_heap m p = Some obj \<longrightarrow> obj_ready E M V outs obj \<Longrightarrow> \<forall>source \<in> set ss. source_fits E V outs sr ch source \<Longrightarrow>
    \<exists>m'. add_all E ss m = Some (Inr m') \<and> (\<forall>p obj. mx_heap m' p = Some obj \<longrightarrow> obj_ready E M V outs obj) \<and>
      mixer_abs m' = config_abs sr ch ss ++ mixer_abs m"
proof (induction ss arbitrary: m)
  case Nil
  then show ?case by (simp add: config_abs_def)
next
  case (Cons source ss)
  have geo: "geometry_ok (mx_output_sample_rate m) (mx_output_channel_num m) 10" using g Cons.prems(2,3) by simp
  have "source_fits E V outs (mx_output_sample_rate m) (mx_output_channel_num m) source" using Cons.prems(2,3,6) by simp
  then obtain obj where o: "DoAddSource E source m = Some (Inr (make_shared (src_ssrc source) obj m))"
    "obj_ready E M V outs obj" "source_ssrc obj = src_ssrc source"
    by (rule DoAddSource_fits [OF _ E geo Cons.prems(4)])
  have "elem_bytes (env_buf E) = 2" using E by (simp add: env_ok_def)
  from DoAddSource_abs [OF o(1) geo Cons.prems(4) this] have x: "abs_of obj = abs_new sr ch source"
    using Cons.prems(2,3) by simp
  let ?m1 = "snd (make_shared (src_ssrc source) obj m)"
  let ?r = "release (mx_next m) ?m1"
  have d: "DoAddSource E source m = Some (Inr (mx_next m, ?m1))" using o(1) by (simp add: make_shared_def)
  have "add_all E [source] m = Some (Inr ?r)" using d by simp
  then have b: "built ?r" using add_all_built [OF Cons.prems(1)] by blast
  note s = make_shared_abs [OF Cons.prems(1) o(3) x]
  have h: "\<forall>p y. mx_heap ?r p = Some y \<longrightarrow> obj_ready E M V outs y"
    using s(2) o(2) Cons.prems(5) by (auto split: if_splits)
  have "mx_output_sample_rate ?r = sr" "mx_output_channel_num ?r = ch" "mx_frame_duration_ms ?r = 10"
    using DoAddSource_geometry [OF d] Cons.prems(2-4) by simp_all
  from Cons.IH [OF b this h] Cons.prems(6) obtain m' where
    m': "add_all E ss ?r = Some (Inr m')" "\<forall>p obj. mx_heap m' p = Some obj \<longrightarrow> obj_ready E M V outs obj"
      "mixer_abs m' = config_abs sr ch ss ++ mixer_abs ?r" by auto
  have "config_abs sr ch (source # ss) = config_abs sr ch ss ++ [src_ssrc source \<mapsto> abs_new sr ch source]"
    by (simp add: config_abs_def)
  then have "mixer_abs m' = config_abs sr ch (source # ss) ++ mixer_abs m" using m'(3) s(1) by (simp only: map_add_assoc)
  moreover have "add_all E (source # ss) m = Some (Inr m')" using d m'(1) by simp
  ultimately show ?case using m'(2) by blast
qed

lemma Create_rep:
  fixes E :: "('w, 'swr, 'fmt, 'cc, 'pkt, 'par, 'codec, 'pcm, 'fifo) mixer_env"
  assumes E: "env_ok E reg M V outs" and g: "geometry_ok sr ch 10" "100 \<le> sr"
    and cfg: "cfg_output_sample_rate config = sr" "cfg_output_channel_num config = ch" "cfg_frame_duration_ms config = 10"
    and fit: "\<forall>source \<in> set (cfg_sources config). source_fits E V outs sr ch source"
  shows "\<exists>m. Create E config = Some (Inr m) \<and> mixer_rep E reg M V outs sr ch m (config_abs sr ch (cfg_sources config))"
proof -
  have C: "mixer_contract E reg" and W: "frame_contract (env_frame E)" using E by (simp_all add: env_ok_def mixer_contract_def)
  have r: "0 < sr" "in_int32 sr" using g(1) rate_in_int32 [OF g(1)] by (simp_all add: geometry_ok_def)
  have dv: "c_div 1000 kFrameDurationInMs = Inr 100" "c_div sr 100 = Inr (sr div 100)" "c_div 1000 10 = Inr 100"
    using r by (simp_all add: kFrameDurationInMs_def c_div_pos in_int32_def)
  let ?i = "\<lparr>mx_lib = lib_Create E, mx_sources = [], mx_heap = Map.empty, mx_next = 0, mx_mixed_frame = AudioFrame_init,
    mx_output_sample_rate = sr, mx_output_channel_num = ch, mx_frame_duration_ms = 10,
    mx_report_output_samples = sr div 100, mx_real_output_samples = sr div 100\<rparr>
    :: ('w, 'swr, 'fmt, 'cc, 'pkt, 'pcm, 'fifo) AudioMixer"
  have "built ?i" by (simp add: built_def mx_shape_def owned_def AudioFrame_init_storage)
  from add_all_ready [OF E g(1) this _ _ _ _ fit]
  have "\<exists>m'. add_all E (cfg_sources config) ?i = Some (Inr m') \<and> (\<forall>p obj. mx_heap m' p = Some obj \<longrightarrow> obj_ready E M V outs obj) \<and>
      mixer_abs m' = config_abs sr ch (cfg_sources config) ++ mixer_abs ?i" by simp
  then obtain m0 where
    m0: "add_all E (cfg_sources config) ?i = Some (Inr m0)" "\<forall>p obj. mx_heap m0 p = Some obj \<longrightarrow> obj_ready E M V outs obj"
      "mixer_abs m0 = config_abs sr ch (cfg_sources config) ++ mixer_abs ?i" by (elim exE conjE)
  obtain f where f: "UpdateFrame (env_frame E) 0 None (to_size_t (sr div 100)) sr kUndefined kVadUnknown
      (to_size_t ch) (mx_mixed_frame (register_all E m0)) = Inr f"
    using W unfolding frame_contract_def updates_without_data_def by blast
  let ?m = "(register_all E m0)\<lparr>mx_mixed_frame := f\<rparr>"
  have c: "AudioMixer_ctor E config = Some (Inr ?m)"
    using m0(1) f dv by (simp add: AudioMixer_ctor_def cfg rtc_check_def kFrameDurationInMs_def Let_def)
  note s = AudioMixer_ctor_shape [OF C c]
  have "mx_real_output_samples ?m = sr div 100" using s(8) dv cfg by auto
  then have "mixer_ready E reg M V outs ?m"
    using s(1,4-6) cfg g m0(2) by (simp add: mixer_ready_def register_all_def)
  moreover have "mixer_abs ?i = Map.empty" by (simp add: mixer_abs_def abs_store_def fun_eq_iff)
  ultimately have "mixer_rep E reg M V outs sr ch ?m (config_abs sr ch (cfg_sources config))"
    using E s(4,5) cfg m0(3) by (simp add: mixer_rep_def mixer_abs_def register_all_def)
  then show ?thesis using c by (auto simp: Create_def)
qed
section \<open>The stream of one source\<close>

fun recorded_for :: "int32 \<Rightarrow> mixer_op \<Rightarrow> sample list" where
  "recorded_for k (OpRecorded k' xs) = (if k' = k then xs else [])"
| "recorded_for k _ = []"

fun volume_for :: "int32 \<Rightarrow> mixer_op \<Rightarrow> cfloat \<Rightarrow> cfloat" where
  "volume_for k (OpVolume k' v) w = (if k' = k then v else w)"
| "volume_for k _ w = w"

lemma abs_step_stream:
  assumes s: "abs_step sr ch c A A'" and g: "abs_guard M sr ch c A" and k: "A k = Some (AbsRecord t q v)" and c: "c \<noteq> OpRemove k"
  shows "\<exists>j. j * t \<le> length q \<and> A' k = Some (AbsRecord t (drop (j * t) q @ recorded_for k c) (volume_for k c v))"
  using s
proof cases
  case (volume k' w)
  then show ?thesis using k by (intro exI [of _ 0]) auto
next
  case (remove k')
  then show ?thesis using k c by (intro exI [of _ 0]) auto
next
  case (recorded k' t' q' v' xs)
  then show ?thesis using k by (intro exI [of _ 0]) auto
next
  case (unheard k' xs)
  then show ?thesis using k by (intro exI [of _ 0]) auto
next
  case (mix out)
  then have "rel_option abs_polled (Some (AbsRecord t q v)) (A' k)" using k by metis
  then obtain y where y: "A' k = Some y" "abs_polled (AbsRecord t q v) y" by (auto simp: option_rel_Some1)
  from y(2) obtain j where "j * t \<le> length q" "y = AbsRecord t (drop (j * t) q) v" by (rule abs_polled_recordE)
  then show ?thesis using y(1) mix(1) by auto
next
  case (add source)
  then have "src_ssrc source \<noteq> k" using g k by auto
  then show ?thesis using add k by (intro exI [of _ 0]) simp
qed

lemma abs_stream:
  "step_all (abs_step sr ch) cs A A' \<Longrightarrow> guard_all (abs_guard M sr ch) (abs_step sr ch) cs A \<Longrightarrow>
   A k = Some (AbsRecord t q v) \<Longrightarrow> OpRemove k \<notin> set cs \<Longrightarrow>
   \<exists>j. j * t \<le> length (q @ concat (map (recorded_for k) cs)) \<and>
     A' k = Some (AbsRecord t (drop (j * t) (q @ concat (map (recorded_for k) cs))) (fold (volume_for k) cs v))"
proof (induction cs arbitrary: A q v)
  case Nil
  then show ?case by (intro exI [of _ 0]) simp
next
  case (Cons c cs)
  obtain A1 where s: "abs_step sr ch c A A1" "step_all (abs_step sr ch) cs A1 A'" using Cons.prems(1) by auto
  have g: "abs_guard M sr ch c A" "guard_all (abs_guard M sr ch) (abs_step sr ch) cs A1" using Cons.prems(2) s(1) by simp_all
  have n: "c \<noteq> OpRemove k" "OpRemove k \<notin> set cs" using Cons.prems(4) by auto
  obtain j where j: "j * t \<le> length q"
      "A1 k = Some (AbsRecord t (drop (j * t) q @ recorded_for k c) (volume_for k c v))"
    using abs_step_stream [OF s(1) g(1) Cons.prems(3) n(1)] by (elim exE conjE)
  let ?r = "concat (map (recorded_for k) cs)"
  obtain i where i: "i * t \<le> length ((drop (j * t) q @ recorded_for k c) @ ?r)"
      "A' k = Some (AbsRecord t (drop (i * t) ((drop (j * t) q @ recorded_for k c) @ ?r)) (fold (volume_for k) cs (volume_for k c v)))"
    using Cons.IH [OF s(2) g(2) j(2) n(2)] by (elim exE conjE)
  have "drop (i * t) ((drop (j * t) q @ recorded_for k c) @ ?r) = drop ((i + j) * t) (q @ recorded_for k c @ ?r)"
    using j(1) by (simp add: algebra_simps drop_append flip: drop_drop)
  moreover have "(i + j) * t \<le> length (q @ recorded_for k c @ ?r)" using i(1) j(1) by (simp add: algebra_simps)
  ultimately show ?case using i(2) by (intro exI [of _ "i + j"]) simp
qed
section \<open>Properties\<close>


lemma demo_env_ok_100: "env_ok demo_env (\<lambda>w. w) 100 demo_view (\<lambda>x. x)"
  using demo_env_ok by (simp add: env_ok_def)

lemma demo_geometry: "geometry_ok 300 1 10"
  by (simp add: geometry_ok_def kFrameDurationInMs_def in_int32_def kMaxDataSizeSamples_def)




end
