(* ===== verification/Av_Handles.thy ===== *)
theory Av_Handles
  imports Mixer_Prelude
begin

text \<open>
  Ownership of FFmpeg's objects: the deleters of \<open>src/src/avx_helper.h\<close>, the \<open>std::unique_ptr\<close> members that
  use them, and the destructors of \<open>AudioFileDecoder\<close>, \<open>AudioResampler\<close> and \<open>AudioFileSource\<close>, whose
  members are destroyed after the body in the reverse order of their declaration. A handle is an
  address; the release functions are a parameter, with the contract that releasing a live handle of the
  right kind makes it dead and touches no other handle. The value-level models of the classes
  are in \<open>Audio_File_Decoder\<close>, \<open>Audio_Resampler\<close> and \<open>Audio_File_Source\<close>.
\<close>

section \<open>The library\<close>

datatype av_kind = KFormat | KCodec | KFrame | KPacket | KSwr | KFifo | KMem

record 'h av_release_api =
  avformat_close_input :: "nat \<Rightarrow> 'h \<Rightarrow> 'h result"
  avcodec_free_context :: "nat \<Rightarrow> 'h \<Rightarrow> 'h result"
  av_frame_free :: "nat \<Rightarrow> 'h \<Rightarrow> 'h result"
  av_packet_free :: "nat \<Rightarrow> 'h \<Rightarrow> 'h result"
  swr_free :: "nat \<Rightarrow> 'h \<Rightarrow> 'h result"
  av_audio_fifo_free :: "nat \<Rightarrow> 'h \<Rightarrow> 'h result"
  av_freep :: "nat option \<Rightarrow> 'h \<Rightarrow> 'h result" \<comment> \<open>the pointer that the argument points to\<close>

section \<open>Deleters and smart pointers\<close>

definition AVFormatContextDeleter :: "'h av_release_api \<Rightarrow> nat option \<Rightarrow> 'h \<Rightarrow> 'h result" where
  "AVFormatContextDeleter R context h = (case context of None \<Rightarrow> Inr h | Some p \<Rightarrow> avformat_close_input R p h)"

definition AVCodecContextDeleter :: "'h av_release_api \<Rightarrow> nat option \<Rightarrow> 'h \<Rightarrow> 'h result" where
  "AVCodecContextDeleter R context h = (case context of None \<Rightarrow> Inr h | Some p \<Rightarrow> avcodec_free_context R p h)"

definition AVFrameDeleter :: "'h av_release_api \<Rightarrow> nat option \<Rightarrow> 'h \<Rightarrow> 'h result" where
  "AVFrameDeleter R frame h = (case frame of None \<Rightarrow> Inr h | Some p \<Rightarrow> av_frame_free R p h)"

definition AVPacketDeleter :: "'h av_release_api \<Rightarrow> nat option \<Rightarrow> 'h \<Rightarrow> 'h result" where
  "AVPacketDeleter R packet h = (case packet of None \<Rightarrow> Inr h | Some p \<Rightarrow> av_packet_free R p h)"

definition SwrContextDeleter :: "'h av_release_api \<Rightarrow> nat option \<Rightarrow> 'h \<Rightarrow> 'h result" where
  "SwrContextDeleter R swrContext h = (case swrContext of None \<Rightarrow> Inr h | Some p \<Rightarrow> swr_free R p h)"

definition AVAudioFifoDeleter :: "'h av_release_api \<Rightarrow> nat option \<Rightarrow> 'h \<Rightarrow> 'h result" where
  "AVAudioFifoDeleter R fifo h = (case fifo of None \<Rightarrow> Inr h | Some p \<Rightarrow> av_audio_fifo_free R p h)"

definition unique_ptr_dtor :: "('p option \<Rightarrow> 'h \<Rightarrow> 'h result) \<Rightarrow> 'p option \<Rightarrow> 'h \<Rightarrow> 'h result" where
  \<comment> \<open>\<open>~unique_ptr\<close>: the deleter is not called for a null pointer\<close>
  "unique_ptr_dtor deleter p h = (if p = None then Inr h else deleter p h)"

section \<open>The owners\<close>

record decoder_handles =
  h_format_context :: "nat option"
  h_codec_context :: "nat option"
  h_packet :: "nat option"
  h_frame :: "nat option"
  h_fifo :: "nat option"

record file_source_handles =
  h_input_buffer :: "nat option" \<comment> \<open>the array of plane pointers\<close>
  h_input_data :: "nat option" \<comment> \<open>its element 0, the samples\<close>
  h_decoder :: "decoder_handles option"
  h_resampler :: "nat option option" \<comment> \<open>the object, and in it the context\<close>

definition AudioFileDecoder_dtor :: "'h av_release_api \<Rightarrow> decoder_handles \<Rightarrow> 'h \<Rightarrow> 'h result" where
  "AudioFileDecoder_dtor R d h =
     rbind (unique_ptr_dtor (AVAudioFifoDeleter R) (h_fifo d) h) (\<lambda>h.
     rbind (unique_ptr_dtor (AVFrameDeleter R) (h_frame d) h) (\<lambda>h.
     rbind (unique_ptr_dtor (AVPacketDeleter R) (h_packet d) h) (\<lambda>h.
     rbind (unique_ptr_dtor (AVCodecContextDeleter R) (h_codec_context d) h) (\<lambda>h.
     unique_ptr_dtor (AVFormatContextDeleter R) (h_format_context d) h))))"

definition AudioResampler_dtor :: "'h av_release_api \<Rightarrow> nat option \<Rightarrow> 'h \<Rightarrow> 'h result" where
  "AudioResampler_dtor R context h = unique_ptr_dtor (SwrContextDeleter R) context h"

definition default_delete :: "('p \<Rightarrow> 'h \<Rightarrow> 'h result) \<Rightarrow> 'p option \<Rightarrow> 'h \<Rightarrow> 'h result" where
  \<comment> \<open>the deleter of a plain \<open>unique_ptr<T>\<close>: the destructor of the object\<close>
  "default_delete dtor p h = (case p of None \<Rightarrow> Inr h | Some x \<Rightarrow> dtor x h)"

definition AudioFileSource_destroy :: "'h av_release_api \<Rightarrow> file_source_handles \<Rightarrow> 'h \<Rightarrow> 'h result" where
  "AudioFileSource_destroy R s h =
     rbind (if h_input_buffer s \<noteq> None then av_freep R (h_input_data s) h else Inr h) (\<lambda>h.
     rbind (av_freep R (h_input_buffer s) h) (\<lambda>h.
     rbind (unique_ptr_dtor (default_delete (AudioResampler_dtor R)) (h_resampler s) h) (\<lambda>h.
     unique_ptr_dtor (default_delete (AudioFileDecoder_dtor R)) (h_decoder s) h)))"

section \<open>What the headers promise\<close>

definition frees :: "('h \<Rightarrow> nat \<rightharpoonup> av_kind) \<Rightarrow> av_kind \<Rightarrow> (nat \<Rightarrow> 'h \<Rightarrow> 'h result) \<Rightarrow> bool" where
  "frees live k f \<longleftrightarrow>
     (\<forall>p h. live h p = Some k \<longrightarrow> (\<exists>h'. f p h = Inr h' \<and> live h' = (live h)(p := None)))"

definition release_contract :: "'h av_release_api \<Rightarrow> ('h \<Rightarrow> nat \<rightharpoonup> av_kind) \<Rightarrow> bool" where
  "release_contract R live \<longleftrightarrow>
     frees live KFormat (avformat_close_input R) \<and> frees live KCodec (avcodec_free_context R) \<and>
     frees live KFrame (av_frame_free R) \<and> frees live KPacket (av_packet_free R) \<and>
     frees live KSwr (swr_free R) \<and> frees live KFifo (av_audio_fifo_free R) \<and>
     frees live KMem (\<lambda>p. av_freep R (Some p)) \<and> (\<forall>h. av_freep R None h = Inr h)"

section \<open>Sequences of releases\<close>

fun release_all :: "(nat option \<times> (nat \<Rightarrow> 'h \<Rightarrow> 'h result)) list \<Rightarrow> 'h \<Rightarrow> 'h result" where
  "release_all [] h = Inr h"
| "release_all ((None, f) # fs) h = release_all fs h"
| "release_all ((Some p, f) # fs) h = rbind (f p h) (release_all fs)"

lemma release_all_append: "release_all (fs @ gs) h = rbind (release_all fs h) (release_all gs)"
proof (induction fs arbitrary: h)
  case (Cons pf fs)
  then show ?case by (cases pf; cases "fst pf"; cases "snd pf (the (fst pf)) h") (auto simp: rbind_def split: sum.splits)
qed simp
definition decoder_releases :: "'h av_release_api \<Rightarrow> decoder_handles \<Rightarrow> (nat option \<times> (nat \<Rightarrow> 'h \<Rightarrow> 'h result)) list" where
  "decoder_releases R d =
     [(h_fifo d, av_audio_fifo_free R), (h_frame d, av_frame_free R), (h_packet d, av_packet_free R),
      (h_codec_context d, avcodec_free_context R), (h_format_context d, avformat_close_input R)]"

definition source_releases :: "'h av_release_api \<Rightarrow> file_source_handles \<Rightarrow> (nat option \<times> (nat \<Rightarrow> 'h \<Rightarrow> 'h result)) list" where
  "source_releases R s =
     [(h_input_data s, \<lambda>p. av_freep R (Some p)), (h_input_buffer s, \<lambda>p. av_freep R (Some p)),
      (Option.bind (h_resampler s) (\<lambda>x. x), swr_free R)] @
     (case h_decoder s of None \<Rightarrow> [] | Some d \<Rightarrow> decoder_releases R d)"

lemma unique_ptr_release:
  "unique_ptr_dtor (AVAudioFifoDeleter R) p h = release_all [(p, av_audio_fifo_free R)] h"
  "unique_ptr_dtor (AVFrameDeleter R) p h = release_all [(p, av_frame_free R)] h"
  "unique_ptr_dtor (AVPacketDeleter R) p h = release_all [(p, av_packet_free R)] h"
  "unique_ptr_dtor (AVCodecContextDeleter R) p h = release_all [(p, avcodec_free_context R)] h"
  "unique_ptr_dtor (AVFormatContextDeleter R) p h = release_all [(p, avformat_close_input R)] h"
  "unique_ptr_dtor (SwrContextDeleter R) p h = release_all [(p, swr_free R)] h"
  by (cases p; auto simp: unique_ptr_dtor_def AVAudioFifoDeleter_def AVFrameDeleter_def AVPacketDeleter_def
      AVCodecContextDeleter_def AVFormatContextDeleter_def SwrContextDeleter_def rbind_def split: sum.splits)+

lemma release_all_Cons2: "release_all (pf # qg # fs) = (\<lambda>h. rbind (release_all [pf] h) (release_all (qg # fs)))"
  using release_all_append [of "[pf]" "qg # fs"] by (simp add: fun_eq_iff)

lemma AudioFileDecoder_dtor_releases: "AudioFileDecoder_dtor R d h = release_all (decoder_releases R d) h"
  by (simp add: AudioFileDecoder_dtor_def decoder_releases_def unique_ptr_release release_all_Cons2)

lemma AudioFileSource_destroy_releases:
  assumes "release_contract R live" "h_input_buffer s = None \<Longrightarrow> h_input_data s = None"
  shows "AudioFileSource_destroy R s h = release_all (source_releases R s) h"
proof -
  have f: "av_freep R p h = release_all [(p, \<lambda>p. av_freep R (Some p))] h" for p h
    using assms(1) by (cases p) (auto simp: release_contract_def rbind_def split: sum.splits)
  have b: "(if h_input_buffer s \<noteq> None then av_freep R (h_input_data s) h else Inr h) =
      release_all [(h_input_data s, \<lambda>p. av_freep R (Some p))] h" for h
    using assms(2) f by simp
  have r: "unique_ptr_dtor (default_delete (AudioResampler_dtor R)) (h_resampler s) h =
      release_all [(Option.bind (h_resampler s) (\<lambda>x. x), swr_free R)] h" for h
    by (cases "h_resampler s") (simp_all add: unique_ptr_dtor_def [of "default_delete _"] default_delete_def
        AudioResampler_dtor_def unique_ptr_release)
  have d: "unique_ptr_dtor (default_delete (AudioFileDecoder_dtor R)) (h_decoder s) h =
      release_all (case h_decoder s of None \<Rightarrow> [] | Some d \<Rightarrow> decoder_releases R d) h" for h
    by (cases "h_decoder s") (simp_all add: unique_ptr_dtor_def default_delete_def AudioFileDecoder_dtor_releases)
  show ?thesis
    unfolding AudioFileSource_destroy_def source_releases_def release_all_append b r d f [of "h_input_buffer s"]
    by (simp add: release_all_Cons2 rbind_assoc)
qed

section \<open>Every handle is released once\<close>

definition owned_handles :: "(nat option \<times> 'f) list \<Rightarrow> nat list" where
  "owned_handles fs = concat (map (\<lambda>(p, f). case p of None \<Rightarrow> [] | Some q \<Rightarrow> [q]) fs)"

lemma owned_handles_simps [simp]:
  "owned_handles [] = []" "owned_handles ((None, f) # fs) = owned_handles fs"
  "owned_handles ((Some p, f) # fs) = p # owned_handles fs" "owned_handles (fs @ gs) = owned_handles fs @ owned_handles gs"
  by (simp_all add: owned_handles_def)

lemma release_all_frees:
  "\<forall>(p, f) \<in> set fs. \<forall>q. p = Some q \<longrightarrow> (\<exists>k. live h q = Some k \<and> frees live k f) \<Longrightarrow> distinct (owned_handles fs) \<Longrightarrow>
   \<exists>h'. release_all fs h = Inr h' \<and> live h' = (\<lambda>q. if q \<in> set (owned_handles fs) then None else live h q)"
proof (induction fs arbitrary: h)
  case Nil
  then show ?case by simp
next
  case (Cons pf fs)
  obtain p f where pf: "pf = (p, f)" by (cases pf)
  show ?case
  proof (cases p)
    case None
    then show ?thesis using Cons pf by simp
  next
    case (Some q)
    then obtain k where "live h q = Some k" "frees live k f" using Cons.prems(1) pf by auto
    then obtain h1 where h1: "f q h = Inr h1" "live h1 = (live h)(q := None)" unfolding frees_def by blast
    have nq: "q \<notin> set (owned_handles fs)" "distinct (owned_handles fs)" using Cons.prems(2) pf Some by simp_all
    have "\<forall>(p, f) \<in> set fs. \<forall>q. p = Some q \<longrightarrow> (\<exists>k. live h1 q = Some k \<and> frees live k f)"
      using Cons.prems(1) nq(1) h1(2) by (fastforce simp: owned_handles_def)
    from Cons.IH [OF this nq(2)] show ?thesis using h1 pf Some by (auto simp: rbind_def fun_eq_iff)
  qed
qed
definition typed_handle :: "av_kind \<Rightarrow> nat option \<Rightarrow> (nat \<times> av_kind) list" where
  "typed_handle k p = (case p of None \<Rightarrow> [] | Some q \<Rightarrow> [(q, k)])"

definition source_handles :: "file_source_handles \<Rightarrow> (nat \<times> av_kind) list" where
  \<comment> \<open>what a file source owns\<close>
  "source_handles s =
     typed_handle KMem (h_input_data s) @ typed_handle KMem (h_input_buffer s) @
     typed_handle KSwr (Option.bind (h_resampler s) (\<lambda>x. x)) @
     (case h_decoder s of None \<Rightarrow> [] | Some d \<Rightarrow>
        typed_handle KFifo (h_fifo d) @ typed_handle KFrame (h_frame d) @ typed_handle KPacket (h_packet d) @
        typed_handle KCodec (h_codec_context d) @ typed_handle KFormat (h_format_context d))"

lemma owned_typed: "owned_handles ((p, f) # fs) = map fst (typed_handle k p) @ owned_handles fs"
  by (cases p) (simp_all add: typed_handle_def)

lemma typed_handle_ball: "(\<forall>(q, k') \<in> set (typed_handle k p). P q k') \<longleftrightarrow> (\<forall>q. p = Some q \<longrightarrow> P q k)"
  by (cases p) (simp_all add: typed_handle_def)

lemma source_handles_owned: "owned_handles (source_releases R s) = map fst (source_handles s)"
  by (cases "h_decoder s")
    (simp_all add: source_releases_def source_handles_def decoder_releases_def
      owned_typed [of _ "\<lambda>p. av_freep R (Some p)" _ KMem] owned_typed [of _ "swr_free R" _ KSwr]
      owned_typed [of _ "av_audio_fifo_free R" _ KFifo] owned_typed [of _ "av_frame_free R" _ KFrame]
      owned_typed [of _ "av_packet_free R" _ KPacket] owned_typed [of _ "avcodec_free_context R" _ KCodec]
      owned_typed [of _ "avformat_close_input R" _ KFormat])

lemma source_handles_frees:
  assumes "release_contract R live" "\<forall>(p, k) \<in> set (source_handles s). live h p = Some k"
  shows "\<forall>(p, f) \<in> set (source_releases R s). \<forall>q. p = Some q \<longrightarrow> (\<exists>k. live h q = Some k \<and> frees live k f)"
  using assms by (cases "h_decoder s")
    (auto simp: source_releases_def source_handles_def decoder_releases_def release_contract_def
      typed_handle_ball ball_Un)

section \<open>Properties\<close>

text \<open>Claim C24. Destroying a file source releases every FFmpeg object it owns (the sample buffer and its array, the
  resampler context, FIFO, frame, packet, codec and format context) exactly once, with the function
  for its kind and while it is alive, and releases nothing else; members that were never set are
  skipped.\<close>

theorem file_source_releases_once:
  assumes "release_contract R live" "\<forall>(p, k) \<in> set (source_handles s). live h p = Some k"
    "distinct (map fst (source_handles s))" "h_input_buffer s = None \<longrightarrow> h_input_data s = None"
  shows "\<exists>h'. AudioFileSource_destroy R s h = Inr h' \<and>
    live h' = (\<lambda>p. if p \<in> fst ` set (source_handles s) then None else live h p)"
proof -
  have "distinct (owned_handles (source_releases R s))" using assms(3) source_handles_owned [of R s] by simp
  from release_all_frees [OF source_handles_frees [OF assms(1,2)] this]
  show ?thesis using AudioFileSource_destroy_releases [OF assms(1)] assms(4) by (simp add: source_handles_owned)
qed

definition demo_release :: "av_kind \<Rightarrow> nat \<Rightarrow> (nat \<times> av_kind) list \<Rightarrow> (nat \<times> av_kind) list result" where
  "demo_release k p h = (if map_of h p = Some k then Inr (filter (\<lambda>x. fst x \<noteq> p) h) else Inl UseAfterFree)"

definition demo_release_api :: "(nat \<times> av_kind) list av_release_api" where
  "demo_release_api = \<lparr>avformat_close_input = demo_release KFormat, avcodec_free_context = demo_release KCodec,
     av_frame_free = demo_release KFrame, av_packet_free = demo_release KPacket, swr_free = demo_release KSwr,
     av_audio_fifo_free = demo_release KFifo,
     av_freep = (\<lambda>p h. case p of None \<Rightarrow> Inr h | Some q \<Rightarrow> demo_release KMem q h)\<rparr>"

lemma map_of_without: "map_of (filter (\<lambda>x. fst x \<noteq> p) h) = (map_of h)(p := None)"
  by (induction h) (auto simp: fun_eq_iff)

lemma demo_release_contract: "release_contract demo_release_api map_of"
  by (simp add: release_contract_def demo_release_api_def frees_def demo_release_def map_of_without)

theorem file_source_releases_once_witness:
  "\<exists>h'. AudioFileSource_destroy demo_release_api
      \<lparr>h_input_buffer = Some 1, h_input_data = Some 2,
       h_decoder = Some \<lparr>h_format_context = Some 3, h_codec_context = Some 4, h_packet = Some 5, h_frame = Some 6, h_fifo = Some 7\<rparr>,
       h_resampler = Some (Some 8)\<rparr>
      [(1, KMem), (2, KMem), (3, KFormat), (4, KCodec), (5, KPacket), (6, KFrame), (7, KFifo), (8, KSwr), (9, KSwr)] = Inr h' \<and>
     map_of h' 8 = None \<and> map_of h' 9 = Some KSwr"
proof -
  let ?s = "\<lparr>h_input_buffer = Some 1, h_input_data = Some 2,
       h_decoder = Some \<lparr>h_format_context = Some 3, h_codec_context = Some 4, h_packet = Some 5, h_frame = Some 6, h_fifo = Some 7\<rparr>,
       h_resampler = Some (Some 8)\<rparr>"
  have s: "source_handles ?s = [(2, KMem), (1, KMem), (8, KSwr), (7, KFifo), (6, KFrame), (5, KPacket), (4, KCodec), (3, KFormat)]"
    by (simp add: source_handles_def typed_handle_def)
  show ?thesis
    using file_source_releases_once [OF demo_release_contract, of ?s
        "[(1, KMem), (2, KMem), (3, KFormat), (4, KCodec), (5, KPacket), (6, KFrame), (7, KFifo), (8, KSwr), (9, KSwr)]"]
    unfolding s by auto
qed

end
