(* ===== verification/Av_Utf.thy ===== *)
theory Av_Utf
  imports Av_Common "HOL-Library.Log_Nat"
begin

text \<open>
  The Unicode macros of \<open>libavutil/common.h\<close>: \<open>GET_UTF8\<close>, \<open>PUT_UTF8\<close>, \<open>GET_UTF16\<close> and \<open>PUT_UTF16\<close>. The
  expression \<open>GET_BYTE\<close> reads from a list of bytes, and running out of it is an outcome of its
  own; \<open>ERROR\<close> is another. \<open>PUT_BYTE\<close> appends to a list. The loops keep \<open>uint32_t\<close>
  wrap-around; \<open>av_log2\<close> is implemented in the library and is an argument.
\<close>

section \<open>The macros\<close>

datatype utf_fault = UtfInvalid | UtfEnd

fun get_utf8_loop :: "cint \<Rightarrow> cint \<Rightarrow> 8 word list \<Rightarrow> utf_fault + cint \<times> 8 word list" where
  \<comment> \<open>\<open>while (val & top)\<close> and the final mask\<close>
  "get_utf8_loop val top_bit bs =
     (if val AND top_bit \<noteq> 0 then
        (case bs of
           [] \<Rightarrow> Inl UtfEnd
         | b # bs' \<Rightarrow>
             let tmp = uint b - 128
             in if drop_bit 6 tmp \<noteq> 0 then Inl UtfInvalid
                else get_utf8_loop (push_bit 6 val + word_of_int tmp) (push_bit 5 top_bit) bs')
      else Inr (val AND (push_bit 1 top_bit - 1), bs))"

definition GET_UTF8 :: "8 word list \<Rightarrow> utf_fault + cint \<times> 8 word list" where
  "GET_UTF8 bs =
     (case bs of
        [] \<Rightarrow> Inl UtfEnd
      | b # bs' \<Rightarrow>
          let val = ucast b :: cint; top_bit = drop_bit 1 (val AND 128)
          in if val AND 0xc0 = 0x80 \<or> val \<ge> 0xFE then Inl UtfInvalid else get_utf8_loop val top_bit bs')"

definition GET_UTF16 :: "16 word list \<Rightarrow> utf_fault + cint \<times> 16 word list" where
  "GET_UTF16 us =
     (case us of
        [] \<Rightarrow> Inl UtfEnd
      | u # us' \<Rightarrow>
          let val = ucast u :: cint; hi = val - 0xD800
          in if hi < 0x800
             then (case us' of
                     [] \<Rightarrow> Inl UtfEnd
                   | u' # us'' \<Rightarrow>
                       let val = ucast u' - 0xDC00
                       in if val > 0x3FF \<or> hi > 0x3FF then Inl UtfInvalid
                          else Inr (val + (push_bit 10 hi + 0x10000), us''))
             else Inr (val, us'))"

fun put_utf8_loop :: "cint \<Rightarrow> nat \<Rightarrow> 8 word list" where
  \<comment> \<open>\<open>while (shift >= 6)\<close>\<close>
  "put_utf8_loop in_val shift =
     (if shift \<ge> 6
      then ucast (0x80 OR (drop_bit (shift - 6) in_val AND 0x3f)) # put_utf8_loop in_val (shift - 6)
      else [])"

definition PUT_UTF8 :: "(cint \<Rightarrow> nat) \<Rightarrow> cint \<Rightarrow> 8 word list result" where
  \<comment> \<open>a shift of a 32-bit value by 32 or more is undefined\<close>
  "PUT_UTF8 av_log2 in_val =
     (if in_val < 0x80 then Inr [ucast in_val]
      else
        let bytes = (av_log2 in_val + 4) div 5; shift = (bytes - 1) * 6
        in if shift \<ge> 32 then Inl BadShift
           else Inr (ucast ((256 - drop_bit bytes 256) OR drop_bit shift in_val) # put_utf8_loop in_val shift))"

definition PUT_UTF16 :: "cint \<Rightarrow> 16 word list" where
  "PUT_UTF16 in_val =
     (if in_val < 0x10000 then [ucast in_val]
      else [ucast (0xD800 OR drop_bit 10 (in_val - 0x10000)), ucast (0xDC00 OR ((in_val - 0x10000) AND 0x3FF))])"

definition log2_contract :: "(cint \<Rightarrow> nat) \<Rightarrow> bool" where
  \<comment> \<open>the integer part of the logarithm\<close>
  "log2_contract av_log2 \<longleftrightarrow> (\<forall>v > 0. 2 ^ av_log2 v \<le> uint v \<and> uint v < 2 ^ (av_log2 v + 1))"

declare get_utf8_loop.simps [simp del] put_utf8_loop.simps [simp del]
section \<open>Continuation bytes\<close>

lemma uint_or_low: "uint (a OR b) = uint a + uint b" if "uint a AND uint b = 0" for a b :: "'a::len word"
  using that by (simp add: unsigned_or_eq disjunctive_add_eq_or)

lemma high_and_low:
  fixes x y :: int
  assumes "0 \<le> y" "y < 2 ^ k"
  shows "push_bit k x AND y = 0"
proof (rule bit_eqI)
  fix i
  have "\<not> bit y i" if "k \<le> i"
    using assms that by (metis bit_take_bit_iff leD take_bit_int_eq_self)
  then show "bit (push_bit k x AND y) i \<longleftrightarrow> bit (0 :: int) i" by (auto simp: bit_simps)
qed

lemma cont_byte:
  "uint (ucast (0x80 OR (drop_bit s v AND 0x3f)) :: 8 word) = 128 + (uint v div 2 ^ s) mod 64" for v :: cint
proof -
  have l: "uint (drop_bit s v AND 0x3f) = (uint v div 2 ^ s) mod 64"
  proof -
    have "uint (drop_bit s v) = uint v div 2 ^ s" 
      using uint_bounded [of v] unfolding unsigned_drop_bit_eq by (simp add: drop_bit_eq_div take_bit_int_eq_self)
    moreover have "uint (drop_bit s v AND 0x3f) = take_bit 6 (uint (drop_bit s v))"
      by (simp add: unsigned_and_eq take_bit_eq_mask mask_eq_exp_minus_1)
    ultimately show ?thesis by (simp add: take_bit_eq_mod)
  qed
  have "(128 :: int) AND (uint v div 2 ^ s) mod 64 = 0"
    using high_and_low [of "(uint v div 2 ^ s) mod 64" 6 2] by (simp add: push_bit_eq_mult)
  then have "uint (0x80 OR (drop_bit s v AND 0x3f)) = 128 + (uint v div 2 ^ s) mod 64"
    using uint_or_low [of "0x80" "drop_bit s v AND 0x3f"] l by simp
  then show ?thesis by (simp add: unsigned_ucast_eq take_bit_eq_mod)
qed

lemma put_utf8_loop_0 [simp]: "put_utf8_loop v 0 = []"
  by (simp add: put_utf8_loop.simps)

lemma put_utf8_loop_Suc [simp]:
  "put_utf8_loop v (6 * Suc j) = ucast (0x80 OR (drop_bit (6 * j) v AND 0x3f)) # put_utf8_loop v (6 * j)"
  by (subst put_utf8_loop.simps) simp

lemma length_put_utf8_loop [simp]: "length (put_utf8_loop v (6 * j)) = j"
  by (induction j) (simp_all del: mult_Suc_right)

section \<open>Decoding what was encoded\<close>

lemma div_below: "x < a * b \<Longrightarrow> 0 < b \<Longrightarrow> x div b < a" for x a b :: int
  by (smt (verit) minus_mod_eq_div_mult mult_right_less_imp_less pos_mod_sign)

lemma take_bit_of_int_word: "take_bit n (word_of_int x) = (word_of_int (take_bit n x) :: 'a::len word)"
  by (rule bit_word_eqI) (simp add: bit_take_bit_iff bit_word_of_int_iff)

lemma and_single_bit: "w AND push_bit p 1 \<noteq> 0 \<longleftrightarrow> bit w p" for w :: "'a::len word"
  by (simp add: bit_iff_and_push_bit_not_eq_0)

lemma and_set_bit: "bit w p \<Longrightarrow> w AND push_bit p 1 = push_bit p 1" for w :: "'a::len word"
  by (rule bit_word_eqI) (auto simp: bit_and_iff bit_exp_iff)

lemma word_concat_step:
  assumes "0 \<le> y" "y < 2 ^ m" "0 \<le> t" "t < 64"
  shows "push_bit 6 (word_of_int (concat_bit m y l)) + word_of_int t = (word_of_int (concat_bit (m + 6) (64 * y + t) l) :: cint)"
proof -
  have "take_bit m y = y" "take_bit (m + 6) (64 * y + t) = 64 * y + t"
    using assms by (auto simp: take_bit_int_eq_self_iff power_add)
  then have "64 * concat_bit m y l + t = concat_bit (m + 6) (64 * y + t) l"
    by (simp add: concat_bit_eq push_bit_eq_mult power_add)
  then have "word_of_int (64 * concat_bit m y l + t) = (word_of_int (concat_bit (m + 6) (64 * y + t) l) :: cint)" by simp
  then show ?thesis by (simp add: push_bit_eq_mult mult.commute)
qed

lemma top_mask: "w AND (push_bit 1 (push_bit p 1) - 1) = take_bit (Suc p) w" for w :: "'a::len word"
  by (simp add: take_bit_eq_mask mask_eq_exp_minus_1 push_bit_eq_mult mult.commute)

lemma get_utf8_loop_stop:
  "\<not> bit val p \<Longrightarrow> get_utf8_loop val (push_bit p 1) bs = Inr (take_bit (Suc p) val, bs)"
  unfolding get_utf8_loop.simps [of val] top_mask and_single_bit by simp

lemma get_utf8_loop_more:
  assumes "bit val p" "uint b = 128 + t" "0 \<le> t" "t < 64"
  shows "get_utf8_loop val (push_bit p 1) (b # bs) = get_utf8_loop (push_bit 6 val + word_of_int t) (push_bit (p + 5) 1) bs"
proof -
  have "push_bit 5 (push_bit p 1) = (push_bit (p + 5) 1 :: cint)" by (simp only: push_bit_push_bit add.commute)
  moreover have "drop_bit 6 (uint b - 128) = 0" using assms by (simp add: drop_bit_eq_div)
  ultimately show ?thesis
    unfolding get_utf8_loop.simps [of val] and_single_bit using assms by (simp del: push_bit_of_1)
qed

lemma lead_bits:
  assumes "p < 32"
  shows "bit (word_of_int (concat_bit m y (mask n)) :: cint) p \<longleftrightarrow> (if p < m then bit y p else p - m < n)"
  using assms by (auto simp: bit_word_of_int_iff bit_concat_bit_iff bit_mask_iff)

lemma get_utf8_loop_decodes:
  assumes "k + j < 6" "1 \<le> k + j" "m + j = 7 + 5 * k" "uint v < 2 ^ (5 * (k + j) + 6)"
  shows "get_utf8_loop (word_of_int (concat_bit m (uint v div 2 ^ (6 * j)) (mask (k + j + 1)))) (push_bit (6 + 5 * k) 1)
     (put_utf8_loop v (6 * j) @ rest) = Inr (v, rest)"
  using assms
proof (induction j arbitrary: k m)
  case 0
  have p: "m = Suc (6 + 5 * k)" "6 + 5 * k < 32" using 0 by simp_all
  have v: "uint v < 2 ^ (6 + 5 * k)" using 0(4) by (simp add: add.commute)
  have "(2 :: int) ^ (6 + 5 * k) \<le> 2 ^ m" using p(1) by (intro power_increasing) simp_all
  from less_le_trans [OF v this] have y: "take_bit m (uint v) = uint v" by (intro take_bit_int_eq_self) simp_all
  have x: "take_bit (6 + 5 * k) (uint v) = uint v" using v by (intro take_bit_int_eq_self) simp_all
  from x have nb: "\<not> bit (uint v) (6 + 5 * k)" by (metis bit_take_bit_iff less_irrefl)
  have w: "take_bit m (word_of_int (concat_bit m (uint v) (mask (k + 1))) :: cint) = v"
    using y by (simp add: take_bit_of_int_word take_bit_concat_bit_eq)
  have "\<not> bit (word_of_int (concat_bit m (uint v) (mask (k + 1))) :: cint) (6 + 5 * k)" using p nb by (simp add: lead_bits)
  from get_utf8_loop_stop [OF this, of rest] show ?case using p(1) w by (simp del: push_bit_of_1)
next
  case (Suc j)
  define y where "y = uint v div 2 ^ (6 * Suc j)"
  define t where "t = (uint v div 2 ^ (6 * j)) mod 64"
  have e: "64 * y + t = uint v div 2 ^ (6 * j)"
  proof -
    have "2 ^ (6 * Suc j) = (2 :: int) ^ (6 * j) * 64" by (simp add: power_add)
    then have "y = uint v div 2 ^ (6 * j) div 64" unfolding y_def by (simp only: zdiv_zmult2_eq)
    then show ?thesis by (simp add: t_def)
  qed
  have m: "6 + 5 * k = m + j" "6 + 5 * k < 32" using Suc.prems by simp_all
  have "uint v < 2 ^ m * 2 ^ (6 * Suc j)"
    using Suc.prems by (intro less_trans [OF Suc.prems(4)]) (simp flip: power_add)
  then have y: "0 \<le> y" "y < 2 ^ m" by (simp_all add: y_def div_below pos_imp_zdiv_nonneg_iff del: mult_Suc_right)
  have t: "0 \<le> t" "t < 64" by (simp_all add: t_def)
  have b: "bit (word_of_int (concat_bit m y (mask (k + Suc j + 1))) :: cint) (6 + 5 * k)" using m by (simp add: lead_bits)
  have "6 + 5 * k + 5 = 6 + 5 * Suc k" by simp
  then have "get_utf8_loop (word_of_int (concat_bit m y (mask (k + Suc j + 1)))) (push_bit (6 + 5 * k) 1)
      (put_utf8_loop v (6 * Suc j) @ rest) =
    get_utf8_loop (word_of_int (concat_bit (m + 6) (64 * y + t) (mask (k + Suc j + 1)))) (push_bit (6 + 5 * Suc k) 1)
      (put_utf8_loop v (6 * j) @ rest)"
    using get_utf8_loop_more [OF b _ t] cont_byte [of "6 * j" v] word_concat_step [OF y t]
    by (simp only: put_utf8_loop_Suc append_Cons t_def)
  also have "\<dots> = Inr (v, rest)"
  proof -
    have c: "Suc k + j = k + Suc j" by simp
    have "Suc k + j < 6" "1 \<le> Suc k + j" "m + 6 + j = 7 + 5 * Suc k" using Suc.prems(1-3) by simp_all
    moreover have "uint v < 2 ^ (5 * (Suc k + j) + 6)" using Suc.prems(4) by (simp only: c)
    ultimately have "get_utf8_loop (word_of_int (concat_bit (m + 6) (uint v div 2 ^ (6 * j)) (mask (Suc k + j + 1))))
        (push_bit (6 + 5 * Suc k) 1) (put_utf8_loop v (6 * j) @ rest) = Inr (v, rest)" by (rule Suc.IH)
    then show ?thesis by (simp only: e c)
  qed
  finally show ?case unfolding y_def .
qed

lemma GET_UTF8_Cons:
  assumes "ucast b = val" "val AND 0xc0 \<noteq> 0x80" "\<not> val \<ge> 0xFE" "drop_bit 1 (val AND 128) = t"
  shows "GET_UTF8 (b # bs) = get_utf8_loop val t bs"
  unfolding GET_UTF8_def list.case Let_def assms(1,4) using assms(2,3) by simp

section \<open>Length of an encoding\<close>

lemma log2_range:
  assumes L: "log2_contract L" and v: "0x80 \<le> uint v" "uint v < 2 ^ 31"
  shows "7 \<le> L v" "L v \<le> 30" "uint v < 2 ^ (L v + 1)"
proof -
  have "0 < v" using v(1) by (simp add: word_less_def)
  then have l: "2 ^ L v \<le> uint v" "uint v < 2 ^ (L v + 1)" using L by (simp_all add: log2_contract_def)
  show "uint v < 2 ^ (L v + 1)" by (rule l(2))
  have "(2 :: int) ^ 7 < 2 ^ (L v + 1)" using v(1) by (intro le_less_trans [OF _ l(2)]) simp
  then show "7 \<le> L v" using power_less_imp_less_exp [of "2 :: int" 7 "L v + 1"] by simp
  have "(2 :: int) ^ L v < 2 ^ 31" using le_less_trans [OF l(1) v(2)] .
  then show "L v \<le> 30" using power_less_imp_less_exp [of "2 :: int" "L v" 31] by simp
qed

lemma lead_byte:
  fixes v :: cint
  assumes n: "2 \<le> n" "n \<le> 6" and v: "uint v < 2 ^ (5 * n + 1)"
  shows "uint (ucast ((256 - drop_bit n 256) OR drop_bit (6 * (n - 1)) v) :: 8 word) =
      concat_bit (8 - n) (uint v div 2 ^ (6 * (n - 1))) (mask n)" (is "uint ?b = ?c")
    "concat_bit (8 - n) (uint v div 2 ^ (6 * (n - 1))) (mask n) < (0xFE :: int)"
proof -
  define y where "y = uint v div 2 ^ (6 * (n - 1))"
  have "5 * n + 1 = (7 - n) + 6 * (n - 1)" using n by simp
  then have "uint v < 2 ^ (7 - n) * 2 ^ (6 * (n - 1))" using v by (simp only: power_add)
  then have y: "0 \<le> y" "y < 2 ^ (7 - n)" by (simp_all add: y_def div_below pos_imp_zdiv_nonneg_iff)
  have d: "uint (drop_bit (6 * (n - 1)) v) = y"
    using uint_bounded [of v] unfolding unsigned_drop_bit_eq by (simp add: drop_bit_eq_div take_bit_int_eq_self y_def)
  have h: "uint (256 - drop_bit n 256 :: cint) = 256 - 2 ^ (8 - n)" "(256 :: int) - 2 ^ (8 - n) = push_bit (7 - n) (2 ^ (n + 1) - 2)"
    "mask n * 2 ^ (8 - n) = (256 :: int) - 2 ^ (8 - n)" "2 \<le> (2 :: int) ^ (7 - n)" "(2 :: int) ^ (8 - n) = 2 * 2 ^ (7 - n)"
  proof -
    have "n \<in> {2, 3, 4, 5, 6}" using n by auto
    then show "uint (256 - drop_bit n 256 :: cint) = 256 - 2 ^ (8 - n)" "(256 :: int) - 2 ^ (8 - n) = push_bit (7 - n) (2 ^ (n + 1) - 2)"
      "mask n * 2 ^ (8 - n) = (256 :: int) - 2 ^ (8 - n)" "2 \<le> (2 :: int) ^ (7 - n)" "(2 :: int) ^ (8 - n) = 2 * 2 ^ (7 - n)"
      by (auto simp: push_bit_eq_mult mask_eq_exp_minus_1)
  qed
  have "uint ((256 - drop_bit n 256) OR drop_bit (6 * (n - 1)) v) = 256 - 2 ^ (8 - n) + y"
    using high_and_low [OF y, of "2 ^ (n + 1) - 2"] h(1,2) d by (subst uint_or_low) simp_all
  moreover have c: "?c = y + (256 - 2 ^ (8 - n))"
  proof -
    have "?c = take_bit (8 - n) y + push_bit (8 - n) (mask n)" by (simp only: concat_bit_eq y_def)
    then show ?thesis using y h(3,5) by (simp add: push_bit_eq_mult take_bit_int_eq_self)
  qed
  moreover have "y + (256 - 2 ^ (8 - n)) < 256" "0 \<le> y + (256 - 2 ^ (8 - n))" using y h(2,4,5) by simp_all
  ultimately show "uint ?b = ?c" by (simp add: unsigned_ucast_eq take_bit_int_eq_self)
  show "?c < (0xFE :: int)" using c y h(4,5) by simp
qed
lemma get_utf8_multi:
  assumes n: "2 \<le> n" "n \<le> 6" and v: "uint v < 2 ^ (5 * n + 1)"
  shows "GET_UTF8 (ucast ((256 - drop_bit n 256) OR drop_bit (6 * (n - 1)) v) # put_utf8_loop v (6 * (n - 1)) @ rest) =
    Inr (v, rest)"
proof -
  let ?b = "ucast ((256 - drop_bit n 256) OR drop_bit (6 * (n - 1)) v) :: 8 word"
  let ?c = "concat_bit (8 - n) (uint v div 2 ^ (6 * (n - 1))) (mask n)"
  let ?val = "ucast ?b :: cint"
  note lb = lead_byte [OF n v]
  have val: "?val = word_of_int ?c" using arg_cong [OF lb(1), of "word_of_int :: int \<Rightarrow> cint"] by simp
  have b6: "bit ?val 6" "bit ?val 7" using n unfolding val by (auto simp: lead_bits)
  have "0 \<le> ?c" unfolding lb(1) [symmetric] by simp
  then have "\<not> ?val \<ge> 0xFE" unfolding val using lb(2) by (simp add: word_le_def uint_word_of_int)
  moreover have "?val AND 0xc0 \<noteq> 0x80"
  proof
    assume "?val AND 0xc0 = 0x80"
    then have "bit (?val AND 0xc0) 6 \<longleftrightarrow> bit (0x80 :: cint) 6" by simp
    then show False using b6(1) by (simp add: bit_and_iff)
  qed
  moreover have "drop_bit 1 (?val AND 128) = (push_bit 6 1 :: cint)"
  proof -
    have "?val AND push_bit 7 1 = push_bit 7 1" using and_set_bit [OF b6(2)] .
    then have "?val AND 128 = 128" by (simp only: push_bit_of_1) simp
    then show ?thesis by (simp only:) simp
  qed
  ultimately have "GET_UTF8 (?b # put_utf8_loop v (6 * (n - 1)) @ rest) =
      get_utf8_loop ?val (push_bit 6 1) (put_utf8_loop v (6 * (n - 1)) @ rest)"
    by (intro GET_UTF8_Cons refl)
  also have "\<dots> = get_utf8_loop (word_of_int ?c) (push_bit (6 + 5 * 0) 1) (put_utf8_loop v (6 * (n - 1)) @ rest)"
    unfolding val by (simp only: mult_0_right add_0_right)
  also have "\<dots> = Inr (v, rest)"
  proof -
    obtain j where j: "n = Suc j" "1 \<le> j" "j < 6" using n by (cases n) auto
    have "get_utf8_loop (word_of_int (concat_bit (8 - n) (uint v div 2 ^ (6 * j)) (mask (0 + j + 1)))) (push_bit (6 + 5 * 0) 1)
        (put_utf8_loop v (6 * j) @ rest) = Inr (v, rest)"
      using j v by (intro get_utf8_loop_decodes) (simp_all add: add.commute)
    then show ?thesis using j(1) by (simp del: push_bit_of_1)
  qed
  finally show ?thesis .
qed

section \<open>Properties\<close>

text \<open>Claim C34. UTF-8: what \<open>PUT_UTF8\<close> writes for a value below \<open>2^31\<close>, one to six bytes, \<open>GET_UTF8\<close> reads back, and it reads no
  further; for a larger value the encoder computes seven bytes and shifts a 32-bit value by 36,
  which is undefined.\<close>

theorem utf8_roundtrip:
  assumes L: "log2_contract av_log2"
  shows "if uint v < 2 ^ 31
    then \<exists>bs. PUT_UTF8 av_log2 v = Inr bs \<and> 1 \<le> length bs \<and> length bs \<le> 6 \<and> GET_UTF8 (bs @ rest) = Inr (v, rest)
    else PUT_UTF8 av_log2 v = Inl BadShift"
proof (cases "uint v < 0x80")
  case True
  have s: "v < 0x80" using True by (simp add: word_less_def)
  have u: "(ucast (ucast v :: 8 word) :: cint) = v"
  proof -
    have "uint (ucast v :: 8 word) = uint v" using True unfolding unsigned_ucast_eq by (simp add: take_bit_int_eq_self)
    from arg_cong [OF this, of "word_of_int :: int \<Rightarrow> cint"] show ?thesis by simp
  qed
  have "take_bit 7 (uint v) = uint v" using True by (intro take_bit_int_eq_self) simp_all
  then have "\<not> bit (uint v) 7" by (metis bit_take_bit_iff less_irrefl)
  then have b: "\<not> bit v 7" by (simp add: bit_uint_iff)
  then have "v AND push_bit 7 1 = 0" using and_single_bit [of v 7] by blast
  then have "v AND 128 = 0" by simp
  then have t: "drop_bit 1 (v AND 128) = 0" by (simp only: drop_bit_of_0)
  have "v AND 0xc0 \<noteq> 0x80"
  proof
    assume "v AND 0xc0 = 0x80"
    then have "bit (v AND 0xc0) 7 \<longleftrightarrow> bit (0x80 :: cint) 7" by simp
    then show False using b by (simp add: bit_and_iff)
  qed
  moreover have "\<not> v \<ge> 0xFE" using True by (simp add: word_le_def)
  ultimately have "GET_UTF8 (ucast v # rest) = get_utf8_loop v 0 rest" by (intro GET_UTF8_Cons u t)
  then have "GET_UTF8 (ucast v # rest) = Inr (v, rest)" by (simp add: get_utf8_loop.simps)
  then show ?thesis using True s by (simp add: PUT_UTF8_def)
next
  case False
  have nl: "\<not> v < 0x80" using False by (simp add: word_less_def)
  show ?thesis
  proof (cases "uint v < 2 ^ 31")
    case True
    define n where "n = (av_log2 v + 4) div 5"
    note r = log2_range [OF L _ True]
    have n: "2 \<le> n" "n \<le> 6" "av_log2 v + 1 \<le> 5 * n + 1" using r False by (auto simp: n_def)
    have "(2 :: int) ^ (av_log2 v + 1) \<le> 2 ^ (5 * n + 1)" using n(3) by (intro power_increasing) simp_all
    moreover have "uint v < 2 ^ (av_log2 v + 1)" using r(3) False by simp
    ultimately have v: "uint v < 2 ^ (5 * n + 1)" by (rule less_le_trans [rotated])
    have "PUT_UTF8 av_log2 v = Inr (ucast ((256 - drop_bit n 256) OR drop_bit (6 * (n - 1)) v) # put_utf8_loop v (6 * (n - 1)))"
      using nl n(1,2) by (simp add: PUT_UTF8_def Let_def mult.commute flip: n_def)
    then show ?thesis using True get_utf8_multi [OF n(1,2) v, of rest] n(1,2) by simp
  next
    case big: False
    have "0 < v" using False by (simp add: word_less_def)
    then have "uint v < 2 ^ (av_log2 v + 1)" using L by (simp add: log2_contract_def)
    then have "(2 :: int) ^ 31 < 2 ^ (av_log2 v + 1)" using big by simp
    then have "31 < av_log2 v + 1" by (rule power_less_imp_less_exp [rotated]) simp
    then have "7 \<le> (av_log2 v + 4) div 5" by simp
    then show ?thesis using big nl by (simp add: PUT_UTF8_def Let_def)
  qed
qed
definition demo_log2 :: "cint \<Rightarrow> nat" where
  "demo_log2 v = floorlog 2 (unat v) - 1"

lemma demo_log2_contract: "log2_contract demo_log2"
  unfolding log2_contract_def
proof (intro allI impI)
  fix v :: cint
  assume "0 < v"
  then have p: "0 < unat v" by (simp add: unat_gt_0 word_gt_0)
  have "2 ^ (floorlog 2 (unat v) - 1) \<le> unat v" "unat v < 2 ^ floorlog 2 (unat v)"
    using floorlog_bounds [of "unat v" 2] p by simp_all
  moreover have "floorlog 2 (unat v) - 1 + 1 = floorlog 2 (unat v)" using p by (simp add: floorlog_def)
  ultimately have "2 ^ demo_log2 v \<le> unat v" "unat v < 2 ^ (demo_log2 v + 1)" unfolding demo_log2_def by simp_all
  then show "2 ^ demo_log2 v \<le> uint v \<and> uint v < 2 ^ (demo_log2 v + 1)"
    by (metis of_nat_le_iff of_nat_less_iff of_nat_numeral of_nat_power uint_nat)
qed

theorem utf8_roundtrip_witness:
  "(\<exists>bs. PUT_UTF8 demo_log2 0x20AC = Inr bs \<and> GET_UTF8 (bs @ [1]) = Inr (0x20AC, [1])) \<and>
   PUT_UTF8 demo_log2 0x80000000 = Inl BadShift"
  using utf8_roundtrip [OF demo_log2_contract, of "0x20AC" "[1]"] utf8_roundtrip [OF demo_log2_contract, of "0x80000000"] by auto

lemma uint_minus: "uint (a - b) = (uint a - uint b) mod 2 ^ LENGTH('a)" for a b :: "'a::len word"
  by (simp add: uint_word_ariths)

lemma uint_unit: "uint (ucast u :: cint) = uint u" for u :: "16 word"
  using uint_bounded [of u] unfolding unsigned_ucast_eq by (simp add: take_bit_int_eq_self)

lemma uint_minus_const:
  fixes a b :: cint
  assumes "0 \<le> c" "c < 2 ^ 31" "c \<le> uint a \<or> uint a < 2 ^ 31" and b: "uint b = c"
  shows "uint (a - b) = (if c \<le> uint a then uint a - c else uint a - c + 2 ^ 32)"
proof -
  have "uint (a - b) = (uint a - c) mod 2 ^ 32" by (simp add: uint_minus b)
  moreover have "(uint a - c) mod 2 ^ 32 = uint a - c" if "c \<le> uint a"
    using that assms uint_bounded [of a] by (intro mod_pos_pos_trivial) simp_all
  moreover have "(uint a - c) mod 2 ^ 32 = uint a - c + 2 ^ 32" if "\<not> c \<le> uint a"
  proof -
    have "(uint a - c) mod 2 ^ 32 = (uint a - c + 2 ^ 32) mod 2 ^ 32" by simp
    also have "\<dots> = uint a - c + 2 ^ 32"
    proof (rule mod_pos_pos_trivial)
      have "c < 2147483648" "(2 :: int) ^ 32 = 4294967296" using assms(2) by simp_all
      then show "0 \<le> uint a - c + 2 ^ 32" using uint_ge_0 [of a] by linarith
      show "uint a - c + 2 ^ 32 < 2 ^ 32" using that by simp
    qed
    finally show ?thesis .
  qed
  ultimately show ?thesis by simp
qed
lemma GET_UTF16_Cons:
  "GET_UTF16 (u # us) =
     (if uint u < 0xD800 \<or> 0xE000 \<le> uint u then Inr (ucast u, us)
      else case us of
        [] \<Rightarrow> Inl UtfEnd
      | u' # us' \<Rightarrow>
          if uint u < 0xDC00 \<and> 0xDC00 \<le> uint u' \<and> uint u' < 0xE000
          then Inr (word_of_int (0x10000 + (uint u - 0xD800) * 1024 + (uint u' - 0xDC00)), us')
          else Inl UtfInvalid)"
proof -
  have r: "0 \<le> uint w" "uint w < 65536" for w :: "16 word" using uint_bounded [of w] by simp_all
  have hi: "uint (ucast u - 0xD800 :: cint) = (if 0xD800 \<le> uint u then uint u - 0xD800 else uint u - 0xD800 + 2 ^ 32)"
    using uint_minus_const [of "0xD800" "ucast u" "0xD800"] r [of u] by (simp add: uint_unit)
  have lo: "uint (ucast w - 0xDC00 :: cint) = (if 0xDC00 \<le> uint w then uint w - 0xDC00 else uint w - 0xDC00 + 2 ^ 32)" for w :: "16 word"
    using uint_minus_const [of "0xDC00" "ucast w" "0xDC00"] r [of w] by (simp add: uint_unit)
  have sur: "(ucast u - 0xD800 :: cint) < 0x800 \<longleftrightarrow> \<not> (uint u < 0xD800 \<or> 0xE000 \<le> uint u)"
    using hi r(2) [of u] by (auto simp: word_less_def split: if_splits) (use r(1) [of u] in linarith)
  have bad: "((ucast w - 0xDC00 :: cint) > 0x3FF \<or> (ucast u - 0xD800 :: cint) > 0x3FF) \<longleftrightarrow>
      \<not> (uint u < 0xDC00 \<and> 0xDC00 \<le> uint w \<and> uint w < 0xE000)" if "\<not> (uint u < 0xD800 \<or> 0xE000 \<le> uint u)" for w :: "16 word"
    using hi lo [of w] that r(2) [of w] by (auto simp: word_less_def split: if_splits) (use r(1) [of w] in linarith)
  have sum: "(ucast w - 0xDC00) + (push_bit 10 (ucast u - 0xD800) + 0x10000) =
      (word_of_int (0x10000 + (uint u - 0xD800) * 1024 + (uint w - 0xDC00)) :: cint)" for w :: "16 word"
    by (simp add: push_bit_eq_mult algebra_simps)
  show ?thesis
  proof (cases "uint u < 0xD800 \<or> 0xE000 \<le> uint u")
    case True
    then show ?thesis using sur by (simp add: GET_UTF16_def Let_def)
  next
    case False
    show ?thesis
      unfolding GET_UTF16_def list.case Let_def sur using False bad [OF False] sum by (simp split: list.splits)
  qed
qed
lemma PUT_UTF16_units:
  assumes "uint v < 0x110000"
  shows "map uint (PUT_UTF16 v) =
    (if uint v < 0x10000 then [uint v]
     else [0xD800 + (uint v - 0x10000) div 1024, 0xDC00 + (uint v - 0x10000) mod 1024])"
proof (cases "uint v < 0x10000")
  case True
  have "uint (ucast v :: 16 word) = uint v" using True unfolding unsigned_ucast_eq by (simp add: take_bit_int_eq_self)
  then show ?thesis using True by (simp add: PUT_UTF16_def word_less_def)
next
  case False
  let ?x = "uint v - 0x10000"
  have x: "0 \<le> ?x" "?x < 2 ^ 20" using False assms by simp_all
  have d: "uint (v - 0x10000) = ?x" using uint_minus_const [of "0x10000" v "0x10000"] False by simp
  have h: "uint (drop_bit 10 (v - 0x10000)) = ?x div 1024"
    using x d unfolding unsigned_drop_bit_eq by (simp add: drop_bit_eq_div take_bit_int_eq_self)
  have l: "uint ((v - 0x10000) AND 0x3FF) = ?x mod 1024"
  proof -
    have "uint ((v - 0x10000) AND 0x3FF) = take_bit 10 (uint (v - 0x10000))"
      by (simp add: unsigned_and_eq take_bit_eq_mask mask_eq_exp_minus_1)
    then show ?thesis using d by (simp add: take_bit_eq_mod)
  qed
  have b: "0 \<le> ?x div 1024" "?x div 1024 < 2 ^ 10" "0 \<le> ?x mod 1024" "?x mod 1024 < 2 ^ 10"
    using x div_below [of ?x 1024 1024] by (simp_all add: pos_imp_zdiv_nonneg_iff)
  have "uint (0xD800 OR drop_bit 10 (v - 0x10000)) = 0xD800 + ?x div 1024"
    using high_and_low [OF b(1,2), of 54] h by (subst uint_or_low) (simp_all add: push_bit_eq_mult)
  moreover have "uint (0xDC00 OR ((v - 0x10000) AND 0x3FF)) = 0xDC00 + ?x mod 1024"
    using high_and_low [OF b(3,4), of 55] l by (subst uint_or_low) (simp_all add: push_bit_eq_mult)
  ultimately have "uint (ucast (0xD800 OR drop_bit 10 (v - 0x10000)) :: 16 word) = 0xD800 + ?x div 1024"
      "uint (ucast (0xDC00 OR ((v - 0x10000) AND 0x3FF)) :: 16 word) = 0xDC00 + ?x mod 1024"
    unfolding unsigned_ucast_eq using b by (simp_all add: take_bit_int_eq_self)
  then show ?thesis using False by (simp add: PUT_UTF16_def word_less_def)
qed

lemma uint_list_inject: "map uint xs = map uint ys \<Longrightarrow> xs = ys" for xs ys :: "'a::len word list"
  by (rule map_injective) (auto intro: injI)

lemma PUT_UTF16_single:
  assumes "uint u < 0xD800 \<or> 0xE000 \<le> uint u"
  shows "PUT_UTF16 (ucast u) = [u]"
proof (rule uint_list_inject)
  have "uint u < 65536" using uint_bounded [of u] by simp
  then show "map uint (PUT_UTF16 (ucast u)) = map uint [u]" by (subst PUT_UTF16_units) (simp_all add: uint_unit)
qed

lemma PUT_UTF16_pair:
  assumes "0xD800 \<le> uint u" "uint u < 0xDC00" "0xDC00 \<le> uint u'" "uint u' < 0xE000"
  defines "w \<equiv> word_of_int (0x10000 + (uint u - 0xD800) * 1024 + (uint u' - 0xDC00))"
  shows "PUT_UTF16 w = [u, u']" "0x10000 \<le> uint w" "uint w < 0x110000"
proof -
  have w: "uint w = 0x10000 + (uint u - 0xD800) * 1024 + (uint u' - 0xDC00)"
    unfolding w_def uint_word_of_int using assms(1-4) by (intro mod_pos_pos_trivial) simp_all
  show r: "0x10000 \<le> uint w" "uint w < 0x110000" using w assms(1-4) by simp_all
  have "(uint w - 0x10000) div 1024 = uint u - 0xD800" "(uint w - 0x10000) mod 1024 = uint u' - 0xDC00"
  proof -
    define a b where "a = uint u - 0xD800" and "b = uint u' - 0xDC00"
    have e: "uint w - 0x10000 = b + a * 1024" and b: "0 \<le> b" "b < 1024" using w assms(1-4) by (simp_all add: a_def b_def)
    show "(uint w - 0x10000) div 1024 = uint u - 0xD800" "(uint w - 0x10000) mod 1024 = uint u' - 0xDC00"
      unfolding e using b by (simp_all flip: a_def b_def)
  qed
  then show "PUT_UTF16 w = [u, u']" using r by (intro uint_list_inject, subst PUT_UTF16_units) simp_all
qed

text \<open>UTF-16: for a code point that is not a surrogate, \<open>GET_UTF16\<close> reads back what \<open>PUT_UTF16\<close> wrote. Conversely the decoder
  accepts nothing else: whatever it decodes is a code point outside the surrogates, and what it
  consumed is that code point's one encoding.\<close>

theorem utf16_roundtrip:
  "(uint v < 0x110000 \<and> \<not> (0xD800 \<le> uint v \<and> uint v < 0xE000) \<longrightarrow> GET_UTF16 (PUT_UTF16 v @ rest) = Inr (v, rest)) \<and>
   (GET_UTF16 us = Inr (w, rest') \<longrightarrow>
      us = PUT_UTF16 w @ rest' \<and> uint w < 0x110000 \<and> \<not> (0xD800 \<le> uint w \<and> uint w < 0xE000))"
proof (intro conjI [of "_ \<longrightarrow> _" "_ \<longrightarrow> _"] impI)
  assume a: "uint v < 0x110000 \<and> \<not> (0xD800 \<le> uint v \<and> uint v < 0xE000)"
  note p = PUT_UTF16_units [OF conjunct1 [OF a]]
  show "GET_UTF16 (PUT_UTF16 v @ rest) = Inr (v, rest)"
  proof (cases "uint v < 0x10000")
    case True
    then obtain u where u: "PUT_UTF16 v = [u]" "uint u = uint v" using p by (auto simp: map_eq_Cons_conv)
    have "ucast u = v" using arg_cong [OF u(2), of "word_of_int :: int \<Rightarrow> cint"] by simp
    then show ?thesis using u a by (auto simp: GET_UTF16_Cons)
  next
    case False
    let ?x = "uint v - 0x10000"
    obtain u u' where u: "PUT_UTF16 v = [u, u']" "uint u = 0xD800 + ?x div 1024" "uint u' = 0xDC00 + ?x mod 1024"
      using p False by (auto simp: map_eq_Cons_conv)
    have b: "0 \<le> ?x div 1024" "?x div 1024 < 1024" using False a div_below [of ?x 1024 1024] by (simp_all add: pos_imp_zdiv_nonneg_iff)
    have "0x10000 + ?x div 1024 * 1024 + ?x mod 1024 = uint v" by simp
    then have "word_of_int (0x10000 + (uint u - 0xD800) * 1024 + (uint u' - 0xDC00)) = v" by (simp add: u(2,3))
    moreover have "\<not> (uint u < 0xD800 \<or> 0xE000 \<le> uint u)" "uint u < 0xDC00 \<and> 0xDC00 \<le> uint u' \<and> uint u' < 0xE000"
      using b by (simp_all add: u(2,3))
    ultimately show ?thesis by (simp add: u(1) GET_UTF16_Cons)
  qed
next
  assume g: "GET_UTF16 us = Inr (w, rest')"
  then obtain u us' where us: "us = u # us'" by (cases us) (auto simp: GET_UTF16_def)
  show "us = PUT_UTF16 w @ rest' \<and> uint w < 0x110000 \<and> \<not> (0xD800 \<le> uint w \<and> uint w < 0xE000)"
  proof (cases "uint u < 0xD800 \<or> 0xE000 \<le> uint u")
    case True
    then have "w = ucast u" "rest' = us'" using g us by (simp_all add: GET_UTF16_Cons)
    then show ?thesis using PUT_UTF16_single [OF True] True us uint_bounded [of u] by (auto simp: uint_unit)
  next
    case False
    then obtain u' where u': "us' = u' # rest'" "uint u < 0xDC00" "0xDC00 \<le> uint u'" "uint u' < 0xE000"
        "w = word_of_int (0x10000 + (uint u - 0xD800) * 1024 + (uint u' - 0xDC00))"
      using g us by (auto simp: GET_UTF16_Cons split: list.splits if_splits)
    then show ?thesis using PUT_UTF16_pair [of u u'] False us by auto
  qed
qed

theorem utf16_roundtrip_witness:
  "GET_UTF16 (PUT_UTF16 0x1F600 @ [7]) = Inr (0x1F600, [7]) \<and> GET_UTF16 [0xD83D, 0xDE00, 7] = Inr (0x1F600, [7]) \<and>
   [0xD83D, 0xDE00, 7] = PUT_UTF16 0x1F600 @ [7]"
proof -
  have g: "GET_UTF16 [0xD83D, 0xDE00, 7] = Inr (0x1F600, [7])" by (simp add: GET_UTF16_Cons)
  then show ?thesis
    using utf16_roundtrip [of "0x1F600" "[7]" "[0xD83D, 0xDE00, 7]" "0x1F600" "[7]"] by simp
qed

end
