(* ===== verification/Cpp_Types.thy ===== *)
theory Cpp_Types
  imports Mixer_Prelude
begin

text \<open>
  The arithmetic types of C++ as the header code uses them: the eight fixed-width integer types and
  the two IEEE-754 formats, their \<open>std::numeric_limits\<close>, the value of a conversion, the usual
  arithmetic conversions and the six comparison operators. A floating-point value is a rational,
  an infinity or a NaN; a conversion into a format rounds to the nearest representable value,
  ties to even. Converting a floating-point value that does not fit into an integer type is
  undefined behaviour, the fault \<^const>\<open>BadConversion\<close>.
\<close>

section \<open>Types and limits\<close>

datatype ctype =
  int8_t | int16_t | int32_t | int64_t | uint8_t | uint16_t | uint32_t | uint64_t | float_t | double_t

datatype num_val = IntV int | FloatV cfloat

fun sizeof :: "ctype \<Rightarrow> nat" where
  "sizeof int8_t = 1" | "sizeof int16_t = 2" | "sizeof int32_t = 4" | "sizeof int64_t = 8"
| "sizeof uint8_t = 1" | "sizeof uint16_t = 2" | "sizeof uint32_t = 4" | "sizeof uint64_t = 8"
| "sizeof float_t = 4" | "sizeof double_t = 8"

fun is_iec559 :: "ctype \<Rightarrow> bool" where
  "is_iec559 float_t = True" | "is_iec559 double_t = True" | "is_iec559 _ = False"

fun is_signed :: "ctype \<Rightarrow> bool" where
  "is_signed uint8_t = False" | "is_signed uint16_t = False" | "is_signed uint32_t = False"
| "is_signed uint64_t = False" | "is_signed _ = True"

definition imax :: "ctype \<Rightarrow> int" where
  "imax T = (if is_signed T then 2 ^ (8 * sizeof T - 1) - 1 else 2 ^ (8 * sizeof T) - 1)"

definition imin :: "ctype \<Rightarrow> int" where
  "imin T = (if is_signed T then - (2 ^ (8 * sizeof T - 1)) else 0)"

definition in_type :: "ctype \<Rightarrow> int \<Rightarrow> bool" where
  "in_type T x \<longleftrightarrow> imin T \<le> x \<and> x \<le> imax T"

fun mantissa_bits :: "ctype \<Rightarrow> nat" where
  "mantissa_bits float_t = 24" | "mantissa_bits double_t = 53" | "mantissa_bits _ = 0"

fun max_exponent :: "ctype \<Rightarrow> nat" where
  "max_exponent float_t = 128" | "max_exponent double_t = 1024" | "max_exponent _ = 0"

definition fmax :: "ctype \<Rightarrow> rat" where
  "fmax T = (2 ^ mantissa_bits T - 1) * 2 ^ (max_exponent T - mantissa_bits T)"

section \<open>Conversions\<close>

definition wrap :: "ctype \<Rightarrow> int \<Rightarrow> int" where
  "wrap T x = (x - imin T) mod 2 ^ (8 * sizeof T) + imin T"

fun bit_length :: "nat \<Rightarrow> nat" where
  "bit_length n = (if n = 0 then 0 else Suc (bit_length (n div 2)))"

declare bit_length.simps [simp del]

definition pow2 :: "int \<Rightarrow> rat" where
  "pow2 e = (if 0 \<le> e then 2 ^ nat e else 1 / 2 ^ nat (- e))"

definition binade :: "rat \<Rightarrow> int" where
  \<comment> \<open>the exponent \<open>e\<close> with \<open>2^e \<le> x < 2^(e+1)\<close>, for a positive \<open>x\<close>\<close>
  "binade x =
     (let (n, d) = quotient_of x; e = int (bit_length (nat n)) - int (bit_length (nat d))
      in if pow2 e \<le> x then e else e - 1)"

definition round_even :: "rat \<Rightarrow> int" where
  "round_even x =
     (let f = \<lfloor>x\<rfloor>; r = x - of_int f
      in if r < 1 / 2 then f else if 1 / 2 < r then f + 1 else if even f then f else f + 1)"

definition round_to :: "ctype \<Rightarrow> rat \<Rightarrow> cfloat" where
  "round_to T x =
     (if x = 0 then Finite 0
      else
        let least = 2 - int (max_exponent T);
            ulp = pow2 (max (binade \<bar>x\<bar>) least - int (mantissa_bits T) + 1);
            y = of_int (round_even (x / ulp)) * ulp
        in if pow2 (int (max_exponent T)) \<le> \<bar>y\<bar> then Infinite (x < 0) else Finite y)"

definition rat_trunc :: "rat \<Rightarrow> int" where
  "rat_trunc r = (if 0 \<le> r then \<lfloor>r\<rfloor> else \<lceil>r\<rceil>)"

fun static_cast :: "ctype \<Rightarrow> num_val \<Rightarrow> num_val result" where
  "static_cast T (IntV x) = Inr (if is_iec559 T then FloatV (round_to T (of_int x)) else IntV (wrap T x))"
| "static_cast T (FloatV (Finite r)) =
     (if is_iec559 T then Inr (FloatV (round_to T r))
      else if in_type T (rat_trunc r) then Inr (IntV (rat_trunc r)) else Inl BadConversion)"
| "static_cast T (FloatV f) = (if is_iec559 T then Inr (FloatV f) else Inl BadConversion)"

definition promote :: "ctype \<Rightarrow> ctype" where
  "promote T = (if is_iec559 T \<or> 4 \<le> sizeof T then T else int32_t)"

definition common_type :: "ctype \<Rightarrow> ctype \<Rightarrow> ctype" where
  \<comment> \<open>the usual arithmetic conversions\<close>
  "common_type T1 T2 =
     (if T1 = double_t \<or> T2 = double_t then double_t
      else if T1 = float_t \<or> T2 = float_t then float_t
      else
        let A = promote T1; B = promote T2
        in if is_signed A = is_signed B then (if sizeof A < sizeof B then B else A)
           else if is_signed A then (if sizeof B < sizeof A then A else B)
           else (if sizeof A < sizeof B then B else A))"

section \<open>Arithmetic\<close>

text \<open>The sign of a zero is not represented; nothing the modelled code computes depends on it.\<close>

fun cf_conv :: "ctype \<Rightarrow> cfloat \<Rightarrow> cfloat" where
  "cf_conv T (Finite r) = round_to T r"
| "cf_conv T f = f"

fun cf_mul :: "ctype \<Rightarrow> cfloat \<Rightarrow> cfloat \<Rightarrow> cfloat" where
  "cf_mul T (Finite a) (Finite b) = round_to T (a * b)"
| "cf_mul T (Finite a) (Infinite n) = (if a = 0 then NaN else Infinite (n \<noteq> (a < 0)))"
| "cf_mul T (Infinite n) (Finite b) = (if b = 0 then NaN else Infinite (n \<noteq> (b < 0)))"
| "cf_mul T (Infinite n) (Infinite m) = Infinite (n \<noteq> m)"
| "cf_mul T _ _ = NaN"

fun cf_div :: "ctype \<Rightarrow> cfloat \<Rightarrow> cfloat \<Rightarrow> cfloat" where
  "cf_div T (Finite a) (Finite b) =
     (if b = 0 then (if a = 0 then NaN else Infinite (a < 0)) else round_to T (a / b))"
| "cf_div T (Finite a) (Infinite n) = Finite 0"
| "cf_div T (Infinite n) (Finite b) = Infinite (n \<noteq> (b < 0))"
| "cf_div T _ _ = NaN"

fun cf_round :: "cfloat \<Rightarrow> cfloat" where
  \<comment> \<open>\<open>std::round\<close>: to the nearest integer, halves away from zero\<close>
  "cf_round (Finite r) = Finite (of_int (if 0 \<le> r then \<lfloor>r + 1 / 2\<rfloor> else \<lceil>r - 1 / 2\<rceil>))"
| "cf_round f = f"

definition c_int64 :: "int \<Rightarrow> int result" where
  "c_int64 x = (if in_type int64_t x then Inr x else Inl SignedOverflow)"

definition c_div64 :: "int \<Rightarrow> int \<Rightarrow> int result" where
  "c_div64 a b = (if b = 0 then Inl DivideByZero else c_int64 (a sdiv b))"

section \<open>Comparisons\<close>

datatype cmp = EqOp | NeOp | LtOp | LeOp | GtOp | GeOp

fun int_cmp :: "cmp \<Rightarrow> int \<Rightarrow> int \<Rightarrow> bool" where
  "int_cmp EqOp a b = (a = b)" | "int_cmp NeOp a b = (a \<noteq> b)" | "int_cmp LtOp a b = (a < b)"
| "int_cmp LeOp a b = (a \<le> b)" | "int_cmp GtOp a b = (a > b)" | "int_cmp GeOp a b = (a \<ge> b)"

fun cf_eq :: "cfloat \<Rightarrow> cfloat \<Rightarrow> bool" where
  "cf_eq NaN _ = False"
| "cf_eq a b = (a = b)"

fun float_cmp :: "cmp \<Rightarrow> cfloat \<Rightarrow> cfloat \<Rightarrow> bool" where
  "float_cmp EqOp a b = cf_eq a b"
| "float_cmp NeOp a b = (\<not> cf_eq a b)"
| "float_cmp LtOp a b = cf_less a b"
| "float_cmp LeOp a b = (cf_less a b \<or> cf_eq a b)"
| "float_cmp GtOp a b = cf_less b a"
| "float_cmp GeOp a b = (cf_less b a \<or> cf_eq a b)"

fun num_cmp :: "cmp \<Rightarrow> num_val \<Rightarrow> num_val \<Rightarrow> bool" where
  "num_cmp p (IntV a) (IntV b) = int_cmp p a b"
| "num_cmp p (FloatV a) (FloatV b) = float_cmp p a b"
| "num_cmp p _ _ = False"

definition cpp_cmp :: "cmp \<Rightarrow> ctype \<Rightarrow> ctype \<Rightarrow> num_val \<Rightarrow> num_val \<Rightarrow> bool" where
  \<comment> \<open>\<open>a op b\<close>: both operands are converted to the common type first\<close>
  "cpp_cmp p T1 T2 a b =
     (case (static_cast (common_type T1 T2) a, static_cast (common_type T1 T2) b) of
        (Inr x, Inr y) \<Rightarrow> num_cmp p x y
      | _ \<Rightarrow> False)"

section \<open>Lemmas\<close>

lemmas limit_defs = imax_def imin_def in_type_def

lemma imin_le_imax: "imin T \<le> imax T"
  by (cases T) (simp_all add: limit_defs)

lemma range_size: "imax T = imin T + 2 ^ (8 * sizeof T) - 1"
  by (cases T) (simp_all add: limit_defs)

lemma wrap_id: "in_type T x \<Longrightarrow> wrap T x = x"
  by (simp add: wrap_def in_type_def range_size)

lemma wrap_in_type: "in_type T (wrap T x)"
  by (simp add: wrap_def in_type_def range_size)

lemma static_cast_int [simp]: "\<not> is_iec559 T \<Longrightarrow> in_type T x \<Longrightarrow> static_cast T (IntV x) = Inr (IntV x)"
  by (simp add: wrap_id)

lemma common_type_int: "\<not> is_iec559 T1 \<Longrightarrow> \<not> is_iec559 T2 \<Longrightarrow> \<not> is_iec559 (common_type T1 T2)"
  by (cases T1; cases T2) (simp_all add: common_type_def promote_def)

lemma cpp_cmp_exact:
  assumes "\<not> is_iec559 T1" "\<not> is_iec559 T2" "in_type (common_type T1 T2) a" "in_type (common_type T1 T2) b"
  shows "cpp_cmp p T1 T2 (IntV a) (IntV b) = int_cmp p a b"
  using assms common_type_int [of T1 T2] by (simp add: cpp_cmp_def wrap_id)

lemma promote_int: "\<not> is_iec559 T \<Longrightarrow> \<not> is_iec559 (promote T)"
  by (simp add: promote_def)

lemma promote_range: "in_type T x \<Longrightarrow> \<not> is_iec559 T \<Longrightarrow> in_type (promote T) x"
  by (cases T) (auto simp: promote_def limit_defs)

subsection \<open>Rounding\<close>

lemma bit_length_bounds: "0 < n \<Longrightarrow> n < 2 ^ bit_length n \<and> 2 ^ bit_length n \<le> 2 * n"
proof (induction n rule: bit_length.induct)
  case (1 n)
  show ?case
  proof (cases "n div 2 = 0")
    case True
    then have "n = 1" using 1(2) by linarith
    then show ?thesis by (simp add: bit_length.simps [of "Suc 0"] bit_length.simps [of 0])
  next
    case False
    then have "n div 2 < 2 ^ bit_length (n div 2)" "2 ^ bit_length (n div 2) \<le> 2 * (n div 2)"
      using 1 by auto
    then show ?thesis using 1(2) by (subst (1 2) bit_length.simps) auto
  qed
qed

lemma bit_length_int: "0 < n \<Longrightarrow> n < 2 ^ bit_length (nat n) \<and> 2 ^ bit_length (nat n) \<le> 2 * n" for n :: int
proof -
  assume n: "0 < n"
  have "int (nat n) < int (2 ^ bit_length (nat n))" "int (2 ^ bit_length (nat n)) \<le> int (2 * nat n)"
    using bit_length_bounds [of "nat n"] n unfolding of_nat_less_iff of_nat_le_iff by simp_all
  then show ?thesis using n by simp
qed

lemma bit_length_rat:
  assumes "0 < n"
  shows "(of_int n :: rat) < 2 ^ bit_length (nat n) \<and> 2 ^ bit_length (nat n) \<le> 2 * (of_int n :: rat)"
proof -
  have "(of_int n :: rat) < of_int (2 ^ bit_length (nat n))" "(of_int (2 ^ bit_length (nat n)) :: rat) \<le> of_int (2 * n)"
    using bit_length_int [OF assms] unfolding of_int_less_iff of_int_le_iff by simp_all
  then show ?thesis by simp
qed

lemma pow2_powi: "pow2 e = 2 powi e"
  by (simp add: pow2_def power_int_def inverse_eq_divide power_divide)

lemma pow2_pos: "0 < pow2 e"
  by (simp add: pow2_def)

lemma pow2_add: "pow2 (a + b) = pow2 a * pow2 b"
  by (simp add: pow2_powi power_int_add)

lemma pow2_nat: "pow2 (int n) = 2 ^ n"
  by (simp add: pow2_def)

lemma pow2_mono: "a \<le> b \<Longrightarrow> pow2 a \<le> pow2 b"
  by (simp add: pow2_powi power_int_increasing)

lemma pow2_less: "pow2 a < pow2 b \<longleftrightarrow> a < b"
  using pow2_mono [of b a] pow2_mono [of "a + 1" b] pow2_pos [of a] pow2_add [of a 1] by (auto simp: not_less pow2_def [of 1])
    (smt (verit) pow2_mono)

lemma binade_bounds:
  assumes "0 < x"
  shows "pow2 (binade x) \<le> x \<and> x < pow2 (binade x + 1)"
proof -
  obtain n d where nd: "quotient_of x = (n, d)" by fastforce
  have d: "0 < d" using quotient_of_denom_pos [OF nd] .
  have x: "x = of_int n / of_int d" using quotient_of_div [OF nd] .
  have n: "0 < n" using assms x d by (simp add: zero_less_divide_iff)
  define a b where "a = bit_length (nat n)" and "b = bit_length (nat d)"
  have na: "(of_int n :: rat) < 2 ^ a" "2 ^ a \<le> 2 * (of_int n :: rat)"
    and db: "(of_int d :: rat) < 2 ^ b" "2 ^ b \<le> 2 * (of_int d :: rat)"
    using bit_length_rat [OF n] bit_length_rat [OF d] by (simp_all add: a_def b_def)
  have p: "pow2 (int a - int b) * 2 ^ b = 2 ^ a"
    using pow2_add [of "int a - int b" "int b"] by (simp add: pow2_nat)
  have dpos: "(0 :: rat) < of_int d" using d by simp
  have low: "pow2 (int a - int b) < 2 * x"
  proof -
    have "pow2 (int a - int b) * of_int d < pow2 (int a - int b) * 2 ^ b" using db(1) pow2_pos by simp
    also have "\<dots> \<le> 2 * of_int n" using p na(2) by simp
    finally show ?thesis using dpos by (simp add: x pos_less_divide_eq)
  qed
  have high: "x < 2 * pow2 (int a - int b)"
  proof -
    have "of_int n < pow2 (int a - int b) * 2 ^ b" using p na(1) by simp
    also have "\<dots> \<le> pow2 (int a - int b) * (2 * of_int d)" using db(2) pow2_pos [of "int a - int b"] by simp
    finally show ?thesis using dpos by (simp add: x pos_divide_less_eq ac_simps)
  qed
  have e: "binade x = (if pow2 (int a - int b) \<le> x then int a - int b else int a - int b - 1)"
    by (simp add: binade_def nd a_def b_def)
  have half: "2 * pow2 (int a - int b - 1) = pow2 (int a - int b)" using pow2_add [of "int a - int b - 1" 1] by (simp add: pow2_def [of 1])
  show ?thesis
    using low high half pow2_add [of "int a - int b" 1] by (simp add: e pow2_def [of 1])
qed

lemma binade_unique: "0 < x \<Longrightarrow> pow2 e \<le> x \<Longrightarrow> x < pow2 (e + 1) \<Longrightarrow> binade x = e"
  using binade_bounds [of x] pow2_less [of "binade x" "e + 1"] pow2_less [of e "binade x + 1"] by force

lemma round_even_near: "of_int k - 1 / 2 < x \<Longrightarrow> x < of_int k + 1 / 2 \<Longrightarrow> round_even x = k"
proof (cases "of_int k \<le> x")
  case True
  assume "x < of_int k + 1 / 2"
  then have "\<lfloor>x\<rfloor> = k" using True by (intro floor_unique) simp_all
  then show ?thesis using \<open>x < of_int k + 1 / 2\<close> by (simp add: round_even_def Let_def)
next
  case False
  assume "of_int k - 1 / 2 < x"
  then have "\<lfloor>x\<rfloor> = k - 1" using False by (intro floor_unique) simp_all
  then show ?thesis using \<open>of_int k - 1 / 2 < x\<close> by (simp add: round_even_def Let_def)
qed

lemma round_to_binade:
  assumes "x \<noteq> 0" "pow2 e \<le> \<bar>x\<bar>" "\<bar>x\<bar> < pow2 (e + 1)" "2 - int (max_exponent T) \<le> e"
    "of_int k * pow2 (e - int (mantissa_bits T) + 1) = y"
    "of_int k - 1 / 2 < x / pow2 (e - int (mantissa_bits T) + 1)" "x / pow2 (e - int (mantissa_bits T) + 1) < of_int k + 1 / 2"
    "\<bar>y\<bar> < pow2 (int (max_exponent T))"
  shows "round_to T x = Finite y"
proof -
  have "binade \<bar>x\<bar> = e" using assms by (intro binade_unique) auto
  then show ?thesis using assms round_even_near [OF assms(6,7)] by (simp add: round_to_def Let_def)
qed

subsection \<open>Binary32\<close>

lemma round_to_zero [simp]: "round_to T 0 = Finite 0"
  by (simp add: round_to_def)

lemma round_even_upper: "x \<le> of_int N \<Longrightarrow> round_even x \<le> N"
proof -
  assume x: "x \<le> of_int N"
  show ?thesis
  proof (cases "x = of_int N")
    case False
    then have "\<lfloor>x\<rfloor> < N" using x by (simp add: floor_less_iff)
    then show ?thesis by (simp add: round_even_def Let_def)
  qed (simp add: round_even_def)
qed

lemma round_even_nonneg: "0 \<le> x \<Longrightarrow> 0 \<le> round_even x"
  by (simp add: round_even_def Let_def)

lemma round_even_int [simp]: "round_even (of_int k) = k"
  by (simp add: round_even_def)

definition float_ulp :: "rat \<Rightarrow> int" where
  "float_ulp x = max (binade x) (- 126) - 23"

lemma round_to_float:
  assumes "0 < x"
  shows "round_to float_t x =
    (let y = of_int (round_even (x / pow2 (float_ulp x))) * pow2 (float_ulp x)
     in if pow2 128 \<le> \<bar>y\<bar> then Infinite False else Finite y)"
proof -
  have "max (binade x) (2 - 128) - 24 + 1 = float_ulp x" by (simp add: float_ulp_def)
  then show ?thesis using assms by (simp add: round_to_def Let_def)
qed

lemma binade_less: "0 < x \<Longrightarrow> x < pow2 e \<Longrightarrow> binade x < e"
  using binade_bounds [of x] pow2_less [of "binade x" e] by linarith

text \<open>A number of at most 24 bits scaled by a power of two is a binary32 number, and rounding never passes one.\<close>

lemma div_pow2_int: "of_int k * pow2 d / pow2 e = of_int (k * 2 ^ nat (d - e))" if "e \<le> d"
proof -
  have "pow2 d = pow2 e * pow2 (d - e)" using pow2_add [of e "d - e"] by simp
  then show ?thesis using pow2_pos [of e] that by (simp add: pow2_def [of "d - e"])
qed

lemma float_exact_int:
  assumes "\<bar>k\<bar> < 2 ^ 24" "- 100 \<le> d" "d \<le> 0"
  shows "round_to float_t (of_int k * pow2 d) = Finite (of_int k * pow2 d)"
proof (cases "k = 0")
  case True
  then show ?thesis by (simp add: round_to_def)
next
  case False
  let ?x = "of_int k * pow2 d :: rat"
  have x: "0 < \<bar>?x\<bar>" "?x \<noteq> 0" using False pow2_pos [of d] by simp_all
  have "(of_int \<bar>k\<bar> :: rat) < of_int (2 ^ 24)" using assms(1) unfolding of_int_less_iff .
  then have "\<bar>?x\<bar> < 2 ^ 24 * pow2 d" using pow2_pos [of d] by (simp add: abs_mult)
  then have lt: "\<bar>?x\<bar> < pow2 (24 + d)" by (simp add: pow2_add pow2_def [of 24])
  then have e: "float_ulp \<bar>?x\<bar> \<le> d" using binade_less [OF x(1) lt] assms(2) by (simp add: float_ulp_def)
  have "pow2 (24 + d) \<le> pow2 128" using assms(3) by (intro pow2_mono) simp
  then have small: "\<bar>?x\<bar> < pow2 128" using lt by linarith
  have r: "of_int (round_even (?x / pow2 (float_ulp \<bar>?x\<bar>))) * pow2 (float_ulp \<bar>?x\<bar>) = ?x"
    unfolding div_pow2_int [OF e] round_even_int unfolding div_pow2_int [OF e, symmetric] using pow2_pos [of "float_ulp \<bar>?x\<bar>"] by simp
  have u: "max (binade \<bar>?x\<bar>) (2 - int (max_exponent float_t)) - int (mantissa_bits float_t) + 1 = float_ulp \<bar>?x\<bar>" by (simp add: float_ulp_def)
  show ?thesis unfolding round_to_def Let_def u r using x(2) small by simp
qed

lemma float_exact: "m < 2 ^ 24 \<Longrightarrow> - 100 \<le> d \<Longrightarrow> d \<le> 0 \<Longrightarrow> round_to float_t (of_nat m * pow2 d) = Finite (of_nat m * pow2 d)"
  using float_exact_int [of "int m" d] by simp

lemma float_bounded:
  assumes "0 < x" "x \<le> of_nat m" "m < 2 ^ 24"
  shows "\<exists>y. round_to float_t x = Finite y \<and> 0 \<le> y \<and> y \<le> of_nat m"
proof -
  let ?e = "float_ulp x"
  let ?y = "of_int (round_even (x / pow2 ?e)) * pow2 ?e"
  have m: "(of_nat m :: rat) < of_nat (2 ^ 24)" using assms(3) unfolding of_nat_less_iff .
  then have "x < pow2 24" using assms(2) by (simp add: pow2_def)
  then have e: "?e \<le> 0" using binade_less [OF assms(1), of 24] by (simp add: float_ulp_def)
  have "x / pow2 ?e \<le> of_nat m * pow2 0 / pow2 ?e" using assms(2) pow2_pos [of ?e] by (simp add: pow2_def [of 0] divide_right_mono)
  also have "\<dots> = of_int (int m * 2 ^ nat (0 - ?e))" by (use div_pow2_int [OF e, of "int m"] in simp)
  finally have "round_even (x / pow2 ?e) \<le> int m * 2 ^ nat (0 - ?e)" by (rule round_even_upper)
  then have "(of_int (round_even (x / pow2 ?e)) :: rat) \<le> of_int (int m * 2 ^ nat (0 - ?e))" unfolding of_int_le_iff .
  then have "of_int (round_even (x / pow2 ?e)) \<le> of_nat m * pow2 0 / pow2 ?e" using div_pow2_int [OF e, of "int m"] by simp
  then have up: "?y \<le> of_nat m" using pow2_pos [of ?e] by (simp add: pow2_def [of 0] pos_le_divide_eq)
  have "0 \<le> round_even (x / pow2 ?e)" using assms(1) pow2_pos [of ?e] by (intro round_even_nonneg) simp
  then have lo: "0 \<le> ?y" using pow2_pos [of ?e] by simp
  have "?y < pow2 128" using up m by (simp add: pow2_def)
  then show ?thesis using up lo by (subst round_to_float [OF assms(1)]) (simp add: Let_def)
qed

text \<open>The relative error of rounding a number in the normal range.\<close>

lemma round_even_error: "\<bar>of_int (round_even x) - x\<bar> \<le> 1 / 2"
  using floor_correct [of x] by (auto simp: round_even_def Let_def abs_le_iff)

lemma float_error:
  assumes "pow2 (- 126) \<le> x" "x \<le> pow2 100"
  shows "\<exists>y. round_to float_t x = Finite y \<and> \<bar>y - x\<bar> \<le> x * pow2 (- 24)"
proof -
  have x: "0 < x" using assms(1) pow2_pos [of "- 126"] by linarith
  have b: "pow2 (binade x) \<le> x" "x < pow2 (binade x + 1)" using binade_bounds [OF x] by auto
  then have "- 126 \<le> binade x" using pow2_less [of "- 126" "binade x + 1"] assms(1) by linarith
  then have u: "float_ulp x = binade x - 23" by (simp add: float_ulp_def)
  let ?u = "pow2 (binade x - 23)"
  let ?y = "of_int (round_even (x / ?u)) * ?u"
  have "?y - x = (of_int (round_even (x / ?u)) - x / ?u) * ?u" using pow2_pos [of "binade x - 23"] by (simp add: left_diff_distrib)
  then have "\<bar>?y - x\<bar> = \<bar>of_int (round_even (x / ?u)) - x / ?u\<bar> * ?u" using pow2_pos [of "binade x - 23"] by (simp add: abs_mult)
  also have "\<dots> \<le> 1 / 2 * ?u" using round_even_error pow2_pos [of "binade x - 23"] by (intro mult_right_mono) auto
  also have "\<dots> = pow2 (binade x) * pow2 (- 24)" using pow2_add [of "binade x - 24" 1] pow2_add [of "binade x" "- 24"] by (simp add: pow2_def [of 1])
  also have "\<dots> \<le> x * pow2 (- 24)" using b(1) pow2_pos [of "- 24"] by (intro mult_right_mono) auto
  finally have e: "\<bar>?y - x\<bar> \<le> x * pow2 (- 24)" .
  have "x * pow2 (- 24) \<le> x" using x by (simp add: pow2_def)
  then have "\<bar>?y\<bar> \<le> 2 * x" using e x by linarith
  moreover have "2 * pow2 100 < pow2 128" by (simp add: pow2_def)
  ultimately have "\<bar>?y\<bar> < pow2 128" using assms(2) by linarith
  then show ?thesis using e by (subst round_to_float [OF x]) (simp add: u Let_def)
qed

end
