(* ===== verification/Rtc_Numerics.thy ===== *)
theory Rtc_Numerics
  imports Cpp_Types
begin

text \<open>
  The numeric helpers of WebRTC: the sign-safe comparisons of \<open>rtc_base/numerics/safe_compare.h\<close>,
  the range checks and checked casts of \<open>safe_conversions_impl.h\<close> and \<open>safe_conversions.h\<close>, and
  the minimum, maximum and clamp of \<open>safe_minmax.h\<close>. A template parameter is a \<^typ>\<open>ctype\<close>
  argument, so the choices that the templates make at compile time are computed by the
  definitions; the \<open>static_assert\<close>s are the theorems. The lemmas show that the comparisons are the
  mathematical ones for all integer types, that the range check of an integer conversion is exact,
  and that minimum, maximum and clamp neither truncate nor wrap.
\<close>

section \<open>Comparisons\<close>

fun LargerIntImpl :: "nat \<Rightarrow> ctype option" where
  "LargerIntImpl n =
     (if n = sizeof int8_t then Some int16_t
      else if n = sizeof int16_t then Some int32_t
      else if n = sizeof int32_t then Some int64_t
      else None)"

definition LargerInt :: "nat \<Rightarrow> ctype \<Rightarrow> ctype \<Rightarrow> ctype option" where
  \<comment> \<open>the first argument is \<open>sizeof(int*)\<close> of the target\<close>
  "LargerInt ptr_bytes T1 T2 =
     LargerIntImpl (if sizeof T1 < sizeof T2 \<or> sizeof T1 < ptr_bytes then sizeof T1 else 0)"

fun make_unsigned :: "ctype \<Rightarrow> ctype" where
  "make_unsigned int8_t = uint8_t" | "make_unsigned int16_t = uint16_t"
| "make_unsigned int32_t = uint32_t" | "make_unsigned int64_t = uint64_t"
| "make_unsigned T = T"

definition MakeUnsigned :: "ctype \<Rightarrow> int \<Rightarrow> int" where
  "MakeUnsigned T a = wrap (make_unsigned T) a"

definition Cmp_same :: "cmp \<Rightarrow> ctype \<Rightarrow> ctype \<Rightarrow> int \<Rightarrow> int \<Rightarrow> bool" where
  "Cmp_same p T1 T2 a b = cpp_cmp p T1 T2 (IntV a) (IntV b)"

definition Cmp_su_larger :: "cmp \<Rightarrow> ctype \<Rightarrow> ctype \<Rightarrow> int \<Rightarrow> int \<Rightarrow> bool" where
  "Cmp_su_larger p T1 L a b = cpp_cmp p T1 L (IntV a) (IntV (wrap L b))"

definition Cmp_us_larger :: "cmp \<Rightarrow> ctype \<Rightarrow> ctype \<Rightarrow> int \<Rightarrow> int \<Rightarrow> bool" where
  "Cmp_us_larger p L T2 a b = cpp_cmp p L T2 (IntV (wrap L a)) (IntV b)"

definition Cmp_su :: "cmp \<Rightarrow> ctype \<Rightarrow> ctype \<Rightarrow> int \<Rightarrow> int \<Rightarrow> bool" where
  "Cmp_su p T1 T2 a b =
     (if a < 0 then cpp_cmp p int32_t int32_t (IntV (- 1)) (IntV 0)
      else cpp_cmp p (make_unsigned T1) T2 (IntV (MakeUnsigned T1 a)) (IntV b))"

definition Cmp_us :: "cmp \<Rightarrow> ctype \<Rightarrow> ctype \<Rightarrow> int \<Rightarrow> int \<Rightarrow> bool" where
  "Cmp_us p T1 T2 a b =
     (if b < 0 then cpp_cmp p int32_t int32_t (IntV 0) (IntV (- 1))
      else cpp_cmp p T1 (make_unsigned T2) (IntV a) (IntV (MakeUnsigned T2 b)))"

definition Cmp :: "nat \<Rightarrow> cmp \<Rightarrow> ctype \<Rightarrow> ctype \<Rightarrow> int \<Rightarrow> int \<Rightarrow> bool" where
  \<comment> \<open>which of the five overloads the compiler picks\<close>
  "Cmp ptr_bytes p T1 T2 a b =
     (if is_signed T1 = is_signed T2 then Cmp_same p T1 T2 a b
      else if is_signed T1
      then (case LargerInt ptr_bytes T2 T1 of
              Some L \<Rightarrow> Cmp_su_larger p T1 L a b | None \<Rightarrow> Cmp_su p T1 T2 a b)
      else (case LargerInt ptr_bytes T1 T2 of
              Some L \<Rightarrow> Cmp_us_larger p L T2 a b | None \<Rightarrow> Cmp_us p T1 T2 a b))"

fun SafeCmp :: "nat \<Rightarrow> cmp \<Rightarrow> ctype \<Rightarrow> ctype \<Rightarrow> num_val \<Rightarrow> num_val \<Rightarrow> bool" where
  \<comment> \<open>\<open>SafeEq\<close>, \<open>SafeNe\<close>, \<open>SafeLt\<close>, \<open>SafeLe\<close>, \<open>SafeGt\<close>, \<open>SafeGe\<close>; the unary plus promotes\<close>
  "SafeCmp ptr_bytes p T1 T2 (IntV a) (IntV b) = Cmp ptr_bytes p (promote T1) (promote T2) a b"
| "SafeCmp ptr_bytes p T1 T2 a b = cpp_cmp p T1 T2 a b"

lemma LargerInt_holds:
  assumes "LargerInt n T1 T2 = Some L" "\<not> is_signed T1" "in_type T1 x"
  shows "in_type L x \<and> is_signed L \<and> \<not> is_iec559 L \<and> sizeof T1 < sizeof L"
  using assms by (cases T1) (auto simp: LargerInt_def limit_defs split: if_splits)

lemma MakeUnsigned_id: "in_type T a \<Longrightarrow> 0 \<le> a \<Longrightarrow> \<not> is_iec559 T \<Longrightarrow> MakeUnsigned T a = a"
  unfolding MakeUnsigned_def by (rule wrap_id) (cases T; simp add: limit_defs)

lemma make_unsigned_int: "\<not> is_iec559 T \<Longrightarrow> \<not> is_iec559 (make_unsigned T) \<and> \<not> is_signed (make_unsigned T)"
  by (cases T) simp_all

lemma make_unsigned_range: "in_type T a \<Longrightarrow> 0 \<le> a \<Longrightarrow> in_type (make_unsigned T) a"
  by (cases T) (simp_all add: limit_defs)

lemma common_same_sign:
  assumes "is_signed T1 = is_signed T2" "\<not> is_iec559 T1" "\<not> is_iec559 T2" "in_type T1 a" "in_type T2 b"
  shows "in_type (common_type T1 T2) a \<and> in_type (common_type T1 T2) b"
  using assms by (cases T1; cases T2) (simp_all add: common_type_def promote_def limit_defs)

lemma cpp_cmp_same_sign:
  assumes "is_signed T1 = is_signed T2" "\<not> is_iec559 T1" "\<not> is_iec559 T2" "in_type T1 a" "in_type T2 b"
  shows "cpp_cmp p T1 T2 (IntV a) (IntV b) = int_cmp p a b"
  using common_same_sign [OF assms] assms(2,3) by (intro cpp_cmp_exact) simp_all

lemma int_cmp_split: "a < 0 \<Longrightarrow> 0 \<le> b \<Longrightarrow> int_cmp p a b = int_cmp p (- 1) 0"
  by (cases p) auto

lemma int_cmp_split': "0 \<le> a \<Longrightarrow> b < 0 \<Longrightarrow> int_cmp p a b = int_cmp p 0 (- 1)"
  by (cases p) auto

lemma unsigned_nonneg: "in_type T a \<Longrightarrow> \<not> is_signed T \<Longrightarrow> 0 \<le> a"
  by (simp add: limit_defs)

lemma in_int32_type: "in_type int32_t (- 1)" "in_type int32_t 0"
  by (simp_all add: limit_defs)

lemma Cmp_su_correct:
  assumes "\<not> is_iec559 T1" "\<not> is_iec559 T2" "in_type T1 a" "in_type T2 b" "\<not> is_signed T2"
  shows "Cmp_su p T1 T2 a b = int_cmp p a b"
proof (cases "a < 0")
  case True
  then show ?thesis
    using int_cmp_split [OF True unsigned_nonneg [OF assms(4,5)]] cpp_cmp_same_sign [OF _ _ _ in_int32_type]
    by (simp add: Cmp_su_def)
next
  case False
  then show ?thesis
    using cpp_cmp_same_sign [of "make_unsigned T1" T2 a b p] make_unsigned_int [OF assms(1)] make_unsigned_range [OF assms(3)]
      assms by (simp add: Cmp_su_def MakeUnsigned_id)
qed

lemma Cmp_us_correct:
  assumes "\<not> is_iec559 T1" "\<not> is_iec559 T2" "in_type T1 a" "in_type T2 b" "\<not> is_signed T1"
  shows "Cmp_us p T1 T2 a b = int_cmp p a b"
proof (cases "b < 0")
  case True
  then show ?thesis
    using int_cmp_split' [OF unsigned_nonneg [OF assms(3,5)] True] cpp_cmp_same_sign [OF _ _ _ in_int32_type(2,1)]
    by (simp add: Cmp_us_def)
next
  case False
  then show ?thesis
    using cpp_cmp_same_sign [of T1 "make_unsigned T2" a b p] make_unsigned_int [OF assms(2)] make_unsigned_range [OF assms(4)]
      assms by (simp add: Cmp_us_def MakeUnsigned_id)
qed

lemma Cmp_correct:
  assumes i: "\<not> is_iec559 T1" "\<not> is_iec559 T2" and r: "in_type T1 a" "in_type T2 b"
  shows "Cmp n p T1 T2 a b = int_cmp p a b"
proof (cases "is_signed T1 = is_signed T2")
  case True
  then show ?thesis using cpp_cmp_same_sign [OF True i r] by (simp add: Cmp_def Cmp_same_def)
next
  case False
  show ?thesis
  proof (cases "is_signed T1")
    case True
    then have u: "\<not> is_signed T2" using False by simp
    have "cpp_cmp p T1 L (IntV a) (IntV (wrap L b)) = int_cmp p a b" if "LargerInt n T2 T1 = Some L" for L
      using LargerInt_holds [OF that u r(2)] True i r cpp_cmp_same_sign [of T1 L a b p] by (simp add: wrap_id)
    then show ?thesis using True u Cmp_su_correct [OF i r u] by (simp add: Cmp_def Cmp_su_larger_def split: option.split)
  next
    case s: False
    then have u: "is_signed T2" using False by simp
    have "cpp_cmp p L T2 (IntV (wrap L a)) (IntV b) = int_cmp p a b" if "LargerInt n T1 T2 = Some L" for L
      using LargerInt_holds [OF that s r(1)] u i r cpp_cmp_same_sign [of L T2 a b p] by (simp add: wrap_id)
    then show ?thesis using s u Cmp_us_correct [OF i r s] by (simp add: Cmp_def Cmp_us_larger_def split: option.split)
  qed
qed

lemma SafeCmp_correct:
  assumes "\<not> is_iec559 T1" "\<not> is_iec559 T2" "in_type T1 a" "in_type T2 b"
  shows "SafeCmp n p T1 T2 (IntV a) (IntV b) = int_cmp p a b"
  using assms Cmp_correct [of "promote T1" "promote T2" a b n p] by (simp add: promote_int promote_range)

section \<open>Range checks and checked casts\<close>

datatype DstRange = OVERLAPS_RANGE | CONTAINS_RANGE

datatype RangeCheckResult = TYPE_VALID | TYPE_UNDERFLOW | TYPE_OVERFLOW | TYPE_INVALID

definition kMaxExponent :: "ctype \<Rightarrow> nat" where
  "kMaxExponent T = (if is_iec559 T then max_exponent T else sizeof T * 8 - 1)"

definition StaticRangeCheck :: "ctype \<Rightarrow> ctype \<Rightarrow> DstRange" where
  "StaticRangeCheck Dst Src =
     (if is_signed Dst \<and> is_signed Src
      then (if kMaxExponent Dst \<ge> kMaxExponent Src then CONTAINS_RANGE else OVERLAPS_RANGE)
      else if \<not> is_signed Dst \<and> \<not> is_signed Src
      then (if sizeof Dst \<ge> sizeof Src then CONTAINS_RANGE else OVERLAPS_RANGE)
      else if is_signed Dst
      then (if kMaxExponent Dst \<ge> sizeof Src * 8 then CONTAINS_RANGE else OVERLAPS_RANGE)
      else OVERLAPS_RANGE)"

definition BASE_NUMERIC_RANGE_CHECK_RESULT :: "bool \<Rightarrow> bool \<Rightarrow> RangeCheckResult" where
  "BASE_NUMERIC_RANGE_CHECK_RESULT is_in_upper_bound is_in_lower_bound =
     (if is_in_upper_bound then (if is_in_lower_bound then TYPE_VALID else TYPE_UNDERFLOW)
      else (if is_in_lower_bound then TYPE_OVERFLOW else TYPE_INVALID))"

definition value_within :: "cmp \<Rightarrow> ctype \<Rightarrow> num_val \<Rightarrow> num_val \<Rightarrow> bool" where
  \<comment> \<open>\<open>value op static_cast<Src>(limit)\<close>\<close>
  "value_within p Src v limit = (case static_cast Src limit of Inr l \<Rightarrow> num_cmp p v l | Inl _ \<Rightarrow> False)"

definition limit_max :: "ctype \<Rightarrow> num_val" where
  "limit_max T = (if is_iec559 T then FloatV (Finite (fmax T)) else IntV (imax T))"

definition Check_signed_signed :: "ctype \<Rightarrow> ctype \<Rightarrow> num_val \<Rightarrow> RangeCheckResult" where
  "Check_signed_signed Dst Src v =
     (if is_iec559 Dst
      then BASE_NUMERIC_RANGE_CHECK_RESULT (value_within LeOp Src v (limit_max Dst))
             (value_within GeOp Src v (FloatV (Finite (- fmax Dst))))
      else BASE_NUMERIC_RANGE_CHECK_RESULT (value_within LeOp Src v (limit_max Dst))
             (value_within GeOp Src v (IntV (imin Dst))))"

definition Check_unsigned_unsigned :: "ctype \<Rightarrow> ctype \<Rightarrow> num_val \<Rightarrow> RangeCheckResult" where
  "Check_unsigned_unsigned Dst Src v =
     BASE_NUMERIC_RANGE_CHECK_RESULT (value_within LeOp Src v (limit_max Dst)) True"

definition Check_unsigned_to_signed :: "ctype \<Rightarrow> ctype \<Rightarrow> num_val \<Rightarrow> RangeCheckResult" where
  "Check_unsigned_to_signed Dst Src v =
     (if sizeof Dst > sizeof Src then TYPE_VALID
      else BASE_NUMERIC_RANGE_CHECK_RESULT (value_within LeOp Src v (limit_max Dst)) True)"

definition Check_signed_to_unsigned :: "ctype \<Rightarrow> ctype \<Rightarrow> num_val \<Rightarrow> RangeCheckResult" where
  "Check_signed_to_unsigned Dst Src v =
     (if sizeof Dst * 8 \<ge> kMaxExponent Src
      then BASE_NUMERIC_RANGE_CHECK_RESULT True (value_within GeOp Src v (IntV 0))
      else BASE_NUMERIC_RANGE_CHECK_RESULT (value_within LeOp Src v (limit_max Dst))
             (value_within GeOp Src v (IntV 0)))"

definition RangeCheck :: "ctype \<Rightarrow> ctype \<Rightarrow> num_val \<Rightarrow> RangeCheckResult" where
  "RangeCheck Dst Src v =
     (case StaticRangeCheck Dst Src of
        CONTAINS_RANGE \<Rightarrow> TYPE_VALID
      | OVERLAPS_RANGE \<Rightarrow>
          if is_signed Dst \<and> is_signed Src then Check_signed_signed Dst Src v
          else if \<not> is_signed Dst \<and> \<not> is_signed Src then Check_unsigned_unsigned Dst Src v
          else if is_signed Dst then Check_unsigned_to_signed Dst Src v
          else Check_signed_to_unsigned Dst Src v)"

definition IsValueInRangeForNumericType :: "ctype \<Rightarrow> ctype \<Rightarrow> num_val \<Rightarrow> bool" where
  "IsValueInRangeForNumericType Dst Src v = (RangeCheck Dst Src v = TYPE_VALID)"

definition checked_cast :: "ctype \<Rightarrow> ctype \<Rightarrow> num_val \<Rightarrow> num_val result" where
  "checked_cast Dst Src v =
     rbind (rtc_check (IsValueInRangeForNumericType Dst Src v) ''IsValueInRangeForNumericType<Dst>(value)'')
       (\<lambda>_. static_cast Dst v)"

definition dchecked_cast :: "bool \<Rightarrow> ctype \<Rightarrow> ctype \<Rightarrow> num_val \<Rightarrow> num_val result" where
  "dchecked_cast on Dst Src v =
     rbind (rtc_dcheck on (IsValueInRangeForNumericType Dst Src v)) (\<lambda>_. static_cast Dst v)"

definition saturated_cast :: "ctype \<Rightarrow> ctype \<Rightarrow> num_val \<Rightarrow> num_val result" where
  "saturated_cast Dst Src v =
     (if is_iec559 Dst then static_cast Dst v
      else case RangeCheck Dst Src v of
             TYPE_VALID \<Rightarrow> static_cast Dst v
           | TYPE_UNDERFLOW \<Rightarrow> Inr (IntV (imin Dst))
           | TYPE_OVERFLOW \<Rightarrow> Inr (IntV (imax Dst))
           | TYPE_INVALID \<Rightarrow> Inl (CheckFailed ''FATAL()''))"

lemma value_within_int:
  "\<not> is_iec559 Src \<Longrightarrow> in_type Src l \<Longrightarrow> value_within p Src (IntV x) (IntV l) = int_cmp p x l"
  by (simp add: value_within_def wrap_id)

lemma RangeCheck_int:
  assumes i: "\<not> is_iec559 Dst" "\<not> is_iec559 Src" and r: "in_type Src x"
  shows "RangeCheck Dst Src (IntV x) =
    (if x < imin Dst then TYPE_UNDERFLOW else if imax Dst < x then TYPE_OVERFLOW else TYPE_VALID)"
  using i r
  by (cases Dst; cases Src)
    (simp_all add: RangeCheck_def StaticRangeCheck_def kMaxExponent_def Check_signed_signed_def
      Check_unsigned_unsigned_def Check_unsigned_to_signed_def Check_signed_to_unsigned_def limit_max_def
      BASE_NUMERIC_RANGE_CHECK_RESULT_def value_within_int limit_defs)

lemma IsValueInRange_int:
  "\<not> is_iec559 Dst \<Longrightarrow> \<not> is_iec559 Src \<Longrightarrow> in_type Src x \<Longrightarrow>
   IsValueInRangeForNumericType Dst Src (IntV x) \<longleftrightarrow> in_type Dst x"
  by (auto simp: IsValueInRangeForNumericType_def RangeCheck_int in_type_def)

lemma dchecked_cast_int:
  assumes "\<not> is_iec559 Dst" "\<not> is_iec559 Src" "in_type Src x" "in_type Dst x"
  shows "dchecked_cast on Dst Src (IntV x) = Inr (IntV x)"
  using assms by (simp add: dchecked_cast_def IsValueInRange_int wrap_id)

definition clamp :: "int \<Rightarrow> int \<Rightarrow> int \<Rightarrow> int" where
  \<comment> \<open>the value of \<open>[lo, hi]\<close> that is closest to \<open>x\<close>\<close>
  "clamp lo hi x = max lo (min hi x)"

lemma saturated_cast_int:
  assumes "\<not> is_iec559 Dst" "\<not> is_iec559 Src" "in_type Src x"
  shows "saturated_cast Dst Src (IntV x) = Inr (IntV (clamp (imin Dst) (imax Dst) x))"
  using assms imin_le_imax [of Dst] by (simp add: saturated_cast_def RangeCheck_int clamp_def wrap_id in_type_def)

definition float_limit :: "ctype \<Rightarrow> ctype \<Rightarrow> int" where
  \<comment> \<open>the largest value of an integer type, rounded into a floating-point format\<close>
  "float_limit Dst Src =
     (if 8 * sizeof Dst - (if is_signed Dst then 1 else 0) \<le> mantissa_bits Src then imax Dst else imax Dst + 1)"

lemma round_limits:
  "round_to float_t 127 = Finite 127"
  "round_to float_t 255 = Finite 255"
  "round_to float_t 32767 = Finite 32767"
  "round_to float_t 65535 = Finite 65535"
  "round_to float_t 2147483647 = Finite 2147483648"
  "round_to float_t 4294967295 = Finite 4294967296"
  "round_to float_t 9223372036854775807 = Finite 9223372036854775808"
  "round_to float_t 18446744073709551615 = Finite 18446744073709551616"
  "round_to float_t (- 128) = Finite (- 128)"
  "round_to float_t (- 32768) = Finite (- 32768)"
  "round_to float_t (- 2147483648) = Finite (- 2147483648)"
  "round_to float_t (- 9223372036854775808) = Finite (- 9223372036854775808)"
  "round_to double_t 127 = Finite 127"
  "round_to double_t 255 = Finite 255"
  "round_to double_t 32767 = Finite 32767"
  "round_to double_t 65535 = Finite 65535"
  "round_to double_t 2147483647 = Finite 2147483647"
  "round_to double_t 4294967295 = Finite 4294967295"
  "round_to double_t 9223372036854775807 = Finite 9223372036854775808"
  "round_to double_t 18446744073709551615 = Finite 18446744073709551616"
  "round_to double_t (- 128) = Finite (- 128)"
  "round_to double_t (- 32768) = Finite (- 32768)"
  "round_to double_t (- 2147483648) = Finite (- 2147483648)"
  "round_to double_t (- 9223372036854775808) = Finite (- 9223372036854775808)"
  subgoal by (rule round_to_binade [where e = 6 and k = "16646144"]) (simp_all add: pow2_def)
  subgoal by (rule round_to_binade [where e = 7 and k = "16711680"]) (simp_all add: pow2_def)
  subgoal by (rule round_to_binade [where e = 14 and k = "16776704"]) (simp_all add: pow2_def)
  subgoal by (rule round_to_binade [where e = 15 and k = "16776960"]) (simp_all add: pow2_def)
  subgoal by (rule round_to_binade [where e = 30 and k = "16777216"]) (simp_all add: pow2_def)
  subgoal by (rule round_to_binade [where e = 31 and k = "16777216"]) (simp_all add: pow2_def)
  subgoal by (rule round_to_binade [where e = 62 and k = "16777216"]) (simp_all add: pow2_def)
  subgoal by (rule round_to_binade [where e = 63 and k = "16777216"]) (simp_all add: pow2_def)
  subgoal by (rule round_to_binade [where e = 7 and k = "-8388608"]) (simp_all add: pow2_def)
  subgoal by (rule round_to_binade [where e = 15 and k = "-8388608"]) (simp_all add: pow2_def)
  subgoal by (rule round_to_binade [where e = 31 and k = "-8388608"]) (simp_all add: pow2_def)
  subgoal by (rule round_to_binade [where e = 63 and k = "-8388608"]) (simp_all add: pow2_def)
  subgoal by (rule round_to_binade [where e = 6 and k = "8936830510563328"]) (simp_all add: pow2_def)
  subgoal by (rule round_to_binade [where e = 7 and k = "8972014882652160"]) (simp_all add: pow2_def)
  subgoal by (rule round_to_binade [where e = 14 and k = "9006924376834048"]) (simp_all add: pow2_def)
  subgoal by (rule round_to_binade [where e = 15 and k = "9007061815787520"]) (simp_all add: pow2_def)
  subgoal by (rule round_to_binade [where e = 30 and k = "9007199250546688"]) (simp_all add: pow2_def)
  subgoal by (rule round_to_binade [where e = 31 and k = "9007199252643840"]) (simp_all add: pow2_def)
  subgoal by (rule round_to_binade [where e = 62 and k = "9007199254740992"]) (simp_all add: pow2_def)
  subgoal by (rule round_to_binade [where e = 63 and k = "9007199254740992"]) (simp_all add: pow2_def)
  subgoal by (rule round_to_binade [where e = 7 and k = "-4503599627370496"]) (simp_all add: pow2_def)
  subgoal by (rule round_to_binade [where e = 15 and k = "-4503599627370496"]) (simp_all add: pow2_def)
  subgoal by (rule round_to_binade [where e = 31 and k = "-4503599627370496"]) (simp_all add: pow2_def)
  subgoal by (rule round_to_binade [where e = 63 and k = "-4503599627370496"]) (simp_all add: pow2_def)
  done

lemma cast_limits:
  assumes "\<not> is_iec559 Dst" "Src = float_t \<or> Src = double_t"
  shows "static_cast Src (IntV (imax Dst)) = Inr (FloatV (Finite (of_int (float_limit Dst Src))))"
    "static_cast Src (IntV (imin Dst)) = Inr (FloatV (Finite (of_int (imin Dst))))"
  using assms by (cases Dst; auto simp: imax_def imin_def float_limit_def round_limits round_to_def [of _ 0])+

lemma RangeCheck_float:
  assumes i: "\<not> is_iec559 Dst" "is_iec559 Src"
  shows "RangeCheck Dst Src (FloatV f) =
    (case f of
       Finite r \<Rightarrow> if r < of_int (imin Dst) then TYPE_UNDERFLOW
                   else if of_int (float_limit Dst Src) < r then TYPE_OVERFLOW else TYPE_VALID
     | Infinite negative \<Rightarrow> if negative then TYPE_UNDERFLOW else TYPE_OVERFLOW
     | NaN \<Rightarrow> TYPE_INVALID)"
proof -
  have S: "Src = float_t \<or> Src = double_t" using i(2) by (cases Src) simp_all
  have st: "StaticRangeCheck Dst Src = OVERLAPS_RANGE" "is_signed Src" "\<not> kMaxExponent Src \<le> sizeof Dst * 8"
    using i(1) S by (cases Dst; auto simp: StaticRangeCheck_def kMaxExponent_def)+
  have z: "\<not> is_signed Dst \<Longrightarrow> imin Dst = 0" by (simp add: imin_def)
  have "RangeCheck Dst Src (FloatV f) =
      BASE_NUMERIC_RANGE_CHECK_RESULT (float_cmp LeOp f (Finite (of_int (float_limit Dst Src))))
        (float_cmp GeOp f (Finite (of_int (imin Dst))))"
    using st i(1) cast_limits [OF i(1) S]
    by (cases "is_signed Dst") (simp_all add: RangeCheck_def Check_signed_signed_def Check_signed_to_unsigned_def
        limit_max_def value_within_def z [symmetric] del: static_cast.simps)
  moreover have "imin Dst \<le> float_limit Dst Src" using imin_le_imax [of Dst] by (simp add: float_limit_def)
  then have "(of_int (imin Dst) :: rat) \<le> of_int (float_limit Dst Src)" by simp
  ultimately show ?thesis
    by (cases f) (auto simp: BASE_NUMERIC_RANGE_CHECK_RESULT_def)
qed

section \<open>Minimum, maximum and clamp\<close>

text \<open>A value travels with its type. \<^const>\<open>None\<close> is a call that a \<open>static_assert\<close> rejects;
  \<^const>\<open>None\<close> as the requested type is \<open>DefaultType\<close>.\<close>

type_synonym typed = "ctype \<times> num_val"

definition Limits_lowest :: "ctype \<Rightarrow> num_val" where
  "Limits_lowest T = (if is_iec559 T then FloatV (Finite (- fmax T)) else IntV (imin T))"

definition Limits_max :: "ctype \<Rightarrow> num_val" where
  "Limits_max T = limit_max T"

definition limits_cmp :: "nat \<Rightarrow> cmp \<Rightarrow> (ctype \<Rightarrow> num_val) \<Rightarrow> ctype \<Rightarrow> ctype \<Rightarrow> bool" where
  "limits_cmp n p limit T1 T2 = SafeCmp n p T1 T2 (limit T1) (limit T2)"

definition MType_min :: "nat \<Rightarrow> ctype \<Rightarrow> ctype \<Rightarrow> ctype option" where
  "MType_min n T1 T2 =
     (if is_iec559 T1 \<noteq> is_iec559 T2 then None
      else if is_iec559 T1 then Some (common_type T1 T2)
      else Some (if limits_cmp n LtOp Limits_lowest T1 T2 then T1
                 else if limits_cmp n GtOp Limits_lowest T1 T2 then T2
                 else if limits_cmp n LeOp Limits_max T1 T2 then T1 else T2))"

definition MType_max :: "nat \<Rightarrow> ctype \<Rightarrow> ctype \<Rightarrow> ctype option" where
  "MType_max n T1 T2 =
     (if is_iec559 T1 \<noteq> is_iec559 T2 then None
      else if is_iec559 T1 then Some (common_type T1 T2)
      else if limits_cmp n NeOp Limits_max T1 T2 \<or> limits_cmp n EqOp Limits_lowest T1 T2
      then Some (if limits_cmp n GeOp Limits_max T1 T2 then T1 else T2) else None)"

definition TypeOr :: "nat \<Rightarrow> ctype option \<Rightarrow> ctype option \<Rightarrow> ctype option" where
  "TypeOr n A B =
     (case B of
        None \<Rightarrow> None
      | Some b \<Rightarrow>
          let t = (case A of None \<Rightarrow> b | Some a \<Rightarrow> a)
          in if limits_cmp n LeOp Limits_lowest t b \<and> limits_cmp n GeOp Limits_max t b \<and> is_iec559 t = is_iec559 b
             then Some t else None)"

fun typed_cast :: "ctype option \<Rightarrow> typed \<Rightarrow> typed option" where
  "typed_cast None v = None"
| "typed_cast (Some R) (T, v) = (case static_cast R v of Inr w \<Rightarrow> Some (R, w) | Inl _ \<Rightarrow> None)"

fun SafeCmp_typed :: "nat \<Rightarrow> cmp \<Rightarrow> typed \<Rightarrow> typed \<Rightarrow> bool" where
  "SafeCmp_typed n p (T1, a) (T2, b) = SafeCmp n p T1 T2 a b"

definition SafeMin :: "nat \<Rightarrow> ctype option \<Rightarrow> typed \<Rightarrow> typed \<Rightarrow> typed option" where
  "SafeMin n R a b =
     typed_cast (TypeOr n R (MType_min n (fst a) (fst b))) (if SafeCmp_typed n LtOp a b then a else b)"

definition SafeMax :: "nat \<Rightarrow> ctype option \<Rightarrow> typed \<Rightarrow> typed \<Rightarrow> typed option" where
  "SafeMax n R a b =
     typed_cast (TypeOr n R (MType_max n (fst a) (fst b))) (if SafeCmp_typed n GtOp a b then a else b)"

definition r_min :: "nat \<Rightarrow> ctype \<Rightarrow> ctype \<Rightarrow> ctype \<Rightarrow> typed option" where
  "r_min n T L H =
     Option.bind (SafeMin n None (H, Limits_lowest H) (T, Limits_lowest T)) (SafeMax n None (L, Limits_lowest L))"

definition r_max :: "nat \<Rightarrow> ctype \<Rightarrow> ctype \<Rightarrow> ctype \<Rightarrow> typed option" where
  "r_max n T L H =
     Option.bind (SafeMax n None (L, Limits_max L) (T, Limits_max T)) (SafeMin n None (H, Limits_max H))"

definition AcceptableType :: "nat \<Rightarrow> ctype \<Rightarrow> ctype \<Rightarrow> ctype \<Rightarrow> ctype \<Rightarrow> bool" where
  "AcceptableType n T L H A =
     ((sizeof A \<le> sizeof L \<or> sizeof A \<le> sizeof H \<or> sizeof A \<le> sizeof T) \<and>
      (case (r_min n T L H, r_max n T L H) of
         (Some lo, Some hi) \<Rightarrow>
           SafeCmp_typed n LeOp (A, Limits_lowest A) lo \<and> SafeCmp_typed n LeOp hi (A, Limits_max A)
       | _ \<Rightarrow> False))"

definition best_signed_type :: "nat \<Rightarrow> ctype \<Rightarrow> ctype \<Rightarrow> ctype \<Rightarrow> ctype" where
  "best_signed_type n T L H =
     (if AcceptableType n T L H int8_t then int8_t
      else if AcceptableType n T L H int16_t then int16_t
      else if AcceptableType n T L H int32_t then int32_t else int64_t)"

definition best_unsigned_type :: "nat \<Rightarrow> ctype \<Rightarrow> ctype \<Rightarrow> ctype \<Rightarrow> ctype" where
  "best_unsigned_type n T L H =
     (if AcceptableType n T L H uint8_t then uint8_t
      else if AcceptableType n T L H uint16_t then uint16_t
      else if AcceptableType n T L H uint32_t then uint32_t else uint64_t)"

definition ClampType :: "nat \<Rightarrow> ctype \<Rightarrow> ctype \<Rightarrow> ctype \<Rightarrow> ctype option" where
  "ClampType n T L H =
     (if is_iec559 T \<noteq> is_iec559 L \<or> is_iec559 T \<noteq> is_iec559 H then None
      else if is_iec559 T then Some (common_type T (common_type L H))
      else
        let s = best_signed_type n T L H; u = best_unsigned_type n T L H;
            type = (if is_signed T then (if AcceptableType n T L H s then s else u)
                    else (if AcceptableType n T L H u then u else s))
        in if AcceptableType n T L H type then Some type else None)"

definition SafeClamp :: "nat \<Rightarrow> bool \<Rightarrow> ctype option \<Rightarrow> typed \<Rightarrow> typed \<Rightarrow> typed \<Rightarrow> typed result option" where
  "SafeClamp n on R x lo hi =
     (let R2 = TypeOr n R (ClampType n (fst x) (fst lo) (fst hi));
          v = (if SafeCmp_typed n LeOp x lo then lo else if SafeCmp_typed n GeOp x hi then hi else x)
      in case typed_cast R2 v of
           None \<Rightarrow> None
         | Some w \<Rightarrow> Some (rbind (rtc_dcheck on (SafeCmp_typed n LeOp lo hi)) (\<lambda>_. Inr w)))"

lemma limits_cmp_int:
  assumes "\<not> is_iec559 T1" "\<not> is_iec559 T2"
  shows "limits_cmp n p Limits_lowest T1 T2 = int_cmp p (imin T1) (imin T2)"
    "limits_cmp n p Limits_max T1 T2 = int_cmp p (imax T1) (imax T2)"
  using assms imin_le_imax
  by (simp_all add: limits_cmp_def Limits_lowest_def Limits_max_def limit_max_def in_type_def SafeCmp_correct del: SafeCmp.simps)

lemma MType_int:
  assumes "\<not> is_iec559 T1" "\<not> is_iec559 T2"
  shows "MType_min n T1 T2 =
      Some (if imin T1 < imin T2 then T1 else if imin T1 > imin T2 then T2 else if imax T1 \<le> imax T2 then T1 else T2)"
    "MType_max n T1 T2 = Some (if imax T1 \<ge> imax T2 then T1 else T2)"
proof -
  have "imax T1 \<noteq> imax T2 \<or> imin T1 = imin T2"
    using assms by (cases T1; cases T2) (simp_all add: limit_defs)
  then show "MType_max n T1 T2 = Some (if imax T1 \<ge> imax T2 then T1 else T2)"
    using assms by (simp add: MType_max_def limits_cmp_int)
qed (use assms in \<open>simp add: MType_min_def limits_cmp_int\<close>)

lemma TypeOr_default: "\<not> is_iec559 b \<Longrightarrow> TypeOr n None (Some b) = Some b"
  by (simp add: TypeOr_def limits_cmp_int)

lemma typed_cast_int: "\<not> is_iec559 R \<Longrightarrow> in_type R x \<Longrightarrow> typed_cast (Some R) (T, IntV x) = Some (R, IntV x)"
  by (simp add: wrap_id)

lemma SafeMin_int:
  assumes i: "\<not> is_iec559 T1" "\<not> is_iec559 T2" and r: "in_type T1 a" "in_type T2 b"
  shows "\<exists>R. SafeMin n None (T1, IntV a) (T2, IntV b) = Some (R, IntV (min a b)) \<and> R \<in> {T1, T2} \<and>
    imin R = min (imin T1) (imin T2) \<and> in_type R (min a b)"
proof -
  define R where "R = (if imin T1 < imin T2 then T1 else if imin T1 > imin T2 then T2 else if imax T1 \<le> imax T2 then T1 else T2)"
  have m: "MType_min n T1 T2 = Some R" using MType_int(1) [OF i] by (simp add: R_def)
  have R: "\<not> is_iec559 R" "R \<in> {T1, T2}" "imin R = min (imin T1) (imin T2)" "in_type R (min a b)"
    using i r by (auto simp: R_def in_type_def)
  have "(if SafeCmp_typed n LtOp (T1, IntV a) (T2, IntV b) then (T1, IntV a) else (T2, IntV b)) =
      (if a < b then T1 else T2, IntV (min a b))"
    using SafeCmp_correct [OF i r, of n LtOp] by (auto simp del: SafeCmp.simps)
  then have "SafeMin n None (T1, IntV a) (T2, IntV b) = Some (R, IntV (min a b))"
    using R(1,4) by (simp add: SafeMin_def m TypeOr_default typed_cast_int del: SafeCmp_typed.simps typed_cast.simps)
  then show ?thesis using R by blast
qed

lemma SafeMax_int:
  assumes i: "\<not> is_iec559 T1" "\<not> is_iec559 T2" and r: "in_type T1 a" "in_type T2 b"
  shows "\<exists>R. SafeMax n None (T1, IntV a) (T2, IntV b) = Some (R, IntV (max a b)) \<and> R \<in> {T1, T2} \<and>
    imax R = max (imax T1) (imax T2) \<and> in_type R (max a b)"
proof -
  define R where "R = (if imax T1 \<ge> imax T2 then T1 else T2)"
  have m: "MType_max n T1 T2 = Some R" using MType_int(2) [OF i] by (simp add: R_def)
  have R: "\<not> is_iec559 R" "R \<in> {T1, T2}" "imax R = max (imax T1) (imax T2)" "in_type R (max a b)"
    using i r by (auto simp: R_def in_type_def)
  have "(if SafeCmp_typed n GtOp (T1, IntV a) (T2, IntV b) then (T1, IntV a) else (T2, IntV b)) =
      (if a > b then T1 else T2, IntV (max a b))"
    using SafeCmp_correct [OF i r, of n GtOp] by (auto simp del: SafeCmp.simps)
  then have "SafeMax n None (T1, IntV a) (T2, IntV b) = Some (R, IntV (max a b))"
    using R(1,4) by (simp add: SafeMax_def m TypeOr_default typed_cast_int del: SafeCmp_typed.simps typed_cast.simps)
  then show ?thesis using R by blast
qed

definition clamp_low :: "ctype \<Rightarrow> ctype \<Rightarrow> ctype \<Rightarrow> int" where
  "clamp_low T L H = max (imin L) (min (imin H) (imin T))"

definition clamp_high :: "ctype \<Rightarrow> ctype \<Rightarrow> ctype \<Rightarrow> int" where
  "clamp_high T L H = min (imax H) (max (imax L) (imax T))"

lemma limits_in_type: "in_type T (imin T)" "in_type T (imax T)"
  using imin_le_imax [of T] by (simp_all add: in_type_def)

lemma r_min_int:
  assumes "\<not> is_iec559 T" "\<not> is_iec559 L" "\<not> is_iec559 H"
  shows "\<exists>A. r_min n T L H = Some (A, IntV (clamp_low T L H)) \<and> \<not> is_iec559 A \<and> in_type A (clamp_low T L H)"
proof -
  obtain R where R: "SafeMin n None (H, IntV (imin H)) (T, IntV (imin T)) = Some (R, IntV (min (imin H) (imin T)))"
      "R \<in> {H, T}" "in_type R (min (imin H) (imin T))"
    using SafeMin_int [OF assms(3,1) limits_in_type(1) limits_in_type(1)] by blast
  have i: "\<not> is_iec559 R" using R(2) assms by auto
  obtain A where "SafeMax n None (L, IntV (imin L)) (R, IntV (min (imin H) (imin T))) = Some (A, IntV (clamp_low T L H))"
      "A \<in> {L, R}" "in_type A (clamp_low T L H)"
    using SafeMax_int [OF assms(2) i limits_in_type(1) R(3)] unfolding clamp_low_def by blast
  then show ?thesis using R(1) i assms by (auto simp: r_min_def Limits_lowest_def)
qed

lemma r_max_int:
  assumes "\<not> is_iec559 T" "\<not> is_iec559 L" "\<not> is_iec559 H"
  shows "\<exists>A. r_max n T L H = Some (A, IntV (clamp_high T L H)) \<and> \<not> is_iec559 A \<and> in_type A (clamp_high T L H)"
proof -
  obtain R where R: "SafeMax n None (L, IntV (imax L)) (T, IntV (imax T)) = Some (R, IntV (max (imax L) (imax T)))"
      "R \<in> {L, T}" "in_type R (max (imax L) (imax T))"
    using SafeMax_int [OF assms(2,1) limits_in_type(2) limits_in_type(2)] by blast
  have i: "\<not> is_iec559 R" using R(2) assms by auto
  obtain A where "SafeMin n None (H, IntV (imax H)) (R, IntV (max (imax L) (imax T))) = Some (A, IntV (clamp_high T L H))"
      "A \<in> {H, R}" "in_type A (clamp_high T L H)"
    using SafeMin_int [OF assms(3) i limits_in_type(2) R(3)] unfolding clamp_high_def by blast
  then show ?thesis using R(1) i assms by (auto simp: r_max_def Limits_max_def limit_max_def)
qed

lemma AcceptableType_int:
  assumes i: "\<not> is_iec559 T" "\<not> is_iec559 L" "\<not> is_iec559 H" and A: "\<not> is_iec559 A"
  shows "AcceptableType n T L H A \<longleftrightarrow>
    sizeof A \<le> max (sizeof L) (max (sizeof H) (sizeof T)) \<and> imin A \<le> clamp_low T L H \<and> clamp_high T L H \<le> imax A"
proof -
  obtain B where B: "r_min n T L H = Some (B, IntV (clamp_low T L H))" "\<not> is_iec559 B" "in_type B (clamp_low T L H)"
    using r_min_int [OF i] by blast
  obtain C where C: "r_max n T L H = Some (C, IntV (clamp_high T L H))" "\<not> is_iec559 C" "in_type C (clamp_high T L H)"
    using r_max_int [OF i] by blast
  show ?thesis
    using SafeCmp_correct [OF A B(2) limits_in_type(1) B(3)] SafeCmp_correct [OF C(2) A C(3) limits_in_type(2)] A
    by (auto simp: AcceptableType_def B(1) C(1) Limits_lowest_def Limits_max_def limit_max_def simp del: SafeCmp.simps)
qed

lemma ClampType_int:
  assumes i: "\<not> is_iec559 T" "\<not> is_iec559 L" "\<not> is_iec559 H"
  shows "\<exists>R. ClampType n T L H = Some R \<and> \<not> is_iec559 R \<and> AcceptableType n T L H R"
proof -
  have "AcceptableType n T L H (best_signed_type n T L H) \<or> AcceptableType n T L H (best_unsigned_type n T L H)"
    using i
    by (cases T; cases L; cases H)
      (simp_all add: best_signed_type_def best_unsigned_type_def AcceptableType_int clamp_low_def clamp_high_def limit_defs)
  moreover have "\<not> is_iec559 (best_signed_type n T L H)" "\<not> is_iec559 (best_unsigned_type n T L H)"
    by (simp_all add: best_signed_type_def best_unsigned_type_def)
  ultimately show ?thesis using i by (auto simp: ClampType_def Let_def)
qed

lemma SafeClamp_int:
  assumes i: "\<not> is_iec559 T" "\<not> is_iec559 L" "\<not> is_iec559 H"
    and r: "in_type T x" "in_type L lo" "in_type H hi" and o: "lo \<le> hi"
  shows "\<exists>R. ClampType n T L H = Some R \<and> in_type R (clamp lo hi x) \<and>
    SafeClamp n on None (T, IntV x) (L, IntV lo) (H, IntV hi) = Some (Inr (R, IntV (clamp lo hi x)))"
proof -
  obtain R where R: "ClampType n T L H = Some R" "\<not> is_iec559 R" "AcceptableType n T L H R"
    using ClampType_int [OF i] by blast
  have "imin R \<le> clamp_low T L H" "clamp_high T L H \<le> imax R" using R(3) AcceptableType_int [OF i R(2)] by simp_all
  moreover have "clamp_low T L H \<le> clamp lo hi x" "clamp lo hi x \<le> clamp_high T L H"
    using r o by (auto simp: clamp_low_def clamp_high_def clamp_def in_type_def)
  ultimately have v: "in_type R (clamp lo hi x)" by (simp add: in_type_def)
  define w where "w = (if SafeCmp_typed n LeOp (T, IntV x) (L, IntV lo) then (L, IntV lo)
      else if SafeCmp_typed n GeOp (T, IntV x) (H, IntV hi) then (H, IntV hi) else (T, IntV x))"
  have "w = (if x \<le> lo then L else if x \<ge> hi then H else T, IntV (clamp lo hi x))"
    using SafeCmp_correct [OF i(1,2) r(1,2), of n LeOp] SafeCmp_correct [OF i(1,3) r(1,3), of n GeOp] o
    by (auto simp: w_def clamp_def simp del: SafeCmp.simps)
  then have c: "typed_cast (Some R) w = Some (R, IntV (clamp lo hi x))" using typed_cast_int [OF R(2) v] by simp
  have d: "SafeCmp_typed n LeOp (L, IntV lo) (H, IntV hi)"
    using SafeCmp_correct [OF i(2,3) r(2,3), of n LeOp] o by (simp del: SafeCmp.simps)
  have "SafeClamp n on None (T, IntV x) (L, IntV lo) (H, IntV hi) = Some (Inr (R, IntV (clamp lo hi x)))"
    using c d by (simp add: SafeClamp_def R(1) TypeOr_default [OF R(2)] w_def [symmetric] Let_def
        del: SafeCmp_typed.simps typed_cast.simps)
  then show ?thesis using R(1) v by blast
qed

section \<open>Properties\<close>

text \<open>Claim C33. The six sign-safe comparisons are the mathematical ones for all integer types, on a 32-bit and on
  a 64-bit target; the built-in operator is not, since it converts \<open>-1\<close> to an unsigned type first.\<close>

theorem safe_compare_exact:
  assumes "\<not> is_iec559 T1" "\<not> is_iec559 T2" "in_type T1 a" "in_type T2 b"
  shows "SafeCmp ptr_bytes p T1 T2 (IntV a) (IntV b) = int_cmp p a b \<and>
    \<not> cpp_cmp LtOp int32_t uint32_t (IntV (- 1)) (IntV 0)"
  using SafeCmp_correct [OF assms]
  by (simp add: cpp_cmp_def common_type_def promote_def wrap_def limit_defs del: SafeCmp.simps)

theorem safe_compare_exact_witness:
  "SafeCmp 8 LtOp int64_t uint64_t (IntV (- 1)) (IntV 18446744073709551615)"
  using safe_compare_exact [of int64_t uint64_t "- 1" 18446744073709551615 8 LtOp]
  by (simp add: limit_defs del: SafeCmp.simps)

text \<open>The range check of an integer conversion is exact, so a checked cast returns the unchanged value or
  stops the program, and a saturating cast returns the nearest value of the destination type.\<close>

theorem integer_casts_exact:
  assumes "\<not> is_iec559 Dst" "\<not> is_iec559 Src" "in_type Src x"
  shows "RangeCheck Dst Src (IntV x) =
      (if x < imin Dst then TYPE_UNDERFLOW else if imax Dst < x then TYPE_OVERFLOW else TYPE_VALID) \<and>
    checked_cast Dst Src (IntV x) =
      (if in_type Dst x then Inr (IntV x)
       else Inl (CheckFailed ''IsValueInRangeForNumericType<Dst>(value)'')) \<and>
    saturated_cast Dst Src (IntV x) = Inr (IntV (clamp (imin Dst) (imax Dst) x))"
  using RangeCheck_int [OF assms] IsValueInRange_int [OF assms] saturated_cast_int [OF assms] assms(1)
  by (simp add: checked_cast_def wrap_id)

theorem integer_casts_exact_witness:
  "saturated_cast uint8_t int32_t (IntV (- 5)) = Inr (IntV 0) \<and>
   saturated_cast int16_t uint32_t (IntV 70000) = Inr (IntV 32767)"
  using integer_casts_exact [of uint8_t int32_t "- 5"] integer_casts_exact [of int16_t uint32_t 70000]
  by (simp add: limit_defs clamp_def)

text \<open>A saturating cast of a finite floating-point value to an integer type saturates, except at one
  value: where the largest integer rounds up in the source format, the power of two above it
  passes the range check and its conversion is undefined.\<close>

theorem float_cast_boundary:
  assumes "\<not> is_iec559 Dst" "is_iec559 Src"
  shows "saturated_cast Dst Src (FloatV (Finite r)) =
    (if float_limit Dst Src \<noteq> imax Dst \<and> r = of_int (imax Dst + 1) then Inl BadConversion
     else Inr (IntV (clamp (imin Dst) (imax Dst) (rat_trunc r))))"
proof -
  have le: "imin Dst \<le> imax Dst" "imin Dst \<le> 0" "0 \<le> imax Dst"
    using assms(1) by (cases Dst; simp add: limit_defs)+
  have lim: "float_limit Dst Src = imax Dst \<or> float_limit Dst Src = imax Dst + 1" by (simp add: float_limit_def)
  consider "r < of_int (imin Dst)" | "of_int (imin Dst) \<le> r" "r \<le> of_int (imax Dst)"
    | "of_int (imax Dst) < r" "r < of_int (imax Dst + 1)" | "r = of_int (imax Dst + 1)" | "of_int (imax Dst + 1) < r"
    by linarith
  then show ?thesis
  proof cases
    case 1
    then have "rat_trunc r \<le> imin Dst" using le(2) by (simp add: rat_trunc_def ceiling_le_iff)
    then show ?thesis using 1 le assms(1) by (simp add: saturated_cast_def RangeCheck_float [OF assms] clamp_def)
  next
    case 2
    then have "imin Dst \<le> rat_trunc r" "rat_trunc r \<le> imax Dst"
      using le by (auto simp: rat_trunc_def le_floor_iff ceiling_le_iff floor_le_iff le_ceiling_iff)
    moreover have "r \<le> of_int (float_limit Dst Src)" using 2(2) lim by auto
    ultimately show ?thesis using 2 assms(1) by (simp add: saturated_cast_def RangeCheck_float [OF assms] clamp_def in_type_def)
  next
    case 3
    then have t: "rat_trunc r = imax Dst" using le by (simp add: rat_trunc_def) (intro floor_unique; simp)
    show ?thesis using 3 t le lim assms(1)
      by (auto simp: saturated_cast_def RangeCheck_float [OF assms] clamp_def in_type_def)
  next
    case 4
    then have t: "rat_trunc r = imax Dst + 1" using le by (simp add: rat_trunc_def)
    show ?thesis using 4 t le lim assms(1)
      by (auto simp: saturated_cast_def RangeCheck_float [OF assms] clamp_def in_type_def)
  next
    case 5
    then have "imax Dst \<le> rat_trunc r" using le by (simp add: rat_trunc_def le_floor_iff)
    moreover have "of_int (float_limit Dst Src) < r" "\<not> r < of_int (imin Dst)" using 5 lim le by auto
    ultimately show ?thesis using 5 le assms(1) by (simp add: saturated_cast_def RangeCheck_float [OF assms] clamp_def)
  qed
qed

theorem float_cast_boundary_witness:
  "saturated_cast int32_t float_t (FloatV (Finite 2147483648)) = Inl BadConversion \<and>
   saturated_cast int32_t double_t (FloatV (Finite 2147483648)) = Inr (IntV 2147483647)"
  using float_cast_boundary [of int32_t float_t 2147483648] float_cast_boundary [of int32_t double_t 2147483648]
  by (simp add: float_limit_def limit_defs clamp_def rat_trunc_def)

text \<open>Minimum, maximum and clamp of integers of any types return the exact value in a type that holds it,
  with the default result type always one that the static assertions accept; for the clamp it is
  no larger than the largest argument type. The signedness follows the first argument of the
  clamp.\<close>

theorem safe_minmax_exact:
  assumes i: "\<not> is_iec559 T" "\<not> is_iec559 L" "\<not> is_iec559 H"
    and r: "in_type T x" "in_type L lo" "in_type H hi" and o: "lo \<le> hi"
  shows "(\<exists>R. SafeMin n None (T, IntV x) (L, IntV lo) = Some (R, IntV (min x lo)) \<and> in_type R (min x lo)) \<and>
    (\<exists>R. SafeMax n None (T, IntV x) (L, IntV lo) = Some (R, IntV (max x lo)) \<and> in_type R (max x lo)) \<and>
    (\<exists>R. SafeClamp n on None (T, IntV x) (L, IntV lo) (H, IntV hi) = Some (Inr (R, IntV (clamp lo hi x))) \<and>
       in_type R (clamp lo hi x) \<and> sizeof R \<le> max (sizeof L) (max (sizeof H) (sizeof T))) \<and>
    ClampType n int32_t uint8_t uint8_t = Some int16_t"
proof (intro conjI)
  obtain R where R: "ClampType n T L H = Some R" "in_type R (clamp lo hi x)"
      "SafeClamp n on None (T, IntV x) (L, IntV lo) (H, IntV hi) = Some (Inr (R, IntV (clamp lo hi x)))"
    using SafeClamp_int [OF assms] by blast
  obtain R' where "ClampType n T L H = Some R'" "\<not> is_iec559 R'" "AcceptableType n T L H R'"
    using ClampType_int [OF i] by blast
  then have "sizeof R \<le> max (sizeof L) (max (sizeof H) (sizeof T))" using AcceptableType_int [OF i] R(1) by simp
  then show "\<exists>R. SafeClamp n on None (T, IntV x) (L, IntV lo) (H, IntV hi) = Some (Inr (R, IntV (clamp lo hi x))) \<and>
       in_type R (clamp lo hi x) \<and> sizeof R \<le> max (sizeof L) (max (sizeof H) (sizeof T))" using R by blast
  show "ClampType n int32_t uint8_t uint8_t = Some int16_t"
    by (simp add: ClampType_def best_signed_type_def AcceptableType_int clamp_low_def clamp_high_def limit_defs Let_def)
qed (use SafeMin_int [OF i(1,2) r(1,2)] SafeMax_int [OF i(1,2) r(1,2)] in blast)+

theorem safe_minmax_exact_witness:
  "\<exists>R. SafeClamp 4 True None (int64_t, IntV (- 7)) (uint8_t, IntV 3) (uint16_t, IntV 900) = Some (Inr (R, IntV 3)) \<and>
     in_type R 3"
proof -
  have r: "in_type int64_t (- 7)" "in_type uint8_t 3" "in_type uint16_t 900" by (simp_all add: limit_defs)
  show ?thesis
    using safe_minmax_exact [OF _ _ _ r, of 4 True, THEN conjunct2, THEN conjunct2, THEN conjunct1]
    by (auto simp: clamp_def)
qed

end
