(* ===== verification/Rtc_Units.thy ===== *)
theory Rtc_Units
  imports Rtc_Numerics
begin

text \<open>
  The strongly typed quantities of WebRTC, \<open>api/units/time_delta.h\<close>, \<open>timestamp.h\<close>,
  \<open>data_size.h\<close> and \<open>data_rate.h\<close>: an \<open>int64_t\<close> whose extreme values stand for infinities, with
  the checks, casts and roundings of every method written out. A method takes the target
  (pointer size, whether \<open>RTC_DCHECK\<close> is on); a method template also takes the type it is
  instantiated with.
\<close>

section \<open>Checks and casts\<close>

record target =
  ptr_bytes :: nat
  dcheck_on :: bool

definition dcheck :: "target \<Rightarrow> bool \<Rightarrow> unit result" where
  "dcheck tg b = rtc_dcheck (dcheck_on tg) b"

definition dcheck_op :: "target \<Rightarrow> cmp \<Rightarrow> ctype \<Rightarrow> num_val \<Rightarrow> int \<Rightarrow> unit result" where
  \<comment> \<open>\<open>RTC_DCHECK_xx(v, limit)\<close> with an \<open>int64_t\<close> limit\<close>
  "dcheck_op tg p T v limit = dcheck tg (SafeCmp (ptr_bytes tg) p T int64_t v (IntV limit))"

fun int_of_val :: "num_val \<Rightarrow> int result" where
  "int_of_val (IntV x) = Inr x"
| "int_of_val (FloatV _) = Inl TypeConfusion"

definition cast_int :: "target \<Rightarrow> ctype \<Rightarrow> ctype \<Rightarrow> num_val \<Rightarrow> int result" where
  "cast_int tg Dst Src v = rbind (dchecked_cast (dcheck_on tg) Dst Src v) int_of_val"

definition kPlusInfinityVal :: int where
  "kPlusInfinityVal = imax int64_t"

definition kMinusInfinityVal :: int where
  "kMinusInfinityVal = imin int64_t"

definition checked_unit :: "target \<Rightarrow> cmp \<Rightarrow> int \<Rightarrow> int \<Rightarrow> ctype \<Rightarrow> num_val \<Rightarrow> int \<Rightarrow> int result" where
  \<comment> \<open>the two range checks of a factory and the scaling of its argument\<close>
  "checked_unit tg low_op low high T v factor =
     rbind (dcheck_op tg low_op T v low) (\<lambda>_.
     rbind (dcheck_op tg LtOp T v high) (\<lambda>_.
     rbind (cast_int tg int64_t T v) (\<lambda>x. c_int64 (x * factor))))"

definition checked_float :: "target \<Rightarrow> cmp \<Rightarrow> int \<Rightarrow> ctype \<Rightarrow> cfloat \<Rightarrow> int result" where
  \<comment> \<open>the checks of a factory that takes a finite floating-point argument\<close>
  "checked_float tg low_op low T f =
     rbind (dcheck tg (f \<noteq> NaN)) (\<lambda>_.
     rbind (dcheck_op tg low_op T (FloatV f) low) (\<lambda>_.
     rbind (dcheck_op tg LtOp T (FloatV f) kPlusInfinityVal) (\<lambda>_.
     cast_int tg int64_t T (FloatV f))))"

definition round_div :: "int \<Rightarrow> int \<Rightarrow> int \<Rightarrow> int result" where
  \<comment> \<open>\<open>(x + half) / unit\<close>\<close>
  "round_div x half unit = rbind (c_int64 (x + half)) (\<lambda>y. c_div64 y unit)"

definition double_of :: "int \<Rightarrow> cfloat" where
  "double_of x = round_to double_t (of_int x)"

section \<open>TimeDelta\<close>

datatype TimeDelta = TimeDelta (td_microseconds: int)

definition TimeDelta_Zero :: TimeDelta where
  "TimeDelta_Zero = TimeDelta 0"

definition TimeDelta_PlusInfinity :: TimeDelta where
  "TimeDelta_PlusInfinity = TimeDelta kPlusInfinityVal"

definition TimeDelta_MinusInfinity :: TimeDelta where
  "TimeDelta_MinusInfinity = TimeDelta kMinusInfinityVal"

definition TimeDelta_seconds :: "target \<Rightarrow> ctype \<Rightarrow> int \<Rightarrow> TimeDelta result" where
  "TimeDelta_seconds tg T s =
     rbind (checked_unit tg GtOp (kMinusInfinityVal sdiv 1000000) (kPlusInfinityVal sdiv 1000000) T (IntV s) 1000000)
       (\<lambda>x. Inr (TimeDelta x))"

definition TimeDelta_ms :: "target \<Rightarrow> ctype \<Rightarrow> int \<Rightarrow> TimeDelta result" where
  "TimeDelta_ms tg T milliseconds =
     rbind (checked_unit tg GtOp (kMinusInfinityVal sdiv 1000) (kPlusInfinityVal sdiv 1000) T (IntV milliseconds) 1000)
       (\<lambda>x. Inr (TimeDelta x))"

definition TimeDelta_us :: "target \<Rightarrow> ctype \<Rightarrow> int \<Rightarrow> TimeDelta result" where
  "TimeDelta_us tg T microseconds =
     rbind (checked_unit tg GtOp kMinusInfinityVal kPlusInfinityVal T (IntV microseconds) 1) (\<lambda>x. Inr (TimeDelta x))"

definition TimeDelta_us_float :: "target \<Rightarrow> ctype \<Rightarrow> cfloat \<Rightarrow> TimeDelta result" where
  "TimeDelta_us_float tg T microseconds =
     (if cf_eq microseconds (Infinite False) then Inr TimeDelta_PlusInfinity
      else if cf_eq microseconds (Infinite True) then Inr TimeDelta_MinusInfinity
      else rbind (checked_float tg GtOp kMinusInfinityVal T microseconds) (\<lambda>x. Inr (TimeDelta x)))"

definition TimeDelta_seconds_float :: "target \<Rightarrow> cfloat \<Rightarrow> TimeDelta result" where
  \<comment> \<open>the product with a \<open>double\<close> constant is a \<open>double\<close> for either instance\<close>
  "TimeDelta_seconds_float tg s = TimeDelta_us_float tg double_t (cf_mul double_t s (Finite 1000000))"

definition TimeDelta_ms_float :: "target \<Rightarrow> cfloat \<Rightarrow> TimeDelta result" where
  "TimeDelta_ms_float tg milliseconds = TimeDelta_us_float tg double_t (cf_mul double_t milliseconds (Finite 1000))"

definition TimeDelta_IsZero :: "TimeDelta \<Rightarrow> bool" where
  "TimeDelta_IsZero d = (td_microseconds d = 0)"

definition TimeDelta_IsInfinite :: "TimeDelta \<Rightarrow> bool" where
  "TimeDelta_IsInfinite d = (td_microseconds d = kPlusInfinityVal \<or> td_microseconds d = kMinusInfinityVal)"

definition TimeDelta_IsFinite :: "TimeDelta \<Rightarrow> bool" where
  "TimeDelta_IsFinite d = (\<not> TimeDelta_IsInfinite d)"

definition TimeDelta_IsPlusInfinity :: "TimeDelta \<Rightarrow> bool" where
  "TimeDelta_IsPlusInfinity d = (td_microseconds d = kPlusInfinityVal)"

definition TimeDelta_IsMinusInfinity :: "TimeDelta \<Rightarrow> bool" where
  "TimeDelta_IsMinusInfinity d = (td_microseconds d = kMinusInfinityVal)"

definition td_us :: "target \<Rightarrow> ctype \<Rightarrow> TimeDelta \<Rightarrow> int result" where
  "td_us tg T d = rbind (dcheck tg (TimeDelta_IsFinite d)) (\<lambda>_. cast_int tg T int64_t (IntV (td_microseconds d)))"

definition td_seconds :: "target \<Rightarrow> ctype \<Rightarrow> TimeDelta \<Rightarrow> int result" where
  "td_seconds tg T d =
     rbind (td_us tg int64_t d) (\<lambda>u. rbind (round_div u (if u \<ge> 0 then 500000 else - 500000) 1000000)
       (\<lambda>x. cast_int tg T int64_t (IntV x)))"

definition td_ms :: "target \<Rightarrow> ctype \<Rightarrow> TimeDelta \<Rightarrow> int result" where
  "td_ms tg T d =
     rbind (td_us tg int64_t d) (\<lambda>u. rbind (round_div u (if u \<ge> 0 then 500 else - 500) 1000)
       (\<lambda>x. cast_int tg T int64_t (IntV x)))"

definition td_ns :: "target \<Rightarrow> ctype \<Rightarrow> TimeDelta \<Rightarrow> int result" where
  "td_ns tg T d =
     rbind (td_us tg int64_t d) (\<lambda>u.
     rbind (dcheck tg (SafeCmp (ptr_bytes tg) GeOp int64_t T (IntV u) (IntV (imin T sdiv 1000)))) (\<lambda>_.
     rbind (dcheck tg (SafeCmp (ptr_bytes tg) LeOp int64_t T (IntV u) (IntV (imax T sdiv 1000)))) (\<lambda>_.
     rbind (c_int64 (u * 1000)) (\<lambda>x. cast_int tg T int64_t (IntV x)))))"

definition td_us_float :: "ctype \<Rightarrow> TimeDelta \<Rightarrow> cfloat" where
  "td_us_float T d =
     (if TimeDelta_IsPlusInfinity d then Infinite False
      else if TimeDelta_IsMinusInfinity d then Infinite True
      else round_to T (of_int (td_microseconds d)))"

definition td_seconds_float :: "ctype \<Rightarrow> TimeDelta \<Rightarrow> cfloat" where
  "td_seconds_float T d = cf_conv T (cf_mul double_t (td_us_float T d) (round_to double_t (1 / 1000000)))"

definition td_ms_float :: "ctype \<Rightarrow> TimeDelta \<Rightarrow> cfloat" where
  "td_ms_float T d = cf_conv T (cf_mul double_t (td_us_float T d) (round_to double_t (1 / 1000)))"

definition td_ns_float :: "ctype \<Rightarrow> TimeDelta \<Rightarrow> cfloat" where
  "td_ns_float T d = cf_conv T (cf_mul double_t (td_us_float T d) (Finite 1000))"

definition TimeDelta_Abs :: "target \<Rightarrow> TimeDelta \<Rightarrow> TimeDelta result" where
  "TimeDelta_Abs tg d =
     rbind (td_us tg int64_t d) (\<lambda>u. rbind (c_int64 \<bar>u\<bar>) (\<lambda>v. TimeDelta_us tg int64_t v))"

definition TimeDelta_plus :: "target \<Rightarrow> TimeDelta \<Rightarrow> TimeDelta \<Rightarrow> TimeDelta result" where
  "TimeDelta_plus tg a b =
     rbind (td_us tg int64_t a) (\<lambda>x. rbind (td_us tg int64_t b) (\<lambda>y.
     rbind (c_int64 (x + y)) (TimeDelta_us tg int64_t)))"

definition TimeDelta_minus :: "target \<Rightarrow> TimeDelta \<Rightarrow> TimeDelta \<Rightarrow> TimeDelta result" where
  "TimeDelta_minus tg a b =
     rbind (td_us tg int64_t a) (\<lambda>x. rbind (td_us tg int64_t b) (\<lambda>y.
     rbind (c_int64 (x - y)) (TimeDelta_us tg int64_t)))"

definition TimeDelta_minus_assign :: "target \<Rightarrow> TimeDelta \<Rightarrow> TimeDelta \<Rightarrow> TimeDelta result" where
  "TimeDelta_minus_assign tg a b =
     rbind (td_us tg int64_t b) (\<lambda>y. rbind (c_int64 (td_microseconds a - y)) (\<lambda>z. Inr (TimeDelta z)))"

definition TimeDelta_plus_assign :: "target \<Rightarrow> TimeDelta \<Rightarrow> TimeDelta \<Rightarrow> TimeDelta result" where
  "TimeDelta_plus_assign tg a b =
     rbind (td_us tg int64_t b) (\<lambda>y. rbind (c_int64 (td_microseconds a + y)) (\<lambda>z. Inr (TimeDelta z)))"

definition TimeDelta_ratio :: "TimeDelta \<Rightarrow> TimeDelta \<Rightarrow> cfloat" where
  "TimeDelta_ratio a b = cf_div double_t (td_us_float double_t a) (td_us_float double_t b)"

definition TimeDelta_cmp :: "cmp \<Rightarrow> TimeDelta \<Rightarrow> TimeDelta \<Rightarrow> bool" where
  "TimeDelta_cmp p a b = int_cmp p (td_microseconds a) (td_microseconds b)"

definition TimeDelta_times_double :: "target \<Rightarrow> TimeDelta \<Rightarrow> cfloat \<Rightarrow> TimeDelta result" where
  "TimeDelta_times_double tg d scalar =
     rbind (td_us tg int64_t d) (\<lambda>u. TimeDelta_us_float tg double_t (cf_round (cf_mul double_t (double_of u) scalar)))"

definition TimeDelta_times :: "target \<Rightarrow> TimeDelta \<Rightarrow> int \<Rightarrow> TimeDelta result" where
  "TimeDelta_times tg d scalar =
     rbind (td_us tg int64_t d) (\<lambda>u. rbind (c_int64 (u * scalar)) (TimeDelta_us tg int64_t))"

definition TimeDelta_div :: "target \<Rightarrow> TimeDelta \<Rightarrow> int \<Rightarrow> TimeDelta result" where
  "TimeDelta_div tg d scalar =
     rbind (td_us tg int64_t d) (\<lambda>u. rbind (c_div64 u scalar) (TimeDelta_us tg int64_t))"

section \<open>Timestamp\<close>

datatype Timestamp = Timestamp (ts_microseconds: int)

definition Timestamp_Infinity :: Timestamp where
  "Timestamp_Infinity = Timestamp kPlusInfinityVal"

definition Timestamp_seconds :: "target \<Rightarrow> ctype \<Rightarrow> int \<Rightarrow> Timestamp result" where
  "Timestamp_seconds tg T s =
     rbind (checked_unit tg GeOp 0 (kPlusInfinityVal sdiv 1000000) T (IntV s) 1000000) (\<lambda>x. Inr (Timestamp x))"

definition Timestamp_ms :: "target \<Rightarrow> ctype \<Rightarrow> int \<Rightarrow> Timestamp result" where
  "Timestamp_ms tg T milliseconds =
     rbind (checked_unit tg GeOp 0 (kPlusInfinityVal sdiv 1000) T (IntV milliseconds) 1000) (\<lambda>x. Inr (Timestamp x))"

definition Timestamp_us :: "target \<Rightarrow> ctype \<Rightarrow> int \<Rightarrow> Timestamp result" where
  "Timestamp_us tg T microseconds =
     rbind (checked_unit tg GeOp 0 kPlusInfinityVal T (IntV microseconds) 1) (\<lambda>x. Inr (Timestamp x))"

definition Timestamp_us_float :: "target \<Rightarrow> ctype \<Rightarrow> cfloat \<Rightarrow> Timestamp result" where
  "Timestamp_us_float tg T microseconds =
     (if cf_eq microseconds (Infinite False) then Inr Timestamp_Infinity
      else rbind (checked_float tg GeOp 0 T microseconds) (\<lambda>x. Inr (Timestamp x)))"

definition Timestamp_seconds_float :: "target \<Rightarrow> cfloat \<Rightarrow> Timestamp result" where
  "Timestamp_seconds_float tg s = Timestamp_us_float tg double_t (cf_mul double_t s (Finite 1000000))"

definition Timestamp_ms_float :: "target \<Rightarrow> cfloat \<Rightarrow> Timestamp result" where
  "Timestamp_ms_float tg milliseconds = Timestamp_us_float tg double_t (cf_mul double_t milliseconds (Finite 1000))"

definition Timestamp_IsInfinite :: "Timestamp \<Rightarrow> bool" where
  "Timestamp_IsInfinite t = (ts_microseconds t = kPlusInfinityVal)"

definition Timestamp_IsFinite :: "Timestamp \<Rightarrow> bool" where
  "Timestamp_IsFinite t = (\<not> Timestamp_IsInfinite t)"

definition ts_us :: "target \<Rightarrow> ctype \<Rightarrow> Timestamp \<Rightarrow> int result" where
  "ts_us tg T t = rbind (dcheck tg (Timestamp_IsFinite t)) (\<lambda>_. cast_int tg T int64_t (IntV (ts_microseconds t)))"

definition ts_seconds :: "target \<Rightarrow> ctype \<Rightarrow> Timestamp \<Rightarrow> int result" where
  "ts_seconds tg T t =
     rbind (ts_us tg int64_t t) (\<lambda>u. rbind (round_div u 500000 1000000) (\<lambda>x. cast_int tg T int64_t (IntV x)))"

definition ts_ms :: "target \<Rightarrow> ctype \<Rightarrow> Timestamp \<Rightarrow> int result" where
  "ts_ms tg T t =
     rbind (ts_us tg int64_t t) (\<lambda>u. rbind (round_div u 500 1000) (\<lambda>x. cast_int tg T int64_t (IntV x)))"

definition ts_us_float :: "ctype \<Rightarrow> Timestamp \<Rightarrow> cfloat" where
  "ts_us_float T t =
     (if Timestamp_IsInfinite t then Infinite False else round_to T (of_int (ts_microseconds t)))"

definition ts_seconds_float :: "ctype \<Rightarrow> Timestamp \<Rightarrow> cfloat" where
  "ts_seconds_float T t = cf_conv T (cf_mul double_t (ts_us_float T t) (round_to double_t (1 / 1000000)))"

definition ts_ms_float :: "ctype \<Rightarrow> Timestamp \<Rightarrow> cfloat" where
  "ts_ms_float T t = cf_conv T (cf_mul double_t (ts_us_float T t) (round_to double_t (1 / 1000)))"

definition Timestamp_diff :: "target \<Rightarrow> Timestamp \<Rightarrow> Timestamp \<Rightarrow> TimeDelta result" where
  "Timestamp_diff tg a b =
     rbind (ts_us tg int64_t a) (\<lambda>x. rbind (ts_us tg int64_t b) (\<lambda>y.
     rbind (c_int64 (x - y)) (TimeDelta_us tg int64_t)))"

definition Timestamp_minus :: "target \<Rightarrow> Timestamp \<Rightarrow> TimeDelta \<Rightarrow> Timestamp result" where
  "Timestamp_minus tg t d =
     rbind (ts_us tg int64_t t) (\<lambda>x. rbind (td_us tg int64_t d) (\<lambda>y.
     rbind (c_int64 (x - y)) (Timestamp_us tg int64_t)))"

definition Timestamp_plus :: "target \<Rightarrow> Timestamp \<Rightarrow> TimeDelta \<Rightarrow> Timestamp result" where
  "Timestamp_plus tg t d =
     rbind (ts_us tg int64_t t) (\<lambda>x. rbind (td_us tg int64_t d) (\<lambda>y.
     rbind (c_int64 (x + y)) (Timestamp_us tg int64_t)))"

definition Timestamp_minus_assign :: "target \<Rightarrow> Timestamp \<Rightarrow> TimeDelta \<Rightarrow> Timestamp result" where
  "Timestamp_minus_assign tg t d =
     rbind (td_us tg int64_t d) (\<lambda>y. rbind (c_int64 (ts_microseconds t - y)) (\<lambda>z. Inr (Timestamp z)))"

definition Timestamp_plus_assign :: "target \<Rightarrow> Timestamp \<Rightarrow> TimeDelta \<Rightarrow> Timestamp result" where
  "Timestamp_plus_assign tg t d =
     rbind (td_us tg int64_t d) (\<lambda>y. rbind (c_int64 (ts_microseconds t + y)) (\<lambda>z. Inr (Timestamp z)))"

definition Timestamp_cmp :: "cmp \<Rightarrow> Timestamp \<Rightarrow> Timestamp \<Rightarrow> bool" where
  "Timestamp_cmp p a b = int_cmp p (ts_microseconds a) (ts_microseconds b)"

section \<open>DataSize\<close>

datatype DataSize = DataSize (ds_count: int)

definition DataSize_Zero :: DataSize where
  "DataSize_Zero = DataSize 0"

definition DataSize_Infinity :: DataSize where
  "DataSize_Infinity = DataSize kPlusInfinityVal"

definition DataSize_bytes :: "target \<Rightarrow> ctype \<Rightarrow> int \<Rightarrow> DataSize result" where
  "DataSize_bytes tg T bytes =
     rbind (checked_unit tg GeOp 0 kPlusInfinityVal T (IntV bytes) 1) (\<lambda>x. Inr (DataSize x))"

definition DataSize_bytes_float :: "target \<Rightarrow> ctype \<Rightarrow> cfloat \<Rightarrow> DataSize result" where
  "DataSize_bytes_float tg T bytes =
     (if cf_eq bytes (Infinite False) then Inr DataSize_Infinity
      else rbind (checked_float tg GeOp 0 T bytes) (\<lambda>x. Inr (DataSize x)))"

definition DataSize_IsZero :: "DataSize \<Rightarrow> bool" where
  "DataSize_IsZero s = (ds_count s = 0)"

definition DataSize_IsInfinite :: "DataSize \<Rightarrow> bool" where
  "DataSize_IsInfinite s = (ds_count s = kPlusInfinityVal)"

definition DataSize_IsFinite :: "DataSize \<Rightarrow> bool" where
  "DataSize_IsFinite s = (\<not> DataSize_IsInfinite s)"

definition ds_bytes :: "target \<Rightarrow> ctype \<Rightarrow> DataSize \<Rightarrow> int result" where
  "ds_bytes tg T s = rbind (dcheck tg (DataSize_IsFinite s)) (\<lambda>_. cast_int tg T int64_t (IntV (ds_count s)))"

definition ds_bytes_float :: "ctype \<Rightarrow> DataSize \<Rightarrow> cfloat" where
  "ds_bytes_float T s = (if DataSize_IsInfinite s then Infinite False else round_to T (of_int (ds_count s)))"

definition DataSize_minus :: "target \<Rightarrow> DataSize \<Rightarrow> DataSize \<Rightarrow> DataSize result" where
  "DataSize_minus tg a b =
     rbind (ds_bytes tg int64_t a) (\<lambda>x. rbind (ds_bytes tg int64_t b) (\<lambda>y.
     rbind (c_int64 (x - y)) (DataSize_bytes tg int64_t)))"

definition DataSize_plus :: "target \<Rightarrow> DataSize \<Rightarrow> DataSize \<Rightarrow> DataSize result" where
  "DataSize_plus tg a b =
     rbind (ds_bytes tg int64_t a) (\<lambda>x. rbind (ds_bytes tg int64_t b) (\<lambda>y.
     rbind (c_int64 (x + y)) (DataSize_bytes tg int64_t)))"

definition DataSize_minus_assign :: "target \<Rightarrow> DataSize \<Rightarrow> DataSize \<Rightarrow> DataSize result" where
  "DataSize_minus_assign tg a b =
     rbind (ds_bytes tg int64_t b) (\<lambda>y. rbind (c_int64 (ds_count a - y)) (\<lambda>z. Inr (DataSize z)))"

definition DataSize_plus_assign :: "target \<Rightarrow> DataSize \<Rightarrow> DataSize \<Rightarrow> DataSize result" where
  "DataSize_plus_assign tg a b =
     rbind (ds_bytes tg int64_t b) (\<lambda>y. rbind (c_int64 (ds_count a + y)) (\<lambda>z. Inr (DataSize z)))"

definition DataSize_ratio :: "DataSize \<Rightarrow> DataSize \<Rightarrow> cfloat" where
  "DataSize_ratio a b = cf_div double_t (ds_bytes_float double_t a) (ds_bytes_float double_t b)"

definition DataSize_cmp :: "cmp \<Rightarrow> DataSize \<Rightarrow> DataSize \<Rightarrow> bool" where
  "DataSize_cmp p a b = int_cmp p (ds_count a) (ds_count b)"

definition DataSize_times_double :: "target \<Rightarrow> DataSize \<Rightarrow> cfloat \<Rightarrow> DataSize result" where
  "DataSize_times_double tg s scalar =
     rbind (ds_bytes tg int64_t s)
       (\<lambda>x. DataSize_bytes_float tg double_t (cf_round (cf_mul double_t (double_of x) scalar)))"

definition DataSize_times :: "target \<Rightarrow> DataSize \<Rightarrow> int \<Rightarrow> DataSize result" where
  "DataSize_times tg s scalar =
     rbind (ds_bytes tg int64_t s) (\<lambda>x. rbind (c_int64 (x * scalar)) (DataSize_bytes tg int64_t))"

definition DataSize_div :: "target \<Rightarrow> DataSize \<Rightarrow> int \<Rightarrow> DataSize result" where
  "DataSize_div tg s scalar =
     rbind (ds_bytes tg int64_t s) (\<lambda>x. rbind (c_div64 x scalar) (DataSize_bytes tg int64_t))"

section \<open>DataRate\<close>

datatype DataRate = DataRate (dr_bits_per_sec: int)

definition Microbits :: "target \<Rightarrow> DataSize \<Rightarrow> int result" where
  "Microbits tg sz =
     rbind (ds_bytes tg int64_t sz) (\<lambda>x.
     rbind (dcheck_op tg LeOp int64_t (IntV x) (imax int64_t sdiv 8000000)) (\<lambda>_.
     rbind (ds_bytes tg int64_t sz) (\<lambda>y. c_int64 (y * 8000000))))"

definition DataRate_Zero :: DataRate where
  "DataRate_Zero = DataRate 0"

definition DataRate_Infinity :: DataRate where
  "DataRate_Infinity = DataRate kPlusInfinityVal"

definition DataRate_bps :: "target \<Rightarrow> ctype \<Rightarrow> int \<Rightarrow> DataRate result" where
  "DataRate_bps tg T bits_per_second =
     rbind (checked_unit tg GeOp 0 kPlusInfinityVal T (IntV bits_per_second) 1) (\<lambda>x. Inr (DataRate x))"

definition DataRate_kbps :: "target \<Rightarrow> ctype \<Rightarrow> int \<Rightarrow> DataRate result" where
  "DataRate_kbps tg T kilobits_per_sec =
     rbind (checked_unit tg GeOp 0 (kPlusInfinityVal sdiv 1000) T (IntV kilobits_per_sec) 1000)
       (DataRate_bps tg int64_t)"

definition DataRate_bps_float :: "target \<Rightarrow> ctype \<Rightarrow> cfloat \<Rightarrow> DataRate result" where
  "DataRate_bps_float tg T bits_per_second =
     (if cf_eq bits_per_second (Infinite False) then Inr DataRate_Infinity
      else rbind (checked_float tg GeOp 0 T bits_per_second) (\<lambda>x. Inr (DataRate x)))"

definition DataRate_kbps_float :: "target \<Rightarrow> cfloat \<Rightarrow> DataRate result" where
  "DataRate_kbps_float tg k = DataRate_bps_float tg double_t (cf_mul double_t k (Finite 1000))"

definition DataRate_IsZero :: "DataRate \<Rightarrow> bool" where
  "DataRate_IsZero r = (dr_bits_per_sec r = 0)"

definition DataRate_IsInfinite :: "DataRate \<Rightarrow> bool" where
  "DataRate_IsInfinite r = (dr_bits_per_sec r = kPlusInfinityVal)"

definition DataRate_IsFinite :: "DataRate \<Rightarrow> bool" where
  "DataRate_IsFinite r = (\<not> DataRate_IsInfinite r)"

definition dr_bps :: "target \<Rightarrow> ctype \<Rightarrow> DataRate \<Rightarrow> int result" where
  "dr_bps tg T r = rbind (dcheck tg (DataRate_IsFinite r)) (\<lambda>_. cast_int tg T int64_t (IntV (dr_bits_per_sec r)))"

definition dr_kbps :: "target \<Rightarrow> ctype \<Rightarrow> DataRate \<Rightarrow> int result" where
  "dr_kbps tg T r =
     rbind (dr_bps tg int64_t r) (\<lambda>u. rbind (round_div u 500 1000) (\<lambda>x. cast_int tg T int64_t (IntV x)))"

definition dr_bps_float :: "ctype \<Rightarrow> DataRate \<Rightarrow> cfloat" where
  "dr_bps_float T r = (if DataRate_IsInfinite r then Infinite False else round_to T (of_int (dr_bits_per_sec r)))"

definition dr_kbps_float :: "ctype \<Rightarrow> DataRate \<Rightarrow> cfloat" where
  "dr_kbps_float T r = cf_conv T (cf_mul double_t (dr_bps_float T r) (round_to double_t (1 / 1000)))"

definition DataRate_ratio :: "DataRate \<Rightarrow> DataRate \<Rightarrow> cfloat" where
  "DataRate_ratio a b = cf_div double_t (dr_bps_float double_t a) (dr_bps_float double_t b)"

definition DataRate_cmp :: "cmp \<Rightarrow> DataRate \<Rightarrow> DataRate \<Rightarrow> bool" where
  "DataRate_cmp p a b = int_cmp p (dr_bits_per_sec a) (dr_bits_per_sec b)"

definition DataRate_times_double :: "target \<Rightarrow> DataRate \<Rightarrow> cfloat \<Rightarrow> DataRate result" where
  "DataRate_times_double tg r scalar =
     rbind (dr_bps tg int64_t r)
       (\<lambda>x. DataRate_bps_float tg double_t (cf_round (cf_mul double_t (double_of x) scalar)))"

definition DataRate_times :: "target \<Rightarrow> DataRate \<Rightarrow> int \<Rightarrow> DataRate result" where
  "DataRate_times tg r scalar =
     rbind (dr_bps tg int64_t r) (\<lambda>x. rbind (c_int64 (x * scalar)) (DataRate_bps tg int64_t))"

definition size_over_duration :: "target \<Rightarrow> DataSize \<Rightarrow> TimeDelta \<Rightarrow> DataRate result" where
  "size_over_duration tg sz duration =
     rbind (Microbits tg sz) (\<lambda>m. rbind (td_us tg int64_t duration) (\<lambda>u.
     rbind (c_div64 m u) (DataRate_bps tg int64_t)))"

definition size_over_rate :: "target \<Rightarrow> DataSize \<Rightarrow> DataRate \<Rightarrow> TimeDelta result" where
  "size_over_rate tg sz rate =
     rbind (Microbits tg sz) (\<lambda>m. rbind (dr_bps tg int64_t rate) (\<lambda>b.
     rbind (c_div64 m b) (TimeDelta_us tg int64_t)))"

definition rate_times_duration :: "target \<Rightarrow> DataRate \<Rightarrow> TimeDelta \<Rightarrow> DataSize result" where
  "rate_times_duration tg rate duration =
     rbind (dr_bps tg int64_t rate) (\<lambda>b. rbind (td_us tg int64_t duration) (\<lambda>u.
     rbind (c_int64 (b * u)) (\<lambda>microbits.
     rbind (round_div microbits 4000000 8000000) (DataSize_bytes tg int64_t))))"

section \<open>Lemmas\<close>

lemma int64_range: "in_type int64_t x \<longleftrightarrow> - 9223372036854775808 \<le> x \<and> x \<le> 9223372036854775807"
  by (simp add: limit_defs)

lemma kInfinityVals: "kPlusInfinityVal = 9223372036854775807" "kMinusInfinityVal = - 9223372036854775808"
  by (simp_all add: kPlusInfinityVal_def kMinusInfinityVal_def limit_defs)

lemma c_int64_ok: "in_type int64_t x \<Longrightarrow> c_int64 x = Inr x"
  by (simp add: c_int64_def)

lemma dcheck_True [simp]: "dcheck tg True = Inr ()"
  by (simp add: dcheck_def)

lemma dcheck_eq_Inr: "dcheck tg b = Inr u \<longleftrightarrow> (dcheck_on tg \<longrightarrow> b)"
  by (simp add: dcheck_def rtc_dcheck_eq_Inr)

lemma dcheck_op_int:
  "\<not> is_iec559 T \<Longrightarrow> in_type T x \<Longrightarrow> in_type int64_t l \<Longrightarrow> dcheck_op tg p T (IntV x) l = dcheck tg (int_cmp p x l)"
  by (simp add: dcheck_op_def SafeCmp_correct del: SafeCmp.simps)

lemma cast_int_ok:
  "\<not> is_iec559 Dst \<Longrightarrow> \<not> is_iec559 Src \<Longrightarrow> in_type Src x \<Longrightarrow> in_type Dst x \<Longrightarrow> cast_int tg Dst Src (IntV x) = Inr x"
  by (simp add: cast_int_def dchecked_cast_int)

lemma cast_int64 [simp]: "in_type int64_t x \<Longrightarrow> cast_int tg int64_t int64_t (IntV x) = Inr x"
  by (simp add: cast_int_ok)

lemma checked_unit_ok:
  assumes "\<not> is_iec559 T" "in_type T x" "int_cmp p x low" "x < high" "in_type int64_t low" "in_type int64_t high"
    "in_type int64_t x" "in_type int64_t (x * factor)"
  shows "checked_unit tg p low high T (IntV x) factor = Inr (x * factor)"
  using assms by (simp add: checked_unit_def dcheck_op_int cast_int_ok c_int64_ok)

lemma c_div64_pos:
  assumes "0 \<le> a" "0 < b" "in_type int64_t a"
  shows "c_div64 a b = Inr (a div b)"
proof -
  have "0 \<le> a div b" "a div b \<le> a" using assms by (simp_all add: pos_imp_zdiv_nonneg_iff div_le_dividend_int)
  then show ?thesis using assms by (simp add: c_div64_def c_int64_def sdiv_nonneg_eq in_type_def) (simp add: limit_defs)
qed

lemma round_div_pos:
  "0 \<le> x + h \<Longrightarrow> 0 < u \<Longrightarrow> in_type int64_t (x + h) \<Longrightarrow> round_div x h u = Inr ((x + h) div u)"
  by (simp add: round_div_def c_int64_ok c_div64_pos)

lemma sdiv_minus: "- a sdiv b = - (a sdiv b)" for a b :: int
  by (simp add: signed_divide_int_def sgn_if)

lemma c_div64_neg:
  assumes "a < 0" "0 < b" "in_type int64_t a"
  shows "c_div64 a b = Inr (- (- a div b))"
proof -
  have "0 \<le> - a div b" "- a div b \<le> - a" using assms by (simp_all add: pos_imp_zdiv_nonneg_iff div_le_dividend_int)
  moreover have "a sdiv b = - (- a div b)" using sdiv_minus [of "- a" b] assms sdiv_nonneg_eq [of "- a" b] by simp
  ultimately show ?thesis using assms by (simp add: c_div64_def c_int64_def in_type_def) (simp add: limit_defs)
qed

definition round_half_away :: "int \<Rightarrow> int \<Rightarrow> int" where
  \<comment> \<open>the multiple of \<open>u\<close> nearest to \<open>x\<close>, divided by \<open>u\<close>; halves go away from zero\<close>
  "round_half_away x u = (if 0 \<le> x then (x + u div 2) div u else - ((- x + u div 2) div u))"

lemma round_half_away_near:
  assumes "0 < u" "even u"
  shows "2 * \<bar>x - u * round_half_away x u\<bar> \<le> u"
proof -
  have near: "2 * \<bar>y - u * ((y + u div 2) div u)\<bar> \<le> u" for y
  proof -
    define q r h where "q = u * ((y + u div 2) div u)" and "r = (y + u div 2) mod u" and "h = u div 2"
    have "q = y + h - r" using minus_mod_eq_mult_div [of "y + u div 2" u] by (simp add: q_def r_def h_def)
    moreover have "0 \<le> r" "r < u" using assms(1) by (simp_all add: r_def)
    moreover have "2 * h = u" using assms(2) by (simp add: h_def)
    ultimately have "2 * \<bar>y - q\<bar> \<le> u" by (simp add: abs_if)
    then show ?thesis by (simp add: q_def)
  qed
  show ?thesis
  proof (cases "0 \<le> x")
    case True
    then show ?thesis using near [of x] by (simp add: round_half_away_def)
  next
    case False
    have "x - u * - k = - (- x - u * k)" for k by simp
    then show ?thesis using near [of "- x"] False by (simp only: round_half_away_def if_False abs_minus_cancel)
  qed
qed

lemma round_half_away_exact: "0 < u \<Longrightarrow> even u \<Longrightarrow> round_half_away (k * u) u = k"
proof -
  assume u: "0 < u" "even u"
  have "(j * u + u div 2) div u = j" for j using u by (simp add: div_add1_eq)
  from this [of k] this [of "- k"] show ?thesis using u(1) by (simp add: round_half_away_def zero_le_mult_iff)
qed

lemma round_div_signed:
  assumes "0 < u" "even u" "in_type int64_t (x + h)" "h = (if x \<ge> 0 then u div 2 else - (u div 2))"
  shows "round_div x h u = Inr (round_half_away x u)"
proof (cases "0 \<le> x")
  case True
  have "0 \<le> u div 2" using assms(1) by simp
  then show ?thesis using True assms by (simp add: round_div_pos round_half_away_def)
next
  case False
  have "0 < u div 2" using assms(1,2) by (auto elim: evenE)
  then show ?thesis using False assms by (simp add: round_div_def c_int64_ok c_div64_neg round_half_away_def)
qed

lemma round_half_away_range: "0 < u \<Longrightarrow> even u \<Longrightarrow> in_type int64_t x \<Longrightarrow> u \<le> 1000000 \<Longrightarrow> 1000 \<le> u \<Longrightarrow>
  in_type int64_t (round_half_away x u)"
proof -
  assume a: "0 < u" "even u" "in_type int64_t x" "u \<le> 1000000" "1000 \<le> u"
  have "2 * \<bar>x - u * round_half_away x u\<bar> \<le> u" using round_half_away_near [OF a(1,2)] .
  moreover have "2 * \<bar>x - v\<bar> \<le> u \<Longrightarrow> \<bar>v\<bar> \<le> 9223372036854775808 + u" for v
    using a(1,3) unfolding int64_range by (simp add: abs_if split: if_splits)
  ultimately have "\<bar>u * round_half_away x u\<bar> \<le> 9223372036854775808 + u" by blast
  then have "u * \<bar>round_half_away x u\<bar> \<le> 9223372036854775808 + u" using a(1) by (simp add: abs_mult)
  moreover have "1000 * \<bar>round_half_away x u\<bar> \<le> u * \<bar>round_half_away x u\<bar>" using a(5) by (intro mult_right_mono) simp_all
  ultimately have "1000 * \<bar>round_half_away x u\<bar> \<le> 9223372036855775808" using a(4) by linarith
  then show ?thesis unfolding int64_range by linarith
qed

section \<open>The contract of a bounded quantity\<close>

fun unit_total :: "('u \<Rightarrow> 'u \<Rightarrow> 'u result) \<Rightarrow> 'u \<Rightarrow> 'u list \<Rightarrow> 'u result" where
  "unit_total add acc [] = Inr acc"
| "unit_total add acc (x # xs) = rbind (add acc x) (\<lambda>a. unit_total add a xs)"

locale unit_value =
  fixes make :: "int \<Rightarrow> 'u result" and raw :: "'u \<Rightarrow> int" and get :: "'u \<Rightarrow> int result" and low high :: int
  assumes low_high: "in_type int64_t low" "in_type int64_t high"
    and make_ok: "low \<le> x \<Longrightarrow> x \<le> high \<Longrightarrow> \<exists>u. make x = Inr u \<and> raw u = x"
    and get_ok: "low \<le> raw u \<Longrightarrow> raw u \<le> high \<Longrightarrow> get u = Inr (raw u)"
begin

lemma in_range: "low \<le> x \<Longrightarrow> x \<le> high \<Longrightarrow> in_type int64_t x"
  using low_high by (simp add: in_type_def)

lemma get_make: "low \<le> x \<Longrightarrow> x \<le> high \<Longrightarrow> rbind (make x) get = Inr x"
  using make_ok [of x] get_ok by fastforce

end

locale summable_unit = unit_value +
  fixes add :: "'a \<Rightarrow> 'a \<Rightarrow> 'a result"
  assumes add_ok: "low \<le> raw a \<Longrightarrow> raw a \<le> high \<Longrightarrow> low \<le> raw b \<Longrightarrow> raw b \<le> high \<Longrightarrow>
    add a b = rbind (c_int64 (raw a + raw b)) make"
begin

lemma add_exact:
  assumes "low \<le> raw a" "raw a \<le> high" "low \<le> raw b" "raw b \<le> high" "low \<le> raw a + raw b" "raw a + raw b \<le> high"
  shows "\<exists>c. add a b = Inr c \<and> raw c = raw a + raw b"
  using add_ok [OF assms(1-4)] make_ok [OF assms(5,6)] in_range [OF assms(5,6)] by (simp add: c_int64_ok)

lemma total_ok:
  assumes "low \<le> raw acc" "raw acc \<le> high" "list_all (\<lambda>u. low \<le> raw u \<and> raw u \<le> high) us"
    "\<And>n. low \<le> raw acc + sum_list (map raw (take n us)) \<and> raw acc + sum_list (map raw (take n us)) \<le> high"
  shows "\<exists>u. unit_total add acc us = Inr u \<and> raw u = raw acc + sum_list (map raw us)"
  using assms
proof (induction us arbitrary: acc)
  case Nil
  then show ?case by simp
next
  case (Cons x xs)
  have p: "low \<le> raw acc + raw x \<and> raw acc + raw x \<le> high" using Cons.prems(4) [of 1] by simp
  obtain c where c: "add acc x = Inr c" "raw c = raw acc + raw x" using add_exact [of acc x] Cons.prems p by auto
  have "low \<le> raw c + sum_list (map raw (take n xs)) \<and> raw c + sum_list (map raw (take n xs)) \<le> high" for n
    using Cons.prems(4) [of "Suc n"] c(2) by (simp add: add.assoc)
  then show ?case using Cons.IH [of c] Cons.prems(3) c p by (simp add: add.assoc)
qed

end

lemma td_us_ok:
  "kMinusInfinityVal < td_microseconds d \<Longrightarrow> td_microseconds d < kPlusInfinityVal \<Longrightarrow>
   td_us tg int64_t d = Inr (td_microseconds d)"
  by (simp add: td_us_def TimeDelta_IsFinite_def TimeDelta_IsInfinite_def) (simp add: kInfinityVals int64_range)

lemma ts_us_ok: "0 \<le> ts_microseconds t \<Longrightarrow> ts_microseconds t < kPlusInfinityVal \<Longrightarrow> ts_us tg int64_t t = Inr (ts_microseconds t)"
  by (simp add: ts_us_def Timestamp_IsFinite_def Timestamp_IsInfinite_def) (simp add: kInfinityVals int64_range)

lemma ds_bytes_ok: "0 \<le> ds_count s \<Longrightarrow> ds_count s < kPlusInfinityVal \<Longrightarrow> ds_bytes tg int64_t s = Inr (ds_count s)"
  by (simp add: ds_bytes_def DataSize_IsFinite_def DataSize_IsInfinite_def) (simp add: kInfinityVals int64_range)

lemma dr_bps_ok: "0 \<le> dr_bits_per_sec r \<Longrightarrow> dr_bits_per_sec r < kPlusInfinityVal \<Longrightarrow> dr_bps tg int64_t r = Inr (dr_bits_per_sec r)"
  by (simp add: dr_bps_def DataRate_IsFinite_def DataRate_IsInfinite_def) (simp add: kInfinityVals int64_range)

lemma TimeDelta_us_ok:
  "kMinusInfinityVal < x \<Longrightarrow> x < kPlusInfinityVal \<Longrightarrow> TimeDelta_us tg int64_t x = Inr (TimeDelta x)"
  using checked_unit_ok [of int64_t x GtOp kMinusInfinityVal kPlusInfinityVal 1 tg]
  by (simp add: TimeDelta_us_def) (simp add: kInfinityVals int64_range)

lemma nonneg_unit:
  "0 \<le> x \<Longrightarrow> x < kPlusInfinityVal \<Longrightarrow> checked_unit tg GeOp 0 kPlusInfinityVal int64_t (IntV x) 1 = Inr x"
  using checked_unit_ok [of int64_t x GeOp 0 kPlusInfinityVal 1 tg] by (simp add: kInfinityVals int64_range)

lemmas nonneg_make = Timestamp_us_def DataSize_bytes_def DataRate_bps_def nonneg_unit

interpretation td_unit: summable_unit "TimeDelta_us tg int64_t" td_microseconds "td_us tg int64_t"
    "kMinusInfinityVal + 1" "kPlusInfinityVal - 1" "TimeDelta_plus tg" for tg
  by unfold_locales
    (simp_all add: TimeDelta_us_ok td_us_ok TimeDelta_plus_def, simp_all add: kInfinityVals int64_range)

interpretation ds_unit: summable_unit "DataSize_bytes tg int64_t" ds_count "ds_bytes tg int64_t" 0
    "kPlusInfinityVal - 1" "DataSize_plus tg" for tg
  by unfold_locales (simp_all add: nonneg_make ds_bytes_ok DataSize_plus_def, simp_all add: kInfinityVals int64_range)

interpretation ts_unit: unit_value "Timestamp_us tg int64_t" ts_microseconds "ts_us tg int64_t" 0 "kPlusInfinityVal - 1" for tg
  by unfold_locales (simp_all add: nonneg_make ts_us_ok, simp_all add: kInfinityVals int64_range)

interpretation dr_unit: unit_value "DataRate_bps tg int64_t" dr_bits_per_sec "dr_bps tg int64_t" 0 "kPlusInfinityVal - 1" for tg
  by unfold_locales (simp_all add: nonneg_make dr_bps_ok, simp_all add: kInfinityVals int64_range)

lemma td_ms_value:
  assumes "\<bar>td_microseconds d\<bar> \<le> kPlusInfinityVal - 500"
  shows "td_ms tg int64_t d = Inr (round_half_away (td_microseconds d) 1000)"
proof -
  let ?u = "td_microseconds d"
  have r: "in_type int64_t ?u" "in_type int64_t (?u + (if ?u \<ge> 0 then 500 else - 500))"
    "kMinusInfinityVal < ?u" "?u < kPlusInfinityVal"
    using assms by (simp_all add: kInfinityVals int64_range abs_if split: if_splits)
  have "round_div ?u (if ?u \<ge> 0 then 500 else - 500) 1000 = Inr (round_half_away ?u 1000)"
    using r(2) by (intro round_div_signed) simp_all
  then show ?thesis using round_half_away_range [of 1000 ?u] r by (simp add: td_ms_def td_us_ok)
qed

lemma td_seconds_value:
  assumes "\<bar>td_microseconds d\<bar> \<le> kPlusInfinityVal - 500000"
  shows "td_seconds tg int64_t d = Inr (round_half_away (td_microseconds d) 1000000)"
proof -
  let ?u = "td_microseconds d"
  have r: "in_type int64_t ?u" "in_type int64_t (?u + (if ?u \<ge> 0 then 500000 else - 500000))"
    "kMinusInfinityVal < ?u" "?u < kPlusInfinityVal"
    using assms by (simp_all add: kInfinityVals int64_range abs_if split: if_splits)
  have "round_div ?u (if ?u \<ge> 0 then 500000 else - 500000) 1000000 = Inr (round_half_away ?u 1000000)"
    using r(2) by (intro round_div_signed) simp_all
  then show ?thesis using round_half_away_range [of 1000000 ?u] r by (simp add: td_seconds_def td_us_ok)
qed

lemma sdiv_limits:
  "kMinusInfinityVal sdiv 1000000 = - 9223372036854" "kPlusInfinityVal sdiv 1000000 = 9223372036854"
  "kMinusInfinityVal sdiv 1000 = - 9223372036854775" "kPlusInfinityVal sdiv 1000 = 9223372036854775"
  by (simp_all add: kInfinityVals signed_divide_int_def)

section \<open>Properties\<close>



text \<open>Reading a time difference in a coarser unit rounds to the nearest value, halves away from zero; only
  within half a unit of the limits does the rounding overflow.\<close>

theorem time_delta_rounding:
  assumes "\<bar>td_microseconds d\<bar> \<le> kPlusInfinityVal - 500000"
  shows "td_ms tg int64_t d = Inr (round_half_away (td_microseconds d) 1000) \<and>
    2 * \<bar>td_microseconds d - 1000 * round_half_away (td_microseconds d) 1000\<bar> \<le> 1000 \<and>
    td_seconds tg int64_t d = Inr (round_half_away (td_microseconds d) 1000000) \<and>
    2 * \<bar>td_microseconds d - 1000000 * round_half_away (td_microseconds d) 1000000\<bar> \<le> 1000000 \<and>
    td_ms tg int64_t (TimeDelta (kPlusInfinityVal - 1)) = Inl SignedOverflow"
proof (intro conjI)
  show "td_ms tg int64_t d = Inr (round_half_away (td_microseconds d) 1000)"
    using assms by (intro td_ms_value) (simp add: kInfinityVals)
  show "td_ms tg int64_t (TimeDelta (kPlusInfinityVal - 1)) = Inl SignedOverflow"
    using td_us_ok [of "TimeDelta (kPlusInfinityVal - 1)" tg]
    by (simp add: td_ms_def kInfinityVals round_div_def c_int64_def int64_range)
qed (use assms in \<open>simp_all add: td_seconds_value round_half_away_near\<close>)

theorem time_delta_rounding_witness:
  "td_ms \<lparr>ptr_bytes = 4, dcheck_on = False\<rparr> int64_t (TimeDelta (- 1500)) = Inr (- 2)"
  using time_delta_rounding [of "TimeDelta (- 1500)" "\<lparr>ptr_bytes = 4, dcheck_on = False\<rparr>"]
  by (simp add: kInfinityVals round_half_away_def)

text \<open>Adding up sizes is exact while the total stays below infinity, in any order and number of additions,
  and so is adding up time differences while every partial sum is finite.\<close>

theorem unit_sums_exact:
  assumes "list_all (\<lambda>s. 0 \<le> ds_count s) sizes" "sum_list (map ds_count sizes) < kPlusInfinityVal"
    and "list_all (\<lambda>d. kMinusInfinityVal < td_microseconds d \<and> td_microseconds d < kPlusInfinityVal) ds"
    and "\<And>n. kMinusInfinityVal < sum_list (map td_microseconds (take n ds)) \<and>
      sum_list (map td_microseconds (take n ds)) < kPlusInfinityVal"
  shows "unit_total (DataSize_plus tg) DataSize_Zero sizes = Inr (DataSize (sum_list (map ds_count sizes))) \<and>
    unit_total (TimeDelta_plus tg) TimeDelta_Zero ds = Inr (TimeDelta (sum_list (map td_microseconds ds)))"
proof
  have nn: "0 \<le> sum_list (map ds_count (drop n sizes))" "0 \<le> sum_list (map ds_count (take n sizes))" for n
    using assms(1) set_drop_subset [of n sizes] set_take_subset [of n sizes]
    by (auto intro!: sum_list_nonneg simp: list_all_iff subset_iff)
  have split: "sum_list (map ds_count sizes) = sum_list (map ds_count (take n sizes)) + sum_list (map ds_count (drop n sizes))" for n
    using append_take_drop_id [of n sizes] by (metis map_append sum_list_append)
  have part: "sum_list (map ds_count (take n sizes)) \<le> kPlusInfinityVal - 1" for n using split [of n] nn(1) [of n] assms(2) by linarith
  have "ds_count s \<le> kPlusInfinityVal - 1" if "s \<in> set sizes" for s
  proof -
    have "ds_count s \<le> sum_list (map ds_count sizes)"
      using that assms(1) by (intro member_le_sum_list) (auto simp: list_all_iff)
    then show ?thesis using assms(2) by simp
  qed
  then have "list_all (\<lambda>s. 0 \<le> ds_count s \<and> ds_count s \<le> kPlusInfinityVal - 1) sizes" using assms(1) by (simp add: list_all_iff)
  from ds_unit.total_ok [of DataSize_Zero sizes tg, OF _ _ this]
  obtain u where "unit_total (DataSize_plus tg) DataSize_Zero sizes = Inr u" "ds_count u = sum_list (map ds_count sizes)"
    using nn(2) part by (auto simp: DataSize_Zero_def kInfinityVals)
  then show "unit_total (DataSize_plus tg) DataSize_Zero sizes = Inr (DataSize (sum_list (map ds_count sizes)))"
    by (metis DataSize.collapse)
  have "list_all (\<lambda>d. kMinusInfinityVal + 1 \<le> td_microseconds d \<and> td_microseconds d \<le> kPlusInfinityVal - 1) ds"
    using assms(3) by (auto simp: list_all_iff add1_zle_eq)
  moreover have part: "kMinusInfinityVal + 1 \<le> td_microseconds TimeDelta_Zero + sum_list (map td_microseconds (take n ds)) \<and>
      td_microseconds TimeDelta_Zero + sum_list (map td_microseconds (take n ds)) \<le> kPlusInfinityVal - 1" for n
    using assms(4) [of n] by (simp add: TimeDelta_Zero_def)
  ultimately obtain u where u: "unit_total (TimeDelta_plus tg) TimeDelta_Zero ds = Inr u"
      "td_microseconds u = sum_list (map td_microseconds ds)"
    using td_unit.total_ok [of TimeDelta_Zero ds tg, OF _ _ _ part] by (auto simp: TimeDelta_Zero_def kInfinityVals)
  show "unit_total (TimeDelta_plus tg) TimeDelta_Zero ds = Inr (TimeDelta (sum_list (map td_microseconds ds)))"
    using u by (metis TimeDelta.collapse)
qed

theorem unit_sums_exact_witness:
  "unit_total (DataSize_plus \<lparr>ptr_bytes = 8, dcheck_on = True\<rparr>) DataSize_Zero [DataSize 3, DataSize 4] = Inr (DataSize 7)"
  using unit_sums_exact [of "[DataSize 3, DataSize 4]" "[]" "\<lparr>ptr_bytes = 8, dcheck_on = True\<rparr>"] by (simp add: kInfinityVals)

text \<open>Rates, sizes and durations fit together: the rate measured over a duration of up to four seconds,
  multiplied by the duration, gives the size back exactly, although the rate itself was rounded
  down.\<close>

theorem rate_recovers_size:
  assumes b: "0 \<le> bytes" "bytes \<le> 1152921504606" and t: "0 < us" "us \<le> 4000000"
  shows "rbind (size_over_duration tg (DataSize bytes) (TimeDelta us)) (\<lambda>r. rate_times_duration tg r (TimeDelta us)) =
    Inr (DataSize bytes)"
proof -
  let ?m = "bytes * 8000000" and ?r = "bytes * 8000000 div us"
  have m: "0 \<le> ?m" "?m \<le> 9223372036848000000" using b by simp_all
  have r: "0 \<le> ?r" "?r \<le> ?m" using m(1) t(1) by (simp_all add: pos_imp_zdiv_nonneg_iff div_le_dividend_int)
  have q: "?r * us \<le> ?m" "?m < ?r * us + us"
    using t(1) minus_mod_eq_div_mult [of ?m us] pos_mod_sign [of us ?m] pos_mod_bound [of us ?m] by linarith+
  then have d: "(?r * us + 4000000) div 8000000 = bytes" using t(2)
    by (intro int_div_pos_eq [where r = "?r * us + 4000000 - 8000000 * bytes"]) linarith+
  have rt: "0 \<le> ?r * us" using r(1) t(1) by simp
  have i: "in_type int64_t ?m" "in_type int64_t (?r * us)" "in_type int64_t (?r * us + 4000000)" "in_type int64_t ?r"
    using m q(1) r rt unfolding int64_range by linarith+
  have k: "bytes < kPlusInfinityVal" "?r < kPlusInfinityVal" "us < kPlusInfinityVal" "kMinusInfinityVal < us" "imax int64_t sdiv 8000000 = 1152921504606"
    using b r m t by (simp_all add: kInfinityVals limit_defs signed_divide_int_def)
  have "Microbits tg (DataSize bytes) = Inr ?m"
    using b k i(1) by (simp add: Microbits_def ds_bytes_ok dcheck_op_int c_int64_ok int64_range)
  then have "size_over_duration tg (DataSize bytes) (TimeDelta us) = Inr (DataRate ?r)"
    using m(1) t(1) i(1) r(1) k by (simp add: size_over_duration_def td_us_ok c_div64_pos nonneg_make)
  moreover have "rate_times_duration tg (DataRate ?r) (TimeDelta us) = Inr (DataSize bytes)"
    using r(1) k i rt b by (simp add: rate_times_duration_def dr_bps_ok td_us_ok c_int64_ok round_div_pos d nonneg_make)
  ultimately show ?thesis by simp
qed

theorem rate_recovers_size_witness:
  "rbind (size_over_duration \<lparr>ptr_bytes = 8, dcheck_on = True\<rparr> (DataSize 1000) (TimeDelta 10007))
     (\<lambda>r. rate_times_duration \<lparr>ptr_bytes = 8, dcheck_on = True\<rparr> r (TimeDelta 10007)) = Inr (DataSize 1000)"
  using rate_recovers_size [of 1000 10007] by simp

text \<open>Infinite time differences order above and below every finite one. The binary operators reject them
  where checks are on; the assigning operators test only their argument, so subtracting from an
  infinite value silently gives a finite one.\<close>

theorem infinite_time_deltas:
  assumes "kMinusInfinityVal < td_microseconds d" "td_microseconds d < kPlusInfinityVal" "dcheck_on tg" "0 < td_microseconds d"
  shows "TimeDelta_cmp LtOp d TimeDelta_PlusInfinity \<and> TimeDelta_cmp LtOp TimeDelta_MinusInfinity d \<and>
    TimeDelta_minus tg TimeDelta_PlusInfinity d = Inl (CheckFailed ''DCHECK'') \<and>
    TimeDelta_minus_assign tg TimeDelta_PlusInfinity d = Inr (TimeDelta (kPlusInfinityVal - td_microseconds d)) \<and>
    TimeDelta_IsFinite (TimeDelta (kPlusInfinityVal - td_microseconds d))"
proof -
  have "in_type int64_t (kPlusInfinityVal - td_microseconds d)" using assms by (simp add: kInfinityVals int64_range)
  then have "TimeDelta_minus_assign tg TimeDelta_PlusInfinity d = Inr (TimeDelta (kPlusInfinityVal - td_microseconds d))"
    using td_us_ok [OF assms(1,2)] by (simp add: TimeDelta_minus_assign_def TimeDelta_PlusInfinity_def c_int64_ok)
  moreover have "TimeDelta_minus tg TimeDelta_PlusInfinity d = Inl (CheckFailed ''DCHECK'')"
    using assms(3) by (simp add: TimeDelta_minus_def td_us_def TimeDelta_PlusInfinity_def TimeDelta_IsFinite_def
        TimeDelta_IsInfinite_def dcheck_def rtc_dcheck_def)
  ultimately show ?thesis
    using assms by (simp add: TimeDelta_cmp_def TimeDelta_PlusInfinity_def TimeDelta_MinusInfinity_def TimeDelta_IsFinite_def
        TimeDelta_IsInfinite_def) (simp add: kInfinityVals)
qed

theorem infinite_time_deltas_witness:
  "TimeDelta_minus_assign \<lparr>ptr_bytes = 8, dcheck_on = True\<rparr> TimeDelta_PlusInfinity (TimeDelta 7) =
     Inr (TimeDelta 9223372036854775800)"
  using infinite_time_deltas [of "TimeDelta 7" "\<lparr>ptr_bytes = 8, dcheck_on = True\<rparr>"] by (simp add: kInfinityVals)

end
