(* ===== verification/Rtc_Sequence.thy ===== *)
theory Rtc_Sequence
  imports Rtc_Units
begin

text \<open>
  Wrapping sequence numbers: the modular arithmetic of \<open>rtc_base/numerics/mod_ops.h\<close>, the
  comparisons and the unwrapper of \<open>sequence_number_util.h\<close>, and the second unwrapper of
  \<open>modules/include/module_common_types_public.h\<close>. A value of the unsigned type \<open>T\<close> is an \<^typ>\<open>int\<close>
  in its range, and subtraction happens in the promoted type before the result is converted back.
  A locale states what an unwrapper promises, that it recovers the positions of a stream from the
  wrapped numbers, and both classes are interpretations of it.
\<close>

section \<open>Modular arithmetic\<close>

definition cpp_sub :: "ctype \<Rightarrow> int \<Rightarrow> int \<Rightarrow> int" where
  \<comment> \<open>\<open>a - b\<close> for operands of an unsigned type: unsigned, or \<open>int\<close> for the small types\<close>
  "cpp_sub T a b = wrap (promote T) (a - b)"

definition dcheck_lt :: "target \<Rightarrow> ctype \<Rightarrow> int \<Rightarrow> int \<Rightarrow> unit result" where
  "dcheck_lt tg T a M = dcheck tg (SafeCmp (ptr_bytes tg) LtOp T T (IntV a) (IntV M))"

definition Add :: "target \<Rightarrow> ctype \<Rightarrow> int \<Rightarrow> int \<Rightarrow> int \<Rightarrow> int result" where
  \<comment> \<open>the type argument is \<open>unsigned long\<close> of the target\<close>
  "Add tg UL M a b =
     rbind (dcheck_lt tg UL a M) (\<lambda>_.
     let t = M - b mod M; res = wrap UL (a - t)
     in if t > a then Inr (wrap UL (res + M)) else Inr res)"

definition Subtract :: "target \<Rightarrow> ctype \<Rightarrow> int \<Rightarrow> int \<Rightarrow> int \<Rightarrow> int result" where
  "Subtract tg UL M a b =
     rbind (dcheck_lt tg UL a M) (\<lambda>_.
     let sub = b mod M
     in if a < sub then Inr (wrap UL (M - wrap UL (sub - a))) else Inr (wrap UL (a - sub)))"

definition ForwardDiff :: "target \<Rightarrow> ctype \<Rightarrow> int \<Rightarrow> int \<Rightarrow> int \<Rightarrow> int result" where
  "ForwardDiff tg T M a b =
     (if M > 0
      then rbind (dcheck_lt tg T a M) (\<lambda>_. rbind (dcheck_lt tg T b M) (\<lambda>_.
           Inr (wrap T (if a \<le> b then cpp_sub T b a else wrap (promote T) (M - cpp_sub T a b)))))
      else Inr (wrap T (cpp_sub T b a)))"

definition ReverseDiff :: "target \<Rightarrow> ctype \<Rightarrow> int \<Rightarrow> int \<Rightarrow> int \<Rightarrow> int result" where
  "ReverseDiff tg T M a b =
     (if M > 0
      then rbind (dcheck_lt tg T a M) (\<lambda>_. rbind (dcheck_lt tg T b M) (\<lambda>_.
           Inr (wrap T (if b \<le> a then cpp_sub T a b else wrap (promote T) (M - cpp_sub T b a)))))
      else Inr (wrap T (cpp_sub T a b)))"

definition MinDiff :: "target \<Rightarrow> ctype \<Rightarrow> int \<Rightarrow> int \<Rightarrow> int \<Rightarrow> int result" where
  "MinDiff tg T M a b =
     rbind (ForwardDiff tg T M a b) (\<lambda>f. rbind (ReverseDiff tg T M a b) (\<lambda>r. Inr (min f r)))"

section \<open>Order of sequence numbers\<close>

definition AheadOrAt :: "target \<Rightarrow> ctype \<Rightarrow> int \<Rightarrow> int \<Rightarrow> int \<Rightarrow> bool result" where
  "AheadOrAt tg T M a b =
     (if M > 0
      then
        let maxDist = M div 2
        in rbind (if M mod 2 = 0 then rbind (MinDiff tg T M a b) (\<lambda>d. Inr (d = maxDist)) else Inr False) (\<lambda>half.
           if half then Inr (b < a)
           else rbind (ForwardDiff tg T M b a) (\<lambda>d. Inr (d \<le> maxDist)))
      else
        let maxDist = imax T div 2 + 1
        in if cpp_sub T a b = maxDist then Inr (b < a)
           else rbind (ForwardDiff tg T 0 b a) (\<lambda>d. Inr (d < maxDist)))"

definition AheadOf :: "target \<Rightarrow> ctype \<Rightarrow> int \<Rightarrow> int \<Rightarrow> int \<Rightarrow> bool result" where
  "AheadOf tg T M a b = (if a \<noteq> b then AheadOrAt tg T M a b else Inr False)"

definition AscendingSeqNumComp :: "target \<Rightarrow> ctype \<Rightarrow> int \<Rightarrow> int \<Rightarrow> int \<Rightarrow> bool result" where
  "AscendingSeqNumComp tg T M a b = AheadOf tg T M a b"

definition DescendingSeqNumComp :: "target \<Rightarrow> ctype \<Rightarrow> int \<Rightarrow> int \<Rightarrow> int \<Rightarrow> bool result" where
  "DescendingSeqNumComp tg T M a b = AheadOf tg T M b a"

section \<open>SeqNumUnwrapper\<close>

record SeqNumUnwrapper =
  snu_last_unwrapped :: int
  snu_last_value :: "int option"

definition kDefaultStartValue :: int where
  "kDefaultStartValue = 1000000000000000000"

definition SeqNumUnwrapper_start :: "int \<Rightarrow> SeqNumUnwrapper" where
  "SeqNumUnwrapper_start start_at = \<lparr>snu_last_unwrapped = start_at, snu_last_value = None\<rparr>"

definition SeqNumUnwrapper_default :: SeqNumUnwrapper where
  "SeqNumUnwrapper_default = SeqNumUnwrapper_start kDefaultStartValue"

definition SeqNum_Unwrap :: "target \<Rightarrow> ctype \<Rightarrow> int \<Rightarrow> int \<Rightarrow> SeqNumUnwrapper \<Rightarrow> (int \<times> SeqNumUnwrapper) result" where
  "SeqNum_Unwrap tg T M x u =
     (let last_value = (case snu_last_value u of None \<Rightarrow> x | Some v \<Rightarrow> v); latest = snu_last_unwrapped u in
      rbind (AheadOrAt tg T M x last_value) (\<lambda>ahead.
      rbind
        (if ahead
         then rbind (ForwardDiff tg T M last_value x) (\<lambda>d.
              let unwrapped = wrap uint64_t (latest + d) in
              rbind (rtc_check (unwrapped \<ge> latest) ''unwrapped >= last_unwrapped_'') (\<lambda>_. Inr unwrapped))
         else rbind (ReverseDiff tg T M last_value x) (\<lambda>d.
              let unwrapped = wrap uint64_t (latest - d) in
              rbind (rtc_check (unwrapped < latest) ''unwrapped < last_unwrapped_'') (\<lambda>_. Inr unwrapped)))
        (\<lambda>unwrapped. Inr (unwrapped, \<lparr>snu_last_unwrapped = unwrapped, snu_last_value = Some x\<rparr>))))"

section \<open>Unwrapper\<close>

definition IsNewer :: "ctype \<Rightarrow> int \<Rightarrow> int \<Rightarrow> bool" where
  "IsNewer U x prev =
     (let kBreakpoint = drop_bit 1 (imax U) + 1
      in if cpp_sub U x prev = kBreakpoint then x > prev
         else x \<noteq> prev \<and> wrap U (cpp_sub U x prev) < kBreakpoint)"

definition UnwrapWithoutUpdate :: "ctype \<Rightarrow> int \<Rightarrow> int option \<Rightarrow> int result" where
  "UnwrapWithoutUpdate U x last_value =
     (case last_value of
        None \<Rightarrow> Inr x
      | Some latest \<Rightarrow>
          let kMaxPlusOne = imax U + 1; cropped_last = wrap U latest; delta = cpp_sub U x cropped_last
          in if IsNewer U x cropped_last
             then c_int64 (latest + (if delta < 0 then delta + kMaxPlusOne else delta))
             else if delta > 0
             then rbind (c_int64 (latest + delta)) (\<lambda>s. rbind (c_int64 (s - kMaxPlusOne)) (\<lambda>t.
                  c_int64 (latest + (if t \<ge> 0 then delta - kMaxPlusOne else delta))))
             else c_int64 (latest + delta))"

definition UpdateLast :: "int \<Rightarrow> int option" where
  "UpdateLast last_value = Some last_value"

definition Unwrap :: "ctype \<Rightarrow> int \<Rightarrow> int option \<Rightarrow> (int \<times> int option) result" where
  "Unwrap U x last_value = rbind (UnwrapWithoutUpdate U x last_value) (\<lambda>unwrapped. Inr (unwrapped, UpdateLast unwrapped))"

definition IsNewerSequenceNumber :: "int \<Rightarrow> int \<Rightarrow> bool" where
  "IsNewerSequenceNumber s prev = IsNewer uint16_t s prev"

definition IsNewerTimestamp :: "int \<Rightarrow> int \<Rightarrow> bool" where
  "IsNewerTimestamp t prev = IsNewer uint32_t t prev"

definition LatestSequenceNumber :: "int \<Rightarrow> int \<Rightarrow> int" where
  "LatestSequenceNumber a b = (if IsNewerSequenceNumber a b then a else b)"

definition LatestTimestamp :: "int \<Rightarrow> int \<Rightarrow> int" where
  "LatestTimestamp a b = (if IsNewerTimestamp a b then a else b)"

section \<open>Lemmas\<close>

definition unsigned_type :: "ctype \<Rightarrow> bool" where
  "unsigned_type T \<longleftrightarrow> T \<in> {uint8_t, uint16_t, uint32_t, uint64_t}"

lemma unsigned_type_cases:
  assumes "unsigned_type T"
  obtains "T = uint8_t" | "T = uint16_t" | "T = uint32_t" | "T = uint64_t"
  using assms by (auto simp: unsigned_type_def)

lemma unsigned_int: "unsigned_type T \<Longrightarrow> \<not> is_iec559 T" "unsigned_type T \<Longrightarrow> imin T = 0"
  by (auto simp: unsigned_type_def imin_def)

definition wrap_size :: "ctype \<Rightarrow> int \<Rightarrow> int" where
  \<comment> \<open>where numbers wrap: at \<open>M\<close>, or for \<open>M = 0\<close> after the largest value of the type\<close>
  "wrap_size T M = (if M > 0 then M else imax T + 1)"

lemma wrap_mod: "unsigned_type T \<Longrightarrow> wrap T x = x mod (imax T + 1)"
  by (simp add: wrap_def unsigned_int range_size)

lemma in_unsigned: "unsigned_type T \<Longrightarrow> in_type T x \<longleftrightarrow> 0 \<le> x \<and> x \<le> imax T"
  by (simp add: in_type_def unsigned_int)

lemma imax_pos: "unsigned_type T \<Longrightarrow> 255 \<le> imax T"
  by (auto simp: unsigned_type_def imax_def)

lemma wrap_promote: "unsigned_type T \<Longrightarrow> wrap T (wrap (promote T) x) = wrap T x"
proof (erule unsigned_type_cases)
  have d: "(256 :: int) dvd 4294967296" "(65536 :: int) dvd 4294967296" by simp_all
  have e: "((x + 2147483648) mod 4294967296 - 2147483648) mod k = x mod k" if "k dvd 4294967296" "k dvd 2147483648" for k
  proof -
    have "((x + 2147483648) mod 4294967296 - 2147483648) mod k = (((x + 2147483648) mod 4294967296) mod k - 2147483648) mod k"
      by (simp add: mod_diff_left_eq)
    also have "\<dots> = (x + 2147483648 - 2147483648) mod k" using that(1) by (simp add: mod_mod_cancel mod_diff_left_eq)
    finally show ?thesis by simp
  qed
  show "T = uint8_t \<Longrightarrow> ?thesis" "T = uint16_t \<Longrightarrow> ?thesis" using e [of 256] e [of 65536] by (simp_all add: wrap_def promote_def imin_def)
qed (simp_all add: promote_def wrap_def imin_def)

lemma cpp_sub_exact:
  assumes "unsigned_type T" "in_type T a" "in_type T b" "b \<le> a"
  shows "cpp_sub T a b = a - b"
  unfolding cpp_sub_def using assms by (intro wrap_id, cases rule: unsigned_type_cases [OF assms(1)])
    (auto simp: promote_def limit_defs)

lemma dcheck_lt_ok: "unsigned_type T \<Longrightarrow> in_type T a \<Longrightarrow> in_type T M \<Longrightarrow> a < M \<Longrightarrow> dcheck_lt tg T a M = Inr ()"
  by (simp add: dcheck_lt_def SafeCmp_correct unsigned_int del: SafeCmp.simps)

lemma ForwardDiff_value:
  assumes T: "unsigned_type T" and M: "in_type T M" and a: "0 \<le> a" "a < wrap_size T M" and b: "0 \<le> b" "b < wrap_size T M"
  shows "ForwardDiff tg T M a b = Inr ((b - a) mod wrap_size T M)"
proof (cases "M > 0")
  case True
  have r: "in_type T a" "in_type T b" using True T M a b by (simp_all add: in_unsigned wrap_size_def)
  have c: "dcheck_lt tg T a M = Inr ()" "dcheck_lt tg T b M = Inr ()" using dcheck_lt_ok [OF T _ M] r True a b by (simp_all add: wrap_size_def)
  show ?thesis
  proof (cases "a \<le> b")
    case le: True
    have "in_type T (b - a)" using le r T by (simp add: in_unsigned)
    then show ?thesis using True c le a b T cpp_sub_exact [OF T r(2,1) le] by (simp add: ForwardDiff_def wrap_size_def wrap_id)
  next
    case gt: False
    have s: "cpp_sub T a b = a - b" using gt by (intro cpp_sub_exact [OF T r]) simp
    have i: "in_type T (M - (a - b))" using gt r T M True a b by (simp add: in_unsigned wrap_size_def)
    then have "wrap T (wrap (promote T) (M - (a - b))) = M - (a - b)" using wrap_promote [OF T] by (simp add: wrap_id)
    moreover have "(b - a + M) mod M = b - a + M" using gt a b True by (intro mod_pos_pos_trivial) (simp_all add: wrap_size_def)
    then have "(b - a) mod M = M - (a - b)" by simp
    ultimately show ?thesis using True c gt s by (simp add: ForwardDiff_def wrap_size_def)
  qed
next
  case False
  then show ?thesis by (simp only: ForwardDiff_def wrap_size_def cpp_sub_def if_False wrap_promote [OF T])
      (simp only: wrap_mod [OF T])
qed

lemma ReverseDiff_value:
  assumes T: "unsigned_type T" and M: "in_type T M" and a: "0 \<le> a" "a < wrap_size T M" and b: "0 \<le> b" "b < wrap_size T M"
  shows "ReverseDiff tg T M a b = Inr ((a - b) mod wrap_size T M)"
proof -
  have "dcheck_lt tg T a M = Inr ()" "dcheck_lt tg T b M = Inr ()" if "M > 0"
    using dcheck_lt_ok [OF T _ M] that T M a b by (simp_all add: wrap_size_def in_unsigned)
  then have "ReverseDiff tg T M a b = ForwardDiff tg T M b a" by (simp add: ReverseDiff_def ForwardDiff_def)
  then show ?thesis using ForwardDiff_value [OF T M b a] by simp
qed

lemma mod_diff_cases:
  fixes a b N :: int
  assumes "0 \<le> a" "a < N" "0 \<le> b" "b < N"
  shows "(a - b) mod N = (if b \<le> a then a - b else a - b + N)"
proof (cases "b \<le> a")
  case False
  have "(a - b + N) mod N = a - b + N" using assms False by (intro mod_pos_pos_trivial) simp_all
  then show ?thesis using False by simp
qed (use assms in simp)

lemma cpp_sub_value:
  assumes "unsigned_type T" "in_type T a" "in_type T b"
  shows "cpp_sub T a b = (if sizeof T < 4 then a - b else (a - b) mod (imax T + 1))"
  using assms(1)
proof (cases rule: unsigned_type_cases)
  case 1
  have "in_type int32_t (a - b)" using assms(2,3) 1 by (simp add: limit_defs)
  then show ?thesis using 1 by (simp add: cpp_sub_def promote_def wrap_id)
next
  case 2
  have "in_type int32_t (a - b)" using assms(2,3) 2 by (simp add: limit_defs)
  then show ?thesis using 2 by (simp add: cpp_sub_def promote_def wrap_id)
qed (simp_all add: cpp_sub_def promote_def wrap_mod unsigned_type_def)

lemma even_size: "unsigned_type T \<Longrightarrow> 2 * (imax T div 2 + 1) = imax T + 1"
  by (auto simp: unsigned_type_def imax_def)

definition ahead :: "int \<Rightarrow> int \<Rightarrow> int \<Rightarrow> bool" where
  \<comment> \<open>\<open>a\<close> is at most half the circle in front of \<open>b\<close>, the larger number winning at exactly half\<close>
  "ahead N a b = (if 2 * ((a - b) mod N) = N then b < a else 2 * ((a - b) mod N) < N)"

lemma AheadOrAt_value:
  assumes T: "unsigned_type T" and M: "in_type T M" and a: "0 \<le> a" "a < wrap_size T M" and b: "0 \<le> b" "b < wrap_size T M"
  shows "AheadOrAt tg T M a b = Inr (ahead (wrap_size T M) a b)"
proof (cases "M > 0")
  case True
  define d e where "d = (a - b) mod M" and "e = (b - a) mod M"
  have v: "ForwardDiff tg T M b a = Inr d" "ForwardDiff tg T M a b = Inr e" "ReverseDiff tg T M a b = Inr d"
    using ForwardDiff_value [OF T M b a] ForwardDiff_value [OF T M a b] ReverseDiff_value [OF T M a b] True
    by (simp_all add: wrap_size_def d_def e_def)
  have de: "0 \<le> d" "d < M" "0 \<le> e" "e < M" "d + e = 0 \<or> d + e = M"
    using True a b mod_diff_cases [of a M b] mod_diff_cases [of b M a] by (auto simp: d_def e_def wrap_size_def)
  have half: "M mod 2 = 0 \<Longrightarrow> min e d = M div 2 \<longleftrightarrow> 2 * d = M" using de True by (auto simp: min_def)
  have odd: "M mod 2 \<noteq> 0 \<Longrightarrow> 2 * d \<noteq> M" by auto
  have le: "d \<le> M div 2 \<longleftrightarrow> 2 * d \<le> M" by linarith
  show ?thesis
    using True half odd le by (auto simp: AheadOrAt_def MinDiff_def v ahead_def wrap_size_def d_def [symmetric] Let_def)
next
  case False
  define N where "N = imax T + 1"
  have r: "in_type T a" "in_type T b" using a b False T by (simp_all add: wrap_size_def in_unsigned)
  have ab: "0 \<le> a" "a < N" "0 \<le> b" "b < N" using a b False by (simp_all add: wrap_size_def N_def)
  have h: "2 * (imax T div 2 + 1) = N" using even_size [OF T] by (simp add: N_def)
  have f: "ForwardDiff tg T 0 b a = Inr ((a - b) mod N)"
    using ForwardDiff_value [of T 0 b a tg] T ab imax_pos [OF T] by (simp add: wrap_size_def N_def in_unsigned)
  have c: "cpp_sub T a b = (if sizeof T < 4 then a - b else (a - b) mod N)" using cpp_sub_value [OF T r] by (simp add: N_def)
  have m: "(a - b) mod N = (if b \<le> a then a - b else a - b + N)" using mod_diff_cases [OF ab] .
  have "AheadOrAt tg T M a b = Inr (if cpp_sub T a b = imax T div 2 + 1 then b < a else (a - b) mod N < imax T div 2 + 1)"
    using False f by (simp add: AheadOrAt_def Let_def)
  also have "\<dots> = Inr (ahead N a b)"
    using h ab by (auto simp: ahead_def c m split: if_splits)
  finally show ?thesis using False by (simp add: wrap_size_def N_def)
qed

section \<open>The contract of an unwrapper\<close>

fun unwrap_run :: "(int \<Rightarrow> 's \<Rightarrow> (int \<times> 's) result) \<Rightarrow> int list \<Rightarrow> 's \<Rightarrow> (int list \<times> 's) result" where
  "unwrap_run step [] s = Inr ([], s)"
| "unwrap_run step (x # xs) s =
     rbind (step x s) (\<lambda>(y, s1). rbind (unwrap_run step xs s1) (\<lambda>(ys, s2). Inr (y # ys, s2)))"

fun steps_below :: "int \<Rightarrow> int \<Rightarrow> int list \<Rightarrow> bool" where
  \<comment> \<open>every position is less than half the circle away from the one before\<close>
  "steps_below N p [] = True"
| "steps_below N p (q # qs) = (2 * \<bar>q - p\<bar> < N \<and> steps_below N q qs)"

locale unwrapping =
  fixes step :: "int \<Rightarrow> 's \<Rightarrow> (int \<times> 's) result" and enc :: "int \<Rightarrow> int" and tracks :: "'s \<Rightarrow> int \<Rightarrow> bool"
    and N :: int and representable :: "int \<Rightarrow> bool"
  assumes step_ok: "tracks s p \<Longrightarrow> representable p \<Longrightarrow> representable q \<Longrightarrow> 2 * \<bar>q - p\<bar> < N \<Longrightarrow>
    \<exists>s'. step (enc q) s = Inr (q, s') \<and> tracks s' q"
begin

lemma run_ok:
  "tracks s p \<Longrightarrow> representable p \<Longrightarrow> list_all representable qs \<Longrightarrow> steps_below N p qs \<Longrightarrow>
   \<exists>s'. unwrap_run step (map enc qs) s = Inr (qs, s')"
proof (induction qs arbitrary: s p)
  case Nil
  then show ?case by simp
next
  case (Cons q qs)
  obtain s1 where s1: "step (enc q) s = Inr (q, s1)" "tracks s1 q" using step_ok [OF Cons.prems(1,2), of q] Cons.prems(3,4) by auto
  obtain s2 where "unwrap_run step (map enc qs) s1 = Inr (qs, s2)" using Cons.IH [OF s1(2)] Cons.prems(3,4) by auto
  then show ?case using s1(1) by simp
qed

end

lemma ahead_near:
  assumes "2 * \<bar>q - p\<bar> < N" "(w - v) mod N = (q - p) mod N"
  shows "ahead N w v \<longleftrightarrow> p \<le> q" "p \<le> q \<Longrightarrow> (w - v) mod N = q - p" "q < p \<Longrightarrow> (v - w) mod N = p - q"
proof -
  show f: "p \<le> q \<Longrightarrow> (w - v) mod N = q - p" using assms by simp
  have b: "(w - v) mod N = q - p + N" if "q < p"
  proof -
    have "(q - p + N) mod N = q - p + N" using assms(1) that by (intro mod_pos_pos_trivial) simp_all
    then show ?thesis using assms(2) by simp
  qed
  show "ahead N w v \<longleftrightarrow> p \<le> q" using f b assms(1) by (cases "p \<le> q") (auto simp: ahead_def)
  have "(v - w) mod N = (p - q) mod N" by (metis assms(2) minus_diff_eq mod_minus_eq)
  then show "q < p \<Longrightarrow> (v - w) mod N = p - q" using assms(1) by simp
qed

definition snu_tracks :: "int \<Rightarrow> int \<Rightarrow> SeqNumUnwrapper \<Rightarrow> int \<Rightarrow> bool" where
  "snu_tracks N offset u p \<longleftrightarrow> snu_last_unwrapped u = p \<and> snu_last_value u = Some ((p - offset) mod N)"

lemma uint64_id: "0 \<le> x \<Longrightarrow> x < 18446744073709551616 \<Longrightarrow> wrap uint64_t x = x"
  by (rule wrap_id) (simp add: limit_defs)

lemma wrap_size_pos: "unsigned_type T \<Longrightarrow> 0 < wrap_size T M"
  using imax_pos [of T] by (simp add: wrap_size_def)

lemma SeqNum_Unwrap_step:
  assumes T: "unsigned_type T" and M: "in_type T M" and t: "snu_tracks (wrap_size T M) offset u p"
    and r: "0 \<le> p" "p < 18446744073709551616" "0 \<le> q" "q < 18446744073709551616" and d: "2 * \<bar>q - p\<bar> < wrap_size T M"
  shows "\<exists>u'. SeqNum_Unwrap tg T M ((q - offset) mod wrap_size T M) u = Inr (q, u') \<and> snu_tracks (wrap_size T M) offset u' q"
proof -
  define N v w where "N = wrap_size T M" and "v = (p - offset) mod N" and "w = (q - offset) mod N"
  have N: "0 < N" using wrap_size_pos [OF T] by (simp add: N_def)
  have vw: "0 \<le> v" "v < wrap_size T M" "0 \<le> w" "w < wrap_size T M" using N by (simp_all add: v_def w_def flip: N_def)
  have "(w - v) mod N = (q - p) mod N" by (simp add: w_def v_def mod_diff_eq)
  note near = ahead_near [OF d [folded N_def] this]
  have u: "snu_last_value u = Some v" "snu_last_unwrapped u = p" using t by (simp_all add: snu_tracks_def v_def N_def)
  have a: "AheadOrAt tg T M w v = Inr (p \<le> q)" using AheadOrAt_value [OF T M vw(3,4,1,2)] near(1) by (simp add: N_def)
  have "SeqNum_Unwrap tg T M w u = Inr (q, \<lparr>snu_last_unwrapped = q, snu_last_value = Some w\<rparr>)"
  proof (cases "p \<le> q")
    case True
    have "ForwardDiff tg T M v w = Inr (q - p)" using ForwardDiff_value [OF T M vw] near(2) True by (simp add: N_def)
    then show ?thesis using a u True uint64_id [OF r(3,4)] by (simp add: SeqNum_Unwrap_def)
  next
    case False
    have "ReverseDiff tg T M v w = Inr (p - q)" using ReverseDiff_value [OF T M vw] near(3) False by (simp add: N_def)
    then show ?thesis using a u False uint64_id [OF r(3,4)] by (simp add: SeqNum_Unwrap_def)
  qed
  then show ?thesis by (simp add: w_def N_def snu_tracks_def)
qed

interpretation snu16: unwrapping "SeqNum_Unwrap tg uint16_t 0" "\<lambda>q. (q - offset) mod 65536" "snu_tracks 65536 offset" 65536
    "\<lambda>q. 0 \<le> q \<and> q < 18446744073709551616" for tg offset
proof
  fix u p q
  have "unsigned_type uint16_t" "in_type uint16_t 0" "wrap_size uint16_t 0 = 65536"
    by (simp_all add: unsigned_type_def limit_defs wrap_size_def)
  note step = SeqNum_Unwrap_step [OF this(1,2), unfolded this(3)]
  assume "snu_tracks 65536 offset u p" "0 \<le> p \<and> p < 18446744073709551616" "0 \<le> q \<and> q < 18446744073709551616" "2 * \<bar>q - p\<bar> < 65536"
  then show "\<exists>u'. SeqNum_Unwrap tg uint16_t 0 ((q - offset) mod 65536) u = Inr (q, u') \<and> snu_tracks 65536 offset u' q"
    by (intro step) simp_all
qed

lemma IsNewer_value:
  assumes U: "unsigned_type U" and x: "in_type U x" "in_type U y"
  shows "IsNewer U x y \<longleftrightarrow> x \<noteq> y \<and> ahead (imax U + 1) x y"
proof -
  define N where "N = imax U + 1"
  have xy: "0 \<le> x" "x < N" "0 \<le> y" "y < N" using x U by (simp_all add: N_def in_unsigned)
  have h: "drop_bit 1 (imax U) + 1 = imax U div 2 + 1" "2 * (imax U div 2 + 1) = N" "255 < N"
    using even_size [OF U] imax_pos [OF U] by (simp_all add: N_def drop_bit_eq_div)
  have c: "cpp_sub U x y = (if sizeof U < 4 then x - y else (x - y) mod N)" using cpp_sub_value [OF U x] by (simp add: N_def)
  have w: "wrap U (cpp_sub U x y) = (x - y) mod N" by (simp add: c wrap_mod [OF U] flip: N_def)
  have m: "(x - y) mod N = (if y \<le> x then x - y else x - y + N)" using mod_diff_cases [OF xy] .
  show ?thesis
    using h(2,3) xy unfolding IsNewer_def Let_def h(1) w N_def [symmetric]
    by (auto simp: ahead_def c m split: if_splits)
qed

lemma UnwrapWithoutUpdate_value:
  assumes U: "unsigned_type U" "U \<noteq> uint64_t" and r: "0 \<le> p" "p < 2 ^ 62" "0 \<le> q" "q < 2 ^ 62"
    and d: "2 * \<bar>q - p\<bar> < imax U + 1"
  shows "UnwrapWithoutUpdate U (q mod (imax U + 1)) (Some p) = Inr q"
proof -
  define N x y where "N = imax U + 1" and "x = q mod N" and "y = p mod N"
  have N: "0 < N" "N \<le> 4294967296" using U imax_pos [OF U(1)] by (auto simp: N_def unsigned_type_def imax_def)
  have xy: "0 \<le> x" "x < N" "0 \<le> y" "y < N" using N by (simp_all add: x_def y_def)
  have i: "in_type U x" "in_type U y" using xy U by (simp_all add: in_unsigned N_def)
  have cl: "wrap U p = y" using wrap_mod [OF U(1)] by (simp add: y_def N_def)
  have "(x - y) mod N = (q - p) mod N" by (simp add: x_def y_def mod_diff_eq)
  note near = ahead_near [OF d [folded N_def] this]
  have c: "cpp_sub U x y = (if sizeof U < 4 then x - y else (x - y) mod N)" using cpp_sub_value [OF U(1) i] by (simp add: N_def)
  have m: "(x - y) mod N = (if y \<le> x then x - y else x - y + N)" using mod_diff_cases [OF xy] .
  have m': "(y - x) mod N = (if x \<le> y then y - x else y - x + N)" using mod_diff_cases [OF xy(3,4,1,2)] .
  have big: "in_type int64_t z" if "\<bar>z\<bar> < 2 ^ 63" for z using that by (simp add: int64_range abs_less_iff)
  have ok: "c_int64 q = Inr q" using r by (intro c_int64_ok big) simp
  show ?thesis
  proof (cases "p \<le> q \<and> x \<noteq> y")
    case True
    then have nw: "IsNewer U x y" using IsNewer_value [OF U(1) i] near(1) by (simp add: N_def)
    have "(if cpp_sub U x y < 0 then cpp_sub U x y + N else cpp_sub U x y) = q - p"
      using near(2) True m xy by (auto simp: c)
    then show ?thesis using nw ok by (simp add: UnwrapWithoutUpdate_def cl Let_def flip: N_def x_def)
  next
    case False
    then have nw: "\<not> IsNewer U x y" using IsNewer_value [OF U(1) i] near(1) by (auto simp: N_def)
    have qp: "q \<le> p" using False near(2) m by force
    have bk: "(y - x) mod N = p - q" using near(3) qp by (cases "q = p") (simp_all add: x_def y_def)
    show ?thesis
    proof (cases "cpp_sub U x y > 0")
      case pos: True
      have e: "cpp_sub U x y = q - p + N" using pos c m m' bk xy by (auto split: if_splits)
      have s: "c_int64 (p + cpp_sub U x y) = Inr (q + N)" "c_int64 (q + N - N) = Inr q"
        using r N e by (simp_all add: c_int64_ok big abs_if)
      show ?thesis using nw pos ok r(3) s e by (simp add: UnwrapWithoutUpdate_def cl Let_def flip: N_def x_def)
    next
      case neg: False
      have "cpp_sub U x y = q - p" using neg c m m' bk xy by (auto split: if_splits)
      then show ?thesis using nw neg ok by (simp add: UnwrapWithoutUpdate_def cl Let_def flip: N_def x_def)
    qed
  qed
qed

interpretation seq_unwrapper: unwrapping "Unwrap uint16_t" "\<lambda>q. q mod 65536" "\<lambda>s p. s = Some p" 65536 "\<lambda>q. 0 \<le> q \<and> q < 2 ^ 62"
proof
  fix s and p q :: int
  have "unsigned_type uint16_t" "imax uint16_t + 1 = 65536" by (simp_all add: unsigned_type_def imax_def)
  note v = UnwrapWithoutUpdate_value [OF this(1), unfolded this(2), of p q]
  assume "s = Some p" "0 \<le> p \<and> p < 2 ^ 62" "0 \<le> q \<and> q < 2 ^ 62" "2 * \<bar>q - p\<bar> < 65536"
  then show "\<exists>s'. Unwrap uint16_t (q mod 65536) s = Inr (q, s') \<and> s' = Some q" using v by (simp add: Unwrap_def UpdateLast_def)
qed

interpretation ts_unwrapper: unwrapping "Unwrap uint32_t" "\<lambda>q. q mod 4294967296" "\<lambda>s p. s = Some p" 4294967296 "\<lambda>q. 0 \<le> q \<and> q < 2 ^ 62"
proof
  fix s and p q :: int
  have "unsigned_type uint32_t" "imax uint32_t + 1 = 4294967296" by (simp_all add: unsigned_type_def imax_def)
  note v = UnwrapWithoutUpdate_value [OF this(1), unfolded this(2), of p q]
  assume "s = Some p" "0 \<le> p \<and> p < 2 ^ 62" "0 \<le> q \<and> q < 2 ^ 62" "2 * \<bar>q - p\<bar> < 4294967296"
  then show "\<exists>s'. Unwrap uint32_t (q mod 4294967296) s = Inr (q, s') \<and> s' = Some q" using v by (simp add: Unwrap_def UpdateLast_def)
qed

section \<open>Properties\<close>

text \<open>The modular helpers compute sums and differences on the circle, for a wrap point \<open>M\<close> and for the
  natural wrap of the type; the minimum distance does not depend on the order of its arguments.\<close>

theorem modular_arithmetic_exact:
  assumes T: "unsigned_type T" and M: "in_type T M" and a: "0 \<le> a" "a < wrap_size T M" and b: "0 \<le> b" "b < wrap_size T M"
  shows "ForwardDiff tg T M a b = Inr ((b - a) mod wrap_size T M) \<and>
    ReverseDiff tg T M a b = Inr ((a - b) mod wrap_size T M) \<and>
    MinDiff tg T M a b = MinDiff tg T M b a \<and>
    (0 < M \<longrightarrow> Add tg T M a b = Inr ((a + b) mod M) \<and> Subtract tg T M a b = Inr ((a - b) mod M))"
proof (intro conjI impI)
  show "ForwardDiff tg T M a b = Inr ((b - a) mod wrap_size T M)" "ReverseDiff tg T M a b = Inr ((a - b) mod wrap_size T M)"
    using ForwardDiff_value [OF assms] ReverseDiff_value [OF assms] by simp_all
  show "MinDiff tg T M a b = MinDiff tg T M b a"
    using ForwardDiff_value [OF assms] ReverseDiff_value [OF assms] ForwardDiff_value [OF T M b a] ReverseDiff_value [OF T M b a]
    by (simp add: MinDiff_def min.commute)
  assume p: "0 < M"
  have ab: "a < M" "b < M" "b mod M = b" using p a b by (simp_all add: wrap_size_def)
  have d: "dcheck_lt tg T a M = Inr ()" using dcheck_lt_ok [OF T _ M] T M p a ab by (simp add: in_unsigned)
  have i: "in_type T x" if "0 \<le> x" "x \<le> M" for x using that M T by (simp add: in_unsigned)
  have "Add tg T M a b = Inr (if M - b > a then a + b else a + b - M)"
  proof (cases "M - b > a")
    case True
    have "wrap T (wrap T (a - (M - b)) + M) = (a - (M - b) + M) mod (imax T + 1)" by (simp add: wrap_mod [OF T] mod_add_left_eq)
    also have "\<dots> = a + b" using wrap_id [OF i, of "a + b"] True a b by (simp add: wrap_mod [OF T])
    finally show ?thesis using True d ab(3) by (simp add: Add_def Let_def)
  next
    case False
    then show ?thesis using d ab wrap_id [OF i, of "a + b - M"] by (simp add: Add_def Let_def algebra_simps)
  qed
  moreover have "(a + b) mod M = (if M - b > a then a + b else a + b - M)"
    using a b ab p mod_diff_cases [of a M "M - b"] by (cases "b = 0") (auto simp: algebra_simps)
  ultimately show "Add tg T M a b = Inr ((a + b) mod M)" by simp
  have "Subtract tg T M a b = Inr (if a < b then M - (b - a) else a - b)"
    using d ab a b i by (simp add: Subtract_def Let_def wrap_id)
  then show "Subtract tg T M a b = Inr ((a - b) mod M)" using mod_diff_cases [OF a(1) ab(1) b(1) ab(2)] by auto
qed

theorem modular_arithmetic_exact_witness:
  "ForwardDiff \<lparr>ptr_bytes = 8, dcheck_on = True\<rparr> uint8_t 0 253 2 = Inr 5 \<and>
   ReverseDiff \<lparr>ptr_bytes = 8, dcheck_on = True\<rparr> uint8_t 0 253 2 = Inr 251"
  using modular_arithmetic_exact [of uint8_t 0 253 2 "\<lparr>ptr_bytes = 8, dcheck_on = True\<rparr>"]
  by (simp add: unsigned_type_def limit_defs wrap_size_def)

text \<open>Of two different sequence numbers exactly one is ahead of the other, also at the maximal distance where
  the larger one wins, and both families of comparisons agree on the types they share.\<close>

theorem sequence_order_total:
  assumes T: "unsigned_type T" and M: "in_type T M" and a: "0 \<le> a" "a < wrap_size T M" and b: "0 \<le> b" "b < wrap_size T M"
    and ne: "a \<noteq> b"
  shows "\<exists>x. AheadOf tg T M a b = Inr x \<and> AheadOf tg T M b a = Inr (\<not> x) \<and> (M = 0 \<longrightarrow> IsNewer T a b = x)"
proof -
  let ?N = "wrap_size T M"
  have m: "(a - b) mod ?N = (if b \<le> a then a - b else a - b + ?N)" "(b - a) mod ?N = (if a \<le> b then b - a else b - a + ?N)"
    using mod_diff_cases [OF a b] mod_diff_cases [OF b a] .
  have x: "ahead ?N b a = (\<not> ahead ?N a b)" using m ne a b by (auto simp: ahead_def)
  have "IsNewer T a b = ahead ?N a b" if "M = 0"
    using IsNewer_value [OF T, of a b] ne that a b T by (simp add: wrap_size_def in_unsigned)
  then show ?thesis
    using AheadOrAt_value [OF T M a b] AheadOrAt_value [OF T M b a] ne x by (simp add: AheadOf_def)
qed

theorem sequence_order_total_witness:
  "\<exists>x. AheadOf \<lparr>ptr_bytes = 8, dcheck_on = True\<rparr> uint16_t 0 2 65535 = Inr x \<and>
     AheadOf \<lparr>ptr_bytes = 8, dcheck_on = True\<rparr> uint16_t 0 65535 2 = Inr (\<not> x)"
  using sequence_order_total [of uint16_t 0 2 65535 "\<lparr>ptr_bytes = 8, dcheck_on = True\<rparr>"]
  by (auto simp: unsigned_type_def limit_defs wrap_size_def)



text \<open>The first number unwraps to the start value of \<open>SeqNumUnwrapper\<close> and to itself in \<open>Unwrapper\<close>, and
  whatever numbers follow, \<open>Unwrapper\<close> never returns a negative value.\<close>

theorem unwrapper_start_and_floor:
  assumes U: "unsigned_type U" "U \<noteq> uint64_t" and x: "in_type U x" and l: "0 \<le> l" "l < 2 ^ 62"
    and start: "0 \<le> start_at" "start_at < 18446744073709551616"
  shows "SeqNum_Unwrap tg U 0 x (SeqNumUnwrapper_start start_at) =
      Inr (start_at, \<lparr>snu_last_unwrapped = start_at, snu_last_value = Some x\<rparr>) \<and>
    Unwrap U x None = Inr (x, Some x) \<and> (\<exists>y. Unwrap U x (Some l) = Inr (y, Some y) \<and> 0 \<le> y)"
proof (intro conjI)
  have i: "in_type U 0" "0 \<le> x" "x < wrap_size U 0" using U x imax_pos [OF U(1)] by (simp_all add: in_unsigned wrap_size_def)
  have "AheadOrAt tg U 0 x x = Inr True" "ForwardDiff tg U 0 x x = Inr 0"
    using AheadOrAt_value [OF U(1) i(1,2,3,2,3)] ForwardDiff_value [OF U(1) i(1,2,3,2,3)] imax_pos [OF U(1)]
    by (simp_all add: ahead_def wrap_size_def)
  then show "SeqNum_Unwrap tg U 0 x (SeqNumUnwrapper_start start_at) =
      Inr (start_at, \<lparr>snu_last_unwrapped = start_at, snu_last_value = Some x\<rparr>)"
    using uint64_id [OF start] by (simp add: SeqNum_Unwrap_def SeqNumUnwrapper_start_def)
  show "Unwrap U x None = Inr (x, Some x)" by (simp add: Unwrap_def UnwrapWithoutUpdate_def UpdateLast_def)
  define N y where "N = imax U + 1" and "y = l mod N"
  have N: "0 < N" "N \<le> 4294967296" using U imax_pos [OF U(1)] by (auto simp: N_def unsigned_type_def imax_def)
  have xy: "0 \<le> x" "x < N" "0 \<le> y" "y < N" "y \<le> l"
    using N(1) x U l(1) zmod_le_nonneg_dividend [of l N] by (simp_all add: y_def in_unsigned N_def [symmetric]) (simp add: N_def)
  have iy: "in_type U y" using xy U by (simp add: in_unsigned N_def)
  have cl: "wrap U l = y" using wrap_mod [OF U(1)] by (simp add: y_def N_def)
  have c: "cpp_sub U x y = (if sizeof U < 4 then x - y else (x - y) mod N)" using cpp_sub_value [OF U(1) x iy] by (simp add: N_def)
  have m: "(x - y) mod N = (if y \<le> x then x - y else x - y + N)" using mod_diff_cases [OF xy(1-4)] .
  have b: "- N < cpp_sub U x y" "cpp_sub U x y < N" "0 \<le> l + cpp_sub U x y" using c m xy by (auto split: if_splits)
  have ok: "c_int64 z = Inr z" if "- (2 ^ 33) \<le> z" "z < 2 ^ 62 + 2 ^ 33" for z using that by (intro c_int64_ok) (simp add: int64_range)
  have "\<exists>z. UnwrapWithoutUpdate U x (Some l) = Inr z \<and> 0 \<le> z"
    using b l N by (auto simp: UnwrapWithoutUpdate_def cl Let_def ok simp flip: N_def)
  then show "\<exists>y. Unwrap U x (Some l) = Inr (y, Some y) \<and> 0 \<le> y" by (auto simp: Unwrap_def UpdateLast_def)
qed

theorem unwrapper_start_and_floor_witness:
  "\<exists>y. Unwrap uint32_t 4294967295 (Some 3) = Inr (y, Some y) \<and> 0 \<le> y"
  using unwrapper_start_and_floor [of uint32_t 4294967295 3 0] by (simp add: unsigned_type_def limit_defs)

end
