(* ===== verification/Byte_Io.thy ===== *)
theory Byte_Io
  imports Cpp_Types
begin

unbundle bit_operations_syntax

text \<open>
  Integers in byte arrays: the readers and writers of \<open>modules/rtp_rtcp/source/byte_io.h\<close> for any
  integer type, any number of bytes and both byte orders, with their specialisations for 1, 2, 4
  and 8 bytes, and the accessors of \<open>rtc_base/byteorder.h\<close>. A byte array is a list of values of
  \<open>uint8_t\<close>; reaching past its end is \<^const>\<open>OutOfBounds\<close>. The lemmas show that the specialised
  readers are unrolled loops, that reading undoes writing, and what bytes a writer leaves.
\<close>

section \<open>Unsigned readers\<close>

type_synonym bytes = "int list"

definition shl :: "ctype \<Rightarrow> int \<Rightarrow> nat \<Rightarrow> int" where
  \<comment> \<open>\<open>static_cast<T>(x) << n\<close>, in the promoted type\<close>
  "shl T x n = wrap (promote T) (push_bit n (wrap T x))"

definition bor :: "ctype \<Rightarrow> int \<Rightarrow> int \<Rightarrow> int" where
  \<comment> \<open>\<open>a | b\<close> converted to \<open>T\<close>\<close>
  "bor T a b = wrap T (a OR b)"

fun be_loop :: "ctype \<Rightarrow> nat \<Rightarrow> nat \<Rightarrow> bytes \<Rightarrow> int \<Rightarrow> int" where
  "be_loop T B i [] val = val"
| "be_loop T B i (d # ds) val = (if i < B then be_loop T B (Suc i) ds (bor T val (shl T d ((B - 1 - i) * 8))) else val)"

fun le_loop :: "ctype \<Rightarrow> nat \<Rightarrow> nat \<Rightarrow> bytes \<Rightarrow> int \<Rightarrow> int" where
  "le_loop T B i [] val = val"
| "le_loop T B i (d # ds) val = (if i < B then le_loop T B (Suc i) ds (bor T val (shl T d (i * 8))) else val)"

definition InternalReadBigEndian :: "ctype \<Rightarrow> nat \<Rightarrow> bytes \<Rightarrow> int" where
  "InternalReadBigEndian T B data = be_loop T B 0 data 0"

definition InternalReadLittleEndian :: "ctype \<Rightarrow> nat \<Rightarrow> bytes \<Rightarrow> int" where
  "InternalReadLittleEndian T B data = le_loop T B 0 data 0"

definition ReadBigEndian_1 :: "ctype \<Rightarrow> bytes \<Rightarrow> int" where
  "ReadBigEndian_1 T data = wrap T (data ! 0)"

definition ReadLittleEndian_1 :: "ctype \<Rightarrow> bytes \<Rightarrow> int" where
  "ReadLittleEndian_1 T data = wrap T (data ! 0)"

definition ReadBigEndian_2 :: "ctype \<Rightarrow> bytes \<Rightarrow> int" where
  "ReadBigEndian_2 T data = wrap T (push_bit 8 (data ! 0) OR data ! 1)"

definition ReadLittleEndian_2 :: "ctype \<Rightarrow> bytes \<Rightarrow> int" where
  "ReadLittleEndian_2 T data = wrap T (data ! 0 OR push_bit 8 (data ! 1))"

definition ReadBigEndian_4 :: "ctype \<Rightarrow> bytes \<Rightarrow> int" where
  "ReadBigEndian_4 T data =
     wrap T (shl T (data ! 0) 24 OR shl T (data ! 1) 16 OR shl T (data ! 2) 8 OR wrap T (data ! 3))"

definition ReadLittleEndian_4 :: "ctype \<Rightarrow> bytes \<Rightarrow> int" where
  "ReadLittleEndian_4 T data =
     wrap T (wrap T (data ! 0) OR shl T (data ! 1) 8 OR shl T (data ! 2) 16 OR shl T (data ! 3) 24)"

definition ReadBigEndian_8 :: "ctype \<Rightarrow> bytes \<Rightarrow> int" where
  "ReadBigEndian_8 T data =
     wrap T (shl T (data ! 0) 56 OR shl T (data ! 1) 48 OR shl T (data ! 2) 40 OR shl T (data ! 3) 32 OR
             shl T (data ! 4) 24 OR shl T (data ! 5) 16 OR shl T (data ! 6) 8 OR wrap T (data ! 7))"

definition ReadLittleEndian_8 :: "ctype \<Rightarrow> bytes \<Rightarrow> int" where
  "ReadLittleEndian_8 T data =
     wrap T (wrap T (data ! 0) OR shl T (data ! 1) 8 OR shl T (data ! 2) 16 OR shl T (data ! 3) 24 OR
             shl T (data ! 4) 32 OR shl T (data ! 5) 40 OR shl T (data ! 6) 48 OR shl T (data ! 7) 56)"

definition ReadBigEndian_u :: "ctype \<Rightarrow> nat \<Rightarrow> bytes \<Rightarrow> int result" where
  \<comment> \<open>\<open>ByteReader<T, B, false>::ReadBigEndian\<close>, with the specialisation the compiler picks\<close>
  "ReadBigEndian_u T B data =
     (if length data < B then Inl OutOfBounds
      else Inr (if B = 1 then ReadBigEndian_1 T data
                else if B = 2 then ReadBigEndian_2 T data
                else if B = 4 then ReadBigEndian_4 T data
                else if B = 8 then ReadBigEndian_8 T data
                else InternalReadBigEndian T B data))"

definition ReadLittleEndian_u :: "ctype \<Rightarrow> nat \<Rightarrow> bytes \<Rightarrow> int result" where
  "ReadLittleEndian_u T B data =
     (if length data < B then Inl OutOfBounds
      else Inr (if B = 1 then ReadLittleEndian_1 T data
                else if B = 2 then ReadLittleEndian_2 T data
                else if B = 4 then ReadLittleEndian_4 T data
                else if B = 8 then ReadLittleEndian_8 T data
                else InternalReadLittleEndian T B data))"

section \<open>Signed readers\<close>

fun UnsignedOf :: "ctype \<Rightarrow> ctype" where
  "UnsignedOf int8_t = uint8_t" | "UnsignedOf int16_t = uint16_t"
| "UnsignedOf int32_t = uint32_t" | "UnsignedOf int64_t = uint64_t"
| "UnsignedOf T = T"

definition ReinterpretAsSigned :: "ctype \<Rightarrow> int \<Rightarrow> int" where
  "ReinterpretAsSigned T unsigned_val =
     (let kUnsignedHighestBitMask = shl (UnsignedOf T) 1 (sizeof T * 8 - 1); kSignedHighestBitMask = imin T
      in if unsigned_val AND kUnsignedHighestBitMask \<noteq> 0
         then wrap T (wrap T (unsigned_val AND NOT kUnsignedHighestBitMask) OR kSignedHighestBitMask)
         else wrap T unsigned_val)"

definition SignExtend :: "ctype \<Rightarrow> nat \<Rightarrow> int \<Rightarrow> int result" where
  \<comment> \<open>the mask shifts an \<open>int\<close>: by its width or more, that is undefined\<close>
  "SignExtend T B val =
     (let U = UnsignedOf T; kMsb = wrap uint8_t (drop_bit ((B - 1) * 8) val); s = (B mod sizeof T) * 8
      in if kMsb AND 0x80 \<noteq> 0
         then if s < 32 then Inr (wrap U (NOT (wrap U (2 ^ s - 1)) OR val)) else Inl BadShift
         else Inr val)"

definition read_signed :: "ctype \<Rightarrow> nat \<Rightarrow> int \<Rightarrow> int result" where
  "read_signed T B x =
     (let unsigned_val = wrap (UnsignedOf T) x
      in rbind (if B < sizeof T then SignExtend T B unsigned_val else Inr unsigned_val)
           (\<lambda>u. Inr (ReinterpretAsSigned T u)))"

definition ReadBigEndian :: "ctype \<Rightarrow> nat \<Rightarrow> bytes \<Rightarrow> int result" where
  "ReadBigEndian T B data =
     (if is_signed T then rbind (ReadBigEndian_u T B data) (read_signed T B) else ReadBigEndian_u T B data)"

definition ReadLittleEndian :: "ctype \<Rightarrow> nat \<Rightarrow> bytes \<Rightarrow> int result" where
  "ReadLittleEndian T B data =
     (if is_signed T then rbind (ReadLittleEndian_u T B data) (read_signed T B) else ReadLittleEndian_u T B data)"

section \<open>Writers\<close>

definition byte_at :: "int \<Rightarrow> nat \<Rightarrow> int" where
  \<comment> \<open>\<open>val >> n\<close> stored into a \<open>uint8_t\<close>\<close>
  "byte_at val n = wrap uint8_t (drop_bit n val)"

definition store_bytes :: "bytes \<Rightarrow> bytes \<Rightarrow> bytes result" where
  "store_bytes out data = (if length data < length out then Inl OutOfBounds else Inr (out @ drop (length out) data))"

definition WriteBigEndian_1 :: "int \<Rightarrow> bytes" where
  "WriteBigEndian_1 val =
     [wrap uint8_t val]"

definition WriteBigEndian_2 :: "int \<Rightarrow> bytes" where
  "WriteBigEndian_2 val =
     [byte_at val 8, wrap uint8_t val]"

definition WriteBigEndian_4 :: "int \<Rightarrow> bytes" where
  "WriteBigEndian_4 val =
     [byte_at val 24, byte_at val 16, byte_at val 8, wrap uint8_t val]"

definition WriteBigEndian_8 :: "int \<Rightarrow> bytes" where
  "WriteBigEndian_8 val =
     [byte_at val 56, byte_at val 48, byte_at val 40, byte_at val 32,
      byte_at val 24, byte_at val 16, byte_at val 8, wrap uint8_t val]"

definition WriteLittleEndian_1 :: "int \<Rightarrow> bytes" where
  "WriteLittleEndian_1 val =
     [wrap uint8_t val]"

definition WriteLittleEndian_2 :: "int \<Rightarrow> bytes" where
  "WriteLittleEndian_2 val =
     [wrap uint8_t val, byte_at val 8]"

definition WriteLittleEndian_4 :: "int \<Rightarrow> bytes" where
  "WriteLittleEndian_4 val =
     [wrap uint8_t val, byte_at val 8, byte_at val 16, byte_at val 24]"

definition WriteLittleEndian_8 :: "int \<Rightarrow> bytes" where
  "WriteLittleEndian_8 val =
     [wrap uint8_t val, byte_at val 8, byte_at val 16, byte_at val 24,
      byte_at val 32, byte_at val 40, byte_at val 48, byte_at val 56]"

definition WriteBigEndian_u :: "nat \<Rightarrow> bytes \<Rightarrow> int \<Rightarrow> bytes result" where
  "WriteBigEndian_u B data val =
     store_bytes
       (if B = 1 then WriteBigEndian_1 val
        else if B = 2 then WriteBigEndian_2 val
        else if B = 4 then WriteBigEndian_4 val
        else if B = 8 then WriteBigEndian_8 val
        else map (\<lambda>i. byte_at val ((B - 1 - i) * 8)) [0..<B]) data"

definition WriteLittleEndian_u :: "nat \<Rightarrow> bytes \<Rightarrow> int \<Rightarrow> bytes result" where
  "WriteLittleEndian_u B data val =
     store_bytes
       (if B = 1 then WriteLittleEndian_1 val
        else if B = 2 then WriteLittleEndian_2 val
        else if B = 4 then WriteLittleEndian_4 val
        else if B = 8 then WriteLittleEndian_8 val
        else map (\<lambda>i. byte_at val (i * 8)) [0..<B]) data"

definition ReinterpretAsUnsigned :: "ctype \<Rightarrow> int \<Rightarrow> int" where
  "ReinterpretAsUnsigned T val = wrap (UnsignedOf T) val"

definition WriteBigEndian :: "ctype \<Rightarrow> nat \<Rightarrow> bytes \<Rightarrow> int \<Rightarrow> bytes result" where
  "WriteBigEndian T B data val =
     WriteBigEndian_u B data (if is_signed T then ReinterpretAsUnsigned T val else val)"

definition WriteLittleEndian :: "ctype \<Rightarrow> nat \<Rightarrow> bytes \<Rightarrow> int \<Rightarrow> bytes result" where
  "WriteLittleEndian T B data val =
     WriteLittleEndian_u B data (if is_signed T then ReinterpretAsUnsigned T val else val)"

section \<open>Lemmas\<close>

definition bits :: "ctype \<Rightarrow> nat" where
  "bits T = 8 * sizeof T"

lemma take_bit_wrap: "take_bit (bits T) (wrap T x) = take_bit (bits T) x"
proof -
  have "((x - imin T) mod 2 ^ bits T + imin T) mod 2 ^ bits T = x mod 2 ^ bits T" by (simp add: mod_add_left_eq)
  then show ?thesis by (simp add: wrap_def take_bit_eq_mod bits_def)
qed

lemma wrap_unsigned: "\<not> is_signed T \<Longrightarrow> wrap T x = take_bit (bits T) x"
  by (simp add: wrap_def imin_def take_bit_eq_mod bits_def)

lemma wrap_uint8: "wrap uint8_t x = take_bit 8 x"
  using wrap_unsigned [of uint8_t x] by (simp add: bits_def)

lemma wrap_eq_iff: "take_bit (bits T) x = take_bit (bits T) y \<Longrightarrow> wrap T x = wrap T y"
proof -
  assume "take_bit (bits T) x = take_bit (bits T) y"
  then have "x mod 2 ^ bits T = y mod 2 ^ bits T" by (simp add: take_bit_eq_mod)
  then have "(x - imin T) mod 2 ^ bits T = (y - imin T) mod 2 ^ bits T" by (metis mod_diff_left_eq)
  then show ?thesis by (simp add: wrap_def bits_def)
qed

lemma take_bit_wrap_promote: "\<not> is_iec559 T \<Longrightarrow> take_bit (bits T) (wrap (promote T) x) = take_bit (bits T) x"
proof -
  assume T: "\<not> is_iec559 T"
  have "bits T \<le> bits (promote T)" using T by (cases T) (simp_all add: promote_def bits_def)
  then show ?thesis using take_bit_wrap [of "promote T" x] by (metis min.absorb1 take_bit_take_bit)
qed

lemma take_bit_shl:
  assumes "\<not> is_iec559 T"
  shows "take_bit (bits T) (shl T x n) = take_bit (bits T) (push_bit n x)"
proof -
  have "take_bit (bits T) (push_bit n (wrap T x)) = push_bit n (take_bit (bits T - n) (wrap T x))" by (simp add: take_bit_push_bit)
  also have "\<dots> = push_bit n (take_bit (bits T - n) x)" by (metis diff_le_self min.absorb1 take_bit_take_bit take_bit_wrap)
  finally show ?thesis using take_bit_wrap_promote [OF assms] by (simp add: shl_def take_bit_push_bit)
qed

lemma take_bit_bor: "take_bit (bits T) (bor T a b) = take_bit (bits T) (a OR b)"
  by (simp add: bor_def take_bit_wrap del: take_bit_or)

lemma or_disjoint: "0 \<le> x \<Longrightarrow> x < 2 ^ n \<Longrightarrow> x OR push_bit n y = x + 2 ^ n * y" for x y :: int
proof -
  assume x: "0 \<le> x" "x < 2 ^ n"
  then have "take_bit n x = x" by (simp add: take_bit_int_eq_self)
  moreover have "take_bit n x AND push_bit n y = 0" by (rule bit_eqI) (auto simp: bit_simps)
  ultimately have "x AND push_bit n y = 0" by simp
  from disjunctive_add_eq_or [OF this] show ?thesis by (simp add: push_bit_eq_mult mult.commute)
qed

fun le_val :: "bytes \<Rightarrow> int" where
  "le_val [] = 0"
| "le_val (d # ds) = d + 256 * le_val ds"

definition be_val :: "bytes \<Rightarrow> int" where
  "be_val ds = le_val (rev ds)"

definition is_bytes :: "bytes \<Rightarrow> bool" where
  "is_bytes ds \<longleftrightarrow> list_all (\<lambda>d. 0 \<le> d \<and> d < 256) ds"

lemma is_bytes_simps [simp]:
  "is_bytes []" "is_bytes (d # ds) \<longleftrightarrow> 0 \<le> d \<and> d < 256 \<and> is_bytes ds" "is_bytes (xs @ ys) \<longleftrightarrow> is_bytes xs \<and> is_bytes ys"
  "is_bytes (rev xs) = is_bytes xs"
  by (auto simp: is_bytes_def list_all_iff)

lemma is_bytes_take: "is_bytes ds \<Longrightarrow> is_bytes (take n ds)"
  by (metis append_take_drop_id is_bytes_simps(3))

lemma le_val_append: "le_val (xs @ ys) = le_val xs + 256 ^ length xs * le_val ys"
  by (induction xs) (simp_all add: algebra_simps)

lemma le_val_bounds: "is_bytes ds \<Longrightarrow> 0 \<le> le_val ds \<and> le_val ds < 256 ^ length ds"
  by (induction ds) auto

lemma be_val_bounds: "is_bytes ds \<Longrightarrow> 0 \<le> be_val ds \<and> be_val ds < 256 ^ length ds"
  using le_val_bounds [of "rev ds"] by (simp add: be_val_def)

lemma be_val_Cons: "be_val (d # ds) = d * 256 ^ length ds + be_val ds"
  by (simp add: be_val_def le_val_append)

lemma pow256: "(256 :: int) ^ n = 2 ^ (n * 8)"
  using power_mult [of "2 :: int" 8 n] by (simp add: mult.commute)

lemma le_loop_value:
  assumes "\<not> is_iec559 T" "is_bytes ds" "is_bytes pre" "length pre = i" "i + length ds = B" "take_bit (bits T) val = take_bit (bits T) (le_val pre)"
  shows "take_bit (bits T) (le_loop T B i ds val) = take_bit (bits T) (le_val (pre @ ds))"
  using assms(2-)
proof (induction ds arbitrary: i pre val)
  case Nil
  then show ?case by simp
next
  case (Cons d ds)
  have "take_bit (bits T) (bor T val (shl T d (i * 8))) = take_bit (bits T) val OR take_bit (bits T) (push_bit (i * 8) d)"
    using take_bit_shl [OF assms(1)] by (simp add: take_bit_bor)
  also have "\<dots> = take_bit (bits T) (le_val pre OR push_bit (i * 8) d)" using Cons.prems(5) by simp
  also have "le_val pre OR push_bit (i * 8) d = le_val (pre @ [d])"
    using or_disjoint [of "le_val pre" "i * 8" d] le_val_bounds [OF Cons.prems(2)] Cons.prems(3)
    by (simp add: le_val_append pow256)
  finally have "take_bit (bits T) (bor T val (shl T d (i * 8))) = take_bit (bits T) (le_val (pre @ [d]))" .
  then show ?case using Cons.IH [of "pre @ [d]" "Suc i"] Cons.prems by simp
qed

lemma be_loop_value:
  assumes "\<not> is_iec559 T" "is_bytes ds" "is_bytes pre" "length pre = i" "i + length ds = B"
    "take_bit (bits T) val = take_bit (bits T) (push_bit ((B - i) * 8) (be_val pre))"
  shows "take_bit (bits T) (be_loop T B i ds val) = take_bit (bits T) (be_val (pre @ ds))"
  using assms(2-)
proof (induction ds arbitrary: i pre val)
  case Nil
  then show ?case by simp
next
  case (Cons d ds)
  let ?k = "(B - 1 - i) * 8"
  have k: "(B - i) * 8 = ?k + 8" "?k = length ds * 8" "B - Suc i = B - 1 - i" using Cons.prems(4) by simp_all
  have "take_bit (bits T) (bor T val (shl T d ?k)) = take_bit (bits T) val OR take_bit (bits T) (push_bit ?k d)"
    using take_bit_shl [OF assms(1)] by (simp add: take_bit_bor)
  also have "\<dots> = take_bit (bits T) (push_bit ((B - i) * 8) (be_val pre) OR push_bit ?k d)" using Cons.prems(5) by simp
  also have "push_bit ((B - i) * 8) (be_val pre) = push_bit ?k (push_bit 8 (be_val pre))" unfolding k(1) by simp
  also have "push_bit ?k (push_bit 8 (be_val pre)) OR push_bit ?k d = push_bit ?k (d OR push_bit 8 (be_val pre))"
    unfolding push_bit_or by (rule or.commute)
  also have "d OR push_bit 8 (be_val pre) = be_val (pre @ [d])"
    using or_disjoint [of d 8 "be_val pre"] Cons.prems(1) by (simp add: be_val_def)
  finally have "take_bit (bits T) (bor T val (shl T d ?k)) = take_bit (bits T) (push_bit ((B - Suc i) * 8) (be_val (pre @ [d])))" unfolding k(3) .
  then show ?case using Cons.IH [of "pre @ [d]" "Suc i"] Cons.prems by simp
qed

lemma loop_ignores_rest:
  "i + n = B \<Longrightarrow> be_loop T B i (take n ds) val = be_loop T B i ds val"
  "i + n = B \<Longrightarrow> le_loop T B i (take n ds) val = le_loop T B i ds val"
proof -
  have stop: "be_loop T B B ds val = val" "le_loop T B B ds val = val" for ds val by (cases ds; simp)+
  show "i + n = B \<Longrightarrow> be_loop T B i (take n ds) val = be_loop T B i ds val"
    by (induction n arbitrary: i ds val) (simp_all add: stop, case_tac ds, simp_all)
  show "i + n = B \<Longrightarrow> le_loop T B i (take n ds) val = le_loop T B i ds val"
    by (induction n arbitrary: i ds val) (simp_all add: stop, case_tac ds, simp_all)
qed

lemma Internal_value:
  assumes "\<not> is_iec559 T" "is_bytes data" "B \<le> length data"
  shows "take_bit (bits T) (InternalReadBigEndian T B data) = take_bit (bits T) (be_val (take B data))"
    "take_bit (bits T) (InternalReadLittleEndian T B data) = take_bit (bits T) (le_val (take B data))"
proof -
  have l: "length (take B data) = B" "is_bytes (take B data)" using assms(3) is_bytes_take [OF assms(2)] by simp_all
  show "take_bit (bits T) (InternalReadBigEndian T B data) = take_bit (bits T) (be_val (take B data))"
    using be_loop_value [OF assms(1) l(2), of "[]" 0 B 0] loop_ignores_rest(1) [of 0 B B T data 0] l
    by (simp add: InternalReadBigEndian_def be_val_def)
  show "take_bit (bits T) (InternalReadLittleEndian T B data) = take_bit (bits T) (le_val (take B data))"
    using le_loop_value [OF assms(1) l(2), of "[]" 0 B 0] loop_ignores_rest(2) [of 0 B B T data 0] l
    by (simp add: InternalReadLittleEndian_def)
qed

lemma take_bit_shl_0: "\<not> is_iec559 T \<Longrightarrow> take_bit (bits T) (shl T x 0) = take_bit (bits T) (wrap T x)"
  using take_bit_shl [of T x 0] by (simp add: take_bit_wrap)

lemma list_split2: "2 \<le> length xs \<Longrightarrow> \<exists>a b r. xs = a # b # r"
  by (metis One_nat_def Suc_1 Suc_le_length_iff)

lemma list_split4: "4 \<le> length xs \<Longrightarrow> \<exists>a b c d r. xs = a # b # c # d # r"
proof -
  assume l: "4 \<le> length xs"
  obtain a b r where r: "xs = a # b # r" using list_split2 [of xs] l by fastforce
  obtain c d q where "r = c # d # q" using list_split2 [of r] l r by fastforce
  then show ?thesis using r by blast
qed

lemma list_split8: "8 \<le> length xs \<Longrightarrow> \<exists>a b c d e f g h r. xs = a # b # c # d # e # f # g # h # r"
proof -
  assume l: "8 \<le> length xs"
  obtain a b c d r where r: "xs = a # b # c # d # r" using list_split4 [of xs] l by fastforce
  obtain e f g h q where "r = e # f # g # h # q" using list_split4 [of r] l r by fastforce
  then show ?thesis using r by blast
qed

lemma specialised_value:
  assumes T: "\<not> is_iec559 T" and b: "is_bytes data"
  shows "2 \<le> length data \<Longrightarrow> take_bit (bits T) (ReadBigEndian_2 T data) = take_bit (bits T) (InternalReadBigEndian T 2 data)"
    "2 \<le> length data \<Longrightarrow> take_bit (bits T) (ReadLittleEndian_2 T data) = take_bit (bits T) (InternalReadLittleEndian T 2 data)"
    "4 \<le> length data \<Longrightarrow> take_bit (bits T) (ReadBigEndian_4 T data) = take_bit (bits T) (InternalReadBigEndian T 4 data)"
    "4 \<le> length data \<Longrightarrow> take_bit (bits T) (ReadLittleEndian_4 T data) = take_bit (bits T) (InternalReadLittleEndian T 4 data)"
    "8 \<le> length data \<Longrightarrow> take_bit (bits T) (ReadBigEndian_8 T data) = take_bit (bits T) (InternalReadBigEndian T 8 data)"
    "8 \<le> length data \<Longrightarrow> take_bit (bits T) (ReadLittleEndian_8 T data) = take_bit (bits T) (InternalReadLittleEndian T 8 data)"
proof -
  note reads = take_bit_bor take_bit_wrap take_bit_shl [OF T] InternalReadBigEndian_def InternalReadLittleEndian_def
  have stop: "be_loop T B B ds val = val" "le_loop T B B ds val = val" for B ds val by (cases ds; simp)+
  { assume "2 \<le> length data"
    then obtain x y r where d: "data = x # y # r" using list_split2 by blast
    show "take_bit (bits T) (ReadBigEndian_2 T data) = take_bit (bits T) (InternalReadBigEndian T 2 data)"
      by (simp add: d reads ReadBigEndian_2_def stop numeral_eq_Suc or.assoc)
    show "take_bit (bits T) (ReadLittleEndian_2 T data) = take_bit (bits T) (InternalReadLittleEndian T 2 data)"
      by (simp add: d reads ReadLittleEndian_2_def stop numeral_eq_Suc or.assoc) }
  { assume "4 \<le> length data"
    then obtain x y z w r where d: "data = x # y # z # w # r" using list_split4 by blast
    show "take_bit (bits T) (ReadBigEndian_4 T data) = take_bit (bits T) (InternalReadBigEndian T 4 data)"
      by (simp add: d reads ReadBigEndian_4_def stop numeral_eq_Suc or.assoc)
    show "take_bit (bits T) (ReadLittleEndian_4 T data) = take_bit (bits T) (InternalReadLittleEndian T 4 data)"
      by (simp add: d reads ReadLittleEndian_4_def stop numeral_eq_Suc or.assoc) }
  { assume "8 \<le> length data"
    then obtain x1 x2 x3 x4 x5 x6 x7 x8 r where d: "data = x1 # x2 # x3 # x4 # x5 # x6 # x7 # x8 # r" using list_split8 by blast
    show "take_bit (bits T) (ReadBigEndian_8 T data) = take_bit (bits T) (InternalReadBigEndian T 8 data)"
      by (simp add: d reads ReadBigEndian_8_def stop numeral_eq_Suc or.assoc)
    show "take_bit (bits T) (ReadLittleEndian_8 T data) = take_bit (bits T) (InternalReadLittleEndian T 8 data)"
      by (simp add: d reads ReadLittleEndian_8_def stop numeral_eq_Suc or.assoc) }
qed

lemma small_val: "B \<le> sizeof T \<Longrightarrow> 0 \<le> x \<Longrightarrow> x < 256 ^ B \<Longrightarrow> take_bit (bits T) x = x" for x :: int
proof -
  assume a: "B \<le> sizeof T" "0 \<le> x" "x < 256 ^ B"
  have "(2 :: int) ^ (B * 8) \<le> 2 ^ bits T" using a(1) by (intro power_increasing) (simp_all add: bits_def)
  then have "x < 2 ^ bits T" using a(3) unfolding pow256 by linarith
  with a(2) show ?thesis by (rule take_bit_int_eq_self)
qed

lemma be_take_bounds: "is_bytes data \<Longrightarrow> B \<le> length data \<Longrightarrow> 0 \<le> be_val (take B data) \<and> be_val (take B data) < 256 ^ B"
  using be_val_bounds [OF is_bytes_take, of data B] by simp

lemma le_take_bounds: "is_bytes data \<Longrightarrow> B \<le> length data \<Longrightarrow> 0 \<le> le_val (take B data) \<and> le_val (take B data) < 256 ^ B"
  using le_val_bounds [OF is_bytes_take, of data B] by simp

lemma loops_in_type:
  "in_type T val \<Longrightarrow> in_type T (be_loop T B i ds val)" "in_type T val \<Longrightarrow> in_type T (le_loop T B i ds val)"
  by (induction ds arbitrary: i val) (simp_all add: bor_def wrap_in_type)

lemma in_type_0: "in_type T 0"
  by (cases T) (simp_all add: limit_defs)

lemma read_u_value:
  assumes T: "\<not> is_iec559 T" and b: "is_bytes data" "B \<le> length data" and B: "0 < B" "B \<le> sizeof T"
  shows "\<exists>x. ReadBigEndian_u T B data = Inr x \<and> in_type T x \<and> take_bit (bits T) x = be_val (take B data)"
    "\<exists>x. ReadLittleEndian_u T B data = Inr x \<and> in_type T x \<and> take_bit (bits T) x = le_val (take B data)"
proof -
  have v: "take_bit (bits T) (be_val (take B data)) = be_val (take B data)" "take_bit (bits T) (le_val (take B data)) = le_val (take B data)"
    using small_val [OF B(2)] be_take_bounds [OF b] le_take_bounds [OF b] by simp_all
  have one: "B = 1 \<Longrightarrow> be_val (take B data) = data ! 0 \<and> le_val (take B data) = data ! 0"
    using b(2) by (cases data) (simp_all add: be_val_def)
  show "\<exists>x. ReadBigEndian_u T B data = Inr x \<and> in_type T x \<and> take_bit (bits T) x = be_val (take B data)"
    using b(2) specialised_value [OF T b(1)] Internal_value(1) [OF T b] v(1) one
    by (auto simp: ReadBigEndian_u_def wrap_in_type ReadBigEndian_1_def ReadBigEndian_2_def ReadBigEndian_4_def ReadBigEndian_8_def
        InternalReadBigEndian_def in_type_0 loops_in_type take_bit_wrap simp del: take_bit_or)
  show "\<exists>x. ReadLittleEndian_u T B data = Inr x \<and> in_type T x \<and> take_bit (bits T) x = le_val (take B data)"
    using b(2) specialised_value [OF T b(1)] Internal_value(2) [OF T b] v(2) one
    by (auto simp: ReadLittleEndian_u_def wrap_in_type ReadLittleEndian_1_def ReadLittleEndian_2_def ReadLittleEndian_4_def ReadLittleEndian_8_def
        InternalReadLittleEndian_def in_type_0 loops_in_type take_bit_wrap simp del: take_bit_or)
qed

lemma byte_at_byte: "0 \<le> byte_at v n \<and> byte_at v n < 256"
  by (simp add: byte_at_def wrap_uint8 take_bit_eq_mod)

lemma byte_at_0: "wrap uint8_t v = byte_at v 0"
  by (simp add: byte_at_def)

lemma le_bytes: "le_val (map (\<lambda>i. byte_at v (i * 8)) [0..<B]) = take_bit (B * 8) v"
proof (induction B)
  case 0
  then show ?case by simp
next
  case (Suc B)
  have "v mod (2 ^ (B * 8) * 256) = 2 ^ (B * 8) * (v div 2 ^ (B * 8) mod 256) + v mod 2 ^ (B * 8)" by (rule zmod_zmult2_eq) simp
  moreover have "(2 :: int) ^ (Suc B * 8) = 2 ^ (B * 8) * 256" by (simp add: power_add)
  ultimately show ?case
    using Suc by (simp add: le_val_append byte_at_def wrap_uint8 take_bit_eq_mod drop_bit_eq_div pow256)
qed

lemma be_bytes_rev: "map (\<lambda>i. byte_at v ((B - 1 - i) * 8)) [0..<B] = rev (map (\<lambda>i. byte_at v (i * 8)) [0..<B])"
  by (rule nth_equalityI) (simp_all add: rev_nth)

definition be_bytes :: "nat \<Rightarrow> int \<Rightarrow> bytes" where
  "be_bytes B v = map (\<lambda>i. byte_at v ((B - 1 - i) * 8)) [0..<B]"

definition le_bytes_of :: "nat \<Rightarrow> int \<Rightarrow> bytes" where
  "le_bytes_of B v = map (\<lambda>i. byte_at v (i * 8)) [0..<B]"

lemma bytes_of_props:
  "length (be_bytes B v) = B" "is_bytes (be_bytes B v)" "be_val (be_bytes B v) = take_bit (B * 8) v"
  "length (le_bytes_of B v) = B" "is_bytes (le_bytes_of B v)" "le_val (le_bytes_of B v) = take_bit (B * 8) v"
  by (simp_all add: be_bytes_def le_bytes_of_def is_bytes_def list_all_iff byte_at_byte le_bytes be_val_def be_bytes_rev [of v B, simplified])

lemma write_u_value:
  "WriteBigEndian_u B data v = store_bytes (be_bytes B v) data" "WriteLittleEndian_u B data v = store_bytes (le_bytes_of B v) data"
  by (auto simp: WriteBigEndian_u_def WriteLittleEndian_u_def be_bytes_def le_bytes_of_def byte_at_0 upt_rec numeral_eq_Suc
      WriteBigEndian_1_def WriteBigEndian_2_def WriteBigEndian_4_def WriteBigEndian_8_def
      WriteLittleEndian_1_def WriteLittleEndian_2_def WriteLittleEndian_4_def WriteLittleEndian_8_def)

definition signed_type :: "ctype \<Rightarrow> bool" where
  "signed_type T \<longleftrightarrow> T \<in> {int8_t, int16_t, int32_t, int64_t}"

lemma signed_type_facts:
  assumes "signed_type T"
  shows "\<not> is_iec559 T" "is_signed T" "\<not> is_signed (UnsignedOf T)" "bits (UnsignedOf T) = bits T" "0 < bits T"
    "imin T = - (2 ^ (bits T - 1))" "shl (UnsignedOf T) 1 (sizeof T * 8 - 1) = 2 ^ (bits T - 1)"
  using assms by (auto simp: signed_type_def bits_def imin_def shl_def wrap_def promote_def)

lemma neg_exp_push: "- (2 ^ n) = push_bit n (- 1 :: int)"
  by (simp add: push_bit_eq_mult)

lemma bit_half: "0 \<le> u \<Longrightarrow> u < 2 ^ Suc n \<Longrightarrow> bit u n \<longleftrightarrow> 2 ^ n \<le> u" for u :: int
proof -
  assume u: "0 \<le> u" "u < 2 ^ Suc n"
  show ?thesis
  proof (cases "u < 2 ^ n")
    case True
    then show ?thesis using u by (simp add: bit_iff_odd)
  next
    case False
    then have "u div 2 ^ n = 1" using u by (intro int_div_pos_eq [where r = "u - 2 ^ n"]) simp_all
    then show ?thesis using False by (simp add: bit_iff_odd)
  qed
qed

lemma ReinterpretAsSigned_value:
  assumes T: "signed_type T" and u: "0 \<le> u" "u < 2 ^ bits T"
  shows "ReinterpretAsSigned T u = wrap T u"
proof -
  define k where "k = bits T - 1"
  have n: "bits T = Suc k" using signed_type_facts(5) [OF T] by (simp add: k_def)
  note f = signed_type_facts [OF T]
  have d: "ReinterpretAsSigned T u =
      (if u AND 2 ^ k \<noteq> 0 then wrap T (wrap T (u AND NOT (2 ^ k)) OR - (2 ^ k)) else wrap T u)"
    unfolding ReinterpretAsSigned_def Let_def f(6,7) k_def by (rule refl)
  show ?thesis
  proof (cases "bit u k")
    case False
    then show ?thesis by (simp add: d and_exp_eq_0_iff_not_bit)
  next
    case True
    then have le: "2 ^ k \<le> u" using bit_half [of u k] u n by simp
    have a: "u AND 2 ^ k \<noteq> 0" using True by (simp add: and_exp_eq_0_iff_not_bit)
    have "NOT u AND 2 ^ k = 0" using True by (simp add: and_exp_eq_0_iff_not_bit bit_not_iff)
    then have "u AND NOT (2 ^ k) = u - 2 ^ k" by (simp add: disjunctive_diff_eq_and_not)
    moreover have r: "0 \<le> u - 2 ^ k" "u - 2 ^ k < 2 ^ k" using le u n by simp_all
    moreover have "wrap T (u - 2 ^ k) = u - 2 ^ k"
      using r f(2,6) by (intro wrap_id) (simp add: in_type_def range_size bits_def [symmetric] n)
    ultimately have "wrap T (u AND NOT (2 ^ k)) OR - (2 ^ k) = u - 2 ^ bits T"
      using or_disjoint [OF r, of "- 1"] by (simp add: neg_exp_push n)
    moreover have "wrap T (u - 2 ^ bits T) = wrap T u" by (rule wrap_eq_iff) (simp add: take_bit_eq_mod)
    ultimately show ?thesis using a by (simp add: d)
  qed
qed

lemma SignExtend_value:
  assumes T: "signed_type T" and B: "0 < B" "B < sizeof T" and v: "0 \<le> v" "v < 2 ^ (B * 8)"
  shows "SignExtend T B v =
    (if v < 2 ^ (B * 8 - 1) then Inr v
     else if B < 4 then Inr (take_bit (bits T) (v - 2 ^ (B * 8))) else Inl BadShift)"
proof -
  note f = signed_type_facts [OF T]
  have s: "B mod sizeof T = B" "Suc (B * 8 - 1) = B * 8" "B * 8 - 1 = (B - 1) * 8 + 7" using B by simp_all
  have "(wrap uint8_t (drop_bit ((B - 1) * 8) v) AND 0x80 \<noteq> 0) = bit v (B * 8 - 1)"
    using and_exp_eq_0_iff_not_bit [of "wrap uint8_t (drop_bit ((B - 1) * 8) v)" 7] s(3)
    by (simp add: wrap_uint8 bit_simps add.commute)
  also have "\<dots> = (2 ^ (B * 8 - 1) \<le> v)" using bit_half [of v "B * 8 - 1"] v s(2) by simp
  finally have msb: "(wrap uint8_t (drop_bit ((B - 1) * 8) v) AND 0x80 \<noteq> 0) = (2 ^ (B * 8 - 1) \<le> v)" .
  have le: "B * 8 < bits T" using B by (simp add: bits_def)
  have "(2 :: int) ^ (B * 8) < 2 ^ bits T" using le by simp
  then have "(2 :: int) ^ (B * 8) - 1 < 2 ^ bits T" by linarith
  then have m: "wrap (UnsignedOf T) (2 ^ (B * 8) - 1) = 2 ^ (B * 8) - 1"
    using f(3,4) by (simp add: wrap_unsigned take_bit_int_eq_self)
  have "NOT (2 ^ (B * 8) - 1) = (- (2 ^ (B * 8)) :: int)" by (simp add: not_int_def)
  then have "NOT (wrap (UnsignedOf T) (2 ^ (B * 8) - 1)) OR v = v - 2 ^ (B * 8)"
    using or_disjoint [OF v, of "- 1"] m by (simp add: neg_exp_push or.commute)
  then show ?thesis using msb s f(3,4) by (auto simp: SignExtend_def Let_def wrap_unsigned)
qed

lemma take_bit_signed_cases:
  fixes v :: int
  assumes "0 < n" "- (2 ^ (n - 1)) \<le> v" "v < 2 ^ (n - 1)"
  shows "take_bit n v = (if 0 \<le> v then v else v + 2 ^ n)" "take_bit n v < 2 ^ (n - 1) \<longleftrightarrow> 0 \<le> v"
proof -
  have n: "(2 :: int) ^ n = 2 * 2 ^ (n - 1)" using assms(1) by (cases n) simp_all
  have "(v + 2 ^ n) mod 2 ^ n = v + 2 ^ n" if "v < 0" using assms that n by (intro mod_pos_pos_trivial) simp_all
  then show c: "take_bit n v = (if 0 \<le> v then v else v + 2 ^ n)" using assms n by (auto simp: take_bit_eq_mod)
  show "take_bit n v < 2 ^ (n - 1) \<longleftrightarrow> 0 \<le> v" using assms n by (simp add: c)
qed

lemma read_signed_value:
  assumes T: "signed_type T" and B: "0 < B" "B \<le> sizeof T" and v: "- (2 ^ (B * 8 - 1)) \<le> v" "v < 2 ^ (B * 8 - 1)"
    and x: "take_bit (bits T) x = take_bit (B * 8) v"
  shows "read_signed T B x = (if v < 0 \<and> 4 \<le> B \<and> B < sizeof T then Inl BadShift else Inr v)"
proof -
  note f = signed_type_facts [OF T]
  let ?t = "take_bit (B * 8) v"
  have t: "0 \<le> ?t" "?t < 2 ^ (B * 8)" by simp_all
  note c = take_bit_signed_cases [of "B * 8" v] 
  have uv: "wrap (UnsignedOf T) x = ?t" using f(3,4) x by (simp add: wrap_unsigned)
  have le: "B * 8 - 1 \<le> bits T - 1" using B by (simp add: bits_def)
  have "(2 :: int) ^ (B * 8 - 1) \<le> 2 ^ (bits T - 1)" using le by simp
  then have "- (2 ^ (bits T - 1)) \<le> v" "v < 2 ^ (bits T - 1)" using v by linarith+
  then have "in_type T v" using f(2) by (simp add: in_type_def imax_def imin_def bits_def)
  then have wv: "wrap T v = v" by (rule wrap_id)
  have u2: "(2 :: int) ^ (B * 8) \<le> 2 ^ bits T" using B by (intro power_increasing) (simp_all add: bits_def)
  have RS: "ReinterpretAsSigned T (take_bit (bits T) y) = wrap T y" for y
    using ReinterpretAsSigned_value [OF T, of "take_bit (bits T) y"] wrap_eq_iff [of T "take_bit (bits T) y" y] by simp
  have tt: "take_bit (bits T) ?t = ?t" using t u2 by (simp add: take_bit_int_eq_self)
  show ?thesis
  proof (cases "B < sizeof T")
    case True
    have vv: "\<not> v < 0 \<Longrightarrow> ?t = v" "v < 0 \<Longrightarrow> ?t - 2 ^ (B * 8) = v" using c B v by simp_all
    have half: "?t < 2 ^ (B * 8 - 1) \<longleftrightarrow> 0 \<le> v" using c(2) B v by simp
    show ?thesis
      using SignExtend_value [OF T B(1) True t] half vv RS [of v] RS [of ?t] tt wv True
      by (auto simp: read_signed_def uv)
  next
    case False
    then have Bs: "B * 8 = bits T" using B by (simp add: bits_def)
    show ?thesis using False RS [of v] wv by (simp add: read_signed_def uv Bs)
  qed
qed

section \<open>Byte order of the host\<close>

definition bswap :: "nat \<Rightarrow> int \<Rightarrow> int" where
  "bswap n v = be_val (le_bytes_of n v)"

definition htobe :: "bool \<Rightarrow> nat \<Rightarrow> int \<Rightarrow> int" where
  \<comment> \<open>\<open>htobe16\<close>, \<open>htobe32\<close>, \<open>htobe64\<close> and the inverse \<open>be16toh\<close>, \<open>be32toh\<close>, \<open>be64toh\<close>\<close>
  "htobe big n v = (if big then v else bswap n v)"

definition htole :: "bool \<Rightarrow> nat \<Rightarrow> int \<Rightarrow> int" where
  "htole big n v = (if big then bswap n v else v)"

definition store_host :: "bool \<Rightarrow> nat \<Rightarrow> bytes \<Rightarrow> int \<Rightarrow> bytes result" where
  \<comment> \<open>\<open>*static_cast<uintN_t*>(memory) = v\<close>\<close>
  "store_host big n memory v = store_bytes (if big then be_bytes n v else le_bytes_of n v) memory"

definition load_host :: "bool \<Rightarrow> nat \<Rightarrow> bytes \<Rightarrow> int result" where
  "load_host big n memory =
     (if length memory < n then Inl OutOfBounds
      else Inr (if big then be_val (take n memory) else le_val (take n memory)))"

definition Set8 :: "bytes \<Rightarrow> nat \<Rightarrow> int \<Rightarrow> bytes result" where
  "Set8 memory offset v = (if offset < length memory then Inr (memory[offset := v]) else Inl OutOfBounds)"

definition Get8 :: "bytes \<Rightarrow> nat \<Rightarrow> int result" where
  "Get8 memory offset = (if offset < length memory then Inr (memory ! offset) else Inl OutOfBounds)"

definition SetBE16 :: "bool \<Rightarrow> bytes \<Rightarrow> int \<Rightarrow> bytes result" where
  "SetBE16 big memory v = store_host big 2 memory (htobe big 2 v)"

definition SetBE32 :: "bool \<Rightarrow> bytes \<Rightarrow> int \<Rightarrow> bytes result" where
  "SetBE32 big memory v = store_host big 4 memory (htobe big 4 v)"

definition SetBE64 :: "bool \<Rightarrow> bytes \<Rightarrow> int \<Rightarrow> bytes result" where
  "SetBE64 big memory v = store_host big 8 memory (htobe big 8 v)"

definition GetBE16 :: "bool \<Rightarrow> bytes \<Rightarrow> int result" where
  "GetBE16 big memory = rbind (load_host big 2 memory) (\<lambda>w. Inr (htobe big 2 w))"

definition GetBE32 :: "bool \<Rightarrow> bytes \<Rightarrow> int result" where
  "GetBE32 big memory = rbind (load_host big 4 memory) (\<lambda>w. Inr (htobe big 4 w))"

definition GetBE64 :: "bool \<Rightarrow> bytes \<Rightarrow> int result" where
  "GetBE64 big memory = rbind (load_host big 8 memory) (\<lambda>w. Inr (htobe big 8 w))"

definition SetLE16 :: "bool \<Rightarrow> bytes \<Rightarrow> int \<Rightarrow> bytes result" where
  "SetLE16 big memory v = store_host big 2 memory (htole big 2 v)"

definition SetLE32 :: "bool \<Rightarrow> bytes \<Rightarrow> int \<Rightarrow> bytes result" where
  "SetLE32 big memory v = store_host big 4 memory (htole big 4 v)"

definition SetLE64 :: "bool \<Rightarrow> bytes \<Rightarrow> int \<Rightarrow> bytes result" where
  "SetLE64 big memory v = store_host big 8 memory (htole big 8 v)"

definition GetLE16 :: "bool \<Rightarrow> bytes \<Rightarrow> int result" where
  "GetLE16 big memory = rbind (load_host big 2 memory) (\<lambda>w. Inr (htole big 2 w))"

definition GetLE32 :: "bool \<Rightarrow> bytes \<Rightarrow> int result" where
  "GetLE32 big memory = rbind (load_host big 4 memory) (\<lambda>w. Inr (htole big 4 w))"

definition GetLE64 :: "bool \<Rightarrow> bytes \<Rightarrow> int result" where
  "GetLE64 big memory = rbind (load_host big 8 memory) (\<lambda>w. Inr (htole big 8 w))"

definition HostToNetwork16 :: "bool \<Rightarrow> int \<Rightarrow> int" where
  "HostToNetwork16 big n = htobe big 2 n"

definition HostToNetwork32 :: "bool \<Rightarrow> int \<Rightarrow> int" where
  "HostToNetwork32 big n = htobe big 4 n"

definition HostToNetwork64 :: "bool \<Rightarrow> int \<Rightarrow> int" where
  "HostToNetwork64 big n = htobe big 8 n"

definition NetworkToHost16 :: "bool \<Rightarrow> int \<Rightarrow> int" where
  "NetworkToHost16 big n = htobe big 2 n"

definition NetworkToHost32 :: "bool \<Rightarrow> int \<Rightarrow> int" where
  "NetworkToHost32 big n = htobe big 4 n"

definition NetworkToHost64 :: "bool \<Rightarrow> int \<Rightarrow> int" where
  "NetworkToHost64 big n = htobe big 8 n"

lemma byte_at_shift: "0 \<le> d \<Longrightarrow> d < 256 \<Longrightarrow> byte_at (d + 256 * x) (8 + n) = byte_at x n"
proof -
  assume d: "0 \<le> d" "d < 256"
  have "(d + 256 * x) div (256 * 2 ^ n) = (d + 256 * x) div 256 div 2 ^ n" by (rule zdiv_zmult2_eq) simp
  also have "(d + 256 * x) div 256 = x" using d by simp
  finally show ?thesis by (simp add: byte_at_def drop_bit_eq_div power_add)
qed

lemma le_bytes_of_val: "is_bytes ds \<Longrightarrow> le_bytes_of (length ds) (le_val ds) = ds"
proof (induction ds)
  case Nil
  then show ?case by (simp add: le_bytes_of_def)
next
  case (Cons d ds)
  have "byte_at (d + 256 * le_val ds) 0 = d" using Cons.prems by (simp add: byte_at_def wrap_uint8 take_bit_eq_mod)
  moreover have "byte_at (d + 256 * le_val ds) (Suc i * 8) = byte_at (le_val ds) (i * 8)" for i
    using byte_at_shift [of d "le_val ds" "i * 8"] Cons.prems by simp
  ultimately show ?case using Cons by (simp add: le_bytes_of_def map_upt_Suc del: upt_Suc mult_Suc)
qed

lemma be_bytes_rev': "be_bytes n v = rev (le_bytes_of n v)"
  using be_bytes_rev [of v n] by (simp add: be_bytes_def le_bytes_of_def)

lemma bswap_bytes: "le_bytes_of n (bswap n v) = be_bytes n v" "be_bytes n (bswap n v) = le_bytes_of n v"
proof -
  show le: "le_bytes_of n (bswap n v) = be_bytes n v"
    using le_bytes_of_val [of "be_bytes n v"] bytes_of_props [of n v] by (simp add: bswap_def be_val_def be_bytes_rev')
  show "be_bytes n (bswap n v) = le_bytes_of n v" using be_bytes_rev' [of n "bswap n v"] le by (simp add: be_bytes_rev')
qed

lemma bswap_bswap: "0 \<le> v \<Longrightarrow> v < 2 ^ (n * 8) \<Longrightarrow> bswap n (bswap n v) = v"
  using bswap_bytes [of n v] bytes_of_props [of n v] by (simp add: bswap_def [of n "bswap n v"] take_bit_int_eq_self)

lemma host_store: "store_host big n memory (htobe big n v) = store_bytes (be_bytes n v) memory"
  "store_host big n memory (htole big n v) = store_bytes (le_bytes_of n v) memory"
  by (simp_all add: store_host_def htobe_def htole_def bswap_bytes)

lemma host_load:
  assumes "n \<le> length memory" "0 \<le> v" "v < 2 ^ (n * 8)"
  shows "take n memory = be_bytes n v \<Longrightarrow> rbind (load_host big n memory) (\<lambda>w. Inr (htobe big n w)) = Inr v"
    "take n memory = le_bytes_of n v \<Longrightarrow> rbind (load_host big n memory) (\<lambda>w. Inr (htole big n w)) = Inr v"
proof -
  have v: "take_bit (n * 8) v = v" using assms(2,3) by (simp add: take_bit_int_eq_self)
  have l: "le_val (be_bytes n v) = bswap n v" "be_val (le_bytes_of n v) = bswap n v" by (simp_all add: bswap_def be_val_def be_bytes_rev')
  show "take n memory = be_bytes n v \<Longrightarrow> rbind (load_host big n memory) (\<lambda>w. Inr (htobe big n w)) = Inr v"
    using assms v l bytes_of_props [of n v] bswap_bswap [OF assms(2,3)] by (auto simp: load_host_def htobe_def)
  show "take n memory = le_bytes_of n v \<Longrightarrow> rbind (load_host big n memory) (\<lambda>w. Inr (htole big n w)) = Inr v"
    using assms v l bytes_of_props [of n v] bswap_bswap [OF assms(2,3)] by (auto simp: load_host_def htole_def)
qed

section \<open>Properties\<close>

lemma store_bytes_ok: "length out \<le> length data \<Longrightarrow> store_bytes out data = Inr (out @ drop (length out) data)"
  by (simp add: store_bytes_def)

text \<open>Reading undoes writing for an unsigned integer in any number of bytes that holds it, in both byte
  orders; the writer leaves exactly the bytes of the value, the rest of the array unchanged, and
  the specialised readers for 2, 4 and 8 bytes are unrolled loops.\<close>

theorem byte_io_roundtrip:
  assumes T: "\<not> is_iec559 T" "\<not> is_signed T" and B: "0 < B" "B \<le> sizeof T" and v: "0 \<le> v" "v < 2 ^ (B * 8)"
    and d: "is_bytes data" "B \<le> length data"
  shows "WriteBigEndian T B data v = Inr (be_bytes B v @ drop B data) \<and>
    rbind (WriteBigEndian T B data v) (ReadBigEndian T B) = Inr v \<and>
    rbind (WriteLittleEndian T B data v) (ReadLittleEndian T B) = Inr v \<and>
    ReadBigEndian T B data = Inr (InternalReadBigEndian T B data) \<and>
    ReadLittleEndian T B data = Inr (InternalReadLittleEndian T B data)"
proof -
  have exact: "take_bit (bits T) x = x" if "in_type T x" for x using that T(2) wrap_id wrap_unsigned by metis
  have tv: "take_bit (B * 8) v = v" using v by (simp add: take_bit_int_eq_self)
  have ib: "is_bytes (drop B data)" using d(1) by (metis append_take_drop_id is_bytes_simps(3))
  have b: "is_bytes (be_bytes B v @ drop B data)" "is_bytes (le_bytes_of B v @ drop B data)" using ib bytes_of_props by simp_all
  have w: "WriteBigEndian T B data v = Inr (be_bytes B v @ drop B data)"
    "WriteLittleEndian T B data v = Inr (le_bytes_of B v @ drop B data)"
    using T(2) d(2) by (simp_all add: WriteBigEndian_def WriteLittleEndian_def write_u_value store_bytes_ok bytes_of_props)
  have "ReadBigEndian T B (be_bytes B v @ drop B data) = Inr v"
    using read_u_value(1) [OF T(1) b(1) _ B] d(2) bytes_of_props [of B v] tv exact T(2) by (auto simp: ReadBigEndian_def)
  moreover have "ReadLittleEndian T B (le_bytes_of B v @ drop B data) = Inr v"
    using read_u_value(2) [OF T(1) b(2) _ B] d(2) bytes_of_props [of B v] tv exact T(2) by (auto simp: ReadLittleEndian_def)
  moreover have "ReadBigEndian T B data = Inr (InternalReadBigEndian T B data)"
    using read_u_value(1) [OF T(1) d B] Internal_value(1) [OF T(1) d] exact loops_in_type(1) [OF in_type_0]
      small_val [OF B(2)] be_take_bounds [OF d] T(2) by (auto simp: ReadBigEndian_def InternalReadBigEndian_def)
  moreover have "ReadLittleEndian T B data = Inr (InternalReadLittleEndian T B data)"
    using read_u_value(2) [OF T(1) d B] Internal_value(2) [OF T(1) d] exact loops_in_type(2) [OF in_type_0]
      small_val [OF B(2)] le_take_bounds [OF d] T(2) by (auto simp: ReadLittleEndian_def InternalReadLittleEndian_def)
  ultimately show ?thesis using w by simp
qed

theorem byte_io_roundtrip_witness:
  "rbind (WriteBigEndian uint32_t 3 [0, 0, 0, 9] 66051) (ReadBigEndian uint32_t 3) = Inr 66051"
  by (rule byte_io_roundtrip [THEN conjunct2, THEN conjunct1]) simp_all

text \<open>Claim C35. A signed integer written in \<open>B\<close> bytes is read back, sign included, whenever it fits, except that
  sign extension from 4 to 7 bytes in an 8-byte type shifts an \<open>int\<close> by its width or more: every
  negative number of such a width is undefined behaviour.\<close>

theorem byte_io_signed_roundtrip:
  assumes T: "signed_type T" and B: "0 < B" "B \<le> sizeof T" and v: "- (2 ^ (B * 8 - 1)) \<le> v" "v < 2 ^ (B * 8 - 1)"
    and d: "is_bytes data" "B \<le> length data"
  shows "rbind (WriteBigEndian T B data v) (ReadBigEndian T B) =
      (if v < 0 \<and> 4 \<le> B \<and> B < sizeof T then Inl BadShift else Inr v) \<and>
    rbind (WriteLittleEndian T B data v) (ReadLittleEndian T B) =
      (if v < 0 \<and> 4 \<le> B \<and> B < sizeof T then Inl BadShift else Inr v)"
proof -
  note f = signed_type_facts [OF T]
  define u where "u = ReinterpretAsUnsigned T v"
  have tu: "take_bit (B * 8) u = take_bit (B * 8) v"
    using f(3,4) B(2) by (simp add: u_def ReinterpretAsUnsigned_def wrap_unsigned bits_def min_def)
  have ib: "is_bytes (drop B data)" using d(1) by (metis append_take_drop_id is_bytes_simps(3))
  have b: "is_bytes (be_bytes B u @ drop B data)" "is_bytes (le_bytes_of B u @ drop B data)" using ib bytes_of_props by simp_all
  have w: "WriteBigEndian T B data v = Inr (be_bytes B u @ drop B data)"
    "WriteLittleEndian T B data v = Inr (le_bytes_of B u @ drop B data)"
    using f(2) d(2) by (simp_all add: WriteBigEndian_def WriteLittleEndian_def write_u_value store_bytes_ok bytes_of_props u_def)
  obtain x where x: "ReadBigEndian_u T B (be_bytes B u @ drop B data) = Inr x" "take_bit (bits T) x = take_bit (B * 8) v"
    using read_u_value(1) [OF f(1) b(1) _ B] d(2) bytes_of_props [of B u] tu by auto
  obtain y where y: "ReadLittleEndian_u T B (le_bytes_of B u @ drop B data) = Inr y" "take_bit (bits T) y = take_bit (B * 8) v"
    using read_u_value(2) [OF f(1) b(2) _ B] d(2) bytes_of_props [of B u] tu by auto
  show ?thesis
    using read_signed_value [OF T B v x(2)] read_signed_value [OF T B v y(2)] x(1) y(1) w f(2)
    by (simp add: ReadBigEndian_def ReadLittleEndian_def)
qed

theorem byte_io_signed_roundtrip_witness:
  "rbind (WriteBigEndian int32_t 3 [0, 0, 0] (- 5)) (ReadBigEndian int32_t 3) = Inr (- 5) \<and>
   rbind (WriteBigEndian int64_t 5 [0, 0, 0, 0, 0] (- 5)) (ReadBigEndian int64_t 5) = Inl BadShift"
  using byte_io_signed_roundtrip [of int32_t 3 "- 5" "[0, 0, 0]"]
    byte_io_signed_roundtrip [of int64_t 5 "- 5" "[0, 0, 0, 0, 0]"] by (simp add: signed_type_def)

text \<open>The accessors of \<open>byteorder.h\<close> do not depend on the host: on a little- and on a big-endian machine
  they leave the same bytes in memory and read the same value back, and converting to network
  order and back is the identity.\<close>

theorem byteorder_host_independent:
  assumes "0 \<le> v" "v < 2 ^ 16" "2 \<le> length m2" "4 \<le> length m4" "8 \<le> length m8"
    and "0 \<le> w" "w < 2 ^ 32" "0 \<le> x" "x < 2 ^ 64"
  shows "SetBE16 big m2 v = Inr (be_bytes 2 v @ drop 2 m2) \<and> rbind (SetBE16 big m2 v) (GetBE16 big') = Inr v \<and>
    rbind (SetLE16 big m2 v) (GetLE16 big') = Inr v \<and>
    SetBE32 big m4 w = Inr (be_bytes 4 w @ drop 4 m4) \<and> rbind (SetBE32 big m4 w) (GetBE32 big') = Inr w \<and>
    rbind (SetLE32 big m4 w) (GetLE32 big') = Inr w \<and>
    SetBE64 big m8 x = Inr (be_bytes 8 x @ drop 8 m8) \<and> rbind (SetBE64 big m8 x) (GetBE64 big') = Inr x \<and>
    rbind (SetLE64 big m8 x) (GetLE64 big') = Inr x \<and>
    NetworkToHost16 big (HostToNetwork16 big v) = v \<and> NetworkToHost32 big (HostToNetwork32 big w) = w \<and>
    NetworkToHost64 big (HostToNetwork64 big x) = x"
proof -
  have set: "store_bytes (be_bytes n v) m = Inr (be_bytes n v @ drop n m)"
      "store_bytes (le_bytes_of n v) m = Inr (le_bytes_of n v @ drop n m)" if "n \<le> length m" for n v m
    using that by (simp_all add: store_bytes_ok bytes_of_props)
  have get: "rbind (load_host big' n (be_bytes n v @ drop n m)) (\<lambda>w. Inr (htobe big' n w)) = Inr v"
      "rbind (load_host big' n (le_bytes_of n v @ drop n m)) (\<lambda>w. Inr (htole big' n w)) = Inr v"
    if "n \<le> length m" "0 \<le> v" "v < 2 ^ (n * 8)" for n v m
    using host_load [of n _ v big'] that by (simp_all add: bytes_of_props)
  have swap: "htobe big n (htobe big n v) = v" if "0 \<le> v" "v < 2 ^ (n * 8)" for n v
    using bswap_bswap [OF that] by (simp add: htobe_def)
  show ?thesis
    using assms set get swap [of _ 2] swap [of _ 4] swap [of _ 8]
    by (simp add: SetBE16_def SetBE32_def SetBE64_def GetBE16_def GetBE32_def GetBE64_def SetLE16_def SetLE32_def
        SetLE64_def GetLE16_def GetLE32_def GetLE64_def host_store HostToNetwork16_def HostToNetwork32_def
        HostToNetwork64_def NetworkToHost16_def NetworkToHost32_def NetworkToHost64_def)
qed

theorem byteorder_host_independent_witness:
  "rbind (SetBE16 True [0, 0] 513) (GetBE16 False) = Inr 513"
  by (rule byteorder_host_independent [of 513 "[0, 0]" "[0, 0, 0, 0]" "[0, 0, 0, 0, 0, 0, 0, 0]" 0 0, THEN conjunct2, THEN conjunct1])
    simp_all

end
