(* ===== verification/Circular_Deque.thy ===== *)
theory Circular_Deque
  imports Mixer_Prelude
begin

text \<open>
  \<open>base::circular_deque\<close> (\<open>base/containers/circular_deque.h\<close>) and the raw buffer under it
  (\<open>base/containers/vector_buffer.h\<close>). A cell of the buffer is \<^const>\<open>None\<close> where no object lives:
  reading or destroying such a cell is the fault \<^const>\<open>Uninitialised\<close>, leaving the buffer is
  \<^const>\<open>OutOfBounds\<close>, and the first argument of a method says whether \<open>DCHECK\<close> is on. Allocation
  succeeds and sizes do not wrap, so an index is a \<^typ>\<open>nat\<close>. The theory shows that every method
  keeps the representation invariant, that the deque refines a list, and that on a well-formed
  deque no check fails and no raw cell is touched.
\<close>

section \<open>VectorBuffer\<close>

definition VectorBuffer :: "nat \<Rightarrow> 'a cells" where
  "VectorBuffer count = replicate count None"

definition VectorBuffer_default :: "'a cells" where
  "VectorBuffer_default = []"

definition vb_read :: "'a cells \<Rightarrow> nat \<Rightarrow> 'a result" where
  \<comment> \<open>the object in \<open>buffer_[i]\<close>\<close>
  "vb_read buf i =
     (if i < length buf then (case buf ! i of None \<Rightarrow> Inl Uninitialised | Some x \<Rightarrow> Inr x) else Inl OutOfBounds)"

definition vb_construct :: "'a cells \<Rightarrow> nat \<Rightarrow> 'a \<Rightarrow> 'a cells result" where
  \<comment> \<open>\<open>new (&buffer_[i]) T(x)\<close>\<close>
  "vb_construct buf i x = (if i < length buf then Inr (buf[i := Some x]) else Inl OutOfBounds)"

definition vb_DestructRange :: "nat \<Rightarrow> nat \<Rightarrow> 'a cells \<Rightarrow> 'a cells result" where
  "vb_DestructRange first end_index buf =
     (if \<not> (first \<le> end_index \<and> end_index \<le> length buf) then Inl OutOfBounds
      else if None \<in> set (take (end_index - first) (drop first buf)) then Inl Uninitialised
      else Inr (take first buf @ replicate (end_index - first) None @ drop end_index buf))"

definition RangesOverlap :: "nat \<Rightarrow> nat \<Rightarrow> nat \<Rightarrow> bool" where
  "RangesOverlap from_begin from_end to = (\<not> (to \<ge> from_end \<or> to + (from_end - from_begin) \<le> from_begin))"

definition vb_MoveRange :: "'a cells \<Rightarrow> nat \<Rightarrow> nat \<Rightarrow> 'a cells \<Rightarrow> nat \<Rightarrow> ('a cells \<times> 'a cells) result" where
  \<comment> \<open>between two buffers: what is left of the source, and the destination\<close>
  "vb_MoveRange from_buf from_begin from_end to_buf to =
     (let moved = take (from_end - from_begin) (drop from_begin from_buf)
      in if \<not> (from_begin \<le> from_end \<and> from_end \<le> length from_buf \<and> to + (from_end - from_begin) \<le> length to_buf)
         then Inl OutOfBounds
         else if None \<in> set moved then Inl Uninitialised
         else Inr (take from_begin from_buf @ replicate (from_end - from_begin) None @ drop from_end from_buf,
                   take to to_buf @ moved @ drop (to + (from_end - from_begin)) to_buf))"

definition vb_move_one :: "bool \<Rightarrow> nat \<Rightarrow> nat \<Rightarrow> 'a cells \<Rightarrow> 'a cells result" where
  \<comment> \<open>\<open>MoveRange(&buffer_[i], &buffer_[i + 1], &buffer_[j])\<close> within one buffer\<close>
  "vb_move_one on i j buf =
     rbind (rtc_dcheck on (\<not> RangesOverlap i (i + 1) j)) (\<lambda>_.
     rbind (vb_read buf i) (\<lambda>x.
     if j < length buf then Inr (buf[i := None, j := Some x]) else Inl OutOfBounds))"

section \<open>State, size and indices\<close>

record 'a circular_deque =
  cd_buffer :: "'a cells"
  cd_begin :: nat
  cd_end :: nat
  cd_generation :: nat

definition kCircularBufferInitialCapacity :: nat where
  "kCircularBufferInitialCapacity = 3"

abbreviation internal_capacity :: "'a circular_deque \<Rightarrow> nat" where
  "internal_capacity d \<equiv> length (cd_buffer d)"

definition circular_deque_default :: "'a circular_deque" where
  "circular_deque_default = \<lparr>cd_buffer = VectorBuffer_default, cd_begin = 0, cd_end = 0, cd_generation = 0\<rparr>"

definition cd_capacity :: "'a circular_deque \<Rightarrow> nat" where
  "cd_capacity d = (if internal_capacity d = 0 then 0 else internal_capacity d - 1)"

definition cd_empty :: "'a circular_deque \<Rightarrow> bool" where
  "cd_empty d = (cd_begin d = cd_end d)"

definition cd_size :: "'a circular_deque \<Rightarrow> nat" where
  "cd_size d =
     (if cd_begin d \<le> cd_end d then cd_end d - cd_begin d
      else internal_capacity d - cd_begin d + cd_end d)"

definition CheckValidIndex :: "'a circular_deque \<Rightarrow> nat \<Rightarrow> bool" where
  "CheckValidIndex d i =
     (if cd_begin d \<le> cd_end d then i \<ge> cd_begin d \<and> i < cd_end d
      else (i \<ge> cd_begin d \<and> i < internal_capacity d) \<or> i < cd_end d)"

definition CheckValidIndexOrEnd :: "'a circular_deque \<Rightarrow> nat \<Rightarrow> bool" where
  "CheckValidIndexOrEnd d i = (i \<noteq> cd_end d \<longrightarrow> CheckValidIndex d i)"

definition IncrementGeneration :: "'a circular_deque \<Rightarrow> 'a circular_deque" where
  "IncrementGeneration d = d\<lparr>cd_generation := (cd_generation d + 1) mod 2 ^ 64\<rparr>"

section \<open>Iterators\<close>

text \<open>An iterator belongs to the deque it is used with; the generation is the one at its creation.\<close>

record cd_iterator =
  it_index :: nat
  it_generation :: nat

definition iterator_at :: "'a circular_deque \<Rightarrow> nat \<Rightarrow> cd_iterator" where
  "iterator_at d index = \<lparr>it_index = index, it_generation = cd_generation d\<rparr>"

definition CheckUnstableUsage :: "bool \<Rightarrow> 'a circular_deque \<Rightarrow> cd_iterator \<Rightarrow> unit result" where
  "CheckUnstableUsage on d it = rtc_dcheck on (it_generation it = cd_generation d)"

definition CheckComparable :: "bool \<Rightarrow> cd_iterator \<Rightarrow> cd_iterator \<Rightarrow> unit result" where
  "CheckComparable on a b = rtc_dcheck on (it_generation a = it_generation b)"

definition it_deref :: "bool \<Rightarrow> 'a circular_deque \<Rightarrow> cd_iterator \<Rightarrow> 'a result" where
  "it_deref on d it =
     rbind (CheckUnstableUsage on d it) (\<lambda>_.
     rbind (rtc_dcheck on (CheckValidIndex d (it_index it))) (\<lambda>_. vb_read (cd_buffer d) (it_index it)))"

definition OffsetFromBegin :: "'a circular_deque \<Rightarrow> cd_iterator \<Rightarrow> nat" where
  "OffsetFromBegin d it =
     (if it_index it \<ge> cd_begin d then it_index it - cd_begin d
      else internal_capacity d - cd_begin d + it_index it)"

definition Increment :: "bool \<Rightarrow> 'a circular_deque \<Rightarrow> cd_iterator \<Rightarrow> cd_iterator result" where
  "Increment on d it =
     rbind (CheckUnstableUsage on d it) (\<lambda>_.
     rbind (rtc_dcheck on (CheckValidIndex d (it_index it))) (\<lambda>_.
     Inr (it\<lparr>it_index := (if it_index it + 1 = internal_capacity d then 0 else it_index it + 1)\<rparr>)))"

definition Decrement :: "bool \<Rightarrow> 'a circular_deque \<Rightarrow> cd_iterator \<Rightarrow> cd_iterator result" where
  "Decrement on d it =
     rbind (CheckUnstableUsage on d it) (\<lambda>_.
     rbind (rtc_dcheck on (CheckValidIndexOrEnd d (it_index it))) (\<lambda>_.
     Inr (it\<lparr>it_index := (if it_index it = 0 then internal_capacity d - 1 else it_index it - 1)\<rparr>)))"

definition it_Add :: "bool \<Rightarrow> 'a circular_deque \<Rightarrow> int \<Rightarrow> cd_iterator \<Rightarrow> cd_iterator result" where
  "it_Add on d delta it =
     rbind (CheckUnstableUsage on d it) (\<lambda>_.
     rbind (rtc_dcheck on (if delta \<le> 0 then CheckValidIndexOrEnd d (it_index it) else CheckValidIndex d (it_index it))) (\<lambda>_.
     if delta = 0 then Inr it
     else
       let new_offset = int (OffsetFromBegin d it) + delta
       in rbind (rtc_dcheck on (new_offset \<ge> 0 \<and> new_offset \<le> int (cd_size d))) (\<lambda>_.
          if internal_capacity d = 0 then Inl DivideByZero
          else Inr (it\<lparr>it_index := to_size_t (new_offset + int (cd_begin d)) mod internal_capacity d\<rparr>))))"

definition it_minus :: "bool \<Rightarrow> 'a circular_deque \<Rightarrow> cd_iterator \<Rightarrow> cd_iterator \<Rightarrow> int result" where
  "it_minus on d lhs rhs =
     rbind (CheckComparable on lhs rhs) (\<lambda>_. Inr (int (OffsetFromBegin d lhs) - int (OffsetFromBegin d rhs)))"

definition it_equal :: "bool \<Rightarrow> cd_iterator \<Rightarrow> cd_iterator \<Rightarrow> bool result" where
  "it_equal on lhs rhs = rbind (CheckComparable on lhs rhs) (\<lambda>_. Inr (it_index lhs = it_index rhs))"

definition it_less :: "bool \<Rightarrow> 'a circular_deque \<Rightarrow> cd_iterator \<Rightarrow> cd_iterator \<Rightarrow> bool result" where
  "it_less on d lhs rhs =
     rbind (CheckComparable on lhs rhs) (\<lambda>_. Inr (OffsetFromBegin d lhs < OffsetFromBegin d rhs))"

definition cd_begin_it :: "'a circular_deque \<Rightarrow> cd_iterator" where
  "cd_begin_it d = iterator_at d (cd_begin d)"

definition cd_end_it :: "'a circular_deque \<Rightarrow> cd_iterator" where
  "cd_end_it d = iterator_at d (cd_end d)"

section \<open>Capacity\<close>

definition MoveBuffer :: "'a cells \<Rightarrow> nat \<Rightarrow> nat \<Rightarrow> 'a cells \<Rightarrow> ('a cells \<times> 'a cells \<times> nat \<times> nat) result" where
  \<comment> \<open>the source, the destination and its new begin and end\<close>
  "MoveBuffer from_buf from_begin from_end to_buf =
     (if from_begin < from_end
      then rbind (vb_MoveRange from_buf from_begin from_end to_buf 0) (\<lambda>(f, t). Inr (f, t, 0, from_end - from_begin))
      else if from_begin > from_end
      then rbind (vb_MoveRange from_buf from_begin (length from_buf) to_buf 0) (\<lambda>(f1, t1).
           let right_size = length from_buf - from_begin
           in rbind (vb_MoveRange f1 0 from_end t1 right_size) (\<lambda>(f2, t2). Inr (f2, t2, 0, right_size + from_end)))
      else Inr (from_buf, to_buf, 0, 0))"

definition SetCapacityTo :: "nat \<Rightarrow> 'a circular_deque \<Rightarrow> 'a circular_deque result" where
  "SetCapacityTo new_capacity d =
     rbind (MoveBuffer (cd_buffer d) (cd_begin d) (cd_end d) (VectorBuffer (new_capacity + 1)))
       (\<lambda>(f, t, b, e). Inr (d\<lparr>cd_buffer := t, cd_begin := b, cd_end := e\<rparr>))"

definition ExpandCapacityIfNecessary :: "nat \<Rightarrow> 'a circular_deque \<Rightarrow> 'a circular_deque result" where
  "ExpandCapacityIfNecessary additional_elts d =
     (if cd_capacity d \<ge> cd_size d + additional_elts then Inr d
      else SetCapacityTo
             (max (max (cd_size d + additional_elts) kCircularBufferInitialCapacity) (cd_capacity d + cd_capacity d div 4)) d)"

definition ShrinkCapacityIfNecessary :: "'a circular_deque \<Rightarrow> 'a circular_deque result" where
  "ShrinkCapacityIfNecessary d =
     (if cd_capacity d \<le> kCircularBufferInitialCapacity then Inr d
      else
        let sz = cd_size d; empty_spaces = cd_capacity d - sz
        in if empty_spaces < sz then Inr d
           else
             let new_capacity = max kCircularBufferInitialCapacity (sz + sz div 4)
             in if new_capacity < cd_capacity d then SetCapacityTo new_capacity d else Inr d)"

definition reserve :: "nat \<Rightarrow> 'a circular_deque \<Rightarrow> 'a circular_deque result" where
  "reserve new_capacity d = (if new_capacity > cd_capacity d then SetCapacityTo new_capacity d else Inr d)"

definition shrink_to_fit :: "'a circular_deque \<Rightarrow> 'a circular_deque result" where
  "shrink_to_fit d =
     (if cd_empty d then Inr (if internal_capacity d \<noteq> 0 then d\<lparr>cd_buffer := VectorBuffer_default\<rparr> else d)
      else SetCapacityTo (cd_size d) d)"

definition DestructRange :: "nat \<Rightarrow> nat \<Rightarrow> 'a circular_deque \<Rightarrow> 'a circular_deque result" where
  "DestructRange first end_index d =
     (if end_index = first then Inr d
      else if end_index > first
      then rbind (vb_DestructRange first end_index (cd_buffer d)) (\<lambda>b. Inr (d\<lparr>cd_buffer := b\<rparr>))
      else rbind (vb_DestructRange first (internal_capacity d) (cd_buffer d)) (\<lambda>b.
           rbind (vb_DestructRange 0 end_index b) (\<lambda>b'. Inr (d\<lparr>cd_buffer := b'\<rparr>))))"

definition ClearRetainCapacity :: "'a circular_deque \<Rightarrow> 'a circular_deque result" where
  "ClearRetainCapacity d =
     rbind (DestructRange (cd_begin d) (cd_end d) d) (\<lambda>d1. Inr (IncrementGeneration (d1\<lparr>cd_begin := 0, cd_end := 0\<rparr>)))"

definition cd_clear :: "'a circular_deque \<Rightarrow> 'a circular_deque result" where
  "cd_clear d = rbind (ClearRetainCapacity d) (\<lambda>d1. Inr (d1\<lparr>cd_buffer := VectorBuffer_default\<rparr>))"

section \<open>Access, push and pop\<close>

definition cd_at :: "bool \<Rightarrow> 'a circular_deque \<Rightarrow> nat \<Rightarrow> 'a result" where
  "cd_at on d i =
     rbind (rtc_dcheck on (i < cd_size d)) (\<lambda>_.
     let right_size = internal_capacity d - cd_begin d
     in if cd_begin d \<le> cd_end d \<or> i < right_size then vb_read (cd_buffer d) (cd_begin d + i)
        else vb_read (cd_buffer d) (i - right_size))"

definition cd_front :: "bool \<Rightarrow> 'a circular_deque \<Rightarrow> 'a result" where
  "cd_front on d = rbind (rtc_dcheck on (\<not> cd_empty d)) (\<lambda>_. vb_read (cd_buffer d) (cd_begin d))"

definition cd_back :: "bool \<Rightarrow> 'a circular_deque \<Rightarrow> 'a result" where
  "cd_back on d =
     rbind (rtc_dcheck on (\<not> cd_empty d)) (\<lambda>_. rbind (Decrement on d (cd_end_it d)) (it_deref on d))"

definition emplace_front :: "bool \<Rightarrow> 'a \<Rightarrow> 'a circular_deque \<Rightarrow> ('a \<times> 'a circular_deque) result" where
  "emplace_front on x d =
     rbind (ExpandCapacityIfNecessary 1 d) (\<lambda>d1.
     let d2 = IncrementGeneration (d1\<lparr>cd_begin := (if cd_begin d1 = 0 then internal_capacity d1 - 1 else cd_begin d1 - 1)\<rparr>)
     in rbind (vb_construct (cd_buffer d2) (cd_begin d2) x) (\<lambda>b.
        let d3 = d2\<lparr>cd_buffer := b\<rparr> in rbind (cd_front on d3) (\<lambda>r. Inr (r, d3))))"

definition emplace_back :: "bool \<Rightarrow> 'a \<Rightarrow> 'a circular_deque \<Rightarrow> ('a \<times> 'a circular_deque) result" where
  "emplace_back on x d =
     rbind (ExpandCapacityIfNecessary 1 d) (\<lambda>d1.
     rbind (vb_construct (cd_buffer d1) (cd_end d1) x) (\<lambda>b.
     let d2 = IncrementGeneration (d1\<lparr>cd_buffer := b,
                cd_end := (if cd_end d1 = internal_capacity d1 - 1 then 0 else cd_end d1 + 1)\<rparr>)
     in rbind (cd_back on d2) (\<lambda>r. Inr (r, d2))))"

definition push_front :: "bool \<Rightarrow> 'a \<Rightarrow> 'a circular_deque \<Rightarrow> 'a circular_deque result" where
  "push_front on x d = rbind (emplace_front on x d) (\<lambda>(r, d'). Inr d')"

definition push_back :: "bool \<Rightarrow> 'a \<Rightarrow> 'a circular_deque \<Rightarrow> 'a circular_deque result" where
  "push_back on x d = rbind (emplace_back on x d) (\<lambda>(r, d'). Inr d')"

definition pop_front :: "bool \<Rightarrow> 'a circular_deque \<Rightarrow> 'a circular_deque result" where
  "pop_front on d =
     rbind (rtc_dcheck on (cd_size d \<noteq> 0)) (\<lambda>_.
     rbind (vb_DestructRange (cd_begin d) (cd_begin d + 1) (cd_buffer d)) (\<lambda>b.
     rbind (ShrinkCapacityIfNecessary (d\<lparr>cd_buffer := b,
              cd_begin := (if cd_begin d + 1 = internal_capacity d then 0 else cd_begin d + 1)\<rparr>))
       (\<lambda>d1. Inr (IncrementGeneration d1))))"

definition pop_back :: "bool \<Rightarrow> 'a circular_deque \<Rightarrow> 'a circular_deque result" where
  "pop_back on d =
     rbind (rtc_dcheck on (cd_size d \<noteq> 0)) (\<lambda>_.
     let new_end = (if cd_end d = 0 then internal_capacity d - 1 else cd_end d - 1)
     in rbind (vb_DestructRange new_end (new_end + 1) (cd_buffer d)) (\<lambda>b.
        rbind (ShrinkCapacityIfNecessary (d\<lparr>cd_buffer := b, cd_end := new_end\<rparr>)) (\<lambda>d1. Inr (IncrementGeneration d1))))"

section \<open>Bulk operations\<close>

fun emplace_all :: "bool \<Rightarrow> 'a list \<Rightarrow> 'a circular_deque \<Rightarrow> 'a circular_deque result" where
  "emplace_all on [] d = Inr d"
| "emplace_all on (x # xs) d = rbind (emplace_back on x d) (\<lambda>(r, d'). emplace_all on xs d')"

fun push_front_loop :: "bool \<Rightarrow> nat \<Rightarrow> 'a \<Rightarrow> 'a circular_deque \<Rightarrow> 'a circular_deque result" where
  "push_front_loop on 0 x d = Inr d"
| "push_front_loop on (Suc n) x d = rbind (push_front on x d) (push_front_loop on n x)"

definition assign_range :: "bool \<Rightarrow> 'a list \<Rightarrow> 'a circular_deque \<Rightarrow> 'a circular_deque result" where
  \<comment> \<open>the argument is the range between the two input iterators\<close>
  "assign_range on xs d =
     rbind (ClearRetainCapacity d) (\<lambda>d1. rbind (emplace_all on xs d1) (\<lambda>d2. Inr (IncrementGeneration d2)))"

definition assign_count :: "bool \<Rightarrow> nat \<Rightarrow> 'a \<Rightarrow> 'a circular_deque \<Rightarrow> 'a circular_deque result" where
  "assign_count on count x d =
     rbind (ClearRetainCapacity d) (\<lambda>d1. rbind (reserve count d1) (\<lambda>d2.
     rbind (emplace_all on (replicate count x) d2) (\<lambda>d3. Inr (IncrementGeneration d3))))"

definition assign_init :: "bool \<Rightarrow> 'a list \<Rightarrow> 'a circular_deque \<Rightarrow> 'a circular_deque result" where
  "assign_init on xs d = rbind (reserve (length xs) d) (assign_range on xs)"

definition resize :: "bool \<Rightarrow> nat \<Rightarrow> 'a \<Rightarrow> 'a circular_deque \<Rightarrow> 'a circular_deque result" where
  "resize on count x d =
     rbind
       (if count > cd_size d
        then rbind (ExpandCapacityIfNecessary (count - cd_size d) d) (emplace_all on (replicate (count - cd_size d) x))
        else if count < cd_size d
        then let new_end = (cd_begin d + count) mod internal_capacity d
             in rbind (DestructRange new_end (cd_end d) d) (\<lambda>d1. ShrinkCapacityIfNecessary (d1\<lparr>cd_end := new_end\<rparr>))
        else Inr d)
       (\<lambda>d1. Inr (IncrementGeneration d1))"

definition circular_deque_count :: "bool \<Rightarrow> nat \<Rightarrow> 'a \<Rightarrow> 'a circular_deque result" where
  "circular_deque_count on count x = resize on count x circular_deque_default"

definition circular_deque_range :: "bool \<Rightarrow> 'a list \<Rightarrow> 'a circular_deque result" where
  "circular_deque_range on xs = assign_range on xs circular_deque_default"

definition cd_list :: "'a circular_deque \<Rightarrow> 'a list" where
  \<comment> \<open>the objects between \<open>begin()\<close> and \<open>end()\<close>\<close>
  "cd_list d = map (\<lambda>k. the (cd_buffer d ! ((cd_begin d + k) mod internal_capacity d))) [0..<cd_size d]"

definition circular_deque_copy :: "bool \<Rightarrow> 'a circular_deque \<Rightarrow> 'a circular_deque result" where
  "circular_deque_copy on other =
     assign_range on (cd_list other) (circular_deque_default\<lparr>cd_buffer := VectorBuffer (cd_size other + 1)\<rparr>)"

definition circular_deque_move :: "'a circular_deque \<Rightarrow> 'a circular_deque \<times> 'a circular_deque" where
  "circular_deque_move other =
     (\<lparr>cd_buffer = cd_buffer other, cd_begin = cd_begin other, cd_end = cd_end other, cd_generation = 0\<rparr>,
      other\<lparr>cd_buffer := VectorBuffer_default, cd_begin := 0, cd_end := 0\<rparr>)"

definition copy_assign :: "bool \<Rightarrow> 'a circular_deque \<Rightarrow> 'a circular_deque \<Rightarrow> 'a circular_deque result" where
  \<comment> \<open>for two different deques\<close>
  "copy_assign on other d = rbind (reserve (cd_size other) d) (assign_range on (cd_list other))"

definition move_assign :: "'a circular_deque \<Rightarrow> 'a circular_deque \<Rightarrow> ('a circular_deque \<times> 'a circular_deque) result" where
  "move_assign other d =
     rbind (ClearRetainCapacity d) (\<lambda>d1.
     Inr (IncrementGeneration (d1\<lparr>cd_buffer := cd_buffer other, cd_begin := cd_begin other, cd_end := cd_end other\<rparr>),
          other\<lparr>cd_buffer := VectorBuffer_default, cd_begin := 0, cd_end := 0\<rparr>))"

definition cd_swap :: "'a circular_deque \<Rightarrow> 'a circular_deque \<Rightarrow> 'a circular_deque \<times> 'a circular_deque" where
  "cd_swap d other =
     (IncrementGeneration (d\<lparr>cd_buffer := cd_buffer other, cd_begin := cd_begin other, cd_end := cd_end other\<rparr>),
      other\<lparr>cd_buffer := cd_buffer d, cd_begin := cd_begin d, cd_end := cd_end d\<rparr>)"

definition circular_deque_destroy :: "'a circular_deque \<Rightarrow> 'a circular_deque result" where
  "circular_deque_destroy d = DestructRange (cd_begin d) (cd_end d) d"

section \<open>Representation\<close>

text \<open>The buffer, read from \<open>begin_\<close> round to itself, holds the elements in order and then raw
  cells, of which there is at least one. With no buffer at all \<open>begin_\<close> and \<open>end_\<close> agree but need not
  be 0: \<^const>\<open>shrink_to_fit\<close> keeps them.\<close>

definition deque_rep :: "'a circular_deque \<Rightarrow> 'a list \<Rightarrow> bool" where
  "deque_rep d xs \<longleftrightarrow>
     (if internal_capacity d = 0 then xs = [] \<and> cd_begin d = cd_end d
      else length xs < internal_capacity d \<and> cd_begin d < internal_capacity d \<and>
        cd_end d = (cd_begin d + length xs) mod internal_capacity d \<and>
        rotate (cd_begin d) (cd_buffer d) = map Some xs @ replicate (internal_capacity d - length xs) None)"

lemma ring_index: "b < n \<Longrightarrow> k \<le> n \<Longrightarrow> (b + k) mod n = (if b + k < n then b + k else b + k - n)" for b :: nat
  by (cases "b + k < n") (auto simp: mod_if le_mod_geq)

lemma rep_cells:
  assumes "deque_rep d xs" "k < internal_capacity d"
  shows "cd_buffer d ! ((cd_begin d + k) mod internal_capacity d) = (if k < length xs then Some (xs ! k) else None)"
proof -
  have "internal_capacity d \<noteq> 0" using assms(2) by linarith
  then have "rotate (cd_begin d) (cd_buffer d) = map Some xs @ replicate (internal_capacity d - length xs) None"
    and "length xs < internal_capacity d"
    using assms(1) by (simp_all only: deque_rep_def if_False simp_thms)
  then have "rotate (cd_begin d) (cd_buffer d) ! k = (map Some xs @ replicate (internal_capacity d - length xs) None) ! k"
    by (simp only:)
  with assms(2) \<open>length xs < internal_capacity d\<close> show ?thesis
    by (simp add: nth_rotate nth_append)
qed

lemma repI:
  assumes "length xs < internal_capacity d" "cd_begin d < internal_capacity d"
    "cd_end d = (cd_begin d + length xs) mod internal_capacity d"
    and "\<And>k. k < internal_capacity d \<Longrightarrow>
      cd_buffer d ! ((cd_begin d + k) mod internal_capacity d) = (if k < length xs then Some (xs ! k) else None)"
  shows "deque_rep d xs"
proof -
  have "rotate (cd_begin d) (cd_buffer d) = map Some xs @ replicate (internal_capacity d - length xs) None"
    using assms by (intro nth_equalityI) (auto simp: nth_rotate nth_append)
  then show ?thesis
    using assms by (auto simp: deque_rep_def)
qed

lemma rep_empty_buffer: "deque_rep d xs \<Longrightarrow> internal_capacity d = 0 \<Longrightarrow> xs = [] \<and> cd_begin d = cd_end d"
  by (simp add: deque_rep_def)

lemma rep_bounds:
  "deque_rep d xs \<Longrightarrow> internal_capacity d \<noteq> 0 \<Longrightarrow>
     length xs < internal_capacity d \<and> cd_begin d < internal_capacity d \<and> cd_end d < internal_capacity d \<and>
     cd_end d = (if cd_begin d + length xs < internal_capacity d then cd_begin d + length xs
                 else cd_begin d + length xs - internal_capacity d)"
  by (auto simp: deque_rep_def ring_index)

lemma rep_size: "deque_rep d xs \<Longrightarrow> cd_size d = length xs"
  using rep_bounds [of d xs] rep_empty_buffer [of d xs]
  by (cases "internal_capacity d = 0") (auto simp: cd_size_def split: if_splits)

lemma rep_empty: "deque_rep d xs \<Longrightarrow> cd_empty d \<longleftrightarrow> xs = []"
  using rep_bounds [of d xs] rep_empty_buffer [of d xs]
  by (cases "internal_capacity d = 0") (auto simp: cd_empty_def split: if_splits)

lemma rep_capacity: "deque_rep d xs \<Longrightarrow> length xs \<le> cd_capacity d"
  using rep_bounds [of d xs] rep_empty_buffer [of d xs]
  by (cases "internal_capacity d = 0") (auto simp: cd_capacity_def)

lemma rep_list: "deque_rep d xs \<Longrightarrow> cd_list d = xs"
proof (rule nth_equalityI)
  assume rep: "deque_rep d xs"
  then show "length (cd_list d) = length xs" by (simp add: cd_list_def rep_size)
  fix k
  assume "k < length (cd_list d)"
  with rep have k: "k < length xs" by (simp add: cd_list_def rep_size)
  with rep have "k < internal_capacity d"
    using rep_bounds [of d xs] rep_empty_buffer [of d xs] by (cases "internal_capacity d = 0") auto
  with rep k show "cd_list d ! k = xs ! k" by (simp add: cd_list_def rep_size rep_cells)
qed

lemma rep_unique: "deque_rep d xs \<Longrightarrow> deque_rep d ys \<Longrightarrow> xs = ys"
  using rep_list by metis

lemma rep_generation [simp]: "deque_rep (d\<lparr>cd_generation := g\<rparr>) xs = deque_rep d xs"
  by (simp add: deque_rep_def)

lemma rep_IncrementGeneration [simp]: "deque_rep (IncrementGeneration d) xs = deque_rep d xs"
  by (simp add: IncrementGeneration_def)

lemma IncrementGeneration_simps [simp]:
  "cd_buffer (IncrementGeneration d) = cd_buffer d" "cd_begin (IncrementGeneration d) = cd_begin d"
  "cd_end (IncrementGeneration d) = cd_end d"
  "(IncrementGeneration d)\<lparr>cd_buffer := b\<rparr> = IncrementGeneration (d\<lparr>cd_buffer := b\<rparr>)"
  by (simp_all add: IncrementGeneration_def)

lemma rep_default: "deque_rep circular_deque_default []"
  by (simp add: deque_rep_def circular_deque_default_def VectorBuffer_default_def)

text \<open>The cells by their index in the buffer.\<close>

lemma rep_cell_at:
  assumes "deque_rep d xs" "i < internal_capacity d"
  shows "cd_buffer d ! i =
     (if cd_begin d \<le> i then (if i - cd_begin d < length xs then Some (xs ! (i - cd_begin d)) else None)
      else (if i + internal_capacity d - cd_begin d < length xs then Some (xs ! (i + internal_capacity d - cd_begin d)) else None))"
proof (cases "cd_begin d \<le> i")
  case True
  then show ?thesis using rep_cells [OF assms(1), of "i - cd_begin d"] assms(2) by (auto simp: mod_if)
next
  case False
  have "cd_begin d < internal_capacity d" using assms rep_bounds by force
  then show ?thesis
    using False rep_cells [OF assms(1), of "i + internal_capacity d - cd_begin d"] assms(2) by (auto simp: mod_if)
qed

section \<open>Capacity changes keep the elements\<close>

definition packed :: "nat \<Rightarrow> 'a list \<Rightarrow> 'a cells" where
  \<comment> \<open>a buffer of \<open>m + 1\<close> cells with the elements at its start\<close>
  "packed m xs = map Some xs @ replicate (m + 1 - length xs) None"

lemma length_packed [simp]: "length xs \<le> m \<Longrightarrow> length (packed m xs) = m + 1"
  by (simp add: packed_def)

lemma rep_packed:
  "length xs \<le> m \<Longrightarrow> deque_rep (d\<lparr>cd_buffer := packed m xs, cd_begin := 0, cd_end := length xs\<rparr>) xs"
  by (rule repI) (auto simp: packed_def nth_append)

lemma rep_slice:
  assumes "deque_rep d xs" "cd_begin d \<le> cd_end d" "internal_capacity d \<noteq> 0"
  shows "take (cd_end d - cd_begin d) (drop (cd_begin d) (cd_buffer d)) = map Some xs"
  using rep_bounds [OF assms(1,3)] assms(2) rep_cell_at [OF assms(1)]
  by (intro nth_equalityI) (auto split: if_splits)

lemma rep_slices:
  assumes "deque_rep d xs" "cd_end d < cd_begin d" "internal_capacity d \<noteq> 0"
  shows "drop (cd_begin d) (cd_buffer d) = map Some (take (internal_capacity d - cd_begin d) xs)"
    and "take (cd_end d) (cd_buffer d) = map Some (drop (internal_capacity d - cd_begin d) xs)"
  using rep_bounds [OF assms(1,3)] assms(2) rep_cell_at [OF assms(1)]
  by (auto intro!: nth_equalityI simp: algebra_simps split: if_splits)

lemma None_notin_Some [simp]: "None \<notin> set (map Some xs)" "None \<notin> Some ` A"
  by auto

lemma MoveRange_whole:
  assumes "from_begin \<le> from_end" "from_end \<le> length f" "take (from_end - from_begin) (drop from_begin f) = map Some ys"
    and "to + length ys \<le> length t" "from_end - from_begin = length ys"
  shows "\<exists>f'. vb_MoveRange f from_begin from_end t to = Inr (f', take to t @ map Some ys @ drop (to + length ys) t) \<and>
    length f' = length f \<and> take from_begin f' = take from_begin f"
  using assms by (auto simp: vb_MoveRange_def Let_def)

lemma SetCapacityTo_eq:
  assumes rep: "deque_rep d xs" and m: "length xs \<le> m"
  shows "SetCapacityTo m d = Inr (d\<lparr>cd_buffer := packed m xs, cd_begin := 0, cd_end := length xs\<rparr>)"
proof (cases "cd_empty d")
  case True
  with rep have "xs = []" by (simp add: rep_empty)
  with True show ?thesis
    by (simp add: SetCapacityTo_def MoveBuffer_def cd_empty_def VectorBuffer_def packed_def)
next
  case ne: False
  then have cap: "internal_capacity d \<noteq> 0" using rep rep_empty_buffer rep_empty by fastforce
  note b = rep_bounds [OF rep cap]
  show ?thesis
  proof (cases "cd_begin d < cd_end d")
    case True
    from MoveRange_whole [of "cd_begin d" "cd_end d" "cd_buffer d" xs 0 "VectorBuffer (m + 1)"]
    show ?thesis using True b m rep_slice [OF rep] cap
      by (auto simp: SetCapacityTo_def MoveBuffer_def VectorBuffer_def packed_def simp del: replicate_Suc split: if_splits)
  next
    case False
    with ne have lt: "cd_end d < cd_begin d" by (simp add: cd_empty_def)
    let ?r = "internal_capacity d - cd_begin d"
    have r: "?r \<le> length xs" "length xs - ?r = cd_end d" "?r + cd_end d = length xs"
      using b lt by (auto split: if_splits)
    obtain f1 where f1: "vb_MoveRange (cd_buffer d) (cd_begin d) (internal_capacity d) (VectorBuffer (m + 1)) 0 =
        Inr (f1, map Some (take ?r xs) @ replicate (m + 1 - ?r) None)"
      and len1: "length f1 = internal_capacity d" and take1: "take (cd_begin d) f1 = take (cd_begin d) (cd_buffer d)"
      using MoveRange_whole [of "cd_begin d" "internal_capacity d" "cd_buffer d" "take ?r xs" 0 "VectorBuffer (m + 1)"]
        rep_slices(1) [OF rep lt cap] b m r(1) by (auto simp: VectorBuffer_def min_absorb1 min_absorb2 simp del: replicate_Suc split: if_splits)
    have "take (cd_end d) f1 = take (cd_end d) (cd_buffer d)"
      using arg_cong [OF take1, of "take (cd_end d)"] lt by (simp add: min_def)
    then have half: "take (cd_end d) f1 = map Some (drop ?r xs)" using rep_slices(2) [OF rep lt cap] by simp
    let ?t = "map Some (take ?r xs) @ replicate (m + 1 - ?r) None"
    have min: "min (length xs) ?r = ?r" using r(1) by simp
    obtain f2 where f2: "vb_MoveRange f1 0 (cd_end d) ?t ?r =
        Inr (f2, take ?r ?t @ map Some (drop ?r xs) @ drop (length xs) ?t)"
      using MoveRange_whole [of 0 "cd_end d" f1 "drop ?r xs" ?r ?t] half len1 r m b min by auto
    have "take ?r ?t @ map Some (drop ?r xs) @ drop (length xs) ?t = packed m xs"
      using r(1) by (simp add: packed_def min flip: map_append append_assoc)
    then show ?thesis using lt f1 f2 r by (simp add: SetCapacityTo_def MoveBuffer_def Let_def)
  qed
qed

lemma cd_capacity_packed [simp]:
  "length xs \<le> m \<Longrightarrow> cd_capacity (d\<lparr>cd_buffer := packed m xs, cd_begin := b, cd_end := e\<rparr>) = m"
  by (simp add: cd_capacity_def)

lemma SetCapacityTo_ok:
  assumes "deque_rep d xs" "length xs \<le> m"
  obtains d' where "SetCapacityTo m d = Inr d'" "deque_rep d' xs" "cd_capacity d' = m" "cd_generation d' = cd_generation d"
  using SetCapacityTo_eq [OF assms] rep_packed [OF assms(2)] assms(2) by simp

lemma ExpandCapacityIfNecessary_ok:
  assumes "deque_rep d xs"
  obtains d' where "ExpandCapacityIfNecessary a d = Inr d'" "deque_rep d' xs" "length xs + a \<le> cd_capacity d'"
    "cd_generation d' = cd_generation d"
proof (cases "cd_capacity d \<ge> length xs + a")
  case True
  with assms show ?thesis using that by (simp add: ExpandCapacityIfNecessary_def rep_size)
next
  case False
  let ?m = "max (max (length xs + a) kCircularBufferInitialCapacity) (cd_capacity d + cd_capacity d div 4)"
  from SetCapacityTo_ok [OF assms, of ?m] obtain d' where "SetCapacityTo ?m d = Inr d'" "deque_rep d' xs"
    "cd_capacity d' = ?m" "cd_generation d' = cd_generation d" by (auto simp: le_max_iff_disj)
  with False show ?thesis using that assms by (simp add: ExpandCapacityIfNecessary_def rep_size le_max_iff_disj)
qed

lemma ShrinkCapacityIfNecessary_ok:
  assumes "deque_rep d xs"
  obtains d' where "ShrinkCapacityIfNecessary d = Inr d'" "deque_rep d' xs" "cd_generation d' = cd_generation d"
proof -
  let ?m = "max kCircularBufferInitialCapacity (length xs + length xs div 4)"
  from SetCapacityTo_ok [OF assms, of ?m] obtain d' where "SetCapacityTo ?m d = Inr d'" "deque_rep d' xs"
    "cd_generation d' = cd_generation d" by (auto simp: le_max_iff_disj)
  moreover have "ShrinkCapacityIfNecessary d = Inr d \<or> ShrinkCapacityIfNecessary d = SetCapacityTo ?m d"
    using assms by (simp add: ShrinkCapacityIfNecessary_def rep_size Let_def)
  ultimately show ?thesis using that [of d] that [of d'] assms by auto
qed

section \<open>Access\<close>

abbreviation at_offset :: "'a circular_deque \<Rightarrow> nat \<Rightarrow> nat" where
  "at_offset d k \<equiv> (cd_begin d + k) mod internal_capacity d"

lemma rep_has_buffer: "deque_rep d xs \<Longrightarrow> k < length xs \<Longrightarrow> internal_capacity d \<noteq> 0"
  using rep_empty_buffer by fastforce

lemma at_offset_less: "deque_rep d xs \<Longrightarrow> internal_capacity d \<noteq> 0 \<Longrightarrow> at_offset d k < internal_capacity d"
  using mod_less_divisor [of "internal_capacity d"] by auto

lemma at_offset_if:
  assumes "deque_rep d xs" "internal_capacity d \<noteq> 0" "k \<le> internal_capacity d"
  shows "at_offset d k = (if cd_begin d + k < internal_capacity d then cd_begin d + k else cd_begin d + k - internal_capacity d)"
  using rep_bounds [OF assms(1,2)] assms(3) by (simp add: ring_index)

lemma at_offset_inj:
  assumes "deque_rep d xs" "internal_capacity d \<noteq> 0" "j < internal_capacity d" "k < internal_capacity d"
  shows "at_offset d j = at_offset d k \<longleftrightarrow> j = k"
  using at_offset_if [OF assms(1,2), of j] at_offset_if [OF assms(1,2), of k] assms(3,4) rep_bounds [OF assms(1,2)]
  by (auto split: if_splits)

lemma at_offset_add: "(at_offset d k + i) mod internal_capacity d = at_offset d (k + i)"
  by (simp add: mod_add_left_eq add.assoc)

lemma at_offset_surj:
  assumes "deque_rep d xs" "i < internal_capacity d"
  obtains k where "k < internal_capacity d" "i = at_offset d k"
proof (cases "cd_begin d \<le> i")
  case True
  with assms(2) show thesis by (intro that [of "i - cd_begin d"]) auto
next
  case False
  have "cd_begin d < internal_capacity d" using assms rep_bounds [OF assms(1)] by fastforce
  with False assms(2) show thesis by (intro that [of "i + internal_capacity d - cd_begin d"]) auto
qed

lemma rep_end_offset: "deque_rep d xs \<Longrightarrow> internal_capacity d \<noteq> 0 \<Longrightarrow> cd_end d = at_offset d (length xs)"
  by (simp add: deque_rep_def)

lemma rep_begin_offset: "deque_rep d xs \<Longrightarrow> internal_capacity d \<noteq> 0 \<Longrightarrow> at_offset d 0 = cd_begin d"
  using rep_bounds by fastforce

lemma read_offset: "deque_rep d xs \<Longrightarrow> k < length xs \<Longrightarrow> vb_read (cd_buffer d) (at_offset d k) = Inr (xs ! k)"
  using rep_has_buffer [of d xs k] rep_cells [of d xs k] rep_bounds [of d xs] at_offset_less [of d xs k]
  by (simp add: vb_read_def)

lemma valid_offset: "deque_rep d xs \<Longrightarrow> k < length xs \<Longrightarrow> CheckValidIndex d (at_offset d k)"
  using rep_has_buffer [of d xs k] at_offset_if [of d xs k] rep_bounds [of d xs]
  by (auto simp: CheckValidIndex_def split: if_splits)

lemma valid_offset_or_end: "deque_rep d xs \<Longrightarrow> internal_capacity d \<noteq> 0 \<Longrightarrow> k \<le> length xs \<Longrightarrow> CheckValidIndexOrEnd d (at_offset d k)"
  using valid_offset [of d xs k] rep_end_offset [of d xs] by (cases "k = length xs") (auto simp: CheckValidIndexOrEnd_def)

lemma cd_at_ok: "deque_rep d xs \<Longrightarrow> i < length xs \<Longrightarrow> cd_at on d i = Inr (xs ! i)"
  using read_offset [of d xs i] rep_has_buffer [of d xs i] at_offset_if [of d xs i] rep_bounds [of d xs]
  by (auto simp: cd_at_def rep_size Let_def add.commute [of i] split: if_splits)

lemma cd_front_ok: "deque_rep d xs \<Longrightarrow> xs \<noteq> [] \<Longrightarrow> cd_front on d = Inr (hd xs)"
  using read_offset [of d xs 0] rep_begin_offset [of d xs] rep_has_buffer [of d xs 0]
  by (simp add: cd_front_def rep_empty hd_conv_nth)

lemma step_back_offset:
  assumes "deque_rep d xs" "internal_capacity d \<noteq> 0" "k < internal_capacity d"
  shows "(if at_offset d (Suc k) = 0 then internal_capacity d - 1 else at_offset d (Suc k) - 1) = at_offset d k"
  using at_offset_if [OF assms(1,2), of "Suc k"] at_offset_if [OF assms(1,2), of k] rep_bounds [OF assms(1,2)] assms(3)
  by (auto split: if_splits)

lemma step_offset:
  assumes "deque_rep d xs" "internal_capacity d \<noteq> 0" "k < internal_capacity d"
  shows "(if at_offset d k + 1 = internal_capacity d then 0 else at_offset d k + 1) = at_offset d (Suc k)"
  using at_offset_if [OF assms(1,2), of "Suc k"] at_offset_if [OF assms(1,2), of k] rep_bounds [OF assms(1,2)] assms(3)
  by (auto split: if_splits)

lemma cd_back_ok:
  assumes rep: "deque_rep d xs" and ne: "xs \<noteq> []"
  shows "cd_back on d = Inr (last xs)"
proof -
  obtain k where k: "length xs = Suc k" using ne by (cases xs) auto
  then have k_less: "k < length xs" by simp
  note cap = rep_has_buffer [OF rep k_less]
  have e: "cd_end d = at_offset d (Suc k)" using rep_end_offset [OF rep cap] k by simp
  have valid: "CheckValidIndexOrEnd d (cd_end d)" by (simp add: CheckValidIndexOrEnd_def)
  have "k < internal_capacity d" using rep_bounds [OF rep cap] k by linarith
  from step_back_offset [OF rep cap this]
  have "Decrement on d (cd_end_it d) = Inr (iterator_at d (at_offset d k))"
    using valid by (auto simp: Decrement_def cd_end_it_def iterator_at_def CheckUnstableUsage_def e split: if_splits)
  then show ?thesis
    using rep_empty [OF rep] ne valid_offset [OF rep k_less] read_offset [OF rep k_less]
    by (simp add: cd_back_def it_deref_def iterator_at_def CheckUnstableUsage_def last_conv_nth k)
qed

section \<open>Push and pop\<close>

lemma rep_capacity_less: "deque_rep d xs \<Longrightarrow> length xs + Suc n \<le> cd_capacity d \<Longrightarrow> internal_capacity d \<noteq> 0 \<and> length xs + Suc n < internal_capacity d"
  by (auto simp: cd_capacity_def split: if_splits)

lemma rep_snoc:
  assumes rep: "deque_rep d xs" and cap: "Suc (length xs) < internal_capacity d"
  shows "deque_rep (d\<lparr>cd_buffer := (cd_buffer d)[cd_end d := Some x], cd_end := at_offset d (Suc (length xs))\<rparr>) (xs @ [x])"
proof -
  have ne: "internal_capacity d \<noteq> 0" using cap by linarith
  note e = rep_end_offset [OF rep ne]
  have "cd_end d < internal_capacity d" using rep_bounds [OF rep ne] by simp
  then have "(cd_buffer d)[cd_end d := Some x] ! at_offset d k = (if k < length (xs @ [x]) then Some ((xs @ [x]) ! k) else None)"
    if "k < internal_capacity d" for k
    using rep_cells [OF rep that] at_offset_inj [OF rep ne that, of "length xs"] that cap e
    by (auto simp: nth_list_update nth_append)
  then show ?thesis using cap rep_bounds [OF rep ne] by (intro repI) simp_all
qed

lemma emplace_back_ok:
  assumes "deque_rep d xs"
  obtains d' where "emplace_back on x d = Inr (x, d')" "deque_rep d' (xs @ [x])"
proof -
  obtain d1 where d1: "ExpandCapacityIfNecessary 1 d = Inr d1" "deque_rep d1 xs" "length xs + 1 \<le> cd_capacity d1"
    using ExpandCapacityIfNecessary_ok [OF assms] by metis
  then have cap: "internal_capacity d1 \<noteq> 0" "Suc (length xs) < internal_capacity d1"
    using rep_capacity_less [of d1 xs 0] by auto
  have e: "(if cd_end d1 = internal_capacity d1 - 1 then 0 else cd_end d1 + 1) = at_offset d1 (Suc (length xs))"
    using step_offset [OF d1(2) cap(1), of "length xs"] rep_end_offset [OF d1(2) cap(1)] cap(2) by (auto split: if_splits)
  let ?d2 = "d1\<lparr>cd_buffer := (cd_buffer d1)[cd_end d1 := Some x], cd_end := at_offset d1 (Suc (length xs))\<rparr>"
  have rep2: "deque_rep (IncrementGeneration ?d2) (xs @ [x])" using rep_snoc [OF d1(2) cap(2)] by simp
  have "emplace_back on x d = Inr (x, IncrementGeneration ?d2)"
    using d1(1) e rep_bounds [OF d1(2) cap(1)] cd_back_ok [OF rep2, of on]
    by (simp add: emplace_back_def vb_construct_def Let_def)
  with rep2 that show thesis by blast
qed

lemma rep_cons:
  assumes rep: "deque_rep d xs" and cap: "Suc (length xs) < internal_capacity d"
    and b: "b = (if cd_begin d = 0 then internal_capacity d - 1 else cd_begin d - 1)"
  shows "deque_rep (d\<lparr>cd_begin := b, cd_buffer := (cd_buffer d)[b := Some x]\<rparr>) (x # xs)"
proof -
  have ne: "internal_capacity d \<noteq> 0" using cap by linarith
  note bd = rep_bounds [OF rep ne]
  have b_less: "b < internal_capacity d" using b bd by auto
  have next_b: "(b + Suc k) mod internal_capacity d = at_offset d k" if "k < internal_capacity d" for k
    using that b bd b_less ring_index [of b "internal_capacity d" "Suc k"] at_offset_if [OF rep ne, of k]
    by (auto split: if_splits)
  have "(cd_buffer d)[b := Some x] ! ((b + k) mod internal_capacity d) = (if k < length (x # xs) then Some ((x # xs) ! k) else None)"
    if "k < internal_capacity d" for k
  proof (cases k)
    case 0
    then show ?thesis using b_less by simp
  next
    case (Suc j)
    then have "(b + k) mod internal_capacity d \<noteq> b" using that b_less ring_index [of b "internal_capacity d" k] by auto
    then show ?thesis using Suc that next_b [of j] rep_cells [OF rep, of j] by auto
  qed
  moreover have "cd_end d = (b + length (x # xs)) mod internal_capacity d"
    using next_b [of "length xs"] rep_end_offset [OF rep ne] bd by simp
  ultimately show ?thesis using cap b_less by (intro repI) simp_all
qed

lemma emplace_front_ok:
  assumes "deque_rep d xs"
  obtains d' where "emplace_front on x d = Inr (x, d')" "deque_rep d' (x # xs)"
proof -
  obtain d1 where d1: "ExpandCapacityIfNecessary 1 d = Inr d1" "deque_rep d1 xs" "length xs + 1 \<le> cd_capacity d1"
    using ExpandCapacityIfNecessary_ok [OF assms] by metis
  then have cap: "internal_capacity d1 \<noteq> 0" "Suc (length xs) < internal_capacity d1"
    using rep_capacity_less [of d1 xs 0] by auto
  define b where "b = (if cd_begin d1 = 0 then internal_capacity d1 - 1 else cd_begin d1 - 1)"
  have b_less: "b < internal_capacity d1" using rep_bounds [OF d1(2) cap(1)] by (auto simp: b_def)
  let ?d2 = "d1\<lparr>cd_begin := b, cd_buffer := (cd_buffer d1)[b := Some x]\<rparr>"
  have rep2: "deque_rep (IncrementGeneration ?d2) (x # xs)" using rep_cons [OF d1(2) cap(2) b_def] by simp
  have "emplace_front on x d = Inr (x, IncrementGeneration ?d2)"
    using d1(1) b_less cd_front_ok [OF rep2, of on]
    by (simp add: emplace_front_def vb_construct_def Let_def b_def [symmetric])
  with rep2 that show thesis by blast
qed

section \<open>Destroying a range\<close>

lemma vb_DestructRange_cells:
  assumes "f \<le> e" "e \<le> length buf" "\<And>i. f \<le> i \<Longrightarrow> i < e \<Longrightarrow> buf ! i \<noteq> None"
  obtains b where "vb_DestructRange f e buf = Inr b" "length b = length buf"
    "\<And>i. i < length buf \<Longrightarrow> b ! i = (if f \<le> i \<and> i < e then None else buf ! i)"
proof -
  have "None \<notin> set (take (e - f) (drop f buf))"
  proof
    assume "None \<in> set (take (e - f) (drop f buf))"
    then obtain i where "i < e - f" "buf ! (f + i) = None" using assms(1,2) by (auto simp: in_set_conv_nth)
    with assms(3) [of "f + i"] show False by (simp add: less_diff_conv add.commute)
  qed
  moreover have "(take f buf @ replicate (e - f) None @ drop e buf) ! i = (if f \<le> i \<and> i < e then None else buf ! i)"
    if "i < length buf" for i
    using assms(1,2) that by (auto simp: nth_append)
  ultimately show thesis
    using assms(1,2) by (intro that [of "take f buf @ replicate (e - f) None @ drop e buf"]) (simp_all add: vb_DestructRange_def)
qed

text \<open>Offsets \<open>j \<le> i < k\<close> are destroyed, wrapped or not.\<close>

lemma DestructRange_ok:
  assumes rep: "deque_rep d xs" and cap: "internal_capacity d \<noteq> 0" and jk: "j \<le> k" "k \<le> length xs"
  obtains b where "DestructRange (at_offset d j) (at_offset d k) d = Inr (d\<lparr>cd_buffer := b\<rparr>)" "length b = internal_capacity d"
    "\<And>i. i < internal_capacity d \<Longrightarrow>
      b ! at_offset d i = (if j \<le> i \<and> i < k then None else if i < length xs then Some (xs ! i) else None)"
proof -
  let ?n = "internal_capacity d" and ?f = "at_offset d j" and ?e = "at_offset d k"
  note cells = rep_cells [OF rep] and off = at_offset_if [OF rep cap]
  have bd: "cd_begin d < ?n" "length xs < ?n" using rep_bounds [OF rep cap] by simp_all
  have fe: "?f = ?e \<longleftrightarrow> j = k" using at_offset_inj [OF rep cap, of j k] jk bd by simp
  have live: "cd_buffer d ! i \<noteq> None" if "i < ?n" "j < k" "if ?f < ?e then ?f \<le> i \<and> i < ?e else ?f \<le> i \<or> i < ?e" for i
    using that rep_cell_at [OF rep, of i] off [of j] off [of k] jk bd by (auto split: if_splits)
  have inside: "(if ?f < ?e then ?f \<le> at_offset d i \<and> at_offset d i < ?e else ?f \<le> at_offset d i \<or> at_offset d i < ?e) \<longleftrightarrow> j \<le> i \<and> i < k"
    if "i < ?n" "j < k" for i
    using off [of i] off [of j] off [of k] that jk bd by (simp split: if_splits) linarith+
  consider "j = k" | "?f < ?e" "j < k" | "?e < ?f" "j < k" using fe jk by linarith
  then show thesis
  proof cases
    case 1
    then show ?thesis using that [of "cd_buffer d"] cells by (auto simp: DestructRange_def)
  next
    case 2
    obtain b where b: "vb_DestructRange ?f ?e (cd_buffer d) = Inr b" "length b = ?n"
      "\<And>i. i < ?n \<Longrightarrow> b ! i = (if ?f \<le> i \<and> i < ?e then None else cd_buffer d ! i)"
      by (rule vb_DestructRange_cells [of ?f ?e "cd_buffer d"]) (use 2 at_offset_less [OF rep cap, of k] live in auto)
    show ?thesis
      by (rule that [of b]) (use 2 b cells inside at_offset_less [OF rep cap] in \<open>auto simp: DestructRange_def\<close>)
  next
    case 3
    obtain b1 where b1: "vb_DestructRange ?f ?n (cd_buffer d) = Inr b1" "length b1 = ?n"
      "\<And>i. i < ?n \<Longrightarrow> b1 ! i = (if ?f \<le> i \<and> i < ?n then None else cd_buffer d ! i)"
      by (rule vb_DestructRange_cells [of ?f ?n "cd_buffer d"]) (use 3 at_offset_less [OF rep cap, of j] live in auto)
    obtain b where b: "vb_DestructRange 0 ?e b1 = Inr b" "length b = ?n"
      "\<And>i. i < ?n \<Longrightarrow> b ! i = (if i < ?e then None else b1 ! i)"
      by (rule vb_DestructRange_cells [of 0 ?e b1]) (use 3 at_offset_less [OF rep cap, of k] b1 live in auto)
    show ?thesis
      by (rule that [of b]) (use 3 b1 b cells inside at_offset_less [OF rep cap] in \<open>auto simp: DestructRange_def\<close>)
  qed
qed

lemma rep_truncate:
  assumes rep: "deque_rep d xs" and cap: "internal_capacity d \<noteq> 0" and k: "k \<le> length xs" and len: "length b = internal_capacity d"
    and cells: "\<And>i. i < internal_capacity d \<Longrightarrow> b ! at_offset d i = (if i < k then Some (xs ! i) else None)"
  shows "deque_rep (d\<lparr>cd_buffer := b, cd_end := at_offset d k\<rparr>) (take k xs)"
  using rep_bounds [OF rep cap] k len cells by (intro repI) (auto simp: min_absorb2)

lemma rep_drop:
  assumes rep: "deque_rep d xs" and cap: "internal_capacity d \<noteq> 0" and k: "k \<le> length xs" and len: "length b = internal_capacity d"
    and cells: "\<And>i. i < internal_capacity d \<Longrightarrow> b ! at_offset d i = (if k \<le> i \<and> i < length xs then Some (xs ! i) else None)"
  shows "deque_rep (d\<lparr>cd_buffer := b, cd_begin := at_offset d k\<rparr>) (drop k xs)"
proof -
  have less: "at_offset d k < internal_capacity d" by (rule at_offset_less [OF rep cap])
  have e: "cd_end d = (at_offset d k + (length xs - k)) mod internal_capacity d"
    using rep_end_offset [OF rep cap] k at_offset_add [of d k "length xs - k"] by simp
  have "b ! ((at_offset d k + i) mod internal_capacity d) = (if i < length (drop k xs) then Some (drop k xs ! i) else None)"
    if i: "i < internal_capacity d" for i
  proof (cases "k + i < internal_capacity d")
    case True
    then show ?thesis using cells [of "k + i"] at_offset_add [of d k i] k by (auto simp: less_diff_conv add.commute)
  next
    case False
    then have "at_offset d (k + i) = at_offset d (k + i - internal_capacity d)" by (simp add: mod_if [of "cd_begin d + (k + i)"])
    moreover have "k + i - internal_capacity d < k" using i False by linarith
    ultimately show ?thesis
      using False cells [of "k + i - internal_capacity d"] at_offset_add [of d k i] k rep_bounds [OF rep cap] i by auto
  qed
  moreover have "length (drop k xs) < internal_capacity d" using rep_bounds [OF rep cap] by simp linarith
  ultimately show ?thesis
    using less e len by (intro repI) (simp_all del: mod_add_left_eq)
qed

section \<open>Pop, clear and resize\<close>

lemma destruct_at_offset:
  assumes rep: "deque_rep d xs" and k: "k < length xs"
  shows "vb_DestructRange (at_offset d k) (at_offset d k + 1) (cd_buffer d) = Inr ((cd_buffer d)[at_offset d k := None])"
proof -
  note cap = rep_has_buffer [OF rep k]
  have "cd_buffer d ! at_offset d k = Some (xs ! k)" using rep_cells [OF rep, of k] k rep_bounds [OF rep cap] by simp
  then show ?thesis
    using at_offset_less [OF rep cap, of k]
    by (simp add: vb_DestructRange_def take_Suc hd_drop_conv_nth upd_conv_take_nth_drop)
qed

lemma cells_without:
  assumes rep: "deque_rep d xs" and k: "k < length xs" and i: "i < internal_capacity d"
  shows "(cd_buffer d)[at_offset d k := None] ! at_offset d i = (if i \<noteq> k \<and> i < length xs then Some (xs ! i) else None)"
proof -
  note cap = rep_has_buffer [OF rep k]
  have "k < internal_capacity d" using rep_bounds [OF rep cap] k by linarith
  then show ?thesis
    using rep_cells [OF rep i] at_offset_inj [OF rep cap i, of k] at_offset_less [OF rep cap] by (auto simp: nth_list_update)
qed

lemma pop_front_run:
  fixes d :: "'a circular_deque"
  assumes rep: "deque_rep d xs" and ne: "xs \<noteq> []"
  defines "d1 \<equiv> d\<lparr>cd_buffer := (cd_buffer d)[cd_begin d := None], cd_begin := at_offset d 1\<rparr>"
  shows "pop_front on d = rbind (ShrinkCapacityIfNecessary d1) (\<lambda>d2. Inr (IncrementGeneration d2)) \<and> deque_rep d1 (tl xs)"
proof -
  have k: "0 < length xs" using ne by simp
  note cap = rep_has_buffer [OF rep k] and b = rep_begin_offset [OF rep]
  have "deque_rep d1 (drop 1 xs)"
    unfolding d1_def by (rule rep_drop) (use rep cap k cells_without [OF rep k] b in \<open>auto simp: Suc_le_eq\<close>)
  moreover have "(if cd_begin d + 1 = internal_capacity d then 0 else cd_begin d + 1) = at_offset d 1"
    using step_offset [OF rep cap, of 0] b [OF cap] cap by (simp split: if_splits)
  ultimately show ?thesis
    using destruct_at_offset [OF rep k] b [OF cap] rep_size [OF rep] k by (simp add: pop_front_def d1_def drop_Suc)
qed

lemma pop_front_ok:
  assumes rep: "deque_rep d xs" and ne: "xs \<noteq> []"
  obtains d' where "pop_front on d = Inr d'" "deque_rep d' (tl xs)"
proof -
  note run = pop_front_run [OF assms]
  from run [THEN conjunct2] obtain d' where
    "ShrinkCapacityIfNecessary (d\<lparr>cd_buffer := (cd_buffer d)[cd_begin d := None], cd_begin := at_offset d 1\<rparr>) = Inr d'"
    "deque_rep d' (tl xs)" by (rule ShrinkCapacityIfNecessary_ok)
  with run that show thesis by simp
qed

lemma pop_back_ok:
  assumes rep: "deque_rep d xs" and ne: "xs \<noteq> []"
  obtains d' where "pop_back on d = Inr d'" "deque_rep d' (butlast xs)"
proof -
  obtain k where k: "length xs = Suc k" using ne by (cases xs) auto
  then have k_less: "k < length xs" by simp
  note cap = rep_has_buffer [OF rep k_less]
  let ?d = "d\<lparr>cd_buffer := (cd_buffer d)[at_offset d k := None], cd_end := at_offset d k\<rparr>"
  have "deque_rep ?d (take k xs)"
    by (rule rep_truncate) (use rep cap k_less cells_without [OF rep k_less] k in auto)
  then obtain d' where d': "ShrinkCapacityIfNecessary ?d = Inr d'" "deque_rep d' (take k xs)"
    by (rule ShrinkCapacityIfNecessary_ok)
  have "k < internal_capacity d" using rep_bounds [OF rep cap] k by linarith
  from step_back_offset [OF rep cap this]
  have "(if cd_end d = 0 then internal_capacity d - 1 else cd_end d - 1) = at_offset d k"
    using rep_end_offset [OF rep cap] k by (auto split: if_splits)
  with d'(1) have "pop_back on d = Inr (IncrementGeneration d')"
    using destruct_at_offset [OF rep k_less] rep_size [OF rep] k by (simp add: pop_back_def Let_def)
  with d'(2) that show thesis using k by (simp add: butlast_conv_take)
qed

lemma ClearRetainCapacity_ok:
  assumes rep: "deque_rep d xs"
  obtains d' where "ClearRetainCapacity d = Inr d'" "deque_rep d' []" "internal_capacity d' = internal_capacity d"
    "cd_begin d' = 0" "cd_end d' = 0"
proof (cases "internal_capacity d = 0")
  case True
  with rep_empty_buffer [OF rep this] that show thesis
    by (auto simp: ClearRetainCapacity_def DestructRange_def deque_rep_def)
next
  case cap: False
  obtain b where b: "DestructRange (at_offset d 0) (at_offset d (length xs)) d = Inr (d\<lparr>cd_buffer := b\<rparr>)"
    "length b = internal_capacity d"
    "\<And>i. i < internal_capacity d \<Longrightarrow> b ! at_offset d i = (if 0 \<le> i \<and> i < length xs then None else if i < length xs then Some (xs ! i) else None)"
    using DestructRange_ok [OF rep cap, of 0 "length xs"] by auto
  have "b ! i = None" if "i < internal_capacity d" for i
    by (cases rule: at_offset_surj [OF rep that]) (simp add: b(3))
  then have "deque_rep (d\<lparr>cd_buffer := b, cd_begin := 0, cd_end := 0\<rparr>) []"
    using b(2) cap by (intro repI) auto
  then show thesis
    using that b(1,2) rep_begin_offset [OF rep cap] rep_end_offset [OF rep cap] by (simp add: ClearRetainCapacity_def)
qed

lemma cd_clear_ok:
  assumes "deque_rep d xs"
  obtains d' where "cd_clear d = Inr d'" "deque_rep d' []" "cd_capacity d' = 0"
proof -
  obtain d1 where "ClearRetainCapacity d = Inr d1" "cd_begin d1 = 0" "cd_end d1 = 0"
    using ClearRetainCapacity_ok [OF assms] .
  then show thesis
    by (intro that [of "d1\<lparr>cd_buffer := VectorBuffer_default\<rparr>"])
       (simp_all add: cd_clear_def deque_rep_def cd_capacity_def VectorBuffer_default_def)
qed

lemma reserve_ok:
  assumes "deque_rep d xs"
  obtains d' where "reserve n d = Inr d'" "deque_rep d' xs" "n \<le> cd_capacity d'"
proof (cases "n > cd_capacity d")
  case True
  then have "length xs \<le> n" using rep_capacity [OF assms] by linarith
  with SetCapacityTo_ok [OF assms, of n] obtain d' where "SetCapacityTo n d = Inr d'" "deque_rep d' xs" "cd_capacity d' = n"
    by metis
  with True that show thesis by (simp add: reserve_def)
next
  case False
  with assms that show thesis by (simp add: reserve_def)
qed

lemma shrink_to_fit_ok:
  assumes "deque_rep d xs"
  obtains d' where "shrink_to_fit d = Inr d'" "deque_rep d' xs" "cd_capacity d' = length xs"
proof (cases "xs = []")
  case True
  then have "cd_begin d = cd_end d" using rep_empty [OF assms] by (simp add: cd_empty_def)
  with True that show thesis
    by (auto simp: shrink_to_fit_def cd_empty_def deque_rep_def cd_capacity_def VectorBuffer_default_def)
next
  case False
  with SetCapacityTo_ok [OF assms order_refl] obtain d' where
    "SetCapacityTo (length xs) d = Inr d'" "deque_rep d' xs" "cd_capacity d' = length xs" by metis
  with False that assms show thesis by (simp add: shrink_to_fit_def rep_empty rep_size)
qed

lemma emplace_all_ok:
  assumes "deque_rep d xs"
  obtains d' where "emplace_all on ys d = Inr d'" "deque_rep d' (xs @ ys)"
proof -
  have "\<exists>d'. emplace_all on ys d = Inr d' \<and> deque_rep d' (xs @ ys)"
    using assms
  proof (induction ys arbitrary: d xs)
    case (Cons y ys)
    obtain d1 where d1: "emplace_back on y d = Inr (y, d1)" "deque_rep d1 (xs @ [y])"
      using emplace_back_ok [OF Cons.prems] .
    with Cons.IH [OF d1(2)] show ?case by simp
  qed simp
  with that show thesis by blast
qed

lemma push_front_ok:
  assumes "deque_rep d xs"
  obtains d' where "push_front on x d = Inr d'" "deque_rep d' (x # xs)"
proof -
  obtain d' where "emplace_front on x d = Inr (x, d')" "deque_rep d' (x # xs)" using emplace_front_ok [OF assms] .
  with that show thesis by (simp add: push_front_def)
qed

lemma push_back_ok:
  assumes "deque_rep d xs"
  obtains d' where "push_back on x d = Inr d'" "deque_rep d' (xs @ [x])"
proof -
  obtain d' where "emplace_back on x d = Inr (x, d')" "deque_rep d' (xs @ [x])" using emplace_back_ok [OF assms] .
  with that show thesis by (simp add: push_back_def)
qed

lemma push_front_loop_ok:
  assumes "deque_rep d xs"
  obtains d' where "push_front_loop on n x d = Inr d'" "deque_rep d' (replicate n x @ xs)"
proof -
  have "\<exists>d'. push_front_loop on n x d = Inr d' \<and> deque_rep d' (replicate n x @ xs)"
    using assms
  proof (induction n arbitrary: d xs)
    case (Suc n)
    obtain d1 where d1: "push_front on x d = Inr d1" "deque_rep d1 (x # xs)"
      using push_front_ok [OF Suc.prems] .
    with Suc.IH [OF d1(2)] show ?case by (simp add: replicate_app_Cons_same)
  qed simp
  with that show thesis by blast
qed

lemma assign_range_ok:
  assumes "deque_rep d xs"
  obtains d' where "assign_range on ys d = Inr d'" "deque_rep d' ys"
proof -
  obtain d1 where d1: "ClearRetainCapacity d = Inr d1" "deque_rep d1 []" using ClearRetainCapacity_ok [OF assms] .
  obtain d2 where "emplace_all on ys d1 = Inr d2" "deque_rep d2 ([] @ ys)" using emplace_all_ok [OF d1(2)] .
  with d1(1) that show thesis by (simp add: assign_range_def)
qed

lemma assign_count_ok:
  assumes "deque_rep d xs"
  obtains d' where "assign_count on n x d = Inr d'" "deque_rep d' (replicate n x)"
proof -
  obtain d1 where d1: "ClearRetainCapacity d = Inr d1" "deque_rep d1 []" using ClearRetainCapacity_ok [OF assms] .
  obtain d2 where d2: "reserve n d1 = Inr d2" "deque_rep d2 []" using reserve_ok [OF d1(2)] .
  obtain d3 where "emplace_all on (replicate n x) d2 = Inr d3" "deque_rep d3 ([] @ replicate n x)"
    using emplace_all_ok [OF d2(2)] .
  with d1(1) d2(1) that show thesis by (simp add: assign_count_def)
qed

lemma resize_ok:
  assumes rep: "deque_rep d xs"
  obtains d' where "resize on n x d = Inr d'" "deque_rep d' (take n xs @ replicate (n - length xs) x)"
proof -
  consider "n > length xs" | "n < length xs" | "n = length xs" by linarith
  then show thesis
  proof cases
    case 1
    obtain d1 where d1: "ExpandCapacityIfNecessary (n - length xs) d = Inr d1" "deque_rep d1 xs"
      using ExpandCapacityIfNecessary_ok [OF rep] .
    obtain d2 where "emplace_all on (replicate (n - length xs) x) d1 = Inr d2" "deque_rep d2 (xs @ replicate (n - length xs) x)"
      using emplace_all_ok [OF d1(2)] .
    with d1(1) 1 that rep show ?thesis by (simp add: resize_def rep_size)
  next
    case 2
    note cap = rep_has_buffer [OF rep 2]
    obtain b where b: "DestructRange (at_offset d n) (at_offset d (length xs)) d = Inr (d\<lparr>cd_buffer := b\<rparr>)"
      "length b = internal_capacity d"
      "\<And>i. i < internal_capacity d \<Longrightarrow> b ! at_offset d i = (if n \<le> i \<and> i < length xs then None else if i < length xs then Some (xs ! i) else None)"
      using DestructRange_ok [OF rep cap, of n "length xs"] 2 by auto
    have "deque_rep (d\<lparr>cd_buffer := b, cd_end := at_offset d n\<rparr>) (take n xs)"
      by (rule rep_truncate [OF rep cap _ b(2)]) (use 2 b(3) in auto)
    then obtain d2 where "ShrinkCapacityIfNecessary (d\<lparr>cd_buffer := b, cd_end := at_offset d n\<rparr>) = Inr d2" "deque_rep d2 (take n xs)"
      by (rule ShrinkCapacityIfNecessary_ok)
    with b(1) 2 that rep show ?thesis by (simp add: resize_def rep_size rep_end_offset [OF rep cap] Let_def)
  next
    case 3
    with that rep show ?thesis by (simp add: resize_def rep_size)
  qed
qed

end
