(* ===== verification/Deque_Edit.thy ===== *)
theory Deque_Edit
  imports Circular_Deque Container_Spec
begin

text \<open>
  Insertion and removal in the middle of a \<open>base::circular_deque\<close>: \<open>MakeRoomFor\<close>, the \<open>insert\<close>
  overloads, \<open>emplace\<close> and \<open>erase\<close> of \<open>base/containers/circular_deque.h\<close>. Their loops compare
  iterators and end only if the buffer is well formed, so they are partial: \<^const>\<open>None\<close> is a loop
  that does not end. The lemmas show that on a well-formed deque every loop ends without a failed
  check and that the elements are those of the list operation.
\<close>

section \<open>The loops and the operations\<close>

definition make_room_body ::
    "bool \<Rightarrow> cd_iterator \<Rightarrow> cd_iterator \<times> cd_iterator \<times> 'a circular_deque \<Rightarrow>
     ('a circular_deque, cd_iterator \<times> cd_iterator \<times> 'a circular_deque) loop_step result" where
  \<comment> \<open>one turn of the loop of \<open>MakeRoomFor\<close>\<close>
  "make_room_body on insert_begin = (\<lambda>(src, dest, d).
     rbind (it_equal on src insert_begin) (\<lambda>stop.
     if stop then Inr (Break d)
     else
       rbind (Decrement on d src) (\<lambda>src'.
       rbind (Decrement on d dest) (\<lambda>dest'.
       rbind (vb_move_one on (it_index src') (it_index dest') (cd_buffer d)) (\<lambda>b.
       Inr (Continue (src', dest', d\<lparr>cd_buffer := b\<rparr>)))))))"

definition erase_body ::
    "bool \<Rightarrow> cd_iterator \<Rightarrow> cd_iterator \<times> cd_iterator \<times> 'a circular_deque \<Rightarrow>
     (cd_iterator \<times> 'a circular_deque, cd_iterator \<times> cd_iterator \<times> 'a circular_deque) loop_step result" where
  \<comment> \<open>one turn of the loop of \<open>erase\<close>\<close>
  "erase_body on move_src_end = (\<lambda>(move_src, move_dest, d).
     rbind (it_less on d move_src move_src_end) (\<lambda>more.
     if \<not> more then Inr (Break (move_dest, d))
     else
       rbind (vb_move_one on (it_index move_src) (it_index move_dest) (cd_buffer d)) (\<lambda>b.
       let d1 = d\<lparr>cd_buffer := b\<rparr>
       in rbind (Increment on d1 move_src) (\<lambda>src'.
          rbind (Increment on d1 move_dest) (\<lambda>dest'. Inr (Continue (src', dest', d1)))))))"

definition insert_body ::
    "bool \<Rightarrow> cd_iterator \<Rightarrow> cd_iterator \<times> 'a list \<times> 'a circular_deque \<Rightarrow>
     ('a circular_deque, cd_iterator \<times> 'a list \<times> 'a circular_deque) loop_step result" where
  \<comment> \<open>one turn of the copying loop of \<open>insert\<close>; the list is what is left of the input range\<close>
  "insert_body on insert_end = (\<lambda>(insert_cur, items, d).
     rbind (it_less on d insert_cur insert_end) (\<lambda>more.
     if \<not> more then Inr (Break d)
     else case items of
         [] \<Rightarrow> Inl OutOfBounds
       | x # items' \<Rightarrow>
           rbind (vb_construct (cd_buffer d) (it_index insert_cur) x) (\<lambda>b.
           let d1 = d\<lparr>cd_buffer := b\<rparr>
           in rbind (Increment on d1 insert_cur) (\<lambda>cur'. Inr (Continue (cur', items', d1))))))"

partial_function (option) run_loop :: "('s \<Rightarrow> ('r, 's) loop_step result) \<Rightarrow> 's \<Rightarrow> 'r result option" where
  "run_loop body s =
     (case body s of Inl e \<Rightarrow> Some (Inl e) | Inr (Break r) \<Rightarrow> Some (Inr r) | Inr (Continue s') \<Rightarrow> run_loop body s')"

definition ValidateIterator :: "bool \<Rightarrow> 'a circular_deque \<Rightarrow> cd_iterator \<Rightarrow> unit result" where
  "ValidateIterator on d i = CheckUnstableUsage on d i"

definition MakeRoomFor ::
    "bool \<Rightarrow> nat \<Rightarrow> cd_iterator \<Rightarrow> 'a circular_deque \<Rightarrow> (cd_iterator \<times> cd_iterator \<times> 'a circular_deque) result option" where
  \<comment> \<open>the updated \<open>*insert_begin\<close>, \<open>*insert_end\<close> and the deque\<close>
  "MakeRoomFor on count insert_begin d =
     (if count = 0 then Some (Inr (insert_begin, insert_begin, d))
      else
        let begin_offset = OffsetFromBegin d insert_begin
        in obind (Some (ExpandCapacityIfNecessary count d)) (\<lambda>d1.
           let insert_begin' = insert_begin\<lparr>it_index := (cd_begin d1 + begin_offset) mod internal_capacity d1\<rparr>;
               insert_end = iterator_at d1 ((it_index insert_begin' + count) mod internal_capacity d1);
               src = cd_end_it d1;
               d2 = d1\<lparr>cd_end := (cd_end d1 + count) mod internal_capacity d1\<rparr>
           in obind (run_loop (make_room_body on insert_begin') (src, cd_end_it d2, d2)) (\<lambda>d3.
              Some (Inr (insert_begin', insert_end, d3)))))"

definition insert_count ::
    "bool \<Rightarrow> cd_iterator \<Rightarrow> nat \<Rightarrow> 'a \<Rightarrow> 'a circular_deque \<Rightarrow> 'a circular_deque result option" where
  "insert_count on pos count x d =
     obind (Some (ValidateIterator on d pos)) (\<lambda>_.
     obind (Some (it_equal on pos (cd_begin_it d))) (\<lambda>at_begin.
     if at_begin
     then Some (rbind (ExpandCapacityIfNecessary count d) (push_front_loop on count x))
     else
       obind (MakeRoomFor on count (iterator_at d (it_index pos)) d) (\<lambda>(insert_cur, insert_end, d1).
       obind (run_loop (insert_body on insert_end) (insert_cur, replicate count x, d1)) (\<lambda>d2.
       Some (Inr (IncrementGeneration d2))))))"

definition insert_range ::
    "bool \<Rightarrow> cd_iterator \<Rightarrow> 'a list \<Rightarrow> 'a circular_deque \<Rightarrow> 'a circular_deque result option" where
  \<comment> \<open>the list is the range between the two input iterators\<close>
  "insert_range on pos xs d =
     obind (Some (ValidateIterator on d pos)) (\<lambda>_.
     let inserted_items = length xs
     in if inserted_items = 0 then Some (Inr d)
        else
          obind (Some (it_equal on pos (cd_begin_it d))) (\<lambda>at_begin.
          obind
            (if at_begin
             then obind (Some (ExpandCapacityIfNecessary inserted_items d)) (\<lambda>d1.
                  let d2 = d1\<lparr>cd_begin := (cd_begin d1 + internal_capacity d1 - inserted_items) mod internal_capacity d1\<rparr>
                  in Some (Inr (cd_begin_it d2, cd_begin_it d1, d2)))
             else MakeRoomFor on inserted_items (iterator_at d (it_index pos)) d)
            (\<lambda>(insert_cur, insert_end, d1).
          obind (run_loop (insert_body on insert_end) (insert_cur, xs, d1)) (\<lambda>d2.
          Some (Inr (IncrementGeneration d2))))))"

definition emplace ::
    "bool \<Rightarrow> cd_iterator \<Rightarrow> 'a \<Rightarrow> 'a circular_deque \<Rightarrow> (cd_iterator \<times> 'a circular_deque) result option" where
  "emplace on pos x d =
     obind (Some (ValidateIterator on d pos)) (\<lambda>_.
     obind (Some (it_equal on pos (cd_begin_it d))) (\<lambda>at_begin.
     if at_begin
     then Some (rbind (emplace_front on x d) (\<lambda>(r, d1). Inr (cd_begin_it d1, d1)))
     else
       let d1 = IncrementGeneration d
       in obind (MakeRoomFor on 1 (iterator_at d1 (it_index pos)) d1) (\<lambda>(insert_begin, insert_end, d2).
          obind (Some (vb_construct (cd_buffer d2) (it_index insert_begin) x)) (\<lambda>b.
          Some (Inr (insert_begin, d2\<lparr>cd_buffer := b\<rparr>))))))"

definition erase_range ::
    "bool \<Rightarrow> cd_iterator \<Rightarrow> cd_iterator \<Rightarrow> 'a circular_deque \<Rightarrow> (cd_iterator \<times> 'a circular_deque) result option" where
  "erase_range on first_it last_it d =
     obind (Some (ValidateIterator on d first_it)) (\<lambda>_.
     obind (Some (ValidateIterator on d last_it)) (\<lambda>_.
     let d1 = IncrementGeneration d; f = it_index first_it; l = it_index last_it
     in if f = l then Some (Inr (iterator_at d1 f, d1))
        else
          obind (Some (if f < l
                       then rbind (vb_DestructRange f l (cd_buffer d1)) (\<lambda>b. Inr (d1\<lparr>cd_buffer := b\<rparr>))
                       else rbind (vb_DestructRange f (internal_capacity d1) (cd_buffer d1)) (\<lambda>b.
                            rbind (vb_DestructRange 0 l b) (\<lambda>b'. Inr (d1\<lparr>cd_buffer := b'\<rparr>))))) (\<lambda>d2.
          if f = cd_begin d2
          then Some (Inr (iterator_at d2 l, d2\<lparr>cd_begin := l\<rparr>))
          else
            obind (run_loop (erase_body on (cd_end_it d2)) (iterator_at d2 l, iterator_at d2 f, d2))
              (\<lambda>(move_dest, d3).
            Some (Inr (iterator_at d3 f, d3\<lparr>cd_end := it_index move_dest\<rparr>))))))"

definition erase_one ::
    "bool \<Rightarrow> cd_iterator \<Rightarrow> 'a circular_deque \<Rightarrow> (cd_iterator \<times> 'a circular_deque) result option" where
  "erase_one on pos d = obind (Some (it_Add on d 1 pos)) (\<lambda>next_it. erase_range on pos next_it d)"

section \<open>The cells in logical order\<close>

abbreviation ring_cells :: "'a circular_deque \<Rightarrow> 'a cells" where
  "ring_cells d \<equiv> rotate (cd_begin d) (cd_buffer d)"

definition deque_span :: "'a circular_deque \<Rightarrow> nat \<Rightarrow> bool" where
  \<comment> \<open>the indices are those of a deque with \<open>e\<close> elements, whatever its cells hold\<close>
  "deque_span d e \<longleftrightarrow> cd_begin d < internal_capacity d \<and> e < internal_capacity d \<and> cd_end d = at_offset d e"

lemma rotate_update:
  assumes "j < length xs" "b < length xs"
  shows "rotate b (xs[(b + j) mod length xs := v]) = (rotate b xs)[j := v]"
proof (rule nth_equalityI)
  fix i
  assume "i < length (rotate b (xs[(b + j) mod length xs := v]))"
  then have i: "i < length xs" by simp
  have "(b + i) mod length xs = (b + j) mod length xs \<longleftrightarrow> i = j"
    using i assms ring_index [of b "length xs" i] ring_index [of b "length xs" j] by (simp split: if_splits) linarith+
  moreover have "(b + j) mod length xs < length xs" using i by (intro mod_less_divisor) linarith
  ultimately show "rotate b (xs[(b + j) mod length xs := v]) ! i = (rotate b xs)[j := v] ! i"
    using i assms by (auto simp: nth_rotate nth_list_update)
qed simp

lemma span_rep_iff:
  "deque_rep d xs \<and> internal_capacity d \<noteq> 0 \<longleftrightarrow>
     deque_span d (length xs) \<and> ring_cells d = map Some xs @ replicate (internal_capacity d - length xs) None"
  by (auto simp: deque_rep_def deque_span_def)

lemma span_offset:
  "deque_span d e \<Longrightarrow> k \<le> internal_capacity d \<Longrightarrow>
     at_offset d k = (if cd_begin d + k < internal_capacity d then cd_begin d + k else cd_begin d + k - internal_capacity d)"
  by (simp add: deque_span_def ring_index)

lemma span_end: "deque_span d e \<Longrightarrow>
    cd_end d = (if cd_begin d + e < internal_capacity d then cd_begin d + e else cd_begin d + e - internal_capacity d)"
  by (simp add: deque_span_def ring_index)

lemma span_bounds: "deque_span d e \<Longrightarrow> cd_begin d < internal_capacity d \<and> e < internal_capacity d"
  by (simp add: deque_span_def)

lemma span_valid:
  assumes span: "deque_span d e" and k: "k < e"
  shows "CheckValidIndex d (at_offset d k)"
proof -
  have "k \<le> internal_capacity d" using span_bounds [OF span] k by linarith
  from span_offset [OF span this] span_end [OF span] span_bounds [OF span] k show ?thesis
    by (simp add: CheckValidIndex_def split: if_splits) linarith
qed

lemma span_valid_or_end: "deque_span d e \<Longrightarrow> k \<le> e \<Longrightarrow> CheckValidIndexOrEnd d (at_offset d k)"
  using span_valid [of d e k] by (cases "k = e") (auto simp: CheckValidIndexOrEnd_def deque_span_def)

lemma span_OffsetFromBegin:
  "deque_span d e \<Longrightarrow> k < internal_capacity d \<Longrightarrow> it_index it = at_offset d k \<Longrightarrow> OffsetFromBegin d it = k"
  using span_offset [of d e k] by (auto simp: OffsetFromBegin_def deque_span_def split: if_splits)

lemma span_update_buffer: "length b = internal_capacity d \<Longrightarrow> deque_span (d\<lparr>cd_buffer := b\<rparr>) e = deque_span d e"
  by (simp add: deque_span_def)

lemma span_Increment:
  assumes "deque_span d e" "k < e"
  shows "Increment on d (iterator_at d (at_offset d k)) = Inr (iterator_at d (at_offset d (Suc k)))"
  using assms span_valid [OF assms] span_offset [of d e k] span_offset [of d e "Suc k"]
  by (auto simp: Increment_def iterator_at_def CheckUnstableUsage_def deque_span_def split: if_splits)

lemma span_Decrement:
  assumes "deque_span d e" "k < e"
  shows "Decrement on d (iterator_at d (at_offset d (Suc k))) = Inr (iterator_at d (at_offset d k))"
  using assms span_valid_or_end [of d e "Suc k"] span_offset [of d e k] span_offset [of d e "Suc k"]
  by (auto simp: Decrement_def iterator_at_def CheckUnstableUsage_def deque_span_def split: if_splits)

lemma span_it_less:
  assumes "deque_span d e" "j \<le> e" "k \<le> e"
  shows "it_less on d (iterator_at d (at_offset d j)) (iterator_at d (at_offset d k)) = Inr (j < k)"
proof -
  have "j < internal_capacity d" "k < internal_capacity d" using assms by (auto simp: deque_span_def)
  then show ?thesis
    using span_OffsetFromBegin [OF assms(1)] by (simp add: it_less_def CheckComparable_def iterator_at_def)
qed

lemma span_it_equal:
  assumes "deque_span d e" "j \<le> e" "k \<le> e"
  shows "it_equal on (iterator_at d (at_offset d j)) (iterator_at d (at_offset d k)) = Inr (j = k)"
  using assms span_offset [of d e j] span_offset [of d e k]
  by (auto simp: it_equal_def CheckComparable_def iterator_at_def deque_span_def split: if_splits)

lemma it_index_iterator_at [simp]: "it_index (iterator_at d i) = i"
  by (simp add: iterator_at_def)

lemma iterator_at_generation: "cd_generation d = cd_generation d' \<Longrightarrow> iterator_at d i = iterator_at d' i"
  by (simp add: iterator_at_def)

section \<open>The loops end and move what they should\<close>

lemma run_loop_Break: "body s = Inr (Break r) \<Longrightarrow> run_loop body s = Some (Inr r)"
  by (subst run_loop.simps) simp

lemma run_loop_Continue: "body s = Inr (Continue s') \<Longrightarrow> run_loop body s = run_loop body s'"
  by (subst run_loop.simps) simp

lemma read_ring:
  assumes "deque_span d e" "ring_cells d = A @ Some x # B"
  shows "vb_read (cd_buffer d) (at_offset d (length A)) = Inr x"
proof -
  have len: "length A < internal_capacity d" using arg_cong [OF assms(2), of length] by simp
  have "ring_cells d ! length A = cd_buffer d ! at_offset d (length A)" using len by (simp add: nth_rotate)
  then have "cd_buffer d ! at_offset d (length A) = Some x" by (simp add: assms(2))
  moreover have "at_offset d (length A) < internal_capacity d" using len by (intro mod_less_divisor) linarith
  ultimately show ?thesis by (simp add: vb_read_def)
qed

lemma update_ring:
  assumes "deque_span d e" "j < internal_capacity d"
  shows "rotate (cd_begin d) ((cd_buffer d)[at_offset d j := v]) = (ring_cells d)[j := v]"
  using assms rotate_update [of j "cd_buffer d" "cd_begin d" v] by (simp add: deque_span_def)

lemma move_one_ring:
  assumes span: "deque_span d e" and i: "ring_cells d = A @ Some x # B" and j: "j < internal_capacity d" "j \<noteq> length A"
  obtains b where "vb_move_one on (at_offset d (length A)) (at_offset d j) (cd_buffer d) = Inr b"
    "length b = internal_capacity d" "rotate (cd_begin d) b = (A @ None # B)[j := Some x]"
proof -
  let ?i = "length A" and ?n = "internal_capacity d"
  have len: "?i < ?n" using arg_cong [OF i, of length] by simp
  have less: "at_offset d ?i < ?n" "at_offset d j < ?n" using len by (intro mod_less_divisor; linarith)+
  have ne: "at_offset d ?i \<noteq> at_offset d j"
    using span_offset [OF span, of ?i] span_offset [OF span, of j] len j by (auto split: if_splits)
  let ?b1 = "(cd_buffer d)[at_offset d ?i := None]"
  have r1: "rotate (cd_begin d) ?b1 = A @ None # B" using update_ring [OF span len] i by simp
  have "rotate (cd_begin d) (?b1[at_offset d j := Some x]) = (rotate (cd_begin d) ?b1)[j := Some x]"
    using rotate_update [of j ?b1 "cd_begin d" "Some x"] j span by (simp add: deque_span_def)
  moreover have "vb_move_one on (at_offset d ?i) (at_offset d j) (cd_buffer d) = Inr (?b1[at_offset d j := Some x])"
    using read_ring [OF span i] less ne
    by (cases "at_offset d ?i < at_offset d j") (simp_all add: vb_move_one_def RangesOverlap_def Suc_le_eq)
  ultimately show thesis using that r1 by simp
qed

lemma make_room_loop_ok:
  assumes "deque_span d e" "ring_cells d = map Some zs @ map Some ys @ replicate c None @ B"
    and "length zs + length ys + c \<le> e" "0 < c"
  obtains d' where
    "run_loop (make_room_body on (iterator_at d (at_offset d (length zs))))
       (iterator_at d (at_offset d (length zs + length ys)), iterator_at d (at_offset d (length zs + length ys + c)), d) = Some (Inr d')"
    "\<exists>b. d' = d\<lparr>cd_buffer := b\<rparr> \<and> length b = internal_capacity d \<and>
       rotate (cd_begin d) b = map Some zs @ replicate c None @ map Some ys @ B"
proof -
  have "\<exists>d'. run_loop (make_room_body on (iterator_at d (at_offset d (length zs))))
       (iterator_at d (at_offset d (length zs + length ys)), iterator_at d (at_offset d (length zs + length ys + c)), d) = Some (Inr d') \<and>
    (\<exists>b. d' = d\<lparr>cd_buffer := b\<rparr> \<and> length b = internal_capacity d \<and>
       rotate (cd_begin d) b = map Some zs @ replicate c None @ map Some ys @ B)"
    using assms
  proof (induction ys arbitrary: d B rule: rev_induct)
    case Nil
    have "make_room_body on (iterator_at d (at_offset d (length zs)))
        (iterator_at d (at_offset d (length zs)), iterator_at d (at_offset d (length zs + c)), d) = Inr (Break d)"
      using span_it_equal [OF Nil.prems(1), of "length zs" "length zs" on] Nil.prems by (simp add: make_room_body_def)
    then show ?case using Nil.prems by (auto simp: run_loop_Break intro!: exI [of _ "cd_buffer d"])
  next
    case (snoc y ys)
    let ?k = "length zs + length ys"
    obtain b where b: "vb_move_one on (at_offset d ?k) (at_offset d (?k + c)) (cd_buffer d) = Inr b" "length b = internal_capacity d"
      "rotate (cd_begin d) b = (map Some zs @ map Some ys @ None # replicate c None @ B)[?k + c := Some y]"
      using move_one_ring [OF snoc.prems(1), of "map Some (zs @ ys)" y "replicate c None @ B" "?k + c" on]
        snoc.prems span_bounds [OF snoc.prems(1)] by auto
    have upd: "(map Some zs @ map Some ys @ None # replicate c None @ B)[?k + c := Some y] =
        map Some zs @ map Some ys @ replicate c None @ Some y # B"
    proof -
      have "None # replicate c None = replicate c None @ [None]" by (simp add: replicate_append_same)
      then have "None # replicate c None @ B = replicate c None @ None # B" by (metis append_Cons append_assoc self_append_conv2)
      then show ?thesis by (simp only:) (simp add: list_update_append)
    qed
    let ?d = "d\<lparr>cd_buffer := b\<rparr>"
    have span: "deque_span ?d e" using snoc.prems(1) b(2) by (simp add: span_update_buffer)
    have "make_room_body on (iterator_at d (at_offset d (length zs)))
        (iterator_at d (at_offset d (length zs + length (ys @ [y]))), iterator_at d (at_offset d (length zs + length (ys @ [y]) + c)), d) =
        Inr (Continue (iterator_at d (at_offset d ?k), iterator_at d (at_offset d (?k + c)), ?d))"
      using span_it_equal [OF snoc.prems(1), of "Suc ?k" "length zs" on] span_Decrement [OF snoc.prems(1), of ?k on]
        span_Decrement [OF snoc.prems(1), of "?k + c" on] snoc.prems(3) b(1)
      by (simp add: make_room_body_def)
    moreover have "ring_cells ?d = map Some zs @ map Some ys @ replicate c None @ (Some y # B)" using b(3) upd by simp
    from snoc.IH [OF span this] snoc.prems(3,4)
    obtain d' where "run_loop (make_room_body on (iterator_at ?d (at_offset ?d (length zs))))
        (iterator_at ?d (at_offset ?d ?k), iterator_at ?d (at_offset ?d (?k + c)), ?d) = Some (Inr d')"
      "\<exists>b. d' = ?d\<lparr>cd_buffer := b\<rparr> \<and> length b = internal_capacity ?d \<and>
        rotate (cd_begin ?d) b = map Some zs @ replicate c None @ map Some ys @ Some y # B" by auto
    ultimately show ?case using b(2) by (auto simp: run_loop_Continue iterator_at_def)
  qed
  with that show thesis by blast
qed

lemma insert_loop_ok:
  assumes "deque_span d e" "ring_cells d = map Some zs @ replicate (length ys) None @ B" "length zs + length ys \<le> e"
  shows "\<exists>d'. run_loop (insert_body on (iterator_at d (at_offset d (length zs + length ys))))
       (iterator_at d (at_offset d (length zs)), ys, d) = Some (Inr d') \<and>
    (\<exists>b. d' = d\<lparr>cd_buffer := b\<rparr> \<and> length b = internal_capacity d \<and> rotate (cd_begin d) b = map Some (zs @ ys) @ B)"
  using assms
proof (induction ys arbitrary: d zs)
  case Nil
  have "insert_body on (iterator_at d (at_offset d (length zs))) (iterator_at d (at_offset d (length zs)), [], d) = Inr (Break d)"
    using span_it_less [OF Nil.prems(1), of "length zs" "length zs" on] Nil.prems(3) by (simp add: insert_body_def)
  then show ?case using Nil.prems by (auto simp: run_loop_Break intro!: exI [of _ "cd_buffer d"])
next
  case (Cons y ys)
  let ?k = "length zs" and ?e = "length zs + length (y # ys)"
  have k: "?k < internal_capacity d" using Cons.prems(3) span_bounds [OF Cons.prems(1)] by simp
  then have less: "at_offset d ?k < internal_capacity d" by (intro mod_less_divisor) linarith
  let ?d = "d\<lparr>cd_buffer := (cd_buffer d)[at_offset d ?k := Some y]\<rparr>"
  have span: "deque_span ?d e" using Cons.prems(1) by (simp add: span_update_buffer)
  have "ring_cells ?d = map Some (zs @ [y]) @ replicate (length ys) None @ B"
    using update_ring [OF Cons.prems(1) k] Cons.prems(2) by (simp add: list_update_append)
  from Cons.IH [OF span this] Cons.prems(3)
  obtain d' where d': "run_loop (insert_body on (iterator_at ?d (at_offset ?d ?e)))
      (iterator_at ?d (at_offset ?d (Suc ?k)), ys, ?d) = Some (Inr d')"
    "\<exists>b. d' = ?d\<lparr>cd_buffer := b\<rparr> \<and> length b = internal_capacity ?d \<and> rotate (cd_begin ?d) b = map Some (zs @ y # ys) @ B"
    by auto
  have "Increment on ?d (iterator_at d (at_offset d ?k)) = Inr (iterator_at ?d (at_offset ?d (Suc ?k)))"
    using span_Increment [OF span, of ?k on] Cons.prems(3) by (simp add: iterator_at_def)
  then have "insert_body on (iterator_at d (at_offset d ?e)) (iterator_at d (at_offset d ?k), y # ys, d) =
      Inr (Continue (iterator_at ?d (at_offset ?d (Suc ?k)), ys, ?d))"
    using span_it_less [OF Cons.prems(1), of ?k ?e on] Cons.prems(3) less
    by (simp add: insert_body_def vb_construct_def Let_def)
  with d' show ?case by (auto simp: run_loop_Continue iterator_at_def)
qed

lemma erase_loop_ok:
  assumes "deque_span d (length A + c + length ys)" "ring_cells d = A @ replicate c None @ map Some ys @ B" "0 < c"
  shows "\<exists>d'. run_loop (erase_body on (cd_end_it d))
       (iterator_at d (at_offset d (length A + c)), iterator_at d (at_offset d (length A)), d) =
       Some (Inr (iterator_at d (at_offset d (length A + length ys)), d')) \<and>
    (\<exists>b. d' = d\<lparr>cd_buffer := b\<rparr> \<and> length b = internal_capacity d \<and>
       rotate (cd_begin d) b = A @ map Some ys @ replicate c None @ B)"
  using assms
proof (induction ys arbitrary: d A)
  case Nil
  have "erase_body on (cd_end_it d) (iterator_at d (at_offset d (length A + c)), iterator_at d (at_offset d (length A)), d) =
      Inr (Break (iterator_at d (at_offset d (length A)), d))"
    using span_it_less [OF Nil.prems(1), of "length A + c" "length A + c" on] Nil.prems(1)
    by (simp add: erase_body_def cd_end_it_def deque_span_def)
  then show ?case using Nil.prems by (auto simp: run_loop_Break intro!: exI [of _ "cd_buffer d"])
next
  case (Cons y ys)
  let ?k = "length A" and ?e = "length A + c + length (y # ys)"
  have e: "cd_end d = at_offset d ?e" using Cons.prems(1) by (simp add: deque_span_def)
  obtain b where b: "vb_move_one on (at_offset d (?k + c)) (at_offset d ?k) (cd_buffer d) = Inr b" "length b = internal_capacity d"
    "rotate (cd_begin d) b = (A @ replicate c None @ None # map Some ys @ B)[?k := Some y]"
    using move_one_ring [OF Cons.prems(1), of "A @ replicate c None" y "map Some ys @ B" ?k on]
      Cons.prems span_bounds [OF Cons.prems(1)] by auto
  have "replicate c None @ None # map Some ys @ B = None # replicate c None @ map Some ys @ B"
    by (simp add: replicate_app_Cons_same)
  with b(3) have ring: "rotate (cd_begin d) b = (A @ [Some y]) @ replicate c None @ map Some ys @ B"
    by (simp only: list_update_length) simp
  let ?d = "d\<lparr>cd_buffer := b\<rparr>"
  have span: "deque_span ?d ?e" using Cons.prems(1) b(2) by (simp add: span_update_buffer)
  from Cons.IH [of ?d "A @ [Some y]"] span ring Cons.prems(3)
  obtain d' where d': "run_loop (erase_body on (cd_end_it ?d))
      (iterator_at ?d (at_offset ?d (Suc (?k + c))), iterator_at ?d (at_offset ?d (Suc ?k)), ?d) =
      Some (Inr (iterator_at ?d (at_offset ?d (Suc ?k + length ys)), d'))"
    "\<exists>b. d' = ?d\<lparr>cd_buffer := b\<rparr> \<and> length b = internal_capacity ?d \<and>
       rotate (cd_begin ?d) b = A @ map Some (y # ys) @ replicate c None @ B" by auto
  have "Increment on ?d (iterator_at d (at_offset d (?k + c))) = Inr (iterator_at ?d (at_offset ?d (Suc (?k + c))))"
    "Increment on ?d (iterator_at d (at_offset d ?k)) = Inr (iterator_at ?d (at_offset ?d (Suc ?k)))"
    using span_Increment [OF span, of "?k + c" on] span_Increment [OF span, of ?k on] b(2) by (simp_all add: iterator_at_def)
  then have "erase_body on (cd_end_it d) (iterator_at d (at_offset d (?k + c)), iterator_at d (at_offset d ?k), d) =
      Inr (Continue (iterator_at ?d (at_offset ?d (Suc (?k + c))), iterator_at ?d (at_offset ?d (Suc ?k)), ?d))"
    using span_it_less [OF Cons.prems(1), of "?k + c" ?e on] b(1)
    by (simp add: erase_body_def cd_end_it_def e) (simp add: iterator_at_def)
  with d' b(2) show ?case by (auto simp: run_loop_Continue iterator_at_def cd_end_it_def)
qed

section \<open>Insertion\<close>

abbreviation iterator_to :: "'a circular_deque \<Rightarrow> nat \<Rightarrow> cd_iterator" where
  "iterator_to d k \<equiv> iterator_at d (at_offset d k)"

lemma rep_OffsetFromBegin:
  assumes "deque_rep d xs" "k \<le> length xs"
  shows "OffsetFromBegin d (iterator_to d k) = k"
proof (cases "internal_capacity d = 0")
  case True
  with rep_empty_buffer [OF assms(1)] assms(2) show ?thesis by (simp add: OffsetFromBegin_def)
next
  case False
  with assms have "deque_span d (length xs)" using span_rep_iff [of d xs] by blast
  with assms(2) show ?thesis
    using span_OffsetFromBegin [of d "length xs" k] span_bounds [of d "length xs"] by simp
qed

lemma rep_at_begin:
  assumes "deque_rep d xs" "k \<le> length xs"
  shows "it_equal on (iterator_to d k) (cd_begin_it d) = Inr (k = 0)"
proof (cases "internal_capacity d = 0")
  case True
  with rep_empty_buffer [OF assms(1)] assms(2) show ?thesis
    by (simp add: it_equal_def cd_begin_it_def CheckComparable_def iterator_at_def)
next
  case False
  with assms have "deque_span d (length xs)" using span_rep_iff [of d xs] by blast
  from span_it_equal [OF this assms(2), of 0 on] show ?thesis
    using rep_begin_offset [OF assms(1) False] by (simp add: cd_begin_it_def)
qed

lemma span_ring_rep:
  "deque_span d (length xs) \<Longrightarrow> ring_cells d = map Some xs @ B \<Longrightarrow> set B \<subseteq> {None} \<Longrightarrow> deque_rep d xs"
proof -
  assume span: "deque_span d (length xs)" and ring: "ring_cells d = map Some xs @ B" and B: "set B \<subseteq> {None}"
  have "B = replicate (length B) None" using B by (induction B) auto
  moreover have "length B = internal_capacity d - length xs" using arg_cong [OF ring, of length] by simp
  ultimately show ?thesis using span ring span_rep_iff [of d xs] by metis
qed

lemma MakeRoomFor_ok:
  assumes rep: "deque_rep d xs" and k: "k \<le> length xs" and c: "0 < c"
  obtains d' B where "MakeRoomFor on c (iterator_to d k) d = Some (Inr (iterator_to d' k, iterator_to d' (k + c), d'))"
    "deque_span d' (length xs + c)" "ring_cells d' = map Some (take k xs) @ replicate c None @ map Some (drop k xs) @ B"
    "set B \<subseteq> {None}"
proof -
  obtain d1 where d1: "ExpandCapacityIfNecessary c d = Inr d1" "deque_rep d1 xs" "length xs + c \<le> cd_capacity d1"
    and gen: "cd_generation d1 = cd_generation d" using ExpandCapacityIfNecessary_ok [OF rep] .
  let ?n = "internal_capacity d1"
  have cap: "?n \<noteq> 0" "length xs + c < ?n" using d1(3) c by (auto simp: cd_capacity_def split: if_splits)
  let ?d2 = "d1\<lparr>cd_end := at_offset d1 (length xs + c)\<rparr>"
  have e2: "(cd_end d1 + c) mod ?n = at_offset d1 (length xs + c)"
    using rep_end_offset [OF d1(2) cap(1)] at_offset_add [of d1 "length xs" c] by simp
  have span: "deque_span ?d2 (length xs + c)" using rep_bounds [OF d1(2) cap(1)] cap by (simp add: deque_span_def)
  have "ring_cells d1 = map Some xs @ replicate (?n - length xs) None" using span_rep_iff [of d1 xs] d1(2) cap(1) by blast
  moreover have "replicate (?n - length xs) None = replicate c None @ replicate (?n - length xs - c) (None :: 'a option)"
    using cap by (simp flip: replicate_add)
  ultimately have ring: "ring_cells ?d2 = map Some (take k xs) @ map Some (drop k xs) @ replicate c None @ replicate (?n - length xs - c) None"
    by (simp flip: map_append append_assoc)
  obtain d3 where d3: "run_loop (make_room_body on (iterator_to ?d2 (length (take k xs))))
      (iterator_to ?d2 (length (take k xs) + length (drop k xs)), iterator_to ?d2 (length (take k xs) + length (drop k xs) + c), ?d2) = Some (Inr d3)"
    and "\<exists>b. d3 = ?d2\<lparr>cd_buffer := b\<rparr> \<and> length b = internal_capacity ?d2 \<and>
       rotate (cd_begin ?d2) b = map Some (take k xs) @ replicate c None @ map Some (drop k xs) @ replicate (?n - length xs - c) None"
    by (rule make_room_loop_ok [OF span ring _ c]) (use k in auto)
  then obtain b where b: "d3 = ?d2\<lparr>cd_buffer := b\<rparr>" "length b = ?n"
    "rotate (cd_begin d1) b = map Some (take k xs) @ replicate c None @ map Some (drop k xs) @ replicate (?n - length xs - c) None"
    by auto
  have "(iterator_to d k)\<lparr>it_index := at_offset d1 k\<rparr> = iterator_to d1 k" using gen by (simp add: iterator_at_def)
  with d3 have "MakeRoomFor on c (iterator_to d k) d = Some (Inr (iterator_to d3 k, iterator_to d3 (k + c), d3))"
    using d1(1) e2 k c b rep_OffsetFromBegin [OF rep k] rep_end_offset [OF d1(2) cap(1)] at_offset_add [of d1 k c]
    by (simp add: MakeRoomFor_def Let_def cd_end_it_def iterator_at_def min_absorb2)
  moreover have "deque_span d3 (length xs + c)" using span b(2) by (simp add: b(1) deque_span_def)
  moreover have "ring_cells d3 = map Some (take k xs) @ replicate c None @ map Some (drop k xs) @ replicate (?n - length xs - c) None"
    using b(3) by (simp add: b(1))
  moreover have "set (replicate (?n - length xs - c) None) \<subseteq> {None}" by (simp add: set_replicate_conv_if)
  ultimately show thesis by (rule that)
qed

lemma fill_room:
  assumes "deque_span d (length xs + length ys)" "ring_cells d = map Some (take k xs) @ replicate (length ys) None @ map Some (drop k xs) @ B"
    and "k \<le> length xs" "set B \<subseteq> {None}"
  obtains d' where "run_loop (insert_body on (iterator_to d (k + length ys))) (iterator_to d k, ys, d) = Some (Inr d')"
    "deque_rep d' (take k xs @ ys @ drop k xs)"
proof -
  from insert_loop_ok [OF assms(1,2), of on] assms(3)
  obtain d' b where d': "run_loop (insert_body on (iterator_to d (k + length ys))) (iterator_to d k, ys, d) = Some (Inr d')"
    and b: "d' = d\<lparr>cd_buffer := b\<rparr>" "length b = internal_capacity d"
      "rotate (cd_begin d) b = map Some (take k xs @ ys) @ map Some (drop k xs) @ B"
    by (auto simp: min_absorb2)
  have "deque_rep d' (take k xs @ ys @ drop k xs)"
    by (rule span_ring_rep [OF _ _ assms(4)])
       (use assms(1,3) b in \<open>simp_all add: deque_span_def min_absorb2 add.commute\<close>)
  with d' show thesis by (rule that)
qed

lemma insert_count_ok:
  assumes rep: "deque_rep d xs" and k: "k \<le> length xs"
  obtains d' where "insert_count on (iterator_to d k) c x d = Some (Inr d')"
    "deque_rep d' (take k xs @ replicate c x @ drop k xs)"
proof -
  have valid: "ValidateIterator on d (iterator_to d k) = Inr ()"
    by (simp add: ValidateIterator_def CheckUnstableUsage_def iterator_at_def)
  consider "k = 0" | "k \<noteq> 0" "c = 0" | "k \<noteq> 0" "0 < c" by blast
  then show thesis
  proof cases
    case 1
    obtain d1 where d1: "ExpandCapacityIfNecessary c d = Inr d1" "deque_rep d1 xs" using ExpandCapacityIfNecessary_ok [OF rep] .
    obtain d2 where "push_front_loop on c x d1 = Inr d2" "deque_rep d2 (replicate c x @ xs)"
      using push_front_loop_ok [OF d1(2)] .
    with 1 d1 valid that rep_at_begin [OF rep k, of on] show ?thesis by (simp add: insert_count_def)
  next
    case 2
    then have cap: "deque_span d (length xs)"
      using rep k span_rep_iff [of d xs] rep_empty_buffer [OF rep] by fastforce
    have "run_loop (insert_body on (iterator_to d k)) (iterator_to d k, [], d) = Some (Inr d)"
      using span_it_less [OF cap k k, of on] by (intro run_loop_Break) (simp add: insert_body_def)
    with 2 valid that rep rep_at_begin [OF rep k, of on] show ?thesis by (simp add: insert_count_def MakeRoomFor_def)
  next
    case 3
    obtain d1 B where d1: "MakeRoomFor on c (iterator_to d k) d = Some (Inr (iterator_to d1 k, iterator_to d1 (k + c), d1))"
      "deque_span d1 (length xs + c)" "ring_cells d1 = map Some (take k xs) @ replicate c None @ map Some (drop k xs) @ B"
      "set B \<subseteq> {None}" using MakeRoomFor_ok [OF rep k 3(2)] .
    obtain d2 where "run_loop (insert_body on (iterator_to d1 (k + c))) (iterator_to d1 k, replicate c x, d1) = Some (Inr d2)"
      "deque_rep d2 (take k xs @ replicate c x @ drop k xs)"
      using fill_room [of d1 xs "replicate c x" k B on] d1 k by auto
    with d1(1) 3 valid that rep_at_begin [OF rep k, of on] show ?thesis by (simp add: insert_count_def)
  qed
qed

lemma room_at_begin:
  assumes rep: "deque_rep d xs" and m: "0 < m" "length xs + m \<le> cd_capacity d"
    and d2: "d2 = d\<lparr>cd_begin := (cd_begin d + internal_capacity d - m) mod internal_capacity d\<rparr>"
  obtains B where "cd_begin_it d2 = iterator_to d2 0" "cd_begin_it d = iterator_to d2 m" "deque_span d2 (length xs + m)"
    "ring_cells d2 = map Some (take 0 xs) @ replicate m None @ map Some (drop 0 xs) @ B" "set B \<subseteq> {None}"
proof -
  let ?n = "internal_capacity d" and ?b = "cd_begin d2"
  have cap: "?n \<noteq> 0" "length xs + m < ?n" using m by (auto simp: cd_capacity_def split: if_splits)
  note bd = rep_bounds [OF rep cap(1)]
  have b: "?b = (cd_begin d + (?n - m)) mod ?n" "?b < ?n" using d2 cap by (simp_all add: mod_less_divisor)
  have step: "(?b + (m + i)) mod ?n = (cd_begin d + i) mod ?n" for i
  proof -
    have "(?b + (m + i)) mod ?n = (cd_begin d + (?n - m) + (m + i)) mod ?n" unfolding b(1) by (rule mod_add_left_eq)
    also have "cd_begin d + (?n - m) + (m + i) = cd_begin d + i + ?n" using cap by simp
    finally show ?thesis by simp
  qed
  have fields: "internal_capacity d2 = ?n" "cd_buffer d2 = cd_buffer d" "cd_end d2 = cd_end d" "cd_generation d2 = cd_generation d"
    by (simp_all add: d2)
  have "ring_cells d2 = rotate (?n - m) (ring_cells d)"
    using rotate_conv_mod [of "cd_begin d + (?n - m)" "cd_buffer d"] b(1) by (simp add: fields rotate_rotate add.commute)
  also have "ring_cells d = (map Some xs @ replicate (?n - m - length xs) None) @ replicate m None"
    using span_rep_iff [of d xs] rep cap by (simp flip: replicate_add)
  also have "rotate (?n - m) \<dots> = replicate m None @ map Some xs @ replicate (?n - m - length xs) None"
    using rotate_append [of "map Some xs @ replicate (?n - m - length xs) None" "replicate m None"] cap by simp
  finally have "ring_cells d2 = map Some (take 0 xs) @ replicate m None @ map Some (drop 0 xs) @ replicate (?n - m - length xs) None"
    by simp
  moreover have "deque_span d2 (length xs + m)"
    using b(2) cap step [of "length xs"] rep_end_offset [OF rep cap(1)] by (simp add: deque_span_def fields add.commute)
  moreover have "cd_begin_it d2 = iterator_to d2 0" "cd_begin_it d = iterator_to d2 m"
    using b(2) step [of 0] bd by (simp_all add: cd_begin_it_def iterator_at_def fields)
  ultimately show thesis using that [of "replicate (?n - m - length xs) None"] by (simp add: set_replicate_conv_if)
qed

lemma insert_range_ok:
  assumes rep: "deque_rep d xs" and k: "k \<le> length xs"
  obtains d' where "insert_range on (iterator_to d k) ys d = Some (Inr d')" "deque_rep d' (take k xs @ ys @ drop k xs)"
proof (cases "ys = []")
  case True
  with rep that show thesis
    by (simp add: insert_range_def ValidateIterator_def CheckUnstableUsage_def iterator_at_def)
next
  case ne: False
  then have len: "0 < length ys" by simp
  have valid: "ValidateIterator on d (iterator_to d k) = Inr ()"
    by (simp add: ValidateIterator_def CheckUnstableUsage_def iterator_at_def)
  note at = rep_at_begin [OF rep k, of on]
  show thesis
  proof (cases "k = 0")
    case True
    obtain d1 where d1: "ExpandCapacityIfNecessary (length ys) d = Inr d1" "deque_rep d1 xs" "length xs + length ys \<le> cd_capacity d1"
      using ExpandCapacityIfNecessary_ok [OF rep] .
    define d2 where "d2 = d1\<lparr>cd_begin := (cd_begin d1 + internal_capacity d1 - length ys) mod internal_capacity d1\<rparr>"
    obtain B where B: "cd_begin_it d2 = iterator_to d2 0" "cd_begin_it d1 = iterator_to d2 (length ys)"
      "deque_span d2 (length xs + length ys)"
      "ring_cells d2 = map Some (take 0 xs) @ replicate (length ys) None @ map Some (drop 0 xs) @ B" "set B \<subseteq> {None}"
      using room_at_begin [OF d1(2) len d1(3) d2_def] .
    obtain d3 where "run_loop (insert_body on (iterator_to d2 (length ys))) (iterator_to d2 0, ys, d2) = Some (Inr d3)"
      "deque_rep d3 (ys @ xs)" using fill_room [OF B(3,4) _ B(5), of on] by auto
    with True B(1,2) ne d1(1) valid at that show ?thesis by (simp add: insert_range_def Let_def d2_def)
  next
    case False
    obtain d1 B where d1: "MakeRoomFor on (length ys) (iterator_to d k) d = Some (Inr (iterator_to d1 k, iterator_to d1 (k + length ys), d1))"
      "deque_span d1 (length xs + length ys)" "ring_cells d1 = map Some (take k xs) @ replicate (length ys) None @ map Some (drop k xs) @ B"
      "set B \<subseteq> {None}" using MakeRoomFor_ok [OF rep k len] .
    obtain d2 where "run_loop (insert_body on (iterator_to d1 (k + length ys))) (iterator_to d1 k, ys, d1) = Some (Inr d2)"
      "deque_rep d2 (take k xs @ ys @ drop k xs)" using fill_room [OF d1(2,3) k d1(4)] .
    with False ne d1(1) valid at that show ?thesis by (simp add: insert_range_def)
  qed
qed

lemma rep_begin_it: "deque_rep d xs \<Longrightarrow> cd_begin_it d = iterator_to d 0"
  using rep_begin_offset [of d xs] by (cases "internal_capacity d = 0") (simp_all add: cd_begin_it_def)

lemma emplace_ok:
  assumes rep: "deque_rep d xs" and k: "k \<le> length xs"
  obtains d' where "emplace on (iterator_to d k) x d = Some (Inr (iterator_to d' k, d'))" "deque_rep d' (take k xs @ x # drop k xs)"
proof -
  have valid: "ValidateIterator on d (iterator_to d k) = Inr ()"
    by (simp add: ValidateIterator_def CheckUnstableUsage_def iterator_at_def)
  note at = rep_at_begin [OF rep k, of on]
  show thesis
  proof (cases "k = 0")
    case True
    obtain d1 where "emplace_front on x d = Inr (x, d1)" "deque_rep d1 (x # xs)" using emplace_front_ok [OF rep] .
    with True valid at that show ?thesis by (simp add: emplace_def rep_begin_it)
  next
    case False
    let ?d = "IncrementGeneration d"
    have "deque_rep ?d xs" using rep by simp
    then obtain d1 B where d1: "MakeRoomFor on 1 (iterator_to ?d k) ?d = Some (Inr (iterator_to d1 k, iterator_to d1 (k + 1), d1))"
      "deque_span d1 (length xs + 1)" "ring_cells d1 = map Some (take k xs) @ replicate 1 None @ map Some (drop k xs) @ B"
      "set B \<subseteq> {None}" using MakeRoomFor_ok [of ?d xs k 1] k by auto
    let ?d2 = "d1\<lparr>cd_buffer := (cd_buffer d1)[at_offset d1 k := Some x]\<rparr>"
    have k': "k < internal_capacity d1" using span_bounds [OF d1(2)] k by linarith
    then have less: "at_offset d1 k < internal_capacity d1" by (intro mod_less_divisor) linarith
    have "ring_cells ?d2 = map Some (take k xs @ x # drop k xs) @ B"
      using update_ring [OF d1(2) k'] d1(3) k by (simp add: list_update_append min_absorb2)
    moreover have "deque_span ?d2 (length (take k xs @ x # drop k xs))" using d1(2) k by (simp add: deque_span_def min_absorb2)
    ultimately have "deque_rep ?d2 (take k xs @ x # drop k xs)" using span_ring_rep d1(4) by blast
    moreover have "emplace on (iterator_to d k) x d = Some (Inr (iterator_to ?d2 k, ?d2))"
      using False valid at d1(1) less by (simp add: emplace_def vb_construct_def Let_def) (simp add: iterator_at_def)
    ultimately show ?thesis using that by blast
  qed
qed

section \<open>Erasure\<close>

lemma erase_destructs:
  "f \<noteq> l \<Longrightarrow>
     (if f < l then rbind (vb_DestructRange f l (cd_buffer d)) (\<lambda>b. Inr (d\<lparr>cd_buffer := b\<rparr>))
      else rbind (vb_DestructRange f (internal_capacity d) (cd_buffer d)) (\<lambda>b.
           rbind (vb_DestructRange 0 l b) (\<lambda>b'. Inr (d\<lparr>cd_buffer := b'\<rparr>)))) = DestructRange f l d"
  by (simp add: DestructRange_def)

lemma destructed_ring:
  assumes rep: "deque_rep d xs" and cap: "internal_capacity d \<noteq> 0" and ij: "i < j" "j \<le> length xs"
  obtains b B where "DestructRange (at_offset d i) (at_offset d j) d = Inr (d\<lparr>cd_buffer := b\<rparr>)" "length b = internal_capacity d"
    "rotate (cd_begin d) b = map Some (take i xs) @ replicate (j - i) None @ map Some (drop j xs) @ B" "set B \<subseteq> {None}"
    "\<forall>k < internal_capacity d. b ! at_offset d k = (if i \<le> k \<and> k < j then None else if k < length xs then Some (xs ! k) else None)"
proof -
  obtain b where b: "DestructRange (at_offset d i) (at_offset d j) d = Inr (d\<lparr>cd_buffer := b\<rparr>)" "length b = internal_capacity d"
    "\<And>k. k < internal_capacity d \<Longrightarrow> b ! at_offset d k = (if i \<le> k \<and> k < j then None else if k < length xs then Some (xs ! k) else None)"
    using DestructRange_ok [OF rep cap, of i j] ij by auto
  let ?B = "replicate (internal_capacity d - length xs) None"
  let ?r = "map Some (take i xs) @ replicate (j - i) None @ map Some (drop j xs) @ ?B"
  have "rotate (cd_begin d) b = ?r"
  proof (rule nth_equalityI)
    show "length (rotate (cd_begin d) b) = length ?r" using b(2) ij rep_bounds [OF rep cap] by simp
    fix k
    assume "k < length (rotate (cd_begin d) b)"
    then have k: "k < internal_capacity d" using b(2) by simp
    then have "rotate (cd_begin d) b ! k = b ! at_offset d k" using b(2) by (simp add: nth_rotate)
    with b(3) [OF k] k ij show "rotate (cd_begin d) b ! k = ?r ! k" by (auto simp: nth_append)
  qed
  with b show thesis using that [of b ?B] by (simp add: set_replicate_conv_if)
qed

lemma erase_range_ok:
  assumes rep: "deque_rep d xs" and ij: "i \<le> j" "j \<le> length xs"
  obtains d' where "erase_range on (iterator_to d i) (iterator_to d j) d = Some (Inr (iterator_to d' i, d'))"
    "deque_rep d' (take i xs @ drop j xs)"
proof -
  let ?d = "IncrementGeneration d"
  have valid: "ValidateIterator on d (iterator_to d k) = Inr ()" for k
    by (simp add: ValidateIterator_def CheckUnstableUsage_def iterator_at_def)
  show thesis
  proof (cases "i = j")
    case True
    with that [of ?d] valid rep show ?thesis by (simp add: erase_range_def Let_def)
  next
    case False
    then have lt: "i < j" using ij by simp
    then have cap: "internal_capacity d \<noteq> 0" using rep_has_buffer [OF rep, of i] ij by simp
    have rep1: "deque_rep ?d xs" and cap1: "internal_capacity ?d \<noteq> 0" using rep cap by simp_all
    have less: "i < internal_capacity d" "j < internal_capacity d" using rep_bounds [OF rep cap] ij by auto
    have ne: "at_offset d i \<noteq> at_offset d j" using at_offset_inj [OF rep cap less] False by simp
    obtain b B where b: "DestructRange (at_offset ?d i) (at_offset ?d j) ?d = Inr (?d\<lparr>cd_buffer := b\<rparr>)" "length b = internal_capacity ?d"
      "rotate (cd_begin ?d) b = map Some (take i xs) @ replicate (j - i) None @ map Some (drop j xs) @ B" "set B \<subseteq> {None}"
      "\<forall>k < internal_capacity ?d. b ! at_offset ?d k = (if i \<le> k \<and> k < j then None else if k < length xs then Some (xs ! k) else None)"
      using destructed_ring [OF rep1 cap1 lt ij(2)] .
    define d2 where "d2 = ?d\<lparr>cd_buffer := b\<rparr>"
    have d2: "cd_begin d2 = cd_begin d" "internal_capacity d2 = internal_capacity d" "cd_end d2 = cd_end d"
      using b(2) by (simp_all add: d2_def)
    have run: "erase_range on (iterator_to d i) (iterator_to d j) d =
        (if at_offset d i = cd_begin d2
         then Some (Inr (iterator_at d2 (at_offset d j), d2\<lparr>cd_begin := at_offset d j\<rparr>))
         else obind (run_loop (erase_body on (cd_end_it d2)) (iterator_at d2 (at_offset d j), iterator_at d2 (at_offset d i), d2))
                (\<lambda>(move_dest, d3). Some (Inr (iterator_at d3 (at_offset d i), d3\<lparr>cd_end := it_index move_dest\<rparr>))))"
      using valid ne b(1) erase_destructs [OF ne, of ?d] by (simp add: erase_range_def Let_def d2_def)
    show ?thesis
    proof (cases "i = 0")
      case True
      have "deque_rep (?d\<lparr>cd_buffer := b, cd_begin := at_offset ?d j\<rparr>) (drop j xs)"
        by (rule rep_drop [OF rep1 cap1 ij(2)]) (use b True in auto)
      moreover have "at_offset d j < internal_capacity d" by (rule at_offset_less [OF rep cap])
      ultimately show ?thesis
        using that [of "d2\<lparr>cd_begin := at_offset d j\<rparr>"] run True rep_begin_offset [OF rep cap] d2
        by (simp add: d2_def) (simp add: iterator_at_def)
    next
      case False
      then have "at_offset d i \<noteq> cd_begin d2"
        using at_offset_inj [OF rep cap, of i 0] less cap rep_begin_offset [OF rep cap] d2(1) by simp
      note run' = run [unfolded if_not_P [OF this]]
      let ?A = "map Some (take i xs)" and ?ys = "drop j xs"
      have A: "length ?A = i" "i + (j - i) = j" using ij by simp_all
      have "deque_span d2 (length ?A + (j - i) + length ?ys)"
        using rep_bounds [OF rep cap] rep_end_offset [OF rep cap] ij unfolding deque_span_def d2 by (simp add: min_absorb2)
      moreover have "ring_cells d2 = ?A @ replicate (j - i) None @ map Some ?ys @ B" using b(3) by (simp add: d2_def)
      ultimately obtain d3 b3 where d3: "run_loop (erase_body on (cd_end_it d2)) (iterator_to d2 j, iterator_to d2 i, d2) =
          Some (Inr (iterator_to d2 (i + length ?ys), d3))"
        "d3 = d2\<lparr>cd_buffer := b3\<rparr>" "length b3 = internal_capacity d2"
        "rotate (cd_begin d2) b3 = ?A @ map Some ?ys @ replicate (j - i) None @ B"
        using erase_loop_ok [of d2 ?A "j - i" ?ys B on] lt A by auto
      let ?d4 = "d3\<lparr>cd_end := at_offset d2 (i + length ?ys)\<rparr>"
      have "deque_span ?d4 (length (take i xs @ ?ys))"
        using rep_bounds [OF rep cap] ij d3(2,3) d2 by (simp add: deque_span_def min_absorb2) linarith
      moreover have "ring_cells ?d4 = map Some (take i xs @ ?ys) @ (replicate (j - i) None @ B)" using d3(2,4) by simp
      moreover have "set (replicate (j - i) None @ B) \<subseteq> {None}" using b(4) by (auto simp: set_replicate_conv_if)
      ultimately have "deque_rep ?d4 (take i xs @ ?ys)" by (rule span_ring_rep)
      moreover have "erase_range on (iterator_to d i) (iterator_to d j) d = Some (Inr (iterator_to ?d4 i, ?d4))"
        using run' d3 d2 by simp (simp add: iterator_at_def)
      ultimately show ?thesis using that by blast
    qed
  qed
qed

lemma it_Add_ok:
  assumes rep: "deque_rep d xs" and k: "k \<le> length xs" "0 \<le> int k + delta" "int k + delta \<le> int (length xs)"
    and small: "2 * internal_capacity d \<le> size_mod"
  shows "it_Add on d delta (iterator_to d k) = Inr (iterator_to d (nat (int k + delta)))"
proof (cases "delta = 0")
  case True
  moreover have "CheckValidIndexOrEnd d (at_offset d k)"
    using k(1) rep_empty_buffer [OF rep] valid_offset_or_end [OF rep _ k(1)] by (cases "internal_capacity d = 0") (auto simp: CheckValidIndexOrEnd_def)
  ultimately show ?thesis by (simp add: it_Add_def CheckUnstableUsage_def iterator_at_def)
next
  case False
  then have cap: "internal_capacity d \<noteq> 0" using k rep_empty_buffer [OF rep] by auto
  have dc: "if delta \<le> 0 then CheckValidIndexOrEnd d (at_offset d k) else CheckValidIndex d (at_offset d k)"
    using k valid_offset [OF rep, of k] valid_offset_or_end [OF rep cap k(1)] by auto
  obtain m where m: "int k + delta = int m" using k(2) nonneg_int_cases by blast
  have "m + cd_begin d < size_mod" using rep_bounds [OF rep cap] k(3) small m by linarith
  then have "to_size_t (int m + int (cd_begin d)) = cd_begin d + m"
    by (simp add: to_size_t_def nat_mod_distrib nat_add_distrib add.commute)
  then show ?thesis
    using False cap dc k(3) rep_OffsetFromBegin [OF rep k(1)] rep_size [OF rep] m
    by (simp add: it_Add_def CheckUnstableUsage_def Let_def) (simp add: iterator_at_def)
qed

lemma erase_one_ok:
  assumes rep: "deque_rep d xs" and k: "k < length xs" and small: "2 * internal_capacity d \<le> size_mod"
  obtains d' where "erase_one on (iterator_to d k) d = Some (Inr (iterator_to d' k, d'))" "deque_rep d' (take k xs @ drop (Suc k) xs)"
proof -
  have "it_Add on d 1 (iterator_to d k) = Inr (iterator_to d (Suc k))"
    using it_Add_ok [OF rep, of k 1 on] k small by (simp add: nat_add_distrib)
  moreover obtain d' where "erase_range on (iterator_to d k) (iterator_to d (Suc k)) d = Some (Inr (iterator_to d' k, d'))"
    "deque_rep d' (take k xs @ drop (Suc k) xs)" using erase_range_ok [OF rep, of k "Suc k" on] k by auto
  ultimately show thesis using that by (simp add: erase_one_def)
qed

end
