(* ===== verification/Deque_Refinement.thy ===== *)
theory Deque_Refinement
  imports Deque_Edit
begin

text \<open>
  \<open>base::circular_deque\<close> as an abstract data type: a contract for containers that stand for a
  list, met by the deque for its whole public interface, and the properties that rest on it. A
  client's program is a list of operations; where each is used within its documented preconditions
  the ring buffer and the list agree after every one of them.
\<close>

section \<open>The interface of the deque\<close>

datatype 'a deque_op =
    PushFront 'a | PushBack 'a | PopFront | PopBack
  | Clear | Reserve nat | ShrinkToFit | Resize nat 'a
  | AssignCount nat 'a | AssignRange "'a list" | AssignInit "'a list"
  | InsertCount nat nat 'a | InsertRange nat "'a list" | Emplace nat 'a | EraseRange nat nat

fun deque_step :: "bool \<Rightarrow> 'a deque_op \<Rightarrow> 'a circular_deque \<Rightarrow> 'a circular_deque result option" where
  "deque_step on (PushFront x) d = Some (push_front on x d)"
| "deque_step on (PushBack x) d = Some (push_back on x d)"
| "deque_step on PopFront d = Some (pop_front on d)"
| "deque_step on PopBack d = Some (pop_back on d)"
| "deque_step on Clear d = Some (cd_clear d)"
| "deque_step on (Reserve n) d = Some (reserve n d)"
| "deque_step on ShrinkToFit d = Some (shrink_to_fit d)"
| "deque_step on (Resize n x) d = Some (resize on n x d)"
| "deque_step on (AssignCount n x) d = Some (assign_count on n x d)"
| "deque_step on (AssignRange xs) d = Some (assign_range on xs d)"
| "deque_step on (AssignInit xs) d = Some (assign_init on xs d)"
| "deque_step on (InsertCount k n x) d = insert_count on (iterator_to d k) n x d"
| "deque_step on (InsertRange k xs) d = insert_range on (iterator_to d k) xs d"
| "deque_step on (Emplace k x) d = obind (emplace on (iterator_to d k) x d) (\<lambda>(it, d'). Some (Inr d'))"
| "deque_step on (EraseRange i j) d = obind (erase_range on (iterator_to d i) (iterator_to d j) d) (\<lambda>(it, d'). Some (Inr d'))"

fun list_step :: "'a deque_op \<Rightarrow> 'a list \<Rightarrow> 'a list option" where
  "list_step (PushFront x) l = Some (x # l)"
| "list_step (PushBack x) l = Some (l @ [x])"
| "list_step PopFront l = (if l = [] then None else Some (tl l))"
| "list_step PopBack l = (if l = [] then None else Some (butlast l))"
| "list_step Clear l = Some []"
| "list_step (Reserve n) l = Some l"
| "list_step ShrinkToFit l = Some l"
| "list_step (Resize n x) l = Some (take n l @ replicate (n - length l) x)"
| "list_step (AssignCount n x) l = Some (replicate n x)"
| "list_step (AssignRange xs) l = Some xs"
| "list_step (AssignInit xs) l = Some xs"
| "list_step (InsertCount k n x) l = (if k \<le> length l then Some (take k l @ replicate n x @ drop k l) else None)"
| "list_step (InsertRange k xs) l = (if k \<le> length l then Some (take k l @ xs @ drop k l) else None)"
| "list_step (Emplace k x) l = (if k \<le> length l then Some (take k l @ x # drop k l) else None)"
| "list_step (EraseRange i j) l = (if i \<le> j \<and> j \<le> length l then Some (take i l @ drop j l) else None)"

lemma assign_init_ok:
  assumes "deque_rep d xs"
  obtains d' where "assign_init on ys d = Inr d'" "deque_rep d' ys"
proof -
  obtain d1 where d1: "reserve (length ys) d = Inr d1" "deque_rep d1 xs" using reserve_ok [OF assms] .
  obtain d2 where "assign_range on ys d1 = Inr d2" "deque_rep d2 ys" using assign_range_ok [OF d1(2)] .
  with d1(1) that show thesis by (simp add: assign_init_def)
qed

lemma deque_step_refines:
  assumes "deque_rep d l" "list_step c l = Some l'"
  shows "\<exists>d'. deque_step on c d = Some (Inr d') \<and> deque_rep d' l'"
proof (cases c)
  case (PushFront x) then show ?thesis using assms push_front_ok [OF assms(1), of on x] by auto
next
  case (PushBack x) then show ?thesis using assms push_back_ok [OF assms(1), of on x] by auto
next
  case PopFront then show ?thesis using assms pop_front_ok [OF assms(1), of on] by (auto split: if_splits)
next
  case PopBack then show ?thesis using assms pop_back_ok [OF assms(1), of on] by (auto split: if_splits)
next
  case Clear then show ?thesis using assms cd_clear_ok [OF assms(1)] by auto
next
  case (Reserve n) then show ?thesis using assms reserve_ok [OF assms(1), of n] by auto
next
  case ShrinkToFit then show ?thesis using assms shrink_to_fit_ok [OF assms(1)] by auto
next
  case (Resize n x) then show ?thesis using assms resize_ok [OF assms(1), of on n x] by auto
next
  case (AssignCount n x) then show ?thesis using assms assign_count_ok [OF assms(1), of on n x] by auto
next
  case (AssignRange xs) then show ?thesis using assms assign_range_ok [OF assms(1), of on xs] by auto
next
  case (AssignInit xs) then show ?thesis using assms assign_init_ok [OF assms(1), of on xs] by auto
next
  case (InsertCount k n x) then show ?thesis using assms insert_count_ok [OF assms(1), of k on n x] by (auto split: if_splits)
next
  case (InsertRange k xs) then show ?thesis using assms insert_range_ok [OF assms(1), of k on xs] by (auto split: if_splits)
next
  case (Emplace k x)
  with assms(2) have k: "k \<le> length l" and l': "l' = take k l @ x # drop k l" by (simp_all split: if_splits)
  obtain d' where "emplace on (iterator_to d k) x d = Some (Inr (iterator_to d' k, d'))" "deque_rep d' l'"
    unfolding l' using emplace_ok [OF assms(1) k] .
  with Emplace show ?thesis by simp
next
  case (EraseRange i j)
  with assms(2) have ij: "i \<le> j" "j \<le> length l" and l': "l' = take i l @ drop j l" by (simp_all split: if_splits)
  obtain d' where "erase_range on (iterator_to d i) (iterator_to d j) d = Some (Inr (iterator_to d' i, d'))" "deque_rep d' l'"
    unfolding l' using erase_range_ok [OF assms(1) ij] .
  with EraseRange show ?thesis by simp
qed

interpretation deque: refined_container deque_rep "deque_step on" list_step for on
  by unfold_locales (rule deque_step_refines)

section \<open>Properties\<close>



text \<open>An iterator at offset \<open>k\<close> dereferences to element \<open>k\<close>; moving it, subtracting and comparing iterators are
    arithmetic on offsets, across the end of the buffer too, provided twice the buffer fits in \<open>size_t\<close>.\<close>
theorem deque_iterators_exact:
  assumes "deque_rep d xs" "j \<le> length xs" "k \<le> length xs" "2 * internal_capacity d \<le> size_mod"
  shows "cd_begin_it d = iterator_to d 0 \<and> (internal_capacity d \<noteq> 0 \<longrightarrow> cd_end_it d = iterator_to d (length xs)) \<and>
    it_minus on d (iterator_to d j) (iterator_to d k) = Inr (int j - int k) \<and>
    it_less on d (iterator_to d j) (iterator_to d k) = Inr (j < k) \<and>
    it_equal on (iterator_to d j) (iterator_to d k) = Inr (j = k) \<and>
    it_Add on d (int j - int k) (iterator_to d k) = Inr (iterator_to d j) \<and>
    (k < length xs \<longrightarrow> it_deref on d (iterator_to d k) = Inr (xs ! k) \<and>
       Increment on d (iterator_to d k) = Inr (iterator_to d (Suc k)) \<and>
       Decrement on d (iterator_to d (Suc k)) = Inr (iterator_to d k))"
proof -
  note off = rep_OffsetFromBegin [OF assms(1,2)] rep_OffsetFromBegin [OF assms(1,3)]
  have span: "deque_span d (length xs)" if "internal_capacity d \<noteq> 0"
    using span_rep_iff [of d xs] assms(1) that by blast
  have eq: "it_equal on (iterator_to d j) (iterator_to d k) = Inr (j = k)"
  proof (cases "internal_capacity d = 0")
    case True
    with rep_empty_buffer [OF assms(1)] assms(2,3) show ?thesis by (simp add: it_equal_def CheckComparable_def)
  qed (use span_it_equal [OF span] assms in auto)
  have inner: "it_deref on d (iterator_to d k) = Inr (xs ! k) \<and> Increment on d (iterator_to d k) = Inr (iterator_to d (Suc k)) \<and>
      Decrement on d (iterator_to d (Suc k)) = Inr (iterator_to d k)" if "k < length xs"
  proof -
    note s = span [OF rep_has_buffer [OF assms(1) that]]
    show ?thesis
      using span_Increment [OF s that] span_Decrement [OF s that] valid_offset [OF assms(1) that] read_offset [OF assms(1) that]
      by (simp add: it_deref_def CheckUnstableUsage_def) (simp add: iterator_at_def)
  qed
  have last_it: "internal_capacity d \<noteq> 0 \<longrightarrow> cd_end_it d = iterator_to d (length xs)"
    using rep_end_offset [OF assms(1)] by (simp add: cd_end_it_def)
  have less: "it_less on d (iterator_to d j) (iterator_to d k) = Inr (j < k)"
    and minus: "it_minus on d (iterator_to d j) (iterator_to d k) = Inr (int j - int k)"
    using off by (simp_all add: it_less_def it_minus_def CheckComparable_def) (simp_all add: iterator_at_def)
  have add: "it_Add on d (int j - int k) (iterator_to d k) = Inr (iterator_to d j)"
    using it_Add_ok [OF assms(1,3), of "int j - int k" on] assms(2,4) by simp
  from rep_begin_it [OF assms(1)] last_it minus less eq add inner show ?thesis by blast
qed

abbreviation wrapped_deque :: "int circular_deque" where
  "wrapped_deque \<equiv> \<lparr>cd_buffer = [Some 5, None, Some 3, Some 4], cd_begin = 2, cd_end = 1, cd_generation = 9\<rparr>"

lemma wrapped_deque_rep: "deque_rep wrapped_deque [3, 4, 5]"
  by (simp add: deque_rep_def rotate_def numeral_2_eq_2)

theorem deque_iterators_exact_witness:
  "it_deref True wrapped_deque \<lparr>it_index = 0, it_generation = 9\<rparr> = Inr 5 \<and>
   it_minus True wrapped_deque \<lparr>it_index = 3, it_generation = 9\<rparr> \<lparr>it_index = 0, it_generation = 9\<rparr> = Inr (- 1)"
proof -
  have "(2 :: nat) * length (cd_buffer wrapped_deque) \<le> size_mod" by (simp add: size_mod_def)
  from deque_iterators_exact [OF wrapped_deque_rep, of 1 2 True, OF _ _ this] show ?thesis
    by (simp add: iterator_at_def)
qed

text \<open>With checks on, indexing past the end, popping or reading an end of an empty deque, and
    dereferencing \<open>end()\<close> all stop at a \<open>DCHECK\<close>; with checks off, popping or reading the front of an empty
    deque touches a cell that holds no object.\<close>
theorem deque_misuse_detected:
  assumes "deque_rep d xs" "length xs \<le> i"
  shows "cd_at True d i = Inl (CheckFailed ''DCHECK'') \<and>
    it_deref True d (cd_end_it d) = Inl (CheckFailed ''DCHECK'') \<and>
    (xs = [] \<longrightarrow> pop_front True d = Inl (CheckFailed ''DCHECK'') \<and> pop_back True d = Inl (CheckFailed ''DCHECK'') \<and>
       cd_front True d = Inl (CheckFailed ''DCHECK'') \<and> cd_back True d = Inl (CheckFailed ''DCHECK'') \<and>
       raises_only {Uninitialised, OutOfBounds} (pop_front False d) \<and> \<not> is_ok (pop_front False d) \<and>
       raises_only {Uninitialised, OutOfBounds} (cd_front False d) \<and> \<not> is_ok (cd_front False d))"
proof -
  have fail: "rtc_dcheck True False = Inl (CheckFailed ''DCHECK'')" by (simp add: rtc_dcheck_def)
  have "\<not> CheckValidIndex d (cd_end d)"
    using rep_bounds [OF assms(1)] rep_empty_buffer [OF assms(1)]
    by (cases "internal_capacity d = 0") (auto simp: CheckValidIndex_def split: if_splits)
  then have deref: "it_deref True d (cd_end_it d) = Inl (CheckFailed ''DCHECK'')"
    by (simp add: it_deref_def CheckUnstableUsage_def cd_end_it_def fail) (simp add: iterator_at_def)
  have raw: "internal_capacity d \<le> cd_begin d \<or> cd_begin d < internal_capacity d \<and> cd_buffer d ! cd_begin d = None" if "xs = []"
    using rep_cell_at [OF assms(1), of "cd_begin d"] that by (cases "cd_begin d < internal_capacity d") auto
  have read: "vb_read (cd_buffer d) (cd_begin d) \<in> {Inl Uninitialised, Inl OutOfBounds}" if "xs = []"
    using raw [OF that] by (auto simp: vb_read_def)
  have destroy: "vb_DestructRange (cd_begin d) (cd_begin d + 1) (cd_buffer d) \<in> {Inl Uninitialised, Inl OutOfBounds}" if "xs = []"
    using raw [OF that] by (auto simp: vb_DestructRange_def take_Suc hd_drop_conv_nth)
  have "pop_front False d \<in> {Inl Uninitialised, Inl OutOfBounds}" "cd_front False d \<in> {Inl Uninitialised, Inl OutOfBounds}" if "xs = []"
    using read [OF that] destroy [OF that] by (auto simp: pop_front_def cd_front_def)
  then have "xs = [] \<longrightarrow> raises_only {Uninitialised, OutOfBounds} (pop_front False d) \<and> \<not> is_ok (pop_front False d) \<and>
      raises_only {Uninitialised, OutOfBounds} (cd_front False d) \<and> \<not> is_ok (cd_front False d)"
    by (auto simp: is_ok_iff)
  then show ?thesis
    using deref assms(2) rep_size [OF assms(1)] rep_empty [OF assms(1)]
    by (simp add: cd_at_def pop_front_def pop_back_def cd_front_def cd_back_def fail)
qed

theorem deque_misuse_detected_witness:
  "cd_at True wrapped_deque 3 = Inl (CheckFailed ''DCHECK'') \<and>
   pop_front True (circular_deque_default :: int circular_deque) = Inl (CheckFailed ''DCHECK'')"
  using deque_misuse_detected [OF wrapped_deque_rep, of 3]
    deque_misuse_detected [OF rep_default [where ?'a = int], of 0] by simp

lemma SetCapacityTo_generation: "SetCapacityTo n d = Inr d' \<Longrightarrow> cd_generation d' = cd_generation d"
  by (auto simp: SetCapacityTo_def rbind_eq_Inr)

lemma Expand_generation: "ExpandCapacityIfNecessary n d = Inr d' \<Longrightarrow> cd_generation d' = cd_generation d"
  using SetCapacityTo_generation by (auto simp: ExpandCapacityIfNecessary_def split: if_splits)

lemma Shrink_generation: "ShrinkCapacityIfNecessary d = Inr d' \<Longrightarrow> cd_generation d' = cd_generation d"
  using SetCapacityTo_generation by (auto simp: ShrinkCapacityIfNecessary_def Let_def split: if_splits)

lemma next_generation: "(g + 1) mod 2 ^ 64 \<noteq> g" for g :: nat
proof
  assume "(g + 1) mod 2 ^ 64 = g"
  then have "g < 2 ^ 64" by (metis mod_less_divisor zero_less_numeral zero_less_power)
  with \<open>(g + 1) mod 2 ^ 64 = g\<close> show False by (cases "g + 1 = 2 ^ 64") auto
qed

lemma push_back_generation: "push_back on x d = Inr d' \<Longrightarrow> cd_generation d' = (cd_generation d + 1) mod 2 ^ 64"
  by (auto simp: push_back_def emplace_back_def rbind_eq_Inr Let_def vb_construct_def IncrementGeneration_def
      dest!: Expand_generation split: if_splits)

lemma pop_front_generation: "pop_front on d = Inr d' \<Longrightarrow> cd_generation d' = (cd_generation d + 1) mod 2 ^ 64"
  by (auto simp: pop_front_def rbind_eq_Inr IncrementGeneration_def dest!: Shrink_generation)

text \<open>A debug build notices an iterator that is used after \<open>push_back\<close> or \<open>pop_front\<close>. It does not after
    \<open>reserve\<close>, although the elements may have moved: the generation is kept, the iterator passes the
    check, and unless \<open>begin_\<close> was 0 its index no longer belongs to its element.\<close>
theorem deque_invalidation:
  assumes "deque_rep d xs" "k < length xs" "cd_capacity d < n"
  shows "(\<forall>d'. push_back True x d = Inr d' \<longrightarrow> it_deref True d' (iterator_to d k) = Inl (CheckFailed ''DCHECK'')) \<and>
    (\<forall>d'. pop_front True d = Inr d' \<longrightarrow> it_deref True d' (iterator_to d k) = Inl (CheckFailed ''DCHECK'')) \<and>
    (\<exists>d'. reserve n d = Inr d' \<and> deque_rep d' xs \<and> CheckUnstableUsage True d' (iterator_to d k) = Inr () \<and>
       (at_offset d k = at_offset d' k \<longleftrightarrow> cd_begin d = 0))"
proof -
  have stale: "it_deref True d' (iterator_to d k) = Inl (CheckFailed ''DCHECK'')"
    if "cd_generation d' = (cd_generation d + 1) mod 2 ^ 64" for d' :: "'a circular_deque"
    using next_generation [of "cd_generation d"] that
    by (simp add: it_deref_def CheckUnstableUsage_def iterator_at_def rtc_dcheck_def rguard_def)
  have n: "length xs \<le> n" using rep_capacity [OF assms(1)] assms(3) by linarith
  note cap = rep_has_buffer [OF assms(1,2)]
  let ?d = "d\<lparr>cd_buffer := packed n xs, cd_begin := 0, cd_end := length xs\<rparr>"
  have "reserve n d = Inr ?d" "deque_rep ?d xs"
    using assms SetCapacityTo_eq [OF assms(1) n] rep_packed [OF n] by (simp_all add: reserve_def)
  moreover have "at_offset ?d k = k" using assms(2) n by simp
  moreover have "at_offset d k = k \<longleftrightarrow> cd_begin d = 0"
    using at_offset_if [OF assms(1) cap, of k] rep_bounds [OF assms(1) cap] assms(2) by auto
  moreover have "CheckUnstableUsage True ?d (iterator_to d k) = Inr ()" by (simp add: CheckUnstableUsage_def iterator_at_def)
  ultimately have "\<exists>d'. reserve n d = Inr d' \<and> deque_rep d' xs \<and> CheckUnstableUsage True d' (iterator_to d k) = Inr () \<and>
      (at_offset d k = at_offset d' k \<longleftrightarrow> cd_begin d = 0)" by (intro exI [of _ ?d]) simp
  moreover have "\<forall>d'. push_back True x d = Inr d' \<longrightarrow> it_deref True d' (iterator_to d k) = Inl (CheckFailed ''DCHECK'')"
    "\<forall>d'. pop_front True d = Inr d' \<longrightarrow> it_deref True d' (iterator_to d k) = Inl (CheckFailed ''DCHECK'')"
    by (intro allI impI stale, erule push_back_generation, intro allI impI stale, erule pop_front_generation)
  ultimately show ?thesis by blast
qed

theorem deque_invalidation_witness:
  "\<exists>d'. reserve 9 wrapped_deque = Inr d' \<and> deque_rep d' [3, 4, 5] \<and>
     CheckUnstableUsage True d' (iterator_to wrapped_deque 1) = Inr () \<and> at_offset wrapped_deque 1 \<noteq> at_offset d' 1"
proof -
  have "(1 :: nat) < length [3, 4, 5 :: int]" "cd_capacity wrapped_deque < 9" by (simp_all add: cd_capacity_def)
  from deque_invalidation [OF wrapped_deque_rep this, THEN conjunct2, THEN conjunct2]
  obtain d' where "reserve 9 wrapped_deque = Inr d'" "deque_rep d' [3, 4, 5]"
    "CheckUnstableUsage True d' (iterator_to wrapped_deque 1) = Inr ()"
    "at_offset wrapped_deque 1 = at_offset d' 1 \<longleftrightarrow> cd_begin wrapped_deque = 0" by (elim exE conjE)
  then show ?thesis by (intro exI [of _ d']) simp
qed

lemma Shrink_bound:
  assumes "deque_rep d xs"
  obtains d' where "ShrinkCapacityIfNecessary d = Inr d'" "deque_rep d' xs"
    "length xs \<le> cd_capacity d'" "cd_capacity d' \<le> max kCircularBufferInitialCapacity (2 * length xs)"
proof -
  let ?m = "max kCircularBufferInitialCapacity (length xs + length xs div 4)"
  obtain d1 where d1: "SetCapacityTo ?m d = Inr d1" "deque_rep d1 xs" "cd_capacity d1 = ?m"
    using SetCapacityTo_ok [OF assms, of ?m] by (auto simp: le_max_iff_disj)
  have le: "?m \<le> max kCircularBufferInitialCapacity (2 * length xs)" by linarith
  show thesis
  proof (cases "ShrinkCapacityIfNecessary d = Inr d")
    case True
    show ?thesis
    proof (rule that [OF True assms rep_capacity [OF assms]])
      show "cd_capacity d \<le> max kCircularBufferInitialCapacity (2 * length xs)"
      proof (rule ccontr)
        assume big: "\<not> ?thesis"
        with le have "?m < cd_capacity d" "cd_capacity d > kCircularBufferInitialCapacity" "\<not> cd_capacity d - length xs < length xs"
          by linarith+
        then have "ShrinkCapacityIfNecessary d = Inr d1"
          using d1(1) by (simp add: ShrinkCapacityIfNecessary_def rep_size [OF assms] Let_def)
        with True d1(3) \<open>?m < cd_capacity d\<close> show False by auto
      qed
    qed
  next
    case False
    then have "ShrinkCapacityIfNecessary d = Inr d1"
      using d1(1) by (auto simp: ShrinkCapacityIfNecessary_def rep_size [OF assms] Let_def split: if_splits)
    from that [OF this d1(2) rep_capacity [OF d1(2)]] d1(3) le show ?thesis by simp
  qed
qed

lemma capacity_IncrementGeneration [simp]: "cd_capacity (IncrementGeneration d) = cd_capacity d"
  by (simp add: cd_capacity_def)

text \<open>Popping keeps the memory proportional to the contents: the capacity afterwards is at most 3 or
    twice the number of elements, and it always holds them. Pushing into a full deque leaves a
    capacity of at least 3 and a quarter more than before, so pushes reallocate only
    logarithmically often; pushing into one that is not full does not reallocate.\<close>
theorem deque_capacity_policy:
  assumes "deque_rep d xs"
  shows "(xs \<noteq> [] \<longrightarrow> (\<exists>d'. pop_front on d = Inr d' \<and> deque_rep d' (tl xs) \<and>
       cd_capacity d' \<le> max kCircularBufferInitialCapacity (2 * length (tl xs)))) \<and>
    (\<exists>d'. push_back on x d = Inr d' \<and> deque_rep d' (xs @ [x]) \<and>
       (if length xs < cd_capacity d then cd_capacity d' = cd_capacity d
        else cd_capacity d' \<ge> max kCircularBufferInitialCapacity (cd_capacity d + cd_capacity d div 4)))"
proof -
  have "\<exists>d'. pop_front on d = Inr d' \<and> deque_rep d' (tl xs) \<and>
      cd_capacity d' \<le> max kCircularBufferInitialCapacity (2 * length (tl xs))" if ne: "xs \<noteq> []"
  proof -
    let ?d = "d\<lparr>cd_buffer := (cd_buffer d)[cd_begin d := None], cd_begin := at_offset d 1\<rparr>"
    have run: "pop_front on d = rbind (ShrinkCapacityIfNecessary ?d) (\<lambda>d1. Inr (IncrementGeneration d1))" and rep: "deque_rep ?d (tl xs)"
      using pop_front_run [OF assms ne] by auto
    obtain d1 where "ShrinkCapacityIfNecessary ?d = Inr d1" "deque_rep d1 (tl xs)"
      "cd_capacity d1 \<le> max kCircularBufferInitialCapacity (2 * length (tl xs))" using Shrink_bound [OF rep] .
    with run show ?thesis by (intro exI [of _ "IncrementGeneration d1"]) simp
  qed
  moreover obtain d' where push: "push_back on x d = Inr d'" and rep': "deque_rep d' (xs @ [x])" using push_back_ok [OF assms] .
  then obtain d1 where d1: "ExpandCapacityIfNecessary 1 d = Inr d1" and cap: "cd_capacity d' = cd_capacity d1"
    by (auto simp: push_back_def emplace_back_def rbind_eq_Inr Let_def vb_construct_def cd_capacity_def split: if_splits)
  let ?m = "max (max (length xs + 1) kCircularBufferInitialCapacity) (cd_capacity d + cd_capacity d div 4)"
  have "if length xs < cd_capacity d then cd_capacity d1 = cd_capacity d
      else cd_capacity d1 \<ge> max kCircularBufferInitialCapacity (cd_capacity d + cd_capacity d div 4)"
  proof (cases "length xs < cd_capacity d")
    case True
    with d1 show ?thesis by (simp add: ExpandCapacityIfNecessary_def rep_size [OF assms])
  next
    case False
    then have "SetCapacityTo ?m d = Inr d1" using d1 by (simp add: ExpandCapacityIfNecessary_def rep_size [OF assms])
    moreover obtain d2 where "SetCapacityTo ?m d = Inr d2" "cd_capacity d2 = ?m"
      using SetCapacityTo_ok [OF assms, of ?m] by (auto simp: le_max_iff_disj)
    ultimately have "cd_capacity d1 = ?m" by simp
    with False show ?thesis by simp
  qed
  ultimately show ?thesis using push rep' cap by auto
qed

theorem deque_capacity_policy_witness:
  "(\<exists>d'. pop_front True wrapped_deque = Inr d' \<and> deque_rep d' [4, 5] \<and> cd_capacity d' \<le> 4) \<and>
   (\<exists>d'. push_back True 6 wrapped_deque = Inr d' \<and> deque_rep d' [3, 4, 5, 6] \<and> 3 \<le> cd_capacity d')"
proof (rule conjI)
  note rep = deque_capacity_policy [OF wrapped_deque_rep, of True 6]
  from rep [THEN conjunct1] show "\<exists>d'. pop_front True wrapped_deque = Inr d' \<and> deque_rep d' [4, 5] \<and> cd_capacity d' \<le> 4"
    by (simp add: kCircularBufferInitialCapacity_def)
  from rep [THEN conjunct2] obtain d' where "push_back True 6 wrapped_deque = Inr d'" "deque_rep d' ([3, 4, 5] @ [6])"
    "cd_capacity d' \<ge> max kCircularBufferInitialCapacity (cd_capacity wrapped_deque + cd_capacity wrapped_deque div 4)"
    by (elim exE conjE) (simp add: cd_capacity_def)
  then show "\<exists>d'. push_back True 6 wrapped_deque = Inr d' \<and> deque_rep d' [3, 4, 5, 6] \<and> 3 \<le> cd_capacity d'"
    by (intro exI [of _ d']) (simp add: kCircularBufferInitialCapacity_def)
qed

text \<open>Copies hold the same elements as the original and leave it as it was; a move hands the elements
    over and leaves an empty deque that can be used again; \<open>swap\<close> exchanges the contents.\<close>
theorem deque_copy_move_swap:
  assumes "deque_rep d xs" "deque_rep other ys"
  shows "(\<exists>c. circular_deque_copy on d = Inr c \<and> deque_rep c xs) \<and>
    (\<exists>c. copy_assign on other d = Inr c \<and> deque_rep c ys) \<and>
    deque_rep (fst (circular_deque_move other)) ys \<and> deque_rep (snd (circular_deque_move other)) [] \<and>
    (\<exists>c rest. move_assign other d = Inr (c, rest) \<and> deque_rep c ys \<and> deque_rep rest []) \<and>
    deque_rep (fst (cd_swap d other)) ys \<and> deque_rep (snd (cd_swap d other)) xs"
proof -
  have "deque_rep (circular_deque_default\<lparr>cd_buffer := VectorBuffer (cd_size d + 1)\<rparr>) []"
    by (rule repI) (simp_all add: circular_deque_default_def VectorBuffer_def del: replicate_Suc)
  then obtain c where c: "circular_deque_copy on d = Inr c" "deque_rep c xs"
    using assign_range_ok [of _ "[]" on xs] rep_list [OF assms(1)] by (metis circular_deque_copy_def)
  obtain d1 where d1: "reserve (cd_size other) d = Inr d1" "deque_rep d1 xs" using reserve_ok [OF assms(1)] .
  obtain e where e: "assign_range on ys d1 = Inr e" "deque_rep e ys" using assign_range_ok [OF d1(2)] .
  obtain d2 where d2: "ClearRetainCapacity d = Inr d2" using ClearRetainCapacity_ok [OF assms(1)] .
  have fields: "deque_rep (p\<lparr>cd_buffer := cd_buffer q, cd_begin := cd_begin q, cd_end := cd_end q\<rparr>) zs = deque_rep q zs"
    for p q :: "'a circular_deque" and zs by (simp add: deque_rep_def)
  have empty: "deque_rep (other\<lparr>cd_buffer := VectorBuffer_default, cd_begin := 0, cd_end := 0\<rparr>) []"
    by (simp add: deque_rep_def VectorBuffer_default_def)
  have "deque_rep (fst (circular_deque_move other)) ys" using assms(2) by (simp add: circular_deque_move_def deque_rep_def)
  moreover have "copy_assign on other d = Inr e" using d1(1) e(1) rep_list [OF assms(2)] by (simp add: copy_assign_def)
  moreover have "\<exists>c rest. move_assign other d = Inr (c, rest) \<and> deque_rep c ys \<and> deque_rep rest []"
    using d2 assms(2) empty by (simp add: move_assign_def fields)
  ultimately show ?thesis using c e(2) empty assms by (auto simp: circular_deque_move_def cd_swap_def fields)
qed

theorem deque_copy_move_swap_witness:
  "(\<exists>c. circular_deque_copy True wrapped_deque = Inr c \<and> deque_rep c [3, 4, 5]) \<and>
   deque_rep (snd (cd_swap circular_deque_default wrapped_deque)) []"
  using deque_copy_move_swap [OF wrapped_deque_rep wrapped_deque_rep, of True]
    deque_copy_move_swap [OF rep_default wrapped_deque_rep, of True] by blast

end
