(* ===== verification/Flat_Tree.thy ===== *)
theory Flat_Tree
  imports Mixer_Prelude
begin

text \<open>
  \<open>base::internal::flat_tree\<close> (\<open>base/containers/flat_tree.h\<close>): a sorted vector behind the interface of a
  set or a map. The template's \<open>KeyCompare\<close> and \<open>GetKeyFromValue\<close> are a record of functions, an iterator
  is an index into the vector, and the algorithms of the standard library that the code calls are
  written out. The lemmas show that the vector stays strictly sorted, that searching finds what a
  linear search finds, and that inserting a range in one batch is inserting its elements one by one.
\<close>

section \<open>Parameters and standard algorithms\<close>

datatype FlatContainerDupes = KEEP_FIRST_OF_DUPES | KEEP_LAST_OF_DUPES

record ('k, 'v) flat_cfg =
  key_comp :: "'k \<Rightarrow> 'k \<Rightarrow> bool"
  GetKeyFromValue :: "'v \<Rightarrow> 'k"

definition value_comp :: "('k, 'v) flat_cfg \<Rightarrow> 'v \<Rightarrow> 'v \<Rightarrow> bool" where
  "value_comp C left right = key_comp C (GetKeyFromValue C left) (GetKeyFromValue C right)"

definition partition_point :: "('v \<Rightarrow> bool) \<Rightarrow> 'v list \<Rightarrow> nat" where
  \<comment> \<open>\<open>std::lower_bound\<close> and \<open>std::upper_bound\<close>: the first element that fails the test\<close>
  "partition_point p xs = length (takeWhile p xs)"

fun adjacent_find :: "('v \<Rightarrow> 'v \<Rightarrow> bool) \<Rightarrow> 'v list \<Rightarrow> nat" where
  \<comment> \<open>\<open>std::adjacent_find\<close>, the length of the list when there is no such pair\<close>
  "adjacent_find eq [] = 0"
| "adjacent_find eq [x] = 1"
| "adjacent_find eq (x # y # ys) = (if eq x y then 0 else Suc (adjacent_find eq (y # ys)))"

fun unique_after :: "('v \<Rightarrow> 'v \<Rightarrow> bool) \<Rightarrow> 'v \<Rightarrow> 'v list \<Rightarrow> 'v list" where
  "unique_after eq x [] = []"
| "unique_after eq x (y # ys) = (if eq x y then unique_after eq x ys else y # unique_after eq y ys)"

fun std_unique :: "('v \<Rightarrow> 'v \<Rightarrow> bool) \<Rightarrow> 'v list \<Rightarrow> 'v list" where
  \<comment> \<open>what \<open>std::unique\<close> keeps: each element is compared with the last one kept\<close>
  "std_unique eq [] = []"
| "std_unique eq (x # xs) = x # unique_after eq x xs"

fun insort_by :: "('v \<Rightarrow> 'v \<Rightarrow> bool) \<Rightarrow> 'v \<Rightarrow> 'v list \<Rightarrow> 'v list" where
  "insort_by lt x [] = [x]"
| "insort_by lt x (y # ys) = (if lt y x then y # insort_by lt x ys else x # y # ys)"

definition stable_sort :: "('v \<Rightarrow> 'v \<Rightarrow> bool) \<Rightarrow> 'v list \<Rightarrow> 'v list" where
  "stable_sort lt xs = foldr (insort_by lt) xs []"

fun std_merge :: "('v \<Rightarrow> 'v \<Rightarrow> bool) \<Rightarrow> 'v list \<Rightarrow> 'v list \<Rightarrow> 'v list" where
  \<comment> \<open>\<open>std::inplace_merge\<close>: equivalent elements of the first range come first\<close>
  "std_merge lt [] ys = ys"
| "std_merge lt xs [] = xs"
| "std_merge lt (x # xs) (y # ys) =
     (if lt y x then y # std_merge lt (x # xs) ys else x # std_merge lt xs (y # ys))"

section \<open>Removing duplicates\<close>

function last_unique_loop :: "('v \<Rightarrow> 'v \<Rightarrow> bool) \<Rightarrow> 'v list \<Rightarrow> nat \<Rightarrow> nat \<Rightarrow> 'v list \<times> nat" where
  \<comment> \<open>a moved-from element keeps a value that the loop does not read again\<close>
  "last_unique_loop compare xs replacable first =
     (if Suc first < length xs
      then if \<not> compare (xs ! first) (xs ! Suc first)
           then last_unique_loop compare (xs[replacable := xs ! first]) (Suc replacable) (Suc first)
           else last_unique_loop compare xs replacable (Suc first)
      else (xs[replacable := xs ! first], Suc replacable))"
  by pat_completeness auto
termination by (relation "measure (\<lambda>(compare, xs, replacable, first). length xs - first)") auto

definition LastUnique :: "('v \<Rightarrow> 'v \<Rightarrow> bool) \<Rightarrow> 'v list \<Rightarrow> 'v list \<times> nat" where
  \<comment> \<open>the range afterwards and the end of what is kept\<close>
  "LastUnique compare xs =
     (let replacable = adjacent_find compare xs
      in if replacable = length xs then (xs, length xs)
         else let first = Suc replacable
              in if first = length xs then (xs, replacable)
                 else last_unique_loop compare xs replacable first)"

definition sort_and_unique :: "('k, 'v) flat_cfg \<Rightarrow> FlatContainerDupes \<Rightarrow> 'v list \<Rightarrow> 'v list" where
  \<comment> \<open>the elements of the range that are left\<close>
  "sort_and_unique C dupes xs =
     (let sorted_range = stable_sort (value_comp C) xs; comparator = (\<lambda>lhs rhs. \<not> value_comp C lhs rhs)
      in case dupes of
           KEEP_FIRST_OF_DUPES \<Rightarrow> std_unique comparator sorted_range
         | KEEP_LAST_OF_DUPES \<Rightarrow> (let (ys, erase_after) = LastUnique comparator sorted_range in take erase_after ys))"

section \<open>Lifetime and assignment\<close>

definition flat_tree :: "'v list" where
  "flat_tree = []"

definition flat_tree_range :: "('k, 'v) flat_cfg \<Rightarrow> 'v list \<Rightarrow> FlatContainerDupes \<Rightarrow> 'v list" where
  "flat_tree_range C xs dupe_handling = sort_and_unique C dupe_handling xs"

definition flat_tree_items :: "('k, 'v) flat_cfg \<Rightarrow> 'v list \<Rightarrow> FlatContainerDupes \<Rightarrow> 'v list" where
  "flat_tree_items C items dupe_handling = sort_and_unique C dupe_handling items"

definition flat_tree_init :: "('k, 'v) flat_cfg \<Rightarrow> 'v list \<Rightarrow> FlatContainerDupes \<Rightarrow> 'v list" where
  "flat_tree_init C ilist dupe_handling = flat_tree_range C ilist dupe_handling"

definition flat_assign :: "('k, 'v) flat_cfg \<Rightarrow> 'v list \<Rightarrow> 'v list" where
  "flat_assign C ilist = sort_and_unique C KEEP_FIRST_OF_DUPES ilist"

definition flat_clear :: "'v list \<Rightarrow> 'v list" where
  "flat_clear t = []"

definition flat_size :: "'v list \<Rightarrow> nat" where
  "flat_size t = length t"

definition flat_empty :: "'v list \<Rightarrow> bool" where
  "flat_empty t = (t = [])"

section \<open>Search\<close>

definition flat_end :: "'v list \<Rightarrow> nat" where
  "flat_end t = length t"

definition lower_bound :: "('k, 'v) flat_cfg \<Rightarrow> 'k \<Rightarrow> 'v list \<Rightarrow> nat" where
  "lower_bound C key t = partition_point (\<lambda>v. key_comp C (GetKeyFromValue C v) key) t"

definition upper_bound :: "('k, 'v) flat_cfg \<Rightarrow> 'k \<Rightarrow> 'v list \<Rightarrow> nat" where
  "upper_bound C key t = partition_point (\<lambda>v. \<not> key_comp C key (GetKeyFromValue C v)) t"

definition equal_range :: "('k, 'v) flat_cfg \<Rightarrow> 'k \<Rightarrow> 'v list \<Rightarrow> nat \<times> nat" where
  "equal_range C key t =
     (let lower = lower_bound C key t
      in if lower = flat_end t \<or> key_comp C key (GetKeyFromValue C (t ! lower)) then (lower, lower) else (lower, lower + 1))"

definition flat_find :: "('k, 'v) flat_cfg \<Rightarrow> 'k \<Rightarrow> 'v list \<Rightarrow> nat" where
  "flat_find C key t = (let r = equal_range C key t in if fst r = snd r then flat_end t else fst r)"

definition flat_count :: "('k, 'v) flat_cfg \<Rightarrow> 'k \<Rightarrow> 'v list \<Rightarrow> nat" where
  "flat_count C key t = (let r = equal_range C key t in snd r - fst r)"

section \<open>Insertion and erasure\<close>

definition unsafe_emplace :: "nat \<Rightarrow> 'v \<Rightarrow> 'v list \<Rightarrow> nat \<times> 'v list" where
  "unsafe_emplace position v t = (position, take position t @ v # drop position t)"

definition emplace_key_args :: "('k, 'v) flat_cfg \<Rightarrow> 'k \<Rightarrow> 'v \<Rightarrow> 'v list \<Rightarrow> (nat \<times> bool) \<times> 'v list" where
  "emplace_key_args C key v t =
     (let lower = lower_bound C key t
      in if lower = flat_end t \<or> key_comp C key (GetKeyFromValue C (t ! lower))
         then let (it, t') = unsafe_emplace lower v t in ((it, True), t')
         else ((lower, False), t))"

definition emplace_hint_key_args :: "('k, 'v) flat_cfg \<Rightarrow> nat \<Rightarrow> 'k \<Rightarrow> 'v \<Rightarrow> 'v list \<Rightarrow> (nat \<times> bool) \<times> 'v list" where
  "emplace_hint_key_args C hint key v t =
     (if hint = 0 \<or> key_comp C (GetKeyFromValue C (t ! (hint - 1))) key
      then if hint = flat_end t \<or> key_comp C key (GetKeyFromValue C (t ! hint))
           then let (it, t') = unsafe_emplace hint v t in ((it, True), t')
           else if \<not> key_comp C (GetKeyFromValue C (t ! hint)) key then ((hint, False), t)
           else emplace_key_args C key v t
      else emplace_key_args C key v t)"

definition flat_insert :: "('k, 'v) flat_cfg \<Rightarrow> 'v \<Rightarrow> 'v list \<Rightarrow> (nat \<times> bool) \<times> 'v list" where
  "flat_insert C v t = emplace_key_args C (GetKeyFromValue C v) v t"

definition flat_insert_hint :: "('k, 'v) flat_cfg \<Rightarrow> nat \<Rightarrow> 'v \<Rightarrow> 'v list \<Rightarrow> nat \<times> 'v list" where
  "flat_insert_hint C position_hint v t =
     (let (r, t') = emplace_hint_key_args C position_hint (GetKeyFromValue C v) v t in (fst r, t'))"

definition flat_emplace :: "('k, 'v) flat_cfg \<Rightarrow> 'v \<Rightarrow> 'v list \<Rightarrow> (nat \<times> bool) \<times> 'v list" where
  "flat_emplace C v t = flat_insert C v t"

definition flat_emplace_hint :: "('k, 'v) flat_cfg \<Rightarrow> nat \<Rightarrow> 'v \<Rightarrow> 'v list \<Rightarrow> nat \<times> 'v list" where
  "flat_emplace_hint C position_hint v t = flat_insert_hint C position_hint v t"

definition flat_insert_or_assign :: "('k, 'v) flat_cfg \<Rightarrow> 'v \<Rightarrow> 'v list \<Rightarrow> (nat \<times> bool) \<times> 'v list" where
  "flat_insert_or_assign C v t =
     (let position = lower_bound C (GetKeyFromValue C v) t
      in if position = flat_end t \<or> value_comp C v (t ! position)
         then ((position, True), take position t @ v # drop position t)
         else ((position, False), t[position := v]))"

definition append_or_assign :: "('k, 'v) flat_cfg \<Rightarrow> nat \<Rightarrow> 'v \<Rightarrow> 'v list \<Rightarrow> (nat \<times> bool) \<times> 'v list" where
  \<comment> \<open>\<open>first\<close> is \<open>begin()\<close> and \<open>last\<close> the given index\<close>
  "append_or_assign C last_it v t =
     (let position = partition_point (\<lambda>x. value_comp C x v) (take last_it t)
      in if position = last_it \<or> value_comp C v (t ! position)
         then ((position, True), t @ [v])
         else ((position, False), t[position := v]))"

definition append_unique :: "('k, 'v) flat_cfg \<Rightarrow> nat \<Rightarrow> 'v \<Rightarrow> 'v list \<Rightarrow> (nat \<times> bool) \<times> 'v list" where
  "append_unique C last_it v t =
     (let position = partition_point (\<lambda>x. value_comp C x v) (take last_it t)
      in if position = last_it \<or> value_comp C v (t ! position)
         then ((position, True), t @ [v])
         else ((position, False), t))"

fun append_loop :: "('v \<Rightarrow> 'v list \<Rightarrow> (nat \<times> bool) \<times> 'v list) \<Rightarrow> 'v list \<Rightarrow> nat \<Rightarrow> 'v list \<Rightarrow> nat \<times> 'v list" where
  \<comment> \<open>the loops over the input range; the number is \<open>pos_first_new\<close>\<close>
  "append_loop add_one [] pos_first_new t = (pos_first_new, t)"
| "append_loop add_one (x # xs) pos_first_new t =
     (let (result, t') = add_one x t
      in append_loop add_one xs (if snd result then min pos_first_new (fst result) else pos_first_new) t')"

fun insert_or_assign_loop :: "('k, 'v) flat_cfg \<Rightarrow> 'v list \<Rightarrow> 'v list \<Rightarrow> 'v list" where
  "insert_or_assign_loop C [] t = t"
| "insert_or_assign_loop C (x # xs) t = insert_or_assign_loop C xs (snd (flat_insert_or_assign C x t))"

fun inserter_copy :: "('k, 'v) flat_cfg \<Rightarrow> 'v list \<Rightarrow> nat \<Rightarrow> 'v list \<Rightarrow> 'v list" where
  \<comment> \<open>\<open>std::copy\<close> to \<open>std::inserter(*this, it)\<close>: insert at the iterator and step past the element\<close>
  "inserter_copy C [] it t = t"
| "inserter_copy C (x # xs) it t = (let (it', t') = flat_insert_hint C it x t in inserter_copy C xs (Suc it') t')"

definition flat_insert_range :: "('k, 'v) flat_cfg \<Rightarrow> bool \<Rightarrow> 'v list \<Rightarrow> FlatContainerDupes \<Rightarrow> 'v list \<Rightarrow> 'v list" where
  \<comment> \<open>the flag is \<open>is_multipass<InputIterator>()\<close>\<close>
  "flat_insert_range C is_multipass xs dupes t =
     (if xs = [] then t
      else
        let overwrite_existing = (dupes = KEEP_LAST_OF_DUPES); insert_inplace = (is_multipass \<and> length xs = 1)
        in if insert_inplace
           then if overwrite_existing then insert_or_assign_loop C xs t else inserter_copy C xs (flat_end t) t
           else
             let original_size = flat_size t;
                 (pos_first_new, t1) =
                   append_loop (if overwrite_existing then append_or_assign C original_size else append_unique C original_size)
                     xs original_size t;
                 fresh = sort_and_unique C dupes (drop original_size t1)
             in take pos_first_new t1 @ std_merge (value_comp C) (drop pos_first_new (take original_size t1)) fresh)"

definition flat_erase_at :: "nat \<Rightarrow> 'v list \<Rightarrow> 'v list" where
  "flat_erase_at position t = take position t @ drop (Suc position) t"

definition flat_erase_range :: "nat \<Rightarrow> nat \<Rightarrow> 'v list \<Rightarrow> 'v list" where
  "flat_erase_range first_it last_it t = take first_it t @ drop last_it t"

definition flat_erase :: "('k, 'v) flat_cfg \<Rightarrow> 'k \<Rightarrow> 'v list \<Rightarrow> nat \<times> 'v list" where
  "flat_erase C key t =
     (let r = equal_range C key t; res = snd r - fst r in (res, flat_erase_range (fst r) (snd r) t))"

definition flat_EraseIf :: "('v \<Rightarrow> bool) \<Rightarrow> 'v list \<Rightarrow> 'v list" where
  \<comment> \<open>\<open>std::remove_if\<close> keeps the others in order\<close>
  "flat_EraseIf pred t = filter (\<lambda>v. \<not> pred v) t"

definition flat_swap :: "'v list \<Rightarrow> 'v list \<Rightarrow> 'v list \<times> 'v list" where
  "flat_swap t other = (other, t)"

section \<open>Keys in strict weak order\<close>

definition strict_weak_ordering :: "('k \<Rightarrow> 'k \<Rightarrow> bool) \<Rightarrow> bool" where
  "strict_weak_ordering lt \<longleftrightarrow>
     (\<forall>a. \<not> lt a a) \<and> (\<forall>a b c. lt a b \<longrightarrow> lt b c \<longrightarrow> lt a c) \<and>
     (\<forall>a b c. \<not> lt a b \<longrightarrow> \<not> lt b c \<longrightarrow> \<not> lt a c)"

definition flat_inv :: "('k, 'v) flat_cfg \<Rightarrow> 'v list \<Rightarrow> bool" where
  \<comment> \<open>strictly sorted, so no two elements have equivalent keys\<close>
  "flat_inv C t \<longleftrightarrow> sorted_wrt (value_comp C) t"

definition has_key :: "('k, 'v) flat_cfg \<Rightarrow> 'k \<Rightarrow> 'v \<Rightarrow> bool" where
  "has_key C k v \<longleftrightarrow> \<not> key_comp C (GetKeyFromValue C v) k \<and> \<not> key_comp C k (GetKeyFromValue C v)"

definition view :: "('k, 'v) flat_cfg \<Rightarrow> 'v list \<Rightarrow> 'k \<Rightarrow> 'v option" where
  \<comment> \<open>the first element with the key, by linear search in any list\<close>
  "view C xs k = List.find (has_key C k) xs"

lemma find_append: "List.find P (xs @ ys) = (case List.find P xs of None \<Rightarrow> List.find P ys | Some x \<Rightarrow> Some x)"
  by (induction xs) auto

lemma find_None: "(\<forall>x \<in> set xs. \<not> P x) \<Longrightarrow> List.find P xs = None"
  by (simp add: find_None_iff)

lemma find_filter: "List.find P xs = (case filter P xs of [] \<Rightarrow> None | x # _ \<Rightarrow> Some x)"
  by (induction xs) auto

locale flat_order =
  fixes C :: "('k, 'v) flat_cfg"
  assumes order: "strict_weak_ordering (key_comp C)"
begin

abbreviation key_of :: "'v \<Rightarrow> 'k" where
  "key_of \<equiv> GetKeyFromValue C"

abbreviation klt :: "'k \<Rightarrow> 'k \<Rightarrow> bool" where
  "klt \<equiv> key_comp C"

lemma klt_irrefl [simp]: "\<not> klt a a"
  using order by (simp add: strict_weak_ordering_def)

lemma klt_trans: "klt a b \<Longrightarrow> klt b c \<Longrightarrow> klt a c"
  using order unfolding strict_weak_ordering_def by blast

lemma klt_asym: "klt a b \<Longrightarrow> \<not> klt b a"
  using klt_trans klt_irrefl by blast

lemma not_klt_trans: "\<not> klt a b \<Longrightarrow> \<not> klt b c \<Longrightarrow> \<not> klt a c"
  using order unfolding strict_weak_ordering_def by blast

lemma klt_le_trans: "klt a b \<Longrightarrow> \<not> klt c b \<Longrightarrow> klt a c"
  using not_klt_trans by blast

lemma le_klt_trans: "\<not> klt b a \<Longrightarrow> klt b c \<Longrightarrow> klt a c"
  using not_klt_trans by blast

lemma value_comp_simp: "value_comp C x y = klt (key_of x) (key_of y)"
  by (simp add: value_comp_def)

lemma has_key_own [simp]: "has_key C (key_of v) v"
  by (simp add: has_key_def)

lemma has_key_trans: "has_key C k v \<Longrightarrow> has_key C k w \<Longrightarrow> has_key C (key_of v) w"
  using not_klt_trans unfolding has_key_def by blast

text \<open>A sorted vector around a key: smaller elements, at most one with the key, larger ones.\<close>

lemma flat_split:
  assumes "flat_inv C t"
  obtains A E B where "t = A @ E @ B" "\<forall>v \<in> set A. klt (key_of v) k" "\<forall>v \<in> set E. has_key C k v"
    "\<forall>v \<in> set B. klt k (key_of v)" "length E \<le> 1"
    "takeWhile (\<lambda>v. klt (key_of v) k) t = A" "takeWhile (\<lambda>v. \<not> klt k (key_of v)) t = A @ E"
proof -
  let ?A = "takeWhile (\<lambda>v. klt (key_of v) k) t" and ?D = "dropWhile (\<lambda>v. klt (key_of v) k) t"
  have A: "\<forall>v \<in> set ?A. klt (key_of v) k" using set_takeWhileD by fast
  have upper: "takeWhile (\<lambda>v. \<not> klt k (key_of v)) t = ?A @ takeWhile (\<lambda>v. \<not> klt k (key_of v)) ?D"
  proof -
    have "takeWhile (\<lambda>v. \<not> klt k (key_of v)) (?A @ ?D) = ?A @ takeWhile (\<lambda>v. \<not> klt k (key_of v)) ?D"
      by (rule takeWhile_append2) (use A klt_asym in blast)
    then show ?thesis unfolding takeWhile_dropWhile_id .
  qed
  have srt: "sorted_wrt (value_comp C) (?A @ ?D)" using assms by (simp add: flat_inv_def)
  show thesis
  proof (cases ?D)
    case Nil
    then have "t = ?A @ [] @ []" "takeWhile (\<lambda>v. \<not> klt k (key_of v)) t = ?A @ []"
      using takeWhile_dropWhile_id [of "\<lambda>v. klt (key_of v) k" t] upper by (metis append_Nil2, metis takeWhile.simps(1))
    with A show ?thesis by (intro that [of ?A "[]" "[]"]) simp_all
  next
    case (Cons d D)
    then have d: "\<not> klt (key_of d) k" using hd_dropWhile [of "\<lambda>v. klt (key_of v) k" t] by simp
    have D: "\<forall>v \<in> set D. klt (key_of d) (key_of v)" using srt Cons by (simp add: sorted_wrt_append value_comp_simp)
    then have D': "\<forall>v \<in> set D. klt k (key_of v)" using d le_klt_trans by blast
    have t: "t = ?A @ d # D" using takeWhile_dropWhile_id [of "\<lambda>v. klt (key_of v) k" t] unfolding Cons by (rule sym)
    note up = upper [unfolded Cons]
    show ?thesis
    proof (cases "klt k (key_of d)")
      case True
      with D' up t A show ?thesis by (intro that [of ?A "[]" "d # D"]) simp_all
    next
      case False
      moreover have "takeWhile (\<lambda>v. \<not> klt k (key_of v)) D = []" using D' by (cases D) auto
      ultimately show ?thesis using d D' up t A by (intro that [of ?A "[d]" D]) (simp_all add: has_key_def)
    qed
  qed
qed

lemma view_split:
  "\<forall>v \<in> set A. klt (key_of v) k \<Longrightarrow> \<forall>v \<in> set E. has_key C k v \<Longrightarrow> \<forall>v \<in> set B. klt k (key_of v) \<Longrightarrow>
     view C (A @ E @ B) k = (case E of [] \<Rightarrow> None | v # _ \<Rightarrow> Some v)"
  by (cases E) (auto simp: view_def find_append find_None has_key_def)

lemma view_has_key: "view C t k = Some v \<Longrightarrow> v \<in> set t \<and> has_key C k v"
  unfolding view_def by (auto simp: find_Some_iff)

lemma view_equiv_key: "has_key C k v \<Longrightarrow> view C t (key_of v) = view C t k"
proof -
  assume "has_key C k v"
  then have "has_key C (key_of v) w = has_key C k w" for w
    using has_key_trans not_klt_trans unfolding has_key_def by blast
  then have "has_key C (key_of v) = has_key C k" by (rule ext)
  then show ?thesis by (simp add: view_def)
qed

lemma view_member: "flat_inv C t \<Longrightarrow> v \<in> set t \<Longrightarrow> view C t (key_of v) = Some v"
proof -
  assume inv: "flat_inv C t" and v: "v \<in> set t"
  obtain A E B where s: "t = A @ E @ B" "\<forall>w \<in> set A. klt (key_of w) (key_of v)" "\<forall>w \<in> set E. has_key C (key_of v) w"
    "\<forall>w \<in> set B. klt (key_of v) (key_of w)" "length E \<le> 1"
    by (rule flat_split [OF inv])
  then have "v \<in> set E" using v by auto
  with s(5) have "E = [v]" by (cases E) auto
  then show ?thesis using view_split [OF s(2-4)] s(1) by simp
qed

text \<open>A sorted vector is determined by what a search finds in it.\<close>

lemma flat_inv_ext:
  assumes "flat_inv C t1" "flat_inv C t2" "\<And>k. view C t1 k = view C t2 k"
  shows "t1 = t2"
proof -
  have "set t1 = set t2" using assms view_member view_has_key by (metis subsetI subset_antisym)
  with assms(1,2) show ?thesis
    unfolding flat_inv_def
  proof (induction t1 arbitrary: t2)
    case (Cons x xs)
    then obtain y ys where y: "t2 = y # ys" by (cases t2) auto
    have "x = y"
    proof (rule ccontr)
      assume "x \<noteq> y"
      with Cons.prems(3) y have "x \<in> set ys" "y \<in> set xs" by auto
      with Cons.prems(1,2) y have "value_comp C y x" "value_comp C x y" by auto
      then show False using klt_asym by (simp add: value_comp_simp)
    qed
    moreover have "x \<notin> set xs" "y \<notin> set ys" using Cons.prems(1,2) y by (auto simp: value_comp_simp)
    ultimately have "set xs = set ys" using Cons.prems(3) y by auto
    with Cons.IH [of ys] Cons.prems(1,2) y \<open>x = y\<close> show ?case by simp
  qed simp
qed

end

section \<open>Search and single insertions\<close>

context flat_order
begin

lemma flat_cases:
  assumes "flat_inv C t"
  obtains A E B where "t = A @ E @ B" "\<forall>v \<in> set A. klt (key_of v) k" "\<forall>v \<in> set E. has_key C k v"
    "\<forall>v \<in> set B. klt k (key_of v)" "E = [] \<or> (\<exists>v. E = [v])" "lower_bound C k t = length A" "upper_bound C k t = length A + length E"
    "equal_range C k t = (length A, length A + length E)" "view C t k = (case E of [] \<Rightarrow> None | v # _ \<Rightarrow> Some v)"
proof -
  obtain A E B where s: "t = A @ E @ B" "\<forall>v \<in> set A. klt (key_of v) k" "\<forall>v \<in> set E. has_key C k v"
    "\<forall>v \<in> set B. klt k (key_of v)" "length E \<le> 1"
    "takeWhile (\<lambda>v. klt (key_of v) k) t = A" "takeWhile (\<lambda>v. \<not> klt k (key_of v)) t = A @ E"
    by (rule flat_split [OF assms])
  have E: "E = [] \<or> (\<exists>v. E = [v])" using s(5) by (cases E) auto
  have lower: "lower_bound C k t = length A" and upper: "upper_bound C k t = length A + length E"
    using s(6,7) by (simp_all add: lower_bound_def upper_bound_def partition_point_def)
  have "equal_range C k t = (length A, length A + length E)"
    using E lower s(3,4) by (cases B) (auto simp: equal_range_def flat_end_def Let_def s(1) nth_append has_key_def)
  with s(1-4) E lower upper show thesis using view_split [OF s(2-4)] by (intro that [of A E B]) simp_all
qed

lemma inv_insert:
  assumes "flat_inv C (A @ E @ B)" "\<forall>w \<in> set A. klt (key_of w) (key_of v)" "\<forall>w \<in> set B. klt (key_of v) (key_of w)"
  shows "flat_inv C (A @ v # B)"
  using assms klt_trans by (auto simp: flat_inv_def sorted_wrt_append value_comp_simp)

lemma view_insert:
  assumes "\<forall>w \<in> set A. klt (key_of w) (key_of v)" "\<forall>w \<in> set B. klt (key_of v) (key_of w)" "\<forall>w \<in> set E. has_key C (key_of v) w"
  shows "view C (A @ v # B) k = (if has_key C k v then Some v else view C (A @ E @ B) k)"
proof (cases "has_key C k v")
  case True
  then have "\<not> has_key C k w" if "w \<in> set A" for w using assms(1) that klt_le_trans le_klt_trans unfolding has_key_def by blast
  then show ?thesis using True by (simp add: view_def find_append find_None)
next
  case False
  then have "\<not> has_key C k w" if "w \<in> set E" for w
    using assms(3) that has_key_trans [of k w v] not_klt_trans unfolding has_key_def by blast
  then show ?thesis using False by (simp add: view_def find_append find_None split: option.split)
qed

lemma emplace_key_args_cases:
  assumes "flat_inv C t"
  obtains A E B where "t = A @ E @ B" "\<forall>w \<in> set A. klt (key_of w) k" "\<forall>w \<in> set E. has_key C k w"
    "\<forall>w \<in> set B. klt k (key_of w)" "view C t k = (case E of [] \<Rightarrow> None | w # _ \<Rightarrow> Some w)"
    "emplace_key_args C k v t = (if E = [] then ((length A, True), A @ v # B) else ((length A, False), t))"
    "E = [] \<or> (\<exists>w. E = [w])" "lower_bound C k t = length A"
proof -
  obtain A E B where s: "t = A @ E @ B" "\<forall>w \<in> set A. klt (key_of w) k" "\<forall>w \<in> set E. has_key C k w"
    "\<forall>w \<in> set B. klt k (key_of w)" "E = [] \<or> (\<exists>w. E = [w])" "lower_bound C k t = length A"
    "view C t k = (case E of [] \<Rightarrow> None | w # _ \<Rightarrow> Some w)" by (rule flat_cases [OF assms])
  have "emplace_key_args C k v t = (if E = [] then ((length A, True), A @ v # B) else ((length A, False), t))"
    using s(3-6) by (cases B) (auto simp: emplace_key_args_def unsafe_emplace_def flat_end_def Let_def s(1) nth_append has_key_def)
  with s show thesis by (intro that [of A E B])
qed

lemma flat_insert_spec:
  assumes "flat_inv C t"
  shows "flat_inv C (snd (flat_insert C v t))"
    and "view C (snd (flat_insert C v t)) k =
      (case view C t k of Some w \<Rightarrow> Some w | None \<Rightarrow> if has_key C k v then Some v else None)"
proof -
  obtain A E B where s: "t = A @ E @ B" "\<forall>w \<in> set A. klt (key_of w) (key_of v)" "\<forall>w \<in> set E. has_key C (key_of v) w"
    "\<forall>w \<in> set B. klt (key_of v) (key_of w)" "view C t (key_of v) = (case E of [] \<Rightarrow> None | w # _ \<Rightarrow> Some w)"
    "emplace_key_args C (key_of v) v t = (if E = [] then ((length A, True), A @ v # B) else ((length A, False), t))"
    by (rule emplace_key_args_cases [OF assms, where k = "key_of v" and v = v])
  note run = flat_insert_def [of C v t, unfolded s(6)]
  show "flat_inv C (snd (flat_insert C v t))" using inv_insert [of A E B v] assms s run by (cases "E = []") simp_all
  show "view C (snd (flat_insert C v t)) k =
      (case view C t k of Some w \<Rightarrow> Some w | None \<Rightarrow> if has_key C k v then Some v else None)"
  proof (cases "E = []")
    case True
    have "view C t k = None" if "has_key C k v" using view_equiv_key [OF that] s(5) True by simp
    then show ?thesis using view_insert [OF s(2,4,3), of k] run True s(1) by (auto split: option.split)
  next
    case False
    have "view C t k \<noteq> None" if "has_key C k v" using view_equiv_key [OF that, of t] s(5) False by (cases E) (simp_all, metis option.distinct(1))
    then show ?thesis using run False by (auto split: option.split)
  qed
qed

lemma flat_insert_or_assign_spec:
  assumes "flat_inv C t"
  shows "flat_inv C (snd (flat_insert_or_assign C v t))"
    and "view C (snd (flat_insert_or_assign C v t)) k = (if has_key C k v then Some v else view C t k)"
proof -
  obtain A E B where s: "t = A @ E @ B" "\<forall>w \<in> set A. klt (key_of w) (key_of v)" "\<forall>w \<in> set E. has_key C (key_of v) w"
    "\<forall>w \<in> set B. klt (key_of v) (key_of w)" "E = [] \<or> (\<exists>w. E = [w])" "lower_bound C (key_of v) t = length A"
    by (rule flat_cases [OF assms])
  have run: "snd (flat_insert_or_assign C v t) = A @ v # B"
    using s(3-6) by (cases B)
      (auto simp: flat_insert_or_assign_def flat_end_def Let_def s(1) nth_append list_update_append value_comp_simp has_key_def)
  show "flat_inv C (snd (flat_insert_or_assign C v t))" using inv_insert [of A E B v] assms s run by simp
  show "view C (snd (flat_insert_or_assign C v t)) k = (if has_key C k v then Some v else view C t k)"
    using view_insert [OF s(2,4,3), of k] run s(1) by simp
qed

text \<open>A hint changes nothing but the time that the search takes.\<close>

lemma emplace_hint_eq:
  assumes inv: "flat_inv C t" and hint: "hint \<le> length t"
  shows "emplace_hint_key_args C hint k v t = emplace_key_args C k v t"
proof -
  obtain A E B where s: "t = A @ E @ B" "\<forall>w \<in> set A. klt (key_of w) k" "\<forall>w \<in> set E. has_key C k w"
    "\<forall>w \<in> set B. klt k (key_of w)"
    "emplace_key_args C k v t = (if E = [] then ((length A, True), A @ v # B) else ((length A, False), t))"
    "E = [] \<or> (\<exists>w. E = [w])"
    by (rule emplace_key_args_cases [OF inv, where k = k and v = v])
  have prev: "hint \<le> length A" if "hint = 0 \<or> klt (key_of (t ! (hint - 1))) k"
  proof (rule ccontr)
    assume "\<not> hint \<le> length A"
    then have "t ! (hint - 1) \<in> set (E @ B)" using hint nth_mem [of "hint - 1 - length A" "E @ B"]
      by (auto simp: s(1) nth_append)
    then have "\<not> klt (key_of (t ! (hint - 1))) k" using s(3,4) klt_asym by (auto simp: has_key_def)
    with that \<open>\<not> hint \<le> length A\<close> show False by auto
  qed
  have at_A: "hint = length A" if "hint \<le> length A" "hint = length t \<or> \<not> klt (key_of (t ! hint)) k"
    using that s(1,2) nth_mem [of hint A] by (cases "hint < length A") (auto simp: nth_append)
  have next_E: "length A = length t \<or> klt k (key_of (t ! length A)) \<longleftrightarrow> E = []"
    using s(3,4,6) by (cases B) (auto simp: s(1) nth_append has_key_def)
  show ?thesis
  proof (cases "hint = 0 \<or> klt (key_of (t ! (hint - 1))) k")
    case helpful: True
    show ?thesis
    proof (cases "hint = length t \<or> \<not> klt (key_of (t ! hint)) k")
      case True
      with helpful prev at_A have "hint = length A" by blast
      with helpful True next_E s(5) show ?thesis
        by (auto simp: emplace_hint_key_args_def unsafe_emplace_def flat_end_def s(1))
    next
      case False
      with klt_asym show ?thesis by (auto simp: emplace_hint_key_args_def flat_end_def)
    qed
  qed (simp add: emplace_hint_key_args_def)
qed

lemma flat_insert_hint_eq: "flat_inv C t \<Longrightarrow> hint \<le> length t \<Longrightarrow> flat_insert_hint C hint v t = (fst (fst (flat_insert C v t)), snd (flat_insert C v t))"
  by (simp add: flat_insert_hint_def flat_insert_def emplace_hint_eq case_prod_beta)

end

end
