(* ===== verification/Flat_Batch.thy ===== *)
theory Flat_Batch
  imports Flat_Tree
begin

text \<open>
  The bulk operations of \<open>base::internal::flat_tree\<close>: \<open>LastUnique\<close> and \<open>sort_and_unique\<close> keep one element
  of every key, the first or the last one; \<open>insert(first, last, dupes)\<close> appends, sorts and merges, and is
  shown to give the vector that inserting the elements one at a time gives.
\<close>

section \<open>Keeping the last of a run\<close>

fun last_of_runs :: "('v \<Rightarrow> 'v \<Rightarrow> bool) \<Rightarrow> 'v list \<Rightarrow> 'v list" where
  "last_of_runs eq [] = []"
| "last_of_runs eq [x] = [x]"
| "last_of_runs eq (x # y # ys) = (if eq x y then last_of_runs eq (y # ys) else x # last_of_runs eq (y # ys))"

lemma last_of_runs_snoc_drop:
  "Suc i < length xs \<Longrightarrow> last_of_runs eq (drop i xs) =
     (if eq (xs ! i) (xs ! Suc i) then last_of_runs eq (drop (Suc i) xs) else xs ! i # last_of_runs eq (drop (Suc i) xs))"
proof -
  assume "Suc i < length xs"
  then have "drop i xs = xs ! i # xs ! Suc i # drop (Suc (Suc i)) xs" "drop (Suc i) xs = xs ! Suc i # drop (Suc (Suc i)) xs"
    by (simp_all add: Cons_nth_drop_Suc)
  then show ?thesis by simp
qed

lemma adjacent_find_le: "adjacent_find eq xs \<le> length xs"
  by (induction eq xs rule: adjacent_find.induct) auto

lemma adjacent_find_pair: "adjacent_find eq xs < length xs \<Longrightarrow> Suc (adjacent_find eq xs) < length xs"
  by (induction eq xs rule: adjacent_find.induct) (auto split: if_splits)

lemma last_of_runs_prefix:
  "last_of_runs eq xs = take (adjacent_find eq xs) xs @ last_of_runs eq (drop (adjacent_find eq xs) xs)"
  by (induction eq xs rule: adjacent_find.induct) auto

lemma adjacent_find_equal:
  "adjacent_find eq xs < length xs \<Longrightarrow> eq (xs ! adjacent_find eq xs) (xs ! Suc (adjacent_find eq xs))"
  by (induction eq xs rule: adjacent_find.induct) (auto split: if_splits)

lemma last_unique_loop_spec:
  "replacable < first \<Longrightarrow> first < length xs \<Longrightarrow>
     (case last_unique_loop eq xs replacable first of (ys, n) \<Rightarrow>
        n \<le> length ys \<and> take n ys = take replacable xs @ last_of_runs eq (drop first xs))"
proof (induction eq xs replacable first rule: last_unique_loop.induct)
  case (1 eq xs replacable first)
  show ?case
  proof (cases "Suc first < length xs")
    case more: True
    note runs = last_of_runs_snoc_drop [OF more, of eq]
    show ?thesis
    proof (cases "eq (xs ! first) (xs ! Suc first)")
      case True
      with "1.IH"(2) [OF more] "1.prems" more runs show ?thesis by (subst last_unique_loop.simps) auto
    next
      case False
      have "take (Suc replacable) (xs[replacable := xs ! first]) = take replacable xs @ [xs ! first]"
        using "1.prems" by (simp add: take_Suc_conv_app_nth take_update_cancel)
      moreover have "drop (Suc first) (xs[replacable := xs ! first]) = drop (Suc first) xs" using "1.prems" by simp
      ultimately show ?thesis
        using "1.IH"(1) [OF more False] "1.prems" more runs False by (subst last_unique_loop.simps) auto
    qed
  next
    case False
    then have "drop first xs = [xs ! first]" using "1.prems" by (metis Cons_nth_drop_Suc Suc_lessI drop_all order_refl)
    moreover have "take (Suc replacable) (xs[replacable := xs ! first]) = take replacable xs @ [xs ! first]"
      using "1.prems" by (simp add: take_Suc_conv_app_nth take_update_cancel)
    ultimately show ?thesis using False "1.prems" by (subst last_unique_loop.simps) auto
  qed
qed

lemma LastUnique_keeps: "(case LastUnique eq xs of (ys, n) \<Rightarrow> n \<le> length ys \<and> take n ys = last_of_runs eq xs)"
proof (cases "adjacent_find eq xs = length xs")
  case True
  then show ?thesis using last_of_runs_prefix [of eq xs] by (simp add: LastUnique_def)
next
  case False
  then have lt: "adjacent_find eq xs < length xs" using adjacent_find_le [of eq xs] by simp
  note pair = adjacent_find_pair [OF lt]
  have "last_of_runs eq xs = take (adjacent_find eq xs) xs @ last_of_runs eq (drop (Suc (adjacent_find eq xs)) xs)"
    using last_of_runs_prefix [of eq xs] last_of_runs_snoc_drop [OF pair, of eq] adjacent_find_equal [OF lt] by simp
  then show ?thesis
    using last_unique_loop_spec [of "adjacent_find eq xs" "Suc (adjacent_find eq xs)" xs eq] pair False
    by (simp add: LastUnique_def Let_def)
qed

section \<open>Sorting and removing duplicates\<close>

context flat_order
begin

abbreviation weakly_sorted :: "'v list \<Rightarrow> bool" where
  "weakly_sorted \<equiv> sorted_wrt (\<lambda>x y. \<not> value_comp C y x)"

lemma vc_asym: "value_comp C x y \<Longrightarrow> \<not> value_comp C y x"
  by (simp add: value_comp_simp klt_asym)

lemma vc_trans: "value_comp C x y \<Longrightarrow> value_comp C y z \<Longrightarrow> value_comp C x z"
  unfolding value_comp_simp by (rule klt_trans)

lemma vc_le_trans: "\<not> value_comp C z y \<Longrightarrow> \<not> value_comp C y x \<Longrightarrow> \<not> value_comp C z x"
  unfolding value_comp_simp by (rule not_klt_trans)

lemma vc_less_le: "value_comp C x y \<Longrightarrow> \<not> value_comp C z y \<Longrightarrow> value_comp C x z"
  unfolding value_comp_simp by (rule klt_le_trans)

lemma vc_apart: "value_comp C x y \<Longrightarrow> has_key C k x \<Longrightarrow> \<not> has_key C k y"
  using klt_le_trans [of "key_of x" "key_of y" k] by (auto simp: value_comp_simp has_key_def)

lemma vc_same: "\<not> value_comp C x y \<Longrightarrow> \<not> value_comp C y x \<Longrightarrow> has_key C k y = has_key C k x"
  unfolding value_comp_simp has_key_def using not_klt_trans by blast

lemma set_insort_by [simp]: "set (insort_by lt x xs) = insert x (set xs)"
  by (induction lt x xs rule: insort_by.induct) auto

lemma weakly_sorted_insort: "weakly_sorted xs \<Longrightarrow> weakly_sorted (insort_by (value_comp C) x xs)"
proof (induction xs)
  case (Cons y ys)
  show ?case
  proof (cases "value_comp C y x")
    case True
    with Cons vc_asym [OF True] show ?thesis by simp
  next
    case False
    then have "\<not> value_comp C z x" if "z \<in> set (y # ys)" for z
      using that Cons.prems vc_le_trans [of z y x] by (cases "z = y") simp_all
    with Cons.prems False show ?thesis by simp
  qed
qed simp

lemma filter_insort: "filter (has_key C k) (insort_by (value_comp C) x xs) = filter (has_key C k) (x # xs)"
proof (induction xs)
  case (Cons y ys)
  show ?case
  proof (cases "value_comp C y x")
    case True
    with Cons vc_apart [OF True, of k] show ?thesis by simp
  qed simp
qed simp

lemma weakly_sorted_sort: "weakly_sorted (stable_sort (value_comp C) xs)"
  unfolding stable_sort_def by (induction xs) (simp_all add: weakly_sorted_insort)

lemma filter_sort: "filter (has_key C k) (stable_sort (value_comp C) xs) = filter (has_key C k) xs"
  unfolding stable_sort_def by (induction xs) (simp_all add: filter_insort)

lemma set_sort [simp]: "set (stable_sort lt xs) = set xs"
  unfolding stable_sort_def by (induction xs) auto

lemma view_sort: "view C (stable_sort (value_comp C) xs) k = view C xs k"
  "view C (rev (stable_sort (value_comp C) xs)) k = view C (rev xs) k"
  by (simp_all add: view_def find_filter filter_sort flip: rev_filter)

lemma unique_after_spec:
  "weakly_sorted (x # ys) \<Longrightarrow>
     flat_inv C (x # unique_after (\<lambda>l r. \<not> value_comp C l r) x ys) \<and>
     set (unique_after (\<lambda>l r. \<not> value_comp C l r) x ys) \<subseteq> set ys \<and>
     view C (x # unique_after (\<lambda>l r. \<not> value_comp C l r) x ys) k = view C (x # ys) k"
proof (induction ys arbitrary: x)
  case (Cons y ys)
  show ?case
  proof (cases "value_comp C x y")
    case True
    have tail: "weakly_sorted (y # ys)" using Cons.prems by simp
    have above: "value_comp C x z" if "z \<in> set ys" for z
      using vc_less_le [OF True, of z] tail that by simp
    note ih = Cons.IH [OF tail]
    have "\<forall>z \<in> set (y # unique_after (\<lambda>l r. \<not> value_comp C l r) y ys). value_comp C x z" using above ih True by auto
    with ih True show ?thesis by (auto simp: flat_inv_def view_def)
  next
    case False
    have "weakly_sorted (x # ys)" using Cons.prems by simp
    moreover have "has_key C k y = has_key C k x" using False Cons.prems by (intro vc_same) simp_all
    ultimately show ?thesis using Cons.IH [of x] False by (auto simp: view_def)
  qed
qed (simp add: flat_inv_def)

lemma std_unique_spec:
  "weakly_sorted xs \<Longrightarrow>
     flat_inv C (std_unique (\<lambda>l r. \<not> value_comp C l r) xs) \<and> set (std_unique (\<lambda>l r. \<not> value_comp C l r) xs) \<subseteq> set xs \<and>
     view C (std_unique (\<lambda>l r. \<not> value_comp C l r) xs) k = view C xs k"
  using unique_after_spec [of "hd xs" "tl xs" k] by (cases xs) (auto simp: flat_inv_def)

lemma last_of_runs_spec:
  "weakly_sorted xs \<Longrightarrow>
     flat_inv C (last_of_runs (\<lambda>l r. \<not> value_comp C l r) xs) \<and> set (last_of_runs (\<lambda>l r. \<not> value_comp C l r) xs) \<subseteq> set xs \<and>
     view C (last_of_runs (\<lambda>l r. \<not> value_comp C l r) xs) k = view C (rev xs) k"
proof (induction "\<lambda>l r. \<not> value_comp C l r" xs rule: last_of_runs.induct)
  case (3 x y ys)
  have tail: "weakly_sorted (y # ys)" using "3.prems" by simp
  show ?case
  proof (cases "value_comp C x y")
    case True
    have above: "value_comp C x z" if "z \<in> set (y # ys)" for z
      using True vc_less_le [OF True, of z] tail that by (cases "z = y") simp_all
    then have "\<not> has_key C k z" if "has_key C k x" "z \<in> set (y # ys)" for z
      using that vc_apart by blast
    then have "has_key C k x \<Longrightarrow> view C (rev (y # ys)) k = None" unfolding view_def by (intro find_None) auto
    then show ?thesis
      using "3.hyps"(2) [OF _ tail] True above
      by (auto simp: flat_inv_def view_def find_append split: option.split)
  next
    case False
    have "has_key C k y = has_key C k x" using False "3.prems" by (intro vc_same) simp_all
    then have "view C (rev (x # y # ys)) k = view C (rev (y # ys)) k"
      by (auto simp: view_def find_append split: option.split)
    then show ?thesis using "3.hyps"(1) [OF _ tail] False by auto
  qed
qed (simp_all add: flat_inv_def)

abbreviation chosen :: "FlatContainerDupes \<Rightarrow> 'v list \<Rightarrow> 'v list" where
  "chosen dupes xs \<equiv> (case dupes of KEEP_FIRST_OF_DUPES \<Rightarrow> xs | KEEP_LAST_OF_DUPES \<Rightarrow> rev xs)"

lemma sort_and_unique_spec:
  "flat_inv C (sort_and_unique C dupes xs) \<and> set (sort_and_unique C dupes xs) \<subseteq> set xs \<and>
     view C (sort_and_unique C dupes xs) k = view C (chosen dupes xs) k"
proof (cases dupes)
  case KEEP_FIRST_OF_DUPES
  then show ?thesis
    using std_unique_spec [OF weakly_sorted_sort, of xs k] view_sort(1) [of xs k] by (simp add: sort_and_unique_def)
next
  case KEEP_LAST_OF_DUPES
  have "sort_and_unique C dupes xs = last_of_runs (\<lambda>l r. \<not> value_comp C l r) (stable_sort (value_comp C) xs)"
    using LastUnique_keeps [of "\<lambda>l r. \<not> value_comp C l r" "stable_sort (value_comp C) xs"] KEEP_LAST_OF_DUPES
    by (auto simp: sort_and_unique_def Let_def split: prod.splits)
  then show ?thesis
    using last_of_runs_spec [OF weakly_sorted_sort, of xs k] view_sort(2) [of xs k] KEEP_LAST_OF_DUPES by simp
qed

end

section \<open>Merging\<close>

context flat_order
begin

lemma set_merge [simp]: "set (std_merge lt xs ys) = set xs \<union> set ys"
  by (induction lt xs ys rule: std_merge.induct) auto

lemma inv_merge:
  "flat_inv C xs \<Longrightarrow> flat_inv C ys \<Longrightarrow> \<forall>x \<in> set xs. \<forall>y \<in> set ys. value_comp C x y \<or> value_comp C y x \<Longrightarrow>
     flat_inv C (std_merge (value_comp C) xs ys)"
proof (induction "value_comp C" xs ys rule: std_merge.induct)
  case (3 x xs y ys)
  show ?case
  proof (cases "value_comp C y x")
    case True
    have "value_comp C y z" if "z \<in> set (x # xs) \<union> set ys" for z
      using that True "3.prems"(1,2) vc_trans [OF True, of z] by (auto simp: flat_inv_def)
    with True "3.hyps"(1) "3.prems" show ?thesis by (simp add: flat_inv_def)
  next
    case False
    with "3.prems"(3) have xy: "value_comp C x y" by auto
    have "value_comp C x z" if "z \<in> set xs \<union> set (y # ys)" for z
      using that xy "3.prems"(1,2) vc_trans [OF xy, of z] by (auto simp: flat_inv_def)
    with False "3.hyps"(2) "3.prems" show ?thesis by (simp add: flat_inv_def)
  qed
qed simp_all

lemma merge_prefix:
  "\<forall>x \<in> set A. \<forall>y \<in> set ys. value_comp C x y \<Longrightarrow> std_merge (value_comp C) (A @ xs) ys = A @ std_merge (value_comp C) xs ys"
proof (induction A)
  case (Cons a A)
  show ?case
  proof (cases ys)
    case Nil
    then show ?thesis by (cases xs) simp_all
  next
    case (Cons y ys')
    with Cons.prems vc_asym have "\<not> value_comp C y a" by simp
    with Cons Cons.IH Cons.prems show ?thesis by simp
  qed
qed simp

lemma view_iff: "flat_inv C t \<Longrightarrow> view C t k = Some v \<longleftrightarrow> v \<in> set t \<and> has_key C k v"
  using view_has_key view_member view_equiv_key by metis

lemma view_eq_by_elements:
  assumes "flat_inv C t" "\<And>v. r = Some v \<longleftrightarrow> v \<in> set t \<and> has_key C k v"
  shows "view C t k = r"
proof -
  have "view C t k = Some v \<longleftrightarrow> r = Some v" for v using view_iff [OF assms(1), of k v] assms(2) [of v] by simp
  then show ?thesis by (metis not_None_eq)
qed

lemma view_merge:
  assumes "flat_inv C xs" "flat_inv C ys" "\<forall>x \<in> set xs. \<forall>y \<in> set ys. value_comp C x y \<or> value_comp C y x"
  shows "view C (std_merge (value_comp C) xs ys) k = (case view C xs k of Some v \<Rightarrow> Some v | None \<Rightarrow> view C ys k)"
proof (rule view_eq_by_elements [OF inv_merge [OF assms]])
  fix v
  have "\<not> (x \<in> set xs \<and> has_key C k x \<and> y \<in> set ys \<and> has_key C k y)" for x y
    using assms(3) vc_apart by blast
  then show "(case view C xs k of Some v \<Rightarrow> Some v | None \<Rightarrow> view C ys k) = Some v \<longleftrightarrow>
      v \<in> set (std_merge (value_comp C) xs ys) \<and> has_key C k v"
    using view_iff [OF assms(1), of k] view_iff [OF assms(2), of k] by (cases "view C xs k") auto
qed

end

section \<open>Inserting a range\<close>

context flat_order
begin

abbreviation is_new :: "'v list \<Rightarrow> 'v \<Rightarrow> bool" where
  "is_new t x \<equiv> view C t (key_of x) = None"

lemma append_position:
  assumes inv: "flat_inv C old"
  shows "partition_point (\<lambda>v. value_comp C v x) old = lower_bound C (key_of x) old"
    and "(lower_bound C (key_of x) old = length old \<or> value_comp C x (old ! lower_bound C (key_of x) old)) = is_new old x"
proof -
  show "partition_point (\<lambda>v. value_comp C v x) old = lower_bound C (key_of x) old"
    by (simp add: lower_bound_def value_comp_simp)
  obtain A E B where s: "old = A @ E @ B" "\<forall>w \<in> set E. has_key C (key_of x) w"
    "\<forall>w \<in> set B. klt (key_of x) (key_of w)" "E = [] \<or> (\<exists>w. E = [w])" "lower_bound C (key_of x) old = length A"
    "view C old (key_of x) = (case E of [] \<Rightarrow> None | w # _ \<Rightarrow> Some w)" by (rule flat_cases [OF inv])
  then show "(lower_bound C (key_of x) old = length old \<or> value_comp C x (old ! lower_bound C (key_of x) old)) = is_new old x"
    by (cases B) (auto simp: nth_append value_comp_simp has_key_def)
qed

lemma append_unique_run:
  assumes "flat_inv C old"
  shows "append_unique C (length old) x (old @ ys) =
    ((lower_bound C (key_of x) old, is_new old x), old @ ys @ (if is_new old x then [x] else []))"
proof -
  have "lower_bound C (key_of x) old \<le> length old" by (simp add: lower_bound_def partition_point_def length_takeWhile_le)
  with append_position [OF assms, of x] show ?thesis
    by (cases "lower_bound C (key_of x) old = length old") (auto simp: append_unique_def Let_def nth_append)
qed

lemma append_or_assign_run:
  fixes x :: 'v
  assumes inv: "flat_inv C old"
  defines "old' \<equiv> (if is_new old x then old else old[lower_bound C (key_of x) old := x])"
  shows "append_or_assign C (length old) x (old @ ys) =
      ((lower_bound C (key_of x) old, is_new old x), old' @ ys @ (if is_new old x then [x] else []))"
    and "flat_inv C old'" "length old' = length old"
    and "view C old' k = (if has_key C k x \<and> \<not> is_new old x then Some x else view C old k)"
    and "lower_bound C k old' = lower_bound C k old"
proof -
  have le: "lower_bound C (key_of x) old \<le> length old" by (simp add: lower_bound_def partition_point_def length_takeWhile_le)
  with append_position [OF inv, of x] show "append_or_assign C (length old) x (old @ ys) =
      ((lower_bound C (key_of x) old, is_new old x), old' @ ys @ (if is_new old x then [x] else []))"
    by (cases "lower_bound C (key_of x) old = length old")
       (auto simp: append_or_assign_def Let_def nth_append list_update_append old'_def)
  show "length old' = length old" by (simp add: old'_def)
  obtain A E B where s: "old = A @ E @ B" "\<forall>w \<in> set A. klt (key_of w) (key_of x)" "\<forall>w \<in> set E. has_key C (key_of x) w"
    "\<forall>w \<in> set B. klt (key_of x) (key_of w)" "E = [] \<or> (\<exists>w. E = [w])" "lower_bound C (key_of x) old = length A"
    "view C old (key_of x) = (case E of [] \<Rightarrow> None | w # _ \<Rightarrow> Some w)" by (rule flat_cases [OF inv])
  have E: "is_new old x \<longleftrightarrow> E = []" using s(7) by (cases E) auto
  have upd: "old' = A @ x # B" if "\<not> is_new old x" using that s(1,5,6) E by (auto simp: old'_def list_update_append)
  show "flat_inv C old'"
    using inv upd inv_insert [of A E B x] s(1,2,4) by (cases "is_new old x") (simp_all add: old'_def)
  show "view C old' k = (if has_key C k x \<and> \<not> is_new old x then Some x else view C old k)"
    using upd view_insert [OF s(2,4,3), of k] s(1) by (cases "is_new old x") (simp_all add: old'_def)
  show "lower_bound C k old' = lower_bound C k old"
  proof (cases "is_new old x")
    case False
    then obtain w where w: "E = [w]" "has_key C (key_of x) w" using E s(3,5) by auto
    then have "klt (key_of x) k = klt (key_of w) k" using not_klt_trans unfolding has_key_def by blast
    then show ?thesis unfolding upd [OF False] using w s(1)
      by (simp add: lower_bound_def partition_point_def takeWhile_append)
  qed (simp add: old'_def)
qed

end

context flat_order
begin

text \<open>What the appending loops leave: the old part, possibly with new values, the elements whose
  key is new, and a position before which no new element belongs.\<close>

lemma append_loop_unique:
  assumes "flat_inv C old"
  shows "\<exists>pos'. append_loop (append_unique C (length old)) xs pos (old @ ys) = (pos', old @ ys @ filter (is_new old) xs) \<and>
    pos' \<le> pos \<and> (\<forall>x \<in> set (filter (is_new old) xs). pos' \<le> lower_bound C (key_of x) old)"
proof (induction xs arbitrary: pos ys)
  case (Cons x xs)
  let ?pos = "if is_new old x then min pos (lower_bound C (key_of x) old) else pos"
  obtain pos' where "append_loop (append_unique C (length old)) xs ?pos (old @ ys @ (if is_new old x then [x] else [])) =
      (pos', old @ (ys @ (if is_new old x then [x] else [])) @ filter (is_new old) xs)" "pos' \<le> ?pos"
    "\<forall>x \<in> set (filter (is_new old) xs). pos' \<le> lower_bound C (key_of x) old"
    using Cons.IH [of ?pos "ys @ (if is_new old x then [x] else [])"] by auto
  then show ?case using append_unique_run [OF assms, of x ys] by (auto split: if_splits)
qed simp

lemma append_loop_assign:
  assumes "flat_inv C old"
  shows "\<exists>pos' old'. append_loop (append_or_assign C (length old)) xs pos (old @ ys) = (pos', old' @ ys @ filter (is_new old) xs) \<and>
    pos' \<le> pos \<and> (\<forall>x \<in> set (filter (is_new old) xs). pos' \<le> lower_bound C (key_of x) old) \<and>
    length old' = length old \<and> flat_inv C old' \<and> (\<forall>k. lower_bound C k old' = lower_bound C k old) \<and>
    (\<forall>k. view C old' k = (if view C old k = None then None
                            else case view C (rev xs) k of Some v \<Rightarrow> Some v | None \<Rightarrow> view C old k))"
  using assms
proof (induction xs arbitrary: pos ys old)
  case Nil
  then show ?case by (auto simp: view_def)
next
  case (Cons x xs)
  let ?old = "if is_new old x then old else old[lower_bound C (key_of x) old := x]"
  let ?pos = "if is_new old x then min pos (lower_bound C (key_of x) old) else pos"
  note run = append_or_assign_run [OF Cons.prems, where x = x]
  have none: "view C ?old k = None \<longleftrightarrow> view C old k = None" for k
    using run(4) [where k = k] view_equiv_key [of k x old] by (auto split: if_splits)
  then have same: "filter (is_new ?old) xs = filter (is_new old) xs" by simp
  from Cons.IH [OF run(2), of ?pos "ys @ (if is_new old x then [x] else [])", unfolded same run(3) run(5)]
  obtain pos' old' where ih: "append_loop (append_or_assign C (length old)) xs ?pos (?old @ ys @ (if is_new old x then [x] else [])) =
      (pos', old' @ (ys @ (if is_new old x then [x] else [])) @ filter (is_new old) xs)" "pos' \<le> ?pos"
    "\<forall>x \<in> set (filter (is_new old) xs). pos' \<le> lower_bound C (key_of x) old"
    "length old' = length old" "flat_inv C old'" "\<forall>k. lower_bound C k old' = lower_bound C k old"
    "\<forall>k. view C old' k = (if view C ?old k = None then None
       else case view C (rev xs) k of Some v \<Rightarrow> Some v | None \<Rightarrow> view C ?old k)"
    by (elim exE conjE) simp
  have "view C old' k = (if view C old k = None then None
      else case view C (rev (x # xs)) k of Some v \<Rightarrow> Some v | None \<Rightarrow> view C old k)" for k
  proof -
    have rev: "view C (rev (x # xs)) k = (case view C (rev xs) k of Some v \<Rightarrow> Some v | None \<Rightarrow> if has_key C k x then Some x else None)"
      by (simp add: view_def find_append split: option.split)
    have "has_key C k x \<Longrightarrow> is_new old x \<longleftrightarrow> view C old k = None" using view_equiv_key [of k x old] by simp
    then show ?thesis unfolding rev ih(7) [rule_format] none run(4) by (auto split: option.split)
  qed
  then show ?case
    using ih(1-6) run(1) [where ys = ys] by (intro exI [of _ pos'] exI [of _ old']) (auto split: if_splits)
qed

end

context flat_order
begin

lemma below_lower_bound:
  assumes "x \<in> set (take n t)" "n \<le> lower_bound C k t"
  shows "klt (key_of x) k"
proof -
  have "x \<in> set (take (length (takeWhile (\<lambda>v. klt (key_of v) k) t)) t)"
    using assms set_take_subset_set_take [of n _ t] by (auto simp: lower_bound_def partition_point_def)
  then have "x \<in> set (takeWhile (\<lambda>v. klt (key_of v) k) t)" by (simp flip: takeWhile_eq_take)
  then show ?thesis using set_takeWhileD by fast
qed

lemma batch_merge:
  fixes dupes :: FlatContainerDupes
  assumes old': "flat_inv C old'" "length old' = length old" and keys: "\<And>k. view C old' k = None \<longleftrightarrow> view C old k = None"
    and pos: "pos \<le> length old" "\<forall>x \<in> set (filter (is_new old) xs). pos \<le> lower_bound C (key_of x) old'"
  defines "fresh \<equiv> sort_and_unique C dupes (filter (is_new old) xs)"
  defines "result \<equiv> take pos (old' @ filter (is_new old) xs) @ std_merge (value_comp C) (drop pos old') fresh"
  shows "flat_inv C result" and "view C result k = (case view C old' k of Some v \<Rightarrow> Some v | None \<Rightarrow> view C (chosen dupes xs) k)"
proof -
  note su = sort_and_unique_spec [of dupes "filter (is_new old) xs", folded fresh_def]
  have new: "is_new old' y" if "y \<in> set fresh" for y using su that keys by auto
  have apart: "\<forall>x \<in> set old'. \<forall>y \<in> set fresh. value_comp C x y \<or> value_comp C y x"
  proof (intro ballI)
    fix x y
    assume x: "x \<in> set old'" and y: "y \<in> set fresh"
    show "value_comp C x y \<or> value_comp C y x"
    proof (rule ccontr)
      assume "\<not> ?thesis"
      then have "has_key C (key_of y) x" by (simp add: value_comp_simp has_key_def)
      with x new [OF y] view_iff [OF old'(1), of "key_of y" x] show False by simp
    qed
  qed
  have "\<forall>x \<in> set (take pos old'). \<forall>y \<in> set fresh. value_comp C x y"
  proof (intro ballI)
    fix x y
    assume "x \<in> set (take pos old')" "y \<in> set fresh"
    with su pos(2) below_lower_bound [of x pos old' "key_of y"] show "value_comp C x y" by (auto simp: value_comp_simp)
  qed
  from merge_prefix [OF this, of "drop pos old'"] have result: "result = std_merge (value_comp C) old' fresh"
    using pos(1) old'(2) by (simp add: result_def)
  show "flat_inv C result" unfolding result using inv_merge [OF old'(1) _ apart] su by blast
  have "view C fresh k = view C (chosen dupes xs) k" if "view C old k = None"
  proof -
    have "filter (has_key C k) (filter (is_new old) xs) = filter (has_key C k) xs"
      using that view_equiv_key by (auto simp: filter_filter intro!: filter_cong)
    then have "view C (chosen dupes (filter (is_new old) xs)) k = view C (chosen dupes xs) k"
      by (cases dupes) (simp_all add: view_def find_filter flip: rev_filter)
    then show ?thesis using su by simp
  qed
  then show "view C result k = (case view C old' k of Some v \<Rightarrow> Some v | None \<Rightarrow> view C (chosen dupes xs) k)"
    unfolding result using view_merge [OF old'(1) _ apart] su keys [of k] by (auto split: option.split)
qed

lemma fold_insert_spec:
  "flat_inv C t \<Longrightarrow> flat_inv C (fold (\<lambda>x t. snd (flat_insert C x t)) xs t) \<and>
     view C (fold (\<lambda>x t. snd (flat_insert C x t)) xs t) k = (case view C t k of Some w \<Rightarrow> Some w | None \<Rightarrow> view C xs k)"
proof (induction xs arbitrary: t)
  case Nil
  then show ?case by (simp add: view_def split: option.split)
next
  case (Cons x xs)
  show ?case
    using Cons.IH [OF flat_insert_spec(1) [OF Cons.prems, of x]] flat_insert_spec(2) [OF Cons.prems, of x k]
    by (auto simp: view_def split: option.splits)
qed

lemma fold_assign_spec:
  "flat_inv C t \<Longrightarrow> flat_inv C (fold (\<lambda>x t. snd (flat_insert_or_assign C x t)) xs t) \<and>
     view C (fold (\<lambda>x t. snd (flat_insert_or_assign C x t)) xs t) k = (case view C (rev xs) k of Some w \<Rightarrow> Some w | None \<Rightarrow> view C t k)"
proof (induction xs arbitrary: t)
  case Nil
  then show ?case by (simp add: view_def)
next
  case (Cons x xs)
  have "view C (rev (x # xs)) k = (case view C (rev xs) k of Some v \<Rightarrow> Some v | None \<Rightarrow> if has_key C k x then Some x else None)"
    by (simp add: view_def find_append split: option.split)
  then show ?case
    using Cons.IH [OF flat_insert_or_assign_spec(1) [OF Cons.prems, of x]] flat_insert_or_assign_spec(2) [OF Cons.prems, of x k]
    by (auto split: option.splits)
qed

lemma insert_or_assign_loop_fold: "insert_or_assign_loop C xs t = fold (\<lambda>x t. snd (flat_insert_or_assign C x t)) xs t"
  by (induction xs arbitrary: t) simp_all

abbreviation one_by_one :: "FlatContainerDupes \<Rightarrow> 'v list \<Rightarrow> 'v list \<Rightarrow> 'v list" where
  "one_by_one dupes xs t \<equiv>
     fold (\<lambda>x t. snd (if dupes = KEEP_FIRST_OF_DUPES then flat_insert C x t else flat_insert_or_assign C x t)) xs t"

lemma insert_range_one_by_one:
  assumes inv: "flat_inv C t"
  shows "flat_insert_range C multi xs dupes t = one_by_one dupes xs t"
proof -
  consider "xs = []" | x where "xs = [x]" multi | "xs \<noteq> []" "\<not> (multi \<and> length xs = 1)"
    by (cases xs; cases "tl xs") auto
  then show ?thesis
  proof cases
    case 1
    then show ?thesis by (simp add: flat_insert_range_def)
  next
    case 2
    then show ?thesis
      using flat_insert_hint_eq [OF inv, of "length t" x]
      by (cases dupes) (simp_all add: flat_insert_range_def flat_end_def)
  next
    case 3
    let ?new = "filter (is_new t) xs"
    show ?thesis
    proof (cases dupes)
      case KEEP_FIRST_OF_DUPES
      obtain pos where pos: "append_loop (append_unique C (length t)) xs (length t) t = (pos, t @ ?new)" "pos \<le> length t"
        "\<forall>x \<in> set ?new. pos \<le> lower_bound C (key_of x) t"
        using append_loop_unique [OF inv, of xs "length t" "[]"] by auto
      note bm = batch_merge [OF inv refl refl pos(2,3), where dupes = dupes]
      have run: "flat_insert_range C multi xs dupes t =
          take pos (t @ ?new) @ std_merge (value_comp C) (drop pos t) (sort_and_unique C dupes ?new)"
        using 3 pos(1) KEEP_FIRST_OF_DUPES by (auto simp: flat_insert_range_def flat_size_def Let_def)
      show ?thesis
        unfolding run using bm fold_insert_spec [OF inv, of xs] KEEP_FIRST_OF_DUPES by (intro flat_inv_ext) (simp_all split: option.split)
    next
      case KEEP_LAST_OF_DUPES
      obtain pos old' where l: "append_loop (append_or_assign C (length t)) xs (length t) t = (pos, old' @ ?new)" "pos \<le> length t"
        "\<forall>x \<in> set ?new. pos \<le> lower_bound C (key_of x) old'" "length old' = length t" "flat_inv C old'"
        "\<forall>k. view C old' k = (if view C t k = None then None else case view C (rev xs) k of Some v \<Rightarrow> Some v | None \<Rightarrow> view C t k)"
        using append_loop_assign [OF inv, of xs "length t" "[]"] by (elim exE conjE) simp
      have keys: "view C old' k = None \<longleftrightarrow> view C t k = None" for k using l(6) by (auto split: option.split)
      note bm = batch_merge [OF l(5,4) keys l(2,3), where dupes = dupes]
      have run: "flat_insert_range C multi xs dupes t =
          take pos (old' @ ?new) @ std_merge (value_comp C) (drop pos old') (sort_and_unique C dupes ?new)"
        using 3 l(1,4) KEEP_LAST_OF_DUPES by (auto simp: flat_insert_range_def flat_size_def Let_def)
      have "view C (flat_insert_range C multi xs dupes t) k = (case view C (rev xs) k of Some w \<Rightarrow> Some w | None \<Rightarrow> view C t k)" for k
        unfolding run bm(2) l(6) [rule_format] using KEEP_LAST_OF_DUPES by (auto split: option.split)
      with bm(1) fold_assign_spec [OF inv, of xs] KEEP_LAST_OF_DUPES run show ?thesis by (intro flat_inv_ext) simp_all
    qed
  qed
qed

lemma flat_inv_Nil [simp]: "flat_inv C []"
  by (simp add: flat_inv_def)

lemma sort_and_unique_one_by_one: "sort_and_unique C dupes xs = one_by_one dupes xs []"
proof (rule flat_inv_ext)
  show "flat_inv C (sort_and_unique C dupes xs)" using sort_and_unique_spec by blast
  show "flat_inv C (one_by_one dupes xs [])" using fold_insert_spec [of "[]" xs] fold_assign_spec [of "[]" xs] by (cases dupes) simp_all
  fix k
  show "view C (sort_and_unique C dupes xs) k = view C (one_by_one dupes xs []) k"
    using sort_and_unique_spec [of dupes xs k] fold_insert_spec [of "[]" xs k] fold_assign_spec [of "[]" xs k]
    by (cases dupes) (simp_all add: view_def split: option.split)
qed

end

end
