(* ===== verification/Flat_Map.thy ===== *)
theory Flat_Map
  imports Flat_Batch Container_Spec
begin

text \<open>
  \<open>base::flat_map\<close> (\<open>base/containers/flat_map.h\<close>) on top of \<open>flat_tree\<close>, and the properties of both. A
  \<open>flat_map\<close> whose keys are compared by \<open>std::less\<close> refines a finite map for sequences of operations; for
  any strict weak order, searching, hints and batch insertion are characterised on the tree.
\<close>

section \<open>The class\<close>

definition map_cfg :: "('k \<Rightarrow> 'k \<Rightarrow> bool) \<Rightarrow> ('k, 'k \<times> 'm) flat_cfg" where
  "map_cfg lt = \<lparr>key_comp = lt, GetKeyFromValue = fst\<rparr>"

definition set_cfg :: "('k \<Rightarrow> 'k \<Rightarrow> bool) \<Rightarrow> ('k, 'k) flat_cfg" where
  "set_cfg lt = \<lparr>key_comp = lt, GetKeyFromValue = (\<lambda>k. k)\<rparr>"

definition map_subscript :: "('k \<Rightarrow> 'k \<Rightarrow> bool) \<Rightarrow> 'm \<Rightarrow> 'k \<Rightarrow> ('k \<times> 'm) list \<Rightarrow> nat \<times> ('k \<times> 'm) list" where
  \<comment> \<open>the second argument is \<open>mapped_type()\<close>; the result refers to the second component at the index\<close>
  "map_subscript lt mapped key t =
     (let found = lower_bound (map_cfg lt) key t
      in if found = flat_end t \<or> lt key (fst (t ! found)) then unsafe_emplace found (key, mapped) t else (found, t))"

definition map_insert_or_assign :: "('k \<Rightarrow> 'k \<Rightarrow> bool) \<Rightarrow> 'k \<Rightarrow> 'm \<Rightarrow> ('k \<times> 'm) list \<Rightarrow> (nat \<times> bool) \<times> ('k \<times> 'm) list" where
  "map_insert_or_assign lt key obj t =
     (let (result, t') = emplace_key_args (map_cfg lt) key (key, obj) t
      in (result, if \<not> snd result then t'[fst result := (fst (t' ! fst result), obj)] else t'))"

definition map_insert_or_assign_hint :: "('k \<Rightarrow> 'k \<Rightarrow> bool) \<Rightarrow> nat \<Rightarrow> 'k \<Rightarrow> 'm \<Rightarrow> ('k \<times> 'm) list \<Rightarrow> nat \<times> ('k \<times> 'm) list" where
  "map_insert_or_assign_hint lt hint key obj t =
     (let (result, t') = emplace_hint_key_args (map_cfg lt) hint key (key, obj) t
      in (fst result, if \<not> snd result then t'[fst result := (fst (t' ! fst result), obj)] else t'))"

definition try_emplace :: "('k \<Rightarrow> 'k \<Rightarrow> bool) \<Rightarrow> 'k \<Rightarrow> 'm \<Rightarrow> ('k \<times> 'm) list \<Rightarrow> (nat \<times> bool) \<times> ('k \<times> 'm) list" where
  "try_emplace lt key obj t = emplace_key_args (map_cfg lt) key (key, obj) t"

definition try_emplace_hint :: "('k \<Rightarrow> 'k \<Rightarrow> bool) \<Rightarrow> nat \<Rightarrow> 'k \<Rightarrow> 'm \<Rightarrow> ('k \<times> 'm) list \<Rightarrow> nat \<times> ('k \<times> 'm) list" where
  "try_emplace_hint lt hint key obj t =
     (let (result, t') = emplace_hint_key_args (map_cfg lt) hint key (key, obj) t in (fst result, t'))"

definition flat_map_range :: "('k \<Rightarrow> 'k \<Rightarrow> bool) \<Rightarrow> ('k \<times> 'm) list \<Rightarrow> FlatContainerDupes \<Rightarrow> ('k \<times> 'm) list" where
  "flat_map_range lt xs dupe_handling = flat_tree_range (map_cfg lt) xs dupe_handling"

definition flat_map_items :: "('k \<Rightarrow> 'k \<Rightarrow> bool) \<Rightarrow> ('k \<times> 'm) list \<Rightarrow> FlatContainerDupes \<Rightarrow> ('k \<times> 'm) list" where
  "flat_map_items lt items dupe_handling = flat_tree_items (map_cfg lt) items dupe_handling"

definition flat_map_init :: "('k \<Rightarrow> 'k \<Rightarrow> bool) \<Rightarrow> ('k \<times> 'm) list \<Rightarrow> FlatContainerDupes \<Rightarrow> ('k \<times> 'm) list" where
  "flat_map_init lt ilist dupe_handling = flat_map_range lt ilist dupe_handling"

definition flat_map_assign :: "('k \<Rightarrow> 'k \<Rightarrow> bool) \<Rightarrow> ('k \<times> 'm) list \<Rightarrow> ('k \<times> 'm) list" where
  "flat_map_assign lt ilist = flat_assign (map_cfg lt) ilist"

section \<open>Keys compared by std::less\<close>

lemma strict_weak_less: "strict_weak_ordering ((<) :: 'k::linorder \<Rightarrow> 'k \<Rightarrow> bool)"
  by (auto simp: strict_weak_ordering_def)

interpretation less_map: flat_order "map_cfg ((<) :: 'k::linorder \<Rightarrow> 'k \<Rightarrow> bool)"
  by unfold_locales (simp add: map_cfg_def strict_weak_less)

interpretation less_set: flat_order "set_cfg ((<) :: 'k::linorder \<Rightarrow> 'k \<Rightarrow> bool)"
  by unfold_locales (simp add: set_cfg_def strict_weak_less)

lemma map_cfg_simps [simp]: "key_comp (map_cfg lt) = lt" "GetKeyFromValue (map_cfg lt) = fst"
  by (simp_all add: map_cfg_def)

lemma has_key_less [simp]: "has_key (map_cfg (<)) k v \<longleftrightarrow> fst v = k" for k :: "'k::linorder"
  by (auto simp: has_key_def)

lemma view_map_of: "view (map_cfg (<)) t k = map_option (Pair k) (map_of t k)" for k :: "'k::linorder"
  unfolding view_def by (induction t) auto

lemma view_None_map_of [simp]: "view (map_cfg (<)) t k = None \<longleftrightarrow> map_of t k = None" for k :: "'k::linorder"
  by (simp add: view_map_of)

definition map_rep :: "('k::linorder \<times> 'm) list \<Rightarrow> ('k \<Rightarrow> 'm option) \<Rightarrow> bool" where
  "map_rep t m \<longleftrightarrow> flat_inv (map_cfg (<)) t \<and> map_of t = m"

lemma map_repI:
  assumes "flat_inv (map_cfg (<)) t" "\<And>k. view (map_cfg (<)) t k = map_option (Pair k) (m k)"
  shows "map_rep t m"
proof -
  have "map_of t k = m k" for k using assms(2) [of k] by (cases "map_of t k"; cases "m k") (auto simp: view_map_of)
  then show ?thesis using assms(1) by (auto simp: map_rep_def)
qed

lemma map_rep_view: "map_rep t m \<Longrightarrow> flat_inv (map_cfg (<)) t \<and> view (map_cfg (<)) t k = map_option (Pair k) (m k)"
  by (auto simp: map_rep_def view_map_of)

definition subscript_store :: "('k \<Rightarrow> 'k \<Rightarrow> bool) \<Rightarrow> 'm \<Rightarrow> 'k \<Rightarrow> 'm \<Rightarrow> ('k \<times> 'm) list \<Rightarrow> ('k \<times> 'm) list" where
  \<comment> \<open>a client's \<open>m[key] = obj\<close>\<close>
  "subscript_store lt mapped key obj t = (let (it, t') = map_subscript lt mapped key t in t'[it := (fst (t' ! it), obj)])"

lemma map_split:
  fixes t :: "('k::linorder \<times> 'm) list"
  assumes "map_rep t m"
  obtains A E B where "t = A @ E @ B" "E = [] \<or> (\<exists>w. E = [(k, w)])" "lower_bound (map_cfg (<)) k t = length A"
    "m k = (case E of [] \<Rightarrow> None | w # _ \<Rightarrow> Some (snd w))" "\<And>obj. map_rep (A @ (k, obj) # B) (m(k \<mapsto> obj))"
    "E = [] \<Longrightarrow> B = [] \<or> k < fst (hd B)"
    "\<And>v. emplace_key_args (map_cfg (<)) k v t = (if E = [] then ((length A, True), A @ v # B) else ((length A, False), t))"
proof -
  have inv: "flat_inv (map_cfg (<)) t" using assms by (simp add: map_rep_def)
  obtain A E B where s: "t = A @ E @ B" "\<forall>w \<in> set A. fst w < k" "\<forall>w \<in> set E. fst w = k" "\<forall>w \<in> set B. k < fst w"
    "view (map_cfg (<)) t k = (case E of [] \<Rightarrow> None | w # _ \<Rightarrow> Some w)"
    "E = [] \<or> (\<exists>w. E = [w])" "lower_bound (map_cfg (<)) k t = length A"
    by (rule less_map.emplace_key_args_cases [OF inv, where k = k]) auto
  have E: "E = [] \<or> (\<exists>w. E = [(k, w)])" using s(3,6) by auto
  have emplace: "emplace_key_args (map_cfg (<)) k v t = (if E = [] then ((length A, True), A @ v # B) else ((length A, False), t))" for v
    using s(4,6,7) E by (cases B) (auto simp: emplace_key_args_def unsafe_emplace_def flat_end_def Let_def s(1) nth_append)
  have rep: "map_rep (A @ (k, obj) # B) (m(k \<mapsto> obj))" for obj
  proof (rule map_repI)
    show "flat_inv (map_cfg (<)) (A @ (k, obj) # B)"
      using less_map.inv_insert [of A E B "(k, obj)"] inv s(1,2,4) by simp
    show "view (map_cfg (<)) (A @ (k, obj) # B) k' = map_option (Pair k') ((m(k \<mapsto> obj)) k')" for k'
      using less_map.view_insert [of A "(k, obj)" B E k'] map_rep_view [OF assms, of k'] s(1-4) by auto
  qed
  have "m k = (case E of [] \<Rightarrow> None | w # _ \<Rightarrow> Some (snd w))"
    using s(5) E map_rep_view [OF assms, of k] by (auto simp: map_option_case split: option.splits)
  with s(1,4,7) E emplace rep show thesis by (intro that [of A E B]) (auto split: list.splits, metis list.set_sel(1))
qed

lemma map_insert_or_assign_rep:
  fixes t :: "('k::linorder \<times> 'm) list"
  assumes "map_rep t m"
  shows "map_rep (snd (map_insert_or_assign (<) k obj t)) (m(k \<mapsto> obj))"
    and "snd (fst (map_insert_or_assign (<) k obj t)) \<longleftrightarrow> m k = None"
    and "map_rep (subscript_store (<) mapped k obj t) (m(k \<mapsto> obj))"
    and "map_rep (snd (map_subscript (<) mapped k t)) (if m k = None then m(k \<mapsto> mapped) else m)"
    and "map_rep (snd (try_emplace (<) k obj t)) (if m k = None then m(k \<mapsto> obj) else m)"
proof -
  obtain A E B where s: "t = A @ E @ B" "E = [] \<or> (\<exists>w. E = [(k, w)])" "lower_bound (map_cfg (<)) k t = length A"
    "m k = (case E of [] \<Rightarrow> None | w # _ \<Rightarrow> Some (snd w))" "\<And>obj. map_rep (A @ (k, obj) # B) (m(k \<mapsto> obj))"
    "E = [] \<Longrightarrow> B = [] \<or> k < fst (hd B)"
    "\<And>v. emplace_key_args (map_cfg (<)) k v t = (if E = [] then ((length A, True), A @ v # B) else ((length A, False), t))"
    using map_split [OF assms, of k] by blast
  have "snd (map_insert_or_assign (<) k obj t) = A @ (k, obj) # B"
    unfolding map_insert_or_assign_def s(7) using s(1,2) by (auto simp: list_update_append nth_append)
  then show "map_rep (snd (map_insert_or_assign (<) k obj t)) (m(k \<mapsto> obj))" using s(5) by simp
  show "snd (fst (map_insert_or_assign (<) k obj t)) \<longleftrightarrow> m k = None"
    using s(2,4) by (auto simp: map_insert_or_assign_def s(7))
  have sub: "map_subscript (<) mapped k t = (length A, if E = [] then A @ (k, mapped) # B else t)"
    unfolding map_subscript_def Let_def s(3) using s(2,6) by (cases B) (auto simp: unsafe_emplace_def flat_end_def s(1) nth_append)
  have "subscript_store (<) mapped k obj t = A @ (k, obj) # B"
    unfolding subscript_store_def sub using s(1,2) by (auto simp: list_update_append nth_append)
  then show "map_rep (subscript_store (<) mapped k obj t) (m(k \<mapsto> obj))" using s(5) by simp
  show "map_rep (snd (map_subscript (<) mapped k t)) (if m k = None then m(k \<mapsto> mapped) else m)"
    using s(2,4,5) assms by (auto simp: sub)
  show "map_rep (snd (try_emplace (<) k obj t)) (if m k = None then m(k \<mapsto> obj) else m)"
    using s(2,4,5) assms by (auto simp: try_emplace_def s(7))
qed

lemma erase_rep:
  fixes t :: "('k::linorder \<times> 'm) list"
  assumes "map_rep t m"
  shows "map_rep (snd (flat_erase (map_cfg (<)) k t)) (m(k := None))"
    and "fst (flat_erase (map_cfg (<)) k t) = (if m k = None then 0 else 1)"
proof -
  have inv: "flat_inv (map_cfg (<)) t" using assms by (simp add: map_rep_def)
  obtain A E B where s: "t = A @ E @ B" "\<forall>w \<in> set A. fst w < k" "\<forall>w \<in> set E. fst w = k" "\<forall>w \<in> set B. k < fst w"
    "E = [] \<or> (\<exists>w. E = [w])" "equal_range (map_cfg (<)) k t = (length A, length A + length E)"
    by (rule less_map.flat_cases [OF inv, where k = k]) auto
  have er: "flat_erase (map_cfg (<)) k t = (length E, A @ B)"
    by (simp add: flat_erase_def Let_def s(6) flat_erase_range_def) (simp add: s(1))
  have "map_of (A @ B) = m(k := None)"
  proof
    fix k'
    have "map_of A k = None" "map_of B k = None" using s(2,4) by (auto simp: map_of_eq_None_iff)
    then show "map_of (A @ B) k' = (m(k := None)) k'"
      using assms s(1,3,5) by (auto simp: map_rep_def map_add_def split: option.split)
  qed
  moreover have "flat_inv (map_cfg (<)) (A @ B)" using inv by (auto simp: flat_inv_def s(1) sorted_wrt_append)
  ultimately show "map_rep (snd (flat_erase (map_cfg (<)) k t)) (m(k := None))" by (simp add: er map_rep_def)
  have "map_of A k = None" "map_of B k = None" using s(2,4) by (auto simp: map_of_eq_None_iff)
  then show "fst (flat_erase (map_cfg (<)) k t) = (if m k = None then 0 else 1)"
    unfolding er using assms s(1,3,5) by (auto simp: map_rep_def map_add_def split: option.split)
qed

lemma insert_range_rep:
  fixes t :: "('k::linorder \<times> 'm) list"
  assumes "map_rep t m"
  shows "map_rep (flat_insert_range (map_cfg (<)) multi xs dupes t)
    (case dupes of KEEP_FIRST_OF_DUPES \<Rightarrow> map_of xs ++ m | KEEP_LAST_OF_DUPES \<Rightarrow> m ++ map_of (rev xs))"
proof -
  have inv: "flat_inv (map_cfg (<)) t" using assms by (simp add: map_rep_def)
  have m: "m = map_of t" using assms by (simp add: map_rep_def)
  note run = less_map.insert_range_one_by_one [OF inv, of multi xs dupes]
  show ?thesis
  proof (cases dupes)
    case KEEP_FIRST_OF_DUPES
    note spec = less_map.fold_insert_spec [OF inv, of xs]
    have "flat_insert_range (map_cfg (<)) multi xs dupes t = fold (\<lambda>x t. snd (flat_insert (map_cfg (<)) x t)) xs t"
      using run KEEP_FIRST_OF_DUPES by simp
    moreover have "map_rep (fold (\<lambda>x t. snd (flat_insert (map_cfg (<)) x t)) xs t) (map_of xs ++ m)"
    proof (rule map_repI)
      show "flat_inv (map_cfg (<)) (fold (\<lambda>x t. snd (flat_insert (map_cfg (<)) x t)) xs t)" using spec by blast
      show "view (map_cfg (<)) (fold (\<lambda>x t. snd (flat_insert (map_cfg (<)) x t)) xs t) k = map_option (Pair k) ((map_of xs ++ m) k)" for k
        using spec [of k] by (simp add: m view_map_of map_add_def split: option.splits)
    qed
    ultimately show ?thesis using KEEP_FIRST_OF_DUPES by simp
  next
    case KEEP_LAST_OF_DUPES
    note spec = less_map.fold_assign_spec [OF inv, of xs]
    have "flat_insert_range (map_cfg (<)) multi xs dupes t = fold (\<lambda>x t. snd (flat_insert_or_assign (map_cfg (<)) x t)) xs t"
      using run KEEP_LAST_OF_DUPES by simp
    moreover have "map_rep (fold (\<lambda>x t. snd (flat_insert_or_assign (map_cfg (<)) x t)) xs t) (m ++ map_of (rev xs))"
    proof (rule map_repI)
      show "flat_inv (map_cfg (<)) (fold (\<lambda>x t. snd (flat_insert_or_assign (map_cfg (<)) x t)) xs t)" using spec by blast
      show "view (map_cfg (<)) (fold (\<lambda>x t. snd (flat_insert_or_assign (map_cfg (<)) x t)) xs t) k = map_option (Pair k) ((m ++ map_of (rev xs)) k)" for k
        using spec [of k] by (simp add: m view_map_of map_add_def split: option.splits)
    qed
    ultimately show ?thesis using KEEP_LAST_OF_DUPES by simp
  qed
qed

lemma map_rep_Nil: "map_rep [] Map.empty"
  by (simp add: map_rep_def)

lemma sort_and_unique_rep:
  "map_rep (sort_and_unique (map_cfg (<)) dupes xs) (map_of (case dupes of KEEP_FIRST_OF_DUPES \<Rightarrow> xs | KEEP_LAST_OF_DUPES \<Rightarrow> rev xs))"
  using less_map.sort_and_unique_spec [of dupes xs] by (intro map_repI) (simp_all add: view_map_of)

section \<open>The interface of the map\<close>

datatype ('k, 'm) map_op =
    Subscript 'k 'm
  | InsertOrAssign 'k 'm
  | TryEmplace 'k 'm
  | InsertItems bool "('k \<times> 'm) list" FlatContainerDupes
  | EraseKey 'k
  | EraseItems "'k \<times> 'm \<Rightarrow> bool"
  | AssignItems "('k \<times> 'm) list"
  | ClearItems

fun map_step :: "'m \<Rightarrow> ('k::linorder, 'm) map_op \<Rightarrow> ('k \<times> 'm) list \<Rightarrow> ('k \<times> 'm) list result option" where
  "map_step mapped (Subscript k v) t = Some (Inr (subscript_store (<) mapped k v t))"
| "map_step mapped (InsertOrAssign k v) t = Some (Inr (snd (map_insert_or_assign (<) k v t)))"
| "map_step mapped (TryEmplace k v) t = Some (Inr (snd (try_emplace (<) k v t)))"
| "map_step mapped (InsertItems multi xs dupes) t = Some (Inr (flat_insert_range (map_cfg (<)) multi xs dupes t))"
| "map_step mapped (EraseKey k) t = Some (Inr (snd (flat_erase (map_cfg (<)) k t)))"
| "map_step mapped (EraseItems p) t = Some (Inr (flat_EraseIf p t))"
| "map_step mapped (AssignItems xs) t = Some (Inr (flat_map_assign (<) xs))"
| "map_step mapped ClearItems t = Some (Inr (flat_clear t))"

fun map_spec :: "('k, 'm) map_op \<Rightarrow> ('k \<Rightarrow> 'm option) \<Rightarrow> ('k \<Rightarrow> 'm option) option" where
  "map_spec (Subscript k v) m = Some (m(k \<mapsto> v))"
| "map_spec (InsertOrAssign k v) m = Some (m(k \<mapsto> v))"
| "map_spec (TryEmplace k v) m = Some (if m k = None then m(k \<mapsto> v) else m)"
| "map_spec (InsertItems multi xs dupes) m =
     Some (case dupes of KEEP_FIRST_OF_DUPES \<Rightarrow> map_of xs ++ m | KEEP_LAST_OF_DUPES \<Rightarrow> m ++ map_of (rev xs))"
| "map_spec (EraseKey k) m = Some (m(k := None))"
| "map_spec (EraseItems p) m = Some (\<lambda>k. case m k of None \<Rightarrow> None | Some v \<Rightarrow> if p (k, v) then None else Some v)"
| "map_spec (AssignItems xs) m = Some (map_of xs)"
| "map_spec ClearItems m = Some Map.empty"

lemma inv_distinct: "flat_inv (map_cfg (<)) t \<Longrightarrow> sorted_wrt (<) (map fst t)" for t :: "('k::linorder \<times> 'm) list"
  by (simp add: flat_inv_def value_comp_def [abs_def] sorted_wrt_map)

lemma EraseIf_rep:
  fixes t :: "('k::linorder \<times> 'm) list"
  assumes "map_rep t m"
  shows "map_rep (flat_EraseIf p t) (\<lambda>k. case m k of None \<Rightarrow> None | Some v \<Rightarrow> if p (k, v) then None else Some v)"
proof -
  have inv: "flat_inv (map_cfg (<)) t" and m: "m = map_of t" using assms by (simp_all add: map_rep_def)
  have keep: "flat_inv (map_cfg (<)) (flat_EraseIf p t)"
    using inv sorted_wrt_filter by (auto simp: flat_inv_def flat_EraseIf_def)
  have "distinct (map fst t)" using inv_distinct [OF inv] by (simp add: strict_sorted_iff)
  then have "map_of (filter (\<lambda>v. \<not> p v) t) k = (case map_of t k of None \<Rightarrow> None | Some v \<Rightarrow> if p (k, v) then None else Some v)" for k
  proof (induction t)
    case (Cons x t)
    then show ?case by (cases x) (auto simp: map_of_eq_None_iff [symmetric] split: option.splits)
  qed simp
  then show ?thesis using keep by (auto simp: map_rep_def m flat_EraseIf_def)
qed

lemma map_step_refines:
  assumes "map_rep t m" "map_spec c m = Some m'"
  shows "\<exists>t'. map_step mapped c t = Some (Inr t') \<and> map_rep t' m'"
proof (cases c)
  case (AssignItems xs)
  then show ?thesis
    using assms sort_and_unique_rep [of KEEP_FIRST_OF_DUPES xs] by (simp add: flat_map_assign_def flat_assign_def)
qed (use assms map_insert_or_assign_rep [OF assms(1)] insert_range_rep [OF assms(1)] erase_rep [OF assms(1)]
      EraseIf_rep [OF assms(1)] map_rep_Nil in \<open>auto simp: flat_clear_def\<close>)

interpretation flat_map: refined_container map_rep "map_step mapped" map_spec for mapped
  by unfold_locales (rule map_step_refines)

section \<open>Properties\<close>

lemma nth_in_parts:
  assumes "i < length (A @ E @ B)"
  shows "i < length A \<and> (A @ E @ B) ! i \<in> set A \<or>
    length A \<le> i \<and> i < length A + length E \<and> (A @ E @ B) ! i \<in> set E \<or> length A + length E \<le> i \<and> (A @ E @ B) ! i \<in> set B"
proof -
  consider "i < length A" | j where "i = length A + j" "j < length E" | j where "i = length A + length E + j" "j < length B"
    using assms by (metis add.assoc add_less_cancel_left length_append le_iff_add not_less)
  then show ?thesis by cases (simp_all add: nth_append)
qed



text \<open>Claim C10. For keys in any strict weak order, inserting a range in one batch gives exactly the vector that
    inserting its elements one at a time gives, keeping the element that was there first or
    overwriting it, and so does constructing a container from a range; the result is strictly sorted.\<close>
theorem flat_batch_insert:
  assumes "strict_weak_ordering (key_comp C)" "flat_inv C t"
  shows "flat_insert_range C multi xs KEEP_FIRST_OF_DUPES t = fold (\<lambda>x t. snd (flat_insert C x t)) xs t \<and>
    flat_insert_range C multi xs KEEP_LAST_OF_DUPES t = fold (\<lambda>x t. snd (flat_insert_or_assign C x t)) xs t \<and>
    flat_tree_range C xs KEEP_FIRST_OF_DUPES = fold (\<lambda>x t. snd (flat_insert C x t)) xs flat_tree \<and>
    flat_tree_range C xs KEEP_LAST_OF_DUPES = fold (\<lambda>x t. snd (flat_insert_or_assign C x t)) xs flat_tree \<and>
    flat_inv C (flat_insert_range C multi xs dupes t)"
proof -
  have C: "flat_order C" using assms(1) by (rule flat_order.intro)
  have "flat_inv C (flat_insert_range C multi xs dupes t)"
    using flat_order.insert_range_one_by_one [OF C assms(2), of multi xs dupes] flat_order.fold_insert_spec [OF C assms(2), of xs]
      flat_order.fold_assign_spec [OF C assms(2), of xs] by (cases dupes) simp_all
  then show ?thesis
    using flat_order.insert_range_one_by_one [OF C assms(2)] flat_order.sort_and_unique_one_by_one [OF C]
    by (simp add: flat_tree_range_def flat_tree_def)
qed

theorem flat_batch_insert_witness:
  "flat_insert_range (map_cfg (<)) True [(4, ''c''), (1 :: int, ''d''), (4, ''e'')] KEEP_LAST_OF_DUPES [(1, ''a''), (2, ''b'')] =
     [(1, ''d''), (2, ''b''), (4, ''e'')]"
proof -
  have "strict_weak_ordering (key_comp (map_cfg ((<) :: int \<Rightarrow> int \<Rightarrow> bool)))" by (simp add: strict_weak_less)
  moreover have "flat_inv (map_cfg (<)) [(1 :: int, ''a''), (2, ''b'')]" by (simp add: flat_inv_def value_comp_def)
  ultimately have "flat_insert_range (map_cfg (<)) True [(4, ''c''), (1 :: int, ''d''), (4, ''e'')] KEEP_LAST_OF_DUPES [(1, ''a''), (2, ''b'')] =
      fold (\<lambda>x t. snd (flat_insert_or_assign (map_cfg (<)) x t)) [(4, ''c''), (1, ''d''), (4, ''e'')] [(1, ''a''), (2, ''b'')]"
    using flat_batch_insert [of "map_cfg (<)" "[(1, ''a''), (2, ''b'')]" True "[(4, ''c''), (1, ''d''), (4, ''e'')]"] by blast
  then show ?thesis
    by (simp add: flat_insert_or_assign_def lower_bound_def partition_point_def flat_end_def value_comp_def Let_def)
qed

text \<open>In a strictly sorted vector \<open>lower_bound\<close> and \<open>upper_bound\<close> separate the elements with smaller and
    larger keys, at most one element lies between them, and \<open>count\<close> is their distance. A hint never
    changes what an insertion does, whether it is right, wrong or at either end.\<close>
theorem flat_search_exact:
  assumes "strict_weak_ordering (key_comp C)" "flat_inv C t"
  shows "(\<forall>i < length t. i < lower_bound C k t \<longleftrightarrow> key_comp C (GetKeyFromValue C (t ! i)) k) \<and>
    (\<forall>i < length t. upper_bound C k t \<le> i \<longleftrightarrow> key_comp C k (GetKeyFromValue C (t ! i))) \<and>
    equal_range C k t = (lower_bound C k t, upper_bound C k t) \<and>
    flat_count C k t = upper_bound C k t - lower_bound C k t \<and> flat_count C k t \<le> 1 \<and>
    (\<forall>hint \<le> length t. emplace_hint_key_args C hint k v t = emplace_key_args C k v t)"
proof -
  have C: "flat_order C" using assms(1) by (rule flat_order.intro)
  obtain A E B where s: "t = A @ E @ B" "\<forall>v \<in> set A. key_comp C (GetKeyFromValue C v) k" "\<forall>v \<in> set E. has_key C k v"
    "\<forall>v \<in> set B. key_comp C k (GetKeyFromValue C v)" "E = [] \<or> (\<exists>v. E = [v])" "lower_bound C k t = length A"
    "upper_bound C k t = length A + length E" "equal_range C k t = (length A, length A + length E)"
    by (rule flat_order.flat_cases [OF C assms(2), where k = k])
  note asym = flat_order.klt_asym [OF C]
  have "i < length A \<longleftrightarrow> key_comp C (GetKeyFromValue C (t ! i)) k" "length A + length E \<le> i \<longleftrightarrow> key_comp C k (GetKeyFromValue C (t ! i))"
    if i: "i < length t" for i
  proof -
    consider "t ! i \<in> set A" "i < length A" | "t ! i \<in> set E" "length A \<le> i" "i < length A + length E" | "t ! i \<in> set B" "length A + length E \<le> i"
      using nth_in_parts [of i A E B] i unfolding s(1) by blast
    then show "i < length A \<longleftrightarrow> key_comp C (GetKeyFromValue C (t ! i)) k" "length A + length E \<le> i \<longleftrightarrow> key_comp C k (GetKeyFromValue C (t ! i))"
      by (cases; use s(2-4) asym in \<open>auto simp: has_key_def\<close>)+
  qed
  then show ?thesis
    using s(5-8) flat_order.emplace_hint_eq [OF C assms(2)] by (auto simp: flat_count_def Let_def)
qed

theorem flat_search_exact_witness:
  "flat_count (set_cfg (<)) (4 :: int) [1, 4, 6] \<le> 1 \<and>
   emplace_hint_key_args (set_cfg (<)) 3 (4 :: int) 4 [1, 4, 6] = emplace_key_args (set_cfg (<)) 4 4 [1, 4, 6]"
proof -
  have "strict_weak_ordering (key_comp (set_cfg ((<) :: int \<Rightarrow> int \<Rightarrow> bool)))" by (simp add: set_cfg_def strict_weak_less)
  moreover have "flat_inv (set_cfg (<)) [1, 4, 6 :: int]" by (simp add: flat_inv_def value_comp_def set_cfg_def)
  ultimately show ?thesis using flat_search_exact [of "set_cfg (<)" "[1, 4, 6 :: int]" 4 4] by simp
qed

end
