(* ===== verification/Moving_Max.thy ===== *)
theory Moving_Max
  imports Container_Spec Cpp_Types
begin

text \<open>
  \<open>rtc_base/numerics/moving_max_counter.h\<close>: \<open>MovingMaxCounter<T>\<close>, the maximum of the samples of a moving time
  window. The counter keeps a deque of (time, sample) pairs with increasing times and decreasing
  samples, from which old pairs and pairs that can no longer be a maximum are dropped. Shown: it
  simulates the full history, so \<open>Max\<close> is the maximum of all samples ever added that lie in the window.
\<close>

section \<open>The class\<close>

record 'a MovingMaxCounter =
  mm_window_length_ms :: int
  mm_samples :: "(int \<times> 'a) list"
  mm_last_call_time_ms :: int

definition MovingMaxCounter_ctor :: "int \<Rightarrow> 'a MovingMaxCounter" where
  "MovingMaxCounter_ctor window_length_ms =
     \<lparr>mm_window_length_ms = window_length_ms, mm_samples = [], mm_last_call_time_ms = imin int64_t\<rparr>"

definition RollWindow :: "bool \<Rightarrow> int \<Rightarrow> 'a MovingMaxCounter \<Rightarrow> 'a MovingMaxCounter result" where
  \<comment> \<open>the first argument is \<open>RTC_DCHECK_IS_ON\<close>\<close>
  "RollWindow on new_time_ms c =
     rbind (rtc_dcheck on (new_time_ms \<ge> mm_last_call_time_ms c)) (\<lambda>_.
     let c1 = (if on then c\<lparr>mm_last_call_time_ms := new_time_ms\<rparr> else c) in
     rbind (c_int64 (new_time_ms - mm_window_length_ms c)) (\<lambda>window_begin_ms.
     Inr (c1\<lparr>mm_samples := dropWhile (\<lambda>p. fst p < window_begin_ms) (mm_samples c)\<rparr>)))"

fun pop_smaller :: "'a::linorder \<Rightarrow> (int \<times> 'a) list \<Rightarrow> (int \<times> 'a) list" where
  \<comment> \<open>\<open>while (!samples_.empty() && samples_.back().second <= sample) samples_.pop_back();\<close>\<close>
  "pop_smaller sample xs =
     (if xs \<noteq> [] \<and> snd (last xs) \<le> sample then pop_smaller sample (butlast xs) else xs)"

declare pop_smaller.simps [simp del]

definition mm_Add :: "bool \<Rightarrow> 'a::linorder \<Rightarrow> int \<Rightarrow> 'a MovingMaxCounter \<Rightarrow> 'a MovingMaxCounter result" where
  "mm_Add on sample current_time_ms c =
     rbind (RollWindow on current_time_ms c) (\<lambda>c1.
     let xs = pop_smaller sample (mm_samples c1) in
     Inr (c1\<lparr>mm_samples :=
       (if xs = [] \<or> fst (last xs) < current_time_ms then xs @ [(current_time_ms, sample)] else xs)\<rparr>))"

definition mm_Max :: "bool \<Rightarrow> int \<Rightarrow> 'a MovingMaxCounter \<Rightarrow> ('a option \<times> 'a MovingMaxCounter) result" where
  "mm_Max on current_time_ms c =
     rbind (RollWindow on current_time_ms c) (\<lambda>c1.
     Inr (if mm_samples c1 \<noteq> [] then Some (snd (hd (mm_samples c1))) else None, c1))"

definition mm_Reset :: "'a MovingMaxCounter \<Rightarrow> 'a MovingMaxCounter" where
  "mm_Reset c = c\<lparr>mm_samples := []\<rparr>"

section \<open>The history it stands for\<close>

datatype 'a mm_op = MmAdd 'a int | MmMax int | MmReset

fun mm_run :: "bool \<Rightarrow> 'a::linorder mm_op \<Rightarrow> 'a MovingMaxCounter \<Rightarrow> 'a MovingMaxCounter result option" where
  "mm_run on (MmAdd v t) c = Some (mm_Add on v t c)"
| "mm_run on (MmMax t) c = Some (rbind (mm_Max on t c) (\<lambda>(r, c'). Inr c'))"
| "mm_run on MmReset c = Some (Inr (mm_Reset c))"

definition mm_time_ok :: "int \<Rightarrow> int \<Rightarrow> int \<Rightarrow> bool" where
  "mm_time_ok W now t \<longleftrightarrow> now \<le> t \<and> in_type int64_t (t - W)"

fun mm_spec :: "int \<Rightarrow> 'a mm_op \<Rightarrow> int \<times> (int \<times> 'a) list \<Rightarrow> (int \<times> (int \<times> 'a) list) option" where
  \<comment> \<open>the time of the last call and every sample added since the last reset\<close>
  "mm_spec W (MmAdd v t) (now, h) = (if mm_time_ok W now t then Some (t, h @ [(t, v)]) else None)"
| "mm_spec W (MmMax t) (now, h) = (if mm_time_ok W now t then Some (t, h) else None)"
| "mm_spec W MmReset (now, h) = Some (now, [])"

definition window_max :: "int \<Rightarrow> (int \<times> 'a::linorder) list \<Rightarrow> 'a option" where
  "window_max begin_ms h =
     (let vs = map snd (filter (\<lambda>p. begin_ms \<le> fst p) h) in if vs = [] then None else Some (Max (set vs)))"

definition mm_stairs :: "(int \<times> 'a::linorder) list \<Rightarrow> bool" where
  "mm_stairs xs \<longleftrightarrow> sorted_wrt (\<lambda>p q. fst p < fst q \<and> snd q < snd p) xs"

definition mm_rep :: "bool \<Rightarrow> int \<Rightarrow> 'a::linorder MovingMaxCounter \<Rightarrow> int \<times> (int \<times> 'a) list \<Rightarrow> bool" where
  \<comment> \<open>every sample of the window is dominated by a later or equal, kept one\<close>
  "mm_rep on W c = (\<lambda>(now, h).
     mm_window_length_ms c = W \<and> (on \<longrightarrow> mm_last_call_time_ms c = now) \<and>
     mm_stairs (mm_samples c) \<and> set (mm_samples c) \<subseteq> set h \<and> (\<forall>p \<in> set h. fst p \<le> now) \<and>
     (\<forall>p \<in> set h. now - W \<le> fst p \<longrightarrow> (\<exists>q \<in> set (mm_samples c). fst p \<le> fst q \<and> snd p \<le> snd q)))"

section \<open>The loops\<close>

lemma pop_smaller_prefix: "\<exists>ys. xs = pop_smaller v xs @ ys \<and> (\<forall>p \<in> set ys. snd p \<le> v)"
proof (induction v xs rule: pop_smaller.induct)
  case (1 v xs)
  show ?case
  proof (cases "xs \<noteq> [] \<and> snd (last xs) \<le> v")
    case True
    then obtain ys where "butlast xs = pop_smaller v (butlast xs) @ ys" "\<forall>p \<in> set ys. snd p \<le> v" using 1 by blast
    then have s: "xs = pop_smaller v (butlast xs) @ (ys @ [last xs])" using True by (metis append.assoc append_butlast_last_id)
    have e: "pop_smaller v xs = pop_smaller v (butlast xs)" using True by (subst pop_smaller.simps) simp
    show ?thesis unfolding e using s True \<open>\<forall>p \<in> set ys. snd p \<le> v\<close> by (intro exI [of _ "ys @ [last xs]"]) simp
  next
    case False
    then have e: "pop_smaller v xs = xs" by (subst pop_smaller.simps) auto
    show ?thesis unfolding e by (intro exI [of _ "[]"]) simp
  qed
qed

lemma pop_smaller_last: "pop_smaller v xs = [] \<or> v < snd (last (pop_smaller v xs))"
  by (induction v xs rule: pop_smaller.induct) (subst (1 2) pop_smaller.simps, auto)

lemma stairs_append: "mm_stairs (xs @ ys) \<Longrightarrow> mm_stairs xs" "mm_stairs (xs @ ys) \<Longrightarrow> mm_stairs ys"
  by (auto simp: mm_stairs_def sorted_wrt_append)

lemma stairs_hd: "mm_stairs xs \<Longrightarrow> p \<in> set xs \<Longrightarrow> fst (hd xs) \<le> fst p \<and> snd p \<le> snd (hd xs)"
  by (cases xs) (auto simp: mm_stairs_def)

lemma mm_rep_dominated:
  "mm_rep on W c (now, h) \<Longrightarrow> p \<in> set h \<Longrightarrow> now - W \<le> fst p \<Longrightarrow> \<exists>q \<in> set (mm_samples c). fst p \<le> fst q \<and> snd p \<le> snd q"
  by (simp add: mm_rep_def)

lemma stairs_dropWhile: "mm_stairs xs \<Longrightarrow> mm_stairs (dropWhile P xs)"
  by (metis stairs_append(2) takeWhile_dropWhile_id)

lemma stairs_dropWhile_iff:
  assumes "mm_stairs xs" "p \<in> set xs" "b \<le> fst p"
  shows "p \<in> set (dropWhile (\<lambda>p. fst p < b) xs)"
proof -
  have "p \<notin> set (takeWhile (\<lambda>p. fst p < b) xs)" using assms(3) by (auto dest: set_takeWhileD)
  then show ?thesis using assms(2) by (metis Un_iff set_append takeWhile_dropWhile_id)
qed

lemma dropWhile_window:
  assumes "mm_stairs xs" "p \<in> set (dropWhile (\<lambda>p. fst p < b) xs)"
  shows "b \<le> fst p"
proof -
  let ?ys = "dropWhile (\<lambda>p. fst p < b) xs"
  have ne: "?ys \<noteq> []" using assms(2) by (metis list.set(1) empty_iff)
  then have h: "b \<le> fst (hd ?ys)" using hd_dropWhile [OF ne] by simp
  show ?thesis using h stairs_hd [OF stairs_dropWhile [OF assms(1)] assms(2)] by linarith
qed

lemma stairs_snoc:
  assumes "mm_stairs xs" "xs = [] \<or> (fst (last xs) < t \<and> v < snd (last xs))"
  shows "mm_stairs (xs @ [(t, v)])"
proof (cases "xs = []")
  case False
  have "mm_stairs (butlast xs @ [last xs])" using assms(1) False by simp
  then have "\<forall>p \<in> set (butlast xs). fst p < fst (last xs) \<and> snd (last xs) < snd p"
    by (simp add: mm_stairs_def sorted_wrt_append)
  moreover have "fst (last xs) < t \<and> v < snd (last xs)" using assms(2) False by simp
  ultimately have "\<forall>p \<in> set (butlast xs @ [last xs]). fst p < t \<and> v < snd p"
    by (metis Un_iff empty_iff empty_set less_trans list.set(2) insert_iff set_append)
  then have "\<forall>p \<in> set xs. fst p < t \<and> v < snd p" using False by simp
  then show ?thesis using assms(1) by (simp add: mm_stairs_def sorted_wrt_append)
qed (simp add: mm_stairs_def)

section \<open>Simulation\<close>

lemma RollWindow_rep:
  assumes "mm_rep on W c (now, h)" "mm_time_ok W now t"
  obtains c' where "RollWindow on t c = Inr c'" "mm_rep on W c' (t, h)" "\<forall>p \<in> set (mm_samples c'). t - W \<le> fst p"
proof -
  let ?ys = "dropWhile (\<lambda>p. fst p < t - W) (mm_samples c)"
  let ?c = "(if on then c\<lparr>mm_last_call_time_ms := t\<rparr> else c)\<lparr>mm_samples := ?ys\<rparr>"
  have st: "mm_stairs (mm_samples c)" and W: "mm_window_length_ms c = W" using assms(1) by (simp_all add: mm_rep_def)
  have run: "RollWindow on t c = Inr ?c" using assms by (simp add: RollWindow_def mm_rep_def mm_time_ok_def c_int64_def rtc_dcheck_def)
  have dom: "\<exists>q \<in> set ?ys. fst p \<le> fst q \<and> snd p \<le> snd q" if p: "p \<in> set h" "t - W \<le> fst p" for p
  proof -
    have n: "now - W \<le> fst p" using assms(2) p(2) by (simp add: mm_time_ok_def)
    obtain q where q: "q \<in> set (mm_samples c)" "fst p \<le> fst q" "snd p \<le> snd q"
      using mm_rep_dominated [OF assms(1) p(1) n] by (elim bexE conjE)
    then show ?thesis using stairs_dropWhile_iff [OF st q(1), of "t - W"] p(2) by (intro bexI [of _ q]) auto
  qed
  have "set ?ys \<subseteq> set h" using assms(1) by (auto simp: mm_rep_def dest: set_dropWhileD)
  moreover have "\<forall>p \<in> set h. fst p \<le> t" using assms by (fastforce simp: mm_rep_def mm_time_ok_def)
  ultimately have "mm_rep on W ?c (t, h)" using W dom stairs_dropWhile [OF st] by (auto simp: mm_rep_def)
  then show ?thesis using run dropWhile_window [OF st] that by simp
qed

lemma Add_rep:
  assumes "mm_rep on W c (now, h)" "mm_time_ok W now t"
  shows "\<exists>c'. mm_Add on v t c = Inr c' \<and> mm_rep on W c' (t, h @ [(t, v)])"
proof -
  obtain c1 where c1: "RollWindow on t c = Inr c1" and rep: "mm_rep on W c1 (t, h)" using RollWindow_rep [OF assms] by metis
  define xs where "xs = pop_smaller v (mm_samples c1)"
  define zs where "zs = (if xs = [] \<or> fst (last xs) < t then xs @ [(t, v)] else xs)"
  obtain ys where ys: "mm_samples c1 = xs @ ys" "\<forall>p \<in> set ys. snd p \<le> v" unfolding xs_def using pop_smaller_prefix by blast
  have l: "xs = [] \<or> v < snd (last xs)" unfolding xs_def by (rule pop_smaller_last)
  have sub: "set xs \<subseteq> set h" and times: "\<forall>p \<in> set h. fst p \<le> t" using rep ys(1) by (auto simp: mm_rep_def)
  have st: "mm_stairs xs" using rep ys(1) stairs_append(1) [of xs ys] by (simp add: mm_rep_def)
  have stz: "mm_stairs zs" unfolding zs_def using st l stairs_snoc [of xs t v] by auto
  have new: "\<exists>q \<in> set zs. t \<le> fst q \<and> v \<le> snd q" unfolding zs_def using l by (auto intro!: bexI [of _ "last xs"])
  have old: "\<exists>q \<in> set zs. fst p \<le> fst q \<and> snd p \<le> snd q" if p: "p \<in> set h" "t - W \<le> fst p" for p
  proof -
    obtain q where q: "q \<in> set (xs @ ys)" "fst p \<le> fst q" "snd p \<le> snd q"
      using mm_rep_dominated [OF rep p] unfolding ys(1) by (elim bexE conjE)
    show ?thesis
    proof (cases "q \<in> set xs")
      case True
      then show ?thesis using q by (auto simp: zs_def)
    next
      case False
      then have "snd p \<le> v" using q ys(2) by auto
      then show ?thesis using new times p(1) by (meson order_trans)
    qed
  qed
  have "set zs \<subseteq> set (h @ [(t, v)])" using sub by (auto simp: zs_def)
  then have "mm_rep on W (c1\<lparr>mm_samples := zs\<rparr>) (t, h @ [(t, v)])" using rep stz new old times by (auto simp: mm_rep_def)
  then show ?thesis using c1 by (auto simp: mm_Add_def xs_def zs_def Let_def)
qed

lemma Max_rep:
  assumes "mm_rep on W c (now, h)" "mm_time_ok W now t"
  shows "\<exists>c'. mm_Max on t c = Inr (window_max (t - W) h, c') \<and> mm_rep on W c' (t, h)"
proof -
  obtain c1 where c1: "RollWindow on t c = Inr c1" and rep: "mm_rep on W c1 (t, h)"
    and win: "\<forall>p \<in> set (mm_samples c1). t - W \<le> fst p" using RollWindow_rep [OF assms] by metis
  let ?xs = "mm_samples c1" and ?vs = "map snd (filter (\<lambda>p. t - W \<le> fst p) h)"
  have sub: "set ?xs \<subseteq> set h" and st: "mm_stairs ?xs" using rep by (simp_all add: mm_rep_def)
  have dom: "\<exists>q \<in> set ?xs. snd p \<le> snd q" if "p \<in> set h" "t - W \<le> fst p" for p using mm_rep_dominated [OF rep that] by blast
  have "(if ?xs \<noteq> [] then Some (snd (hd ?xs)) else None) = window_max (t - W) h"
  proof (cases "?xs = []")
    case True
    then have "?vs = []" using dom by (auto simp: filter_empty_conv)
    then show ?thesis using True by (simp add: window_max_def)
  next
    case False
    have hi: "snd q \<le> snd (hd ?xs)" if "q \<in> set ?xs" for q using stairs_hd [OF st that] by simp
    have "hd ?xs \<in> set h" "t - W \<le> fst (hd ?xs)" using False sub win by auto
    then have mem: "snd (hd ?xs) \<in> set ?vs" by simp
    have "y \<le> snd (hd ?xs)" if "y \<in> set ?vs" for y using that dom hi by fastforce
    then have "Max (set ?vs) = snd (hd ?xs)" using mem by (intro Max_eqI) auto
    then show ?thesis using False length_pos_if_in_set [OF mem] by (simp add: window_max_def Let_def)
  qed
  then show ?thesis using c1 rep by (simp add: mm_Max_def)
qed

lemma mm_run_refines:
  assumes "mm_rep on W c s" "mm_spec W op s = Some s'"
  shows "\<exists>c'. mm_run on op c = Some (Inr c') \<and> mm_rep on W c' s'"
proof (cases op)
  case (MmAdd v t)
  then show ?thesis using assms Add_rep [of on W c "fst s" "snd s" t v] by (cases s) (auto split: if_splits)
next
  case (MmMax t)
  then show ?thesis using assms Max_rep [of on W c "fst s" "snd s" t] by (cases s) (auto split: if_splits)
next
  case MmReset
  then show ?thesis using assms by (cases s) (auto simp: mm_rep_def mm_Reset_def mm_stairs_def)
qed

interpretation moving_max: refined_container "mm_rep on W" "mm_run on" "mm_spec W" for on W
  by unfold_locales (rule mm_run_refines)

lemma mm_rep_ctor: "mm_rep on W (MovingMaxCounter_ctor W) (imin int64_t, [])"
  by (simp add: mm_rep_def MovingMaxCounter_ctor_def mm_stairs_def)

section \<open>The maximum is exact\<close>

text \<open>Claim C14. After any sequence of additions, queries and resets with times that never decrease (and whose window
    start fits in \<open>int64_t\<close>), every call has returned without a failed check, and \<open>Max\<close> returns the maximum
    of all samples added since the last reset that lie in the window, absent when there is none: the
    samples the counter dropped never matter.\<close>
theorem moving_max_exact:
  assumes "spec_all (mm_spec W) ops (imin int64_t, []) = Some (now, h)" "now \<le> t" "in_type int64_t (t - W)"
  shows "\<exists>c c'. run_all (mm_run on) ops (MovingMaxCounter_ctor W) = Some (Inr c) \<and>
    mm_Max on t c = Inr (window_max (t - W) h, c')"
proof -
  obtain c where c: "run_all (mm_run on) ops (MovingMaxCounter_ctor W) = Some (Inr c)" "mm_rep on W c (now, h)"
    using moving_max.run_all_refines [OF mm_rep_ctor assms(1), of on] by (elim exE conjE)
  show ?thesis using c(1) Max_rep [OF c(2), of t] assms(2,3) by (auto simp: mm_time_ok_def)
qed

theorem moving_max_exact_witness:
  "\<exists>c c'. run_all (mm_run True) [MmAdd 9 100, MmReset, MmAdd 5 110, MmAdd 3 120, MmMax 121, MmAdd 4 122, MmAdd 2 122] (MovingMaxCounter_ctor 10) = Some (Inr c) \<and>
    mm_Max True 125 c = Inr (Some (4 :: int), c')"
  using moving_max_exact [of 10 "[MmAdd 9 100, MmReset, MmAdd 5 110, MmAdd 3 120, MmMax 121, MmAdd 4 122, MmAdd 2 122]" 122
      "[(110, 5), (120, 3), (122, 4), (122, 2 :: int)]" 125 True]
  by (simp add: mm_time_ok_def limit_defs window_max_def)

end
