(* ===== verification/Percentile_Filter.thy ===== *)
theory Percentile_Filter
  imports Container_Spec Cpp_Types "HOL-Library.Multiset"
begin

text \<open>
  \<open>rtc_base/numerics/percentile_filter.h\<close> and \<open>moving_median_filter.h\<close>: \<open>PercentileFilter<T>\<close> keeps an iterator and
  an index at the percentile of a multiset through insertions and removals, and \<open>MovingMedianFilter<T>\<close> is the
  median of the last samples on top of it. A \<open>std::multiset\<close> is its sorted list of elements, an
  iterator into it a position, with the length for \<open>end()\<close>; moving an iterator out of the container or dereferencing
  \<open>end()\<close> is undefined behaviour. The index is computed in binary32, so it is exact only up to a size.
\<close>

section \<open>The percentile filter\<close>

record 'a PercentileFilter =
  pf_percentile :: cfloat
  pf_set :: "'a list"
  pf_it :: nat
  pf_index :: int

definition PercentileFilter_ctor :: "cfloat \<Rightarrow> 'a PercentileFilter result" where
  "PercentileFilter_ctor percentile =
     rbind (rtc_check (float_cmp GeOp percentile (Finite 0)) ''percentile >= 0.0f'') (\<lambda>_.
     rbind (rtc_check (float_cmp LeOp percentile (Finite 1)) ''percentile <= 1.0f'') (\<lambda>_.
     Inr \<lparr>pf_percentile = percentile, pf_set = [], pf_it = 0, pf_index = 0\<rparr>))"

definition upper_bound_pos :: "'a::linorder \<Rightarrow> 'a list \<Rightarrow> nat" where
  "upper_bound_pos v xs = length (takeWhile (\<lambda>x. x \<le> v) xs)"

definition lower_bound_pos :: "'a::linorder \<Rightarrow> 'a list \<Rightarrow> nat" where
  "lower_bound_pos v xs = length (takeWhile (\<lambda>x. x < v) xs)"

definition set_deref :: "'a list \<Rightarrow> nat \<Rightarrow> 'a result" where
  "set_deref xs i = (if i < length xs then Inr (xs ! i) else Inl OutOfBounds)"

definition target_index :: "cfloat \<Rightarrow> nat \<Rightarrow> int result" where
  \<comment> \<open>\<open>static_cast<int64_t>(percentile_ * (set_.size() - 1))\<close>\<close>
  "target_index percentile n =
     rbind (static_cast int64_t (FloatV (cf_mul float_t percentile (round_to float_t (of_nat (sz_sub n 1)))))) (\<lambda>v.
     Inr (case v of IntV i \<Rightarrow> i | FloatV f \<Rightarrow> 0))"

definition set_advance :: "'a list \<Rightarrow> int \<Rightarrow> nat \<Rightarrow> nat result" where
  \<comment> \<open>\<open>std::advance\<close> on a bidirectional iterator\<close>
  "set_advance xs d i = (if 0 \<le> int i + d \<and> int i + d \<le> int (length xs) then Inr (nat (int i + d)) else Inl OutOfBounds)"

definition UpdatePercentileIterator :: "'a PercentileFilter \<Rightarrow> 'a PercentileFilter result" where
  "UpdatePercentileIterator f =
     (if pf_set f = [] then Inr f
      else
        rbind (target_index (pf_percentile f) (length (pf_set f))) (\<lambda>index.
        rbind (c_int64 (index - pf_index f)) (\<lambda>d.
        rbind (set_advance (pf_set f) d (pf_it f)) (\<lambda>i.
        Inr (f\<lparr>pf_it := i, pf_index := index\<rparr>)))))"

definition pf_Insert :: "'a::linorder \<Rightarrow> 'a PercentileFilter \<Rightarrow> 'a PercentileFilter result" where
  \<comment> \<open>an insertion at or before the iterator moves the element it points to one place up\<close>
  "pf_Insert value f =
     (let u = upper_bound_pos value (pf_set f);
          xs = take u (pf_set f) @ value # drop u (pf_set f);
          i = (if u \<le> pf_it f then pf_it f + 1 else pf_it f);
          f1 = f\<lparr>pf_set := xs, pf_it := i\<rparr>
      in if length xs = 1 then UpdatePercentileIterator (f1\<lparr>pf_it := 0, pf_index := 0\<rparr>)
         else
           rbind (set_deref xs i) (\<lambda>x.
           if value < x
           then rbind (c_int64 (pf_index f + 1)) (\<lambda>j. UpdatePercentileIterator (f1\<lparr>pf_index := j\<rparr>))
           else UpdatePercentileIterator f1))"

definition pf_Erase :: "'a::linorder \<Rightarrow> 'a PercentileFilter \<Rightarrow> (bool \<times> 'a PercentileFilter) result" where
  "pf_Erase value f =
     (let k = lower_bound_pos value (pf_set f);
          xs = take k (pf_set f) @ drop (k + 1) (pf_set f)
      in if k = length (pf_set f) \<or> pf_set f ! k \<noteq> value then Inr (False, f)
         else if k = pf_it f
         then rbind (UpdatePercentileIterator (f\<lparr>pf_set := xs, pf_it := k\<rparr>)) (\<lambda>f'. Inr (True, f'))
         else
           let i = (if k < pf_it f then pf_it f - 1 else pf_it f);
               f1 = f\<lparr>pf_set := xs, pf_it := i\<rparr>
           in rbind (set_deref xs i) (\<lambda>x.
              rbind (if value \<le> x then c_int64 (pf_index f - 1) else Inr (pf_index f)) (\<lambda>j.
              rbind (UpdatePercentileIterator (f1\<lparr>pf_index := j\<rparr>)) (\<lambda>f'. Inr (True, f')))))"

definition GetPercentileValue :: "'a::zero PercentileFilter \<Rightarrow> 'a result" where
  "GetPercentileValue f = (if pf_set f = [] then Inr 0 else set_deref (pf_set f) (pf_it f))"

definition pf_Reset :: "'a PercentileFilter \<Rightarrow> 'a PercentileFilter" where
  "pf_Reset f = f\<lparr>pf_set := [], pf_it := 0, pf_index := 0\<rparr>"

section \<open>The moving median\<close>

record 'a MovingMedianFilter =
  md_percentile_filter :: "'a PercentileFilter"
  md_samples :: "'a list"
  md_samples_stored :: size_t
  md_window_size :: size_t

definition MovingMedianFilter_ctor :: "size_t \<Rightarrow> 'a MovingMedianFilter result" where
  "MovingMedianFilter_ctor window_size =
     rbind (PercentileFilter_ctor (Finite (1 / 2))) (\<lambda>f.
     rbind (rtc_check (window_size > 0) ''window_size > 0'') (\<lambda>_.
     Inr \<lparr>md_percentile_filter = f, md_samples = [], md_samples_stored = 0, md_window_size = window_size\<rparr>))"

definition md_Insert :: "'a::linorder \<Rightarrow> 'a MovingMedianFilter \<Rightarrow> 'a MovingMedianFilter result" where
  "md_Insert value m =
     rbind (pf_Insert value (md_percentile_filter m)) (\<lambda>f.
     let xs = md_samples m @ [value];
         stored = sz_add (md_samples_stored m) 1
     in if stored > md_window_size m
        then rbind (pf_Erase (hd xs) f) (\<lambda>(b, f').
             Inr (m\<lparr>md_percentile_filter := f', md_samples := tl xs, md_samples_stored := sz_sub stored 1\<rparr>))
        else Inr (m\<lparr>md_percentile_filter := f, md_samples := xs, md_samples_stored := stored\<rparr>))"

definition GetFilteredValue :: "'a::zero MovingMedianFilter \<Rightarrow> 'a result" where
  "GetFilteredValue m = GetPercentileValue (md_percentile_filter m)"

definition md_Reset :: "'a MovingMedianFilter \<Rightarrow> 'a MovingMedianFilter" where
  "md_Reset m = m\<lparr>md_percentile_filter := pf_Reset (md_percentile_filter m), md_samples := [], md_samples_stored := 0\<rparr>"

section \<open>The binary32 index\<close>

definition percentile_pos :: "rat \<Rightarrow> nat \<Rightarrow> nat" where
  \<comment> \<open>the position of the percentile among \<open>n\<close> values: \<open>p (n - 1)\<close> rounded to binary32 and truncated\<close>
  "percentile_pos p n = (case round_to float_t (p * of_nat (n - 1)) of Finite y \<Rightarrow> nat \<lfloor>y\<rfloor> | _ \<Rightarrow> 0)"

lemma target_index_eq:
  assumes "0 < n" "n \<le> 2 ^ 24"
  shows "target_index (Finite p) n =
    rbind (static_cast int64_t (FloatV (round_to float_t (p * of_nat (n - 1))))) (\<lambda>v. Inr (case v of IntV i \<Rightarrow> i | FloatV f \<Rightarrow> 0))"
proof -
  have s: "sz_sub n 1 = n - 1" using assms by (intro sz_sub_small) (simp_all add: size_mod_def)
  have "round_to float_t (of_nat (n - 1)) = Finite (of_nat (n - 1))"
  proof (cases "n - 1 = 0")
    case True
    show ?thesis unfolding True by simp
  next
    case False
    then show ?thesis using float_exact [of "n - 1" 0] assms by (simp add: pow2_def)
  qed
  then show ?thesis unfolding target_index_def s by simp
qed

lemma target_index_ok:
  assumes "0 \<le> p" "p \<le> 1" "0 < n" "n \<le> 2 ^ 24"
  shows "target_index (Finite p) n = Inr (int (percentile_pos p n)) \<and> percentile_pos p n < n"
proof (cases "p * of_nat (n - 1) = 0")
  case True
  show ?thesis unfolding target_index_eq [OF assms(3,4)] percentile_pos_def True using assms(3) by (simp add: rat_trunc_def limit_defs)
next
  case False
  then have pos: "0 < p * of_nat (n - 1)" using assms(1) by simp
  have le: "p * of_nat (n - 1) \<le> of_nat (n - 1)" using assms(1,2) by (simp add: mult_left_le_one_le)
  have m: "n - 1 < 2 ^ 24" using assms(3,4) by simp
  obtain y where y: "round_to float_t (p * of_nat (n - 1)) = Finite y" "0 \<le> y" "y \<le> of_nat (n - 1)"
    using float_bounded [OF pos le m] by (elim exE conjE)
  have f: "0 \<le> \<lfloor>y\<rfloor>" "\<lfloor>y\<rfloor> \<le> int (n - 1)" using y(2,3) by (simp, metis floor_mono floor_of_nat)
  have "in_type int64_t k" if "0 \<le> k" "k \<le> int (n - 1)" for k using that m by (simp add: limit_defs)
  then have r: "in_type int64_t \<lfloor>y\<rfloor>" using f by blast
  have "nat \<lfloor>y\<rfloor> < n" using f(2) assms(3) by linarith
  then show ?thesis unfolding target_index_eq [OF assms(3,4)] percentile_pos_def y(1) using y(2) f r by (simp add: rat_trunc_def)
qed

lemma percentile_pos_half:
  assumes "0 < n" "n \<le> 2 ^ 24"
  shows "percentile_pos (1 / 2) n = (n - 1) div 2"
proof (cases "n - 1 = 0")
  case False
  have "round_to float_t (of_nat (n - 1) * pow2 (- 1)) = Finite (of_nat (n - 1) * pow2 (- 1))"
    using False assms by (intro float_exact) auto
  then have "round_to float_t (1 / 2 * of_nat (n - 1)) = Finite (of_nat (n - 1) / 2)" by (simp add: pow2_def)
  moreover have "\<lfloor>of_nat (n - 1) / (2 :: rat)\<rfloor> = int ((n - 1) div 2)" using floor_divide_of_nat_eq [of "n - 1" 2, where 'a = rat] by simp
  ultimately show ?thesis by (simp add: percentile_pos_def)
qed (simp add: percentile_pos_def)

section \<open>Positions in a sorted list\<close>

lemma takeWhile_pos_iff:
  assumes "sorted xs" "i < length xs" "\<And>x y. x \<le> y \<Longrightarrow> P y \<Longrightarrow> P x"
  shows "length (takeWhile P xs) \<le> i \<longleftrightarrow> \<not> P (xs ! i)"
proof
  assume "length (takeWhile P xs) \<le> i"
  then have u: "length (takeWhile P xs) \<le> i" "length (takeWhile P xs) < length xs" using assms(2) by auto
  show "\<not> P (xs ! i)" using nth_length_takeWhile [OF u(2)] assms(3) [OF sorted_nth_mono [OF assms(1) u(1) assms(2)]] by blast
next
  assume P: "\<not> P (xs ! i)"
  show "length (takeWhile P xs) \<le> i"
  proof (rule ccontr)
    assume "\<not> ?thesis"
    then have "xs ! i \<in> set (takeWhile P xs)" unfolding not_le by (metis nth_mem takeWhile_nth)
    then show False using P by (auto dest: set_takeWhileD)
  qed
qed

lemma upper_bound_iff: "sorted xs \<Longrightarrow> i < length xs \<Longrightarrow> upper_bound_pos v xs \<le> i \<longleftrightarrow> v < xs ! i"
  unfolding upper_bound_pos_def by (subst takeWhile_pos_iff) auto

lemma lower_bound_iff: "sorted xs \<Longrightarrow> i < length xs \<Longrightarrow> lower_bound_pos v xs \<le> i \<longleftrightarrow> v \<le> xs ! i"
  unfolding lower_bound_pos_def by (subst takeWhile_pos_iff) auto

section \<open>The filter stands for a multiset\<close>

definition pf_at :: "rat \<Rightarrow> 'a::linorder list \<Rightarrow> 'a PercentileFilter" where
  \<comment> \<open>the filter that holds a sorted list, its iterator at the percentile\<close>
  "pf_at p xs = \<lparr>pf_percentile = Finite p, pf_set = xs, pf_it = percentile_pos p (length xs), pf_index = int (percentile_pos p (length xs))\<rparr>"

definition pf_rep :: "rat \<Rightarrow> 'a::linorder PercentileFilter \<Rightarrow> 'a multiset \<Rightarrow> bool" where
  "pf_rep p f M \<longleftrightarrow> pf_percentile f = Finite p \<and> pf_set f = sorted_list_of_multiset M \<and> size M \<le> 2 ^ 24 \<and>
     (M \<noteq> {#} \<longrightarrow> f = pf_at p (sorted_list_of_multiset M))"

lemma UpdatePercentileIterator_ok:
  assumes "0 \<le> p" "p \<le> 1" "length xs \<le> 2 ^ 24" "xs \<noteq> []" "i \<le> length xs"
  shows "UpdatePercentileIterator \<lparr>pf_percentile = Finite p, pf_set = xs, pf_it = i, pf_index = int i\<rparr> = Inr (pf_at p xs)"
proof -
  have t: "target_index (Finite p) (length xs) = Inr (int (percentile_pos p (length xs)))" "percentile_pos p (length xs) < length xs"
    using target_index_ok [OF assms(1,2), of "length xs"] assms(3,4) by simp_all
  have "in_type int64_t (int (percentile_pos p (length xs)) - int i)" using t(2) assms(3,5) by (simp add: limit_defs)
  then show ?thesis using t assms(4) by (simp add: UpdatePercentileIterator_def c_int64_def set_advance_def pf_at_def)
qed

lemma Update_maybe_empty:
  assumes "0 \<le> p" "p \<le> 1" "length ys \<le> 2 ^ 24" "a \<le> length ys"
  shows "\<exists>f. UpdatePercentileIterator \<lparr>pf_percentile = Finite p, pf_set = ys, pf_it = a, pf_index = int a\<rparr> = Inr f \<and>
    pf_percentile f = Finite p \<and> pf_set f = ys \<and> (ys \<noteq> [] \<longrightarrow> f = pf_at p ys)"
proof (cases "ys = []")
  case True
  then show ?thesis by (simp add: UpdatePercentileIterator_def)
next
  case False
  then show ?thesis using UpdatePercentileIterator_ok [OF assms(1-3) _ assms(4)] by (simp add: pf_at_def)
qed

lemma insert_pos:
  fixes v :: "'a::linorder"
  assumes "sorted xs"
  defines "ys \<equiv> take (upper_bound_pos v xs) xs @ v # drop (upper_bound_pos v xs) xs"
  shows "sorted ys" "mset ys = add_mset v (mset xs)" "length ys = Suc (length xs)"
proof -
  have t: "take (upper_bound_pos v xs) xs = takeWhile (\<lambda>x. x \<le> v) xs" "drop (upper_bound_pos v xs) xs = dropWhile (\<lambda>x. x \<le> v) xs"
    by (simp_all add: upper_bound_pos_def dropWhile_eq_drop flip: takeWhile_eq_take)
  have m: "mset xs = mset (takeWhile (\<lambda>x. x \<le> v) xs) + mset (dropWhile (\<lambda>x. x \<le> v) xs)" by (metis mset_append takeWhile_dropWhile_id)
  then show "mset ys = add_mset v (mset xs)" by (simp add: ys_def t)
  then show "length ys = Suc (length xs)" by (metis size_add_mset size_mset)
  have "v < x" if x: "x \<in> set (dropWhile (\<lambda>x. x \<le> v) xs)" for x
  proof -
    obtain j where "j < length (drop (upper_bound_pos v xs) xs)" "drop (upper_bound_pos v xs) xs ! j = x"
      using x unfolding t(2) [symmetric] by (metis in_set_conv_nth)
    then show ?thesis using upper_bound_iff [OF assms(1), of "upper_bound_pos v xs + j" v] by simp
  qed
  then show "sorted ys" using assms(1) unfolding ys_def t
    by (auto simp: sorted_append sorted_wrt_takeWhile sorted_wrt_dropWhile dest: set_takeWhileD less_imp_le) (meson less_imp_le order_trans set_takeWhileD)
qed

lemma erase_pos:
  assumes "sorted xs" "k < length xs"
  defines "ys \<equiv> take k xs @ drop (k + 1) xs"
  shows "sorted ys" "mset ys = mset xs - {#xs ! k#}" "length ys = length xs - 1"
proof -
  have x: "xs = take k xs @ xs ! k # drop (k + 1) xs" using assms(2) id_take_nth_drop [of k xs] by simp
  have "mset xs = mset ys + {#xs ! k#}" unfolding ys_def by (subst x) simp
  then show "mset ys = mset xs - {#xs ! k#}" by simp
  show "length ys = length xs - 1" using assms(2) by (simp add: ys_def)
  have "sorted (take k xs @ xs ! k # drop (k + 1) xs)" using assms(1) x by simp
  then show "sorted ys" by (auto simp: ys_def sorted_append)
qed

lemma Insert_at:
  assumes p: "0 \<le> p" "p \<le> 1" and xs: "sorted xs" "xs \<noteq> []" "length xs < 2 ^ 24"
  shows "pf_Insert v (pf_at p xs) = Inr (pf_at p (take (upper_bound_pos v xs) xs @ v # drop (upper_bound_pos v xs) xs))"
proof -
  define u i where "u = upper_bound_pos v xs" and "i = percentile_pos p (length xs)"
  define i' where "i' = (if u \<le> i then i + 1 else i)"
  define ys where "ys = take u xs @ v # drop u xs"
  have len: "length ys = Suc (length xs)" using insert_pos(3) [OF xs(1), of v] by (simp add: ys_def u_def)
  have i: "i < length xs" using target_index_ok [OF p, of "length xs"] xs by (simp add: i_def)
  have iff: "u \<le> i \<longleftrightarrow> v < xs ! i" unfolding u_def by (rule upper_bound_iff [OF xs(1) i])
  have "ys ! i' = xs ! i" using i by (auto simp: ys_def i'_def nth_append min_def)
  then have d: "set_deref ys i' = Inr (xs ! i)" using i len by (simp add: set_deref_def i'_def)
  have upd: "UpdatePercentileIterator \<lparr>pf_percentile = Finite p, pf_set = ys, pf_it = i', pf_index = int i'\<rparr> = Inr (pf_at p ys)"
    using i len xs(3) by (intro UpdatePercentileIterator_ok p) (auto simp: i'_def)
  have r: "in_type int64_t (int i + 1)" using i xs(3) by (simp add: limit_defs)
  have at: "pf_at p xs = \<lparr>pf_percentile = Finite p, pf_set = xs, pf_it = i, pf_index = int i\<rparr>" by (simp add: pf_at_def i_def)
  have s: "pf_Insert v (pf_at p xs) = rbind (set_deref ys i') (\<lambda>x. if v < x
      then rbind (c_int64 (int i + 1)) (\<lambda>j. UpdatePercentileIterator \<lparr>pf_percentile = Finite p, pf_set = ys, pf_it = i', pf_index = j\<rparr>)
      else UpdatePercentileIterator \<lparr>pf_percentile = Finite p, pf_set = ys, pf_it = i', pf_index = int i\<rparr>)"
    unfolding at pf_Insert_def Let_def PercentileFilter.select_convs PercentileFilter.update_convs
      u_def [symmetric] ys_def [symmetric] i'_def [symmetric] using len xs(2) by simp
  show ?thesis unfolding s d using upd r iff by (auto simp: c_int64_def i'_def ys_def u_def ac_simps split: if_splits)
qed

lemma Erase_at:
  assumes p: "0 \<le> p" "p \<le> 1" and xs: "sorted xs" "xs \<noteq> []" "length xs \<le> 2 ^ 24" and v: "v \<in> set xs"
  defines "k \<equiv> lower_bound_pos v xs"
  shows "k < length xs \<and> xs ! k = v \<and> (\<exists>f. pf_Erase v (pf_at p xs) = Inr (True, f) \<and>
    pf_percentile f = Finite p \<and> pf_set f = take k xs @ drop (k + 1) xs \<and> (pf_set f \<noteq> [] \<longrightarrow> f = pf_at p (pf_set f)))"
proof -
  define i where "i = percentile_pos p (length xs)"
  define ys where "ys = take k xs @ drop (k + 1) xs"
  have i: "i < length xs" using target_index_ok [OF p, of "length xs"] xs by (simp add: i_def)
  obtain j where j: "j < length xs" "xs ! j = v" using v by (auto simp: in_set_conv_nth)
  have kj: "k \<le> j" unfolding k_def using lower_bound_iff [OF xs(1) j(1)] j(2) by simp
  then have k: "k < length xs" using j by simp
  have "v \<le> xs ! k" using lower_bound_iff [OF xs(1) k, of v] by (simp add: k_def)
  moreover have "xs ! k \<le> v" using sorted_nth_mono [OF xs(1) kj j(1)] j(2) by simp
  ultimately have xk: "xs ! k = v" by simp
  have len: "length ys = length xs - 1" using k by (simp add: ys_def)
  have at: "pf_at p xs = \<lparr>pf_percentile = Finite p, pf_set = xs, pf_it = i, pf_index = int i\<rparr>" by (simp add: pf_at_def i_def)
  have "\<exists>a. pf_Erase v (pf_at p xs) =
      rbind (UpdatePercentileIterator \<lparr>pf_percentile = Finite p, pf_set = ys, pf_it = a, pf_index = int a\<rparr>) (\<lambda>f'. Inr (True, f')) \<and> a \<le> length ys"
  proof (cases "k = i")
    case True
    then show ?thesis using k xk len by (intro exI [of _ k]) (simp add: pf_Erase_def pf_at_def k_def i_def ys_def Let_def)
  next
    case False
    define a where "a = (if k < i then i - 1 else i)"
    have a: "a < length ys" using False i k len by (auto simp: a_def)
    have "ys ! a = xs ! i" using i k False by (auto simp: ys_def a_def nth_append min_def)
    then have d: "set_deref ys a = Inr (xs ! i)" using a by (simp add: set_deref_def)
    have iff: "v \<le> xs ! i \<longleftrightarrow> k < i" using lower_bound_iff [OF xs(1) i, of v] False by (auto simp: k_def)
    have r: "in_type int64_t (int i - 1)" using i xs(3) by (simp add: limit_defs)
    have "(if v \<le> xs ! i then c_int64 (int i - 1) else Inr (int i)) = Inr (int a)" using iff r by (auto simp: c_int64_def a_def)
    then have "pf_Erase v (pf_at p xs) =
      rbind (UpdatePercentileIterator \<lparr>pf_percentile = Finite p, pf_set = ys, pf_it = a, pf_index = int a\<rparr>) (\<lambda>f'. Inr (True, f'))"
      unfolding at pf_Erase_def Let_def PercentileFilter.select_convs PercentileFilter.update_convs
        k_def [symmetric] ys_def [symmetric] a_def [symmetric] using k xk False d by simp
    then show ?thesis using a by (intro exI [of _ a]) simp
  qed
  then obtain a where a: "pf_Erase v (pf_at p xs) =
      rbind (UpdatePercentileIterator \<lparr>pf_percentile = Finite p, pf_set = ys, pf_it = a, pf_index = int a\<rparr>) (\<lambda>f'. Inr (True, f'))" "a \<le> length ys"
    by (elim exE conjE)
  have "length ys \<le> 2 ^ 24" using len xs(3) by simp
  then obtain f where "UpdatePercentileIterator \<lparr>pf_percentile = Finite p, pf_set = ys, pf_it = a, pf_index = int a\<rparr> = Inr f"
      "pf_percentile f = Finite p" "pf_set f = ys" "ys \<noteq> [] \<longrightarrow> f = pf_at p ys"
    using Update_maybe_empty [OF p _ a(2)] by metis
  then show ?thesis using k xk a(1) unfolding ys_def by (intro conjI exI [of _ f]) simp_all
qed

section \<open>Refinement of a multiset\<close>

datatype 'a pf_op = PfInsert 'a | PfErase 'a | PfReset

fun pf_run :: "'a::linorder pf_op \<Rightarrow> 'a PercentileFilter \<times> bool list \<Rightarrow> ('a PercentileFilter \<times> bool list) result option" where
  \<comment> \<open>the second component collects what the calls of \<open>Erase\<close> return\<close>
  "pf_run (PfInsert v) (f, rs) = Some (rbind (pf_Insert v f) (\<lambda>f'. Inr (f', rs)))"
| "pf_run (PfErase v) (f, rs) = Some (rbind (pf_Erase v f) (\<lambda>(b, f'). Inr (f', rs @ [b])))"
| "pf_run PfReset (f, rs) = Some (Inr (pf_Reset f, rs))"

fun pf_spec :: "'a pf_op \<Rightarrow> 'a multiset \<times> bool list \<Rightarrow> ('a multiset \<times> bool list) option" where
  "pf_spec (PfInsert v) (M, rs) = (if size M < 2 ^ 24 then Some (add_mset v M, rs) else None)"
| "pf_spec (PfErase v) (M, rs) = Some (M - {#v#}, rs @ [v \<in># M])"
| "pf_spec PfReset (M, rs) = Some ({#}, rs)"

definition pf_rep_log :: "rat \<Rightarrow> 'a::linorder PercentileFilter \<times> bool list \<Rightarrow> 'a multiset \<times> bool list \<Rightarrow> bool" where
  "pf_rep_log p = (\<lambda>(f, rs) (M, rs'). 0 \<le> p \<and> p \<le> 1 \<and> pf_rep p f M \<and> rs = rs')"

lemma sorted_list_size [simp]:
  "length (sorted_list_of_multiset M) = size M" "sorted_list_of_multiset M = [] \<longleftrightarrow> M = {#}"
  by (metis mset_sorted_list_of_multiset size_mset) (metis mset_sorted_list_of_multiset mset_zero_iff)

lemma sorted_unique: "sorted ys \<Longrightarrow> mset ys = M \<Longrightarrow> ys = sorted_list_of_multiset M"
  by (metis mset_sorted_list_of_multiset properties_for_sort sorted_sorted_list_of_multiset)

lemma Insert_refines:
  assumes p: "0 \<le> p" "p \<le> 1" and rep: "pf_rep p f M" and n: "size M < 2 ^ 24"
  shows "\<exists>f'. pf_Insert v f = Inr f' \<and> pf_rep p f' (add_mset v M)"
proof (cases "M = {#}")
  case True
  then have "pf_percentile f = Finite p" "pf_set f = []" using rep by (simp_all add: pf_rep_def)
  then have "pf_Insert v f = UpdatePercentileIterator \<lparr>pf_percentile = Finite p, pf_set = [v], pf_it = 0, pf_index = int 0\<rparr>"
    by (cases f) (simp add: pf_Insert_def Let_def upper_bound_pos_def)
  then show ?thesis using True UpdatePercentileIterator_ok [OF p, of "[v]" 0] by (simp add: pf_rep_def pf_at_def)
next
  case False
  let ?xs = "sorted_list_of_multiset M"
  let ?ys = "take (upper_bound_pos v ?xs) ?xs @ v # drop (upper_bound_pos v ?xs) ?xs"
  have f: "f = pf_at p ?xs" and ne: "?xs \<noteq> []" using rep False by (auto simp: pf_rep_def)
  have ys: "?ys = sorted_list_of_multiset (add_mset v M)"
    using insert_pos [of ?xs v] by (intro sorted_unique) simp_all
  have "pf_Insert v f = Inr (pf_at p ?ys)" unfolding f using n ne by (intro Insert_at p) simp_all
  then show ?thesis unfolding ys using n by (simp add: pf_rep_def pf_at_def)
qed

lemma Erase_refines:
  assumes p: "0 \<le> p" "p \<le> 1" and rep: "pf_rep p f M"
  shows "\<exists>f'. pf_Erase v f = Inr (v \<in># M, f') \<and> pf_rep p f' (M - {#v#})"
proof (cases "v \<in># M")
  case True
  let ?xs = "sorted_list_of_multiset M"
  let ?k = "lower_bound_pos v ?xs"
  have f: "f = pf_at p ?xs" and ne: "?xs \<noteq> []" and n: "size M \<le> 2 ^ 24" using rep True by (auto simp: pf_rep_def)
  from Erase_at [OF p, of ?xs v] True ne n obtain f' where k: "?k < length ?xs" "?xs ! ?k = v" and
    f': "pf_Erase v f = Inr (True, f')" "pf_percentile f' = Finite p" "pf_set f' = take ?k ?xs @ drop (?k + 1) ?xs"
      "pf_set f' \<noteq> [] \<longrightarrow> f' = pf_at p (pf_set f')" unfolding f by auto
  have ys: "pf_set f' = sorted_list_of_multiset (M - {#v#})"
    unfolding f'(3) using erase_pos [of ?xs ?k] k by (intro sorted_unique) simp_all
  have "size (M - {#v#}) \<le> 2 ^ 24" using n size_mset_mono [OF diff_subset_eq_self [of M "{#v#}"]] by linarith
  moreover have "M - {#v#} \<noteq> {#} \<longrightarrow> f' = pf_at p (sorted_list_of_multiset (M - {#v#}))" using f'(4) unfolding ys sorted_list_size .
  ultimately have "pf_rep p f' (M - {#v#})" using f'(2) ys unfolding pf_rep_def by (intro conjI)
  then show ?thesis using True f'(1) by (intro exI [of _ f']) simp
next
  case False
  let ?xs = "sorted_list_of_multiset M"
  have "lower_bound_pos v ?xs = length ?xs \<or> ?xs ! lower_bound_pos v ?xs \<noteq> v"
  proof (rule ccontr)
    assume "\<not> ?thesis"
    moreover have "lower_bound_pos v ?xs \<le> length ?xs" unfolding lower_bound_pos_def by (rule length_takeWhile_le)
    ultimately have "v \<in> set ?xs" by (metis le_neq_implies_less nth_mem)
    then show False using False by simp
  qed
  then have "pf_Erase v f = Inr (False, f)" using rep by (simp add: pf_Erase_def pf_rep_def Let_def)
  then show ?thesis using False rep by (simp add: diff_single_trivial)
qed

lemma pf_run_refines:
  assumes "pf_rep_log p s a" "pf_spec op a = Some a'"
  shows "\<exists>s'. pf_run op s = Some (Inr s') \<and> pf_rep_log p s' a'"
proof -
  obtain f rs M rs' where s: "s = (f, rs)" "a = (M, rs')" by (cases s, cases a)
  have p: "0 \<le> p" "p \<le> 1" and rep: "pf_rep p f M" and rs: "rs = rs'" using assms(1) s by (simp_all add: pf_rep_log_def)
  show ?thesis
  proof (cases op)
    case (PfInsert v)
    then show ?thesis using assms(2) s rs p Insert_refines [OF p rep, of v] by (auto simp: pf_rep_log_def split: if_splits)
  next
    case (PfErase v)
    then show ?thesis using assms(2) s rs p Erase_refines [OF p rep, of v] by (auto simp: pf_rep_log_def)
  next
    case PfReset
    then show ?thesis using assms(2) s rs p rep by (auto simp: pf_rep_log_def pf_rep_def pf_Reset_def)
  qed
qed

interpretation percentile_filter: refined_container "pf_rep_log p" pf_run pf_spec for p
  by unfold_locales (rule pf_run_refines)

lemma GetPercentileValue_rep:
  assumes "0 \<le> p" "p \<le> 1" "pf_rep p f M"
  shows "GetPercentileValue f = Inr (if M = {#} then 0 else sorted_list_of_multiset M ! percentile_pos p (size M))"
proof (cases "M = {#}")
  case False
  then have "percentile_pos p (size M) < size M" using target_index_ok [OF assms(1,2), of "size M"] assms(3)
    by (simp add: pf_rep_def nonempty_has_size)
  then show ?thesis using False assms(3) by (auto simp: GetPercentileValue_def pf_rep_def pf_at_def set_deref_def)
qed (use assms in \<open>simp add: GetPercentileValue_def pf_rep_def\<close>)

lemma PercentileFilter_ctor_rep:
  "0 \<le> p \<Longrightarrow> p \<le> 1 \<Longrightarrow> \<exists>f. PercentileFilter_ctor (Finite p) = Inr f \<and> pf_rep p f {#}"
  by (auto simp: PercentileFilter_ctor_def pf_rep_def order_le_less)

section \<open>The median of the last samples\<close>

datatype 'a md_op = MdInsert 'a | MdReset

fun md_run :: "'a::linorder md_op \<Rightarrow> 'a MovingMedianFilter \<Rightarrow> 'a MovingMedianFilter result option" where
  "md_run (MdInsert v) m = Some (md_Insert v m)"
| "md_run MdReset m = Some (Inr (md_Reset m))"

fun md_spec :: "'a md_op \<Rightarrow> 'a list \<Rightarrow> 'a list option" where
  \<comment> \<open>every sample since the last reset\<close>
  "md_spec (MdInsert v) h = Some (h @ [v])"
| "md_spec MdReset h = Some []"

definition last_samples :: "nat \<Rightarrow> 'a list \<Rightarrow> 'a list" where
  "last_samples w h = drop (length h - w) h"

definition md_rep :: "nat \<Rightarrow> 'a::linorder MovingMedianFilter \<Rightarrow> 'a list \<Rightarrow> bool" where
  "md_rep w m h \<longleftrightarrow> md_window_size m = w \<and> 0 < w \<and> w < 2 ^ 24 \<and> md_samples m = last_samples w h \<and>
     md_samples_stored m = length (md_samples m) \<and> pf_rep (1 / 2) (md_percentile_filter m) (mset (md_samples m))"

lemma last_samples_snoc:
  "0 < w \<Longrightarrow> last_samples w (h @ [v]) =
    (if length (last_samples w h) = w then tl (last_samples w h @ [v]) else last_samples w h @ [v])"
  by (auto simp: last_samples_def Suc_diff_le drop_Suc tl_drop)

lemma last_samples_length: "length (last_samples w h) \<le> w"
  by (simp add: last_samples_def)

lemma md_Insert_rep:
  assumes rep: "md_rep w m h"
  shows "\<exists>m'. md_Insert v m = Inr m' \<and> md_rep w m' (h @ [v])"
proof -
  let ?xs = "last_samples w h"
  have w: "md_window_size m = w" "0 < w" "w < 2 ^ 24" and s: "md_samples m = ?xs" "md_samples_stored m = length ?xs"
    and f: "pf_rep (1 / 2) (md_percentile_filter m) (mset ?xs)" using rep by (auto simp: md_rep_def)
  have n: "length ?xs \<le> w" by (rule last_samples_length)
  obtain f1 where f1: "pf_Insert v (md_percentile_filter m) = Inr f1" "pf_rep (1 / 2) f1 (add_mset v (mset ?xs))"
    using Insert_refines [OF _ _ f, of v] n w(3) by auto
  have st: "sz_add (length ?xs) (Suc 0) = Suc (length ?xs)" using n w(3) by (subst sz_add_small) (simp_all add: size_mod_def)
  show ?thesis
  proof (cases "length ?xs = w")
    case False
    then have "md_Insert v m = Inr (m\<lparr>md_percentile_filter := f1, md_samples := ?xs @ [v], md_samples_stored := Suc (length ?xs)\<rparr>)"
      using f1(1) w(1) s st n by (simp add: md_Insert_def)
    then show ?thesis using False w f1(2) last_samples_snoc [OF w(2), of h v] by (simp add: md_rep_def)
  next
    case True
    let ?ys = "?xs @ [v]"
    have ys: "mset ?ys - {#hd ?ys#} = mset (tl ?ys)" by (cases ?ys) simp_all
    have h: "hd ?ys \<in># mset ?ys" by (metis hd_in_set set_mset_mset snoc_eq_iff_butlast)
    obtain f2 where f2: "pf_Erase (hd ?ys) f1 = Inr (True, f2)" "pf_rep (1 / 2) f2 (mset (tl ?ys))"
      using Erase_refines [of "1 / 2" f1 "mset ?ys" "hd ?ys"] f1(2) h ys by auto
    have sb: "sz_sub (Suc (length ?xs)) (Suc 0) = length ?xs" using n w(3) by (subst sz_sub_small) (simp_all add: size_mod_def)
    have "md_Insert v m = Inr (m\<lparr>md_percentile_filter := f2, md_samples := tl ?ys, md_samples_stored := length ?xs\<rparr>)"
      using f1(1) f2(1) w(1) s st sb True by (simp add: md_Insert_def)
    then show ?thesis using True w f2(2) last_samples_snoc [OF w(2), of h v] by (simp add: md_rep_def)
  qed
qed

lemma md_run_refines:
  assumes "md_rep w m h" "md_spec op h = Some h'"
  shows "\<exists>m'. md_run op m = Some (Inr m') \<and> md_rep w m' h'"
proof (cases op)
  case (MdInsert v)
  then show ?thesis using assms md_Insert_rep by auto
next
  case MdReset
  then show ?thesis using assms by (auto simp: md_rep_def md_Reset_def pf_Reset_def pf_rep_def last_samples_def)
qed

interpretation moving_median: refined_container "md_rep w" md_run md_spec for w
  by unfold_locales (rule md_run_refines)

lemma float_beyond_2_24:
  "round_to float_t 16777216 = Finite 16777216" "round_to float_t 16777217 = Finite 16777216"
  "round_to float_t 16777218 = Finite 16777218" "round_to float_t 16777219 = Finite 16777220" "round_to float_t 16777220 = Finite 16777220"
proof -
  have r: "round_to float_t x = Finite (of_int (round_even (x / 2)) * 2)" if "2 ^ 24 \<le> x" "x < 2 ^ 25" for x
  proof -
    have x: "0 < x" "binade x = 24" using that binade_unique [of x 24] by (simp_all add: pow2_def)
    have "x / 2 \<le> of_int (2 ^ 24)" using that(2) by simp
    then have "round_even (x / 2) \<le> 2 ^ 24" by (rule round_even_upper)
    moreover have "0 \<le> round_even (x / 2)" using x(1) by (intro round_even_nonneg) simp
    ultimately have "(of_int (round_even (x / 2)) :: rat) \<le> of_int (2 ^ 24)" "(of_int 0 :: rat) \<le> of_int (round_even (x / 2))"
      unfolding of_int_le_iff by simp_all
    then have "\<bar>of_int (round_even (x / 2)) * 2\<bar> < pow2 128" by (simp add: pow2_def)
    then show ?thesis using x by (simp add: round_to_float float_ulp_def pow2_def [of 1] Let_def)
  qed
  have f: "\<lfloor>(16777217 :: rat) / 2\<rfloor> = 8388608" "\<lfloor>(16777219 :: rat) / 2\<rfloor> = 8388609" by (simp_all add: floor_eq_iff)
  have odd: "round_even (16777217 / 2) = 8388608" "round_even (16777219 / 2) = 8388610" unfolding round_even_def f Let_def by simp_all
  have even: "round_even 8388608 = 8388608" "round_even 8388609 = 8388609" "round_even 8388610 = 8388610"
    using round_even_int [of 8388608] round_even_int [of 8388609] round_even_int [of 8388610] by simp_all
  show "round_to float_t 16777216 = Finite 16777216" using r [of 16777216] by (simp add: even)
  show "round_to float_t 16777217 = Finite 16777216" using r [of 16777217] by (simp add: odd)
  show "round_to float_t 16777218 = Finite 16777218" using r [of 16777218] by (simp add: even)
  show "round_to float_t 16777219 = Finite 16777220" using r [of 16777219] by (simp add: odd)
  show "round_to float_t 16777220 = Finite 16777220" using r [of 16777220] by (simp add: even)
qed

lemma Insert_equal:
  assumes "target_index p (Suc n) = Inr (int t)" "t \<le> Suc n" "i < n" "n < 2 ^ 30"
  shows "pf_Insert v \<lparr>pf_percentile = p, pf_set = replicate n v, pf_it = i, pf_index = int i\<rparr> =
    Inr \<lparr>pf_percentile = p, pf_set = replicate (Suc n) v, pf_it = t, pf_index = int t\<rparr>"
proof -
  have u: "upper_bound_pos v (replicate n v) = n" by (simp add: upper_bound_pos_def)
  have r: "replicate n v @ [v] = replicate (Suc n) v" by (simp add: replicate_append_same)
  have i: "in_type int64_t (int t - int i)" using assms(2-4) by (simp add: limit_defs)
  show ?thesis using assms i unfolding pf_Insert_def Let_def PercentileFilter.select_convs PercentileFilter.update_convs u
    by (simp add: r UpdatePercentileIterator_def set_deref_def c_int64_def set_advance_def del: replicate_Suc)
qed

lemma target_index_beyond:
  "target_index (Finite 1) 16777217 = Inr 16777216" "target_index (Finite 1) 16777218 = Inr 16777216"
  "target_index (Finite 1) 16777219 = Inr 16777218" "target_index (Finite 1) 16777220 = Inr 16777220"
  using float_beyond_2_24 by (simp_all add: target_index_def rat_trunc_def limit_defs sz_sub_def size_mod_def)

lemma percentile_pos_one:
  assumes "0 < n" "n \<le> 2 ^ 24"
  shows "percentile_pos 1 n = n - 1"
proof (cases "n - 1 = 0")
  case False
  have "round_to float_t (of_nat (n - 1) * pow2 0) = Finite (of_nat (n - 1) * pow2 0)" using False assms by (intro float_exact) auto
  then have "round_to float_t (1 * of_nat (n - 1)) = Finite (of_nat (n - 1))" by (simp add: pow2_def)
  then show ?thesis by (simp only: percentile_pos_def) simp
qed (simp add: percentile_pos_def)

lemma replicate_sorted: "sorted_list_of_multiset (replicate_mset n v) = replicate n v"
  by (intro sorted_unique [symmetric]) simp_all

lemma run_all_append: "run_all run (xs @ ys) s = obind (run_all run xs s) (run_all run ys)"
  by (induction xs arbitrary: s) (auto simp: obind_def split: option.split sum.split)

lemma run_four_inserts:
  "pf_Insert v a = Inr b \<Longrightarrow> pf_Insert v b = Inr c \<Longrightarrow> pf_Insert v c = Inr d \<Longrightarrow> pf_Insert v d = Inr e \<Longrightarrow>
   run_all pf_run (replicate 4 (PfInsert v)) (a, rs) = Some (Inr (e, rs))"
  by (simp add: numeral_eq_Suc)

lemma spec_replicate_inserts: "n \<le> 2 ^ 24 - size M \<Longrightarrow> spec_all pf_spec (replicate n (PfInsert v)) (M, rs) = Some (replicate_mset n v + M, rs)"
  by (induction n arbitrary: M) auto

section \<open>Properties\<close>

text \<open>After any insertions, removals and resets that keep the number of observations within \<open>2^24\<close>, no call has moved
    the iterator out of the set or dereferenced its end, each \<open>Erase\<close> reported whether the value was there, and \<open>GetPercentileValue\<close>
    is the element of the sorted observations at the position that the percentile has in binary32, or 0
    when there are none.\<close>
theorem percentile_exact:
  fixes M :: "'a::{linorder, zero} multiset"
  assumes "0 \<le> p" "p \<le> 1" "spec_all pf_spec ops ({#}, []) = Some (M, rs)"
  shows "\<exists>f0 f. PercentileFilter_ctor (Finite p) = Inr f0 \<and> run_all pf_run ops (f0, []) = Some (Inr (f, rs)) \<and>
    GetPercentileValue f = Inr (if M = {#} then 0 else sorted_list_of_multiset M ! percentile_pos p (size M)) \<and>
    (M \<noteq> {#} \<longrightarrow> percentile_pos p (size M) < size M)"
proof -
  obtain f0 where f0: "PercentileFilter_ctor (Finite p) = Inr f0" "pf_rep p f0 ({#} :: 'a multiset)"
    using PercentileFilter_ctor_rep [OF assms(1,2)] by (elim exE conjE)
  then have "pf_rep_log p (f0, []) ({#}, [])" using assms(1,2) by (simp add: pf_rep_log_def)
  from percentile_filter.run_all_refines [OF this assms(3)] obtain f where
    f: "run_all pf_run ops (f0, []) = Some (Inr (f, rs))" "pf_rep p f M" by (auto simp: pf_rep_log_def)
  have "M \<noteq> {#} \<longrightarrow> percentile_pos p (size M) < size M"
    using target_index_ok [OF assms(1,2), of "size M"] f(2) by (simp add: pf_rep_def nonempty_has_size)
  then show ?thesis using f0(1) f(1) GetPercentileValue_rep [OF assms(1,2) f(2)] by (intro exI conjI) simp_all
qed

theorem percentile_exact_witness:
  "\<exists>f0 f. PercentileFilter_ctor (Finite (3 / 4)) = Inr f0 \<and>
    run_all pf_run [PfInsert 5, PfInsert 1, PfErase 7, PfInsert 9, PfInsert 5, PfInsert 3, PfErase 5] (f0, []) = Some (Inr (f, [False, True])) \<and>
    GetPercentileValue f = Inr (5 :: int)"
proof -
  have pos: "percentile_pos (3 / 4) (Suc (Suc (Suc (Suc 0)))) = 2" by code_simp
  show ?thesis
    using percentile_exact [of "3 / 4" "[PfInsert 5, PfInsert 1, PfErase 7, PfInsert 9, PfInsert 5, PfInsert 3, PfErase (5 :: int)]"
      "{#1, 3, 5, 9#}" "[False, True]"] pos
    by (simp add: add_mset_commute)
qed

text \<open>Claim C15. The moving median of a window of fewer than \<open>2^24\<close> samples never fails and returns the (lower) median of the samples
    that were inserted last since the last reset, as many as the window holds, or 0 when there are none.\<close>
theorem moving_median_exact:
  fixes h :: "'a::{linorder, zero} list"
  assumes "0 < w" "w < 2 ^ 24" "spec_all md_spec ops [] = Some h"
  shows "\<exists>m0 m. MovingMedianFilter_ctor w = Inr m0 \<and> run_all md_run ops m0 = Some (Inr m) \<and>
    GetFilteredValue m = Inr (if h = [] then 0 else sort (last_samples w h) ! ((length (last_samples w h) - 1) div 2))"
proof -
  obtain f0 where f0: "PercentileFilter_ctor (Finite (1 / 2)) = Inr f0" "pf_rep (1 / 2) f0 ({#} :: 'a multiset)"
    using PercentileFilter_ctor_rep [of "1 / 2"] by auto
  let ?m0 = "\<lparr>md_percentile_filter = f0, md_samples = [], md_samples_stored = 0, md_window_size = w\<rparr>"
  have m0: "MovingMedianFilter_ctor w = Inr ?m0" using f0(1) assms(1) by (simp add: MovingMedianFilter_ctor_def)
  have "md_rep w ?m0 []" using f0(2) assms(1,2) by (simp add: md_rep_def last_samples_def)
  from moving_median.run_all_refines [OF this assms(3)] obtain m where
    m: "run_all md_run ops ?m0 = Some (Inr m)" "md_rep w m h" by (elim exE conjE)
  have f: "pf_rep (1 / 2) (md_percentile_filter m) (mset (last_samples w h))" using m(2) by (auto simp: md_rep_def)
  have e: "last_samples w h = [] \<longleftrightarrow> h = []" using assms(1) by (cases h) (auto simp: last_samples_def)
  have "length (last_samples w h) \<le> 2 ^ 24" using last_samples_length [of w h] assms(2) by linarith
  then have "h \<noteq> [] \<longrightarrow> percentile_pos (1 / 2) (length (last_samples w h)) = (length (last_samples w h) - 1) div 2"
    using e percentile_pos_half [of "length (last_samples w h)"] by simp
  then have "GetFilteredValue m = Inr (if h = [] then 0 else sort (last_samples w h) ! ((length (last_samples w h) - 1) div 2))"
    using GetPercentileValue_rep [OF _ _ f] e by (cases "h = []") (simp_all add: GetFilteredValue_def)
  then show ?thesis using m0 m(1) by blast
qed

theorem moving_median_exact_witness:
  "\<exists>m0 m. MovingMedianFilter_ctor 3 = Inr m0 \<and> run_all md_run [MdInsert 9, MdReset, MdInsert 7, MdInsert 1, MdInsert 4, MdInsert 2] m0 = Some (Inr m) \<and>
    GetFilteredValue m = Inr (2 :: int)"
  using moving_median_exact [of 3 "[MdInsert 9, MdReset, MdInsert 7, MdInsert 1, MdInsert 4, MdInsert (2 :: int)]" "[7, 1, 4, 2]"]
  by (simp add: last_samples_def)

text \<open>Beyond \<open>2^24\<close> observations binary32 cannot hold the size: after \<open>2^24 + 4\<close> insertions into a new filter with
    percentile 1, all of which return, the iterator is at the end of the set and \<open>GetPercentileValue\<close> dereferences it.\<close>
theorem percentile_end_dereferenced:
  fixes v :: "'a::{linorder, zero}"
  shows
  "\<exists>f0 f. PercentileFilter_ctor (Finite 1) = Inr f0 \<and>
    run_all pf_run (replicate (2 ^ 24 + 4) (PfInsert v)) (f0, []) = Some (Inr (f, [])) \<and>
    pf_it f = length (pf_set f) \<and> GetPercentileValue f = Inl OutOfBounds"
proof -
  define N :: nat where "N = 2 ^ 24"
  let ?s = "\<lambda>n i. \<lparr>pf_percentile = Finite 1, pf_set = replicate n v, pf_it = i, pf_index = int i\<rparr>"
  obtain f0 where f0: "PercentileFilter_ctor (Finite 1) = Inr f0" "pf_rep 1 f0 ({#} :: 'a multiset)" using PercentileFilter_ctor_rep [of 1] by auto
  then have "pf_rep_log 1 (f0, []) ({#}, [])" by (simp add: pf_rep_log_def)
  from percentile_filter.run_all_refines [OF this, of "replicate N (PfInsert v)"] spec_replicate_inserts [of N "{#}" v "[]"]
  obtain f where run: "run_all pf_run (replicate N (PfInsert v)) (f0, []) = Some (Inr (f, []))" and rep: "pf_rep 1 f (replicate_mset N v)"
    by (auto simp: pf_rep_log_def N_def)
  have f: "f = ?s N (N - 1)" using rep percentile_pos_one [of N] by (simp add: pf_rep_def pf_at_def replicate_sorted N_def)
  have "pf_Insert v (?s N (N - 1)) = Inr (?s (Suc N) N)" "pf_Insert v (?s (Suc N) N) = Inr (?s (Suc (Suc N)) N)"
    "pf_Insert v (?s (Suc (Suc N)) N) = Inr (?s (Suc (Suc (Suc N))) (Suc (Suc N)))"
    "pf_Insert v (?s (Suc (Suc (Suc N))) (Suc (Suc N))) = Inr (?s (Suc (Suc (Suc (Suc N)))) (Suc (Suc (Suc (Suc N)))))"
    by (intro Insert_equal; simp add: target_index_beyond N_def)+
  then have "run_all pf_run (replicate 4 (PfInsert v)) (f, []) = Some (Inr (?s (Suc (Suc (Suc (Suc N)))) (Suc (Suc (Suc (Suc N)))), []))"
    unfolding f by (rule run_four_inserts)
  then have "run_all pf_run (replicate (N + 4) (PfInsert v)) (f0, []) = Some (Inr (?s (Suc (Suc (Suc (Suc N)))) (Suc (Suc (Suc (Suc N)))), []))"
    using run unfolding replicate_add run_all_append by simp
  then show ?thesis using f0(1) unfolding N_def [symmetric] by (intro exI conjI) (auto simp: GetPercentileValue_def set_deref_def)
qed

end
