(* ===== verification/Swap_Queue.thy ===== *)
theory Swap_Queue
  imports Container_Spec "HOL-Library.Multiset"
begin

text \<open>
  \<open>rtc_base/swap_queue.h\<close>: \<open>SwapQueue<T>\<close>, a fixed-size queue between producers and consumers that hands values over
  by swapping. Every public operation holds \<open>crit_queue_\<close> from its first access to the members to its return, so
  any concurrent use is some sequence of whole operations. Shown: over every such sequence the queue is a bounded
  FIFO queue, no value is lost or duplicated, and everything handed back passes the item verifier.
\<close>

section \<open>The class\<close>

record 'a SwapQueue =
  sq_next_write_index :: size_t
  sq_next_read_index :: size_t
  sq_num_elements :: size_t
  sq_queue :: "'a list"

primrec verify_slots :: "bool \<Rightarrow> ('a \<Rightarrow> bool) \<Rightarrow> 'a list \<Rightarrow> unit result" where
  "verify_slots on verifier [] = Inr ()"
| "verify_slots on verifier (v # vs) = rbind (rtc_dcheck on (verifier v)) (\<lambda>_. verify_slots on verifier vs)"

definition VerifyQueueSlots :: "bool \<Rightarrow> ('a \<Rightarrow> bool) \<Rightarrow> 'a SwapQueue \<Rightarrow> bool result" where
  "VerifyQueueSlots on verifier q = rbind (verify_slots on verifier (sq_queue q)) (\<lambda>_. Inr True)"

definition SwapQueue_ctor :: "bool \<Rightarrow> ('a \<Rightarrow> bool) \<Rightarrow> size_t \<Rightarrow> 'a \<Rightarrow> 'a SwapQueue result" where
  \<comment> \<open>the constructors without a prototype fill the queue with \<open>T()\<close>, those without a verifier use one that accepts
     everything; \<open>RTC_DCHECK\<close> evaluates its argument only when it is on\<close>
  "SwapQueue_ctor on verifier n prototype =
     (let q = \<lparr>sq_next_write_index = 0, sq_next_read_index = 0, sq_num_elements = 0, sq_queue = replicate n prototype\<rparr>
      in if on then rbind (VerifyQueueSlots on verifier q) (\<lambda>b. rbind (rtc_dcheck on b) (\<lambda>_. Inr q)) else Inr q)"

definition sq_Clear :: "'a SwapQueue \<Rightarrow> 'a SwapQueue" where
  "sq_Clear q = q\<lparr>sq_next_write_index := 0, sq_next_read_index := 0, sq_num_elements := 0\<rparr>"

definition swap_slot :: "'a \<Rightarrow> size_t \<Rightarrow> 'a list \<Rightarrow> ('a \<times> 'a list) result" where
  \<comment> \<open>\<open>swap(*p, queue_[i])\<close>\<close>
  "swap_slot x i xs = rbind (rguard (i < length xs) OutOfBounds) (\<lambda>_. Inr (xs ! i, xs[i := x]))"

definition next_index :: "size_t \<Rightarrow> size_t \<Rightarrow> size_t" where
  \<comment> \<open>\<open>++index; if (index == queue_.size()) index = 0;\<close>\<close>
  "next_index n i = (if sz_add i 1 = n then 0 else sz_add i 1)"

definition sq_Insert :: "bool \<Rightarrow> ('a \<Rightarrow> bool) \<Rightarrow> 'a option \<Rightarrow> 'a SwapQueue \<Rightarrow> (bool \<times> 'a option \<times> 'a SwapQueue) result" where
  \<comment> \<open>the pointer \<open>input\<close> is null or points to a value; the second component is what it points to at the end\<close>
  "sq_Insert on verifier input q =
     rbind (rtc_dcheck on (input \<noteq> None)) (\<lambda>_.
     case input of
       None \<Rightarrow> if sq_num_elements q = length (sq_queue q) then Inr (False, None, q) else Inl NullPointer
     | Some x \<Rightarrow>
         rbind (rtc_dcheck on (verifier x)) (\<lambda>_.
         if sq_num_elements q = length (sq_queue q) then Inr (False, Some x, q)
         else
           rbind (swap_slot x (sq_next_write_index q) (sq_queue q)) (\<lambda>(y, slots).
           let w = next_index (length slots) (sq_next_write_index q);
               m = sz_add (sq_num_elements q) 1
           in rbind (rtc_dcheck on (w < length slots)) (\<lambda>_.
              rbind (rtc_dcheck on (m \<le> length slots)) (\<lambda>_.
              Inr (True, Some y, q\<lparr>sq_next_write_index := w, sq_num_elements := m, sq_queue := slots\<rparr>))))))"

definition sq_Remove :: "bool \<Rightarrow> ('a \<Rightarrow> bool) \<Rightarrow> 'a option \<Rightarrow> 'a SwapQueue \<Rightarrow> (bool \<times> 'a option \<times> 'a SwapQueue) result" where
  "sq_Remove on verifier output q =
     rbind (rtc_dcheck on (output \<noteq> None)) (\<lambda>_.
     case output of
       None \<Rightarrow> if sq_num_elements q = 0 then Inr (False, None, q) else Inl NullPointer
     | Some x \<Rightarrow>
         rbind (rtc_dcheck on (verifier x)) (\<lambda>_.
         if sq_num_elements q = 0 then Inr (False, Some x, q)
         else
           rbind (swap_slot x (sq_next_read_index q) (sq_queue q)) (\<lambda>(y, slots).
           let r = next_index (length slots) (sq_next_read_index q);
               m = sz_sub (sq_num_elements q) 1
           in rbind (rtc_dcheck on (r < length slots)) (\<lambda>_.
              rbind (rtc_dcheck on (m \<le> length slots)) (\<lambda>_.
              Inr (True, Some y, q\<lparr>sq_next_read_index := r, sq_num_elements := m, sq_queue := slots\<rparr>))))))"

section \<open>Bounded queue\<close>

text \<open>An operation, what the caller got back from it, and the answer of a bounded FIFO queue to it.\<close>

datatype 'a sq_op = SqInsert 'a | SqRemove 'a | SqClear

datatype 'a sq_reply = Inserted bool 'a | Removed bool 'a

datatype 'a sq_answer = InsertAnswer bool | RemoveAnswer "'a option"

fun reply_answer :: "'a sq_reply \<Rightarrow> 'a sq_answer" where
  "reply_answer (Inserted b y) = InsertAnswer b"
| "reply_answer (Removed b y) = RemoveAnswer (if b then Some y else None)"

fun reply_value :: "'a sq_reply \<Rightarrow> 'a" where
  "reply_value (Inserted b y) = y"
| "reply_value (Removed b y) = y"

fun op_values :: "'a sq_op \<Rightarrow> 'a list" where
  "op_values (SqInsert x) = [x]"
| "op_values (SqRemove x) = [x]"
| "op_values SqClear = []"

fun sq_run :: "bool \<Rightarrow> ('a \<Rightarrow> bool) \<Rightarrow> 'a sq_op \<Rightarrow> 'a SwapQueue \<times> 'a sq_reply list \<Rightarrow> ('a SwapQueue \<times> 'a sq_reply list) result option" where
  "sq_run on V (SqInsert x) (q, rs) =
     Some (rbind (sq_Insert on V (Some x) q) (\<lambda>(b, y, q'). Inr (q', rs @ [Inserted b (the y)])))"
| "sq_run on V (SqRemove x) (q, rs) =
     Some (rbind (sq_Remove on V (Some x) q) (\<lambda>(b, y, q'). Inr (q', rs @ [Removed b (the y)])))"
| "sq_run on V SqClear (q, rs) = Some (Inr (sq_Clear q, rs))"

fun fifo_spec :: "('a \<Rightarrow> bool) \<Rightarrow> nat \<Rightarrow> 'a sq_op \<Rightarrow> 'a list \<times> 'a sq_answer list \<Rightarrow> ('a list \<times> 'a sq_answer list) option" where
  "fifo_spec V n (SqInsert x) (l, rs) =
     (if \<not> V x then None
      else if length l = n then Some (l, rs @ [InsertAnswer False])
      else Some (l @ [x], rs @ [InsertAnswer True]))"
| "fifo_spec V n (SqRemove x) (l, rs) =
     (if \<not> V x then None
      else if l = [] then Some (l, rs @ [RemoveAnswer None])
      else Some (tl l, rs @ [RemoveAnswer (Some (hd l))]))"
| "fifo_spec V n SqClear (l, rs) = Some ([], rs)"

definition sq_rep :: "('a \<Rightarrow> bool) \<Rightarrow> nat \<Rightarrow> 'a SwapQueue \<times> 'a sq_reply list \<Rightarrow> 'a list \<times> 'a sq_answer list \<Rightarrow> bool" where
  "sq_rep V n = (\<lambda>(q, rs) (l, answers).
     length (sq_queue q) = n \<and> n < size_mod \<and> sq_num_elements q = length l \<and> length l \<le> n \<and>
     (0 < n \<longrightarrow> sq_next_read_index q < n \<and> sq_next_write_index q = (sq_next_read_index q + length l) mod n) \<and>
     (\<forall>i < length l. sq_queue q ! ((sq_next_read_index q + i) mod n) = l ! i) \<and>
     list_all V (sq_queue q) \<and> map reply_answer rs = answers \<and> list_all V (map reply_value rs))"

lemma next_index_mod: "i < n \<Longrightarrow> n < size_mod \<Longrightarrow> next_index n i = (i + 1) mod n"
  by (simp add: next_index_def sz_add_small mod_Suc)

lemma ring_slots_distinct:
  assumes "i < (n :: nat)" "j < n" "(r + i) mod n = (r + j) mod n"
  shows "i = j"
proof (rule ccontr)
  have ij: "a = b" if "a \<le> b" "b < n" "(r + a) mod n = (r + b) mod n" for a b
  proof -
    have "n dvd (r + b) - (r + a)" using that by (intro mod_eq_dvd_iff_nat [THEN iffD1]) auto
    then have "n dvd b - a" by simp
    then show ?thesis using that by (auto dest: dvd_imp_le)
  qed
  assume "i \<noteq> j"
  then show False using ij [of i j] ij [of j i] assms by (metis nat_le_linear)
qed

lemma Insert_rep:
  assumes rep: "sq_rep V n (q, rs) (l, answers)" and V: "V x" and room: "length l \<noteq> n"
  shows "\<exists>y q'. sq_Insert on V (Some x) q = Inr (True, Some y, q') \<and>
    sq_rep V n (q', rs @ [Inserted True y]) (l @ [x], answers @ [InsertAnswer True])"
proof -
  let ?w = "sq_next_write_index q" and ?r = "sq_next_read_index q"
  have n: "0 < n" "length l < n" "n < size_mod" "length (sq_queue q) = n" "sq_num_elements q = length l"
    using rep room by (auto simp: sq_rep_def)
  have w: "?w = (?r + length l) mod n" "?w < n" "?r < n" using rep n by (auto simp: sq_rep_def)
  have nw: "next_index n ?w = (?r + Suc (length l)) mod n" using w n by (simp add: next_index_mod mod_Suc_eq)
  let ?q = "q\<lparr>sq_next_write_index := next_index n ?w, sq_num_elements := Suc (length l), sq_queue := (sq_queue q)[?w := x]\<rparr>"
  have run: "sq_Insert on V (Some x) q = Inr (True, Some (sq_queue q ! ?w), ?q)"
    using V n w(2) nw by (simp add: sq_Insert_def swap_slot_def sz_add_small)
  have slots: "(sq_queue q)[?w := x] ! ((?r + i) mod n) = (l @ [x]) ! i" if i: "i < length (l @ [x])" for i
  proof (cases "i = length l")
    case True
    then show ?thesis using w n by simp
  next
    case False
    then have "(?r + i) mod n \<noteq> ?w" unfolding w(1) using ring_slots_distinct [of i n "length l" ?r] i n by auto
    then show ?thesis using rep i False by (simp add: sq_rep_def nth_append)
  qed
  have "list_all V ((sq_queue q)[?w := x])" using rep V by (auto simp: sq_rep_def list_all_iff dest!: set_update_subset_insert [THEN subsetD])
  moreover have "V (sq_queue q ! ?w)" using rep w n by (simp add: sq_rep_def list_all_length)
  ultimately have "sq_rep V n (?q, rs @ [Inserted True (sq_queue q ! ?w)]) (l @ [x], answers @ [InsertAnswer True])"
    using rep slots nw w n by (simp add: sq_rep_def)
  then show ?thesis using run by blast
qed

lemma Remove_rep:
  assumes rep: "sq_rep V n (q, rs) (l, answers)" and V: "V x" and ne: "l \<noteq> []"
  shows "\<exists>q'. sq_Remove on V (Some x) q = Inr (True, Some (hd l), q') \<and>
    sq_rep V n (q', rs @ [Removed True (hd l)]) (tl l, answers @ [RemoveAnswer (Some (hd l))])"
proof -
  let ?r = "sq_next_read_index q"
  have n: "0 < n" "length l \<le> n" "n < size_mod" "length (sq_queue q) = n" "sq_num_elements q = length l" "0 < length l"
    using rep ne by (auto simp: sq_rep_def Suc_le_eq)
  have r: "?r < n" "sq_next_write_index q = (?r + length l) mod n" using rep n by (auto simp: sq_rep_def)
  have nr: "next_index n ?r = (?r + 1) mod n" using r n by (simp add: next_index_mod)
  have h: "sq_queue q ! ?r = hd l" using rep n r by (auto simp: sq_rep_def hd_conv_nth ne dest!: spec [of _ 0])
  let ?q = "q\<lparr>sq_next_read_index := next_index n ?r, sq_num_elements := length l - 1, sq_queue := (sq_queue q)[?r := x]\<rparr>"
  have m: "sz_sub (length l) (Suc 0) = length l - Suc 0" using n by (intro sz_sub_small) (simp_all add: Suc_le_eq)
  have run: "sq_Remove on V (Some x) q = Inr (True, Some (hd l), ?q)"
    using V n r nr h m by (simp add: sq_Remove_def swap_slot_def)
  have slots: "(sq_queue q)[?r := x] ! ((next_index n ?r + i) mod n) = tl l ! i" if i: "i < length (tl l)" for i
  proof -
    have e: "(next_index n ?r + i) mod n = (?r + Suc i) mod n" unfolding nr by (simp add: mod_simps)
    have "Suc i < n" using i n by simp
    then have "(?r + Suc i) mod n \<noteq> (?r + 0) mod n" using ring_slots_distinct [of "Suc i" n 0 ?r] n(1) by blast
    then have "(?r + Suc i) mod n \<noteq> ?r" using r by simp
    moreover have "sq_queue q ! ((?r + Suc i) mod n) = l ! Suc i" using rep i by (auto simp: sq_rep_def simp del: add_Suc_right)
    ultimately show ?thesis using i unfolding e by (simp add: nth_tl)
  qed
  have w: "sq_next_write_index q = (next_index n ?r + length (tl l)) mod n" unfolding nr r(2) using ne by (cases l) (simp_all add: mod_simps)
  have "list_all V ((sq_queue q)[?r := x])" using rep V by (auto simp: sq_rep_def list_all_iff dest!: set_update_subset_insert [THEN subsetD])
  moreover have "V (hd l)" unfolding h [symmetric] using rep r n by (simp add: sq_rep_def list_all_length)
  ultimately have "sq_rep V n (?q, rs @ [Removed True (hd l)]) (tl l, answers @ [RemoveAnswer (Some (hd l))])"
    using rep slots nr n w by (simp add: sq_rep_def)
  then show ?thesis using run by blast
qed

lemma sq_run_refines:
  assumes "sq_rep V n s a" "fifo_spec V n op a = Some a'"
  shows "\<exists>s'. sq_run on V op s = Some (Inr s') \<and> sq_rep V n s' a'"
proof -
  obtain q rs l answers where s: "s = (q, rs)" and a: "a = (l, answers)" by (cases s, cases a)
  note rep = assms(1) [unfolded s a]
  show ?thesis
  proof (cases op)
    case (SqInsert x)
    then have V: "V x" using assms(2) a by (auto split: if_splits)
    show ?thesis
    proof (cases "length l = n")
      case True
      then have "sq_Insert on V (Some x) q = Inr (False, Some x, q)" using rep V by (simp add: sq_Insert_def sq_rep_def)
      then show ?thesis using rep assms(2) V True SqInsert s a by (auto simp: sq_rep_def)
    next
      case False
      from Insert_rep [OF rep V this, of on] obtain y q' where "sq_Insert on V (Some x) q = Inr (True, Some y, q')"
        "sq_rep V n (q', rs @ [Inserted True y]) (l @ [x], answers @ [InsertAnswer True])" by (elim exE conjE)
      then show ?thesis using assms(2) V False SqInsert s a by auto
    qed
  next
    case (SqRemove x)
    then have V: "V x" using assms(2) a by (auto split: if_splits)
    show ?thesis
    proof (cases "l = []")
      case True
      then have "sq_Remove on V (Some x) q = Inr (False, Some x, q)" using rep V by (simp add: sq_Remove_def sq_rep_def)
      then show ?thesis using rep assms(2) V True SqRemove s a by (auto simp: sq_rep_def)
    next
      case False
      from Remove_rep [OF rep V this, of on] obtain q' where "sq_Remove on V (Some x) q = Inr (True, Some (hd l), q')"
        "sq_rep V n (q', rs @ [Removed True (hd l)]) (tl l, answers @ [RemoveAnswer (Some (hd l))])" by (elim exE conjE)
      then show ?thesis using assms(2) V False SqRemove s a by auto
    qed
  next
    case SqClear
    then show ?thesis using rep assms(2) s a by (auto simp: sq_rep_def sq_Clear_def)
  qed
qed

interpretation swap_queue: refined_container "sq_rep V n" "sq_run on V" "fifo_spec V n" for V n on
  by unfold_locales (rule sq_run_refines)

lemma verify_slots_ok: "list_all V xs \<Longrightarrow> verify_slots on V xs = Inr ()"
  by (induction xs) simp_all

lemma SwapQueue_ctor_rep:
  assumes "V proto" "n < size_mod"
  obtains q where "SwapQueue_ctor on V n proto = Inr q" "sq_rep V n (q, []) ([], [])" "sq_queue q = replicate n proto"
proof
  let ?q = "\<lparr>sq_next_write_index = 0, sq_next_read_index = 0, sq_num_elements = 0, sq_queue = replicate n proto\<rparr>"
  have "list_all V (replicate n proto)" using assms(1) by (simp add: list_all_iff)
  then show "SwapQueue_ctor on V n proto = Inr ?q" by (simp add: SwapQueue_ctor_def VerifyQueueSlots_def verify_slots_ok Let_def)
  show "sq_rep V n (?q, []) ([], [])" using assms by (simp add: sq_rep_def list_all_iff)
qed simp

section \<open>Conservation\<close>

lemma swap_slot_mset: "swap_slot x i xs = Inr (y, ys) \<Longrightarrow> add_mset y (mset ys) = add_mset x (mset xs)"
  by (auto simp: swap_slot_def rbind_eq_Inr mset_update)

lemma sq_conserves:
  "sq_Insert on V (Some x) q = Inr (b, y, q') \<Longrightarrow> y \<noteq> None \<and> add_mset (the y) (mset (sq_queue q')) = add_mset x (mset (sq_queue q))"
  "sq_Remove on V (Some x) q = Inr (b, y, q') \<Longrightarrow> y \<noteq> None \<and> add_mset (the y) (mset (sq_queue q')) = add_mset x (mset (sq_queue q))"
  by (auto simp: sq_Insert_def sq_Remove_def rbind_eq_Inr Let_def dest!: swap_slot_mset split: if_splits)

lemma sq_run_conserves:
  assumes "sq_run on V op (q, rs) = Some (Inr (q', rs'))"
  shows "mset (sq_queue q') + mset (map reply_value rs') = mset (sq_queue q) + mset (map reply_value rs) + mset (op_values op)"
proof (cases op)
  case (SqInsert x)
  then show ?thesis using assms by (auto simp: rbind_eq_Inr dest!: sq_conserves)
next
  case (SqRemove x)
  then show ?thesis using assms by (auto simp: rbind_eq_Inr dest!: sq_conserves)
next
  case SqClear
  then show ?thesis using assms by (auto simp: sq_Clear_def)
qed

lemma run_all_conserves:
  "run_all (sq_run on V) ops (q, rs) = Some (Inr (q', rs')) \<Longrightarrow>
   mset (sq_queue q') + mset (map reply_value rs') = mset (sq_queue q) + mset (map reply_value rs) + mset (concat (map op_values ops))"
proof (induction ops arbitrary: q rs)
  case (Cons op ops)
  obtain q1 rs1 where "sq_run on V op (q, rs) = Some (Inr (q1, rs1))" "run_all (sq_run on V) ops (q1, rs1) = Some (Inr (q', rs'))"
    using Cons.prems by (auto simp: obind_def split: option.splits sum.splits)
  then show ?case using Cons.IH sq_run_conserves by (simp add: ac_simps)
qed simp

section \<open>Properties\<close>

text \<open>Claim C11. Take any sequence of whole operations of producers and consumers on a new queue, which is what the critical
    section reduces every concurrent use to, with values that pass the verifier. No check fails and no slot outside the
    queue is touched. Every \<open>Insert\<close> and \<open>Remove\<close> answers as a FIFO queue of the given capacity (\<open>false\<close> only when full,
    or empty), every value handed back passes the verifier, and the values in the slots together with those handed
    back are exactly the initial ones together with those handed in.\<close>
theorem swap_queue_fifo:
  assumes "V proto" "n < size_mod" "spec_all (fifo_spec V n) ops ([], []) = Some (l, answers)"
  shows "\<exists>q0 q rs. SwapQueue_ctor on V n proto = Inr q0 \<and> run_all (sq_run on V) ops (q0, []) = Some (Inr (q, rs)) \<and>
    map reply_answer rs = answers \<and> list_all V (map reply_value rs) \<and> sq_num_elements q = length l \<and>
    mset (sq_queue q) + mset (map reply_value rs) = replicate_mset n proto + mset (concat (map op_values ops))"
proof -
  obtain q0 where q0: "SwapQueue_ctor on V n proto = Inr q0" "sq_rep V n (q0, []) ([], [])" "sq_queue q0 = replicate n proto"
    using SwapQueue_ctor_rep [of V, OF assms(1,2)] .
  obtain s where "run_all (sq_run on V) ops (q0, []) = Some (Inr s)" "sq_rep V n s (l, answers)"
    using swap_queue.run_all_refines [OF q0(2) assms(3), of on] by (elim exE conjE)
  then obtain q rs where r: "run_all (sq_run on V) ops (q0, []) = Some (Inr (q, rs))" "sq_rep V n (q, rs) (l, answers)"
    by (cases s) simp
  show ?thesis using q0 r run_all_conserves [OF r(1)] by (intro exI [of _ q0] exI [of _ q] exI [of _ rs]) (simp add: sq_rep_def)
qed

theorem swap_queue_fifo_witness:
  "\<exists>q0 q rs. SwapQueue_ctor True even 2 (0 :: int) = Inr q0 \<and>
    run_all (sq_run True even) [SqRemove 8, SqInsert 2, SqInsert 4, SqInsert 6, SqRemove 10, SqInsert 12, SqRemove 14] (q0, []) = Some (Inr (q, rs)) \<and>
    map reply_answer rs = [RemoveAnswer None, InsertAnswer True, InsertAnswer True, InsertAnswer False, RemoveAnswer (Some 2),
      InsertAnswer True, RemoveAnswer (Some 4)]"
  using swap_queue_fifo [of even 0 2 "[SqRemove 8, SqInsert 2, SqInsert 4, SqInsert 6, SqRemove 10, SqInsert 12, SqRemove (14 :: int)]" "[12]"
    "[RemoveAnswer None, InsertAnswer True, InsertAnswer True, InsertAnswer False, RemoveAnswer (Some 2),
      InsertAnswer True, RemoveAnswer (Some 4)]" True]
  by (simp add: size_mod_def) metis

end
