(* ===== verification/Linked_List.thy ===== *)
theory Linked_List
  imports Container_Spec
begin

text \<open>
  \<open>base/containers/linked_list.h\<close>: \<open>LinkNode<T>\<close> and \<open>LinkedList<T>\<close>, the intrusive circular list whose links live in the
  elements. The nodes are in an explicit store, so that the assignments act on shared nodes as in the code, whatever
  pointers coincide. Shown: the operations refine those of a list of nodes, the links of a node
  are null exactly when it is in no list, and nothing but the neighbours is written.
\<close>

section \<open>Nodes and the store\<close>

record 'n LinkNode =
  ln_previous :: "'n option"
  ln_next :: "'n option"

type_synonym 'n node_store = "'n \<rightharpoonup> 'n LinkNode"

definition load :: "'n option \<Rightarrow> 'n node_store \<Rightarrow> 'n LinkNode result" where
  \<comment> \<open>reading through a pointer: null or a node that does not exist are faults\<close>
  "load p h = (case p of None \<Rightarrow> Inl NullPointer | Some a \<Rightarrow> (case h a of None \<Rightarrow> Inl UseAfterFree | Some n \<Rightarrow> Inr n))"

definition set_next :: "'n option \<Rightarrow> 'n option \<Rightarrow> 'n node_store \<Rightarrow> 'n node_store result" where
  "set_next p v h = rbind (load p h) (\<lambda>n. Inr (h(the p \<mapsto> n\<lparr>ln_next := v\<rparr>)))"

definition set_previous :: "'n option \<Rightarrow> 'n option \<Rightarrow> 'n node_store \<Rightarrow> 'n node_store result" where
  "set_previous p v h = rbind (load p h) (\<lambda>n. Inr (h(the p \<mapsto> n\<lparr>ln_previous := v\<rparr>)))"

definition LinkNode_default :: "'n \<Rightarrow> 'n node_store \<Rightarrow> 'n node_store" where
  "LinkNode_default this h = h(this \<mapsto> \<lparr>ln_previous = None, ln_next = None\<rparr>)"

definition LinkNode_ctor :: "'n \<Rightarrow> 'n option \<Rightarrow> 'n option \<Rightarrow> 'n node_store \<Rightarrow> 'n node_store" where
  "LinkNode_ctor this previous next h = h(this \<mapsto> \<lparr>ln_previous = previous, ln_next = next\<rparr>)"

definition LinkNode_move :: "'n \<Rightarrow> 'n \<Rightarrow> 'n node_store \<Rightarrow> 'n node_store result" where
  \<comment> \<open>\<open>LinkNode(LinkNode&& rhs)\<close>; the fields of the new node are assigned before they are read\<close>
  "LinkNode_move this rhs h =
     rbind (load (Some rhs) h) (\<lambda>r.
     rbind (set_next (Some this) (ln_next r) (h(this \<mapsto> \<lparr>ln_previous = None, ln_next = None\<rparr>))) (\<lambda>h.
     rbind (set_next (Some rhs) None h) (\<lambda>h.
     rbind (load (Some rhs) h) (\<lambda>r.
     rbind (set_previous (Some this) (ln_previous r) h) (\<lambda>h.
     rbind (set_previous (Some rhs) None h) (\<lambda>h.
     rbind (load (Some this) h) (\<lambda>t.
     if ln_next t \<noteq> None
     then rbind (set_previous (ln_next t) (Some this) h) (\<lambda>h.
          rbind (load (Some this) h) (\<lambda>t. set_next (ln_previous t) (Some this) h))
     else Inr h)))))))"

definition InsertBefore :: "'n \<Rightarrow> 'n \<Rightarrow> 'n node_store \<Rightarrow> 'n node_store result" where
  "InsertBefore this e h =
     rbind (set_next (Some this) (Some e) h) (\<lambda>h.
     rbind (load (Some e) h) (\<lambda>n.
     rbind (set_previous (Some this) (ln_previous n) h) (\<lambda>h.
     rbind (load (Some e) h) (\<lambda>n.
     rbind (set_next (ln_previous n) (Some this) h) (\<lambda>h.
     set_previous (Some e) (Some this) h)))))"

definition InsertAfter :: "'n \<Rightarrow> 'n \<Rightarrow> 'n node_store \<Rightarrow> 'n node_store result" where
  "InsertAfter this e h =
     rbind (load (Some e) h) (\<lambda>n.
     rbind (set_next (Some this) (ln_next n) h) (\<lambda>h.
     rbind (set_previous (Some this) (Some e) h) (\<lambda>h.
     rbind (load (Some e) h) (\<lambda>n.
     rbind (set_previous (ln_next n) (Some this) h) (\<lambda>h.
     set_next (Some e) (Some this) h)))))"

definition RemoveFromList :: "'n \<Rightarrow> 'n node_store \<Rightarrow> 'n node_store result" where
  "RemoveFromList this h =
     rbind (load (Some this) h) (\<lambda>t.
     rbind (set_next (ln_previous t) (ln_next t) h) (\<lambda>h.
     rbind (load (Some this) h) (\<lambda>t.
     rbind (set_previous (ln_next t) (ln_previous t) h) (\<lambda>h.
     rbind (set_next (Some this) None h) (\<lambda>h.
     set_previous (Some this) None h)))))"

definition node_previous :: "'n \<Rightarrow> 'n node_store \<Rightarrow> 'n option result" where
  "node_previous this h = rbind (load (Some this) h) (\<lambda>t. Inr (ln_previous t))"

definition node_next :: "'n \<Rightarrow> 'n node_store \<Rightarrow> 'n option result" where
  "node_next this h = rbind (load (Some this) h) (\<lambda>t. Inr (ln_next t))"

section \<open>The list\<close>

text \<open>A list is its root node.\<close>

definition LinkedList_ctor :: "'n \<Rightarrow> 'n node_store \<Rightarrow> 'n node_store" where
  "LinkedList_ctor rt h = LinkNode_ctor rt (Some rt) (Some rt) h"

definition Append :: "'n \<Rightarrow> 'n \<Rightarrow> 'n node_store \<Rightarrow> 'n node_store result" where
  "Append rt e h = InsertBefore e rt h"

definition list_head :: "'n \<Rightarrow> 'n node_store \<Rightarrow> 'n option result" where
  "list_head rt h = node_next rt h"

definition list_tail :: "'n \<Rightarrow> 'n node_store \<Rightarrow> 'n option result" where
  "list_tail rt h = node_previous rt h"

definition list_end :: "'n \<Rightarrow> 'n option" where
  "list_end rt = Some rt"

definition list_empty :: "'n \<Rightarrow> 'n node_store \<Rightarrow> bool result" where
  "list_empty rt h = rbind (list_head rt h) (\<lambda>p. Inr (p = list_end rt))"

section \<open>Linked segments\<close>

definition nxt :: "'n node_store \<Rightarrow> 'n \<Rightarrow> 'n option" where
  "nxt h a = (case h a of None \<Rightarrow> None | Some n \<Rightarrow> ln_next n)"

definition prv :: "'n node_store \<Rightarrow> 'n \<Rightarrow> 'n option" where
  "prv h a = (case h a of None \<Rightarrow> None | Some n \<Rightarrow> ln_previous n)"

fun seg :: "'n node_store \<Rightarrow> 'n \<Rightarrow> 'n list \<Rightarrow> 'n \<Rightarrow> bool" where
  \<comment> \<open>\<open>p\<close>, the nodes of the list and \<open>q\<close> are linked in both directions\<close>
  "seg h p [] q \<longleftrightarrow> nxt h p = Some q \<and> prv h q = Some p"
| "seg h p (x # xs) q \<longleftrightarrow> nxt h p = Some x \<and> prv h x = Some p \<and> seg h x xs q"

definition ll_untouched :: "'n node_store \<Rightarrow> 'n set \<Rightarrow> 'n node_store \<Rightarrow> bool" where
  "ll_untouched g A h \<longleftrightarrow> (\<forall>a. a \<notin> A \<longrightarrow> h a = g a)"

definition ll_rep :: "'n node_store \<Rightarrow> 'n \<Rightarrow> 'n set \<Rightarrow> 'n node_store \<Rightarrow> 'n list \<Rightarrow> bool" where
  \<comment> \<open>among the nodes \<open>L\<close> those of the list are linked to a ring through the root, the others are not linked; everything
     else is as in the store \<open>g\<close>\<close>
  "ll_rep g rt L h xs \<longleftrightarrow> rt \<notin> L \<and> distinct xs \<and> set xs \<subseteq> L \<and> insert rt L \<subseteq> dom h \<and> seg h rt xs rt \<and>
     (\<forall>a \<in> L - set xs. nxt h a = None \<and> prv h a = None) \<and>
     ll_untouched g (insert rt L) h"

lemma seg_append: "seg h p (xs @ y # ys) q \<longleftrightarrow> seg h p xs y \<and> seg h y ys q"
  by (induction xs arbitrary: p) auto

lemma seg_frame:
  "seg h p xs q \<Longrightarrow> (\<And>a. a = p \<or> a \<in> set xs \<Longrightarrow> nxt h' a = nxt h a) \<Longrightarrow>
   (\<And>a. a = q \<or> a \<in> set xs \<Longrightarrow> prv h' a = prv h a) \<Longrightarrow> seg h' p xs q"
  by (induction xs arbitrary: p) auto

lemma seg_ends: "seg h p xs q \<Longrightarrow> nxt h p = Some (hd (xs @ [q])) \<and> prv h q = Some (last (p # xs))"
  by (induction xs arbitrary: p) auto

lemma load_simps: "a \<in> dom h \<Longrightarrow> load (Some a) h = Inr (the (h a))"
  by (auto simp: load_def)

lemma link_read [simp]: "a \<in> dom h \<Longrightarrow> ln_next (the (h a)) = nxt h a" "a \<in> dom h \<Longrightarrow> ln_previous (the (h a)) = prv h a"
  by (auto simp: nxt_def prv_def)

text \<open>Assignments through a valid pointer, in terms of the links.\<close>

definition upd_next :: "'n \<Rightarrow> 'n option \<Rightarrow> 'n node_store \<Rightarrow> 'n node_store" where
  "upd_next a v h = h(a \<mapsto> (the (h a))\<lparr>ln_next := v\<rparr>)"

definition upd_previous :: "'n \<Rightarrow> 'n option \<Rightarrow> 'n node_store \<Rightarrow> 'n node_store" where
  "upd_previous a v h = h(a \<mapsto> (the (h a))\<lparr>ln_previous := v\<rparr>)"

lemma set_link_ok [simp]:
  "a \<in> dom h \<Longrightarrow> set_next (Some a) v h = Inr (upd_next a v h)"
  "a \<in> dom h \<Longrightarrow> set_previous (Some a) v h = Inr (upd_previous a v h)"
  by (simp_all add: set_next_def set_previous_def load_simps upd_next_def upd_previous_def)

lemma upd_links [simp]:
  "dom (upd_next a v h) = insert a (dom h)" "dom (upd_previous a v h) = insert a (dom h)"
  "nxt (upd_next a v h) = (nxt h)(a := v)" "prv (upd_previous a v h) = (prv h)(a := v)"
  "a \<in> dom h \<Longrightarrow> prv (upd_next a v h) = prv h" "a \<in> dom h \<Longrightarrow> nxt (upd_previous a v h) = nxt h"
  by (auto simp: upd_next_def upd_previous_def nxt_def prv_def fun_eq_iff)

text \<open>What each operation does to the links, when the pointers it follows are there.\<close>

lemma InsertBefore_links:
  assumes "this \<in> dom h" "e \<in> dom h" "p \<in> dom h" "prv h e = Some p" "this \<noteq> e"
  shows "\<exists>h'. InsertBefore this e h = Inr h' \<and> dom h' = dom h \<and>
    nxt h' = (nxt h)(this := Some e, p := Some this) \<and> prv h' = (prv h)(this := Some p, e := Some this)"
  using assms by (simp add: InsertBefore_def load_simps insert_absorb)

lemma InsertAfter_links:
  assumes "this \<in> dom h" "e \<in> dom h" "s \<in> dom h" "nxt h e = Some s" "this \<noteq> e"
  shows "\<exists>h'. InsertAfter this e h = Inr h' \<and> dom h' = dom h \<and>
    nxt h' = (nxt h)(this := Some s, e := Some this) \<and> prv h' = (prv h)(this := Some e, s := Some this)"
  using assms by (simp add: InsertAfter_def load_simps insert_absorb)

lemma RemoveFromList_links:
  assumes "this \<in> dom h" "p \<in> dom h" "s \<in> dom h" "nxt h this = Some s" "prv h this = Some p" "p \<noteq> this" "s \<noteq> this"
  shows "\<exists>h'. RemoveFromList this h = Inr h' \<and> dom h' = dom h \<and>
    nxt h' = (nxt h)(p := Some s, this := None) \<and> prv h' = (prv h)(s := Some p, this := None)"
  using assms by (simp add: RemoveFromList_def load_simps insert_absorb)

lemma LinkNode_move_links:
  assumes "this \<in> dom h" "rhs \<in> dom h" "p \<in> dom h" "s \<in> dom h" "nxt h rhs = Some s" "prv h rhs = Some p"
    "this \<noteq> rhs" "p \<noteq> this" "s \<noteq> this" "p \<noteq> rhs" "s \<noteq> rhs"
  shows "\<exists>h'. LinkNode_move this rhs h = Inr h' \<and> dom h' = dom h \<and>
    nxt h' = (nxt h)(this := Some s, rhs := None, p := Some this) \<and> prv h' = (prv h)(this := Some p, rhs := None, s := Some this)"
proof -
  define h0 where "h0 = h(this \<mapsto> \<lparr>ln_previous = None, ln_next = None\<rparr>)"
  have h0: "dom h0 = dom h" "nxt h0 = (nxt h)(this := None)" "prv h0 = (prv h)(this := None)"
    using assms(1) by (auto simp: h0_def nxt_def prv_def fun_eq_iff)
  show ?thesis unfolding LinkNode_move_def h0_def [symmetric]
    using assms h0 by (simp add: load_simps insert_absorb fun_upd_twist)
qed

section \<open>Splicing\<close>

lemma untouched_links:
  assumes "ll_untouched g A h" "dom h' = dom h" "\<And>a. a \<notin> A \<Longrightarrow> nxt h' a = nxt h a \<and> prv h' a = prv h a"
  shows "ll_untouched g A h'"
proof -
  have "h' a = h a" if a: "a \<notin> A" for a
  proof (cases "h a")
    case None
    then show ?thesis using assms(2) by (metis domIff)
  next
    case (Some n)
    then obtain n' where n': "h' a = Some n'" using assms(2) by (metis domD domI)
    then show ?thesis using Some assms(3) [OF a] by (simp add: nxt_def prv_def)
  qed
  then show ?thesis using assms(1) by (simp add: ll_untouched_def)
qed

lemma seg_at: "seg h p (as @ ms) q \<Longrightarrow> seg h (last (p # as)) ms q"
  by (induction as arbitrary: p) auto

lemma seg_splice:
  "seg h p (as @ ms) q \<Longrightarrow> seg h' (last (p # as)) ms' q \<Longrightarrow> (\<forall>a \<in> set (butlast (p # as)). nxt h' a = nxt h a) \<Longrightarrow>
   (\<forall>a \<in> set as. prv h' a = prv h a) \<Longrightarrow> seg h' p (as @ ms') q"
  by (induction as arbitrary: p) (auto split: if_splits)

lemma seg_insert:
  assumes "seg h l bs r" "distinct bs" "e \<notin> insert l (insert r (set bs))" "l \<notin> set bs" "r \<notin> set bs"
    "nxt h' = (nxt h)(e := Some (hd (bs @ [r])), l := Some e)" "prv h' = (prv h)(e := Some l, hd (bs @ [r]) := Some e)"
  shows "seg h' l (e # bs) r"
proof (cases bs)
  case Nil
  then show ?thesis using assms by auto
next
  case (Cons b cs)
  have "seg h b cs r" using assms(1) Cons by simp
  then have "seg h' b cs r" by (rule seg_frame) (use assms Cons in auto)
  then show ?thesis using assms Cons by auto
qed

lemma seg_remove:
  assumes "seg h l (e # bs) r" "distinct bs" "e \<notin> insert l (insert r (set bs))" "l \<notin> set bs" "r \<notin> set bs"
    "nxt h' = (nxt h)(l := Some (hd (bs @ [r])), e := None)" "prv h' = (prv h)(hd (bs @ [r]) := Some l, e := None)"
  shows "seg h' l bs r"
proof (cases bs)
  case Nil
  then show ?thesis using assms by auto
next
  case (Cons b cs)
  have "seg h b cs r" using assms(1) Cons by simp
  then have "seg h' b cs r" by (rule seg_frame) (use assms Cons in auto)
  then show ?thesis using assms Cons by auto
qed

lemma seg_replace:
  assumes "seg h l (d # bs) r" "distinct bs" "d \<notin> insert l (insert r (set bs))" "e \<notin> insert d (insert l (insert r (set bs)))" "l \<notin> set bs" "r \<notin> set bs"
    "nxt h' = (nxt h)(e := Some (hd (bs @ [r])), d := None, l := Some e)"
    "prv h' = (prv h)(e := Some l, d := None, hd (bs @ [r]) := Some e)"
  shows "seg h' l (e # bs) r"
proof (cases bs)
  case Nil
  then show ?thesis using assms by auto
next
  case (Cons b cs)
  have "seg h b cs r" using assms(1) Cons by simp
  then have "seg h' b cs r" by (rule seg_frame) (use assms Cons in auto)
  then show ?thesis using assms Cons by auto
qed

text \<open>The nodes around a place in the ring.\<close>

lemma ring_around:
  assumes "ll_rep g rt L h (as @ ms)"
  shows "last (rt # as) \<in> dom h" "hd (ms @ [rt]) \<in> dom h" "last (rt # as) \<notin> set ms" "rt \<notin> set ms"
    "nxt h (last (rt # as)) = Some (hd (ms @ [rt]))" "prv h (hd (ms @ [rt])) = Some (last (rt # as))"
    "last (rt # as) \<notin> set (butlast (rt # as))" "hd (ms @ [rt]) \<notin> set as"
    "last (rt # as) \<in> insert rt (set as)" "hd (ms @ [rt]) \<in> insert rt (set ms)"
proof -
  have rep: "rt \<notin> L" "distinct (as @ ms)" "set (as @ ms) \<subseteq> L" "insert rt L \<subseteq> dom h" "seg h rt (as @ ms) rt"
    using assms by (simp_all add: ll_rep_def)
  show l: "last (rt # as) \<in> insert rt (set as)" by simp
  show f: "hd (ms @ [rt]) \<in> insert rt (set ms)" by (cases ms) simp_all
  show "last (rt # as) \<in> dom h" using l rep by auto
  show "hd (ms @ [rt]) \<in> dom h" using f rep by auto
  show "rt \<notin> set ms" using rep by auto
  show "last (rt # as) \<notin> set ms" using l rep by auto
  show "hd (ms @ [rt]) \<notin> set as" using f rep by auto
  show "nxt h (last (rt # as)) = Some (hd (ms @ [rt]))" using seg_at [OF rep(5)] by (cases ms) auto
  show "prv h (hd (ms @ [rt])) = Some (last (rt # as))" using seg_at [OF rep(5)] by (cases ms) auto
  have "distinct (rt # as)" using rep by auto
  then show "last (rt # as) \<notin> set (butlast (rt # as))"
    by (metis append_butlast_last_id distinct_butlast list.distinct(1) not_distinct_conv_prefix)
qed

lemma ring_splice:
  assumes rep: "ll_rep g rt L h (as @ ms)" and "seg h' (last (rt # as)) ms' rt"
    and n: "\<And>x. x \<in> insert rt (set as) \<Longrightarrow> x \<noteq> last (rt # as) \<Longrightarrow> nxt h' x = nxt h x" and "\<And>x. x \<in> set as \<Longrightarrow> prv h' x = prv h x"
  shows "seg h' rt (as @ ms') rt"
proof -
  have b: "nxt h' x = nxt h x" if x: "x \<in> set (butlast (rt # as))" for x
    by (rule n) (use in_set_butlastD [OF x] in simp, use ring_around(7) [OF rep] x in metis)
  have "seg h rt (as @ ms) rt" using rep by (simp add: ll_rep_def)
  then show ?thesis using assms(2) by (rule seg_splice) (use b assms(4) in blast)+
qed

lemma ring_insert:
  assumes rep: "ll_rep g rt L h (as @ bs)" and e: "e \<in> L" "e \<notin> set (as @ bs)" and dom: "dom h' = dom h"
    and n: "nxt h' = (nxt h)(e := Some (hd (bs @ [rt])), last (rt # as) := Some e)"
    and p: "prv h' = (prv h)(e := Some (last (rt # as)), hd (bs @ [rt]) := Some e)"
  shows "ll_rep g rt L h' (as @ e # bs)"
proof -
  note a = ring_around [OF rep]
  have r: "rt \<notin> L" "distinct (as @ bs)" "set (as @ bs) \<subseteq> L" "seg h rt (as @ bs) rt" using rep by (simp_all add: ll_rep_def)
  have "seg h' (last (rt # as)) (e # bs) rt" using seg_at [OF r(4)] r e a by (intro seg_insert [OF _ _ _ _ _ n p]) auto
  then have "seg h' rt (as @ e # bs) rt"
    by (rule ring_splice [OF rep]) (use r a e in \<open>auto simp: n p simp del: last.simps\<close>)
  moreover have "ll_untouched g (insert rt L) h'"
    by (rule untouched_links [of _ _ h, OF _ dom]) (use rep e a(9,10) in \<open>auto simp: ll_rep_def n p simp del: last.simps\<close>)
  ultimately show ?thesis using rep e dom a(9,10) by (auto simp: ll_rep_def n p simp del: last.simps)
qed

lemma ring_remove:
  assumes rep: "ll_rep g rt L h (as @ e # bs)" and dom: "dom h' = dom h"
    and n: "nxt h' = (nxt h)(last (rt # as) := Some (hd (bs @ [rt])), e := None)"
    and p: "prv h' = (prv h)(hd (bs @ [rt]) := Some (last (rt # as)), e := None)"
  shows "ll_rep g rt L h' (as @ bs)"
proof -
  note a = ring_around [OF rep]
  have b: "hd (bs @ [rt]) \<in> insert rt (set bs)" by (cases bs) simp_all
  have r: "rt \<notin> L" "distinct (as @ e # bs)" "set (as @ e # bs) \<subseteq> L" "seg h rt (as @ e # bs) rt" using rep by (simp_all add: ll_rep_def)
  have "seg h' (last (rt # as)) bs rt" using seg_at [OF r(4)] r a by (intro seg_remove [OF _ _ _ _ _ n p]) auto
  then have "seg h' rt (as @ bs) rt"
    by (rule ring_splice [OF rep]) (use r a b in \<open>auto simp: n p simp del: last.simps\<close>)
  moreover have "ll_untouched g (insert rt L) h'"
    by (rule untouched_links [of _ _ h, OF _ dom]) (use rep a(9) b in \<open>auto simp: ll_rep_def n p simp del: last.simps\<close>)
  ultimately show ?thesis using rep dom a(9) b by (auto simp: ll_rep_def n p simp del: last.simps)
qed

lemma ring_replace:
  assumes rep: "ll_rep g rt L h (as @ d # bs)" and e: "e \<in> L" "e \<notin> set (as @ d # bs)" and dom: "dom h' = dom h"
    and n: "nxt h' = (nxt h)(e := Some (hd (bs @ [rt])), d := None, last (rt # as) := Some e)"
    and p: "prv h' = (prv h)(e := Some (last (rt # as)), d := None, hd (bs @ [rt]) := Some e)"
  shows "ll_rep g rt L h' (as @ e # bs)"
proof -
  note a = ring_around [OF rep]
  have b: "hd (bs @ [rt]) \<in> insert rt (set bs)" by (cases bs) simp_all
  have r: "rt \<notin> L" "distinct (as @ d # bs)" "set (as @ d # bs) \<subseteq> L" "seg h rt (as @ d # bs) rt" using rep by (simp_all add: ll_rep_def)
  have "seg h' (last (rt # as)) (e # bs) rt" using seg_at [OF r(4)] r e a by (intro seg_replace [OF _ _ _ _ _ _ n p]) auto
  then have "seg h' rt (as @ e # bs) rt"
    by (rule ring_splice [OF rep]) (use r a b e in \<open>auto simp: n p simp del: last.simps\<close>)
  moreover have "ll_untouched g (insert rt L) h'"
    by (rule untouched_links [of _ _ h, OF _ dom]) (use rep e a(9) b in \<open>auto simp: ll_rep_def n p simp del: last.simps\<close>)
  ultimately show ?thesis using rep e dom a(9) b by (auto simp: ll_rep_def n p simp del: last.simps)
qed

section \<open>Refinement of a list\<close>

datatype 'n ll_op = LlAppend 'n | LlInsertBefore 'n 'n | LlInsertAfter 'n 'n | LlRemove 'n | LlMove 'n 'n

fun ll_run :: "'n \<Rightarrow> 'n ll_op \<Rightarrow> 'n node_store \<Rightarrow> 'n node_store result option" where
  "ll_run rt (LlAppend e) h = Some (Append rt e h)"
| "ll_run rt (LlInsertBefore e x) h = Some (InsertBefore e x h)"
| "ll_run rt (LlInsertAfter e x) h = Some (InsertAfter e x h)"
| "ll_run rt (LlRemove e) h = Some (RemoveFromList e h)"
| "ll_run rt (LlMove e d) h = Some (LinkNode_move e d h)"

definition before :: "'n \<Rightarrow> 'n list \<Rightarrow> 'n list" where
  "before x xs = takeWhile (\<lambda>y. y \<noteq> x) xs"

definition behind :: "'n \<Rightarrow> 'n list \<Rightarrow> 'n list" where
  "behind x xs = tl (dropWhile (\<lambda>y. y \<noteq> x) xs)"

fun ll_spec :: "'n set \<Rightarrow> 'n ll_op \<Rightarrow> 'n list \<Rightarrow> 'n list option" where
  "ll_spec L (LlAppend e) xs = (if e \<in> L - set xs then Some (xs @ [e]) else None)"
| "ll_spec L (LlInsertBefore e x) xs = (if e \<in> L - set xs \<and> x \<in> set xs then Some (before x xs @ e # x # behind x xs) else None)"
| "ll_spec L (LlInsertAfter e x) xs = (if e \<in> L - set xs \<and> x \<in> set xs then Some (before x xs @ x # e # behind x xs) else None)"
| "ll_spec L (LlRemove e) xs = (if e \<in> set xs then Some (before e xs @ behind e xs) else None)"
| "ll_spec L (LlMove e d) xs = (if e \<in> L - set xs \<and> d \<in> set xs then Some (before d xs @ e # behind d xs) else None)"

lemma split_at: "x \<in> set xs \<Longrightarrow> xs = before x xs @ x # behind x xs"
  by (induction xs) (auto simp: before_def behind_def)

lemma Append_rep:
  assumes rep: "ll_rep g rt L h xs" and e: "e \<in> L" "e \<notin> set xs"
  shows "\<exists>h'. Append rt e h = Inr h' \<and> ll_rep g rt L h' (xs @ [e])"
proof -
  note a = ring_around [of g rt L h xs "[]"]
  have d: "e \<in> dom h" "rt \<in> dom h" "e \<noteq> rt" using rep e by (auto simp: ll_rep_def)
  obtain h' where h': "Append rt e h = Inr h'" "dom h' = dom h" "nxt h' = (nxt h)(e := Some rt, last (rt # xs) := Some e)"
    "prv h' = (prv h)(e := Some (last (rt # xs)), rt := Some e)"
    using InsertBefore_links [OF d(1,2), of "last (rt # xs)"] a(1,6) rep d(3) unfolding Append_def
    by (auto simp del: last.simps)
  then have "ll_rep g rt L h' (xs @ e # [])" using rep e by (intro ring_insert [of g rt L h xs "[]"]) simp_all
  then show ?thesis using h'(1) by auto
qed

lemma InsertBefore_rep:
  assumes rep: "ll_rep g rt L h (as @ x # bs)" and e: "e \<in> L" "e \<notin> set (as @ x # bs)"
  shows "\<exists>h'. InsertBefore e x h = Inr h' \<and> ll_rep g rt L h' (as @ e # x # bs)"
proof -
  note a = ring_around [OF rep]
  have d: "e \<in> dom h" "x \<in> dom h" "e \<noteq> x" using rep e by (auto simp: ll_rep_def)
  obtain h' where h': "InsertBefore e x h = Inr h'" "dom h' = dom h" "nxt h' = (nxt h)(e := Some x, last (rt # as) := Some e)"
    "prv h' = (prv h)(e := Some (last (rt # as)), x := Some e)"
    using InsertBefore_links [OF d(1,2), of "last (rt # as)"] a(1,6) d(3) by (auto simp del: last.simps)
  then have "ll_rep g rt L h' (as @ e # x # bs)" using rep e by (intro ring_insert [of g rt L h as "x # bs"]) simp_all
  then show ?thesis using h'(1) by auto
qed

lemma InsertAfter_rep:
  assumes rep: "ll_rep g rt L h (as @ x # bs)" and e: "e \<in> L" "e \<notin> set (as @ x # bs)"
  shows "\<exists>h'. InsertAfter e x h = Inr h' \<and> ll_rep g rt L h' (as @ x # e # bs)"
proof -
  have rep': "ll_rep g rt L h ((as @ [x]) @ bs)" using rep by simp
  note a = ring_around [OF rep']
  have d: "e \<in> dom h" "x \<in> dom h" "e \<noteq> x" using rep e by (auto simp: ll_rep_def)
  obtain h' where h': "InsertAfter e x h = Inr h'" "dom h' = dom h" "nxt h' = (nxt h)(e := Some (hd (bs @ [rt])), x := Some e)"
    "prv h' = (prv h)(e := Some x, hd (bs @ [rt]) := Some e)"
    using InsertAfter_links [OF d(1,2), of "hd (bs @ [rt])"] a(2,5) d(3) by auto
  then have "ll_rep g rt L h' ((as @ [x]) @ e # bs)" using rep' e by (intro ring_insert [of g rt L h "as @ [x]" bs]) simp_all
  then show ?thesis using h'(1) by auto
qed

lemma node_around:
  assumes rep: "ll_rep g rt L h (as @ e # bs)"
  shows "nxt h e = Some (hd (bs @ [rt]))" "prv h e = Some (last (rt # as))" "e \<in> dom h" "last (rt # as) \<in> dom h" "hd (bs @ [rt]) \<in> dom h"
    "last (rt # as) \<noteq> e" "hd (bs @ [rt]) \<noteq> e" "last (rt # as) \<in> insert rt (set as)" "hd (bs @ [rt]) \<in> insert rt (set bs)" "e \<noteq> rt"
  using ring_around [OF rep] ring_around [of g rt L h "as @ [e]" bs] rep by (auto simp: ll_rep_def)

lemma RemoveFromList_rep:
  assumes rep: "ll_rep g rt L h (as @ e # bs)"
  shows "\<exists>h'. RemoveFromList e h = Inr h' \<and> ll_rep g rt L h' (as @ bs)"
proof -
  note a = node_around [OF rep]
  obtain h' where h': "RemoveFromList e h = Inr h'" "dom h' = dom h" "nxt h' = (nxt h)(last (rt # as) := Some (hd (bs @ [rt])), e := None)"
    "prv h' = (prv h)(hd (bs @ [rt]) := Some (last (rt # as)), e := None)"
    using RemoveFromList_links [OF a(3,4,5,1,2,6,7)] by (elim exE conjE)
  show ?thesis using h'(1) ring_remove [OF rep h'(2-4)] by blast
qed

lemma LinkNode_move_rep:
  assumes rep: "ll_rep g rt L h (as @ d # bs)" and e: "e \<in> L" "e \<notin> set (as @ d # bs)"
  shows "\<exists>h'. LinkNode_move e d h = Inr h' \<and> ll_rep g rt L h' (as @ e # bs)"
proof -
  note a = node_around [OF rep]
  have "e \<in> dom h" "e \<noteq> rt" "e \<noteq> d" using rep e by (auto simp: ll_rep_def)
  moreover have "last (rt # as) \<noteq> e" "hd (bs @ [rt]) \<noteq> e" using a(8,9) e(2) \<open>e \<noteq> rt\<close> by auto
  ultimately obtain h' where h': "LinkNode_move e d h = Inr h'" "dom h' = dom h"
    "nxt h' = (nxt h)(e := Some (hd (bs @ [rt])), d := None, last (rt # as) := Some e)"
    "prv h' = (prv h)(e := Some (last (rt # as)), d := None, hd (bs @ [rt]) := Some e)"
    using LinkNode_move_links [OF _ a(3,4,5,1,2) _ _ _ a(6,7)] by blast
  show ?thesis using h'(1) ring_replace [OF rep e h'(2-4)] by blast
qed

lemma ll_run_refines:
  assumes rep: "ll_rep g rt L h xs" and spec: "ll_spec L op xs = Some xs'"
  shows "\<exists>h'. ll_run rt op h = Some (Inr h') \<and> ll_rep g rt L h' xs'"
proof (cases op)
  case (LlAppend e)
  then show ?thesis using spec Append_rep [OF rep, of e] by (auto split: if_splits)
next
  case (LlInsertBefore e x)
  then have *: "e \<in> L" "e \<notin> set xs" "x \<in> set xs" "xs' = before x xs @ e # x # behind x xs" using spec by (auto split: if_splits)
  then show ?thesis using LlInsertBefore InsertBefore_rep [of g rt L h "before x xs" x "behind x xs" e] rep split_at [OF *(3)] by simp
next
  case (LlInsertAfter e x)
  then have *: "e \<in> L" "e \<notin> set xs" "x \<in> set xs" "xs' = before x xs @ x # e # behind x xs" using spec by (auto split: if_splits)
  then show ?thesis using LlInsertAfter InsertAfter_rep [of g rt L h "before x xs" x "behind x xs" e] rep split_at [OF *(3)] by simp
next
  case (LlRemove e)
  then have *: "e \<in> set xs" "xs' = before e xs @ behind e xs" using spec by (auto split: if_splits)
  then show ?thesis using LlRemove RemoveFromList_rep [of g rt L h "before e xs" e "behind e xs"] rep split_at [OF *(1)] by simp
next
  case (LlMove e d)
  then have *: "e \<in> L" "e \<notin> set xs" "d \<in> set xs" "xs' = before d xs @ e # behind d xs" using spec by (auto split: if_splits)
  then show ?thesis using LlMove LinkNode_move_rep [of g rt L h "before d xs" d "behind d xs" e] rep split_at [OF *(3)] by simp
qed

interpretation linked_list: refined_container "ll_rep g rt L" "ll_run rt" "ll_spec L" for g rt L
  by unfold_locales (rule ll_run_refines)

lemma LinkedList_ctor_rep:
  "rt \<notin> L \<Longrightarrow> \<forall>a \<in> L. g a = Some \<lparr>ln_previous = None, ln_next = None\<rparr> \<Longrightarrow> ll_rep g rt L (LinkedList_ctor rt g) []"
  by (auto simp: ll_rep_def LinkedList_ctor_def LinkNode_ctor_def nxt_def prv_def ll_untouched_def)

lemma ring_nth:
  assumes "ll_rep g rt L h xs" "i < length xs"
  shows "nxt h (xs ! i) = Some ((xs @ [rt]) ! Suc i)" "prv h (xs ! i) = Some ((rt # xs) ! i)"
proof -
  have x: "xs = take i xs @ xs ! i # drop (Suc i) xs" using assms(2) by (rule id_take_nth_drop)
  have rep: "ll_rep g rt L h (take i xs @ xs ! i # drop (Suc i) xs)" using assms(1) x by simp
  have "hd (drop (Suc i) xs @ [rt]) = (xs @ [rt]) ! Suc i"
    using assms(2) by (cases "Suc i < length xs") (auto simp: hd_drop_conv_nth nth_append hd_append not_less less_Suc_eq_le)
  then show "nxt h (xs ! i) = Some ((xs @ [rt]) ! Suc i)" using node_around(1) [OF rep] by simp
  have "last (rt # take i xs) = (rt # xs) ! i" using assms(2) by (cases i) (simp_all add: take_Suc_conv_app_nth last_conv_nth nth_append)
  then show "prv h (xs ! i) = Some ((rt # xs) ! i)" using node_around(2) [OF rep] by simp
qed

section \<open>Properties\<close>

text \<open>Claim C12. Start from a new list and nodes that are in no list, and apply any sequence of \<open>Append\<close>, \<open>InsertBefore\<close>, \<open>InsertAfter\<close>,
    \<open>RemoveFromList\<close> and move constructions, each on nodes where it makes sense. No operation follows a null or dangling
    pointer; head, tail, emptiness, and the neighbours of every node are those of the list of nodes that the same
    operations build; the links of a node that is not in the list are null; and no node of any other list is written.\<close>
theorem linked_list_refines_list:
  assumes "rt \<notin> L" "\<forall>a \<in> L. g a = Some \<lparr>ln_previous = None, ln_next = None\<rparr>" "spec_all (ll_spec L) ops [] = Some xs"
  shows "\<exists>h. run_all (ll_run rt) ops (LinkedList_ctor rt g) = Some (Inr h) \<and>
    list_head rt h = Inr (Some ((xs @ [rt]) ! 0)) \<and> list_tail rt h = Inr (Some ((rt # xs) ! length xs)) \<and> list_empty rt h = Inr (xs = []) \<and>
    (\<forall>i < length xs. node_next (xs ! i) h = Inr (Some ((xs @ [rt]) ! Suc i)) \<and> node_previous (xs ! i) h = Inr (Some ((rt # xs) ! i))) \<and>
    (\<forall>a \<in> L - set xs. node_next a h = Inr None \<and> node_previous a h = Inr None) \<and>
    (\<forall>a. a \<notin> insert rt L \<longrightarrow> h a = g a)"
proof -
  obtain h where h: "run_all (ll_run rt) ops (LinkedList_ctor rt g) = Some (Inr h)" and rep: "ll_rep g rt L h xs"
    using linked_list.run_all_refines [OF LinkedList_ctor_rep [OF assms(1,2)] assms(3)] by (elim exE conjE)
  have d: "insert rt L \<subseteq> dom h" "set xs \<subseteq> L" "rt \<notin> L" using rep by (simp_all add: ll_rep_def)
  have link: "node_next a h = Inr (nxt h a)" "node_previous a h = Inr (prv h a)" if "a \<in> insert rt L" for a
    using that d by (auto simp: node_next_def node_previous_def load_simps subset_iff)
  have ends: "nxt h rt = Some ((xs @ [rt]) ! 0)" "prv h rt = Some ((rt # xs) ! length xs)"
    using ring_around(5) [of g rt L h "[]" xs] ring_around(6) [of g rt L h xs "[]"] rep
    by (simp_all add: hd_conv_nth last_conv_nth nth_Cons' del: last.simps)
  have "(xs @ [rt]) ! 0 = rt \<longleftrightarrow> xs = []" using d by (cases xs) auto
  then have e: "list_empty rt h = Inr (xs = [])" using link [of rt] ends by (simp add: list_empty_def list_head_def list_end_def)
  have n: "\<forall>i < length xs. node_next (xs ! i) h = Inr (Some ((xs @ [rt]) ! Suc i)) \<and> node_previous (xs ! i) h = Inr (Some ((rt # xs) ! i))"
    using link ring_nth [OF rep] d(2) nth_mem by (metis insertCI subsetD)
  have o: "\<forall>a \<in> L - set xs. node_next a h = Inr None \<and> node_previous a h = Inr None"
    using link rep by (auto simp: ll_rep_def)
  have f: "\<forall>a. a \<notin> insert rt L \<longrightarrow> h a = g a" using rep by (simp add: ll_rep_def ll_untouched_def)
  show ?thesis using h link [of rt] ends e n o f by (intro exI [of _ h]) (simp add: list_head_def list_tail_def)
qed

theorem linked_list_refines_list_witness:
  "\<exists>h. run_all (ll_run (0 :: nat)) [LlAppend 1, LlAppend 2, LlInsertBefore 3 2, LlInsertAfter 4 2, LlRemove 1, LlMove 1 3]
      (LinkedList_ctor 0 (\<lambda>a. Some \<lparr>ln_previous = None, ln_next = None\<rparr>)) = Some (Inr h) \<and>
    list_head 0 h = Inr (Some 1) \<and> list_tail 0 h = Inr (Some 4) \<and> node_next 3 h = Inr None"
  using linked_list_refines_list [of 0 "{1, 2, 3, 4 :: nat}" "\<lambda>a. Some \<lparr>ln_previous = None, ln_next = None\<rparr>"
    "[LlAppend 1, LlAppend 2, LlInsertBefore 3 2, LlInsertAfter 4 2, LlRemove 1, LlMove 1 3]" "[1, 2, 4]"]
  by (simp add: before_def behind_def numeral_eq_Suc) blast

end
