(* ===== verification/Mru_Cache.thy ===== *)
theory Mru_Cache
  imports Container_Spec
begin

text \<open>
  \<open>base/containers/mru_cache.h\<close>: \<open>MRUCacheBase\<close>, a list of entries in order of use and an index from keys to iterators into it.
  Every node of the \<open>std::list\<close> has an identity, which its iterators hold; using an iterator whose node is gone is
  \<open>UseAfterFree\<close>, dereferencing \<open>end()\<close> is \<open>OutOfBounds\<close>. \<open>MRUCache\<close> and \<open>HashingMRUCache\<close> only choose the type of the index, whose order is
  never used. Shown: the two containers stay consistent and the cache refines a list of
  entries with the most recently used one first, which never outgrows its maximum.
\<close>

section \<open>The class\<close>

type_synonym node_id = nat
type_synonym list_iterator = "node_id option"

record ('k, 'p) MRUCache =
  mc_ordering :: "(node_id \<times> 'k \<times> 'p) list"
  mc_index :: "('k \<times> node_id) list"
  mc_max_size :: size_t
  mc_next_node :: node_id

text \<open>\<open>mc_next_node\<close> is the identity of the next node that \<open>std::list\<close> allocates.\<close>

definition NO_AUTO_EVICT :: size_t where
  "NO_AUTO_EVICT = 0"

definition MRUCacheBase_ctor :: "size_t \<Rightarrow> ('k, 'p) MRUCache" where
  "MRUCacheBase_ctor max_size = \<lparr>mc_ordering = [], mc_index = [], mc_max_size = max_size, mc_next_node = 0\<rparr>"

definition index_erase :: "'k \<Rightarrow> ('k \<times> node_id) list \<Rightarrow> ('k \<times> node_id) list" where
  "index_erase k ix = filter (\<lambda>e. fst e \<noteq> k) ix"

definition index_emplace :: "'k \<Rightarrow> node_id \<Rightarrow> ('k \<times> node_id) list \<Rightarrow> ('k \<times> node_id) list" where
  "index_emplace k n ix = (if map_of ix k = None then (k, n) # ix else ix)"

definition list_begin :: "(node_id \<times> 'e) list \<Rightarrow> list_iterator" where
  "list_begin ord = (case ord of [] \<Rightarrow> None | e # _ \<Rightarrow> Some (fst e))"

definition list_deref :: "list_iterator \<Rightarrow> (node_id \<times> 'e) list \<Rightarrow> 'e result" where
  "list_deref pos ord =
     (case pos of None \<Rightarrow> Inl OutOfBounds | Some n \<Rightarrow> (case map_of ord n of None \<Rightarrow> Inl UseAfterFree | Some e \<Rightarrow> Inr e))"

definition list_erase :: "node_id \<Rightarrow> (node_id \<times> 'e) list \<Rightarrow> list_iterator \<times> (node_id \<times> 'e) list" where
  \<comment> \<open>\<open>ordering_.erase(pos)\<close>: the iterator behind the erased node and the other nodes\<close>
  "list_erase n ord =
     (list_begin (tl (dropWhile (\<lambda>e. fst e \<noteq> n) ord)), filter (\<lambda>e. fst e \<noteq> n) ord)"

definition mc_Erase :: "list_iterator \<Rightarrow> ('k, 'p) MRUCache \<Rightarrow> (list_iterator \<times> ('k, 'p) MRUCache) result" where
  "mc_Erase pos c =
     rbind (list_deref pos (mc_ordering c)) (\<lambda>e.
     let (next, ord) = list_erase (the pos) (mc_ordering c)
     in Inr (next, c\<lparr>mc_index := index_erase (fst e) (mc_index c), mc_ordering := ord\<rparr>))"

definition mc_Erase_back :: "('k, 'p) MRUCache \<Rightarrow> (list_iterator \<times> ('k, 'p) MRUCache) result" where
  \<comment> \<open>\<open>Erase(rbegin())\<close>: incrementing the reverse iterator of an empty list is undefined, else its \<open>base()\<close> is the last node\<close>
  "mc_Erase_back c =
     (if mc_ordering c = [] then Inl OutOfBounds else mc_Erase (Some (fst (last (mc_ordering c)))) c)"

definition mc_size :: "bool \<Rightarrow> ('k, 'p) MRUCache \<Rightarrow> size_t result" where
  "mc_size on c =
     rbind (rtc_dcheck on (length (mc_index c) = length (mc_ordering c))) (\<lambda>_. Inr (length (mc_index c)))"

fun shrink_loop :: "nat \<Rightarrow> size_t \<Rightarrow> ('k, 'p) MRUCache \<Rightarrow> ('k, 'p) MRUCache result" where
  \<comment> \<open>\<open>for (i = size(); i > new_size; i--) Erase(rbegin());\<close>\<close>
  "shrink_loop i new_size c =
     (if i > new_size then rbind (mc_Erase_back c) (\<lambda>(_, c'). shrink_loop (i - 1) new_size c') else Inr c)"

declare shrink_loop.simps [simp del]

definition ShrinkToSize :: "bool \<Rightarrow> size_t \<Rightarrow> ('k, 'p) MRUCache \<Rightarrow> ('k, 'p) MRUCache result" where
  "ShrinkToSize on new_size c = rbind (mc_size on c) (\<lambda>i. shrink_loop i new_size c)"

definition mc_Put :: "bool \<Rightarrow> 'k \<Rightarrow> 'p \<Rightarrow> ('k, 'p) MRUCache \<Rightarrow> (list_iterator \<times> ('k, 'p) MRUCache) result" where
  "mc_Put on key payload c =
     rbind (case map_of (mc_index c) key of
              Some n \<Rightarrow> rbind (mc_Erase (Some n) c) (\<lambda>(_, c'). Inr c')
            | None \<Rightarrow> if mc_max_size c \<noteq> NO_AUTO_EVICT then ShrinkToSize on (sz_sub (mc_max_size c) 1) c else Inr c)
       (\<lambda>c. let n = mc_next_node c;
                ord = (n, key, payload) # mc_ordering c
            in Inr (list_begin ord, c\<lparr>mc_ordering := ord, mc_index := index_emplace key n (mc_index c), mc_next_node := n + 1\<rparr>))"

definition mc_Get :: "'k \<Rightarrow> ('k, 'p) MRUCache \<Rightarrow> (list_iterator \<times> ('k, 'p) MRUCache) result" where
  "mc_Get key c =
     (case map_of (mc_index c) key of
        None \<Rightarrow> Inr (None, c)
      | Some n \<Rightarrow>
          rbind (list_deref (Some n) (mc_ordering c)) (\<lambda>e.
          let ord = (n, e) # filter (\<lambda>x. fst x \<noteq> n) (mc_ordering c)
          in Inr (list_begin ord, c\<lparr>mc_ordering := ord\<rparr>)))"

definition mc_Peek :: "'k \<Rightarrow> ('k, 'p) MRUCache \<Rightarrow> list_iterator" where
  "mc_Peek key c = (case map_of (mc_index c) key of None \<Rightarrow> None | Some n \<Rightarrow> Some n)"

definition mc_Clear :: "('k, 'p) MRUCache \<Rightarrow> ('k, 'p) MRUCache" where
  "mc_Clear c = c\<lparr>mc_index := [], mc_ordering := []\<rparr>"

definition mc_Swap :: "('k, 'p) MRUCache \<Rightarrow> ('k, 'p) MRUCache \<Rightarrow> ('k, 'p) MRUCache \<times> ('k, 'p) MRUCache" where
  "mc_Swap c d = (d, c)"

definition mc_empty :: "('k, 'p) MRUCache \<Rightarrow> bool" where
  "mc_empty c \<longleftrightarrow> mc_ordering c = []"

section \<open>Consistency of the list and the index\<close>

definition mc_inv :: "('k, 'p) MRUCache \<Rightarrow> bool" where
  "mc_inv c \<longleftrightarrow> distinct (map fst (mc_ordering c)) \<and> distinct (map (\<lambda>e. fst (snd e)) (mc_ordering c)) \<and>
     (\<forall>e \<in> set (mc_ordering c). fst e < mc_next_node c) \<and> distinct (map fst (mc_index c)) \<and>
     set (mc_index c) = (\<lambda>e. (fst (snd e), fst e)) ` set (mc_ordering c)"

definition mc_entries :: "('k, 'p) MRUCache \<Rightarrow> ('k \<times> 'p) list" where
  "mc_entries c = map snd (mc_ordering c)"

lemma inv_sizes: "mc_inv c \<Longrightarrow> length (mc_index c) = length (mc_ordering c)"
proof -
  assume inv: "mc_inv c"
  have "length (mc_index c) = card (fst ` set (mc_index c))" using inv by (metis distinct_card length_map list.set_map mc_inv_def)
  also have "fst ` set (mc_index c) = set (map (\<lambda>e. fst (snd e)) (mc_ordering c))" using inv by (simp add: mc_inv_def image_image)
  also have "card \<dots> = length (mc_ordering c)" using inv by (metis distinct_card length_map mc_inv_def)
  finally show ?thesis .
qed

lemma inv_index: "mc_inv c \<Longrightarrow> map_of (mc_index c) k = Some n \<longleftrightarrow> (\<exists>p. (n, k, p) \<in> set (mc_ordering c))"
  by (force simp: mc_inv_def image_iff)

lemma inv_index_None: "mc_inv c \<Longrightarrow> map_of (mc_index c) k = None \<longleftrightarrow> k \<notin> fst ` set (mc_entries c)"
  by (auto simp: mc_inv_def mc_entries_def map_of_eq_None_iff image_iff)

lemma inv_deref: "mc_inv c \<Longrightarrow> (n, e) \<in> set (mc_ordering c) \<Longrightarrow> list_deref (Some n) (mc_ordering c) = Inr e"
  by (simp add: mc_inv_def list_deref_def)

lemma same_node: "mc_inv c \<Longrightarrow> (n, k, p) \<in> set (mc_ordering c) \<Longrightarrow> e \<in> set (mc_ordering c) \<Longrightarrow> fst e = n \<longleftrightarrow> fst (snd e) = k"
  unfolding mc_inv_def distinct_map inj_on_def by (metis fst_conv snd_conv)

lemma inv_entries_distinct: "mc_inv c \<Longrightarrow> distinct (map fst (mc_entries c))"
  by (simp add: mc_inv_def mc_entries_def comp_def)

lemma filter_inv:
  assumes inv: "mc_inv c" and at: "(n, k, p) \<in> set (mc_ordering c)"
  defines "c' \<equiv> c\<lparr>mc_index := index_erase k (mc_index c), mc_ordering := filter (\<lambda>e. fst e \<noteq> n) (mc_ordering c)\<rparr>"
  shows "mc_inv c'" "mc_entries c' = filter (\<lambda>e. fst e \<noteq> k) (mc_entries c)"
proof -
  have f: "filter (\<lambda>e. fst e \<noteq> n) (mc_ordering c) = filter (\<lambda>e. fst (snd e) \<noteq> k) (mc_ordering c)"
    using same_node [OF inv at] by (intro filter_cong) simp_all
  show "mc_entries c' = filter (\<lambda>e. fst e \<noteq> k) (mc_entries c)" by (simp add: c'_def mc_entries_def f filter_map comp_def)
  show "mc_inv c'" using inv unfolding c'_def mc_inv_def f
    by (auto simp: index_erase_def distinct_map_filter image_iff)
qed

lemma Erase_ok:
  assumes "mc_inv c" "(n, k, p) \<in> set (mc_ordering c)"
  shows "\<exists>r c'. mc_Erase (Some n) c = Inr (r, c') \<and> mc_inv c' \<and> mc_entries c' = filter (\<lambda>e. fst e \<noteq> k) (mc_entries c) \<and>
    mc_max_size c' = mc_max_size c"
  using filter_inv [OF assms] inv_deref [OF assms] by (simp add: mc_Erase_def list_erase_def)

lemma Erase_back_ok:
  assumes inv: "mc_inv c" and ne: "mc_entries c \<noteq> []"
  shows "\<exists>r c'. mc_Erase_back c = Inr (r, c') \<and> mc_inv c' \<and> mc_entries c' = butlast (mc_entries c) \<and> mc_max_size c' = mc_max_size c"
proof -
  obtain os n k p where o: "mc_ordering c = os @ [(n, k, p)]" using ne by (cases "mc_ordering c" rule: rev_cases) (auto simp: mc_entries_def)
  obtain r c' where c': "mc_Erase (Some n) c = Inr (r, c')" "mc_inv c'" "mc_entries c' = filter (\<lambda>e. fst e \<noteq> k) (mc_entries c)" "mc_max_size c' = mc_max_size c"
    using Erase_ok [OF inv, of n k p] o by auto
  have "k \<notin> fst ` set (map snd os)" using inv_entries_distinct [OF inv] o by (simp add: mc_entries_def image_image)
  then have "filter (\<lambda>e. fst e \<noteq> k) (map snd os) = map snd os" by (intro filter_True) force
  then have "filter (\<lambda>e. fst e \<noteq> k) (mc_entries c) = butlast (mc_entries c)" by (simp add: mc_entries_def o)
  then show ?thesis using c' o by (simp add: mc_Erase_back_def)
qed

lemma shrink_loop_ok:
  "mc_inv c \<Longrightarrow> i = length (mc_entries c) \<Longrightarrow>
   \<exists>c'. shrink_loop i n c = Inr c' \<and> mc_inv c' \<and> mc_entries c' = take n (mc_entries c) \<and> mc_max_size c' = mc_max_size c"
proof (induction i arbitrary: c)
  case 0
  then show ?case by (simp add: shrink_loop.simps)
next
  case (Suc i)
  show ?case
  proof (cases "n < Suc i")
    case True
    obtain r c1 where c1: "mc_Erase_back c = Inr (r, c1)" "mc_inv c1" "mc_entries c1 = butlast (mc_entries c)" "mc_max_size c1 = mc_max_size c"
      using Erase_back_ok [OF Suc.prems(1)] Suc.prems(2) by (metis length_0_conv nat.distinct(1))
    have i: "i = length (mc_entries c1)" unfolding c1(3) using Suc.prems(2) by simp
    obtain c' where "shrink_loop i n c1 = Inr c'" "mc_inv c'" "mc_entries c' = take n (mc_entries c1)" "mc_max_size c' = mc_max_size c1"
      using Suc.IH [OF c1(2) i] by (elim exE conjE)
    moreover have "take n (butlast (mc_entries c)) = take n (mc_entries c)" using True Suc.prems(2) by (simp add: take_butlast)
    ultimately show ?thesis using True c1 by (subst shrink_loop.simps) simp
  next
    case False
    then show ?thesis using Suc.prems by (subst shrink_loop.simps) simp
  qed
qed

lemma ShrinkToSize_ok:
  assumes "mc_inv c"
  shows "\<exists>c'. ShrinkToSize on n c = Inr c' \<and> mc_inv c' \<and> mc_entries c' = take n (mc_entries c) \<and> mc_max_size c' = mc_max_size c"
  using shrink_loop_ok [OF assms, of "length (mc_ordering c)" n] inv_sizes [OF assms] by (simp add: ShrinkToSize_def mc_size_def mc_entries_def)

section \<open>Refinement of a list in order of use\<close>

definition use_first :: "'k \<Rightarrow> 'p \<Rightarrow> ('k \<times> 'p) list \<Rightarrow> ('k \<times> 'p) list" where
  "use_first k p l = (k, p) # filter (\<lambda>e. fst e \<noteq> k) l"

definition mru_put :: "nat \<Rightarrow> 'k \<Rightarrow> 'p \<Rightarrow> ('k \<times> 'p) list \<Rightarrow> ('k \<times> 'p) list" where
  \<comment> \<open>a new key evicts the entries used least recently\<close>
  "mru_put m k p l = use_first k p (if k \<in> fst ` set l \<or> m = 0 then l else take (m - 1) l)"

lemma put_fresh_inv:
  fixes p :: 'p
  assumes inv: "mc_inv c" and new: "k \<notin> fst ` set (mc_entries c)"
  defines "c' \<equiv> c\<lparr>mc_ordering := (mc_next_node c, k, p) # mc_ordering c,
    mc_index := index_emplace k (mc_next_node c) (mc_index c), mc_next_node := mc_next_node c + 1\<rparr>"
  shows "mc_inv c'" "mc_entries c' = (k, p) # mc_entries c"
proof -
  have n: "map_of (mc_index c) k = None" "k \<notin> fst ` set (mc_index c)" using inv_index_None [OF inv] new by (simp_all add: map_of_eq_None_iff)
  have "k \<notin> (\<lambda>e. fst (snd e)) ` set (mc_ordering c)" using new by (simp add: mc_entries_def image_image)
  then show "mc_inv c'" using inv n unfolding c'_def mc_inv_def by (auto simp: index_emplace_def less_Suc_eq)
  show "mc_entries c' = (k, p) # mc_entries c" by (simp add: c'_def mc_entries_def)
qed

lemma Put_ok:
  assumes inv: "mc_inv c" and m: "mc_max_size c < size_mod"
  shows "\<exists>c'. mc_Put on k p c = Inr (list_begin (mc_ordering c'), c') \<and> mc_inv c' \<and> mc_entries c' = mru_put (mc_max_size c) k p (mc_entries c) \<and>
    mc_max_size c' = mc_max_size c"
proof -
  let ?l = "if k \<in> fst ` set (mc_entries c) \<or> mc_max_size c = 0 then mc_entries c else take (mc_max_size c - 1) (mc_entries c)"
  let ?prep = "case map_of (mc_index c) k of
      Some n \<Rightarrow> rbind (mc_Erase (Some n) c) (\<lambda>(_, c'). Inr c')
    | None \<Rightarrow> if mc_max_size c \<noteq> NO_AUTO_EVICT then ShrinkToSize on (sz_sub (mc_max_size c) 1) c else Inr c"
  have "\<exists>c1. ?prep = Inr c1 \<and> mc_inv c1 \<and> mc_entries c1 = filter (\<lambda>e. fst e \<noteq> k) ?l \<and> mc_max_size c1 = mc_max_size c"
  proof (cases "map_of (mc_index c) k")
    case None
    then have k: "k \<notin> fst ` set (mc_entries c)" using inv_index_None [OF inv] by blast
    then have f: "filter (\<lambda>e. fst e \<noteq> k) (mc_entries c) = mc_entries c" by (intro filter_True) force
    have "set (take (mc_max_size c - 1) (mc_entries c)) \<subseteq> set (mc_entries c)" by (rule set_take_subset)
    then have t: "filter (\<lambda>e. fst e \<noteq> k) (take (mc_max_size c - 1) (mc_entries c)) = take (mc_max_size c - 1) (mc_entries c)"
      using k by (intro filter_True) force
    have s: "mc_max_size c \<noteq> 0 \<Longrightarrow> sz_sub (mc_max_size c) 1 = mc_max_size c - 1" using m by (intro sz_sub_small) auto
    show ?thesis using None k f t s inv ShrinkToSize_ok [OF inv, of on "mc_max_size c - 1"] by (simp add: NO_AUTO_EVICT_def)
  next
    case (Some n)
    then obtain q where "(n, k, q) \<in> set (mc_ordering c)" using inv_index [OF inv] by blast
    then have "k \<in> fst ` set (mc_entries c)" by (force simp: mc_entries_def)
    then show ?thesis using Some Erase_ok [OF inv \<open>(n, k, q) \<in> set (mc_ordering c)\<close>] by auto
  qed
  then obtain c1 where c1: "?prep = Inr c1" "mc_inv c1" "mc_entries c1 = filter (\<lambda>e. fst e \<noteq> k) ?l" "mc_max_size c1 = mc_max_size c"
    by (elim exE conjE)
  have "k \<notin> fst ` set (mc_entries c1)" unfolding c1(3) by auto
  note new = put_fresh_inv [OF c1(2) this, of p]
  show ?thesis using new c1(3,4) unfolding mc_Put_def c1(1) by (simp add: mru_put_def use_first_def Let_def)
qed

lemma Get_ok:
  assumes inv: "mc_inv c"
  shows "\<exists>r c'. mc_Get k c = Inr (r, c') \<and> mc_inv c' \<and> mc_max_size c' = mc_max_size c \<and>
    (case map_of (mc_entries c) k of
       None \<Rightarrow> r = None \<and> c' = c
     | Some p \<Rightarrow> mc_entries c' = use_first k p (mc_entries c) \<and> list_deref r (mc_ordering c') = Inr (k, p))"
proof (cases "map_of (mc_index c) k")
  case None
  then have "map_of (mc_entries c) k = None" using inv_index_None [OF inv] by (simp add: map_of_eq_None_iff)
  then show ?thesis using None inv by (simp add: mc_Get_def)
next
  case (Some n)
  then obtain p where at: "(n, k, p) \<in> set (mc_ordering c)" using inv_index [OF inv] by blast
  then have "(k, p) \<in> set (mc_entries c)" by (force simp: mc_entries_def)
  then have e: "map_of (mc_entries c) k = Some p" using inv_entries_distinct [OF inv] by simp
  let ?ord = "(n, k, p) # filter (\<lambda>x. fst x \<noteq> n) (mc_ordering c)"
  have inj: "inj_on fst (set (mc_ordering c))" using inv by (simp add: mc_inv_def distinct_map)
  have u: "e = (n, k, p)" if "e \<in> set (mc_ordering c)" "fst e = n" for e using inj_onD [OF inj, of e "(n, k, p)"] that at by simp
  have "insert (n, k, p) {e \<in> set (mc_ordering c). fst e \<noteq> n} = set (mc_ordering c)" using at u by blast
  then have s: "set ?ord = set (mc_ordering c)" by simp
  have "mc_inv (c\<lparr>mc_ordering := ?ord\<rparr>)"
    using inv same_node [OF inv at] s unfolding mc_inv_def by (auto simp: distinct_map_filter)
  moreover have "mc_entries (c\<lparr>mc_ordering := ?ord\<rparr>) = use_first k p (mc_entries c)"
    using filter_inv(2) [OF inv at] by (simp add: mc_entries_def use_first_def)
  moreover have "mc_Get k c = Inr (Some n, c\<lparr>mc_ordering := ?ord\<rparr>)" using Some inv_deref [OF inv at] by (simp add: mc_Get_def list_begin_def)
  ultimately show ?thesis using e by (simp add: list_deref_def)
qed

text \<open>Operations of a client, which reads the payload behind the iterators it gets, and the list that answers them.\<close>

datatype ('k, 'p) mru_op = MruPut 'k 'p | MruGet 'k | MruPeek 'k | MruErase 'k | MruShrink nat | MruClear

definition read_payload :: "list_iterator \<Rightarrow> ('k, 'p) MRUCache \<Rightarrow> 'p option result" where
  "read_payload it c = (if it = None then Inr None else rbind (list_deref it (mc_ordering c)) (\<lambda>e. Inr (Some (snd e))))"

fun mru_run :: "bool \<Rightarrow> ('k, 'p) mru_op \<Rightarrow> ('k, 'p) MRUCache \<times> 'p option list \<Rightarrow> (('k, 'p) MRUCache \<times> 'p option list) result option" where
  "mru_run on (MruPut k p) (c, rs) = Some (rbind (mc_Put on k p c) (\<lambda>(it, c'). rbind (read_payload it c') (\<lambda>r. Inr (c', rs @ [r]))))"
| "mru_run on (MruGet k) (c, rs) = Some (rbind (mc_Get k c) (\<lambda>(it, c'). rbind (read_payload it c') (\<lambda>r. Inr (c', rs @ [r]))))"
| "mru_run on (MruPeek k) (c, rs) = Some (rbind (read_payload (mc_Peek k c) c) (\<lambda>r. Inr (c, rs @ [r])))"
| "mru_run on (MruErase k) (c, rs) = Some (rbind (mc_Erase (mc_Peek k c) c) (\<lambda>(it, c'). Inr (c', rs)))"
| "mru_run on (MruShrink n) (c, rs) = Some (rbind (ShrinkToSize on n c) (\<lambda>c'. Inr (c', rs)))"
| "mru_run on MruClear (c, rs) = Some (Inr (mc_Clear c, rs))"

fun mru_spec :: "nat \<Rightarrow> ('k, 'p) mru_op \<Rightarrow> ('k \<times> 'p) list \<times> 'p option list \<Rightarrow> (('k \<times> 'p) list \<times> 'p option list) option" where
  "mru_spec m (MruPut k p) (l, rs) = Some (mru_put m k p l, rs @ [Some p])"
| "mru_spec m (MruGet k) (l, rs) =
     Some (case map_of l k of None \<Rightarrow> (l, rs @ [None]) | Some p \<Rightarrow> (use_first k p l, rs @ [Some p]))"
| "mru_spec m (MruPeek k) (l, rs) = Some (l, rs @ [map_of l k])"
| "mru_spec m (MruErase k) (l, rs) = (if k \<in> fst ` set l then Some (filter (\<lambda>e. fst e \<noteq> k) l, rs) else None)"
| "mru_spec m (MruShrink n) (l, rs) = Some (take n l, rs)"
| "mru_spec m MruClear (l, rs) = Some ([], rs)"

definition mru_rep :: "nat \<Rightarrow> ('k, 'p) MRUCache \<times> 'p option list \<Rightarrow> ('k \<times> 'p) list \<times> 'p option list \<Rightarrow> bool" where
  "mru_rep m = (\<lambda>(c, rs) (l, rs').
     m < size_mod \<and> mc_inv c \<and> mc_max_size c = m \<and> mc_entries c = l \<and> rs = rs' \<and> (m \<noteq> 0 \<longrightarrow> length l \<le> m))"

lemma length_without: "k \<in> fst ` set l \<Longrightarrow> length (filter (\<lambda>e. fst e \<noteq> k) l) < length l"
  using length_filter_less [of _ l "\<lambda>e. fst e \<noteq> k"] by auto

lemma length_put: "m \<noteq> 0 \<Longrightarrow> length l \<le> m \<Longrightarrow> length (mru_put m k p l) \<le> m"
proof (cases "k \<in> fst ` set l")
  case True
  assume m: "m \<noteq> 0" "length l \<le> m"
  then show ?thesis using True length_without [OF True] by (simp add: mru_put_def use_first_def)
next
  case False
  assume "m \<noteq> 0"
  then show ?thesis using False length_filter_le [of "\<lambda>e. fst e \<noteq> k" "take (m - 1) l"] by (simp add: mru_put_def use_first_def) linarith
qed

lemma length_use_first: "map_of l k = Some p \<Longrightarrow> length (use_first k p l) \<le> length l"
  using length_without [of k l] by (force simp: use_first_def dest: map_of_SomeD)

lemma read_front: "mc_entries c = (k, p) # l \<Longrightarrow> read_payload (list_begin (mc_ordering c)) c = Inr (Some p)"
  by (auto simp: mc_entries_def read_payload_def list_begin_def list_deref_def)

lemma Peek_ok: "mc_inv c \<Longrightarrow> read_payload (mc_Peek k c) c = Inr (map_of (mc_entries c) k)"
proof (cases "map_of (mc_index c) k")
  case None
  assume "mc_inv c"
  then have "map_of (mc_entries c) k = None" using None inv_index_None [of c k] by (simp add: map_of_eq_None_iff)
  then show ?thesis using None by (simp add: mc_Peek_def read_payload_def)
next
  case (Some n)
  assume inv: "mc_inv c"
  then obtain p where at: "(n, k, p) \<in> set (mc_ordering c)" using Some inv_index [OF inv, of k n] by blast
  then have "(k, p) \<in> set (mc_entries c)" by (force simp: mc_entries_def)
  then show ?thesis using Some inv_entries_distinct [OF inv] inv_deref [OF inv at] by (simp add: mc_Peek_def read_payload_def)
qed

lemma mru_run_refines:
  assumes "mru_rep m s a" "mru_spec m op a = Some a'"
  shows "\<exists>s'. mru_run on op s = Some (Inr s') \<and> mru_rep m s' a'"
proof -
  obtain c rs l rs' where s: "s = (c, rs)" "a = (l, rs')" by (cases s, cases a)
  have inv: "mc_inv c" and c: "m < size_mod" "mc_max_size c = m" "mc_entries c = l" "rs' = rs" "m \<noteq> 0 \<longrightarrow> length l \<le> m"
    using assms(1) s by (simp_all add: mru_rep_def)
  show ?thesis
  proof (cases op)
    case (MruPut k p)
    obtain c' where c': "mc_Put on k p c = Inr (list_begin (mc_ordering c'), c')" "mc_inv c'" "mc_entries c' = mru_put m k p l" "mc_max_size c' = m"
      using Put_ok [OF inv, of on k p] c by auto
    have "read_payload (list_begin (mc_ordering c')) c' = Inr (Some p)" using c'(3) by (intro read_front) (simp add: mru_put_def use_first_def)
    then show ?thesis using MruPut assms(2) s c c' length_put [of m l k p] by (auto simp: mru_rep_def)
  next
    case (MruGet k)
    then show ?thesis using assms(2) s c inv Get_ok [OF inv, of k] length_use_first [of l k]
      by (cases "map_of l k") (fastforce simp: mru_rep_def read_payload_def list_deref_def)+
  next
    case (MruPeek k)
    then show ?thesis using assms(2) s c inv Peek_ok [OF inv, of k] by (auto simp: mru_rep_def)
  next
    case (MruErase k)
    then have k: "k \<in> fst ` set l" "a' = (filter (\<lambda>e. fst e \<noteq> k) l, rs)" using assms(2) s c by (auto split: if_splits)
    then obtain n where n: "map_of (mc_index c) k = Some n" using inv_index_None [OF inv, of k] c(3) by fastforce
    then obtain p where at: "(n, k, p) \<in> set (mc_ordering c)" using inv_index [OF inv] by blast
    obtain r c' where "mc_Erase (Some n) c = Inr (r, c')" "mc_inv c'" "mc_entries c' = filter (\<lambda>e. fst e \<noteq> k) l" "mc_max_size c' = m"
      using Erase_ok [OF inv at] c by auto
    moreover have "m \<noteq> 0 \<longrightarrow> length (filter (\<lambda>e. fst e \<noteq> k) l) \<le> m" using c(5) length_without [OF k(1)] by linarith
    ultimately show ?thesis using MruErase s c k n by (auto simp: mru_rep_def mc_Peek_def)
  next
    case (MruShrink n)
    then show ?thesis using assms(2) s c ShrinkToSize_ok [OF inv, of on n] by (auto simp: mru_rep_def min_def)
  next
    case MruClear
    then show ?thesis using assms(2) s c by (auto simp: mru_rep_def mc_Clear_def mc_inv_def mc_entries_def)
  qed
qed

interpretation mru_cache: refined_container "mru_rep m" "mru_run on" "mru_spec m" for m on
  by unfold_locales (rule mru_run_refines)

lemma MRUCacheBase_ctor_rep: "m < size_mod \<Longrightarrow> mru_rep m (MRUCacheBase_ctor m, []) ([], [])"
  by (simp add: mru_rep_def MRUCacheBase_ctor_def mc_inv_def mc_entries_def)

text \<open>Exchanging two caches exchanges what they stand for, their maximum sizes included.\<close>

lemma Swap_rep:
  "mru_rep m (c, rs) (l, rs) \<Longrightarrow> mru_rep m' (c', rs) (l', rs) \<Longrightarrow>
   mru_rep m' (fst (mc_Swap c c'), rs) (l', rs) \<and> mru_rep m (snd (mc_Swap c c'), rs) (l, rs)"
  by (simp add: mc_Swap_def)

section \<open>Properties\<close>

text \<open>Claim C13. After any sequence of \<open>Put\<close>, \<open>Get\<close>, \<open>Peek\<close>, \<open>Erase\<close> of a present key, \<open>ShrinkToSize\<close> and \<open>Clear\<close> on a new cache, no invalid
    iterator has been used and the size check never failed; the answers and the entries are those of the list that puts a
    used or new entry in front and drops the least recently used ones when a new key would exceed the maximum;
    keys are unique, and a cache with a maximum never holds more entries than that.\<close>
theorem mru_cache_refines_list:
  assumes "m < size_mod" "spec_all (mru_spec m) ops ([], []) = Some (l, rs)"
  shows "\<exists>c. run_all (mru_run on) ops (MRUCacheBase_ctor m, []) = Some (Inr (c, rs)) \<and> map snd (mc_ordering c) = l \<and>
    mc_size on c = Inr (length l) \<and> (mc_empty c \<longleftrightarrow> l = []) \<and> distinct (map fst l) \<and> (m \<noteq> 0 \<longrightarrow> length l \<le> m)"
proof -
  obtain s where "run_all (mru_run on) ops (MRUCacheBase_ctor m, []) = Some (Inr s)" "mru_rep m s (l, rs)"
    using mru_cache.run_all_refines [OF MRUCacheBase_ctor_rep [OF assms(1)] assms(2), of on] by (elim exE conjE)
  then obtain c where c: "run_all (mru_run on) ops (MRUCacheBase_ctor m, []) = Some (Inr (c, rs))" "mc_inv c" "mc_entries c = l" "m \<noteq> 0 \<longrightarrow> length l \<le> m"
    by (cases s) (auto simp: mru_rep_def)
  have "length (mc_ordering c) = length l" using c(3) by (auto simp: mc_entries_def)
  then show ?thesis using c inv_sizes [OF c(2)] inv_entries_distinct [OF c(2)]
    by (intro exI [of _ c]) (auto simp: mc_size_def mc_empty_def mc_entries_def)
qed

theorem mru_cache_refines_list_witness:
  "\<exists>c. run_all (mru_run True) [MruPut (1 :: nat) ''a'', MruPut 2 ''b'', MruGet 1, MruPut 3 ''c'', MruPeek 2, MruPut 1 ''d''] (MRUCacheBase_ctor 2, []) =
      Some (Inr (c, [Some ''a'', Some ''b'', Some ''a'', Some ''c'', None, Some ''d''])) \<and>
    map snd (mc_ordering c) = [(1, ''d''), (3, ''c'')]"
proof -
  have spec: "spec_all (mru_spec 2) [MruPut (1 :: nat) ''a'', MruPut 2 ''b'', MruGet 1, MruPut 3 ''c'', MruPeek 2, MruPut 1 ''d''] ([], []) =
      Some ([(1, ''d''), (3, ''c'')], [Some ''a'', Some ''b'', Some ''a'', Some ''c'', None, Some ''d''])"
    by (simp add: mru_put_def use_first_def)
  have m: "2 < size_mod" by (simp add: size_mod_def)
  show ?thesis using mru_cache_refines_list [OF m spec, of True] by (elim exE conjE) (intro exI conjI)
qed

end
