(* ===== verification/Spl_Inl.thy ===== *)
theory Spl_Inl
  imports Cpp_Types
begin

text \<open>
  \<open>common_audio/signal_processing/include/spl_inl.h\<close> and the macros of \<open>signal_processing_library.h\<close>: the fixed-point primitives of the signal
  processing library. An \<open>int16_t\<close> or \<open>int32_t\<close> is an integer, a cast wraps (\<open>wrap\<close>), an \<open>int\<close> result out of range is
  \<open>SignedOverflow\<close>, and \<open>>>\<close> of a negative number is the arithmetic shift. The lookup table of the portable
  leading-zero count is defined in a file that is not in the repository and is a parameter.
\<close>

section \<open>Leading zeros\<close>

definition smear :: "32 word \<Rightarrow> 32 word" where
  \<comment> \<open>the five steps \<open>n |= n >> 1\<close>, \<open>2\<close>, \<open>4\<close>, \<open>8\<close>, \<open>16\<close>\<close>
  "smear n =
     (let n = n OR drop_bit 1 n; n = n OR drop_bit 2 n; n = n OR drop_bit 4 n; n = n OR drop_bit 8 n
      in n OR drop_bit 16 n)"

definition table_slot :: "32 word \<Rightarrow> nat" where
  "table_slot n = unat (drop_bit 26 (n * 0x8c0b2891))"

definition WebRtcSpl_CountLeadingZeros32_NotBuiltin :: "(nat \<Rightarrow> int) \<Rightarrow> 32 word \<Rightarrow> int" where
  "WebRtcSpl_CountLeadingZeros32_NotBuiltin tab n = tab (table_slot (smear n))"

definition WebRtcSpl_CountLeadingZeros64_NotBuiltin :: "(nat \<Rightarrow> int) \<Rightarrow> 64 word \<Rightarrow> int" where
  "WebRtcSpl_CountLeadingZeros64_NotBuiltin tab n =
     (let leading_zeros = (if drop_bit 32 n = 0 then 32 else 0)
      in int leading_zeros + WebRtcSpl_CountLeadingZeros32_NotBuiltin tab (ucast (drop_bit (32 - leading_zeros) n)))"

definition builtin_clz :: "nat \<Rightarrow> nat \<Rightarrow> int" where
  \<comment> \<open>\<open>__builtin_clz\<close> and \<open>__builtin_clzll\<close>: the zeros above the highest set bit of a positive number of the given width\<close>
  "builtin_clz width n = int width - int (bit_length n)"

definition WebRtcSpl_CountLeadingZeros32 :: "32 word \<Rightarrow> int" where
  "WebRtcSpl_CountLeadingZeros32 n = (if n = 0 then 32 else builtin_clz 32 (unat n))"

definition WebRtcSpl_CountLeadingZeros64 :: "64 word \<Rightarrow> int" where
  "WebRtcSpl_CountLeadingZeros64 n = (if n = 0 then 64 else builtin_clz 64 (unat n))"

section \<open>Saturation\<close>

definition WebRtcSpl_SatW32ToW16 :: "int \<Rightarrow> int" where
  "WebRtcSpl_SatW32ToW16 value32 =
     (let out16 = wrap int16_t value32
      in if value32 > 32767 then 32767 else if value32 < - 32768 then - 32768 else out16)"

definition WebRtcSpl_AddSatW32 :: "int \<Rightarrow> int \<Rightarrow> int" where
  "WebRtcSpl_AddSatW32 a b =
     (let s = wrap int32_t (wrap uint32_t (wrap uint32_t a + wrap uint32_t b))
      in if (a < 0) = (b < 0) \<and> (a < 0) \<noteq> (s < 0) then (if s < 0 then imax int32_t else imin int32_t) else s)"

definition WebRtcSpl_SubSatW32 :: "int \<Rightarrow> int \<Rightarrow> int" where
  "WebRtcSpl_SubSatW32 a b =
     (let diff = wrap int32_t (wrap uint32_t (wrap uint32_t a - wrap uint32_t b))
      in if (a < 0) \<noteq> (b < 0) \<and> (a < 0) \<noteq> (diff < 0) then (if diff < 0 then imax int32_t else imin int32_t) else diff)"

definition WebRtcSpl_AddSatW16 :: "int \<Rightarrow> int \<Rightarrow> int" where
  "WebRtcSpl_AddSatW16 a b = WebRtcSpl_SatW32ToW16 (a + b)"

definition WebRtcSpl_SubSatW16 :: "int \<Rightarrow> int \<Rightarrow> int" where
  "WebRtcSpl_SubSatW16 var1 var2 = WebRtcSpl_SatW32ToW16 (var1 - var2)"

section \<open>Norms\<close>

definition WebRtcSpl_GetSizeInBits :: "32 word \<Rightarrow> int" where
  "WebRtcSpl_GetSizeInBits n = wrap int16_t (32 - WebRtcSpl_CountLeadingZeros32 n)"

definition WebRtcSpl_NormW32 :: "int \<Rightarrow> int" where
  "WebRtcSpl_NormW32 a =
     wrap int16_t (if a = 0 then 0 else WebRtcSpl_CountLeadingZeros32 (word_of_int (if a < 0 then NOT a else a)) - 1)"

definition WebRtcSpl_NormU32 :: "32 word \<Rightarrow> int" where
  "WebRtcSpl_NormU32 a = wrap int16_t (if a = 0 then 0 else WebRtcSpl_CountLeadingZeros32 a)"

definition WebRtcSpl_NormW16 :: "int \<Rightarrow> int" where
  "WebRtcSpl_NormW16 a =
     wrap int16_t (if a = 0 then 0 else WebRtcSpl_CountLeadingZeros32 (word_of_int (if a < 0 then NOT a else a)) - 17)"

definition WebRtc_MulAccumW16 :: "int \<Rightarrow> int \<Rightarrow> int \<Rightarrow> int result" where
  "WebRtc_MulAccumW16 a b c = rbind (c_int32 (a * b)) (\<lambda>p. c_int32 (p + c))"

section \<open>Macros\<close>

definition WEBRTC_SPL_MIN :: "int \<Rightarrow> int \<Rightarrow> int" where
  "WEBRTC_SPL_MIN A B = (if A < B then A else B)"

definition WEBRTC_SPL_MAX :: "int \<Rightarrow> int \<Rightarrow> int" where
  "WEBRTC_SPL_MAX A B = (if A > B then A else B)"

definition WEBRTC_SPL_ABS_W16 :: "int \<Rightarrow> int" where
  \<comment> \<open>the operand of the negation is promoted to \<open>int\<close>\<close>
  "WEBRTC_SPL_ABS_W16 a = (if wrap int16_t a \<ge> 0 then wrap int16_t a else - wrap int16_t a)"

definition WEBRTC_SPL_ABS_W32 :: "int \<Rightarrow> int result" where
  "WEBRTC_SPL_ABS_W32 a = (if wrap int32_t a \<ge> 0 then Inr (wrap int32_t a) else c_int32 (- wrap int32_t a))"

definition WEBRTC_SPL_MUL :: "int \<Rightarrow> int \<Rightarrow> int result" where
  "WEBRTC_SPL_MUL a b = c_int32 (wrap int32_t a * wrap int32_t b)"

definition WEBRTC_SPL_UMUL :: "int \<Rightarrow> int \<Rightarrow> int" where
  "WEBRTC_SPL_UMUL a b = wrap uint32_t (wrap uint32_t a * wrap uint32_t b)"

definition WEBRTC_SPL_UMUL_32_16 :: "int \<Rightarrow> int \<Rightarrow> int" where
  "WEBRTC_SPL_UMUL_32_16 a b = wrap uint32_t (wrap uint32_t a * wrap uint16_t b)"

definition WEBRTC_SPL_MUL_16_U16 :: "int \<Rightarrow> int \<Rightarrow> int result" where
  "WEBRTC_SPL_MUL_16_U16 a b = c_int32 (wrap int16_t a * wrap uint16_t b)"

definition WEBRTC_SPL_MUL_16_16 :: "int \<Rightarrow> int \<Rightarrow> int result" where
  "WEBRTC_SPL_MUL_16_16 a b = c_int32 (wrap int16_t a * wrap int16_t b)"

definition asr :: "int \<Rightarrow> nat \<Rightarrow> int" where
  \<comment> \<open>the arithmetic right shift\<close>
  "asr x c = x div 2 ^ c"

definition WEBRTC_SPL_MUL_16_32_RSFT16 :: "int \<Rightarrow> int \<Rightarrow> int result" where
  "WEBRTC_SPL_MUL_16_32_RSFT16 a b =
     rbind (WEBRTC_SPL_MUL_16_16 a (asr b 16)) (\<lambda>hi.
     rbind (WEBRTC_SPL_MUL_16_16 a (asr (b AND 0xffff) 1)) (\<lambda>lo.
     rbind (c_int32 (lo + 0x4000)) (\<lambda>r.
     c_int32 (hi + asr r 15))))"

definition mul_16_32_rsft :: "int \<Rightarrow> int \<Rightarrow> nat \<Rightarrow> int \<Rightarrow> nat \<Rightarrow> int result" where
  \<comment> \<open>the common form of the next three macros\<close>
  "mul_16_32_rsft a b left half right =
     rbind (WEBRTC_SPL_MUL_16_16 a (asr b 16)) (\<lambda>hi.
     rbind (c_int32 (hi * 2 ^ left)) (\<lambda>hi.
     rbind (WEBRTC_SPL_MUL_16_U16 a (wrap uint16_t b)) (\<lambda>lo.
     rbind (c_int32 (asr lo 1 + half)) (\<lambda>r.
     c_int32 (hi + asr r right)))))"

definition WEBRTC_SPL_MUL_16_32_RSFT11 :: "int \<Rightarrow> int \<Rightarrow> int result" where
  "WEBRTC_SPL_MUL_16_32_RSFT11 a b = mul_16_32_rsft a b 5 0x0200 10"

definition WEBRTC_SPL_MUL_16_32_RSFT14 :: "int \<Rightarrow> int \<Rightarrow> int result" where
  "WEBRTC_SPL_MUL_16_32_RSFT14 a b = mul_16_32_rsft a b 2 0x1000 13"

definition WEBRTC_SPL_MUL_16_32_RSFT15 :: "int \<Rightarrow> int \<Rightarrow> int result" where
  "WEBRTC_SPL_MUL_16_32_RSFT15 a b = mul_16_32_rsft a b 1 0x2000 14"

definition WEBRTC_SPL_MUL_16_16_RSFT :: "int \<Rightarrow> int \<Rightarrow> nat \<Rightarrow> int result" where
  "WEBRTC_SPL_MUL_16_16_RSFT a b c =
     rbind (WEBRTC_SPL_MUL_16_16 a b) (\<lambda>p. if c < 32 then Inr (asr p c) else Inl BadShift)"

definition WEBRTC_SPL_MUL_16_16_RSFT_WITH_ROUND :: "int \<Rightarrow> int \<Rightarrow> nat \<Rightarrow> int result" where
  "WEBRTC_SPL_MUL_16_16_RSFT_WITH_ROUND a b c =
     rbind (WEBRTC_SPL_MUL_16_16 a b) (\<lambda>p.
     if 0 < c \<and> c < 32 then rbind (c_int32 (p + 2 ^ (c - 1))) (\<lambda>r. Inr (asr r c)) else Inl BadShift)"

definition WEBRTC_SPL_SCALEDIFF32 :: "int \<Rightarrow> int \<Rightarrow> int \<Rightarrow> int result" where
  \<comment> \<open>for \<open>int32_t\<close> arguments; the last term is unsigned and makes the sum unsigned\<close>
  "WEBRTC_SPL_SCALEDIFF32 A B C =
     rbind (c_int32 (asr B 16 * A)) (\<lambda>p.
     rbind (c_int32 (C + p)) (\<lambda>s.
     Inr (wrap uint32_t (s + asr (wrap uint32_t (wrap uint32_t (B AND 0x0000FFFF) * A)) 16))))"

definition WEBRTC_SPL_SAT :: "int \<Rightarrow> int \<Rightarrow> int \<Rightarrow> int" where
  "WEBRTC_SPL_SAT a b c = (if b > a then a else if b < c then c else b)"

definition WEBRTC_SPL_SHIFT_W32 :: "int \<Rightarrow> int \<Rightarrow> int result" where
  \<comment> \<open>\<open>1 << 31\<close> does not fit in \<open>int\<close>\<close>
  "WEBRTC_SPL_SHIFT_W32 x c =
     (if c \<ge> 0 then (if c < 31 then c_int32 (x * 2 ^ nat c) else Inl BadShift)
      else if - c < 32 then Inr (asr x (nat (- c))) else Inl BadShift)"

definition WEBRTC_SPL_RSHIFT_U32 :: "int \<Rightarrow> nat \<Rightarrow> int result" where
  "WEBRTC_SPL_RSHIFT_U32 x c = (if c < 32 then Inr (asr (wrap uint32_t x) c) else Inl BadShift)"

definition WEBRTC_SPL_RAND :: "int \<Rightarrow> int" where
  "WEBRTC_SPL_RAND a = wrap int16_t (asr (wrap int16_t a * 18816) 7 AND 0x00007fff)"

section \<open>The portable count\<close>

definition clz_table :: "(nat \<Rightarrow> int) \<Rightarrow> bool" where
  \<comment> \<open>what the comment of the portable version says of the table: the answer for each of the 33 normalised values\<close>
  "clz_table tab \<longleftrightarrow> (\<forall>k \<le> 32. tab (table_slot (mask k)) = 32 - int k)"

lemma smear_step:
  fixes n m :: "32 word"
  assumes "\<And>i. bit m i \<longleftrightarrow> (\<exists>j < d. bit n (i + j))"
  shows "bit (m OR drop_bit d m) i \<longleftrightarrow> (\<exists>j < 2 * d. bit n (i + j))"
proof -
  have "(\<exists>j < 2 * d. bit n (i + j)) \<longleftrightarrow> (\<exists>j < d. bit n (i + j)) \<or> (\<exists>j < d. bit n (i + d + j))" (is "?l \<longleftrightarrow> ?r")
  proof
    assume ?l
    then obtain j where j: "j < 2 * d" "bit n (i + j)" by blast
    show ?r
    proof (cases "j < d")
      case False
      then have "bit n (i + d + (j - d))" "j - d < d" using j by auto
      then show ?thesis by blast
    qed (use j in blast)
  next
    assume ?r
    then show ?l
    proof
      assume "\<exists>j < d. bit n (i + d + j)"
      then obtain j where "j < d" "bit n (i + d + j)" by blast
      then show ?thesis by (intro exI [of _ "d + j"]) (simp add: add.assoc)
    next
      assume "\<exists>j < d. bit n (i + j)"
      then obtain j where "j < d" "bit n (i + j)" by blast
      then show ?thesis by (intro exI [of _ j]) simp
    qed
  qed
  then show ?thesis using assms by (simp add: bit_or_iff bit_drop_bit_eq comp_def add.commute)
qed

lemma bit_smear: "bit (smear n) i \<longleftrightarrow> (\<exists>j < 32. bit n (i + j))"
proof -
  define a where "a = n OR drop_bit 1 n"
  define b where "b = a OR drop_bit 2 a"
  define c where "c = b OR drop_bit 4 b"
  define d where "d = c OR drop_bit 8 c"
  have 0: "bit n i \<longleftrightarrow> (\<exists>j < 1. bit n (i + j))" for i by simp
  have 1: "bit a i \<longleftrightarrow> (\<exists>j < 2. bit n (i + j))" for i using smear_step [of n 1 n i, OF 0] by (simp add: a_def)
  have 2: "bit b i \<longleftrightarrow> (\<exists>j < 4. bit n (i + j))" for i using smear_step [of a 2 n i, OF 1] by (simp add: b_def)
  have 3: "bit c i \<longleftrightarrow> (\<exists>j < 8. bit n (i + j))" for i using smear_step [of b 4 n i, OF 2] by (simp add: c_def)
  have 4: "bit d i \<longleftrightarrow> (\<exists>j < 16. bit n (i + j))" for i using smear_step [of c 8 n i, OF 3] by (simp add: d_def)
  have "smear n = d OR drop_bit 16 d" by (simp add: smear_def a_def b_def c_def d_def Let_def)
  then show ?thesis using smear_step [of d 16 n i, OF 4] by simp
qed

lemma bit_length_less: "i < bit_length N \<longleftrightarrow> 2 ^ i \<le> N"
proof (cases "N = 0")
  case True
  then show ?thesis by (simp add: bit_length.simps [of 0])
next
  case False
  then have b: "N < 2 ^ bit_length N" "2 ^ bit_length N \<le> 2 * N" using bit_length_bounds [of N] by simp_all
  show ?thesis
  proof
    assume "i < bit_length N"
    then have "(2 :: nat) ^ Suc i \<le> 2 ^ bit_length N" by (intro power_increasing) auto
    then show "2 ^ i \<le> N" using b(2) by simp
  next
    assume "2 ^ i \<le> N"
    then have "(2 :: nat) ^ i < 2 ^ bit_length N" using b(1) by (rule le_less_trans)
    then show "i < bit_length N" by (rule power_less_imp_less_exp [rotated]) simp
  qed
qed

lemma high_bit: "(\<exists>j. bit N (i + j)) \<longleftrightarrow> 2 ^ i \<le> N" for N :: nat
proof -
  have "(\<exists>j. bit N (i + j)) \<longleftrightarrow> drop_bit i N \<noteq> 0" by (auto simp: bit_eq_iff bit_drop_bit_eq)
  also have "\<dots> \<longleftrightarrow> 2 ^ i \<le> N" by (simp add: drop_bit_eq_div div_eq_0_iff not_less)
  finally show ?thesis .
qed

lemma smear_mask: "smear n = mask (bit_length (unat n))"
proof (rule bit_eqI)
  fix i
  assume i: "possible_bit TYPE(32 word) i"
  have "bit (smear n) i \<longleftrightarrow> (\<exists>j. bit (unat n) (i + j))"
  proof -
    have "bit (unat n) k \<longleftrightarrow> bit n k" "bit n k \<Longrightarrow> k < 32" for k using bit_imp_le_length [of n k] by (simp_all add: bit_unsigned_iff)
    then show ?thesis unfolding bit_smear by (metis add.commute le_add1 le_less_trans)
  qed
  also have "\<dots> \<longleftrightarrow> i < bit_length (unat n)" by (simp only: high_bit bit_length_less)
  finally show "bit (smear n) i \<longleftrightarrow> bit (mask (bit_length (unat n)) :: 32 word) i" using i by (simp add: bit_mask_iff)
qed

lemma bit_length_le: "N < 2 ^ k \<Longrightarrow> bit_length N \<le> k"
  using bit_length_less [of k N] by linarith

lemma bit_length_word: "bit_length (unat (n :: 'a::len word)) \<le> LENGTH('a)"
  by (intro bit_length_le) (rule unsigned_less)

lemma clz32_exact: "clz_table tab \<Longrightarrow> WebRtcSpl_CountLeadingZeros32_NotBuiltin tab n = WebRtcSpl_CountLeadingZeros32 n"
  using bit_length_word [of n]
  by (simp add: WebRtcSpl_CountLeadingZeros32_NotBuiltin_def WebRtcSpl_CountLeadingZeros32_def smear_mask clz_table_def builtin_clz_def
      bit_length.simps [of 0])

lemma clz_eq: "WebRtcSpl_CountLeadingZeros32 n = 32 - int (bit_length (unat n))" "WebRtcSpl_CountLeadingZeros64 m = 64 - int (bit_length (unat m))"
  by (simp_all add: WebRtcSpl_CountLeadingZeros32_def WebRtcSpl_CountLeadingZeros64_def builtin_clz_def bit_length.simps [of 0])

lemma bit_length_div: "bit_length (N div 2 ^ k) = bit_length N - k"
proof -
  have "i < bit_length (N div 2 ^ k) \<longleftrightarrow> i < bit_length N - k" for i
    by (simp add: bit_length_less less_diff_conv power_add le_div_geq less_eq_div_iff_mult_less_eq)
  then show ?thesis by (metis less_irrefl nat_neq_iff)
qed

lemma clz64_exact:
  assumes "clz_table tab"
  shows "WebRtcSpl_CountLeadingZeros64_NotBuiltin tab n = WebRtcSpl_CountLeadingZeros64 n"
proof -
  have d: "unat (drop_bit 32 n) = unat n div 2 ^ 32" unfolding unat_drop_bit_eq by (rule drop_bit_eq_div)
  show ?thesis
  proof (cases "drop_bit 32 n = 0")
    case True
    then have "unat n div 2 ^ 32 = 0" unfolding d [symmetric] by (simp only: unsigned_0)
    then have "unat n < 2 ^ 32" by (simp add: div_eq_0_iff)
    then have "unat (ucast n :: 32 word) = unat n" by (simp add: unsigned_ucast_eq take_bit_nat_eq_self)
    then show ?thesis using True clz32_exact [OF assms] by (simp add: WebRtcSpl_CountLeadingZeros64_NotBuiltin_def clz_eq)
  next
    case False
    then have "unat n div 2 ^ 32 \<noteq> 0" unfolding d [symmetric] by (simp only: unat_eq_zero not_False_eq_True)
    then have "32 < bit_length (unat n)" by (simp add: div_eq_0_iff bit_length_less)
    moreover have "unat n div 2 ^ 32 < 2 ^ 32" using unsigned_less [of n, where 'a = nat] by (simp add: less_mult_imp_div_less)
    then have "unat (ucast (drop_bit 32 n) :: 32 word) = unat n div 2 ^ 32" using d by (simp add: unsigned_ucast_eq take_bit_nat_eq_self del: drop_bit_eq_div)
    ultimately show ?thesis using False clz32_exact [OF assms] bit_length_div [of "unat n" 32]
      unfolding WebRtcSpl_CountLeadingZeros64_NotBuiltin_def clz_eq by (simp add: of_nat_diff clz_eq)
  qed
qed

section \<open>Norms and saturation\<close>

definition magnitude :: "int \<Rightarrow> nat" where
  \<comment> \<open>the operand of the leading-zero count\<close>
  "magnitude a = nat (if a < 0 then NOT a else a)"

lemma shift_fits: "in_range (a * 2 ^ s) \<longleftrightarrow> magnitude a < 2 ^ (w - s)"
  if w: "s \<le> w" and r: "\<And>x. in_range x \<longleftrightarrow> - (2 ^ w) \<le> x \<and> x < (2 :: int) ^ w"
proof -
  have p: "(2 :: int) ^ w = 2 ^ (w - s) * 2 ^ s" using w by (simp flip: power_add)
  have "a * 2 ^ s < 2 ^ (w - s) * 2 ^ s \<longleftrightarrow> a < 2 ^ (w - s)" "- (2 ^ (w - s)) * 2 ^ s \<le> a * 2 ^ s \<longleftrightarrow> - (2 ^ (w - s)) \<le> a"
    using mult_less_cancel_right_pos [of "(2 :: int) ^ s" a "2 ^ (w - s)"] mult_le_cancel_right_pos [of "(2 :: int) ^ s" "- (2 ^ (w - s))" a] by simp_all
  then have "in_range (a * 2 ^ s) \<longleftrightarrow> - (2 ^ (w - s)) \<le> a \<and> a < 2 ^ (w - s)" unfolding r p by simp
  also have "\<dots> \<longleftrightarrow> int (magnitude a) < 2 ^ (w - s)"
    using zero_less_power [of "2 :: int" "w - s"] by (auto simp: magnitude_def not_int_def)
  also have "\<dots> \<longleftrightarrow> magnitude a < 2 ^ (w - s)" by (metis of_nat_less_iff of_nat_numeral of_nat_power)
  finally show ?thesis .
qed

lemma norm_maximal:
  assumes r: "\<And>x. in_range x \<longleftrightarrow> - (2 ^ w) \<le> x \<and> x < (2 :: int) ^ w" and a: "in_range a" "a \<noteq> 0"
  defines "s \<equiv> w - bit_length (magnitude a)"
  shows "bit_length (magnitude a) \<le> w" "in_range (a * 2 ^ s)" "\<not> in_range (a * 2 ^ Suc s)"
proof -
  have "magnitude a < 2 ^ w" using shift_fits [of 0 w in_range a, OF _ r] a(1) by simp
  then show k: "bit_length (magnitude a) \<le> w" by (rule bit_length_le)
  have "magnitude a < 2 ^ bit_length (magnitude a)" using bit_length_less [of "bit_length (magnitude a)" "magnitude a"] by simp
  then show "in_range (a * 2 ^ s)" using k by (subst shift_fits [OF _ r]) (simp_all add: s_def)
  show "\<not> in_range (a * 2 ^ Suc s)"
  proof (cases "bit_length (magnitude a)")
    case 0
    then have "magnitude a = 0" using bit_length_less [of 0 "magnitude a"] by simp
    then have "a = - 1" using a(2) by (auto simp: magnitude_def not_int_def split: if_splits)
    then show ?thesis using 0 by (simp add: r s_def)
  next
    case (Suc k)
    then have "2 ^ k \<le> magnitude a" using bit_length_less [of k "magnitude a"] by simp
    then show ?thesis using \<open>bit_length (magnitude a) \<le> w\<close> Suc by (subst shift_fits [OF _ r]) (simp_all add: s_def Suc_diff_Suc Suc_diff_le)
  qed
qed

lemma unat_magnitude:
  assumes "- (2 ^ 31) \<le> a" "a < 2 ^ 31"
  shows "unat (word_of_int (if a < 0 then NOT a else a) :: 32 word) = magnitude a"
proof -
  have m: "0 \<le> (if a < 0 then NOT a else a)" "(if a < 0 then NOT a else a) < 2 ^ 32" using assms by (auto simp: not_int_def)
  then have "uint (word_of_int (if a < 0 then NOT a else a) :: 32 word) = (if a < 0 then NOT a else a)" by (simp add: uint_word_of_int_eq take_bit_int_eq_self)
  then show ?thesis by (simp add: magnitude_def flip: nat_uint_eq)
qed

lemma int_ranges: "in_type int32_t x \<longleftrightarrow> - (2 ^ 31) \<le> x \<and> x < 2 ^ 31" "in_type int16_t x \<longleftrightarrow> - (2 ^ 15) \<le> x \<and> x < 2 ^ 15"
  "in_int32 x \<longleftrightarrow> in_type int32_t x"
  by (auto simp: limit_defs in_int32_def)

lemma NormW32_eq:
  assumes "in_type int32_t a" "a \<noteq> 0"
  shows "WebRtcSpl_NormW32 a = int (31 - bit_length (magnitude a))"
proof -
  have k: "bit_length (magnitude a) \<le> 31" using norm_maximal(1) [of "in_type int32_t" 31 a] int_ranges(1) assms by blast
  then have "WebRtcSpl_NormW32 a = wrap int16_t (31 - int (bit_length (magnitude a)))"
    using assms unat_magnitude [of a] by (simp add: WebRtcSpl_NormW32_def clz_eq int_ranges)
  then show ?thesis using k by (subst wrap_id [symmetric, of int16_t]) (simp_all add: limit_defs of_nat_diff)
qed

lemma NormW16_eq:
  assumes "in_type int16_t a" "a \<noteq> 0"
  shows "WebRtcSpl_NormW16 a = int (15 - bit_length (magnitude a))"
proof -
  have k: "bit_length (magnitude a) \<le> 15" using norm_maximal(1) [of "in_type int16_t" 15 a] int_ranges(2) assms by blast
  then have "WebRtcSpl_NormW16 a = wrap int16_t (15 - int (bit_length (magnitude a)))"
    using assms unat_magnitude [of a] by (simp add: WebRtcSpl_NormW16_def clz_eq int_ranges)
  then show ?thesis using k by (subst wrap_id [symmetric, of int16_t]) (simp_all add: limit_defs of_nat_diff)
qed

lemma unsigned_norm:
  assumes "0 < N" "N < 2 ^ w"
  shows "N * 2 ^ (w - bit_length N) < 2 ^ w" "2 ^ w \<le> N * 2 ^ Suc (w - bit_length N)"
proof -
  have k: "bit_length N \<le> w" by (rule bit_length_le [OF assms(2)])
  have p: "(2 :: nat) ^ w = 2 ^ bit_length N * 2 ^ (w - bit_length N)" using k by (simp flip: power_add)
  show "N * 2 ^ (w - bit_length N) < 2 ^ w" unfolding p using bit_length_bounds [OF assms(1)] by simp
  show "2 ^ w \<le> N * 2 ^ Suc (w - bit_length N)" unfolding p using bit_length_bounds [OF assms(1)] by simp
qed

lemma NormU32_eq: "a \<noteq> 0 \<Longrightarrow> WebRtcSpl_NormU32 a = int (32 - bit_length (unat a))"
proof -
  assume a: "a \<noteq> 0"
  have k: "bit_length (unat a) \<le> 32" using bit_length_word [of a] by simp
  have "WebRtcSpl_NormU32 a = wrap int16_t (32 - int (bit_length (unat a)))" using a by (simp add: WebRtcSpl_NormU32_def clz_eq)
  then show ?thesis using k by (subst wrap_id [symmetric, of int16_t]) (simp_all add: limit_defs of_nat_diff)
qed

definition clamp :: "int \<Rightarrow> int \<Rightarrow> int \<Rightarrow> int" where
  "clamp lo hi x = max lo (min hi x)"

lemma SatW32ToW16_eq: "WebRtcSpl_SatW32ToW16 v = clamp (- 32768) 32767 v"
proof (cases "in_type int16_t v")
  case True
  then show ?thesis by (simp add: WebRtcSpl_SatW32ToW16_def wrap_id clamp_def limit_defs)
next
  case False
  then show ?thesis by (auto simp: WebRtcSpl_SatW32ToW16_def clamp_def limit_defs)
qed

lemma wrap_wrap_sum: "wrap int32_t (wrap uint32_t (wrap uint32_t a + wrap uint32_t b)) = wrap int32_t (a + b)"
  "wrap int32_t (wrap uint32_t (wrap uint32_t a - wrap uint32_t b)) = wrap int32_t (a - b)"
  by (simp_all add: wrap_def imin_def mod_simps)

lemma wrap_int32_once:
  assumes "- (2 ^ 32) \<le> x" "x < 2 ^ 32"
  shows "wrap int32_t x = (if x < - (2 ^ 31) then x + 2 ^ 32 else if 2 ^ 31 \<le> x then x - 2 ^ 32 else x)"
  using assms by (auto simp: wrap_def imin_def) (smt (verit) mod_pos_pos_trivial mod_add_self2 minus_mod_self2)+

lemma AddSatW32_eq: "in_type int32_t a \<Longrightarrow> in_type int32_t b \<Longrightarrow> WebRtcSpl_AddSatW32 a b = clamp (imin int32_t) (imax int32_t) (a + b)"
  using wrap_int32_once [of "a + b"] by (auto simp: WebRtcSpl_AddSatW32_def wrap_wrap_sum int_ranges clamp_def imin_def imax_def Let_def)

lemma SubSatW32_eq: "in_type int32_t a \<Longrightarrow> in_type int32_t b \<Longrightarrow> WebRtcSpl_SubSatW32 a b = clamp (imin int32_t) (imax int32_t) (a - b)"
  using wrap_int32_once [of "a - b"] by (auto simp: WebRtcSpl_SubSatW32_def wrap_wrap_sum int_ranges clamp_def imin_def imax_def Let_def)

section \<open>Products\<close>

lemma mul_bounds: "\<bar>a\<bar> \<le> m \<Longrightarrow> \<bar>b\<bar> \<le> n \<Longrightarrow> \<bar>a * b\<bar> \<le> m * n" for a b m n :: int
  by (simp add: abs_mult mult_mono)

lemma c_int32_small: "\<bar>x\<bar> < 2147483648 \<Longrightarrow> c_int32 x = Inr x"
  by (auto simp: c_int32_def in_int32_def)

lemma split_b: "b = asr b 16 * 2 ^ 16 + wrap uint16_t b" "0 \<le> wrap uint16_t b" "wrap uint16_t b < 2 ^ 16"
  by (simp_all add: asr_def wrap_def imin_def)

lemma high_half: "in_type int32_t b \<Longrightarrow> in_type int16_t (asr b 16)"
  by (auto simp: int_ranges asr_def div_less_iff_less_mult)

lemma mul_parts:
  assumes "in_type int16_t a" "in_type int32_t b"
  shows "WEBRTC_SPL_MUL_16_16 a (asr b 16) = Inr (a * asr b 16)" "\<bar>a * asr b 16\<bar> \<le> 2 ^ 30"
    "WEBRTC_SPL_MUL_16_U16 a (wrap uint16_t b) = Inr (a * wrap uint16_t b)" "\<bar>a * wrap uint16_t b\<bar> \<le> 2 ^ 15 * (2 ^ 16 - 1)"
proof -
  have a: "\<bar>a\<bar> \<le> 2 ^ 15" "\<bar>asr b 16\<bar> \<le> 2 ^ 15" "\<bar>wrap uint16_t b\<bar> \<le> 2 ^ 16 - 1"
    using assms(1) high_half [OF assms(2)] split_b [of b] by (auto simp: int_ranges)
  show hi: "\<bar>a * asr b 16\<bar> \<le> 2 ^ 30" using mul_bounds [OF a(1,2)] by simp
  show lo: "\<bar>a * wrap uint16_t b\<bar> \<le> 2 ^ 15 * (2 ^ 16 - 1)" using mul_bounds [OF a(1,3)] by simp
  show "WEBRTC_SPL_MUL_16_16 a (asr b 16) = Inr (a * asr b 16)"
    using hi assms high_half [OF assms(2)] by (simp add: WEBRTC_SPL_MUL_16_16_def wrap_id c_int32_small)
  have "wrap uint16_t (wrap uint16_t b) = wrap uint16_t b" by (intro wrap_id wrap_in_type)
  then show "WEBRTC_SPL_MUL_16_U16 a (wrap uint16_t b) = Inr (a * wrap uint16_t b)"
    using lo assms by (simp add: WEBRTC_SPL_MUL_16_U16_def wrap_id c_int32_small)
qed

lemma asr_near: "\<bar>asr (x + 2 ^ k) (Suc k) * 2 ^ Suc k - x\<bar> \<le> 2 ^ k"
proof -
  have "(x + 2 ^ k) mod 2 ^ Suc k < 2 ^ Suc k" "0 \<le> (x + 2 ^ k) mod 2 ^ Suc k" by simp_all
  moreover have "asr (x + 2 ^ k) (Suc k) * 2 ^ Suc k = x + 2 ^ k - (x + 2 ^ k) mod 2 ^ Suc k"
    unfolding asr_def by (rule minus_mod_eq_div_mult [symmetric])
  ultimately show ?thesis unfolding power_Suc by linarith
qed

lemma RSFT16_near:
  assumes "in_type int16_t a" "in_type int32_t b"
  shows "\<exists>r. WEBRTC_SPL_MUL_16_32_RSFT16 a b = Inr r \<and> \<bar>r * 2 ^ 16 - a * b\<bar> \<le> 2 ^ 16"
proof -
  define h l where "h = asr b 16" and "l = asr (b AND 0xffff) 1"
  have m: "b AND 0xffff = wrap uint16_t b" using take_bit_eq_mask [of 16 b] by (simp add: wrap_def imin_def take_bit_eq_mod mask_eq_exp_minus_1)
  define d where "d = wrap uint16_t b - 2 * l"
  have l: "0 \<le> l" "l < 2 ^ 15" "0 \<le> d" "d \<le> 1" using split_b(2,3) [of b] unfolding l_def d_def m asr_def by auto
  have b: "a * b = a * h * 2 ^ 16 + 2 * (a * l) + a * d" by (subst split_b(1) [of b]) (simp add: h_def d_def algebra_simps)
  have a: "\<bar>a\<bar> \<le> 2 ^ 15" using assms(1) by (auto simp: int_ranges)
  have al: "\<bar>a * l\<bar> \<le> 1073741824" using mul_bounds [OF a, of l "2 ^ 15"] l by simp
  have ad: "\<bar>a * d\<bar> \<le> 32768" using mul_bounds [OF a, of d 1] l by simp
  have hi: "WEBRTC_SPL_MUL_16_16 a h = Inr (a * h)" "\<bar>a * h\<bar> \<le> 1073741824" using mul_parts(1,2) [OF assms] by (simp_all add: h_def)
  have lo: "WEBRTC_SPL_MUL_16_16 a l = Inr (a * l)"
    using al l assms(1) by (simp add: WEBRTC_SPL_MUL_16_16_def wrap_id int_ranges c_int32_small)
  define v where "v = asr (a * l + 0x4000) 15"
  have v: "\<bar>v * 32768 - a * l\<bar> \<le> 16384" using asr_near [of "a * l" 14] by (simp add: v_def)
  have "c_int32 (a * l + 0x4000) = Inr (a * l + 0x4000)" using al by (intro c_int32_small) linarith
  moreover have "c_int32 (a * h + v) = Inr (a * h + v)" using hi(2) al v by (intro c_int32_small) linarith
  ultimately have "WEBRTC_SPL_MUL_16_32_RSFT16 a b = Inr (a * h + v)"
    using hi(1) lo unfolding WEBRTC_SPL_MUL_16_32_RSFT16_def h_def [symmetric] l_def [symmetric] by (simp add: v_def)
  moreover have "\<bar>(a * h + v) * 65536 - a * b\<bar> \<le> 65536" using v ad unfolding b distrib_right by simp
  ultimately show ?thesis by simp
qed

lemma rsft_near:
  assumes ab: "in_type int16_t a" "in_type int32_t b" and k: "(left, half, right) \<in> {(5, 0x0200, 10), (2, 0x1000, 13), (1, 0x2000, 14)}"
    and small: "\<bar>a * b\<bar> \<le> 2 ^ (31 + right)"
  shows "\<exists>r. mul_16_32_rsft a b left half right = Inr r \<and> \<bar>r * 2 ^ Suc right - a * b\<bar> \<le> 2 ^ Suc right"
proof -
  define x y where "x = a * asr b 16" and "y = a * wrap uint16_t b"
  have xy: "a * b = x * 65536 + y" by (subst split_b(1) [of b]) (simp add: x_def y_def algebra_simps)
  have hi: "WEBRTC_SPL_MUL_16_16 a (asr b 16) = Inr x" and lo: "WEBRTC_SPL_MUL_16_U16 a (wrap uint16_t b) = Inr y" and y: "\<bar>y\<bar> \<le> 2147450880"
    using mul_parts [OF ab] by (simp_all add: x_def y_def)
  define z where "z = asr y 1"
  have z: "2 * z \<le> y" "y \<le> 2 * z + 1" unfolding z_def asr_def by auto
  define v where "v = asr (z + half) right"
  have run: "mul_16_32_rsft a b left half right =
      rbind (c_int32 (x * 2 ^ left)) (\<lambda>h. rbind (c_int32 (z + half)) (\<lambda>r. c_int32 (h + asr r right)))"
    by (simp add: mul_16_32_rsft_def hi lo z_def)
  have "\<bar>v * 2 ^ right - z\<bar> \<le> half" using asr_near [of z 9] asr_near [of z 12] asr_near [of z 13] k by (auto simp: v_def)
  then have "\<bar>x * 2 ^ left\<bar> < 2147483648 \<and> \<bar>z + half\<bar> < 2147483648 \<and> \<bar>x * 2 ^ left + v\<bar> < 2147483648 \<and>
      \<bar>(x * 2 ^ left + v) * 2 ^ Suc right - a * b\<bar> \<le> 2 ^ Suc right"
    using k small y z unfolding xy by auto
  then show ?thesis unfolding run by (simp add: c_int32_small v_def)
qed

lemma SCALEDIFF32_exact:
  assumes "0 \<le> A" "A < 2 ^ 16" "WEBRTC_SPL_SCALEDIFF32 A B C = Inr r"
  shows "r = wrap uint32_t (C + (A * B) div 2 ^ 16)"
proof -
  define l where "l = wrap uint16_t B"
  have m: "B AND 0xffff = l" using take_bit_eq_mask [of 16 B] by (simp add: l_def wrap_def imin_def take_bit_eq_mod mask_eq_exp_minus_1)
  have l: "0 \<le> l" "l < 2 ^ 16" using split_b(2,3) [of B] by (simp_all add: l_def)
  have "l * A \<le> (2 ^ 16 - 1) * (2 ^ 16 - 1)" using l assms(1,2) by (intro mult_mono) auto
  then have u: "wrap uint32_t l = l" "wrap uint32_t (l * A) = l * A" using l assms(1) by (simp_all add: wrap_id limit_defs)
  have r: "r = wrap uint32_t (C + asr B 16 * A + asr (l * A) 16)"
    using assms(3) u by (auto simp: WEBRTC_SPL_SCALEDIFF32_def m rbind_eq_Inr c_int32_def split: if_splits)
  have "A * B = l * A + asr B 16 * A * 2 ^ 16" by (subst split_b(1) [of B]) (simp add: l_def algebra_simps)
  then have "(A * B) div 2 ^ 16 = asr B 16 * A + asr (l * A) 16" by (simp add: asr_def)
  then show ?thesis unfolding r by (simp add: add.assoc)
qed

section \<open>Properties\<close>

text \<open>Claim C39. The portable leading-zero counts, which fold the argument, multiply it by a constant and look the product up, equal the counts of
    the compiler for every 32-bit and every 64-bit argument, provided the table answers the 33 normalised arguments;
    and such a table exists because the constant sends them to 33 different slots of its 64.\<close>
theorem spl_leading_zeros_exact:
  assumes "clz_table tab"
  shows "WebRtcSpl_CountLeadingZeros32_NotBuiltin tab n = WebRtcSpl_CountLeadingZeros32 n \<and>
    WebRtcSpl_CountLeadingZeros64_NotBuiltin tab m = WebRtcSpl_CountLeadingZeros64 m \<and>
    distinct (map (\<lambda>k. table_slot (mask k)) [0..<33]) \<and> table_slot n < 64"
proof -
  have "distinct (map (\<lambda>k. table_slot (mask k)) [0..<33])" by code_simp
  moreover have "unat (drop_bit 26 (n * 0x8c0b2891)) < 64"
    using unsigned_less [of "n * 0x8c0b2891", where 'a = nat] unfolding unat_drop_bit_eq unfolding drop_bit_eq_div by (simp add: less_mult_imp_div_less)
  ultimately show ?thesis using clz32_exact [OF assms] clz64_exact [OF assms] by (simp add: table_slot_def)
qed

definition example_table :: "int list" where
  "example_table = [32, 8, 17, - 1, - 1, 14, - 1, - 1, - 1, 20, - 1, - 1, - 1, 28, - 1, 18, - 1, - 1, - 1, - 1, - 1, - 1, - 1, - 1, - 1, - 1, - 1, - 1, 0, 26, 25, 24, 4, 11, 23, 31, 3, 7, 10, 16, 22, 30, - 1, - 1, 2, 6, 13, 9, - 1, 15, - 1, 21, - 1, 29, 19, - 1, - 1, - 1, - 1, - 1, 1, 27, 5, 12]"

theorem spl_leading_zeros_exact_witness:
  "WebRtcSpl_CountLeadingZeros32_NotBuiltin ((!) example_table) 1000 = WebRtcSpl_CountLeadingZeros32 1000"
proof -
  have "\<forall>k \<in> set [0..<33]. example_table ! table_slot (mask k) = 32 - int k" by code_simp
  then have "clz_table ((!) example_table)" by (simp add: clz_table_def)
  from spl_leading_zeros_exact [OF this] show ?thesis by blast
qed

text \<open>The norms are exact: a non-zero argument can be shifted left by the norm without leaving its type and not by one more, and
    the norm of zero is zero; the size in bits is that of the binary representation.\<close>
theorem spl_norms_exact:
  "(in_type int32_t a \<longrightarrow> a \<noteq> 0 \<longrightarrow> in_type int32_t (a * 2 ^ nat (WebRtcSpl_NormW32 a)) \<and> \<not> in_type int32_t (a * 2 ^ Suc (nat (WebRtcSpl_NormW32 a)))) \<and>
   (in_type int16_t b \<longrightarrow> b \<noteq> 0 \<longrightarrow> in_type int16_t (b * 2 ^ nat (WebRtcSpl_NormW16 b)) \<and> \<not> in_type int16_t (b * 2 ^ Suc (nat (WebRtcSpl_NormW16 b)))) \<and>
   (n \<noteq> 0 \<longrightarrow> unat n * 2 ^ nat (WebRtcSpl_NormU32 n) < 2 ^ 32 \<and> 2 ^ 32 \<le> unat n * 2 ^ Suc (nat (WebRtcSpl_NormU32 n))) \<and>
   WebRtcSpl_NormW32 0 = 0 \<and> WebRtcSpl_NormW16 0 = 0 \<and> WebRtcSpl_NormU32 0 = 0 \<and>
   unat n < 2 ^ nat (WebRtcSpl_GetSizeInBits n) \<and> 2 ^ nat (WebRtcSpl_GetSizeInBits n) \<le> max 1 (2 * unat n)"
proof -
  have bits: "WebRtcSpl_GetSizeInBits n = int (bit_length (unat n))"
    using bit_length_word [of n] by (simp add: WebRtcSpl_GetSizeInBits_def clz_eq wrap_id limit_defs)
  have size: "unat n < 2 ^ bit_length (unat n) \<and> 2 ^ bit_length (unat n) \<le> max 1 (2 * unat n)"
    using bit_length_bounds [of "unat n"] by (cases "unat n = 0") (auto simp: bit_length.simps [of 0])
  have w32: "in_type int32_t (a * 2 ^ nat (WebRtcSpl_NormW32 a)) \<and> \<not> in_type int32_t (a * 2 ^ Suc (nat (WebRtcSpl_NormW32 a)))"
    if "in_type int32_t a" "a \<noteq> 0"
    using norm_maximal(2,3) [of "in_type int32_t" 31 a, OF int_ranges(1) that] unfolding NormW32_eq [OF that] nat_int by blast
  have w16: "in_type int16_t (b * 2 ^ nat (WebRtcSpl_NormW16 b)) \<and> \<not> in_type int16_t (b * 2 ^ Suc (nat (WebRtcSpl_NormW16 b)))"
    if "in_type int16_t b" "b \<noteq> 0"
    using norm_maximal(2,3) [of "in_type int16_t" 15 b, OF int_ranges(2) that] unfolding NormW16_eq [OF that] nat_int by blast
  have u32: "unat n * 2 ^ nat (WebRtcSpl_NormU32 n) < 2 ^ 32 \<and> 2 ^ 32 \<le> unat n * 2 ^ Suc (nat (WebRtcSpl_NormU32 n))" if "n \<noteq> 0"
    using unsigned_norm [of "unat n" 32] unsigned_less [of n, where 'a = nat] that unfolding NormU32_eq [OF that] nat_int by (simp add: unat_gt_0)
  show ?thesis using w32 w16 u32 size unfolding bits nat_int
    by (simp add: WebRtcSpl_NormW32_def WebRtcSpl_NormW16_def WebRtcSpl_NormU32_def wrap_id limit_defs del: power_Suc)
qed

theorem spl_norms_exact_witness:
  "in_type int32_t (- 5) \<and> in_type int32_t (- 5 * 2 ^ nat (WebRtcSpl_NormW32 (- 5))) \<and> \<not> in_type int16_t (300 * 2 ^ Suc (nat (WebRtcSpl_NormW16 300))) \<and>
    unat (77 :: 32 word) * 2 ^ nat (WebRtcSpl_NormU32 77) < 2 ^ 32"
proof -
  have "in_type int32_t (- 5)" "in_type int16_t 300" "(77 :: 32 word) \<noteq> 0" by (simp_all add: limit_defs)
  then show ?thesis using spl_norms_exact [of "- 5" 300 77] by (simp del: power_Suc)
qed

text \<open>The saturating operations are the exact results clamped to their type.\<close>

theorem spl_saturation_exact:
  "WebRtcSpl_SatW32ToW16 v = clamp (- 32768) 32767 v" "WebRtcSpl_AddSatW16 a b = clamp (- 32768) 32767 (a + b)"
  "WebRtcSpl_SubSatW16 a b = clamp (- 32768) 32767 (a - b)"
  "in_type int32_t c \<Longrightarrow> in_type int32_t d \<Longrightarrow> WebRtcSpl_AddSatW32 c d = clamp (imin int32_t) (imax int32_t) (c + d)"
  "in_type int32_t c \<Longrightarrow> in_type int32_t d \<Longrightarrow> WebRtcSpl_SubSatW32 c d = clamp (imin int32_t) (imax int32_t) (c - d)"
  by (simp_all add: SatW32ToW16_eq AddSatW32_eq SubSatW32_eq WebRtcSpl_AddSatW16_def WebRtcSpl_SubSatW16_def)

text \<open>The macros that multiply a 16-bit by a 32-bit number in two halves and shift the product right by 11, 14, 15 or 16 are within
    one unit of the exact quotient: the one that shifts by 16 for all arguments, the others whenever the
    quotient is at most \<open>2^30\<close>, where no intermediate product overflows.\<close>
theorem spl_products_within_one:
  assumes "in_type int16_t a" "in_type int32_t b"
  shows "(\<exists>r. WEBRTC_SPL_MUL_16_32_RSFT16 a b = Inr r \<and> \<bar>r * 2 ^ 16 - a * b\<bar> \<le> 2 ^ 16) \<and>
    (\<bar>a * b\<bar> \<le> 2 ^ 41 \<longrightarrow> (\<exists>r. WEBRTC_SPL_MUL_16_32_RSFT11 a b = Inr r \<and> \<bar>r * 2 ^ 11 - a * b\<bar> \<le> 2 ^ 11)) \<and>
    (\<bar>a * b\<bar> \<le> 2 ^ 44 \<longrightarrow> (\<exists>r. WEBRTC_SPL_MUL_16_32_RSFT14 a b = Inr r \<and> \<bar>r * 2 ^ 14 - a * b\<bar> \<le> 2 ^ 14)) \<and>
    (\<bar>a * b\<bar> \<le> 2 ^ 45 \<longrightarrow> (\<exists>r. WEBRTC_SPL_MUL_16_32_RSFT15 a b = Inr r \<and> \<bar>r * 2 ^ 15 - a * b\<bar> \<le> 2 ^ 15))"
  using RSFT16_near [OF assms] rsft_near [OF assms, of 5 "0x0200" 10] rsft_near [OF assms, of 2 "0x1000" 13] rsft_near [OF assms, of 1 "0x2000" 14]
  by (simp add: WEBRTC_SPL_MUL_16_32_RSFT11_def WEBRTC_SPL_MUL_16_32_RSFT14_def WEBRTC_SPL_MUL_16_32_RSFT15_def)

theorem spl_products_within_one_witness:
  "\<exists>r. WEBRTC_SPL_MUL_16_32_RSFT15 (- 12345) 987654321 = Inr r \<and> \<bar>r * 2 ^ 15 - (- 12345) * 987654321\<bar> \<le> 2 ^ 15"
proof -
  have "in_type int16_t (- 12345)" "in_type int32_t 987654321" by (simp_all add: limit_defs)
  from spl_products_within_one [OF this] show ?thesis by simp
qed

text \<open>\<open>WEBRTC_SPL_SCALEDIFF32\<close> is the sum its comment promises when the factor is not negative, and not otherwise: the unsigned
    product of the low half loses the sign.\<close>

theorem spl_scalediff_negative_factor:
  "WEBRTC_SPL_SCALEDIFF32 (- 1) 1 0 = Inr 65535" "wrap uint32_t (0 + (- 1 * 1) div 2 ^ 16) \<noteq> 65535"
  by (simp_all add: WEBRTC_SPL_SCALEDIFF32_def asr_def c_int32_def in_int32_def wrap_def imin_def)

end
