(* ===== verification/Audio_Util.thy ===== *)
theory Audio_Util
  imports Cpp_Types
begin

text \<open>
  \<open>common_audio/include/audio_util.h\<close>: conversions between 16-bit samples and \<open>float\<close>, and the loops that interleave, deinterleave, upmix and
  downmix audio. A \<open>float\<close> is binary32 with every operation rounded; converting a \<open>float\<close> that does not fit is
  \<open>BadConversion\<close>. A channel buffer is a list, an access outside of it \<open>OutOfBounds\<close>; the functions with two levels of pointers work on distinct
  buffers, as their comments require, except for \<open>CopyAudioIfNeeded\<close>, which compares them.
\<close>

section \<open>Samples\<close>

fun cf_neg :: "cfloat \<Rightarrow> cfloat" where
  "cf_neg (Finite r) = Finite (- r)"
| "cf_neg (Infinite n) = Infinite (\<not> n)"
| "cf_neg NaN = NaN"

fun cf_add :: "ctype \<Rightarrow> cfloat \<Rightarrow> cfloat \<Rightarrow> cfloat" where
  "cf_add T (Finite a) (Finite b) = round_to T (a + b)"
| "cf_add T (Finite a) (Infinite n) = Infinite n"
| "cf_add T (Infinite n) (Finite b) = Infinite n"
| "cf_add T (Infinite n) (Infinite m) = (if n = m then Infinite n else NaN)"
| "cf_add T _ _ = NaN"

definition to_s16 :: "cfloat \<Rightarrow> int result" where
  \<comment> \<open>\<open>static_cast<int16_t>\<close>\<close>
  "to_s16 f = rbind (static_cast int16_t (FloatV f)) (\<lambda>v. Inr (case v of IntV i \<Rightarrow> i | FloatV _ \<Rightarrow> 0))"

definition s16_float :: "int \<Rightarrow> cfloat" where
  \<comment> \<open>the conversion of an integer operand to \<open>float\<close>\<close>
  "s16_float v = round_to float_t (of_int v)"

definition FloatToS16 :: "cfloat \<Rightarrow> int result" where
  "FloatToS16 v =
     (if float_cmp GtOp v (Finite 0)
      then if float_cmp GeOp v (Finite 1) then Inr (imax int16_t)
           else to_s16 (cf_add float_t (cf_mul float_t v (s16_float (imax int16_t))) (Finite (1 / 2)))
      else if float_cmp LeOp v (Finite (- 1)) then Inr (imin int16_t)
           else to_s16 (cf_add float_t (cf_mul float_t (cf_neg v) (s16_float (imin int16_t))) (Finite (- 1 / 2))))"

definition kMaxInt16Inverse :: cfloat where
  "kMaxInt16Inverse = cf_div float_t (Finite 1) (s16_float (imax int16_t))"

definition kMinInt16Inverse :: cfloat where
  "kMinInt16Inverse = cf_div float_t (Finite 1) (s16_float (imin int16_t))"

definition S16ToFloat :: "int \<Rightarrow> cfloat" where
  "S16ToFloat v = cf_mul float_t (s16_float v) (if v > 0 then kMaxInt16Inverse else cf_neg kMinInt16Inverse)"

definition kMaxRound :: cfloat where
  "kMaxRound = cf_add float_t (s16_float (imax int16_t)) (Finite (- 1 / 2))"

definition kMinRound :: cfloat where
  "kMinRound = cf_add float_t (s16_float (imin int16_t)) (Finite (1 / 2))"

definition FloatS16ToS16 :: "cfloat \<Rightarrow> int result" where
  "FloatS16ToS16 v =
     (if float_cmp GtOp v (Finite 0)
      then if float_cmp GeOp v kMaxRound then Inr (imax int16_t) else to_s16 (cf_add float_t v (Finite (1 / 2)))
      else if float_cmp LeOp v kMinRound then Inr (imin int16_t) else to_s16 (cf_add float_t v (Finite (- 1 / 2))))"

definition FloatToFloatS16 :: "cfloat \<Rightarrow> cfloat" where
  "FloatToFloatS16 v = cf_mul float_t v (s16_float (if float_cmp GtOp v (Finite 0) then imax int16_t else - imin int16_t))"

definition FloatS16ToFloat :: "cfloat \<Rightarrow> cfloat" where
  "FloatS16ToFloat v = cf_mul float_t v (if float_cmp GtOp v (Finite 0) then kMaxInt16Inverse else cf_neg kMinInt16Inverse)"

text \<open>The functions of \<open><cmath>\<close> are arguments.\<close>

definition DbToRatio :: "(cfloat \<Rightarrow> cfloat \<Rightarrow> cfloat) \<Rightarrow> cfloat \<Rightarrow> cfloat" where
  "DbToRatio std_pow v = std_pow (Finite 10) (cf_div float_t v (Finite 20))"

definition DbfsToFloatS16 :: "(cfloat \<Rightarrow> cfloat \<Rightarrow> cfloat) \<Rightarrow> cfloat \<Rightarrow> cfloat" where
  "DbfsToFloatS16 std_pow v = cf_mul float_t (DbToRatio std_pow v) (s16_float (- imin int16_t))"

definition FloatS16ToDbfs :: "bool \<Rightarrow> (cfloat \<Rightarrow> cfloat) \<Rightarrow> cfloat \<Rightarrow> cfloat result" where
  "FloatS16ToDbfs on std_log10 v =
     rbind (rtc_dcheck on (float_cmp GeOp v (Finite 0))) (\<lambda>_.
     let kMinDbfs = round_to float_t (- 9030899869919436 / 10 ^ 14)
     in if float_cmp LeOp v (Finite 1) then Inr kMinDbfs
        else Inr (cf_add float_t (cf_mul float_t (Finite 20) (std_log10 v)) kMinDbfs))"

section \<open>Loops over buffers\<close>

function for_loop :: "nat \<Rightarrow> nat \<Rightarrow> (nat \<Rightarrow> 's \<Rightarrow> 's result) \<Rightarrow> 's \<Rightarrow> 's result" where
  \<comment> \<open>\<open>for (; i < n; ++i)\<close>\<close>
  "for_loop i n f s = (if i < n then rbind (f i s) (for_loop (i + 1) n f) else Inr s)"

  by pat_completeness auto
termination by (relation "measure (\<lambda>(i, n, f, s). n - i)") auto

declare for_loop.simps [simp del]

definition rd :: "'a list \<Rightarrow> nat \<Rightarrow> 'a result" where
  "rd xs i = (if i < length xs then Inr (xs ! i) else Inl OutOfBounds)"

definition wr :: "'a list \<Rightarrow> nat \<Rightarrow> 'a \<Rightarrow> 'a list result" where
  "wr xs i v = (if i < length xs then Inr (xs[i := v]) else Inl OutOfBounds)"

definition CopyAudioIfNeeded :: "nat list \<Rightarrow> int \<Rightarrow> int \<Rightarrow> nat list \<Rightarrow> (nat \<Rightarrow> 'a list) \<Rightarrow> (nat \<Rightarrow> 'a list) result" where
  \<comment> \<open>\<open>src\<close> and \<open>dest\<close> are arrays of addresses of buffers in the memory, the last argument\<close>
  "CopyAudioIfNeeded src num_frames num_channels dest mem =
     for_loop 0 (nat num_channels) (\<lambda>i mem.
       rbind (rd src i) (\<lambda>p.
       rbind (rd dest i) (\<lambda>q.
       if p \<noteq> q
       then if nat num_frames \<le> length (mem p) \<and> nat num_frames \<le> length (mem q)
            then Inr (mem(q := take (nat num_frames) (mem p) @ drop (nat num_frames) (mem q)))
            else Inl OutOfBounds
       else Inr mem))) mem"

definition Deinterleave :: "'a list \<Rightarrow> size_t \<Rightarrow> size_t \<Rightarrow> 'a list list \<Rightarrow> 'a list list result" where
  "Deinterleave interleaved samples_per_channel num_channels deinterleaved =
     for_loop 0 num_channels (\<lambda>i chs.
       rbind (rd chs i) (\<lambda>channel.
       rbind (for_loop 0 samples_per_channel (\<lambda>j (idx, channel).
                rbind (rd interleaved idx) (\<lambda>v.
                rbind (wr channel j v) (\<lambda>channel.
                Inr (sz_add idx num_channels, channel)))) (i, channel)) (\<lambda>(idx, channel).
       wr chs i channel))) deinterleaved"

definition Interleave :: "'a list list \<Rightarrow> size_t \<Rightarrow> size_t \<Rightarrow> 'a list \<Rightarrow> 'a list result" where
  "Interleave deinterleaved samples_per_channel num_channels interleaved =
     for_loop 0 num_channels (\<lambda>i out.
       rbind (rd deinterleaved i) (\<lambda>channel.
       rbind (for_loop 0 samples_per_channel (\<lambda>j (idx, out).
                rbind (rd channel j) (\<lambda>v.
                rbind (wr out idx v) (\<lambda>out.
                Inr (sz_add idx num_channels, out)))) (i, out)) (\<lambda>(idx, out).
       Inr out))) interleaved"

definition UpmixMonoToInterleaved :: "'a list \<Rightarrow> int \<Rightarrow> int \<Rightarrow> 'a list \<Rightarrow> 'a list result" where
  "UpmixMonoToInterleaved mono_buf num_frames num_channels interleaved =
     rbind (for_loop 0 (nat num_frames) (\<lambda>i s.
       for_loop 0 (nat num_channels) (\<lambda>j (idx, out).
         rbind (rd mono_buf i) (\<lambda>v.
         rbind (wr out (nat idx) v) (\<lambda>out.
         rbind (c_int32 (idx + 1)) (\<lambda>idx.
         Inr (idx, out))))) s) (0, interleaved)) (\<lambda>(idx, out). Inr out)"

text \<open>The downmixes for \<open>T = int16_t\<close> and \<open>Intermediate = int32_t\<close>, the instance of the library.\<close>

definition DownmixToMono :: "int list list \<Rightarrow> size_t \<Rightarrow> int \<Rightarrow> int list \<Rightarrow> int list result" where
  "DownmixToMono input_channels num_frames num_channels out =
     for_loop 0 num_frames (\<lambda>i out.
       rbind (rd input_channels 0) (\<lambda>ch.
       rbind (rd ch i) (\<lambda>v0.
       rbind (for_loop 1 (nat num_channels) (\<lambda>j value.
                rbind (rd input_channels j) (\<lambda>ch.
                rbind (rd ch i) (\<lambda>v.
                c_int32 (value + v)))) v0) (\<lambda>value.
       rbind (c_div value num_channels) (\<lambda>q.
       wr out i (wrap int16_t q)))))) out"

function sum_frame :: "int list \<Rightarrow> nat \<Rightarrow> nat \<Rightarrow> int \<Rightarrow> (nat \<times> int) result" where
  \<comment> \<open>\<open>while (interleaved < frame_end) value += *interleaved++;\<close>\<close>
  "sum_frame xs p frame_end value =
     (if p < frame_end then rbind (rd xs p) (\<lambda>v. rbind (c_int32 (value + v)) (sum_frame xs (p + 1) frame_end)) else Inr (p, value))"
  by pat_completeness auto
termination by (relation "measure (\<lambda>(xs, p, frame_end, value). frame_end - p)") auto

declare sum_frame.simps [simp del]

lemma sum_frame_advances: "sum_frame xs p e v = Inr (p', v') \<Longrightarrow> p \<le> p'"
  by (induction xs p e v rule: sum_frame.induct) (subst (asm) (2) sum_frame.simps, force simp: rbind_eq_Inr split: if_splits)

function downmix_loop :: "int list \<Rightarrow> nat \<Rightarrow> nat \<Rightarrow> int \<Rightarrow> nat \<Rightarrow> int list \<Rightarrow> int list result" where
  "downmix_loop interleaved p end_p num_channels q out =
     (if p < end_p
      then rbind (rd interleaved p) (\<lambda>v.
           case sum_frame interleaved (p + 1) (p + nat num_channels) v of
             Inl e \<Rightarrow> Inl e
           | Inr (p', value) \<Rightarrow>
               rbind (c_div value num_channels) (\<lambda>m.
               rbind (wr out q (wrap int16_t m)) (\<lambda>out.
               downmix_loop interleaved p' end_p num_channels (q + 1) out)))
      else Inr out)"
  by pat_completeness auto
termination
  by (relation "measure (\<lambda>(xs, p, end_p, n, q, out). end_p - p)") (auto dest: sum_frame_advances)

declare downmix_loop.simps [simp del]

definition DownmixInterleavedToMonoImpl :: "bool \<Rightarrow> int list \<Rightarrow> size_t \<Rightarrow> int \<Rightarrow> int list \<Rightarrow> int list result" where
  \<comment> \<open>\<open>num_channels\<close> is converted to \<open>size_t\<close> in the product; forming a pointer beyond the array is undefined\<close>
  "DownmixInterleavedToMonoImpl on interleaved num_frames num_channels deinterleaved =
     rbind (rtc_dcheck on (num_channels > 0)) (\<lambda>_.
     rbind (rtc_dcheck on (num_frames > 0)) (\<lambda>_.
     let end_p = sz_mul num_frames (to_size_t num_channels)
     in if end_p \<le> length interleaved then downmix_loop interleaved 0 end_p num_channels 0 deinterleaved else Inl OutOfBounds))"

section \<open>Rules for the loops\<close>

lemma for_loop_rule:
  assumes "P i s" "i \<le> n" "\<And>j s. i \<le> j \<Longrightarrow> j < n \<Longrightarrow> P j s \<Longrightarrow> \<exists>s'. f j s = Inr s' \<and> P (Suc j) s'"
  shows "\<exists>s'. for_loop i n f s = Inr s' \<and> P n s'"
  using assms
proof (induction "n - i" arbitrary: i s)
  case 0
  then show ?case by (simp add: for_loop.simps)
next
  case (Suc m)
  then have lt: "i < n" by simp
  obtain s1 where s1: "f i s = Inr s1" "P (Suc i) s1" using Suc.prems(3) [OF order_refl lt Suc.prems(1)] by (elim exE conjE)
  have "\<exists>s'. for_loop (Suc i) n f s1 = Inr s' \<and> P n s'"
    by (rule Suc.hyps(1)) (use Suc s1 in auto)
  then show ?case using s1 lt by (subst for_loop.simps) simp
qed

lemma strided_index: "i < nc \<Longrightarrow> j < spc \<Longrightarrow> j * nc + i < spc * nc" for i j nc spc :: nat
proof -
  assume "i < nc" "j < spc"
  then have "Suc j * nc \<le> spc * nc" by (intro mult_le_mono1) simp
  then show ?thesis using \<open>i < nc\<close> by simp
qed

lemma wrapped_index:
  "i < nc \<Longrightarrow> j < spc \<Longrightarrow> spc * nc < size_mod \<Longrightarrow> (i + j * nc) mod size_mod = j * nc + i"
  using strided_index [of i nc j spc] by (simp add: add.commute)

lemma next_wrapped: "sz_add ((i + j * nc) mod size_mod) nc = (i + Suc j * nc) mod size_mod"
  by (simp add: sz_add_def mod_simps ac_simps)

lemma position_cases: "i < nc \<Longrightarrow> p = j * nc + i \<longleftrightarrow> p mod nc = i \<and> p div nc = j" for i j p nc :: nat
  by auto

lemma interleave_channel:
  assumes "i < nc" "length ch = spc" "spc * nc \<le> length out" "length out < size_mod"
  shows "\<exists>idx out'. for_loop 0 spc (\<lambda>j (idx, out).
      rbind (rd ch j) (\<lambda>v. rbind (wr out idx v) (\<lambda>out. Inr (sz_add idx nc, out)))) (i, out) = Inr (idx, out') \<and>
    length out' = length out \<and> (\<forall>p < length out. out' ! p = (if p mod nc = i \<and> p div nc < spc then ch ! (p div nc) else out ! p))"
proof -
  let ?P = "\<lambda>j (idx, o'). idx = (i + j * nc) mod size_mod \<and> length o' = length out \<and>
    (\<forall>p < length out. o' ! p = (if p mod nc = i \<and> p div nc < j then ch ! (p div nc) else out ! p))"
  let ?f = "\<lambda>j (idx, out). rbind (rd ch j) (\<lambda>v. rbind (wr out idx v) (\<lambda>out. Inr (sz_add idx nc, out)))"
  have "nc \<le> spc * nc \<or> spc = 0" by (cases spc) auto
  then have start: "spc = 0 \<or> i < size_mod" using assms by linarith
  have "\<exists>s'. for_loop 0 spc ?f (i, out) = Inr s' \<and> ?P spc s'" if "spc \<noteq> 0"
  proof (rule for_loop_rule)
    show "?P 0 (i, out)" using start that by simp
    fix j s
    assume j: "j < spc" and P: "?P j s"
    obtain idx o' where s: "s = (idx, o')" by (cases s)
    have idx: "idx = j * nc + i" using P s wrapped_index [OF assms(1) j] assms(3,4) by simp
    have lt: "idx < length o'" using strided_index [OF assms(1) j] P s assms(3) idx by simp
    have o: "o'[idx := ch ! j] ! p = (if p mod nc = i \<and> p div nc < Suc j then ch ! (p div nc) else out ! p)" if "p < length out" for p
      using P s that lt position_cases [OF assms(1), of p j] unfolding idx by (auto simp: nth_list_update less_Suc_eq)
    show "\<exists>s'. ?f j s = Inr s' \<and> ?P (Suc j) s'"
      using P s lt o j assms(2) next_wrapped [of i j nc] by (simp add: rd_def wr_def)
  qed simp
  then show ?thesis by (cases "spc = 0") (auto simp: for_loop.simps)
qed

lemma Interleave_ok:
  assumes chs: "length chs = nc" "\<forall>ch \<in> set chs. length ch = spc" and out: "spc * nc \<le> length out" "length out < size_mod"
  shows "\<exists>out'. Interleave chs spc nc out = Inr out' \<and> length out' = length out \<and>
    (\<forall>p < length out. out' ! p = (if p mod nc < nc \<and> p div nc < spc then chs ! (p mod nc) ! (p div nc) else out ! p))"
  unfolding Interleave_def
proof (rule for_loop_rule [where P = "\<lambda>i out'. length out' = length out \<and>
    (\<forall>p < length out. out' ! p = (if p mod nc < i \<and> p div nc < spc then chs ! (p mod nc) ! (p div nc) else out ! p))"])
  let ?P = "\<lambda>i out'. length out' = length out \<and>
    (\<forall>p < length out. out' ! p = (if p mod nc < i \<and> p div nc < spc then chs ! (p mod nc) ! (p div nc) else out ! p))"
  show "?P 0 out" by simp
  fix i out'
  assume i: "i < nc" and P: "?P i out'"
  have ch: "length (chs ! i) = spc" using chs i by simp
  obtain idx o' where o': "for_loop 0 spc (\<lambda>j (idx, out).
      rbind (rd (chs ! i) j) (\<lambda>v. rbind (wr out idx v) (\<lambda>out. Inr (sz_add idx nc, out)))) (i, out') = Inr (idx, o')"
    "length o' = length out'" "\<forall>p < length out'. o' ! p = (if p mod nc = i \<and> p div nc < spc then chs ! i ! (p div nc) else out' ! p)"
    using interleave_channel [OF i ch, of out'] out P by auto
  have "o' ! p = (if p mod nc < Suc i \<and> p div nc < spc then chs ! (p mod nc) ! (p div nc) else out ! p)" if "p < length out" for p
    using P o'(3) that by (auto simp: less_Suc_eq)
  then show "\<exists>s'. rbind (rd chs i) (\<lambda>channel. rbind (for_loop 0 spc (\<lambda>j (idx, out).
      rbind (rd channel j) (\<lambda>v. rbind (wr out idx v) (\<lambda>out. Inr (sz_add idx nc, out)))) (i, out')) (\<lambda>(idx, out). Inr out)) = Inr s' \<and> ?P (Suc i) s'"
    using o' P i chs(1) by (simp add: rd_def)
qed simp

lemma deinterleave_channel:
  assumes "i < nc" "length ch = spc" "spc * nc \<le> length src" "length src < size_mod"
  shows "\<exists>idx. for_loop 0 spc (\<lambda>j (idx, ch).
      rbind (rd src idx) (\<lambda>v. rbind (wr ch j v) (\<lambda>ch. Inr (sz_add idx nc, ch)))) (i, ch) =
    Inr (idx, map (\<lambda>j. src ! (j * nc + i)) [0..<spc])"
proof (cases "spc = 0")
  case True
  then show ?thesis using assms(2) by (simp add: for_loop.simps)
next
  case False
  let ?P = "\<lambda>j (idx, c). idx = (i + j * nc) mod size_mod \<and> length c = spc \<and> (\<forall>q < j. c ! q = src ! (q * nc + i))"
  let ?f = "\<lambda>j (idx, ch). rbind (rd src idx) (\<lambda>v. rbind (wr ch j v) (\<lambda>ch. Inr (sz_add idx nc, ch)))"
  have "nc \<le> spc * nc" using False by (cases spc) auto
  then have start: "i < size_mod" using assms by linarith
  have "\<exists>s'. for_loop 0 spc ?f (i, ch) = Inr s' \<and> ?P spc s'"
  proof (rule for_loop_rule [where P = ?P])
    show "?P 0 (i, ch)" using start assms(2) by simp
    fix j s
    assume j: "j < spc" and P: "?P j s"
    obtain idx c where s: "s = (idx, c)" by (cases s)
    have idx: "idx = j * nc + i" using P s wrapped_index [OF assms(1) j] assms(3,4) by simp
    then have lt: "idx < length src" using strided_index [OF assms(1) j] assms(3) by simp
    show "\<exists>s'. ?f j s = Inr s' \<and> ?P (Suc j) s'"
      using P s lt j next_wrapped [of i j nc] idx by (auto simp: rd_def wr_def nth_list_update less_Suc_eq)
  qed simp
  then obtain idx c where c: "for_loop 0 spc ?f (i, ch) = Inr (idx, c)" "length c = spc" "\<forall>q < spc. c ! q = src ! (q * nc + i)" by auto
  have "c = map (\<lambda>j. src ! (j * nc + i)) [0..<spc]" using c(2,3) by (intro nth_equalityI) simp_all
  then show ?thesis using c(1) by (intro exI [of _ idx]) simp
qed

lemma Deinterleave_ok:
  assumes bufs: "length bufs = nc" "\<forall>b \<in> set bufs. length b = spc" and src: "spc * nc \<le> length src" "length src < size_mod"
  shows "Deinterleave src spc nc bufs = Inr (map (\<lambda>i. map (\<lambda>j. src ! (j * nc + i)) [0..<spc]) [0..<nc])"
proof -
  let ?ch = "\<lambda>i. map (\<lambda>j. src ! (j * nc + i)) [0..<spc]"
  let ?P = "\<lambda>i chs. length chs = nc \<and> (\<forall>k < nc. chs ! k = (if k < i then ?ch k else bufs ! k))"
  have "\<exists>chs. Deinterleave src spc nc bufs = Inr chs \<and> ?P nc chs"
    unfolding Deinterleave_def
  proof (rule for_loop_rule [where P = ?P])
    show "?P 0 bufs" using bufs(1) by simp
    fix i chs
    assume i: "i < nc" and P: "?P i chs"
    have "length (bufs ! i) = spc" using bufs i by simp
    then have c: "chs ! i = bufs ! i" "length (bufs ! i) = spc" using P i by simp_all
    obtain idx where "for_loop 0 spc (\<lambda>j (idx, ch).
      rbind (rd src idx) (\<lambda>v. rbind (wr ch j v) (\<lambda>ch. Inr (sz_add idx nc, ch)))) (i, bufs ! i) = Inr (idx, ?ch i)"
      using deinterleave_channel [OF i c(2) src] by blast
    then show "\<exists>s'. rbind (rd chs i) (\<lambda>channel. rbind (for_loop 0 spc (\<lambda>j (idx, channel).
        rbind (rd src idx) (\<lambda>v. rbind (wr channel j v) (\<lambda>channel. Inr (sz_add idx nc, channel)))) (i, channel)) (\<lambda>(idx, channel). wr chs i channel)) = Inr s' \<and> ?P (Suc i) s'"
      using P i c by (auto simp: rd_def wr_def nth_list_update less_Suc_eq)
  qed simp
  then obtain chs where c: "Deinterleave src spc nc bufs = Inr chs" "length chs = nc" "\<forall>k < nc. chs ! k = ?ch k" by auto
  then have "chs = map ?ch [0..<nc]" by (intro nth_equalityI) simp_all
  then show ?thesis using c(1) by simp
qed

section \<open>Rounding of samples\<close>

lemma s16_float_exact: "\<bar>v\<bar> < 2 ^ 24 \<Longrightarrow> s16_float v = Finite (of_int v)"
  using float_exact_int [of v 0] by (simp add: s16_float_def pow2_def)

lemma s16_limits: "s16_float (imax int16_t) = Finite 32767" "s16_float (imin int16_t) = Finite (- 32768)" "s16_float (- imin int16_t) = Finite 32768"
  using s16_float_exact [of 32767] s16_float_exact [of "- 32768"] s16_float_exact [of 32768] by (simp_all add: imax_def imin_def)

lemma half_exact: "\<bar>k\<bar> < 2 ^ 24 \<Longrightarrow> round_to float_t (of_int k / 2) = Finite (of_int k / 2)"
  using float_exact_int [of k "- 1"] by (simp add: pow2_def)

lemma kMinInt16Inverse_eq: "kMinInt16Inverse = Finite (- 1 / 32768)"
  using float_exact_int [of "- 1" "- 15"] by (simp add: kMinInt16Inverse_def s16_limits pow2_def)

lemma to_s16_trunc: "in_type int16_t (rat_trunc r) \<Longrightarrow> to_s16 (Finite r) = Inr (rat_trunc r)"
  by (simp add: to_s16_def)

lemma roundtrip_nonpos:
  assumes "- 32768 \<le> v" "v \<le> 0"
  shows "FloatToS16 (S16ToFloat v) = Inr v"
proof -
  have "round_to float_t (of_int v * (1 / 32768)) = Finite (of_int v / 32768)"
    using float_exact_int [of v "- 15"] assms by (simp add: pow2_def)
  then have f: "S16ToFloat v = Finite (of_int v / 32768)"
    using assms s16_float_exact [of v] by (simp add: S16ToFloat_def kMinInt16Inverse_eq)
  show ?thesis
  proof (cases "v = - 32768")
    case True
    then show ?thesis unfolding f FloatToS16_def by (simp add: imin_def)
  next
    case False
    have neg: "\<not> 0 < (of_int v :: rat) / 32768" "\<not> (of_int v :: rat) / 32768 < - 1" "(of_int v :: rat) / 32768 \<noteq> - 1"
      using assms False by (simp_all add: zero_less_divide_iff divide_less_eq divide_eq_eq)
    have m: "round_to float_t (of_int v) = Finite (of_int v)" using s16_float_exact [of v] assms by (simp add: s16_float_def)
    have "round_to float_t (of_int v + - 1 / 2) = Finite (of_int (2 * v - 1) / 2)"
      using half_exact [of "2 * v - 1"] assms by (simp add: diff_divide_distrib)
    moreover have "rat_trunc (of_int (2 * v - 1) / 2) = v" using assms by (simp add: rat_trunc_def ceiling_eq_iff)
    then have "to_s16 (Finite (of_int (2 * v - 1) / 2)) = Inr v" using assms to_s16_trunc [of "of_int (2 * v - 1) / 2"] by (simp add: limit_defs)
    ultimately show ?thesis using neg m by (simp add: f FloatToS16_def s16_limits)
  qed
qed

lemma inverse_close: "\<exists>c. kMaxInt16Inverse = Finite c \<and> \<bar>c - 1 / 32767\<bar> \<le> 1 / 32767 * pow2 (- 24)"
  using float_error [of "1 / 32767"] by (simp add: kMaxInt16Inverse_def s16_limits pow2_def)

lemma normal_range: "1 / 40000 \<le> x \<Longrightarrow> x \<le> 40000 \<Longrightarrow> pow2 (- 126) \<le> x \<and> x \<le> pow2 100"
  by (simp add: pow2_def)

lemma float_close: "1 / 40000 \<le> x \<Longrightarrow> x \<le> 40000 \<Longrightarrow> \<exists>y. round_to float_t x = Finite y \<and> \<bar>y - x\<bar> \<le> x / 16777216"
  using float_error [of x] normal_range [of x] by (simp add: pow2_def)

lemma roundtrip_pos:
  assumes "0 < v" "v \<le> 32767"
  shows "FloatToS16 (S16ToFloat v) = Inr v"
proof -
  define w :: rat where "w = of_int v"
  have w: "1 \<le> w" "w \<le> 32767" using assms by (simp_all add: w_def)
  obtain c where c: "kMaxInt16Inverse = Finite c" "\<bar>c - 1 / 32767\<bar> \<le> 1 / 32767 / 16777216"
    using inverse_close by (auto simp: pow2_def)
  then have c': "c \<le> 16777217 / 549739036672" "16777215 / 549739036672 \<le> c" by linarith+
  have t: "w * c \<le> w * (16777217 / 549739036672)" "w * (16777215 / 549739036672) \<le> w * c"
    using c' w(1) by (intro mult_left_mono; simp)+
  have r1: "1 / 40000 \<le> w * c" "w * c \<le> 40000" using t w by linarith+
  obtain f where f: "round_to float_t (w * c) = Finite f" "\<bar>f - w * c\<bar> \<le> w * c / 16777216"
    using float_close [OF r1] by (elim exE conjE)
  have "32767 * f - w \<le> w / 4000000" "w - 32767 * f \<le> w / 4000000" using f(2) t w by linarith+
  then have f32767: "\<bar>f * 32767 - w\<bar> \<le> 1 / 100" using w by linarith
  have r2: "1 / 40000 \<le> f * 32767" "f * 32767 \<le> 40000" using f32767 w by linarith+
  obtain g where g: "round_to float_t (f * 32767) = Finite g" "\<bar>g - f * 32767\<bar> \<le> f * 32767 / 16777216"
    using float_close [OF r2] by (elim exE conjE)
  have g': "\<bar>g - w\<bar> \<le> 2 / 100" using g(2) f32767 w by linarith
  have r3: "1 / 40000 \<le> g + 1 / 2" "g + 1 / 2 \<le> 40000" using g' w by linarith+
  obtain h where h: "round_to float_t (g + 1 / 2) = Finite h" "\<bar>h - (g + 1 / 2)\<bar> \<le> (g + 1 / 2) / 16777216"
    using float_close [OF r3] by (elim exE conjE)
  have "(g + 1 / 2) / 16777216 \<le> 1 / 100" using r3(2) by simp
  then have "\<bar>h - (g + 1 / 2)\<bar> \<le> 1 / 100" using h(2) by linarith
  then have "w \<le> h" "h < w + 1" using g' by linarith+
  then have "rat_trunc h = v" using w by (simp add: rat_trunc_def w_def floor_eq_iff)
  then have to: "to_s16 (Finite h) = Inr v" using assms to_s16_trunc [of h] by (simp add: limit_defs)
  have s: "S16ToFloat v = Finite f" using assms f(1) s16_float_exact [of v] by (simp add: S16ToFloat_def c(1) w_def)
  have pos: "0 < f" using f32767 w by linarith
  show ?thesis
  proof (cases "1 \<le> f")
    case True
    then have "32766 < w" using f32767 by linarith
    then have "v = 32767" using assms by (simp add: w_def)
    then show ?thesis unfolding s FloatToS16_def using True pos by (auto simp: imax_def)
  next
    case False
    then show ?thesis unfolding s FloatToS16_def using pos g(1) h(1) to by (simp add: s16_limits)
  qed
qed

lemma round_even_minus: "round_even (- x) = - round_even x"
proof (cases "x = of_int \<lfloor>x\<rfloor>")
  case True
  then have "round_even (- of_int \<lfloor>x\<rfloor>) = - round_even (of_int \<lfloor>x\<rfloor>)" using round_even_int [of "- \<lfloor>x\<rfloor>"] round_even_int [of "\<lfloor>x\<rfloor>"] by simp
  then show ?thesis using True by simp
next
  case False
  define f where "f = \<lfloor>x\<rfloor>"
  have "of_int f \<le> x" "x < of_int f + 1" "x \<noteq> of_int f" using False floor_correct [of x] by (auto simp: f_def)
  then have "of_int f < x" "x < of_int f + 1" by auto
  then have "\<lfloor>- x\<rfloor> = - f - 1" by (intro floor_unique) simp_all
  then show ?thesis by (auto simp: round_even_def Let_def f_def [symmetric])
qed

lemma round_to_minus: "0 < x \<Longrightarrow> round_to T (- x) = cf_neg (round_to T x)"
  by (auto simp: round_to_def Let_def round_even_minus)

lemma rounded_half:
  assumes "0 \<le> r" "r + 1 / 2 \<le> of_nat m" "m \<le> 32768"
  shows "\<exists>h. round_to float_t (r + 1 / 2) = Finite h \<and> 0 \<le> h \<and> 0 \<le> \<lfloor>h\<rfloor> \<and> \<lfloor>h\<rfloor> \<le> int m \<and> \<bar>of_int \<lfloor>h\<rfloor> - r\<bar> \<le> 1 / 2 + 1 / 500"
proof -
  have m: "(of_nat m :: rat) \<le> of_nat 32768" using assms(3) unfolding of_nat_le_iff .
  then have r: "1 / 40000 \<le> r + 1 / 2" "r + 1 / 2 \<le> 40000" using assms(1,2) by simp_all
  obtain h where h: "round_to float_t (r + 1 / 2) = Finite h" "\<bar>h - (r + 1 / 2)\<bar> \<le> (r + 1 / 2) / 16777216"
    using float_close [OF r] by (elim exE conjE)
  have b: "0 \<le> h" "h \<le> of_nat m" using float_bounded [of "r + 1 / 2" m] assms h(1) by auto
  have "(r + 1 / 2) / 16777216 \<le> 1 / 500" using assms(2) m by simp
  then have e: "\<bar>h - (r + 1 / 2)\<bar> \<le> 1 / 500" using h(2) by linarith
  have "\<lfloor>h\<rfloor> \<le> int m" using b(2) by (metis floor_mono floor_of_nat)
  moreover have "\<bar>of_int \<lfloor>h\<rfloor> - r\<bar> \<le> 1 / 2 + 1 / 500" using e of_int_floor_le [of h] floor_correct [of h] by linarith
  ultimately show ?thesis using h(1) b(1) by simp
qed

lemma rounding_limits: "kMaxRound = Finite (65533 / 2)" "kMinRound = Finite (- 65535 / 2)"
  using half_exact [of 65533] half_exact [of "- 65535"] by (simp_all add: kMaxRound_def kMinRound_def s16_limits)

definition nearest_s16 :: "rat \<Rightarrow> int \<Rightarrow> bool" where
  "nearest_s16 r q \<longleftrightarrow> in_type int16_t q \<and> \<bar>of_int q - max (- 32768) (min 32767 r)\<bar> \<le> 1 / 2 + 1 / 500"

lemma FloatS16ToS16_finite: "\<exists>q. FloatS16ToS16 (Finite r) = Inr q \<and> nearest_s16 r q"
proof (cases "0 < r")
  case True
  show ?thesis
  proof (cases "r < 65533 / 2")
    case False
    then show ?thesis using True by (auto simp: FloatS16ToS16_def rounding_limits nearest_s16_def limit_defs)
  next
    case small: True
    obtain h where h: "round_to float_t (r + 1 / 2) = Finite h" "0 \<le> h" "0 \<le> \<lfloor>h\<rfloor>" "\<lfloor>h\<rfloor> \<le> 32767" "\<bar>of_int \<lfloor>h\<rfloor> - r\<bar> \<le> 1 / 2 + 1 / 500"
      using rounded_half [of r 32767] True small by auto
    have "to_s16 (Finite h) = Inr \<lfloor>h\<rfloor>" using h(2-4) to_s16_trunc [of h] by (simp add: rat_trunc_def limit_defs del: floor_le_iff floor_le_numeral zero_le_floor)
    then have "FloatS16ToS16 (Finite r) = Inr \<lfloor>h\<rfloor>" using h(1) True small by (simp add: FloatS16ToS16_def rounding_limits)
    moreover have "max (- 32768) (min 32767 r) = r" using True small by simp
    moreover have "in_type int16_t q" if "0 \<le> q" "q \<le> 32767" for q using that by (simp add: limit_defs)
    ultimately show ?thesis using h(3-5) unfolding nearest_s16_def by metis
  qed
next
  case False
  show ?thesis
  proof (cases "- 65535 / 2 < r")
    case False
    then show ?thesis using \<open>\<not> 0 < r\<close> by (auto simp: FloatS16ToS16_def rounding_limits nearest_s16_def limit_defs)
  next
    case small: True
    obtain h where h: "round_to float_t (- r + 1 / 2) = Finite h" "0 \<le> h" "0 \<le> \<lfloor>h\<rfloor>" "\<lfloor>h\<rfloor> \<le> 32768" "\<bar>of_int \<lfloor>h\<rfloor> - (- r)\<bar> \<le> 1 / 2 + 1 / 500"
      using rounded_half [of "- r" 32768] False small by auto
    have "round_to float_t (- (- r + 1 / 2)) = Finite (- h)" using round_to_minus [of "- r + 1 / 2" float_t] False h(1) by simp
    then have n: "round_to float_t (r + - 1 / 2) = Finite (- h)" by (simp add: algebra_simps)
    have t: "rat_trunc (- h) = - \<lfloor>h\<rfloor>" using h(2) by (auto simp: rat_trunc_def ceiling_minus)
    have "in_type int16_t (- \<lfloor>h\<rfloor>)" using h(3,4) by (simp add: limit_defs del: floor_le_numeral zero_le_floor)
    then have "to_s16 (Finite (- h)) = Inr (- \<lfloor>h\<rfloor>)" using to_s16_trunc [of "- h"] t by simp
    then have "FloatS16ToS16 (Finite r) = Inr (- \<lfloor>h\<rfloor>)" using n False small by (simp add: FloatS16ToS16_def rounding_limits)
    moreover have "max (- 32768) (min 32767 r) = r" using False small by simp
    moreover have "\<bar>of_int (- \<lfloor>h\<rfloor>) - r\<bar> \<le> 1 / 2 + 1 / 500" using h(5) unfolding of_int_minus by linarith
    ultimately show ?thesis using \<open>in_type int16_t (- \<lfloor>h\<rfloor>)\<close> by (auto simp: nearest_s16_def)
  qed
qed

section \<open>Downmixing\<close>

definition frame_sum :: "int list list \<Rightarrow> nat \<Rightarrow> nat \<Rightarrow> int" where
  "frame_sum chs k i = (\<Sum>c < k. chs ! c ! i)"

definition frame_average :: "int list list \<Rightarrow> nat \<Rightarrow> int" where
  "frame_average chs i = frame_sum chs (length chs) i sdiv int (length chs)"

definition s16_channels :: "int list list \<Rightarrow> nat \<Rightarrow> bool" where
  "s16_channels chs spc \<longleftrightarrow> chs \<noteq> [] \<and> length chs < 2 ^ 16 \<and> (\<forall>ch \<in> set chs. length ch = spc \<and> (\<forall>v \<in> set ch. in_type int16_t v))"

lemma frame_sum_bound:
  assumes "s16_channels chs spc" "i < spc" "k \<le> length chs"
  shows "- (int k * 32768) \<le> frame_sum chs k i" "frame_sum chs k i \<le> int k * 32767"
proof -
  have "- 32768 \<le> chs ! c ! i \<and> chs ! c ! i \<le> 32767" if "c < k" for c
  proof -
    have "chs ! c \<in> set chs" using that assms(3) by simp
    then have "length (chs ! c) = spc" "\<forall>v \<in> set (chs ! c). in_type int16_t v" using assms(1) by (auto simp: s16_channels_def)
    then show ?thesis using assms(2) by (auto simp: limit_defs)
  qed
  then show "- (int k * 32768) \<le> frame_sum chs k i" "frame_sum chs k i \<le> int k * 32767"
    unfolding frame_sum_def using sum_bounded_below [of "{..<k}" "- 32768" "\<lambda>c. chs ! c ! i"] sum_bounded_above [of "{..<k}" "\<lambda>c. chs ! c ! i" 32767] by simp_all
qed

lemma frame_sum_int32: "s16_channels chs spc \<Longrightarrow> i < spc \<Longrightarrow> k \<le> length chs \<Longrightarrow> in_int32 (frame_sum chs k i)"
proof -
  assume a: "s16_channels chs spc" "i < spc" "k \<le> length chs"
  then have "int k < 65536" by (auto simp: s16_channels_def)
  then show ?thesis using frame_sum_bound [OF a] by (simp add: in_int32_def)
qed

lemma sdiv_between: "0 < n \<Longrightarrow> - (n * m) \<le> x \<Longrightarrow> x \<le> n * p \<Longrightarrow> 0 \<le> m \<Longrightarrow> 0 \<le> p \<Longrightarrow> - m \<le> x sdiv n \<and> x sdiv n \<le> p" for n m p x :: int
proof (cases "0 \<le> x")
  case True
  assume a: "0 < n" "x \<le> n * p" "0 \<le> m"
  have "x div n \<le> p" using a by (metis div_le_mono zdiv_mono1 nonzero_mult_div_cancel_left less_irrefl)
  then show ?thesis using True a by (simp add: sdiv_nonneg_eq pos_imp_zdiv_nonneg_iff) (smt (verit) pos_imp_zdiv_nonneg_iff)
next
  case False
  assume a: "0 < n" "- (n * m) \<le> x" "0 \<le> p"
  have "- x div n \<le> m" using a by (metis minus_le_iff zdiv_mono1 nonzero_mult_div_cancel_left less_irrefl)
  moreover have "x sdiv n = - ((- x) div n)" using False a by (simp add: signed_divide_int_def sgn_if)
  moreover have "0 \<le> - x div n" using False a by (simp add: pos_imp_zdiv_nonneg_iff)
  ultimately show ?thesis using a by linarith
qed

lemma average_ok:
  assumes "s16_channels chs spc" "i < spc"
  shows "c_div (frame_sum chs (length chs) i) (int (length chs)) = Inr (frame_average chs i)" "in_type int16_t (frame_average chs i)"
proof -
  have n: "0 < int (length chs)" using assms by (simp add: s16_channels_def)
  have b: "- 32768 \<le> frame_average chs i \<and> frame_average chs i \<le> 32767"
    unfolding frame_average_def using frame_sum_bound [OF assms order_refl] n by (intro sdiv_between) simp_all
  then show "in_type int16_t (frame_average chs i)" by (simp add: limit_defs)
  show "c_div (frame_sum chs (length chs) i) (int (length chs)) = Inr (frame_average chs i)"
    using n b by (simp add: c_div_def frame_average_def [symmetric] c_int32_def in_int32_def)
qed

lemma DownmixToMono_ok:
  assumes chs: "s16_channels chs spc" and out: "length out = spc"
  shows "DownmixToMono chs spc (int (length chs)) out = Inr (map (frame_average chs) [0..<spc])"
proof -
  let ?P = "\<lambda>i o'. length o' = spc \<and> (\<forall>q < i. o' ! q = frame_average chs q)"
  have "\<exists>o'. DownmixToMono chs spc (int (length chs)) out = Inr o' \<and> ?P spc o'"
    unfolding DownmixToMono_def
  proof (rule for_loop_rule [where P = ?P])
    show "?P 0 out" using out by simp
    fix i o'
    assume i: "i < spc" and P: "?P i o'"
    have ne: "0 < length chs" using chs by (simp add: s16_channels_def)
    have len: "length (chs ! k) = spc" if "k < length chs" for k using chs that by (simp add: s16_channels_def)
    have "\<exists>s. for_loop 1 (nat (int (length chs))) (\<lambda>j value. rbind (rd chs j) (\<lambda>ch. rbind (rd ch i) (\<lambda>v. c_int32 (value + v)))) (chs ! 0 ! i) = Inr s \<and>
        s = frame_sum chs (nat (int (length chs))) i"
    proof (rule for_loop_rule [where P = "\<lambda>j s. s = frame_sum chs j i"])
      show "chs ! 0 ! i = frame_sum chs 1 i" by (simp add: frame_sum_def)
      show "1 \<le> nat (int (length chs))" using ne by (simp add: Suc_le_eq)
      fix j s
      assume j: "j < nat (int (length chs))" and s: "s = frame_sum chs j i"
      have "frame_sum chs (Suc j) i = s + chs ! j ! i" by (simp add: s frame_sum_def)
      then show "\<exists>s'. rbind (rd chs j) (\<lambda>ch. rbind (rd ch i) (\<lambda>v. c_int32 (s + v))) = Inr s' \<and> s' = frame_sum chs (Suc j) i"
        using j len [of j] i frame_sum_int32 [OF chs i, of "Suc j"] by (simp add: rd_def c_int32_ok)
    qed
    then show "\<exists>s'. rbind (rd chs 0) (\<lambda>ch. rbind (rd ch i) (\<lambda>v0. rbind (for_loop 1 (nat (int (length chs)))
        (\<lambda>j value. rbind (rd chs j) (\<lambda>ch. rbind (rd ch i) (\<lambda>v. c_int32 (value + v)))) v0) (\<lambda>value.
        rbind (c_div value (int (length chs))) (\<lambda>q. wr o' i (wrap int16_t q))))) = Inr s' \<and> ?P (Suc i) s'"
      using ne len [of 0] i P average_ok [OF chs i] by (auto simp: rd_def wr_def wrap_id nth_list_update less_Suc_eq)
  qed simp
  then obtain o' where o: "DownmixToMono chs spc (int (length chs)) out = Inr o'" "length o' = spc" "\<forall>q < spc. o' ! q = frame_average chs q" by blast
  have "o' = map (frame_average chs) [0..<spc]" using o(2,3) by (intro nth_equalityI) simp_all
  then show ?thesis using o(1) by simp
qed

definition interleaves :: "'a list \<Rightarrow> 'a list list \<Rightarrow> nat \<Rightarrow> bool" where
  "interleaves x chs spc \<longleftrightarrow> length x = spc * length chs \<and> (\<forall>i < length chs. \<forall>j < spc. x ! (j * length chs + i) = chs ! i ! j)"

lemma sum_frame_ok:
  assumes chs: "s16_channels chs spc" and x: "interleaves x chs spc" and i: "i < spc" and k: "k \<le> length chs"
  shows "sum_frame x (i * length chs + k) (i * length chs + length chs) (frame_sum chs k i) = Inr (i * length chs + length chs, frame_sum chs (length chs) i)"
  using k
proof (induction "length chs - k" arbitrary: k)
  case 0
  then show ?case by (subst sum_frame.simps) simp
next
  case (Suc m)
  then have lt: "k < length chs" by simp
  have "i * length chs + k < length x" using strided_index [OF lt i] x by (simp add: interleaves_def)
  then have r: "rd x (i * length chs + k) = Inr (chs ! k ! i)" using x lt i by (simp add: rd_def interleaves_def)
  have s: "frame_sum chs (Suc k) i = frame_sum chs k i + chs ! k ! i" by (simp add: frame_sum_def)
  have "sum_frame x (i * length chs + Suc k) (i * length chs + length chs) (frame_sum chs (Suc k) i) = Inr (i * length chs + length chs, frame_sum chs (length chs) i)"
    using Suc lt by (intro Suc.hyps(1)) auto
  then show ?case using lt r s frame_sum_int32 [OF chs i, of "Suc k"] by (subst sum_frame.simps) (simp add: c_int32_ok)
qed

lemma downmix_loop_ok:
  assumes chs: "s16_channels chs spc" and x: "interleaves x chs spc"
  shows "i \<le> spc \<Longrightarrow> length out = spc \<Longrightarrow>
    downmix_loop x (i * length chs) (spc * length chs) (int (length chs)) i out = Inr (take i out @ map (frame_average chs) [i..<spc])"
proof (induction "spc - i" arbitrary: i out)
  case 0
  then show ?case by (subst downmix_loop.simps) simp
next
  case (Suc m)
  then have i: "i < spc" by simp
  have n: "0 < length chs" using chs by (simp add: s16_channels_def)
  have "i * length chs + 0 < spc * length chs" by (rule strided_index [OF n i])
  then have lt: "i * length chs < spc * length chs" by simp
  have r: "rd x (i * length chs) = Inr (frame_sum chs 1 i)" using x lt i n by (force simp: rd_def interleaves_def frame_sum_def)
  have f: "sum_frame x (i * length chs + 1) (i * length chs + nat (int (length chs))) (frame_sum chs 1 i) = Inr (Suc i * length chs, frame_sum chs (length chs) i)"
    using sum_frame_ok [OF chs x i, of 1] n by (simp add: Suc_le_eq add.commute)
  have w: "wr out i (wrap int16_t (frame_average chs i)) = Inr (out[i := frame_average chs i])"
    using average_ok(2) [OF chs i] Suc.prems i by (simp add: wr_def wrap_id)
  have ih: "downmix_loop x (Suc i * length chs) (spc * length chs) (int (length chs)) (Suc i) (out[i := frame_average chs i]) =
      Inr (take (Suc i) (out[i := frame_average chs i]) @ map (frame_average chs) [Suc i..<spc])"
    using Suc i by (intro Suc.hyps(1)) auto
  have t: "take (Suc i) (out[i := frame_average chs i]) = take i out @ [frame_average chs i]"
    using Suc.prems i by (simp add: take_Suc_conv_app_nth take_update_cancel)
  show ?case using lt r f average_ok(1) [OF chs i] w ih t i upt_conv_Cons [OF i] by (subst downmix_loop.simps) simp
qed

lemma DownmixInterleaved_ok:
  assumes chs: "s16_channels chs spc" and x: "interleaves x chs spc" and out: "length out = spc" and n: "0 < spc" "spc * length chs < size_mod"
  shows "DownmixInterleavedToMonoImpl on x spc (int (length chs)) out = Inr (map (frame_average chs) [0..<spc])"
proof -
  have c: "0 < length chs" "length chs < 2 ^ 16" using chs by (simp_all add: s16_channels_def)
  then have "to_size_t (int (length chs)) = length chs" by (simp add: to_size_t_nonneg in_int32_def)
  then show ?thesis using c x n downmix_loop_ok [OF chs x, of 0 out] out
    by (simp add: DownmixInterleavedToMonoImpl_def sz_mul_small interleaves_def)
qed

lemma Interleave_interleaves:
  assumes "\<forall>ch \<in> set chs. length ch = spc" "length out = spc * length chs" "length out < size_mod"
  obtains x where "Interleave chs spc (length chs) out = Inr x" "interleaves x chs spc"
proof -
  let ?n = "length chs"
  obtain x where x: "Interleave chs spc ?n out = Inr x" "length x = length out"
    "\<forall>p < length out. x ! p = (if p mod ?n < ?n \<and> p div ?n < spc then chs ! (p mod ?n) ! (p div ?n) else out ! p)"
    using Interleave_ok [of chs ?n spc out] assms by auto
  have "x ! (j * ?n + i) = chs ! i ! j" if "i < ?n" "j < spc" for i j
    using x(3) strided_index [OF that] assms(2) that position_cases [OF that(1), of "j * ?n + i" j] by simp
  then show ?thesis using that x(1,2) assms(2) by (simp add: interleaves_def)
qed

lemma Deinterleave_interleaves:
  assumes "\<forall>ch \<in> set chs. length ch = spc" "interleaves x chs spc" "length x < size_mod" "length bufs = length chs" "\<forall>b \<in> set bufs. length b = spc"
  shows "Deinterleave x spc (length chs) bufs = Inr chs"
proof -
  have "map (\<lambda>i. map (\<lambda>j. x ! (j * length chs + i)) [0..<spc]) [0..<length chs] = chs"
    using assms(1,2) by (intro nth_equalityI) (auto simp: interleaves_def intro!: nth_equalityI)
  then show ?thesis using Deinterleave_ok [of bufs "length chs" spc x] assms by (simp add: interleaves_def)
qed

section \<open>Properties\<close>

text \<open>Interleaving channels of equal length puts sample \<open>j\<close> of channel \<open>i\<close> at \<open>j * num_channels + i\<close> without leaving a buffer, and
    deinterleaving the result into any buffers of the right size gives the channels back.\<close>
theorem interleave_roundtrip:
  assumes "\<forall>ch \<in> set chs. length ch = spc" "length out = spc * length chs" "length out < size_mod"
    "length bufs = length chs" "\<forall>b \<in> set bufs. length b = spc"
  shows "\<exists>x. Interleave chs spc (length chs) out = Inr x \<and> length x = length out \<and>
    (\<forall>i < length chs. \<forall>j < spc. x ! (j * length chs + i) = chs ! i ! j) \<and> Deinterleave x spc (length chs) bufs = Inr chs"
proof -
  obtain x where x: "Interleave chs spc (length chs) out = Inr x" "interleaves x chs spc" using Interleave_interleaves [OF assms(1-3)] .
  have "Deinterleave x spc (length chs) bufs = Inr chs"
    using x(2) assms by (intro Deinterleave_interleaves) (simp_all add: interleaves_def)
  then show ?thesis using x assms(2) by (auto simp: interleaves_def)
qed

theorem interleave_roundtrip_witness:
  "\<exists>x. Interleave [[1, 2, 3], [4, 5, 6]] 3 2 (replicate 6 (0 :: int)) = Inr x \<and> Deinterleave x 3 2 [[7, 8, 9], [0, 0, 0]] = Inr [[1, 2, 3], [4, 5, 6]]"
proof -
  let ?c = "[[1, 2, 3], [4, 5, 6 :: int]]" and ?b = "[[7, 8, 9], [0, 0, 0 :: int]]"
  have p: "\<forall>ch \<in> set ?c. length ch = 3" "length (replicate 6 (0 :: int)) = 3 * length ?c" "length (replicate 6 (0 :: int)) < size_mod"
    "length ?b = length ?c" "\<forall>b \<in> set ?b. length b = 3" by (simp_all add: size_mod_def)
  have len: "length ?c = 2" by simp
  show ?thesis using interleave_roundtrip [OF p] unfolding len by (elim exE conjE) (intro exI conjI)
qed

text \<open>Claim C37. The two downmixes agree: on fewer than \<open>2^16\<close> channels of 16-bit samples, mixing the channels and mixing their interleaved
    form both return the averages of the frames, truncated towards zero, without overflow in the 32-bit sums.\<close>
theorem downmix_agree:
  assumes "s16_channels chs spc" "0 < spc" "length buf = spc * length chs" "length buf < size_mod" "length out = spc"
  shows "\<exists>x. Interleave chs spc (length chs) buf = Inr x \<and>
    DownmixInterleavedToMonoImpl on x spc (int (length chs)) out = Inr (map (frame_average chs) [0..<spc]) \<and>
    DownmixToMono chs spc (int (length chs)) out = Inr (map (frame_average chs) [0..<spc])"
proof -
  have "\<forall>ch \<in> set chs. length ch = spc" using assms(1) by (simp add: s16_channels_def)
  then obtain x where x: "Interleave chs spc (length chs) buf = Inr x" "interleaves x chs spc"
    using Interleave_interleaves assms(3,4) by metis
  then show ?thesis using DownmixInterleaved_ok [OF assms(1) x(2) assms(5,2), of on] DownmixToMono_ok [OF assms(1,5)] assms(3,4) by simp
qed

theorem downmix_agree_witness:
  "\<exists>x. Interleave [[100, - 7], [- 301, 8]] 2 2 (replicate 4 0) = Inr x \<and> DownmixInterleavedToMonoImpl True x 2 2 [0, 0] = Inr [- 100, 0]"
proof -
  let ?c = "[[100, - 7], [- 301, 8 :: int]]"
  have p: "s16_channels ?c 2" "0 < (2 :: nat)" "length (replicate 4 (0 :: int)) = 2 * length ?c" "length (replicate 4 (0 :: int)) < size_mod" "length [0, 0 :: int] = 2"
    by (simp_all add: s16_channels_def limit_defs size_mod_def)
  have len: "length ?c = 2" "int 2 = 2" by simp_all
  have avg: "map (frame_average ?c) [0..<2] = [- 100, 0]" by code_simp
  show ?thesis using downmix_agree [OF p, of True] unfolding len avg by (elim exE conjE) (intro exI conjI)
qed

text \<open>Claim C36. Every 16-bit sample survives the conversion to \<open>float\<close> and back, although the inverse of 32767 and both products are rounded.\<close>
theorem sample_roundtrip:
  assumes "in_type int16_t v"
  shows "FloatToS16 (S16ToFloat v) = Inr v"
  using assms roundtrip_pos [of v] roundtrip_nonpos [of v] by (cases "0 < v") (simp_all add: limit_defs)

theorem sample_roundtrip_witness: "FloatToS16 (S16ToFloat 12345) = Inr 12345"
proof -
  have "in_type int16_t 12345" by (simp add: limit_defs)
  then show ?thesis by (rule sample_roundtrip)
qed

text \<open>\<open>FloatS16ToS16\<close> saturates, and rounds every finite value to a sample within \<open>1/2 + 1/500\<close> of it: adding one half is itself rounded, so
    the result may miss the nearest sample by that much. A NaN passes all comparisons and reaches an undefined conversion, in \<open>FloatToS16\<close> too.\<close>

theorem float_s16_rounding:
  "\<exists>q. FloatS16ToS16 (Finite r) = Inr q \<and> nearest_s16 r q"
  "FloatS16ToS16 (Infinite n) = Inr (if n then imin int16_t else imax int16_t)"
  "FloatS16ToS16 NaN = Inl BadConversion" "FloatToS16 NaN = Inl BadConversion"
  using FloatS16ToS16_finite by (simp_all add: FloatS16ToS16_def FloatToS16_def rounding_limits s16_limits to_s16_def)

end
