(* ===== verification/Channel_Buffer.thy ===== *)
theory Channel_Buffer
  imports Audio_Util
begin

text \<open>
  \<open>common_audio/channel_buffer.h\<close>: \<open>ChannelBuffer<T>\<close>, one block of samples with two arrays of pointers into it, by band and by channel. A pointer
  into the block is its offset; the arrays of pointers start uninitialised. Shown: the constructor initialises every pointer, the regions
  they point to lie in the block and do not overlap, and both arrays give the same region for a band of a channel.
\<close>

record 'a ChannelBuffer =
  cb_data :: "'a list"
  cb_channel_ptrs :: "nat option list"
  cb_band_ptrs :: "nat option list"
  cb_num_frames :: size_t
  cb_num_frames_per_band :: size_t
  cb_num_allocated_channels :: size_t
  cb_num_channels :: size_t
  cb_num_bands :: size_t

definition data_ptr :: "nat \<Rightarrow> nat \<Rightarrow> nat option result" where
  \<comment> \<open>\<open>&data_[offset]\<close>, at most one past the end\<close>
  "data_ptr size_of_data offset = (if offset \<le> size_of_data then Inr (Some offset) else Inl OutOfBounds)"

definition ctor_body :: "size_t \<Rightarrow> size_t \<Rightarrow> size_t \<Rightarrow> nat \<Rightarrow> nat \<Rightarrow> nat option list \<times> nat option list \<Rightarrow> (nat option list \<times> nat option list) result" where
  \<comment> \<open>the body of the constructor's inner loop\<close>
  "ctor_body num_frames num_channels num_bands i j = (\<lambda>(channels, bands).
     rbind (data_ptr (sz_mul num_frames num_channels) (sz_add (sz_mul i num_frames) (sz_mul j (num_frames div num_bands)))) (\<lambda>p.
     rbind (wr channels (sz_add (sz_mul j num_channels) i) p) (\<lambda>channels.
     rbind (rd channels (sz_add (sz_mul j num_channels) i)) (\<lambda>q.
     rbind (wr bands (sz_add (sz_mul i num_bands) j) q) (\<lambda>bands.
     Inr (channels, bands))))))"

definition ChannelBuffer_ctor :: "size_t \<Rightarrow> size_t \<Rightarrow> size_t \<Rightarrow> 'a::zero ChannelBuffer result" where
  "ChannelBuffer_ctor num_frames num_channels num_bands =
     (if num_bands = 0 then Inl DivideByZero
      else
        let m = sz_mul num_channels num_bands
        in rbind (for_loop 0 num_channels (\<lambda>i. for_loop 0 num_bands (ctor_body num_frames num_channels num_bands i))
             (replicate m None, replicate m None)) (\<lambda>(channels, bands).
           Inr \<lparr>cb_data = replicate (sz_mul num_frames num_channels) 0, cb_channel_ptrs = channels, cb_band_ptrs = bands,
             cb_num_frames = num_frames, cb_num_frames_per_band = num_frames div num_bands, cb_num_allocated_channels = num_channels,
             cb_num_channels = num_channels, cb_num_bands = num_bands\<rparr>))"

definition ptr_at :: "nat option list \<Rightarrow> nat \<Rightarrow> nat result" where
  "ptr_at ps k = rbind (rd ps k) (\<lambda>p. case p of None \<Rightarrow> Inl Uninitialised | Some off \<Rightarrow> Inr off)"

definition cb_channels :: "bool \<Rightarrow> size_t \<Rightarrow> 'a ChannelBuffer \<Rightarrow> size_t result" where
  \<comment> \<open>\<open>channels(band)\<close>, as the index in \<open>channels_\<close> where the array it returns starts\<close>
  "cb_channels on band c = rbind (rtc_dcheck on (band < cb_num_bands c)) (\<lambda>_. Inr (sz_mul band (cb_num_allocated_channels c)))"

definition cb_bands :: "bool \<Rightarrow> size_t \<Rightarrow> 'a ChannelBuffer \<Rightarrow> size_t result" where
  "cb_bands on channel c = rbind (rtc_dcheck on (channel < cb_num_channels c)) (\<lambda>_. Inr (sz_mul channel (cb_num_bands c)))"

definition channel_sample :: "bool \<Rightarrow> size_t \<Rightarrow> nat \<Rightarrow> nat \<Rightarrow> 'a ChannelBuffer \<Rightarrow> 'a result" where
  \<comment> \<open>\<open>channels(band)[channel][sample]\<close>\<close>
  "channel_sample on band channel sample c =
     rbind (cb_channels on band c) (\<lambda>k. rbind (ptr_at (cb_channel_ptrs c) (k + channel)) (\<lambda>off. rd (cb_data c) (off + sample)))"

definition band_sample :: "bool \<Rightarrow> size_t \<Rightarrow> nat \<Rightarrow> nat \<Rightarrow> 'a ChannelBuffer \<Rightarrow> 'a result" where
  \<comment> \<open>\<open>bands(channel)[band][sample]\<close>\<close>
  "band_sample on channel band sample c =
     rbind (cb_bands on channel c) (\<lambda>k. rbind (ptr_at (cb_band_ptrs c) (k + band)) (\<lambda>off. rd (cb_data c) (off + sample)))"

definition cb_Slice :: "bool \<Rightarrow> nat option list \<Rightarrow> size_t \<Rightarrow> 'a ChannelBuffer \<Rightarrow> nat option list result" where
  "cb_Slice on out_ptrs start_frame c =
     rbind (rtc_dcheck on (start_frame < cb_num_frames c)) (\<lambda>_.
     for_loop 0 (cb_num_channels c) (\<lambda>i out_ptrs.
       rbind (ptr_at (cb_channel_ptrs c) i) (\<lambda>off.
       rbind (data_ptr (length (cb_data c)) (off + start_frame)) (\<lambda>p.
       wr out_ptrs i p))) out_ptrs)"

definition cb_size :: "'a ChannelBuffer \<Rightarrow> size_t" where
  "cb_size c = sz_mul (cb_num_frames c) (cb_num_allocated_channels c)"

definition set_num_channels :: "bool \<Rightarrow> size_t \<Rightarrow> 'a ChannelBuffer \<Rightarrow> 'a ChannelBuffer result" where
  "set_num_channels on num_channels c =
     rbind (rtc_dcheck on (num_channels \<le> cb_num_allocated_channels c)) (\<lambda>_. Inr (c\<lparr>cb_num_channels := num_channels\<rparr>))"

definition SetDataForTesting :: "'a list \<Rightarrow> size_t \<Rightarrow> 'a ChannelBuffer \<Rightarrow> 'a ChannelBuffer result" where
  "SetDataForTesting new_data n c =
     rbind (rtc_check (n = cb_size c) ''size == this->size()'') (\<lambda>_.
     if n \<le> length new_data \<and> n \<le> length (cb_data c)
     then Inr (c\<lparr>cb_data := take n new_data @ drop n (cb_data c)\<rparr>) else Inl OutOfBounds)"

section \<open>Layout\<close>

definition band_offset :: "size_t \<Rightarrow> size_t \<Rightarrow> nat \<Rightarrow> nat \<Rightarrow> nat" where
  \<comment> \<open>where band \<open>j\<close> of channel \<open>i\<close> starts\<close>
  "band_offset num_frames num_bands i j = i * num_frames + j * (num_frames div num_bands)"

lemma band_region:
  assumes "i < nc" "j < nb"
  shows "band_offset nf nb i j + nf div nb \<le> i * nf + nf" "band_offset nf nb i j + nf div nb \<le> nf * nc"
proof -
  have "Suc j * (nf div nb) \<le> nb * (nf div nb)" using assms(2) by (intro mult_le_mono1) simp
  also have "\<dots> \<le> nf" by simp
  finally show r: "band_offset nf nb i j + nf div nb \<le> i * nf + nf" by (simp add: band_offset_def)
  have "Suc i * nf \<le> nc * nf" using assms(1) by (intro mult_le_mono1) simp
  then show "band_offset nf nb i j + nf div nb \<le> nf * nc" using r by (simp add: mult.commute)
qed

lemma regions_disjoint:
  assumes "i < nc" "j < nb" "i' < nc" "j' < nb" "(i, j) \<noteq> (i', j')" "s < nf div nb" "s' < nf div nb"
  shows "band_offset nf nb i j + s \<noteq> band_offset nf nb i' j' + s'"
proof (cases "i = i'")
  case True
  then have "j \<noteq> j'" using assms(5) by simp
  then have "j * (nf div nb) + s \<noteq> j' * (nf div nb) + s'" using assms(6,7)
    by (metis add.commute div_mult_self3 div_less add_cancel_right_left gr_implies_not0 less_zeroE)
  then show ?thesis using True by (simp add: band_offset_def)
next
  case False
  have lt: "band_offset nf nb i j + s < i * nf + nf" "band_offset nf nb i' j' + s' < i' * nf + nf"
    using band_region(1) [OF assms(1,2), of nf] band_region(1) [OF assms(3,4), of nf] assms(6,7) by linarith+
  have ge: "i * nf \<le> band_offset nf nb i j + s" "i' * nf \<le> band_offset nf nb i' j' + s'" by (simp_all add: band_offset_def)
  have "Suc i * nf \<le> i' * nf \<or> Suc i' * nf \<le> i * nf" using False by (metis Suc_leI linorder_neqE_nat mult_le_mono1)
  then show ?thesis using lt ge by auto
qed

definition filled :: "size_t \<Rightarrow> size_t \<Rightarrow> size_t \<Rightarrow> (nat \<times> nat) set \<Rightarrow> nat option list \<times> nat option list \<Rightarrow> bool" where
  \<comment> \<open>the pointers of these pairs of channel and band are set in both arrays\<close>
  "filled nf nc nb D = (\<lambda>(chs, bds). length chs = nc * nb \<and> length bds = nc * nb \<and>
     (\<forall>(i, j) \<in> D. i < nc \<and> j < nb \<and> chs ! (j * nc + i) = Some (band_offset nf nb i j) \<and> bds ! (i * nb + j) = Some (band_offset nf nb i j)))"

lemma stride_unique: "i < n \<Longrightarrow> i' < n \<Longrightarrow> j * n + i = j' * n + i' \<longleftrightarrow> i = i' \<and> j = j'" for i i' j j' n :: nat
  using position_cases [of i' n "j * n + i" j'] by auto

lemma filled_insert:
  assumes "filled nf nc nb D (chs, bds)" "i < nc" "j < nb"
  shows "filled nf nc nb (insert (i, j) D) (chs[j * nc + i := Some (band_offset nf nb i j)], bds[i * nb + j := Some (band_offset nf nb i j)])"
  using assms strided_index [OF assms(2,3)] strided_index [OF assms(3,2)]
  by (auto simp: filled_def nth_list_update stride_unique mult.commute split: prod.splits)

lemma ctor_indices:
  assumes "i < nc" "j < nb" "nf * nc < size_mod" "nc * nb < size_mod"
  shows "sz_add (sz_mul i nf) (sz_mul j (nf div nb)) = band_offset nf nb i j"
    and "sz_add (sz_mul j nc) i = j * nc + i" and "sz_add (sz_mul i nb) j = i * nb + j"
proof -
  have o: "band_offset nf nb i j < size_mod" using band_region(2) [OF assms(1,2), of nf] assms(3) by linarith
  show "sz_add (sz_mul i nf) (sz_mul j (nf div nb)) = band_offset nf nb i j"
    using o by (simp add: band_offset_def sz_mul_small sz_add_small)
  show "sz_add (sz_mul j nc) i = j * nc + i"
    using strided_index [OF assms(1,2)] assms(4) by (simp add: sz_mul_small sz_add_small mult.commute)
  show "sz_add (sz_mul i nb) j = i * nb + j"
    using strided_index [OF assms(2,1)] assms(4) by (simp add: sz_mul_small sz_add_small)
qed

lemma ctor_body_ok:
  assumes "i < nc" "j < nb" "nf * nc < size_mod" "nc * nb < size_mod" "filled nf nc nb D (chs, bds)"
  shows "ctor_body nf nc nb i j (chs, bds) = Inr (chs[j * nc + i := Some (band_offset nf nb i j)], bds[i * nb + j := Some (band_offset nf nb i j)])"
proof -
  have "band_offset nf nb i j \<le> nf * nc" using band_region(2) [OF assms(1,2), of nf] by linarith
  moreover have "j * nc + i < length chs" "i * nb + j < length bds"
    using strided_index [OF assms(1,2)] strided_index [OF assms(2,1)] assms(5) by (auto simp: filled_def mult.commute)
  ultimately show ?thesis
    using assms(3) by (simp add: ctor_body_def ctor_indices [OF assms(1-4)] data_ptr_def wr_def rd_def sz_mul_small)
qed

lemma ctor_loops:
  assumes "nf * nc < size_mod" "nc * nb < size_mod"
  shows "\<exists>s. for_loop 0 nc (\<lambda>i. for_loop 0 nb (ctor_body nf nc nb i)) (replicate (nc * nb) None, replicate (nc * nb) None) = Inr s \<and>
    filled nf nc nb ({..<nc} \<times> {..<nb}) s"
proof (rule for_loop_rule [where P = "\<lambda>i. filled nf nc nb ({..<i} \<times> {..<nb})"])
  show "filled nf nc nb ({..<0} \<times> {..<nb}) (replicate (nc * nb) None, replicate (nc * nb) None)" by (simp add: filled_def)
  fix i s
  assume i: "i < nc" and s: "filled nf nc nb ({..<i} \<times> {..<nb}) s"
  let ?D = "\<lambda>j. {..<i} \<times> {..<nb} \<union> {i} \<times> {..<j}"
  have "\<exists>s'. for_loop 0 nb (ctor_body nf nc nb i) s = Inr s' \<and> filled nf nc nb (?D nb) s'"
  proof (rule for_loop_rule [where P = "\<lambda>j. filled nf nc nb (?D j)"])
    show "filled nf nc nb (?D 0) s" using s by simp
    fix j t
    assume j: "j < nb" and t: "filled nf nc nb (?D j) t"
    obtain chs bds where e: "t = (chs, bds)" by (cases t)
    have "?D (Suc j) = insert (i, j) (?D j)" by auto
    then show "\<exists>s'. ctor_body nf nc nb i j t = Inr s' \<and> filled nf nc nb (?D (Suc j)) s'"
      using ctor_body_ok [OF i j assms t [unfolded e]] filled_insert [OF t [unfolded e] i j] e by simp
  qed simp
  moreover have "?D nb = {..<Suc i} \<times> {..<nb}" by auto
  ultimately show "\<exists>s'. for_loop 0 nb (ctor_body nf nc nb i) s = Inr s' \<and> filled nf nc nb ({..<Suc i} \<times> {..<nb}) s'" by simp
qed simp

lemma ChannelBuffer_ctor_ok:
  assumes "0 < nb" "nf * nc < size_mod" "nc * nb < size_mod"
  shows "\<exists>chs bds. ChannelBuffer_ctor nf nc nb = Inr \<lparr>cb_data = replicate (nf * nc) (0::'a::zero), cb_channel_ptrs = chs, cb_band_ptrs = bds,
      cb_num_frames = nf, cb_num_frames_per_band = nf div nb, cb_num_allocated_channels = nc, cb_num_channels = nc, cb_num_bands = nb\<rparr> \<and>
    filled nf nc nb ({..<nc} \<times> {..<nb}) (chs, bds)"
  using ctor_loops [OF assms(2,3)] assms by (auto simp: ChannelBuffer_ctor_def sz_mul_small)

definition cb_shape :: "size_t \<Rightarrow> size_t \<Rightarrow> size_t \<Rightarrow> 'a ChannelBuffer \<Rightarrow> bool" where
  \<comment> \<open>what the constructor establishes and no operation changes\<close>
  "cb_shape nf nc nb c \<longleftrightarrow> length (cb_data c) = nf * nc \<and> cb_num_frames c = nf \<and> cb_num_frames_per_band c = nf div nb \<and>
     cb_num_allocated_channels c = nc \<and> cb_num_channels c \<le> nc \<and> cb_num_bands c = nb \<and> nf * nc < size_mod \<and> nc * nb < size_mod \<and>
     filled nf nc nb ({..<nc} \<times> {..<nb}) (cb_channel_ptrs c, cb_band_ptrs c)"

lemma ctor_shape:
  assumes "0 < nb" "nf * nc < size_mod" "nc * nb < size_mod"
  shows "\<exists>c. ChannelBuffer_ctor nf nc nb = Inr (c :: 'a::zero ChannelBuffer) \<and> cb_shape nf nc nb c \<and> cb_num_channels c = nc \<and>
    cb_data c = replicate (nf * nc) 0"
  using ChannelBuffer_ctor_ok [OF assms] assms by (fastforce simp: cb_shape_def)

lemma set_num_channels_shape: "cb_shape nf nc nb c \<Longrightarrow> set_num_channels True n c = Inr c' \<Longrightarrow> cb_shape nf nc nb c' \<and> cb_data c' = cb_data c"
  by (auto simp: set_num_channels_def cb_shape_def rtc_dcheck_def rbind_eq_Inr split: if_splits)

lemma SetDataForTesting_shape:
  assumes "cb_shape nf nc nb c" "length xs = nf * nc"
  shows "SetDataForTesting xs (nf * nc) c = Inr (c\<lparr>cb_data := xs\<rparr>)" "cb_shape nf nc nb (c\<lparr>cb_data := xs\<rparr>)"
  using assms by (simp_all add: SetDataForTesting_def cb_shape_def rtc_check_def cb_size_def sz_mul_small)

lemma sample_read:
  assumes "cb_shape nf nc nb c" "i < cb_num_channels c" "j < nb" "s < nf div nb"
  shows "channel_sample on j i s c = Inr (cb_data c ! (band_offset nf nb i j + s))"
    and "band_sample on i j s c = Inr (cb_data c ! (band_offset nf nb i j + s))"
proof -
  have i: "i < nc" using assms(1,2) by (simp add: cb_shape_def)
  have bd: "band_offset nf nb i j + s < nf * nc" using band_region(2) [OF i assms(3), of nf] assms(4) by linarith
  have idx: "j * nc + i < nc * nb" "i * nb + j < nc * nb"
    using strided_index [OF i assms(3)] strided_index [OF assms(3) i] by (simp_all add: mult.commute)
  have f: "cb_channel_ptrs c ! (j * nc + i) = Some (band_offset nf nb i j)" "cb_band_ptrs c ! (i * nb + j) = Some (band_offset nf nb i j)"
    "length (cb_channel_ptrs c) = nc * nb" "length (cb_band_ptrs c) = nc * nb"
    using assms(1,3) i by (auto simp: cb_shape_def filled_def)
  have "sz_mul j nc = j * nc" "sz_mul i nb = i * nb" using idx assms(1) by (simp_all add: sz_mul_small cb_shape_def)
  then show "channel_sample on j i s c = Inr (cb_data c ! (band_offset nf nb i j + s))"
    "band_sample on i j s c = Inr (cb_data c ! (band_offset nf nb i j + s))"
    using assms f idx bd by (simp_all add: channel_sample_def band_sample_def cb_channels_def cb_bands_def rtc_dcheck_def ptr_at_def rd_def cb_shape_def)
qed

lemma Slice_ok:
  assumes "cb_shape nf nc nb c" "0 < nb" "start < nf" "cb_num_channels c \<le> length ps"
  shows "\<exists>ps'. cb_Slice on ps start c = Inr ps' \<and> length ps' = length ps \<and>
    (\<forall>i < length ps. ps' ! i = (if i < cb_num_channels c then Some (i * nf + start) else ps ! i))"
proof -
  let ?P = "\<lambda>k ps'. length ps' = length ps \<and> (\<forall>i < length ps. ps' ! i = (if i < k then Some (i * nf + start) else ps ! i))"
  have "\<exists>ps'. for_loop 0 (cb_num_channels c) (\<lambda>i out_ptrs.
      rbind (ptr_at (cb_channel_ptrs c) i) (\<lambda>off. rbind (data_ptr (length (cb_data c)) (off + start)) (\<lambda>p. wr out_ptrs i p))) ps = Inr ps' \<and>
    ?P (cb_num_channels c) ps'"
  proof (rule for_loop_rule [where P = ?P])
    fix i ps'
    assume i: "i < cb_num_channels c" and P: "?P i ps'"
    have n: "i < nc" using i assms(1) by (simp add: cb_shape_def)
    have "i < nc * nb" using strided_index [OF n assms(2)] by (simp add: mult.commute)
    then have p: "ptr_at (cb_channel_ptrs c) i = Inr (i * nf)"
      using assms(1,2) n by (force simp: ptr_at_def rd_def cb_shape_def filled_def band_offset_def)
    have "i * nf + start \<le> length (cb_data c)"
      using strided_index [OF assms(3) n] assms(1) by (simp add: cb_shape_def mult.commute)
    then show "\<exists>s'. rbind (ptr_at (cb_channel_ptrs c) i) (\<lambda>off. rbind (data_ptr (length (cb_data c)) (off + start)) (\<lambda>p. wr ps' i p)) = Inr s' \<and> ?P (Suc i) s'"
      using p P i assms(4) by (auto simp: data_ptr_def wr_def nth_list_update)
  qed simp_all
  then show ?thesis using assms(1,3) by (simp add: cb_Slice_def cb_shape_def rtc_dcheck_def)
qed

section \<open>Properties\<close>

text \<open>Claim C38. \<open>ChannelBuffer\<close> lays its samples out as its comment draws them, with the checks on or off. For every number of frames and channels and
  every positive number of bands whose products fit \<open>size_t\<close> the constructor succeeds, and every sample reads zero. After the samples are
  set, \<open>channels(j)[i][s]\<close> and \<open>bands(i)[j][s]\<close> both read the sample \<open>s\<close> of band \<open>j\<close> of channel \<open>i\<close>, which is the element \<open>i * num_frames + j * (num_frames / num_bands) + s\<close> of
  the block; two different pairs of channel and band never share an element. \<open>Slice\<close> gives for every channel the element of its first
  frame, and writes no other pointer.
\<close>

theorem channel_buffer_layout:
  assumes "0 < nb" "nf * nc < size_mod" "nc * nb < size_mod" "length xs = nf * nc"
  shows "\<exists>c. ChannelBuffer_ctor nf nc nb = Inr (c :: 'a::zero ChannelBuffer) \<and>
    (\<forall>i < nc. \<forall>j < nb. \<forall>s < nf div nb. channel_sample on j i s c = Inr 0 \<and> band_sample on i j s c = Inr 0) \<and>
    (\<exists>d. SetDataForTesting xs (nf * nc) c = Inr d \<and>
      (\<forall>i < nc. \<forall>j < nb. \<forall>s < nf div nb. channel_sample on j i s d = Inr (xs ! (i * nf + j * (nf div nb) + s)) \<and>
        band_sample on i j s d = Inr (xs ! (i * nf + j * (nf div nb) + s))) \<and>
      (\<forall>start < nf. \<forall>ps. nc \<le> length ps \<longrightarrow> (\<exists>ps'. cb_Slice on ps start d = Inr ps' \<and> length ps' = length ps \<and>
        (\<forall>i < length ps. ps' ! i = (if i < nc then Some (i * nf + start) else ps ! i))))) \<and>
    (\<forall>i < nc. \<forall>j < nb. \<forall>i' < nc. \<forall>j' < nb. \<forall>s < nf div nb. \<forall>s' < nf div nb. (i, j) \<noteq> (i', j') \<longrightarrow>
      i * nf + j * (nf div nb) + s \<noteq> i' * nf + j' * (nf div nb) + s')"
proof -
  obtain c :: "'a ChannelBuffer" where c: "ChannelBuffer_ctor nf nc nb = Inr c" "cb_shape nf nc nb c" "cb_num_channels c = nc"
    "cb_data c = replicate (nf * nc) 0" using ctor_shape [OF assms(1-3), where 'a = 'a] by (elim exE conjE)
  let ?d = "c\<lparr>cb_data := xs\<rparr>"
  have d: "SetDataForTesting xs (nf * nc) c = Inr ?d" "cb_shape nf nc nb ?d" "cb_num_channels ?d = nc" "cb_data ?d = xs"
    using SetDataForTesting_shape [OF c(2) assms(4)] c(3) by simp_all
  have zero: "channel_sample on j i s c = Inr 0 \<and> band_sample on i j s c = Inr 0" if "i < nc" "j < nb" "s < nf div nb" for i j s
    using sample_read [OF c(2), of i j s on] band_region(2) [OF that(1,2), of nf] c(3,4) that by simp
  have read: "channel_sample on j i s ?d = Inr (xs ! (i * nf + j * (nf div nb) + s)) \<and> band_sample on i j s ?d = Inr (xs ! (i * nf + j * (nf div nb) + s))"
    if "i < nc" "j < nb" "s < nf div nb" for i j s
    using sample_read [OF d(2), of i j s on] d(3,4) that by (simp add: band_offset_def)
  have sl: "\<exists>ps'. cb_Slice on ps start ?d = Inr ps' \<and> length ps' = length ps \<and> (\<forall>i < length ps. ps' ! i = (if i < nc then Some (i * nf + start) else ps ! i))"
    if "start < nf" "nc \<le> length ps" for start ps
    using Slice_ok [OF d(2) assms(1) that(1), of ps on] that(2) unfolding d(3) .
  have dj: "\<forall>i < nc. \<forall>j < nb. \<forall>i' < nc. \<forall>j' < nb. \<forall>s < nf div nb. \<forall>s' < nf div nb. (i, j) \<noteq> (i', j') \<longrightarrow>
      i * nf + j * (nf div nb) + s \<noteq> i' * nf + j' * (nf div nb) + s'"
    using regions_disjoint [unfolded band_offset_def] by (intro allI impI)
  show ?thesis
    by (rule exI [of _ c], intro conjI exI [of _ ?d] c(1) d(1) dj) (intro allI impI zero read sl; assumption)+
qed

theorem channel_buffer_layout_witness:
  "\<exists>c d. ChannelBuffer_ctor 4 2 2 = Inr (c :: int ChannelBuffer) \<and> SetDataForTesting [1, 2, 3, 4, 5, 6, 7, 8] 8 c = Inr d \<and>
    channel_sample True 1 0 1 d = Inr 4 \<and> band_sample True 1 0 0 d = Inr 5"
proof -
  have ps: "(0::nat) < 2" "4 * 2 < size_mod" "2 * 2 < size_mod" "length [1, 2, 3, 4, 5, 6, 7, 8 :: int] = 4 * 2" by (simp_all add: size_mod_def)
  obtain c d where cd: "ChannelBuffer_ctor 4 2 2 = Inr (c :: int ChannelBuffer)" "SetDataForTesting [1, 2, 3, 4, 5, 6, 7, 8] (4 * 2) c = Inr d"
    and r: "\<forall>i < 2. \<forall>j < 2. \<forall>s < 4 div 2. channel_sample True j i s d = Inr ([1, 2, 3, 4, 5, 6, 7, 8] ! (i * 4 + j * (4 div 2) + s)) \<and>
      band_sample True i j s d = Inr ([1, 2, 3, 4, 5, 6, 7, 8] ! (i * 4 + j * (4 div 2) + s))"
    using channel_buffer_layout [OF ps, of True] by (elim exE conjE)
  have "channel_sample True 1 0 1 d = Inr 4" "band_sample True 1 0 0 d = Inr 5"
    using r [rule_format, of 0 1 1] r [rule_format, of 1 0 0] by simp_all
  then show ?thesis using cd by (intro exI conjI) simp_all
qed

end
