(* ===== verification/Spec2Isabelle.thy ===== *)
theory Spec2Isabelle
  imports Mixer_Streams Av_Handles Av_Utf Rtc_Numerics Rtc_Sequence Byte_Io Deque_Refinement Flat_Map
    Moving_Max Percentile_Filter Swap_Queue Linked_List Mru_Cache
    Spl_Inl Channel_Buffer
begin

text \<open>
  A verification development of the audio mixer of \<open>src/src\<close> and of the C++ and C header code it is
  built from, under \<open>src/libs/webrtc/include\<close> and \<open>src/libs/ffmpeg/include\<close>.

  \<^bold>\<open>The program.\<close> An \<open>AudioMixer\<close> (\<open>audio_mixer.cpp\<close>) owns a map from an ssrc to a source and registers
  each source with WebRTC's mixer, which keeps a raw pointer to it. A source is an
  \<open>AudioFileSource\<close>, which pulls samples from an \<open>AudioFileDecoder\<close> (FFmpeg demuxer and codec, a
  sample fifo) through an \<open>AudioResampler\<close>, or an \<open>AudioRecordSource\<close>, a queue of recorded samples in an
  \<open>rtc::BufferT\<close>. \<open>Mix\<close> makes the WebRTC mixer poll every registered source for 10 ms of samples
  and copies the mixed frame to the caller; \<open>AddRecordedData\<close> appends to the queue of a record source.

  \<^bold>\<open>Theories of the mixer.\<close>
  \<^item> \<open>Mixer_Prelude\<close>: outcomes that are not a normal return (failed checks, undefined behaviour) as the
    type \<open>fault\<close> and a result monad over it; \<open>int32_t\<close> and \<open>size_t\<close> arithmetic; floating-point values;
    blocks of memory with uninitialised cells.
  \<^item> \<open>Rtc_Buffer\<close>: \<open>rtc_base/buffer.h\<close>, every constructor and method of \<open>BufferT\<close>, with \<open>RTC_DCHECK\<close> on
    or off. Shown: no sequence of calls fails a check or leaves the allocation, appends build the
    concatenation, the zeroing variant leaves no secret in freed memory.
  \<^item> \<open>Av_Types\<close>, \<open>Av_Common\<close>, \<open>Av_Utf\<close>: data of \<open>libavutil\<close> (\<open>error.h\<close>, \<open>samplefmt.h\<close>, \<open>channel_layout.h\<close>,
    \<open>rational.h\<close>, \<open>mathematics.h\<close>) and the arithmetic helpers of \<open>common.h\<close> at their C widths, against
    mathematical specifications; its UTF-8 and UTF-16 coders as readers and writers of a stream of bytes, with the
    round trips between them.
  \<^item> \<open>Audio_Frame\<close>: the frame and the source interface of \<open>api/audio\<close>. \<open>UpdateFrame\<close> is compiled in a
    library that is not in the repository and is a parameter with its documented contract.
  \<^item> \<open>Audio_Source\<close>, \<open>Audio_Record_Source\<close>, \<open>Audio_Resampler\<close>, \<open>Audio_File_Decoder\<close>, \<open>Audio_File_Source\<close>:
    the classes of the same names, each object a record, each method a function on it. FFmpeg's
    functions are fields of a record of operations that every definition takes as an argument. The two
    decode loops may run for ever on an adversarial codec, so they are partial functions into
    \<open>option\<close>; they are proved to return when the stream is finite and the codec makes progress.
  \<^item> \<open>Std_Map\<close>, \<open>Audio_Mixer\<close>: \<open>std::map\<close> and the mixer over an explicit object store, so that an object
    destroyed by its \<open>shared_ptr\<close> while WebRTC still points to it is visible as \<open>UseAfterFree\<close>.
  \<^item> \<open>Mixer_Safety\<close>, \<open>Mixer_Properties\<close>: reachable states, the invariant that registered pointers are alive
    and owned by the map as long as every ssrc is used once, and what \<open>Mix\<close> delivers.
  \<^item> \<open>Mixer_Lifecycle\<close>: what \<open>Create\<close> rejects, removal as the inverse of addition, and the destructor.
  \<^item> \<open>Mixer_Streams\<close>: the abstract mixer, a finite map of sample queues with a step relation and guards, and
    the simulation from \<open>Create\<close> on for every guarded sequence of calls; recorded samples stay in order
    and leave a queue only in whole frames from its front.
  \<^item> \<open>Av_Handles\<close>: the deleters of \<open>avx_helper.h\<close> and the destructors of the FFmpeg owners: every handle of a file source is
    released once, by the function for its kind.

  \<^bold>\<open>Theories of the library headers.\<close>
  \<^item> \<open>Cpp_Types\<close>: the arithmetic types of C++, conversions, the usual arithmetic conversions, rounding.
  \<^item> \<open>Rtc_Numerics\<close>: \<open>safe_compare.h\<close>, \<open>safe_conversions.h\<close>, \<open>safe_conversions_impl.h\<close>, \<open>safe_minmax.h\<close>:
    comparisons and clamps agree with the mathematical ones for every pair of integer types.
  \<^item> \<open>Rtc_Units\<close>: \<open>time_delta.h\<close>, \<open>timestamp.h\<close>, \<open>data_size.h\<close>, \<open>data_rate.h\<close>, with 64-bit overflow and the
    infinite values. The locale \<open>unit_value\<close> is the contract of the four classes.
  \<^item> \<open>Rtc_Sequence\<close>: \<open>mod_ops.h\<close>, \<open>sequence_number_util.h\<close>, \<open>module_common_types_public.h\<close>. The locale
    \<open>unwrapping\<close> is the contract of an unwrapper and is met by both implementations.
  \<^item> \<open>Byte_Io\<close>: \<open>byte_io.h\<close> and \<open>byteorder.h\<close>: reading what was written gives the value, in either order.
  \<^item> \<open>Circular_Deque\<close>, \<open>Deque_Edit\<close>, \<open>Deque_Refinement\<close>: \<open>circular_deque.h\<close> and \<open>vector_buffer.h\<close>: the
    ring buffer refines a list for the whole interface (locale \<open>refined_container\<close>). The editing loops
    compare iterators and are partial functions into \<open>option\<close>; on a well-formed deque they return.
  \<^item> \<open>Container_Spec\<close>: the locale \<open>simulated_object\<close>, a concrete object that answers every guarded operation by a step of
    an abstract one, extended from single operations to sequences of them; met by the mixer. The
    locale \<open>refined_container\<close>, whose specification is a partial function, inherits from it (\<open>sublocale\<close>) and is
    met by the deque, \<open>flat_map\<close>, the swap queue, the linked list, the cache and the moving filters.
  \<^item> \<open>Flat_Tree\<close>, \<open>Flat_Batch\<close>, \<open>Flat_Map\<close>: \<open>flat_tree.h\<close> and \<open>flat_map.h\<close>: sorted vectors over any strict weak
    order (locale \<open>flat_order\<close>); inserting a range in one batch equals inserting one by one, and a
    \<open>flat_map\<close> refines a finite map.
  \<^item> \<open>Linked_List\<close>: \<open>linked_list.h\<close>: the intrusive list in a store of nodes, as its pointer assignments; it refines a list
    of nodes and writes nothing else.
  \<^item> \<open>Mru_Cache\<close>: \<open>mru_cache.h\<close>: the list in order of use and the index of iterators stay consistent, and together they are
    a list with the most recently used entry first, cut at its maximum.
  \<^item> \<open>Swap_Queue\<close>: \<open>swap_queue.h\<close>: a bounded FIFO queue under every order of the operations of producers and
    consumers; values are exchanged, never lost or duplicated.
  \<^item> \<open>Moving_Max\<close>, \<open>Percentile_Filter\<close>: \<open>moving_max_counter.h\<close>, \<open>percentile_filter.h\<close>, \<open>moving_median_filter.h\<close>: the maximum and the
    median of a moving window and the percentile of a multiset are those of the whole history; the
    index in binary32 is right up to \<open>2^24\<close> observations and runs off the end soon after.

  \<^item> \<open>Audio_Util\<close>: \<open>audio_util.h\<close>: conversions of samples in binary32, interleaving and downmixing. A 16-bit sample survives
    the way to \<open>float\<close> and back, interleaving is undone by deinterleaving, and the two downmixes agree.
  \<^item> \<open>Channel_Buffer\<close>: \<open>channel_buffer.h\<close>: the block of samples and the two arrays of pointers into it; both views read the
    same element, and different pairs of channel and band never share one.
  \<^item> \<open>Spl_Inl\<close>: \<open>spl_inl.h\<close> and the macros of \<open>signal_processing_library.h\<close>: leading zeros, norms, saturation, products in halves.
    The lookup table of the portable count is defined outside the repository and is a parameter.

  \<^bold>\<open>Interfaces.\<close> Each locale states what a client relies on and is interpreted on the definitions that
  model the provider, in the provider's theory; the properties use the interpreted facts.

  \<^bold>\<open>Bounds.\<close> No fuel is used. \<open>int32_t\<close> and \<open>int64_t\<close> results outside their range are the outcome
  \<open>SignedOverflow\<close>; \<open>size_t\<close> arithmetic wraps where the code computes with it. In \<open>Circular_Deque\<close> sizes
  are natural numbers, since an allocation of \<open>2^63\<close> bytes cannot succeed, except in iterator
  arithmetic, where the conversion from \<open>ptrdiff_t\<close> wraps.

  \<^bold>\<open>Not modelled.\<close> Threads and locks: the mixer itself has none, and each operation of the swap queue
  is one step, which is what its critical section makes it. The Djinni bindings
  and the platform projects hold no logic of the mixer. The WebRTC and FFmpeg
  libraries exist only as binaries and declarations; where the mixer calls them they are parameters.
  Templates are modelled at the level of values: object lifetimes inside \<open>T\<close>, exceptions thrown by its
  constructors, and arguments that alias an element of the container are left out.
\<close>

end
